(* ===== verification/Prelude.thy ===== *)
theory Prelude
  imports
    Main
    "HOL-Library.Word"
    "HOL-Library.AList"
    "HOL-Library.Monad_Syntax"
    "HOL-Library.List_Lexorder"
    "HOL-Library.Sublist"
begin

unbundle bit_operations_syntax

text \<open>
  Shared vocabulary of the development: byte strings (C++ \<^verbatim>\<open>std::string\<close> and
  \<^verbatim>\<open>std::string_view\<close>), the big-endian integer readers and writers that every component of
  the repository repeats privately (\<^verbatim>\<open>Put16/Put32/Put64/Get16/Get32/Get64\<close>), checked
  substring access, decimal printing (\<^verbatim>\<open>std::to_string\<close>), and the generic lemmas on lists,
  association lists and words that the component theories share.

  Conventions used everywhere:
  \<^item> a \<^verbatim>\<open>std::string\<close> is a list of bytes (\<open>8 word list\<close>); \<^verbatim>\<open>std::string::operator<\<close> compares
    unsigned bytes, which is the lexicographic order of \<open>List_Lexorder\<close>;
  \<^item> a fallible operation with an error string has type \<open>string + 'a\<close>, with \<open>Inl\<close> for
    \<^verbatim>\<open>return false\<close> and the text the code stores in \<^verbatim>\<open>*error\<close>;
  \<^item> an indexed read that C++ leaves undefined out of range, or a \<^verbatim>\<open>substr\<close> that throws, has
    type \<open>'a option\<close>; \<open>None\<close> is the undefined or exceptional outcome, so that memory safety
    is the statement that an operation is never \<open>None\<close>;
  \<^item> sizes and positions (\<^verbatim>\<open>std::size_t\<close>) are \<open>nat\<close>: they are lengths of objects in memory
    and sums of such a length with 32-bit values, which cannot wrap a 64-bit integer; integers
    that travel in messages or count without bound are words of their C++ width.
\<close>

section \<open>Types\<close>

type_synonym byte = "8 word"
type_synonym bytes = "byte list"
type_synonym u16 = "16 word"
type_synonym u32 = "32 word"
type_synonym u64 = "64 word"
type_synonym 'a result = "string + 'a"
type_synonym ('k, 'v) umap = "('k \<times> 'v) list"

text \<open>The bytes of a string literal of the source.\<close>

definition str :: "string \<Rightarrow> bytes" where
  "str s = map of_char s"

named_theorems codec_simps \<open>lengths and inverses of the integer writers and readers\<close>
named_theorems bounds_simps \<open>when a checked read succeeds\<close>

section \<open>Big-endian integers\<close>

text \<open>
  \<^verbatim>\<open>Put16\<close>, \<^verbatim>\<open>Put32\<close>, \<^verbatim>\<open>Put64\<close> append to an output string; the models return the bytes that
  are appended. The shift amounts are those of the loops of the source.
\<close>

definition Put16 :: "u16 \<Rightarrow> bytes" where
  "Put16 v = [ucast (drop_bit 8 v), ucast v]"

definition Put32 :: "u32 \<Rightarrow> bytes" where
  "Put32 v = map (\<lambda>shift. ucast (drop_bit shift v)) [24, 16, 8, 0]"

definition Put64 :: "u64 \<Rightarrow> bytes" where
  "Put64 v = map (\<lambda>shift. ucast (drop_bit shift v)) [56, 48, 40, 32, 24, 16, 8, 0]"

text \<open>The loop \<^verbatim>\<open>value = (value << 8) | byte\<close> shared by the readers.\<close>

definition be_value :: "bytes \<Rightarrow> 'a::len word" where
  "be_value bs = foldl (\<lambda>value b. push_bit 8 value OR ucast b) 0 bs"

definition Get16 :: "bytes \<Rightarrow> nat \<Rightarrow> u16 option" where
  "Get16 input pos = (if pos + 2 \<le> length input then Some (be_value (take 2 (drop pos input))) else None)"

definition Get32 :: "bytes \<Rightarrow> nat \<Rightarrow> u32 option" where
  "Get32 input pos = (if pos + 4 \<le> length input then Some (be_value (take 4 (drop pos input))) else None)"

definition Get64 :: "bytes \<Rightarrow> nat \<Rightarrow> u64 option" where
  "Get64 input pos = (if pos + 8 \<le> length input then Some (be_value (take 8 (drop pos input))) else None)"

text \<open>
  \<^verbatim>\<open>s.substr(pos, n)\<close> and \<^verbatim>\<open>assign(s, pos, n)\<close>: throw when \<open>pos\<close> is past the end, and stop at the
  end of the string.
\<close>

definition substr :: "bytes \<Rightarrow> nat \<Rightarrow> nat \<Rightarrow> bytes option" where
  "substr s pos n = (if pos \<le> length s then Some (take n (drop pos s)) else None)"

text \<open>A single checked byte read.\<close>

definition byte_at :: "bytes \<Rightarrow> nat \<Rightarrow> byte option" where
  "byte_at s pos = (if pos < length s then Some (s ! pos) else None)"

section \<open>Decimal printing\<close>

fun to_string :: "nat \<Rightarrow> bytes" where
  "to_string n = (if n < 10 then [48 + of_nat n] else to_string (n div 10) @ [48 + of_nat (n mod 10)])"

declare to_string.simps [simp del]

section \<open>Facts about the writers and readers\<close>

lemma length_Put16 [simp, codec_simps]: "length (Put16 v) = 2"
  by (simp add: Put16_def)

lemma length_Put32 [simp, codec_simps]: "length (Put32 v) = 4"
  by (simp add: Put32_def)

lemma length_Put64 [simp, codec_simps]: "length (Put64 v) = 8"
  by (simp add: Put64_def)

lemma be_step:
  fixes v :: "'a::len word"
  shows "push_bit 8 (drop_bit (8 + k) v) OR ucast (ucast (drop_bit k v) :: byte) = drop_bit k v"
proof (rule bit_word_eqI)
  fix n
  assume "n < LENGTH('a)"
  then show "bit (push_bit 8 (drop_bit (8 + k) v) OR ucast (ucast (drop_bit k v) :: byte)) n
      = bit (drop_bit k v) n"
    by (cases "n < 8") (auto simp: bit_simps)
qed

lemmas be_steps = be_step [where k = 0, simplified] be_step [where k = 8, simplified]
  be_step [where k = 16, simplified] be_step [where k = 24, simplified]
  be_step [where k = 32, simplified] be_step [where k = 40, simplified]
  be_step [where k = 48, simplified] be_step [where k = 56, simplified]

lemma drop_bit_beyond: "LENGTH('a) \<le> k \<Longrightarrow> drop_bit k (v :: 'a::len word) = 0"
  by (rule bit_word_eqI) (auto simp: bit_simps dest: bit_imp_le_length)

lemma be_value_Put16 [simp, codec_simps]: "be_value (Put16 v) = v"
  using be_steps(2) [of v] by (simp add: be_value_def Put16_def be_steps drop_bit_beyond)

lemma be_value_Put32 [simp, codec_simps]: "be_value (Put32 v) = v"
  using be_steps(4) [of v] by (simp add: be_value_def Put32_def be_steps drop_bit_beyond)

lemma be_value_Put64 [simp, codec_simps]: "be_value (Put64 v) = v"
  using be_steps(8) [of v] by (simp add: be_value_def Put64_def be_steps drop_bit_beyond)

lemma Get16_Some [bounds_simps]: "pos + 2 \<le> length s \<Longrightarrow> Get16 s pos = Some (be_value (take 2 (drop pos s)))"
  by (simp add: Get16_def)

lemma Get32_Some [bounds_simps]: "pos + 4 \<le> length s \<Longrightarrow> Get32 s pos = Some (be_value (take 4 (drop pos s)))"
  by (simp add: Get32_def)

lemma Get64_Some [bounds_simps]: "pos + 8 \<le> length s \<Longrightarrow> Get64 s pos = Some (be_value (take 8 (drop pos s)))"
  by (simp add: Get64_def)

lemma substr_Some [bounds_simps]: "pos \<le> length s \<Longrightarrow> substr s pos n = Some (take n (drop pos s))"
  by (simp add: substr_def)

lemma byte_at_Some [bounds_simps]: "pos < length s \<Longrightarrow> byte_at s pos = Some (s ! pos)"
  by (simp add: byte_at_def)

lemma Get16_None [bounds_simps]: "length s < pos + 2 \<Longrightarrow> Get16 s pos = None"
  by (simp add: Get16_def)

lemma Get32_None [bounds_simps]: "length s < pos + 4 \<Longrightarrow> Get32 s pos = None"
  by (simp add: Get32_def)

lemma Get64_None [bounds_simps]: "length s < pos + 8 \<Longrightarrow> Get64 s pos = None"
  by (simp add: Get64_def)

text \<open>Reading back what was written after a prefix of known length.\<close>

lemma Get16_at [simp]: "pos = length xs \<Longrightarrow> Get16 (xs @ Put16 v @ ys) pos = Some v"
  by (simp add: Get16_def)

lemma Get32_at [simp]: "pos = length xs \<Longrightarrow> Get32 (xs @ Put32 v @ ys) pos = Some v"
  by (simp add: Get32_def)

lemma Get64_at [simp]: "pos = length xs \<Longrightarrow> Get64 (xs @ Put64 v @ ys) pos = Some v"
  by (simp add: Get64_def)

lemma Get16_append [simp]: "pos + 2 \<le> length xs \<Longrightarrow> Get16 (xs @ ys) pos = Get16 xs pos"
  by (simp add: Get16_def)

lemma Get32_append [simp]: "pos + 4 \<le> length xs \<Longrightarrow> Get32 (xs @ ys) pos = Get32 xs pos"
  by (simp add: Get32_def)

lemma Get64_append [simp]: "pos + 8 \<le> length xs \<Longrightarrow> Get64 (xs @ ys) pos = Get64 xs pos"
  by (simp add: Get64_def)

text \<open>The writers invert the readers on byte strings of the right length.\<close>

lemma be_value_Nil [simp]: "be_value [] = 0"
  by (simp add: be_value_def)

lemma be_value_snoc: "be_value (xs @ [b]) = push_bit 8 (be_value xs) OR ucast b"
  by (simp add: be_value_def)

lemma bit_be_value_high:
  "8 * length xs \<le> n \<Longrightarrow> \<not> bit (be_value xs :: 'a::len word) n"
proof (induction xs arbitrary: n rule: rev_induct)
  case Nil
  then show ?case by simp
next
  case (snoc b xs)
  then have "8 \<le> n" and "8 * length xs \<le> n - 8" by auto
  with snoc.IH [of "n - 8"] show ?case
    by (auto simp: be_value_snoc bit_simps dest: bit_imp_le_length)
qed

lemma drop_bit_be_value_snoc:
  assumes "8 * Suc (length xs) \<le> LENGTH('a)"
  shows "drop_bit 8 (be_value (xs @ [b]) :: 'a::len word) = be_value xs"
proof (rule bit_word_eqI)
  fix n
  assume "n < LENGTH('a)"
  show "bit (drop_bit 8 (be_value (xs @ [b]) :: 'a word)) n = bit (be_value xs :: 'a word) n"
  proof (cases "8 * length xs \<le> n")
    case True
    then have "\<not> bit (be_value xs :: 'a word) n" by (rule bit_be_value_high)
    then show ?thesis by (auto simp: be_value_snoc bit_simps dest: bit_imp_le_length)
  next
    case False
    with assms show ?thesis by (auto simp: be_value_snoc bit_simps dest: bit_imp_le_length)
  qed
qed

lemma ucast_be_value_snoc:
  "8 \<le> LENGTH('a) \<Longrightarrow> ucast (be_value (xs @ [b]) :: 'a::len word) = (b :: byte)"
  by (rule bit_word_eqI) (auto simp: be_value_snoc bit_simps)

lemma be_value_byte:
  assumes "8 * length (xs @ b # ys) \<le> LENGTH('a)"
  shows "ucast (drop_bit (8 * length ys) (be_value (xs @ b # ys) :: 'a::len word)) = (b :: byte)"
  using assms
proof (induction ys rule: rev_induct)
  case Nil
  then show ?case by (simp add: ucast_be_value_snoc)
next
  case (snoc y ys)
  have "drop_bit (8 * length (ys @ [y])) (be_value (xs @ b # ys @ [y]) :: 'a word)
      = drop_bit (8 * length ys) (drop_bit 8 (be_value ((xs @ b # ys) @ [y])))"
    by (simp add: ac_simps)
  also have "\<dots> = drop_bit (8 * length ys) (be_value (xs @ b # ys))"
    using snoc.prems by (subst drop_bit_be_value_snoc) auto
  finally show ?case using snoc by simp
qed

lemma Put16_be_value [codec_simps]: "length xs = 2 \<Longrightarrow> Put16 (be_value xs) = xs"
proof -
  assume "length xs = 2"
  then obtain a b where xs: "xs = [a, b]"
    by (auto simp: length_Suc_conv numeral_eq_Suc)
  show ?thesis
    using
    be_value_byte [where 'a = 16, of "[]" a "[b]"]
    be_value_byte [where 'a = 16, of "[a]" b "[]"]
    by (simp add: xs Put16_def)
qed

lemma Put32_be_value [codec_simps]: "length xs = 4 \<Longrightarrow> Put32 (be_value xs) = xs"
proof -
  assume "length xs = 4"
  then obtain a b c d where xs: "xs = [a, b, c, d]"
    by (auto simp: length_Suc_conv numeral_eq_Suc)
  show ?thesis
    using
    be_value_byte [where 'a = 32, of "[]" a "[b, c, d]"]
    be_value_byte [where 'a = 32, of "[a]" b "[c, d]"]
    be_value_byte [where 'a = 32, of "[a, b]" c "[d]"]
    be_value_byte [where 'a = 32, of "[a, b, c]" d "[]"]
    by (simp add: xs Put32_def)
qed

lemma Put64_be_value [codec_simps]: "length xs = 8 \<Longrightarrow> Put64 (be_value xs) = xs"
proof -
  assume "length xs = 8"
  then obtain a b c d e f g h where xs: "xs = [a, b, c, d, e, f, g, h]"
    by (auto simp: length_Suc_conv numeral_eq_Suc)
  show ?thesis
    using
    be_value_byte [where 'a = 64, of "[]" a "[b, c, d, e, f, g, h]"]
    be_value_byte [where 'a = 64, of "[a]" b "[c, d, e, f, g, h]"]
    be_value_byte [where 'a = 64, of "[a, b]" c "[d, e, f, g, h]"]
    be_value_byte [where 'a = 64, of "[a, b, c]" d "[e, f, g, h]"]
    be_value_byte [where 'a = 64, of "[a, b, c, d]" e "[f, g, h]"]
    be_value_byte [where 'a = 64, of "[a, b, c, d, e]" f "[g, h]"]
    be_value_byte [where 'a = 64, of "[a, b, c, d, e, f]" g "[h]"]
    be_value_byte [where 'a = 64, of "[a, b, c, d, e, f, g]" h "[]"]
    by (simp add: xs Put64_def)
qed

lemma unat_bound: "unat (w :: 'a::len word) < 2 ^ LENGTH('a)"
  by (rule unsigned_less)

lemma unat_ucast_fits: "unat w < 2 ^ LENGTH('b) \<Longrightarrow> unat (ucast (w :: 'a::len word) :: 'b::len word) = unat w"
  by (simp add: unsigned_ucast_eq take_bit_nat_eq_self)

lemma unat_of_nat_fits: "n < 2 ^ LENGTH('a) \<Longrightarrow> unat (of_nat n :: 'a::len word) = n"
  by (simp add: unsigned_of_nat take_bit_nat_eq_self)

lemma of_nat_u64_zero:
  assumes "n < 2 ^ 64" and "of_nat n = (0 :: u64)"
  shows "n = 0"
  using assms unat_of_nat_fits [of n, where 'a = 64] by simp

lemma option_eqI: "(\<And>v. a = Some v \<longleftrightarrow> b = Some v) \<Longrightarrow> a = b"
  by (cases a; cases b) auto

section \<open>Decimal printing is injective\<close>

text \<open>Reading a decimal string back; only used to invert \<open>to_string\<close>.\<close>

definition of_digits :: "bytes \<Rightarrow> nat" where
  "of_digits ds = foldl (\<lambda>n d. 10 * n + (unat d - 48)) 0 ds"

lemma unat_digit: "k < 10 \<Longrightarrow> unat (48 + of_nat k :: byte) = 48 + k"
  by (simp add: unat_word_ariths unat_of_nat)

lemma of_digits_to_string: "of_digits (to_string n) = n"
proof (induction n rule: to_string.induct)
  case (1 n)
  show ?case
  proof (cases "n < 10")
    case True
    then show ?thesis by (simp add: to_string.simps [of n] of_digits_def unat_digit)
  next
    case False
    with 1 have "foldl (\<lambda>n d. 10 * n + (unat d - 48)) 0 (to_string (n div 10)) = n div 10"
      by (simp add: of_digits_def)
    with False show ?thesis by (simp add: to_string.simps [of n] of_digits_def unat_digit)
  qed
qed

lemma to_string_inject [simp]: "to_string m = to_string n \<longleftrightarrow> m = n"
  by (metis of_digits_to_string)

lemma to_string_digits: "c \<in> set (to_string n) \<Longrightarrow> 48 \<le> c \<and> c \<le> 57"
proof (induction n rule: to_string.induct)
  case (1 n)
  have digit: "k < 10 \<Longrightarrow> 48 \<le> (48 + of_nat k :: byte) \<and> (48 + of_nat k :: byte) \<le> 57" for k
    by (simp add: word_le_nat_alt unat_digit)
  show ?case
  proof (cases "n < 10")
    case True
    with 1 digit [of n] show ?thesis by (simp add: to_string.simps [of n])
  next
    case False
    with 1 digit [of "n mod 10"] show ?thesis by (auto simp: to_string.simps [of n])
  qed
qed

lemma to_string_no_byte: "c < 48 \<or> 57 < c \<Longrightarrow> c \<notin> set (to_string n)"
  using to_string_digits by force

text \<open>Two strings joined by a separator that does not occur in the first parts.\<close>

lemma append_sep_inject:
  assumes "c \<notin> set xs" and "c \<notin> set xs'"
  shows "xs @ c # ys = xs' @ c # ys' \<longleftrightarrow> xs = xs' \<and> ys = ys'"
  using assms
proof (induction xs arbitrary: xs')
  case Nil
  then show ?case by (cases xs') auto
next
  case (Cons x xs)
  then show ?case by (cases xs') auto
qed

section \<open>Association lists as unordered maps\<close>

text \<open>
  \<^verbatim>\<open>std::unordered_map\<close> is an association list with distinct keys: \<open>map_of\<close> is \<^verbatim>\<open>find\<close>,
  \<open>AList.update\<close> is \<^verbatim>\<open>operator[]=\<close>, \<open>AList.delete\<close> is \<^verbatim>\<open>erase(key)\<close>. The order of the list stands
  for the unspecified iteration order.
\<close>

definition umap_ok :: "('k, 'v) umap \<Rightarrow> bool" where
  "umap_ok m = distinct (map fst m)"

lemma umap_ok_Nil [simp]: "umap_ok []"
  by (simp add: umap_ok_def)

lemma umap_ok_single [simp]: "umap_ok [(k, v)]"
  by (simp add: umap_ok_def)

lemma umap_ok_update [simp]: "umap_ok m \<Longrightarrow> umap_ok (AList.update k v m)"
  by (simp add: umap_ok_def distinct_update)

lemma umap_ok_delete [simp]: "umap_ok m \<Longrightarrow> umap_ok (AList.delete k m)"
  by (simp add: umap_ok_def distinct_delete)

lemma umap_ok_filter [simp]: "umap_ok m \<Longrightarrow> umap_ok (filter P m)"
  by (simp add: umap_ok_def distinct_map_filter)

lemma map_of_update [simp]: "map_of (AList.update k v m) = (map_of m)(k \<mapsto> v)"
  by (rule update_conv')

lemma map_of_delete [simp]: "map_of (AList.delete k m) = (map_of m)(k := None)"
  by (rule delete_conv')

lemma map_of_in_set: "umap_ok m \<Longrightarrow> map_of m k = Some v \<longleftrightarrow> (k, v) \<in> set m"
  by (simp add: umap_ok_def)

lemma update_keys: "fst ` set (AList.update k v m) = insert k (fst ` set m)"
  by (metis dom_map_of_conv_image_fst dom_fun_upd map_of_update option.distinct(1))

lemma update_keys_present: "map_of m k \<noteq> None \<Longrightarrow> fst ` set (AList.update k v m) = fst ` set m"
  by (simp add: update_keys insert_absorb map_of_eq_None_iff)

lemma map_of_filter_key:
  "map_of (filter (\<lambda>((a, b), _). P a) m) (x, y) = (if P x then map_of m (x, y) else None)"
  by (induction m) auto

section \<open>Sorting by a key\<close>

lemma map_insort_key: "map f (insort_key f x xs) = insort (f x) (map f xs)"
  by (induction xs) auto

lemma map_sort_key: "map f (sort_key f xs) = sort (map f xs)"
  by (induction xs) (simp_all add: map_insort_key)

section \<open>Prefixes\<close>

text \<open>A strict prefix of a concatenation stops inside the first part or inside the second.\<close>

lemma strict_prefix_append_cases:
  assumes "strict_prefix p (xs @ ys)"
  obtains (first) "length p < length xs" | (second) q where "p = xs @ q" "strict_prefix q ys"
proof (cases "length p < length xs")
  case True
  then show thesis by (rule first)
next
  case False
  from assms obtain r where r: "p @ r = xs @ ys" "r \<noteq> []"
    by (auto simp: strict_prefix_def prefix_def)
  then obtain q where p: "p = xs @ q" using False by (auto simp: append_eq_append_conv2)
  with r have "q @ r = ys" by simp
  then have "strict_prefix q ys" using r(2) by (auto simp: strict_prefix_def)
  with p show thesis by (rule second)
qed

section \<open>Sequential input\<close>

text \<open>\<^verbatim>\<open>in.read(data, n)\<close> on the bytes not read yet; \<open>None\<close> is a failed stream.\<close>

definition in_read :: "nat \<Rightarrow> bytes \<Rightarrow> (bytes \<times> bytes) option" where
  "in_read n s = (if n \<le> length s then Some (take n s, drop n s) else None)"

lemma in_read_append [simp]: "n = length xs \<Longrightarrow> in_read n (xs @ s) = Some (xs, s)"
  by (simp add: in_read_def)

lemma in_read_all [simp]: "n = length xs \<Longrightarrow> in_read n xs = Some (xs, [])"
  by (simp add: in_read_def)

lemma word_less_add_1:
  fixes x :: "'a::len word"
  assumes "x + 1 \<noteq> 0"
  shows "x < x + 1"
  using unatSuc [of x] assms by (simp add: word_less_nat_alt add.commute)

end
