(* ===== verification/Protocol.thy ===== *)
theory Protocol
  imports Prelude
begin

text \<open>
  The wire protocol: \<^verbatim>\<open>include/mq/protocol/commands.h\<close> (commands, status codes, flags, the
  \<^verbatim>\<open>Request\<close> and \<^verbatim>\<open>Response\<close> structures) and \<^verbatim>\<open>src/protocol/protocol_codec.cc\<close>
  (\<^verbatim>\<open>ProtocolCodec\<close> and the stream decoder \<^verbatim>\<open>RequestStreamDecoder\<close>).

  Enumerations with a fixed underlying type can hold any byte after a \<^verbatim>\<open>static_cast\<close>; the
  constructors \<open>UnknownCommand\<close> and \<open>UnknownStatus\<close> stand for the values without an enumerator.
  The lemmas show: encoding and decoding are inverse to each other, decoding reads no byte
  out of range whatever the input, and the stream decoder returns the requests that were sent
  however the byte stream is cut into pieces.
\<close>

section \<open>Constants, commands and status codes\<close>

definition kMagic :: u16 where "kMagic = 0x4D51"
definition kCurrentVersion :: byte where "kCurrentVersion = 1"
definition kMaxPayloadBytes :: nat where "kMaxPayloadBytes = 1024 * 1024"

datatype Command =
    kCreateTopic | kDeleteTopic | kListTopic | kMetrics
  | kProduce | kProduceBatch
  | kSyncGroup | kOffsetFetch | kFetch | kCommitOffset | kJoinGroup
  | kHeartbeat
  | kReplicaFetch | kReplicaAppend | kReplicaVote
  | UnknownCommand byte

definition command_table :: "(Command \<times> byte) list" where
  "command_table =
    [(kCreateTopic, 0x01), (kDeleteTopic, 0x02), (kListTopic, 0x03), (kMetrics, 0x04),
     (kProduce, 0x10), (kProduceBatch, 0x11),
     (kSyncGroup, 0x20), (kOffsetFetch, 0x21), (kFetch, 0x22), (kCommitOffset, 0x23), (kJoinGroup, 0x24),
     (kHeartbeat, 0x30),
     (kReplicaFetch, 0x40), (kReplicaAppend, 0x41), (kReplicaVote, 0x42)]"

fun command_byte :: "Command \<Rightarrow> byte" where
  "command_byte (UnknownCommand b) = b"
| "command_byte c = the (map_of command_table c)"

definition command_of_byte :: "byte \<Rightarrow> Command" where
  "command_of_byte b = (case find (\<lambda>(_, code). code = b) command_table of
     Some (c, _) \<Rightarrow> c | None \<Rightarrow> UnknownCommand b)"

datatype Status =
    kOk | kBadRequest | kUnknownTopic | kTopicExists | kInvalidOffset | kStorageError
  | kVersionMismatch | kNotSupported | kNotLeader | kRateLimited | kQuotaExceeded
  | kResourceExhausted | kUnauthenticated | kPermissionDenied | kInternalError
  | UnknownStatus byte

definition status_table :: "(Status \<times> byte) list" where
  "status_table =
    [(kOk, 0x00), (kBadRequest, 0x10), (kUnknownTopic, 0x11), (kTopicExists, 0x12),
     (kInvalidOffset, 0x13), (kStorageError, 0x14), (kVersionMismatch, 0x15), (kNotSupported, 0x16),
     (kNotLeader, 0x17), (kRateLimited, 0x18), (kQuotaExceeded, 0x19), (kResourceExhausted, 0x1A),
     (kUnauthenticated, 0x1B), (kPermissionDenied, 0x1C), (kInternalError, 0x20)]"

fun status_byte :: "Status \<Rightarrow> byte" where
  "status_byte (UnknownStatus b) = b"
| "status_byte s = the (map_of status_table s)"

definition status_of_byte :: "byte \<Rightarrow> Status" where
  "status_of_byte b = (case find (\<lambda>(_, code). code = b) status_table of
     Some (s, _) \<Rightarrow> s | None \<Rightarrow> UnknownStatus b)"

definition kAckMask :: u16 where "kAckMask = 0x0003"
definition kAckZero :: u16 where "kAckZero = 0x0000"
definition kAckOne :: u16 where "kAckOne = 0x0001"
definition kAckAll :: u16 where "kAckAll = 0x0002"
definition kFlagProducerMetadata :: u16 where "kFlagProducerMetadata = 0x0004"
definition kFlagReplication :: u16 where "kFlagReplication = 0x0008"
definition kFlagReplicationTerm :: u16 where "kFlagReplicationTerm = 0x0010"
definition kFlagAuthentication :: u16 where "kFlagAuthentication = 0x0020"

section \<open>Requests and responses\<close>

record Request =
  req_version :: byte
  req_command :: Command
  req_id :: u64
  req_flags :: u16
  req_topic :: bytes
  req_payload :: bytes

definition default_Request :: Request where
  "default_Request = \<lparr>req_version = kCurrentVersion, req_command = kHeartbeat, req_id = 0, req_flags = 0,
     req_topic = [], req_payload = []\<rparr>"

record Response =
  resp_version :: byte
  resp_status :: Status
  resp_id :: u64
  resp_flags :: u16
  resp_payload :: bytes

definition default_Response :: Response where
  "default_Response = \<lparr>resp_version = kCurrentVersion, resp_status = kOk, resp_id = 0, resp_flags = 0,
     resp_payload = []\<rparr>"

section \<open>ProtocolCodec\<close>

definition ValidCommon :: "bytes \<Rightarrow> nat \<Rightarrow> nat \<Rightarrow> u32 \<Rightarrow> unit result option" where
  "ValidCommon frame header payload_offset payload_len =
    (if length frame < header then Some (Inl ''invalid magic or header'')
     else do {
       magic \<leftarrow> Get16 frame 0;
       Some (if magic \<noteq> kMagic then Inl ''invalid magic or header''
             else if unat payload_len > kMaxPayloadBytes \<or> unat payload_len \<noteq> length frame - payload_offset
             then Inl ''invalid payload length''
             else Inr ())
     })"

definition CheckString :: "bytes \<Rightarrow> nat \<Rightarrow> unit result" where
  "CheckString value limit = (if length value > limit then Inl ''field is too large'' else Inr ())"

definition EncodeRequest :: "Request \<Rightarrow> bytes result" where
  "EncodeRequest request =
    (if req_version request \<noteq> kCurrentVersion then Inl ''''
     else case CheckString (req_topic request) 65535 of
       Inl e \<Rightarrow> Inl e
     | Inr _ \<Rightarrow> (case CheckString (req_payload request) kMaxPayloadBytes of
         Inl e \<Rightarrow> Inl e
       | Inr _ \<Rightarrow> Inr
          (Put16 kMagic @ [req_version request] @ [command_byte (req_command request)] @
           Put64 (req_id request) @ Put16 (req_flags request) @
           Put16 (of_nat (length (req_topic request))) @ req_topic request @
           Put32 (of_nat (length (req_payload request))) @ req_payload request)))"

definition EncodeResponse :: "Response \<Rightarrow> bytes result" where
  "EncodeResponse response =
    (if resp_version response \<noteq> kCurrentVersion then Inl ''''
     else case CheckString (resp_payload response) kMaxPayloadBytes of
       Inl e \<Rightarrow> Inl e
     | Inr _ \<Rightarrow> Inr
        (Put16 kMagic @ [resp_version response] @ [status_byte (resp_status response)] @
         Put64 (resp_id response) @ Put16 (resp_flags response) @
         Put32 (of_nat (length (resp_payload response))) @ resp_payload response))"

definition DecodeRequest :: "bytes \<Rightarrow> Request result option" where
  "DecodeRequest frame =
    (if length frame < 20 then Some (Inl ''request header is truncated'')
     else do {
       topic_len \<leftarrow> Get16 frame 14;
       let payload_length_offset = 16 + unat topic_len;
       let payload_offset = payload_length_offset + 4;
       if payload_offset > length frame then Some (Inl ''request topic header is truncated'')
       else do {
         payload_len \<leftarrow> Get32 frame payload_length_offset;
         valid \<leftarrow> ValidCommon frame payload_offset payload_offset payload_len;
         (case valid of
            Inl e \<Rightarrow> Some (Inl e)
          | Inr _ \<Rightarrow> do {
              version \<leftarrow> byte_at frame 2;
              command \<leftarrow> byte_at frame 3;
              request_id \<leftarrow> Get64 frame 4;
              flags \<leftarrow> Get16 frame 12;
              topic \<leftarrow> substr frame 16 (unat topic_len);
              payload \<leftarrow> substr frame payload_offset (length frame);
              Some (Inr \<lparr>req_version = version, req_command = command_of_byte command,
                         req_id = request_id, req_flags = flags, req_topic = topic,
                         req_payload = payload\<rparr>)
            })
       }
     })"

definition DecodeResponse :: "bytes \<Rightarrow> Response result option" where
  "DecodeResponse frame =
    (if length frame < 18 then Some (Inl '''')
     else do {
       payload_len \<leftarrow> Get32 frame 14;
       valid \<leftarrow> ValidCommon frame 18 18 payload_len;
       (case valid of
          Inl e \<Rightarrow> Some (Inl e)
        | Inr _ \<Rightarrow> do {
            version \<leftarrow> byte_at frame 2;
            status \<leftarrow> byte_at frame 3;
            request_id \<leftarrow> Get64 frame 4;
            flags \<leftarrow> Get16 frame 12;
            payload \<leftarrow> substr frame 18 (length frame);
            Some (Inr \<lparr>resp_version = version, resp_status = status_of_byte status,
                       resp_id = request_id, resp_flags = flags, resp_payload = payload\<rparr>)
          })
     })"

section \<open>RequestStreamDecoder\<close>

definition kMaxFrameBytes :: nat where "kMaxFrameBytes = kMaxPayloadBytes + 65555"

text \<open>
  What one turn of the loop of \<^verbatim>\<open>Push\<close> decides about the buffer: wait for more bytes, fail, or
  take a frame of the given size.
\<close>

datatype frame_step = Wait | Fail string | Take_frame Request nat

definition next_frame :: "bytes \<Rightarrow> frame_step option" where
  "next_frame buffer =
    (if length buffer < 20 then Some Wait
     else do {
       magic \<leftarrow> Get16 buffer 0;
       if magic \<noteq> kMagic then Some (Fail ''invalid request stream header'')
       else do {
         topic_len \<leftarrow> Get16 buffer 14;
         let payload_length_offset = 16 + unat topic_len;
         if payload_length_offset + 4 > length buffer then Some Wait
         else do {
           payload_len \<leftarrow> Get32 buffer payload_length_offset;
           if unat payload_len > kMaxPayloadBytes \<or>
              unat payload_len > kMaxFrameBytes - (payload_length_offset + 4)
           then Some (Fail ''invalid request stream payload length'')
           else let frame_size = payload_length_offset + 4 + unat payload_len in
             if length buffer < frame_size then Some Wait
             else do {
               decoded \<leftarrow> DecodeRequest (take frame_size buffer);
               Some (case decoded of Inl e \<Rightarrow> Fail e | Inr request \<Rightarrow> Take_frame request frame_size)
             }
         }
       }
     })"

text \<open>
  The loop of \<^verbatim>\<open>Push\<close>: the new buffer, the requests appended to the output vector, and the
  error when the call returns false (the buffer is cleared then).
\<close>

type_synonym push_result = "bytes \<times> Request list \<times> string option"

lemma case_Take_frame [simp]:
  "(case d of Inl e \<Rightarrow> Fail e | Inr r \<Rightarrow> Take_frame r n) = Take_frame q m \<longleftrightarrow> d = Inr q \<and> n = m"
  by (cases d) auto

lemma next_frame_size:
  "next_frame buffer = Some (Take_frame request n) \<Longrightarrow> 20 \<le> n \<and> n \<le> length buffer"
  by (auto simp: next_frame_def Let_def bind_eq_Some_conv split: if_splits)

function push_loop :: "bytes \<Rightarrow> Request list \<Rightarrow> push_result option" where
  "push_loop buffer requests =
    (case next_frame buffer of
       None \<Rightarrow> None
     | Some Wait \<Rightarrow> Some (buffer, requests, None)
     | Some (Fail e) \<Rightarrow> Some ([], requests, Some e)
     | Some (Take_frame request n) \<Rightarrow> push_loop (drop n buffer) (requests @ [request]))"
  by pat_completeness auto
termination
  by (relation "measure (\<lambda>(buffer, _). length buffer)") (auto dest: next_frame_size)

declare push_loop.simps [simp del]

definition Push :: "bytes \<Rightarrow> bytes \<Rightarrow> push_result option" where
  "Push buffer input =
    (if length input > kMaxFrameBytes \<or> length buffer > kMaxFrameBytes - length input
     then Some ([], [], Some ''request stream buffer exceeds limit'')
     else push_loop (buffer @ input) [])"

text \<open>A connection feeds the decoder one network read after the other and is closed at the first error.\<close>

fun feed :: "bytes \<Rightarrow> bytes list \<Rightarrow> push_result option" where
  "feed buffer [] = Some (buffer, [], None)"
| "feed buffer (chunk # chunks) =
    (case Push buffer chunk of
       None \<Rightarrow> None
     | Some (buffer', requests, Some e) \<Rightarrow> Some (buffer', requests, Some e)
     | Some (buffer', requests, None) \<Rightarrow>
         (case feed buffer' chunks of
            None \<Rightarrow> None
          | Some (buffer'', requests', err) \<Rightarrow> Some (buffer'', requests @ requests', err)))"

section \<open>Well-formed requests and responses\<close>

text \<open>
  The values a client can hold: an enumerator is never represented by the catch-all
  constructor, and the fields fit their length prefixes.
\<close>

fun wf_command :: "Command \<Rightarrow> bool" where
  "wf_command (UnknownCommand b) = (b \<notin> snd ` set command_table)"
| "wf_command _ = True"

fun wf_status :: "Status \<Rightarrow> bool" where
  "wf_status (UnknownStatus b) = (b \<notin> snd ` set status_table)"
| "wf_status _ = True"

definition wf_Request :: "Request \<Rightarrow> bool" where
  "wf_Request r \<longleftrightarrow> req_version r = kCurrentVersion \<and> wf_command (req_command r) \<and>
     length (req_topic r) \<le> 65535 \<and> length (req_payload r) \<le> kMaxPayloadBytes"

definition wf_Response :: "Response \<Rightarrow> bool" where
  "wf_Response r \<longleftrightarrow> resp_version r = kCurrentVersion \<and> wf_status (resp_status r) \<and>
     length (resp_payload r) \<le> kMaxPayloadBytes"

text \<open>The frame of a request, as \<^verbatim>\<open>EncodeRequest\<close> lays it out.\<close>

definition request_frame :: "Request \<Rightarrow> bytes" where
  "request_frame r =
     Put16 kMagic @ [req_version r] @ [command_byte (req_command r)] @ Put64 (req_id r) @
     Put16 (req_flags r) @ Put16 (of_nat (length (req_topic r))) @ req_topic r @
     Put32 (of_nat (length (req_payload r))) @ req_payload r"

section \<open>Enumerations\<close>

lemma command_of_command_byte: "wf_command c \<Longrightarrow> command_of_byte (command_byte c) = c"
  by (cases c) (auto simp: command_table_def command_of_byte_def find_None_iff split: option.split)

lemma command_byte_of_byte: "command_byte (command_of_byte b) = b"
  by (auto simp: command_of_byte_def command_table_def split: if_splits)

lemma wf_command_of_byte: "wf_command (command_of_byte b)"
  by (auto simp: command_of_byte_def command_table_def)

lemma status_of_status_byte: "wf_status s \<Longrightarrow> status_of_byte (status_byte s) = s"
  by (cases s) (auto simp: status_table_def status_of_byte_def find_None_iff split: option.split)

section \<open>Decoding never reads out of range\<close>

lemma ValidCommon_defined: "2 \<le> header \<Longrightarrow> ValidCommon frame header off len \<noteq> None"
  by (auto simp: ValidCommon_def Get16_def)

lemma ValidCommon_Inr:
  "ValidCommon frame header off len = Some (Inr u) \<Longrightarrow>
   header \<le> length frame \<and> Get16 frame 0 = Some kMagic \<and> unat len \<le> kMaxPayloadBytes \<and>
   unat len = length frame - off"
  by (auto simp: ValidCommon_def bind_eq_Some_conv split: if_splits)

lemma DecodeRequest_defined: "DecodeRequest frame \<noteq> None"
  by (simp add: DecodeRequest_def ValidCommon_def Let_def bounds_simps)

lemma DecodeResponse_defined: "DecodeResponse frame \<noteq> None"
  by (simp add: DecodeResponse_def ValidCommon_def Let_def bounds_simps)

lemma next_frame_defined: "next_frame buffer \<noteq> None"
  by (simp add: next_frame_def Let_def bounds_simps bind_eq_None_conv DecodeRequest_defined
      del: not_None_eq)

lemma push_loop_defined: "push_loop buffer requests \<noteq> None"
proof (induction buffer requests rule: push_loop.induct)
  case (1 buffer requests)
  then show ?case
    using next_frame_defined [of buffer]
    by (simp add: push_loop.simps [of buffer requests] del: not_None_eq split: option.split frame_step.split)
qed

lemma Push_defined: "Push buffer input \<noteq> None"
  by (simp add: Push_def push_loop_defined del: not_None_eq)

section \<open>Round trips of single frames\<close>

lemma EncodeRequest_wf: "wf_Request r \<Longrightarrow> EncodeRequest r = Inr (request_frame r)"
  by (simp add: EncodeRequest_def wf_Request_def CheckString_def request_frame_def)

lemma length_request_frame [simp]:
  "length (request_frame r) = 20 + length (req_topic r) + length (req_payload r)"
  by (simp add: request_frame_def)

lemma unat_of_nat_len16: "n \<le> 65535 \<Longrightarrow> unat (of_nat n :: u16) = n"
  by (simp add: unat_of_nat)

lemma unat_of_nat_payload: "n \<le> kMaxPayloadBytes \<Longrightarrow> unat (of_nat n :: u32) = n"
  by (simp add: unat_of_nat kMaxPayloadBytes_def)

text \<open>The fields of a frame at their offsets, also when more bytes follow.\<close>

lemma frame_fields:
  fixes rest :: bytes
  defines "f r \<equiv> request_frame r @ rest"
  shows "Get16 (f r) 0 = Some kMagic"
    and "byte_at (f r) 2 = Some (req_version r)"
    and "byte_at (f r) 3 = Some (command_byte (req_command r))"
    and "Get64 (f r) 4 = Some (req_id r)"
    and "Get16 (f r) 12 = Some (req_flags r)"
    and "Get16 (f r) 14 = Some (of_nat (length (req_topic r)))"
    and "substr (f r) 16 (length (req_topic r)) = Some (req_topic r)"
    and "Get32 (f r) (16 + length (req_topic r)) = Some (of_nat (length (req_payload r)))"
  by (simp_all add: f_def request_frame_def Get16_def Get32_def Get64_def byte_at_def substr_def nth_append
      drop_Cons')

lemmas frame_fields' = frame_fields [where rest = "[]", simplified]

lemma DecodeRequest_frame:
  assumes "wf_Request r"
  shows "DecodeRequest (request_frame r) = Some (Inr r)"
proof -
  have len: "unat (of_nat (length (req_topic r)) :: u16) = length (req_topic r)"
    and plen: "unat (of_nat (length (req_payload r)) :: u32) = length (req_payload r)"
    using assms by (simp_all add: wf_Request_def unat_of_nat_len16 unat_of_nat_payload)
  have "substr (request_frame r) (20 + length (req_topic r)) n = Some (take n (req_payload r))" for n
    by (simp add: substr_def request_frame_def drop_Cons')
  with assms show ?thesis
    by (simp add: DecodeRequest_def ValidCommon_def Let_def frame_fields' len plen
        command_of_command_byte wf_Request_def)
qed

lemma EncodeResponse_wf:
  "wf_Response r \<Longrightarrow> EncodeResponse r = Inr
     (Put16 kMagic @ [resp_version r] @ [status_byte (resp_status r)] @ Put64 (resp_id r) @
      Put16 (resp_flags r) @ Put32 (of_nat (length (resp_payload r))) @ resp_payload r)"
  by (simp add: EncodeResponse_def wf_Response_def CheckString_def)

lemma DecodeResponse_frame:
  assumes "wf_Response r" and "EncodeResponse r = Inr frame"
  shows "DecodeResponse frame = Some (Inr r)"
proof -
  have "unat (of_nat (length (resp_payload r)) :: u32) = length (resp_payload r)"
    using assms by (simp add: wf_Response_def unat_of_nat_payload)
  with assms show ?thesis
    by (auto simp: EncodeResponse_wf DecodeResponse_def ValidCommon_def Let_def Get16_def Get32_def Get64_def
        byte_at_def substr_def nth_append status_of_status_byte wf_Response_def drop_Cons')
qed

text \<open>A frame that decodes is the encoding of what it decodes to: there is one frame per request.\<close>

lemma take_drop_split: "pos + n \<le> length s \<Longrightarrow> drop pos s = take n (drop pos s) @ drop (pos + n) s"
  by (metis append_take_drop_id drop_drop add.commute)

lemma frame_split:
  assumes "20 + n \<le> length frame"
  shows "frame = take 2 frame @ [frame ! 2] @ [frame ! 3] @ take 8 (drop 4 frame) @ take 2 (drop 12 frame) @
     take 2 (drop 14 frame) @ take n (drop 16 frame) @ take 4 (drop (16 + n) frame) @ drop (20 + n) frame"
proof -
  have "frame = take 2 frame @ drop 2 frame" by simp
  also have "drop 2 frame = [frame ! 2] @ [frame ! 3] @ drop 4 frame"
    using assms by (simp add: Cons_nth_drop_Suc numeral_eq_Suc)
  also have "drop 4 frame = take 8 (drop 4 frame) @ drop 12 frame"
    using assms take_drop_split [of 4 8 frame] by simp
  also have "drop 12 frame = take 2 (drop 12 frame) @ drop 14 frame"
    using assms take_drop_split [of 12 2 frame] by simp
  also have "drop 14 frame = take 2 (drop 14 frame) @ drop 16 frame"
    using assms take_drop_split [of 14 2 frame] by simp
  also have "drop 16 frame = take n (drop 16 frame) @ drop (16 + n) frame"
    using assms take_drop_split [of 16 n frame] by simp
  also have "drop (16 + n) frame = take 4 (drop (16 + n) frame) @ drop (20 + n) frame"
    using assms take_drop_split [of "16 + n" 4 frame] by simp
  finally show ?thesis .
qed

lemma DecodeRequest_canonical:
  assumes "DecodeRequest frame = Some (Inr r)"
  shows "request_frame r = frame" and "wf_command (req_command r)"
    and "length (req_topic r) \<le> 65535" and "length (req_payload r) \<le> kMaxPayloadBytes"
proof -
  define tl :: u16 where "tl = be_value (take 2 (drop 14 frame))"
  define n where "n = unat tl"
  from assms have len: "20 + n \<le> length frame"
    and magic: "be_value (take 2 frame) = kMagic"
    and plen: "unat (be_value (take 4 (drop (16 + n) frame)) :: u32) = length frame - (20 + n)"
    and max: "length frame - (20 + n) \<le> kMaxPayloadBytes"
    and r: "r = \<lparr>req_version = frame ! 2, req_command = command_of_byte (frame ! 3),
        req_id = be_value (take 8 (drop 4 frame)), req_flags = be_value (take 2 (drop 12 frame)),
        req_topic = take n (drop 16 frame), req_payload = drop (20 + n) frame\<rparr>"
    unfolding n_def tl_def
    by (auto simp: DecodeRequest_def ValidCommon_def Let_def Get16_def Get32_def Get64_def byte_at_def
        substr_def bind_eq_Some_conv split: if_splits)
  have tlen: "length (take n (drop 16 frame)) = n" using len by simp
  then have tl: "of_nat (length (take n (drop 16 frame))) = tl" by (simp add: n_def)
  have pl: "of_nat (length (drop (20 + n) frame)) = (be_value (take 4 (drop (16 + n) frame)) :: u32)"
    by (simp flip: plen)
  have "request_frame r = take 2 frame @ [frame ! 2] @ [frame ! 3] @ take 8 (drop 4 frame) @
      take 2 (drop 12 frame) @ take 2 (drop 14 frame) @ take n (drop 16 frame) @
      take 4 (drop (16 + n) frame) @ drop (20 + n) frame"
    using len unfolding request_frame_def r Request.simps tl pl magic [symmetric] tl_def
    by (simp add: command_byte_of_byte Put16_be_value Put32_be_value Put64_be_value)
  also have "\<dots> = frame" by (rule frame_split [OF len, symmetric])
  finally show "request_frame r = frame" .
  show "wf_command (req_command r)" by (simp add: r wf_command_of_byte)
  have "n < 2 ^ 16" unfolding n_def using unsigned_less [of tl] by simp
  then show "length (req_topic r) \<le> 65535" using tlen by (simp add: r)
  show "length (req_payload r) \<le> kMaxPayloadBytes" using max by (simp add: r)
qed

section \<open>The stream decoder\<close>

text \<open>
  \<open>waiting p rs\<close>: the undecoded bytes \<open>p\<close> are an incomplete beginning of the frames of \<open>rs\<close>.
\<close>

definition waiting :: "bytes \<Rightarrow> Request list \<Rightarrow> bool" where
  "waiting p rs \<longleftrightarrow> p = [] \<or> (\<exists>r rs'. rs = r # rs' \<and> strict_prefix p (request_frame r))"

definition frames :: "Request list \<Rightarrow> bytes" where
  "frames rs = concat (map request_frame rs)"

lemma frames_simps [simp]:
  "frames [] = []" "frames (r # rs) = request_frame r @ frames rs" "frames (rs @ rs') = frames rs @ frames rs'"
  by (simp_all add: frames_def)

lemma next_frame_complete:
  assumes "wf_Request r"
  shows "next_frame (request_frame r @ rest) = Some (Take_frame r (length (request_frame r)))"
proof -
  have len: "unat (of_nat (length (req_topic r)) :: u16) = length (req_topic r)"
    and plen: "unat (of_nat (length (req_payload r)) :: u32) = length (req_payload r)"
    using assms by (simp_all add: wf_Request_def unat_of_nat_len16 unat_of_nat_payload)
  have "length (req_payload r) \<le> kMaxFrameBytes - (20 + length (req_topic r))"
    using assms by (auto simp: wf_Request_def kMaxFrameBytes_def)
  with assms show ?thesis
    by (simp add: next_frame_def Let_def frame_fields len plen DecodeRequest_frame wf_Request_def)
qed

text \<open>An incomplete frame makes the decoder wait: its header fields, where present, are those of the frame.\<close>

lemma next_frame_prefix:
  assumes wf: "wf_Request r" and pre: "request_frame r = p @ q" and "q \<noteq> []"
  shows "next_frame p = Some Wait"
proof (cases "length p < 20")
  case True
  then show ?thesis by (simp add: next_frame_def)
next
  case False
  have len: "unat (of_nat (length (req_topic r)) :: u16) = length (req_topic r)"
    and plen: "unat (of_nat (length (req_payload r)) :: u32) = length (req_payload r)"
    using wf by (simp_all add: wf_Request_def unat_of_nat_len16 unat_of_nat_payload)
  from False have 0: "Get16 p 0 = Some kMagic" and 14: "Get16 p 14 = Some (of_nat (length (req_topic r)))"
    using frame_fields'(1,6) [of r] pre by auto
  have short: "length p < length (request_frame r)" using pre \<open>q \<noteq> []\<close> by simp
  show ?thesis
  proof (cases "20 + length (req_topic r) > length p")
    case True
    with False 0 14 show ?thesis by (simp add: next_frame_def Let_def len)
  next
    case topic: False
    then have 16: "Get32 p (16 + length (req_topic r)) = Some (of_nat (length (req_payload r)))"
      using frame_fields'(8) [of r] pre by auto
    have "length (req_payload r) \<le> kMaxFrameBytes - (20 + length (req_topic r))"
      using wf by (auto simp: wf_Request_def kMaxFrameBytes_def)
    with False topic 0 14 16 short wf show ?thesis
      by (simp add: next_frame_def Let_def len plen wf_Request_def)
  qed
qed

lemma next_frame_waiting: "waiting p rs \<Longrightarrow> \<forall>r \<in> set rs. wf_Request r \<Longrightarrow> next_frame p = Some Wait"
  by (auto simp: waiting_def strict_prefix_def prefix_def next_frame_prefix next_frame_def [of "[]"])

lemma push_loop_frames:
  assumes "\<forall>r \<in> set (rs @ rs'). wf_Request r" and "waiting p rs'"
  shows "push_loop (frames rs @ p) acc = Some (p, acc @ rs, None)"
  using assms
proof (induction rs arbitrary: acc)
  case Nil
  then show ?case by (simp add: push_loop.simps [of p acc] next_frame_waiting)
next
  case (Cons r rs)
  then have "push_loop (frames rs @ p) (acc @ [r]) = Some (p, acc @ r # rs, None)" by simp
  with Cons.prems show ?case
    by (simp add: push_loop.simps [of "request_frame r @ frames rs @ p" acc] next_frame_complete)
qed

text \<open>Any beginning of a stream of frames is some whole frames and an incomplete one.\<close>

lemma stream_split:
  "prefix q (frames rs) \<Longrightarrow> \<exists>rs1 rs2 p. rs = rs1 @ rs2 \<and> q = frames rs1 @ p \<and> waiting p rs2"
proof (induction rs arbitrary: q)
  case Nil
  then show ?case by (auto simp: waiting_def)
next
  case (Cons r rs)
  show ?case
  proof (cases "prefix (request_frame r) q")
    case True
    then obtain q' where q: "q = request_frame r @ q'" by (auto simp: prefix_def)
    with Cons.prems have "prefix q' (frames rs)" by simp
    from Cons.IH [OF this] obtain rs1 rs2 p
      where "rs = rs1 @ rs2" "q' = frames rs1 @ p" "waiting p rs2" by blast
    with q have "r # rs = (r # rs1) @ rs2 \<and> q = frames (r # rs1) @ p \<and> waiting p rs2" by simp
    then show ?thesis by blast
  next
    case False
    with Cons.prems have "strict_prefix q (request_frame r)"
      by (auto simp: prefix_append strict_prefix_def)
    then have "r # rs = [] @ (r # rs) \<and> q = frames [] @ q \<and> waiting q (r # rs)"
      by (simp add: waiting_def)
    then show ?thesis by blast
  qed
qed

lemma waiting_short:
  "waiting p rs \<Longrightarrow> \<forall>r \<in> set rs. length (request_frame r) \<le> n \<Longrightarrow> 0 < n \<Longrightarrow> length p < n"
  by (auto simp: waiting_def simp del: length_request_frame dest!: prefix_length_less)

lemma waiting_all: "waiting (frames rs) rs \<Longrightarrow> \<forall>r \<in> set rs. wf_Request r \<Longrightarrow> rs = []"
  by (cases rs) (auto simp: waiting_def strict_prefix_def prefix_def dest: arg_cong [where f = length])

text \<open>
  The decoder's contract, stated on the stream of frames alone. \<open>whole_frames q rs\<close> are the requests
  whose frames end within the first \<open>q\<close> bytes of the stream, \<open>pending_bytes q rs\<close> is the number of bytes of
  these \<open>q\<close> that belong to the next frame, and \<open>overflow_at q rs chunks\<close> is the stream position of the
  first piece (the stream being at position \<open>q\<close>) that does not fit the buffer beside the pending bytes.
\<close>

fun whole_frames :: "nat \<Rightarrow> Request list \<Rightarrow> Request list" where
  "whole_frames q [] = []"
| "whole_frames q (r # rs) =
    (if length (request_frame r) \<le> q then r # whole_frames (q - length (request_frame r)) rs else [])"

definition pending_bytes :: "nat \<Rightarrow> Request list \<Rightarrow> nat" where
  "pending_bytes q rs = q - length (frames (whole_frames q rs))"

fun overflow_at :: "nat \<Rightarrow> Request list \<Rightarrow> bytes list \<Rightarrow> nat option" where
  "overflow_at q rs [] = None"
| "overflow_at q rs (c # chunks) =
    (if pending_bytes q rs + length c > kMaxFrameBytes then Some q else overflow_at (q + length c) rs chunks)"

lemma whole_frames_append:
  "whole_frames (length (frames rs1) + q) (rs1 @ rs2) = rs1 @ whole_frames q rs2"
  by (induction rs1) (simp_all del: length_request_frame)

lemma pending_append: "pending_bytes (length (frames rs1) + q) (rs1 @ rs2) = pending_bytes q rs2"
  by (simp add: pending_bytes_def whole_frames_append)

lemma overflow_at_append:
  "overflow_at (length (frames rs1) + q) (rs1 @ rs2) chunks =
    map_option (\<lambda>q. length (frames rs1) + q) (overflow_at q rs2 chunks)"
proof (induction chunks arbitrary: q)
  case (Cons c chunks)
  from Cons.IH [of "q + length c"] show ?case by (simp add: pending_append add.assoc)
qed simp

lemma waiting_pending:
  assumes "waiting p rs"
  shows "whole_frames (length p) rs = []" and "pending_bytes (length p) rs = length p"
proof -
  have "request_frame r \<noteq> []" for r using length_request_frame [of r] by (auto simp del: length_request_frame)
  with assms show "whole_frames (length p) rs = []"
    by (cases rs) (auto simp: waiting_def simp del: length_request_frame dest!: prefix_length_less)
  then show "pending_bytes (length p) rs = length p" by (simp add: pending_bytes_def)
qed

lemma feed_frames:
  assumes "\<forall>r \<in> set rs. wf_Request r" and "waiting p rs" and "p @ concat chunks = frames rs"
  shows "feed p chunks =
    (case overflow_at (length p) rs chunks of
       None \<Rightarrow> Some ([], rs, None)
     | Some q \<Rightarrow> Some ([], whole_frames q rs, Some ''request stream buffer exceeds limit''))"
  using assms
proof (induction chunks arbitrary: p rs)
  case Nil
  then have "rs = []" using waiting_all [of rs] by auto
  with Nil show ?case by (simp add: waiting_def)
next
  case (Cons c chunks)
  note wp = waiting_pending [OF Cons.prems(2)]
  show ?case
  proof (cases "length p + length c > kMaxFrameBytes")
    case True
    then have "Push p c = Some ([], [], Some ''request stream buffer exceeds limit'')" by (auto simp: Push_def)
    with True wp show ?thesis by simp
  next
    case False
    have "prefix (p @ c) (frames rs)" using Cons.prems(3) by (simp add: prefix_def) (metis append_assoc)
    from stream_split [OF this] obtain rs1 rs2 p'
      where rs: "rs = rs1 @ rs2" and pc: "p @ c = frames rs1 @ p'" and w: "waiting p' rs2" by blast
    have push: "Push p c = Some (p', rs1, None)"
      using push_loop_frames [of rs1 rs2 p' "[]"] Cons.prems(1) rs w False by (simp add: Push_def pc)
    have "(p @ c) @ concat chunks = frames rs1 @ frames rs2" using Cons.prems(3) rs by simp
    then have "p' @ concat chunks = frames rs2" by (simp add: pc)
    with Cons.prems(1) rs w have IH: "feed p' chunks =
        (case overflow_at (length p') rs2 chunks of None \<Rightarrow> Some ([], rs2, None)
         | Some q \<Rightarrow> Some ([], whole_frames q rs2, Some ''request stream buffer exceeds limit''))"
      by (intro Cons.IH) auto
    have "length p + length c = length (frames rs1) + length p'" using arg_cong [OF pc, of length] by simp
    with False wp have "overflow_at (length p) rs (c # chunks) =
        map_option (\<lambda>q. length (frames rs1) + q) (overflow_at (length p') rs2 chunks)"
      by (simp add: rs overflow_at_append)
    with push IH rs show ?thesis by (simp add: whole_frames_append split: option.split)
  qed
qed

text \<open>A frame and a piece that fit the buffer together, for all frames and pieces, rule an overflow out.\<close>

lemma no_overflow:
  assumes "\<forall>r \<in> set rs. length (request_frame r) \<le> n" and "\<forall>c \<in> set chunks. length c \<le> m" and "0 < n"
    and "n + m \<le> Suc kMaxFrameBytes" and "waiting p rs" and "p @ concat chunks = frames rs"
  shows "overflow_at (length p) rs chunks = None"
  using assms
proof (induction chunks arbitrary: p rs)
  case (Cons c chunks)
  have "prefix (p @ c) (frames rs)" using Cons.prems(6) by (simp add: prefix_def) (metis append_assoc)
  from stream_split [OF this] obtain rs1 rs2 p'
    where rs: "rs = rs1 @ rs2" and pc: "p @ c = frames rs1 @ p'" and w: "waiting p' rs2" by blast
  have "length p < n" using waiting_short [OF Cons.prems(5)] Cons.prems(1,3) by blast
  moreover have "length c \<le> m" using Cons.prems(2) by simp
  ultimately have "\<not> length p + length c > kMaxFrameBytes" using Cons.prems(4) by linarith
  moreover have "length p + length c = length (frames rs1) + length p'" using arg_cong [OF pc, of length] by simp
  moreover have "(p @ c) @ concat chunks = frames rs1 @ frames rs2" using Cons.prems(6) rs by simp
  then have "p' @ concat chunks = frames rs2" by (simp add: pc)
  with Cons.prems rs w have "overflow_at (length p') rs2 chunks = None" by (intro Cons.IH) auto
  ultimately show ?case using waiting_pending [OF Cons.prems(5)] by (simp add: rs overflow_at_append)
qed simp

section \<open>Properties\<close>

text \<open>C1: request and response frames round trip. Every well-formed request and response encodes,
  and decoding the frame gives it back, with every field unchanged.\<close>

theorem codec_round_trip:
  "(wf_Request r \<longrightarrow> (\<exists>frame. EncodeRequest r = Inr frame \<and> DecodeRequest frame = Some (Inr r))) \<and>
   (wf_Response q \<longrightarrow> (\<exists>frame. EncodeResponse q = Inr frame \<and> DecodeResponse frame = Some (Inr q)))"
  using EncodeRequest_wf DecodeRequest_frame EncodeResponse_wf DecodeResponse_frame by blast

definition sample_request :: Request where
  "sample_request = \<lparr>req_version = 1, req_command = kProduce, req_id = 7, req_flags = 1, req_topic = str ''orders'',
     req_payload = [1, 2, 3]\<rparr>"

definition sample_response :: Response where
  "sample_response = \<lparr>resp_version = 1, resp_status = kOk, resp_id = 7, resp_flags = 0, resp_payload = [9]\<rparr>"

lemma wf_samples: "wf_Request sample_request" "wf_Response sample_response"
  by (simp_all add: wf_Request_def wf_Response_def sample_request_def sample_response_def kCurrentVersion_def
      kMaxPayloadBytes_def str_def)

theorem codec_round_trip_witness:
  "(\<exists>frame. EncodeRequest sample_request = Inr frame \<and> DecodeRequest frame = Some (Inr sample_request)) \<and>
   (\<exists>frame. EncodeResponse sample_response = Inr frame \<and> DecodeResponse frame = Some (Inr sample_response))"
  using codec_round_trip [of sample_request sample_response] wf_samples by simp

text \<open>the decoder accepts one frame per request: a frame that decodes to a request of the current
  version is exactly the frame \<^verbatim>\<open>EncodeRequest\<close> produces for it, so no two frames decode to the same
  request and no byte of a frame is ignored.\<close>

theorem decode_canonical:
  assumes "DecodeRequest frame = Some (Inr r)" and "req_version r = kCurrentVersion"
  shows "wf_Request r \<and> EncodeRequest r = Inr frame"
proof -
  have "wf_Request r" using DecodeRequest_canonical [OF assms(1)] assms(2) by (simp add: wf_Request_def)
  with EncodeRequest_wf DecodeRequest_canonical(1) [OF assms(1)] show ?thesis by simp
qed

theorem decode_canonical_witness:
  "wf_Request sample_request \<and> EncodeRequest sample_request = Inr (request_frame sample_request)"
proof (rule decode_canonical)
  show "DecodeRequest (request_frame sample_request) = Some (Inr sample_request)"
    by (rule DecodeRequest_frame [OF wf_samples(1)])
  show "req_version sample_request = kCurrentVersion" by (simp add: sample_request_def kCurrentVersion_def)
qed

lemma push_loop_buffer:
  "push_loop buffer requests = Some (buffer', rs, err) \<Longrightarrow> length buffer' \<le> length buffer"
proof (induction buffer requests rule: push_loop.induct)
  case (1 buffer requests)
  from "1.prems" show ?case
    by (subst (asm) push_loop.simps)
      (auto split: option.splits frame_step.splits dest!: "1.IH" intro: le_trans [OF _ diff_le_self])
qed

text \<open>C2: no input makes the decoders read outside the frame. \<^verbatim>\<open>DecodeRequest\<close>, \<^verbatim>\<open>DecodeResponse\<close> and
  \<^verbatim>\<open>RequestStreamDecoder::Push\<close> are defined on every byte string (an out-of-range read is \<open>None\<close> in
  the model), and what \<^verbatim>\<open>Push\<close> keeps buffered never exceeds the limit.\<close>

theorem decoders_memory_safe:
  "DecodeRequest frame \<noteq> None \<and> DecodeResponse frame \<noteq> None \<and>
   (\<exists>buffer' rs err. Push buffer input = Some (buffer', rs, err) \<and> length buffer' \<le> kMaxFrameBytes)"
proof -
  obtain buffer' rs err where p: "Push buffer input = Some (buffer', rs, err)"
    using Push_defined [of buffer input] by (cases "Push buffer input") auto
  moreover have "length buffer' \<le> kMaxFrameBytes"
    using p by (auto simp: Push_def not_less split: if_splits dest!: push_loop_buffer)
  ultimately show ?thesis using DecodeRequest_defined DecodeResponse_defined by blast
qed

text \<open>C3: the stream decoder, for every way the network cuts the stream of frames of a list of
  well-formed requests into pieces (empty ones and pieces that span frames included). If every piece
  fits the buffer of 1,114,131 bytes beside the bytes of the frame it finds incomplete there, exactly
  these requests are delivered in order, without an error and with nothing left over. Otherwise the
  decoder fails at the first piece that does not fit, having delivered exactly the requests whose
  frames were complete before it, and none of that piece. The first case is the only one when the
  largest frame and the largest piece together fit the buffer (with the 64 KiB reads of the server:
  frames of up to 1,048,596 bytes).\<close>

theorem stream_reassembly:
  assumes "\<forall>r \<in> set rs. wf_Request r" and "concat chunks = concat (map request_frame rs)"
  shows "feed [] chunks =
      (case overflow_at 0 rs chunks of
         None \<Rightarrow> Some ([], rs, None)
       | Some q \<Rightarrow> Some ([], whole_frames q rs, Some ''request stream buffer exceeds limit'')) \<and>
    ((\<forall>r \<in> set rs. length (request_frame r) \<le> n) \<and> (\<forall>c \<in> set chunks. length c \<le> m) \<and> 0 < n \<and>
       n + m \<le> Suc kMaxFrameBytes \<longrightarrow> overflow_at 0 rs chunks = None)"
  using feed_frames [of rs "[]" chunks] no_overflow [of rs n chunks m "[]"] assms
  by (auto simp: waiting_def frames_def)

theorem stream_reassembly_witness:
  "feed [] (map (\<lambda>b. [b]) (request_frame sample_request @ request_frame sample_request)) =
     Some ([], [sample_request, sample_request], None)"
proof -
  let ?chunks = "map (\<lambda>b. [b]) (request_frame sample_request @ request_frame sample_request)"
  have "\<forall>r \<in> set [sample_request, sample_request]. wf_Request r" using wf_samples by simp
  moreover have "concat ?chunks = concat (map request_frame [sample_request, sample_request])"
    by (simp add: concat_map_singleton)
  ultimately have "feed [] ?chunks =
      (case overflow_at 0 [sample_request, sample_request] ?chunks of
         None \<Rightarrow> Some ([], [sample_request, sample_request], None)
       | Some q \<Rightarrow> Some ([], whole_frames q [sample_request, sample_request],
           Some ''request stream buffer exceeds limit'')) \<and>
    ((\<forall>r \<in> set [sample_request, sample_request]. length (request_frame r) \<le> 1048596) \<and>
       (\<forall>c \<in> set ?chunks. length c \<le> 65536) \<and> 0 < (1048596 :: nat) \<and>
       1048596 + 65536 \<le> Suc kMaxFrameBytes \<longrightarrow> overflow_at 0 [sample_request, sample_request] ?chunks = None)"
    by (rule stream_reassembly)
  moreover have "\<forall>r \<in> set [sample_request, sample_request]. length (request_frame r) \<le> 1048596"
    by (simp add: sample_request_def str_def)
  moreover have "\<forall>c \<in> set ?chunks. length c \<le> 65536" by auto
  moreover have "1048596 + 65536 \<le> Suc kMaxFrameBytes" by (simp add: kMaxFrameBytes_def kMaxPayloadBytes_def)
  ultimately show ?thesis by simp
qed

text \<open>
  The second case arises: a client that pipelines a frame behind one of 1,048,600 bytes (a payload of
  1 MiB and a topic name of four bytes) loses its connection, although each of its requests is well
  formed, when a full 64 KiB read of the server begins at the last byte of the large frame.
\<close>

lemma pipelined_frame_refused:
  assumes "wf_Request r" and "length (request_frame r) = 1048600" and "65535 \<le> length (request_frame r')"
  shows "feed [] [take 1048599 (request_frame r), drop 1048599 (request_frame r) @ take 65535 (request_frame r')] =
    Some ([], [], Some ''request stream buffer exceeds limit'')"
proof -
  have "strict_prefix (take 1048599 (request_frame r)) (request_frame r)"
    using assms(2) by (auto simp: strict_prefix_def take_is_prefix simp del: length_request_frame
        dest: arg_cong [where f = length])
  then have "waiting (take 1048599 (request_frame r)) [r]" by (auto simp: waiting_def)
  then have "push_loop (take 1048599 (request_frame r)) [] = Some (take 1048599 (request_frame r), [], None)"
    using push_loop_frames [of "[]" "[r]" "take 1048599 (request_frame r)" "[]"] assms(1) by simp
  then show ?thesis using assms(2,3)
    by (simp add: Push_def kMaxFrameBytes_def kMaxPayloadBytes_def del: length_request_frame)
qed

end
