(* ===== verification/Topic.thy ===== *)
theory Topic
  imports Prelude
begin

text \<open>
  Topic names: \<^verbatim>\<open>src/core/topic.cc\<close>. \<open>IsValidUtf8\<close> follows the byte loop of the source; the
  reference it is compared with is the definition of UTF-8 itself, the concatenation of the
  encodings of Unicode scalar values. \<open>IsValidTopicName\<close> is the guard in front of every storage
  operation; the lemmas about it are the ones other components rest on: no separator byte and no
  path character occurs in a valid name.
\<close>

section \<open>Definitions\<close>

definition IsContinuation :: "byte \<Rightarrow> bool" where
  "IsContinuation b \<longleftrightarrow> (b AND 0xC0) = 0x80"

text \<open>
  One turn of the loop of \<^verbatim>\<open>IsValidUtf8\<close> at \<open>index < input.size()\<close>: how far the index advances,
  \<open>None\<close> for \<^verbatim>\<open>return false\<close>.
\<close>

definition utf8_turn :: "bytes \<Rightarrow> nat \<Rightarrow> nat option" where
  "utf8_turn input index =
    (let first = input ! index in
     if first < 0x80 then Some 1
     else
       case (if 0xC2 \<le> first \<and> first \<le> 0xDF then Some (2::nat)
             else if 0xE0 \<le> first \<and> first \<le> 0xEF then Some 3
             else if 0xF0 \<le> first \<and> first \<le> 0xF4 then Some 4
             else None) of
         None \<Rightarrow> None
       | Some len \<Rightarrow>
           if index + len > length input then None
           else if list_ex (\<lambda>offset. \<not> IsContinuation (input ! (index + offset))) [1..<len] then None
           else let second = input ! (index + 1) in
             if (first = 0xE0 \<and> second < 0xA0) \<or> (first = 0xED \<and> second \<ge> 0xA0) \<or>
                (first = 0xF0 \<and> second < 0x90) \<or> (first = 0xF4 \<and> second \<ge> 0x90)
             then None
             else Some len)"

lemma utf8_turn_pos: "utf8_turn input index = Some n \<Longrightarrow> 0 < n"
  by (auto simp: utf8_turn_def Let_def split: if_splits)

function utf8_loop :: "bytes \<Rightarrow> nat \<Rightarrow> bool" where
  "utf8_loop input index =
    (if index < length input
     then (case utf8_turn input index of
             None \<Rightarrow> False
           | Some n \<Rightarrow> utf8_loop input (index + n))
     else True)"
  by pat_completeness auto
termination
  by (relation "measure (\<lambda>(input, index). length input - index)") (auto dest: utf8_turn_pos)

declare utf8_loop.simps [simp del]

definition IsValidUtf8 :: "bytes \<Rightarrow> bool" where
  "IsValidUtf8 input = utf8_loop input 0"

text \<open>The bytes a topic name may not contain: below 0x20 and the path characters.\<close>

definition forbidden_topic_byte :: "byte \<Rightarrow> bool" where
  "forbidden_topic_byte b \<longleftrightarrow> b < 0x20 \<or> b \<in> set (str ''/'') \<or> b = 0x5C \<or> b \<in> set (str '':*?'') \<or>
     b = 0x22 \<or> b \<in> set (str ''<>|'')"

definition IsValidTopicName :: "bytes \<Rightarrow> bool" where
  "IsValidTopicName topic \<longleftrightarrow>
     \<not> (topic = [] \<or> length topic > 64 \<or> topic = str ''.'' \<or> topic = str ''..'') \<and>
     \<not> list_ex forbidden_topic_byte topic \<and> IsValidUtf8 topic"

section \<open>The reference: UTF-8 encodings of scalar values\<close>

definition scalar_value :: "nat \<Rightarrow> bool" where
  "scalar_value cp \<longleftrightarrow> cp < 0xD800 \<or> 0xDFFF < cp \<and> cp \<le> 0x10FFFF"

definition utf8_encode :: "nat \<Rightarrow> bytes" where
  "utf8_encode cp = map of_nat
    (if cp < 0x80 then [cp]
     else if cp < 0x800 then [0xC0 + cp div 64, 0x80 + cp mod 64]
     else if cp < 0x10000 then [0xE0 + cp div 4096, 0x80 + cp div 64 mod 64, 0x80 + cp mod 64]
     else [0xF0 + cp div 262144, 0x80 + cp div 4096 mod 64, 0x80 + cp div 64 mod 64, 0x80 + cp mod 64])"

section \<open>Validity is decodability\<close>

lemma IsContinuation_unat: "IsContinuation b \<longleftrightarrow> 128 \<le> unat b \<and> unat b < 192"
proof -
  have mask: "(0xC0 :: byte) = push_bit 6 (mask 2)" by (simp add: mask_eq_exp_minus_1)
  have "b AND 0xC0 = push_bit 6 (drop_bit 6 b)"
    unfolding mask by (rule bit_word_eqI) (auto simp: bit_simps)
  then have eq: "IsContinuation b \<longleftrightarrow> push_bit 6 (drop_bit 6 b) = 0x80" unfolding IsContinuation_def by (rule arg_cong)
  have inv: "drop_bit 6 (push_bit 6 (drop_bit 6 b)) = drop_bit 6 b"
    by (rule bit_word_eqI) (auto simp: bit_simps dest: bit_imp_le_length)
  have "IsContinuation b \<longleftrightarrow> drop_bit 6 b = 2"
  proof
    assume "IsContinuation b"
    then have "drop_bit 6 (push_bit 6 (drop_bit 6 b)) = drop_bit 6 0x80" unfolding eq by (rule arg_cong)
    then show "drop_bit 6 b = 2" unfolding inv by simp
  next
    assume "drop_bit 6 b = 2"
    then show "IsContinuation b" unfolding eq by simp
  qed
  also have "\<dots> \<longleftrightarrow> unat (drop_bit 6 b) = 2" by (simp add: word_unat_eq_iff)
  also have "unat (drop_bit 6 b) = unat b div 64" by (simp only: unat_drop_bit_eq) (simp add: drop_bit_eq_div)
  also have "unat b div 64 = 2 \<longleftrightarrow> 128 \<le> unat b \<and> unat b < 192" by auto
  finally show ?thesis .
qed

lemma utf8_turn_drop: "index < length input \<Longrightarrow> utf8_turn input index = utf8_turn (drop index input) 0"
proof -
  assume less: "index < length input"
  have len: "length input < index + n \<longleftrightarrow> length input - index < n" for n using less by auto
  have nth: "drop index input ! k = input ! (index + k)" for k using less by simp
  show ?thesis
    by (simp only: utf8_turn_def Let_def nth length_drop add_0_left add_0_right len)
qed

text \<open>Words as naturals: every comparison of the loop body becomes one on \<open>unat\<close>.\<close>

lemma byte_eq_numeral: "(b :: byte) = numeral k \<longleftrightarrow> unat b = unat (numeral k :: byte)"
  by (rule word_unat_eq_iff)

lemmas byte_nat = word_less_nat_alt word_le_nat_alt byte_eq_numeral IsContinuation_unat

lemma of_nat_byte: "n = unat b \<Longrightarrow> of_nat n = (b :: byte)"
  by simp

lemma unat_of_nat_byte: "n < 256 \<Longrightarrow> unat (of_nat n :: byte) = n"
  by (simp add: unat_of_nat)

lemma upt_small: "[Suc 0..<2] = [1]" "[Suc 0..<3] = [1, 2]" "[Suc 0..<4] = [1, 2, 3]"
  by (simp_all add: numeral_eq_Suc)

lemma byte_of: "n < 256 \<Longrightarrow> \<exists>b :: byte. of_nat n = b \<and> unat b = n"
  by (simp add: unat_of_nat_byte)

lemma utf8_turn_encode:
  assumes "scalar_value cp"
  shows "utf8_turn (utf8_encode cp @ rest) 0 = Some (length (utf8_encode cp))"
proof -
  consider "cp < 0x80" | "0x80 \<le> cp" "cp < 0x800" | "0x800 \<le> cp" "cp < 0x10000" | "0x10000 \<le> cp"
    by linarith
  then show ?thesis
  proof cases
    case 1
    then show ?thesis by (simp add: utf8_encode_def utf8_turn_def byte_nat unat_of_nat_byte)
  next
    case 2
    then obtain b1 b2 :: byte
      where b: "of_nat (0xC0 + cp div 64) = b1" "of_nat (0x80 + cp mod 64) = b2"
        and u: "unat b1 = 0xC0 + cp div 64" "unat b2 = 0x80 + cp mod 64"
      using byte_of [of "0xC0 + cp div 64"] byte_of [of "0x80 + cp mod 64"] by auto
    have "utf8_encode cp = [b1, b2]" using 2 b by (simp add: utf8_encode_def)
    moreover have "2 \<le> cp div 64" "cp div 64 < 32" using 2 by auto
    ultimately show ?thesis by (simp add: utf8_turn_def byte_nat u upt_small)
  next
    case 3
    then obtain b1 b2 b3 :: byte
      where b: "of_nat (0xE0 + cp div 4096) = b1" "of_nat (0x80 + cp div 64 mod 64) = b2"
          "of_nat (0x80 + cp mod 64) = b3"
        and u: "unat b1 = 0xE0 + cp div 4096" "unat b2 = 0x80 + cp div 64 mod 64" "unat b3 = 0x80 + cp mod 64"
      using byte_of [of "0xE0 + cp div 4096"] byte_of [of "0x80 + cp div 64 mod 64"]
        byte_of [of "0x80 + cp mod 64"] by auto
    have "utf8_encode cp = [b1, b2, b3]" using 3 b by (simp add: utf8_encode_def)
    moreover have "cp div 4096 < 16" "cp div 4096 = 0 \<Longrightarrow> 32 \<le> cp div 64 mod 64" using 3 by auto
    moreover have "cp div 64 mod 64 < 32" if "cp div 4096 = 13"
    proof -
      have "cp div 64 div 64 = 13" using that by (simp flip: div_mult2_eq)
      moreover have "cp div 64 < 864" using that assms by (auto simp: scalar_value_def)
      ultimately show ?thesis using div_mult_mod_eq [of "cp div 64" 64] by linarith
    qed
    ultimately show ?thesis by (auto simp: utf8_turn_def byte_nat u upt_small)
  next
    case 4
    then have "0xF0 + cp div 262144 < 256" using assms by (auto simp: scalar_value_def)
    then obtain b1 b2 b3 b4 :: byte
      where b: "of_nat (0xF0 + cp div 262144) = b1" "of_nat (0x80 + cp div 4096 mod 64) = b2"
          "of_nat (0x80 + cp div 64 mod 64) = b3" "of_nat (0x80 + cp mod 64) = b4"
        and u: "unat b1 = 0xF0 + cp div 262144" "unat b2 = 0x80 + cp div 4096 mod 64"
          "unat b3 = 0x80 + cp div 64 mod 64" "unat b4 = 0x80 + cp mod 64"
      using byte_of [of "0xF0 + cp div 262144"] byte_of [of "0x80 + cp div 4096 mod 64"]
        byte_of [of "0x80 + cp div 64 mod 64"] byte_of [of "0x80 + cp mod 64"] by auto
    have "utf8_encode cp = [b1, b2, b3, b4]" using 4 b by (simp add: utf8_encode_def)
    moreover have "cp div 262144 < 5" "cp div 262144 = 0 \<Longrightarrow> 16 \<le> cp div 4096 mod 64"
      using 4 assms by (auto simp: scalar_value_def)
    moreover have "cp div 4096 mod 64 < 16" if "cp div 262144 = 4"
    proof -
      have "cp div 4096 div 64 = 4" using that by (simp flip: div_mult2_eq)
      moreover have "cp div 4096 < 272" using that assms by (auto simp: scalar_value_def)
      ultimately show ?thesis using div_mult_mod_eq [of "cp div 4096" 64] by linarith
    qed
    ultimately show ?thesis by (auto simp: utf8_turn_def byte_nat u upt_small)
  qed
qed

lemma digit64: "(d::nat) < 64 \<Longrightarrow> (q * 64 + d) div 64 = q \<and> (q * 64 + d) mod 64 = d"
  by simp

lemma utf8_turn_2:
  assumes "194 \<le> unat b1" "unat b1 \<le> 223" and "utf8_turn (b1 # t) 0 = Some n"
  shows "\<exists>b2 t'. n = 2 \<and> t = b2 # t' \<and> IsContinuation b2"
  using assms by (cases t) (auto simp: utf8_turn_def word_less_nat_alt word_le_nat_alt byte_eq_numeral upt_small
      split: if_splits)

lemma utf8_turn_3:
  assumes "224 \<le> unat b1" "unat b1 \<le> 239" and "utf8_turn (b1 # t) 0 = Some n"
  shows "\<exists>b2 b3 t'. n = 3 \<and> t = b2 # b3 # t' \<and> IsContinuation b2 \<and> IsContinuation b3 \<and>
    (unat b1 = 224 \<longrightarrow> 160 \<le> unat b2) \<and> (unat b1 = 237 \<longrightarrow> unat b2 < 160)"
proof (cases "\<exists>b2 b3 t'. t = b2 # b3 # t'")
  case True
  with assms show ?thesis
    by (auto simp: utf8_turn_def word_less_nat_alt word_le_nat_alt byte_eq_numeral upt_small split: if_splits)
next
  case False
  then have "length t < 2" by (cases t rule: remdups_adj.cases) auto
  with assms show ?thesis by (simp add: utf8_turn_def word_less_nat_alt word_le_nat_alt)
qed

lemma utf8_turn_4:
  assumes "240 \<le> unat b1" "unat b1 \<le> 244" and "utf8_turn (b1 # t) 0 = Some n"
  shows "\<exists>b2 b3 b4 t'. n = 4 \<and> t = b2 # b3 # b4 # t' \<and> IsContinuation b2 \<and> IsContinuation b3 \<and>
    IsContinuation b4 \<and> (unat b1 = 240 \<longrightarrow> 144 \<le> unat b2) \<and> (unat b1 = 244 \<longrightarrow> unat b2 < 144)"
proof (cases "\<exists>b2 b3 b4 t'. t = b2 # b3 # b4 # t'")
  case True
  with assms show ?thesis
    by (auto simp: utf8_turn_def word_less_nat_alt word_le_nat_alt byte_eq_numeral upt_small split: if_splits)
next
  case False
  then have "length t < 3"
    by (cases t; cases "tl t"; cases "tl (tl t)") auto
  with assms show ?thesis by (simp add: utf8_turn_def word_less_nat_alt word_le_nat_alt)
qed

lemma utf8_turn_first:
  "utf8_turn (b1 # t) 0 = Some n \<Longrightarrow> unat b1 < 128 \<and> n = 1 \<or> 194 \<le> unat b1 \<and> unat b1 \<le> 223 \<or>
     224 \<le> unat b1 \<and> unat b1 \<le> 239 \<or> 240 \<le> unat b1 \<and> unat b1 \<le> 244"
  by (simp add: utf8_turn_def Let_def word_less_nat_alt word_le_nat_alt split: if_split_asm)

lemma utf8_turn_decode:
  assumes turn: "utf8_turn (b1 # t) 0 = Some n"
  shows "\<exists>cp. scalar_value cp \<and> utf8_encode cp = take n (b1 # t) \<and> n \<le> length (b1 # t)"
proof -
  consider "unat b1 < 128" "n = 1" | "194 \<le> unat b1" "unat b1 \<le> 223" | "224 \<le> unat b1" "unat b1 \<le> 239"
    | "240 \<le> unat b1" "unat b1 \<le> 244" using utf8_turn_first [OF turn] by blast
  then show ?thesis
  proof cases
    case 1
    then have "scalar_value (unat b1)" "utf8_encode (unat b1) = take n (b1 # t)"
      by (auto simp: scalar_value_def utf8_encode_def)
    with 1 show ?thesis by auto
  next
    case 2
    then obtain b2 t' where n: "n = 2" and t: "t = b2 # t'" and c: "IsContinuation b2"
      using utf8_turn_2 turn by blast
    define cp where "cp = (unat b1 - 192) * 64 + (unat b2 - 128)"
    have "128 \<le> unat b2" "unat b2 < 192" using c by (auto simp: IsContinuation_unat)
    then have "cp div 64 = unat b1 - 192" "cp mod 64 = unat b2 - 128" using digit64 [of "unat b2 - 128" "unat b1 - 192"] by (auto simp: cp_def)
    with 2 \<open>128 \<le> unat b2\<close> have b: "0xC0 + cp div 64 = unat b1" "0x80 + cp mod 64 = unat b2" by auto
    have "0x80 \<le> cp" "cp < 0x800" unfolding cp_def using 2 \<open>unat b2 < 192\<close> by linarith+
    note b = b this
    have "utf8_encode cp = [b1, b2]" using b
      by (simp add: utf8_encode_def of_nat_byte del: of_nat_add)
    moreover have "scalar_value cp" using b by (simp add: scalar_value_def)
    ultimately show ?thesis by (auto simp: n t)
  next
    case 3
    then obtain b2 b3 t' where n: "n = 3" and t: "t = b2 # b3 # t'" and c: "IsContinuation b2" "IsContinuation b3"
        and r: "unat b1 = 224 \<longrightarrow> 160 \<le> unat b2" "unat b1 = 237 \<longrightarrow> unat b2 < 160"
      using utf8_turn_3 turn by blast
    define q where "q = (unat b1 - 224) * 64 + (unat b2 - 128)"
    define cp where "cp = q * 64 + (unat b3 - 128)"
    have u: "128 \<le> unat b2" "unat b2 < 192" "128 \<le> unat b3" "unat b3 < 192"
      using c by (auto simp: IsContinuation_unat)
    have q: "q div 64 = unat b1 - 224" "q mod 64 = unat b2 - 128"
      using u digit64 [of "unat b2 - 128" "unat b1 - 224"] by (auto simp: q_def)
    have cp: "cp div 64 = q" "cp mod 64 = unat b3 - 128"
      using u digit64 [of "unat b3 - 128" q] by (auto simp: cp_def)
    have "cp div 4096 = cp div 64 div 64" by (simp flip: div_mult2_eq)
    with q cp 3 u have b: "0xE0 + cp div 4096 = unat b1" "0x80 + cp div 64 mod 64 = unat b2"
      "0x80 + cp mod 64 = unat b3" by auto
    have "q < 1024" "32 \<le> q" unfolding q_def using 3 r u by linarith+
    moreover have "q < 864 \<or> 896 \<le> q"
      using 3 r u unfolding q_def by (cases "unat b1" "237::nat" rule: linorder_cases) linarith+
    ultimately have range: "0x800 \<le> cp" "cp < 0x10000" "scalar_value cp"
      unfolding cp_def scalar_value_def using u by auto
    then have "utf8_encode cp = [b1, b2, b3]"
      using b by (simp add: utf8_encode_def of_nat_byte del: of_nat_add)
    with range show ?thesis by (auto simp: n t)
  next
    case 4
    then obtain b2 b3 b4 t' where n: "n = 4" and t: "t = b2 # b3 # b4 # t'"
        and c: "IsContinuation b2" "IsContinuation b3" "IsContinuation b4"
        and r: "unat b1 = 240 \<longrightarrow> 144 \<le> unat b2" "unat b1 = 244 \<longrightarrow> unat b2 < 144"
      using utf8_turn_4 turn by blast
    define p where "p = (unat b1 - 240) * 64 + (unat b2 - 128)"
    define q where "q = p * 64 + (unat b3 - 128)"
    define cp where "cp = q * 64 + (unat b4 - 128)"
    have u: "128 \<le> unat b2" "unat b2 < 192" "128 \<le> unat b3" "unat b3 < 192" "128 \<le> unat b4" "unat b4 < 192"
      using c by (auto simp: IsContinuation_unat)
    have p: "p div 64 = unat b1 - 240" "p mod 64 = unat b2 - 128"
      using u digit64 [of "unat b2 - 128" "unat b1 - 240"] by (auto simp: p_def)
    have q: "q div 64 = p" "q mod 64 = unat b3 - 128"
      using u digit64 [of "unat b3 - 128" p] by (auto simp: q_def)
    have cp: "cp div 64 = q" "cp mod 64 = unat b4 - 128"
      using u digit64 [of "unat b4 - 128" q] by (auto simp: cp_def)
    have "cp div 4096 = cp div 64 div 64" "cp div 262144 = cp div 64 div 64 div 64" by (simp_all flip: div_mult2_eq)
    with p q cp 4 u have b: "0xF0 + cp div 262144 = unat b1" "0x80 + cp div 4096 mod 64 = unat b2"
      "0x80 + cp div 64 mod 64 = unat b3" "0x80 + cp mod 64 = unat b4" by auto
    have "16 \<le> p" "p < 272" unfolding p_def using 4 r u by linarith+
    then have "0x10000 \<le> cp" "cp \<le> 0x10FFFF" unfolding cp_def q_def using u by auto
    moreover from this have "utf8_encode cp = [b1, b2, b3, b4]" "scalar_value cp"
      using b by (simp_all add: utf8_encode_def of_nat_byte scalar_value_def del: of_nat_add)
    ultimately show ?thesis by (auto simp: n t)
  qed
qed

lemma utf8_loop_suffix:
  "index \<le> length input \<Longrightarrow> utf8_loop input index \<longleftrightarrow>
     (\<exists>cps. (\<forall>cp \<in> set cps. scalar_value cp) \<and> drop index input = concat (map utf8_encode cps))"
proof (induction input index rule: utf8_loop.induct)
  case (1 input index)
  show ?case
  proof (cases "index < length input")
    case False
    with "1.prems" have "drop index input = []" by simp
    moreover have "utf8_loop input index" using False by (simp add: utf8_loop.simps)
    ultimately show ?thesis by (auto intro: exI [of _ "[]"])
  next
    case True
    then obtain b1 t where s: "drop index input = b1 # t" by (cases "drop index input") auto
    have turn: "utf8_turn input index = utf8_turn (b1 # t) 0" using utf8_turn_drop [OF True] s by simp
    show ?thesis
    proof
      assume "utf8_loop input index"
      with True turn obtain n where n: "utf8_turn (b1 # t) 0 = Some n" and rest: "utf8_loop input (index + n)"
        by (subst (asm) utf8_loop.simps) (auto split: option.splits)
      from utf8_turn_decode [OF n] obtain cp
        where cp: "scalar_value cp" "utf8_encode cp = take n (b1 # t)" "n \<le> length (b1 # t)" by blast
      have "index + n \<le> length input" using cp(3) s True by (metis length_drop le_diff_conv2 less_imp_le add.commute)
      with "1.IH" [OF True] turn n rest obtain cps
        where cps: "\<forall>cp \<in> set cps. scalar_value cp" "drop (index + n) input = concat (map utf8_encode cps)" by auto
      have "drop index input = take n (drop index input) @ drop (index + n) input"
        by (metis append_take_drop_id drop_drop add.commute)
      then have "drop index input = concat (map utf8_encode (cp # cps))"
        using cp cps s by simp
      then show "\<exists>cps. (\<forall>cp \<in> set cps. scalar_value cp) \<and> drop index input = concat (map utf8_encode cps)"
        using cp cps by (intro exI [of _ "cp # cps"]) auto
    next
      assume "\<exists>cps. (\<forall>cp \<in> set cps. scalar_value cp) \<and> drop index input = concat (map utf8_encode cps)"
      then obtain cp cps where cp: "scalar_value cp" "\<forall>cp \<in> set cps. scalar_value cp"
        and eq: "drop index input = utf8_encode cp @ concat (map utf8_encode cps)"
        using s by (metis (no_types, lifting) concat.simps list.distinct(1) list.set_intros list.simps(9) neq_Nil_conv list.map(1))
      let ?n = "length (utf8_encode cp)"
      have n: "utf8_turn (b1 # t) 0 = Some ?n" using utf8_turn_encode [OF cp(1)] eq s by simp
      have len: "index + ?n \<le> length input"
        using eq True by (metis length_append length_drop le_add1 le_diff_conv2 less_imp_le add.commute)
      have "drop (index + ?n) input = concat (map utf8_encode cps)"
        using eq by (metis append_eq_conv_conj drop_drop add.commute)
      then have "utf8_loop input (index + ?n)"
        using "1.IH" [OF True] turn n len cp(2) by auto
      with True turn n show "utf8_loop input index" by (subst utf8_loop.simps) simp
    qed
  qed
qed

section \<open>Valid topic names\<close>

lemma valid_topic_byte:
  assumes "IsValidTopicName topic" and "b \<in> set topic"
  shows "\<not> forbidden_topic_byte b"
  using assms by (auto simp: IsValidTopicName_def list_ex_iff)

lemma valid_topic_nonempty: "IsValidTopicName topic \<Longrightarrow> topic \<noteq> []"
  by (simp add: IsValidTopicName_def)

lemma valid_topic_length: "IsValidTopicName topic \<Longrightarrow> length topic \<le> 64"
  by (simp add: IsValidTopicName_def)

lemma valid_topic_no_separator: "IsValidTopicName topic \<Longrightarrow> 0x1F \<notin> set topic"
  using valid_topic_byte by (force simp: forbidden_topic_byte_def)

section \<open>Properties\<close>

text \<open>C4: \<^verbatim>\<open>IsValidUtf8\<close> accepts exactly the UTF-8 encodings of sequences of Unicode scalar values:
  overlong forms, surrogates, values above U+10FFFF and truncated sequences are all refused.\<close>

theorem IsValidUtf8_iff_encoding:
  "IsValidUtf8 input \<longleftrightarrow> input \<in> (\<lambda>cps. concat (map utf8_encode cps)) ` {cps. set cps \<subseteq> Collect scalar_value}"
  using utf8_loop_suffix [of 0 input] by (auto simp: IsValidUtf8_def)

text \<open>a topic name that passes \<^verbatim>\<open>IsValidTopicName\<close> is one path component and one key field: it has
  1 to 64 bytes, is neither \<open>.\<close> nor \<open>..\<close>, and contains no slash, no backslash and no unit separator
  (0x1F), the byte the broker puts between the fields of its map keys.\<close>

theorem valid_topic_is_one_component:
  assumes "IsValidTopicName topic"
  shows "topic \<noteq> [] \<and> length topic \<le> 64 \<and> topic \<notin> {str ''.'', str ''..''} \<and>
    0x2F \<notin> set topic \<and> 0x5C \<notin> set topic \<and> 0x1F \<notin> set topic"
proof -
  have "forbidden_topic_byte 0x2F" "forbidden_topic_byte 0x5C"
    by (simp_all add: forbidden_topic_byte_def str_def of_char_def)
  with assms valid_topic_byte [OF assms] valid_topic_no_separator [OF assms] show ?thesis
    by (auto simp: IsValidTopicName_def)
qed

theorem valid_topic_is_one_component_witness: "0x2F \<notin> set (str ''orders'') \<and> 0x1F \<notin> set (str ''orders'')"
proof -
  have "IsValidTopicName (str ''orders'')" by code_simp
  then show ?thesis using valid_topic_is_one_component by blast
qed

end
