(* ===== verification/Queue_Manager.thy ===== *)
theory Queue_Manager
  imports Topic
begin

text \<open>
  Topic metadata and partition routing: \<^verbatim>\<open>include/mq/core/queue_manager.h\<close> and
  \<^verbatim>\<open>src/core/queue_manager.cc\<close>. The table \<^verbatim>\<open>topics_\<close> is an association list with distinct keys;
  every operation takes the table and returns the new one with its result. Each operation holds
  the class's mutex from its first to its last access of the table, so it is one atomic step.

  The lemmas show that the table invariant \<open>queue_ok\<close> (distinct valid names, 1 to 1024 partitions)
  is kept, what a lookup returns after each update, that a listing is sorted and complete, and that
  routing always lands inside the topic. \<open>topic_registry\<close> is the interface the broker uses.
\<close>

section \<open>Definitions\<close>

record TopicMetadata =
  tm_name :: bytes
  tm_partition_count :: u32

type_synonym topic_table = "(bytes, TopicMetadata) umap"

definition kAutoPartition :: u32 where "kAutoPartition = 0xFFFFFFFF"

definition kMaxPartitions :: u32 where "kMaxPartitions = 1024"

definition HashKey :: "bytes \<Rightarrow> u64" where
  "HashKey key = foldl (\<lambda>hash b. (hash XOR ucast b) * 1099511628211) 14695981039346656037 key"

definition CreateTopic :: "topic_table \<Rightarrow> bytes \<Rightarrow> u32 \<Rightarrow> topic_table \<times> unit result" where
  "CreateTopic topics name partition_count =
    (if \<not> IsValidTopicName name \<or> partition_count = 0 \<or> partition_count > kMaxPartitions
     then (topics, Inl ''invalid topic metadata'')
     else case map_of topics name of
       Some _ \<Rightarrow> (topics, Inl ''topic already exists'')
     | None \<Rightarrow> (AList.update name \<lparr>tm_name = name, tm_partition_count = partition_count\<rparr> topics, Inr ()))"

definition DeleteTopic :: "topic_table \<Rightarrow> bytes \<Rightarrow> topic_table \<times> unit result" where
  "DeleteTopic topics name =
    (if map_of topics name = None then (topics, Inl ''unknown topic'')
     else (AList.delete name topics, Inr ()))"

text \<open>The loop of \<^verbatim>\<open>ReplaceTopics\<close> that fills the temporary table and stops at the first bad entry.\<close>

fun replacement_table :: "topic_table \<Rightarrow> TopicMetadata list \<Rightarrow> topic_table option" where
  "replacement_table replacement [] = Some replacement"
| "replacement_table replacement (topic # topics) =
    (if \<not> IsValidTopicName (tm_name topic) \<or> tm_partition_count topic = 0 \<or>
        tm_partition_count topic > kMaxPartitions \<or> map_of replacement (tm_name topic) \<noteq> None
     then None
     else replacement_table (AList.update (tm_name topic) topic replacement) topics)"

definition ReplaceTopics :: "topic_table \<Rightarrow> TopicMetadata list \<Rightarrow> topic_table \<times> unit result" where
  "ReplaceTopics table topics =
    (case replacement_table [] topics of
       None \<Rightarrow> (table, Inl ''invalid topic metadata'')
     | Some replacement \<Rightarrow> (replacement, Inr ()))"

definition GetTopic :: "topic_table \<Rightarrow> bytes \<Rightarrow> TopicMetadata option" where
  "GetTopic topics name = map_of topics name"

definition ListTopics :: "topic_table \<Rightarrow> TopicMetadata list" where
  "ListTopics topics = sort_key tm_name (map snd topics)"

definition ResolvePartition :: "topic_table \<Rightarrow> bytes \<Rightarrow> u32 \<Rightarrow> bytes \<Rightarrow> u32 result" where
  "ResolvePartition topics topic requested_partition key =
    (case map_of topics topic of
       None \<Rightarrow> Inl ''unknown topic''
     | Some metadata \<Rightarrow>
         if requested_partition = kAutoPartition
         then Inr (ucast (HashKey key mod ucast (tm_partition_count metadata)))
         else if requested_partition \<ge> tm_partition_count metadata
         then Inl ''partition is out of range''
         else Inr requested_partition)"

section \<open>The invariant of the table\<close>

definition metadata_ok :: "TopicMetadata \<Rightarrow> bool" where
  "metadata_ok t \<longleftrightarrow> IsValidTopicName (tm_name t) \<and> tm_partition_count t \<noteq> 0 \<and>
     tm_partition_count t \<le> kMaxPartitions"

definition queue_ok :: "topic_table \<Rightarrow> bool" where
  "queue_ok topics \<longleftrightarrow> umap_ok topics \<and>
     (\<forall>name t. map_of topics name = Some t \<longrightarrow> tm_name t = name \<and> metadata_ok t)"

section \<open>Every operation keeps the invariant\<close>

lemma queue_ok_Nil [simp]: "queue_ok []"
  by (simp add: queue_ok_def)

lemma queue_ok_update:
  "queue_ok topics \<Longrightarrow> metadata_ok t \<Longrightarrow> tm_name t = name \<Longrightarrow> queue_ok (AList.update name t topics)"
  by (simp add: queue_ok_def)

lemma queue_ok_delete: "queue_ok topics \<Longrightarrow> queue_ok (AList.delete name topics)"
  by (simp add: queue_ok_def)

lemma queue_ok_lookup:
  "queue_ok topics \<Longrightarrow> map_of topics name = Some t \<Longrightarrow> tm_name t = name \<and> metadata_ok t"
  by (simp add: queue_ok_def)

lemma CreateTopic_ok: "queue_ok topics \<Longrightarrow> queue_ok (fst (CreateTopic topics name n))"
  by (auto simp: CreateTopic_def metadata_ok_def not_less intro!: queue_ok_update split: option.splits)

lemma DeleteTopic_ok: "queue_ok topics \<Longrightarrow> queue_ok (fst (DeleteTopic topics name))"
  by (simp add: DeleteTopic_def queue_ok_delete)

lemma replacement_table_Cons:
  "replacement_table acc (t # ts) =
    (if metadata_ok t \<and> map_of acc (tm_name t) = None
     then replacement_table (AList.update (tm_name t) t acc) ts else None)"
  by (auto simp: metadata_ok_def not_less)

declare replacement_table.simps(2) [simp del]

lemma replacement_table_ok:
  "replacement_table acc ts = Some table \<Longrightarrow> queue_ok acc \<Longrightarrow> queue_ok table"
  by (induction ts arbitrary: acc) (auto simp: replacement_table_Cons queue_ok_update split: if_splits)

lemma ReplaceTopics_ok: "queue_ok topics \<Longrightarrow> queue_ok (fst (ReplaceTopics topics ts))"
  by (auto simp: ReplaceTopics_def split: option.splits dest: replacement_table_ok)

section \<open>What the operations do\<close>

text \<open>Creating a topic succeeds exactly for valid metadata of a new name, and adds that entry only.\<close>

lemma CreateTopic_Inr:
  "snd (CreateTopic topics name n) = Inr () \<longleftrightarrow>
     metadata_ok \<lparr>tm_name = name, tm_partition_count = n\<rparr> \<and> map_of topics name = None"
  by (auto simp: CreateTopic_def metadata_ok_def not_less split: option.splits)

lemma CreateTopic_map_of:
  "snd (CreateTopic topics name n) = Inr u \<Longrightarrow>
     map_of (fst (CreateTopic topics name n)) =
       (map_of topics)(name \<mapsto> \<lparr>tm_name = name, tm_partition_count = n\<rparr>)"
  by (auto simp: CreateTopic_def split: if_splits option.splits)

lemma CreateTopic_Inl: "snd (CreateTopic topics name n) = Inl e \<Longrightarrow> fst (CreateTopic topics name n) = topics"
  by (auto simp: CreateTopic_def split: if_splits option.splits)

lemma CreateTopic_errors:
  "snd (CreateTopic topics name n) = Inl e \<Longrightarrow> e = ''topic already exists'' \<or> e = ''invalid topic metadata''"
  by (auto simp: CreateTopic_def split: if_splits option.splits)

lemma DeleteTopic_map_of: "map_of (fst (DeleteTopic topics name)) = (map_of topics)(name := None)"
  by (auto simp: DeleteTopic_def)

lemma DeleteTopic_Inr: "snd (DeleteTopic topics name) = Inr () \<longleftrightarrow> map_of topics name \<noteq> None"
  by (simp add: DeleteTopic_def)

lemma replacement_table_map_of:
  "replacement_table acc ts = Some table \<Longrightarrow>
     map_of table = map_of acc ++ map_of (map (\<lambda>t. (tm_name t, t)) ts) \<and>
     distinct (map tm_name ts) \<and> (\<forall>t \<in> set ts. metadata_ok t \<and> map_of acc (tm_name t) = None)"
proof (induction ts arbitrary: acc)
  case Nil
  then show ?case by simp
next
  case (Cons t ts)
  then have cond: "metadata_ok t" "map_of acc (tm_name t) = None"
    and rest: "replacement_table (AList.update (tm_name t) t acc) ts = Some table"
    by (auto simp: replacement_table_Cons split: if_splits)
  from Cons.IH [OF rest] have IH:
    "map_of table = map_of (AList.update (tm_name t) t acc) ++ map_of (map (\<lambda>t. (tm_name t, t)) ts)"
    "distinct (map tm_name ts)"
    "\<forall>t' \<in> set ts. metadata_ok t' \<and> map_of (AList.update (tm_name t) t acc) (tm_name t') = None"
    by blast+
  from IH(3) have fresh: "tm_name t \<notin> tm_name ` set ts" by (auto split: if_splits)
  then have "map_of (map (\<lambda>t. (tm_name t, t)) ts) (tm_name t) = None" by (force simp: map_of_eq_None_iff)
  then have "map_of table = map_of acc ++ map_of (map (\<lambda>t. (tm_name t, t)) (t # ts))"
    unfolding IH(1) by (auto simp: fun_eq_iff map_add_def split: option.split)
  moreover have "distinct (map tm_name (t # ts))" using IH(2) fresh by simp
  moreover have "\<forall>t' \<in> set (t # ts). metadata_ok t' \<and> map_of acc (tm_name t') = None"
    using IH(3) cond by (auto split: if_splits)
  ultimately show ?case by blast
qed

lemma replacement_table_complete:
  "distinct (map tm_name ts) \<Longrightarrow> \<forall>t \<in> set ts. metadata_ok t \<and> map_of acc (tm_name t) = None \<Longrightarrow>
     \<exists>table. replacement_table acc ts = Some table"
proof (induction ts arbitrary: acc)
  case Nil
  then show ?case by simp
next
  case (Cons t ts)
  have "\<forall>t' \<in> set ts. metadata_ok t' \<and> map_of (AList.update (tm_name t) t acc) (tm_name t') = None"
    using Cons.prems by (auto simp: image_iff)
  with Cons show ?case by (simp add: replacement_table_Cons)
qed

text \<open>A listing holds every entry once, in the order of the names.\<close>

lemma set_ListTopics: "set (ListTopics topics) = snd ` set topics"
  by (simp add: ListTopics_def)

lemma ListTopics_names: "queue_ok topics \<Longrightarrow> map tm_name (ListTopics topics) = sort (map fst topics)"
proof -
  assume ok: "queue_ok topics"
  have "tm_name t = name" if "(name, t) \<in> set topics" for name t
    using ok that by (auto simp: queue_ok_def umap_ok_def dest: map_of_is_SomeI)
  then have names: "map tm_name (map snd topics) = map fst topics" by auto
  show ?thesis unfolding ListTopics_def map_sort_key names ..
qed

lemma ListTopics_lookup:
  "queue_ok topics \<Longrightarrow> t \<in> set (ListTopics topics) \<longleftrightarrow> map_of topics (tm_name t) = Some t"
proof -
  assume ok: "queue_ok topics"
  then have entry: "(name, t) \<in> set topics \<longleftrightarrow> map_of topics name = Some t" for name t
    by (simp add: queue_ok_def map_of_in_set)
  have "t \<in> set (ListTopics topics) \<longleftrightarrow> (\<exists>name. (name, t) \<in> set topics)"
    by (force simp: set_ListTopics)
  also have "\<dots> \<longleftrightarrow> map_of topics (tm_name t) = Some t"
    unfolding entry using queue_ok_lookup [OF ok] by blast
  finally show ?thesis .
qed

lemma ListTopics_sorted:
  "queue_ok topics \<Longrightarrow> sorted (map tm_name (ListTopics topics)) \<and> distinct (map tm_name (ListTopics topics))"
  by (simp add: ListTopics_names) (simp add: queue_ok_def umap_ok_def)

text \<open>Listing a table and loading the list again gives the same table.\<close>

lemma map_of_ListTopics:
  assumes "queue_ok topics"
  shows "map_of (map (\<lambda>t. (tm_name t, t)) (ListTopics topics)) = map_of topics"
proof
  fix name
  have dist: "distinct (map fst (map (\<lambda>t. (tm_name t, t)) (ListTopics topics)))"
    using ListTopics_sorted [OF assms] by (simp add: comp_def)
  have "map_of (map (\<lambda>t. (tm_name t, t)) (ListTopics topics)) name = Some t \<longleftrightarrow> map_of topics name = Some t" for t
  proof -
    have "map_of (map (\<lambda>t. (tm_name t, t)) (ListTopics topics)) name = Some t \<longleftrightarrow>
        t \<in> set (ListTopics topics) \<and> tm_name t = name"
      unfolding map_of_eq_Some_iff [OF dist] by auto
    also have "\<dots> \<longleftrightarrow> map_of topics name = Some t"
      unfolding ListTopics_lookup [OF assms] using queue_ok_lookup [OF assms] by blast
    finally show ?thesis .
  qed
  then show "map_of (map (\<lambda>t. (tm_name t, t)) (ListTopics topics)) name = map_of topics name"
    by (rule option_eqI)
qed

lemma ReplaceTopics_ListTopics:
  assumes "queue_ok topics"
  shows "snd (ReplaceTopics table (ListTopics topics)) = Inr ()"
    and "map_of (fst (ReplaceTopics table (ListTopics topics))) = map_of topics"
proof -
  have "metadata_ok t" if "t \<in> set (ListTopics topics)" for t
    using that assms ListTopics_lookup [OF assms] queue_ok_lookup by blast
  then obtain table' where t: "replacement_table [] (ListTopics topics) = Some table'"
    using replacement_table_complete [of "ListTopics topics" "[]"] ListTopics_sorted [OF assms] by auto
  then show "snd (ReplaceTopics table (ListTopics topics)) = Inr ()" by (simp add: ReplaceTopics_def)
  from t show "map_of (fst (ReplaceTopics table (ListTopics topics))) = map_of topics"
    using replacement_table_map_of [OF t] map_of_ListTopics [OF assms] by (simp add: ReplaceTopics_def)
qed

section \<open>Routing\<close>

lemma unat_auto_partition:
  assumes "count \<noteq> (0 :: u32)"
  shows "unat (ucast (hash mod ucast count :: u64) :: u32) = unat hash mod unat count"
proof -
  have "unat (ucast count :: u64) = unat count"
    using unat_bound [of count] by (intro unat_ucast_fits) simp
  then have m: "unat (hash mod ucast count) = unat hash mod unat count"
    by (simp add: unat_mod)
  have "unat hash mod unat count < unat count" using assms by (simp add: unat_gt_0)
  then have "unat (hash mod ucast count) < 2 ^ LENGTH(32)"
    unfolding m using unat_bound [of count] by (rule order_less_trans)
  then have "unat (ucast (hash mod ucast count) :: u32) = unat (hash mod ucast count)"
    by (rule unat_ucast_fits)
  then show ?thesis unfolding m .
qed

text \<open>A resolved partition is inside the topic; automatic routing never fails and follows the hash.\<close>

lemma ResolvePartition_Inr:
  assumes "queue_ok topics" and "ResolvePartition topics topic p key = Inr r"
  shows "\<exists>t. map_of topics topic = Some t \<and> r < tm_partition_count t \<and>
     (p = kAutoPartition \<and> unat r = unat (HashKey key) mod unat (tm_partition_count t) \<or> p \<noteq> kAutoPartition \<and> r = p)"
proof -
  from assms obtain t where t: "map_of topics topic = Some t"
    and r: "r = (if p = kAutoPartition then ucast (HashKey key mod ucast (tm_partition_count t)) else p)"
      "p \<noteq> kAutoPartition \<Longrightarrow> p < tm_partition_count t"
    by (auto simp: ResolvePartition_def not_le split: option.splits if_splits)
  have pos: "tm_partition_count t \<noteq> 0" using queue_ok_lookup [OF assms(1) t] by (simp add: metadata_ok_def)
  show ?thesis
  proof (cases "p = kAutoPartition")
    case True
    then have "unat r = unat (HashKey key) mod unat (tm_partition_count t)"
      using r unat_auto_partition [OF pos] by simp
    moreover from this have "r < tm_partition_count t" using pos by (simp add: word_less_nat_alt unat_gt_0)
    ultimately show ?thesis using t True by simp
  next
    case False
    with r t show ?thesis by simp
  qed
qed

lemma ResolvePartition_Inl:
  "ResolvePartition topics topic p key = Inl e \<longleftrightarrow>
     map_of topics topic = None \<and> e = ''unknown topic'' \<or>
     (\<exists>t. map_of topics topic = Some t \<and> p \<noteq> kAutoPartition \<and> tm_partition_count t \<le> p \<and>
          e = ''partition is out of range'')"
  by (auto simp: ResolvePartition_def split: option.splits)

section \<open>The registry contract\<close>

text \<open>
  What a client of the registry relies on: lookups after every update, on all states that keep the
  invariant. The lemmas of the locale are about sequences of operations.
\<close>

datatype registry_op = Create_op bytes u32 | Delete_op bytes

locale topic_registry =
  fixes inv :: "'s \<Rightarrow> bool"
    and create :: "'s \<Rightarrow> bytes \<Rightarrow> u32 \<Rightarrow> 's \<times> unit result"
    and del :: "'s \<Rightarrow> bytes \<Rightarrow> 's \<times> unit result"
    and look :: "'s \<Rightarrow> bytes \<Rightarrow> TopicMetadata option"
    and valid :: "bytes \<Rightarrow> u32 \<Rightarrow> bool"
  assumes create_inv: "inv s \<Longrightarrow> inv (fst (create s name n))"
    and del_inv: "inv s \<Longrightarrow> inv (fst (del s name))"
    and create_ok: "inv s \<Longrightarrow> snd (create s name n) = Inr () \<longleftrightarrow> valid name n \<and> look s name = None"
    and create_look: "inv s \<Longrightarrow> look (fst (create s name n)) =
      (if valid name n \<and> look s name = None
       then (look s)(name \<mapsto> \<lparr>tm_name = name, tm_partition_count = n\<rparr>) else look s)"
    and del_ok: "inv s \<Longrightarrow> snd (del s name) = Inr () \<longleftrightarrow> look s name \<noteq> None"
    and del_look: "inv s \<Longrightarrow> look (fst (del s name)) = (look s)(name := None)"
begin

fun step :: "'s \<Rightarrow> registry_op \<Rightarrow> 's" where
  "step s (Create_op name n) = fst (create s name n)"
| "step s (Delete_op name) = fst (del s name)"

text \<open>The abstract registry is a partial map from names to metadata.\<close>

fun spec_step :: "(bytes \<rightharpoonup> TopicMetadata) \<Rightarrow> registry_op \<Rightarrow> (bytes \<rightharpoonup> TopicMetadata)" where
  "spec_step m (Create_op name n) =
    (if valid name n \<and> m name = None then m(name \<mapsto> \<lparr>tm_name = name, tm_partition_count = n\<rparr>) else m)"
| "spec_step m (Delete_op name) = m(name := None)"

lemma step_inv: "inv s \<Longrightarrow> inv (step s x)"
  by (cases x) (auto simp: create_inv del_inv)

lemma step_look: "inv s \<Longrightarrow> look (step s x) = spec_step (look s) x"
  by (cases x) (auto simp: create_look del_look)

lemma run_refines: "inv s \<Longrightarrow> inv (foldl step s xs) \<and> look (foldl step s xs) = foldl spec_step (look s) xs"
  by (induction xs arbitrary: s) (auto simp: step_inv step_look)

lemma recreate:
  "inv s \<Longrightarrow> valid name n \<Longrightarrow>
     snd (create (fst (del s name)) name n) = Inr () \<and>
     look (fst (create (fst (del s name)) name n)) name = Some \<lparr>tm_name = name, tm_partition_count = n\<rparr>"
  by (simp add: create_ok create_look del_look del_inv)

end

definition valid_metadata :: "bytes \<Rightarrow> u32 \<Rightarrow> bool" where
  "valid_metadata name n = metadata_ok \<lparr>tm_name = name, tm_partition_count = n\<rparr>"

interpretation qm: topic_registry queue_ok CreateTopic DeleteTopic GetTopic valid_metadata
proof
  fix s :: topic_table and name n
  assume ok: "queue_ok s"
  show "queue_ok (fst (CreateTopic s name n))" by (rule CreateTopic_ok [OF ok])
  show "queue_ok (fst (DeleteTopic s name))" by (rule DeleteTopic_ok [OF ok])
  show "snd (CreateTopic s name n) = Inr () \<longleftrightarrow> valid_metadata name n \<and> GetTopic s name = None"
    by (simp add: CreateTopic_Inr valid_metadata_def GetTopic_def)
  show "GetTopic (fst (CreateTopic s name n)) =
      (if valid_metadata name n \<and> GetTopic s name = None
       then (GetTopic s)(name \<mapsto> \<lparr>tm_name = name, tm_partition_count = n\<rparr>) else GetTopic s)"
    by (auto simp: fun_eq_iff GetTopic_def CreateTopic_def valid_metadata_def metadata_ok_def not_less not_le
        split: option.splits)
  show "snd (DeleteTopic s name) = Inr () \<longleftrightarrow> GetTopic s name \<noteq> None"
    by (simp add: DeleteTopic_Inr GetTopic_def)
  show "GetTopic (fst (DeleteTopic s name)) = (GetTopic s)(name := None)"
    by (simp add: fun_eq_iff GetTopic_def DeleteTopic_map_of)
qed

text \<open>One operation of the table, and the same operation of the abstract registry.\<close>

fun registry_step :: "topic_table \<Rightarrow> registry_op \<Rightarrow> topic_table" where
  "registry_step topics (Create_op name n) = fst (CreateTopic topics name n)"
| "registry_step topics (Delete_op name) = fst (DeleteTopic topics name)"

fun registry_spec :: "(bytes \<rightharpoonup> TopicMetadata) \<Rightarrow> registry_op \<Rightarrow> (bytes \<rightharpoonup> TopicMetadata)" where
  "registry_spec m (Create_op name n) =
    (if valid_metadata name n \<and> m name = None
     then m(name \<mapsto> \<lparr>tm_name = name, tm_partition_count = n\<rparr>) else m)"
| "registry_spec m (Delete_op name) = m(name := None)"

lemma registry_step_qm: "registry_step = qm.step"
proof (intro ext)
  show "registry_step topics x = qm.step topics x" for topics x by (cases x) simp_all
qed

lemma registry_spec_qm: "registry_spec = qm.spec_step"
proof (intro ext)
  show "registry_spec m x y = qm.spec_step m x y" for m x y by (cases x) simp_all
qed

text \<open>C5: the queue manager refines a partial map from names to metadata. After any sequence of
  \<^verbatim>\<open>CreateTopic\<close> and \<^verbatim>\<open>DeleteTopic\<close> calls on an empty manager, the invariant holds (distinct valid
  names, 1 to 1024 partitions), a lookup returns what the abstract map holds, and \<^verbatim>\<open>ListTopics\<close> is
  the sorted, duplicate-free list of exactly these entries.\<close>

theorem queue_manager_refines_map:
  defines "run xs \<equiv> foldl registry_step [] xs" and "spec xs \<equiv> foldl registry_spec Map.empty xs"
  shows "queue_ok (run xs) \<and> GetTopic (run xs) = spec xs \<and>
    sorted (map tm_name (ListTopics (run xs))) \<and> distinct (map tm_name (ListTopics (run xs))) \<and>
    set (ListTopics (run xs)) = ran (spec xs)"
proof -
  have r: "queue_ok (run xs)" "GetTopic (run xs) = spec xs"
    using qm.run_refines [of "[]" xs]
    by (simp_all add: run_def spec_def registry_step_qm registry_spec_qm GetTopic_def [abs_def])
  have "set (ListTopics (run xs)) = ran (GetTopic (run xs))"
    using ListTopics_lookup [OF r(1)] queue_ok_lookup [OF r(1)]
    by (auto simp: ran_def GetTopic_def)
  with r ListTopics_sorted [OF r(1)] show ?thesis by simp
qed

text \<open>routing stays inside the topic. In a state that keeps the invariant, \<^verbatim>\<open>ResolvePartition\<close> of
  an existing topic fails only for an explicit partition at or above the count; automatic routing
  never fails and gives the FNV-1a hash of the key modulo the count, so equal keys go to the same
  partition, and every result is below the count.\<close>

theorem ResolvePartition_routes:
  assumes "queue_ok topics" and "GetTopic topics topic = Some t"
  shows "(\<exists>r. ResolvePartition topics topic kAutoPartition key = Inr r \<and> r < tm_partition_count t \<and>
            unat r = unat (HashKey key) mod unat (tm_partition_count t)) \<and>
         (p \<noteq> kAutoPartition \<longrightarrow> ResolvePartition topics topic p key =
            (if p < tm_partition_count t then Inr p else Inl ''partition is out of range''))"
proof -
  obtain r where r: "ResolvePartition topics topic kAutoPartition key = Inr r"
    using assms(2) by (simp add: ResolvePartition_def GetTopic_def)
  from ResolvePartition_Inr [OF assms(1) r] assms(2)
  have "r < tm_partition_count t \<and> unat r = unat (HashKey key) mod unat (tm_partition_count t)"
    by (auto simp: GetTopic_def)
  with r assms(2) show ?thesis by (auto simp: ResolvePartition_def GetTopic_def not_le)
qed

theorem ResolvePartition_routes_witness:
  "ResolvePartition (fst (CreateTopic [] (str ''a'') 4)) (str ''a'') 9 [] = Inl ''partition is out of range''"
proof -
  have "IsValidTopicName (str ''a'')" by code_simp
  then have t: "GetTopic (fst (CreateTopic [] (str ''a'') 4)) (str ''a'') =
      Some \<lparr>tm_name = str ''a'', tm_partition_count = 4\<rparr>"
    by (simp add: CreateTopic_def GetTopic_def kMaxPartitions_def)
  have "queue_ok (fst (CreateTopic [] (str ''a'') 4))" by (rule CreateTopic_ok) simp
  from ResolvePartition_routes [OF this t, of "[]" 9] show ?thesis by (simp add: kAutoPartition_def)
qed

end
