(* ===== verification/Stores.thy ===== *)
theory Stores
  imports Queue_Manager
begin

text \<open>
  The two snapshot files of the broker: \<^verbatim>\<open>src/core/topic_metadata_store.cc\<close> (\<^verbatim>\<open>topics.meta\<close>) and
  \<^verbatim>\<open>src/core/consumer_offset_store.cc\<close> (\<^verbatim>\<open>consumer_offsets.meta\<close>). A snapshot is written to a
  temporary file that is renamed over the old one; the state of a store is the content of the two
  paths. What the file system may refuse (creating the directory, opening, writing, renaming) is an
  argument of the operation, so every error return of the source is a branch. The Windows branch of
  the rename is not modelled.

  \<open>record_format\<close> is the contract both files share: reading a record back returns it and the bytes
  after it, and a torn record is refused. The loading loop is proved once for such a format:
  a saved list is loaded unchanged, and a file cut anywhere is refused.
\<close>

section \<open>Sequential input\<close>

text \<open>\<^verbatim>\<open>Get16/Get32/Get64(in, &value)\<close> on the bytes not read yet; \<open>None\<close> is a
  failed stream.\<close>

definition in_Get16 :: "bytes \<Rightarrow> (u16 \<times> bytes) option" where
  "in_Get16 s = (case in_read 2 s of None \<Rightarrow> None | Some (bs, s') \<Rightarrow> Some (be_value bs, s'))"

definition in_Get32 :: "bytes \<Rightarrow> (u32 \<times> bytes) option" where
  "in_Get32 s = (case in_read 4 s of None \<Rightarrow> None | Some (bs, s') \<Rightarrow> Some (be_value bs, s'))"

definition in_Get64 :: "bytes \<Rightarrow> (u64 \<times> bytes) option" where
  "in_Get64 s = (case in_read 8 s of None \<Rightarrow> None | Some (bs, s') \<Rightarrow> Some (be_value bs, s'))"

text \<open>The counted loop of the two \<^verbatim>\<open>Load\<close> functions: the records read so far and the outcome.\<close>

fun load_loop :: "(bytes \<Rightarrow> ('a \<times> bytes) result) \<Rightarrow> nat \<Rightarrow> bytes \<Rightarrow> 'a list \<Rightarrow> 'a list \<times> unit result" where
  "load_loop rd 0 s acc = (acc, Inr ())"
| "load_loop rd (Suc n) s acc =
    (case rd s of Inl e \<Rightarrow> (acc, Inl e) | Inr (x, s') \<Rightarrow> load_loop rd n s' (acc @ [x]))"

section \<open>Files\<close>

record store_files =
  fs_main :: "bytes option"
  fs_tmp :: "bytes option"

record save_io =
  io_mkdir :: "string option"
  io_open :: bool
  io_write :: bool
  io_rename :: "string option"

record load_io =
  io_exists :: "string option"
  io_read_open :: bool

definition good_save_io :: save_io where
  "good_save_io = \<lparr>io_mkdir = None, io_open = True, io_write = True, io_rename = None\<rparr>"

definition good_load_io :: load_io where
  "good_load_io = \<lparr>io_exists = None, io_read_open = True\<rparr>"

section \<open>TopicMetadataStore\<close>

definition kVersion :: u32 where "kVersion = 1"
definition kMaxTopics :: nat where "kMaxTopics = 1024"

definition topic_record :: "TopicMetadata \<Rightarrow> bytes" where
  "topic_record t = Put16 (of_nat (length (tm_name t))) @ tm_name t @ Put32 (tm_partition_count t)"

definition topics_file :: "TopicMetadata list \<Rightarrow> bytes" where
  "topics_file topics =
     str ''MQTM'' @ Put32 kVersion @ Put32 (of_nat (length topics)) @ concat (map topic_record topics)"

definition TopicMetadataStore_Save :: "save_io \<Rightarrow> store_files \<Rightarrow> TopicMetadata list \<Rightarrow> store_files \<times> unit result" where
  "TopicMetadataStore_Save io fs topics =
    (if length topics > kMaxTopics then (fs, Inl ''too many topics in metadata'')
     else if list_ex (\<lambda>t. \<not> IsValidTopicName (tm_name t) \<or> tm_partition_count t = 0 \<or> length (tm_name t) > 65535) topics
     then (fs, Inl ''invalid topic metadata'')
     else case io_mkdir io of
       Some e \<Rightarrow> (fs, Inl e)
     | None \<Rightarrow>
         if \<not> io_open io then (fs, Inl ''cannot open topic metadata temporary file'')
         else if \<not> io_write io then (fs\<lparr>fs_tmp := None\<rparr>, Inl ''cannot write topic metadata'')
         else case io_rename io of
           Some e \<Rightarrow> (fs\<lparr>fs_tmp := Some (topics_file topics)\<rparr>, Inl e)
         | None \<Rightarrow> (\<lparr>fs_main = Some (topics_file topics), fs_tmp = None\<rparr>, Inr ()))"

definition read_topic :: "bytes \<Rightarrow> (TopicMetadata \<times> bytes) result" where
  "read_topic s =
    (case in_Get16 s of
       None \<Rightarrow> Inl ''truncated topic metadata''
     | Some (name_length, s1) \<Rightarrow>
         (case in_read (unat name_length) s1 of
            None \<Rightarrow> Inl ''truncated topic metadata''
          | Some (name, s2) \<Rightarrow>
              (case in_Get32 s2 of
                 None \<Rightarrow> Inl ''truncated topic metadata''
               | Some (partition_count, s3) \<Rightarrow>
                   if \<not> IsValidTopicName name \<or> partition_count = 0 then Inl ''invalid topic metadata''
                   else Inr (\<lparr>tm_name = name, tm_partition_count = partition_count\<rparr>, s3))))"

text \<open>The header check: magic, version and count, in the order of the short-circuit condition.\<close>

definition read_header :: "bytes \<Rightarrow> nat \<Rightarrow> bytes \<Rightarrow> (nat \<times> bytes) option" where
  "read_header magic max_count s =
    (case in_read 4 s of
       None \<Rightarrow> None
     | Some (m, s1) \<Rightarrow>
         if m \<noteq> magic then None
         else case in_Get32 s1 of
           None \<Rightarrow> None
         | Some (version, s2) \<Rightarrow>
             if version \<noteq> 1 then None
             else case in_Get32 s2 of
               None \<Rightarrow> None
             | Some (count, s3) \<Rightarrow> if unat count > max_count then None else Some (unat count, s3))"

definition TopicMetadataStore_Load :: "load_io \<Rightarrow> store_files \<Rightarrow> TopicMetadata list \<times> unit result" where
  "TopicMetadataStore_Load io fs =
    (case io_exists io of
       Some e \<Rightarrow> ([], Inl e)
     | None \<Rightarrow>
         (case fs_main fs of
            None \<Rightarrow> ([], Inr ())
          | Some content \<Rightarrow>
              if \<not> io_read_open io then ([], Inl ''invalid topic metadata'')
              else case read_header (str ''MQTM'') kMaxTopics content of
                None \<Rightarrow> ([], Inl ''invalid topic metadata'')
              | Some (count, s) \<Rightarrow> load_loop read_topic count s []))"

section \<open>ConsumerOffsetStore\<close>

record ConsumerOffset =
  co_group :: bytes
  co_topic :: bytes
  co_partition :: u32
  co_offset :: u64

definition kMaxOffsets :: nat where "kMaxOffsets = 100000"

definition offset_record :: "ConsumerOffset \<Rightarrow> bytes" where
  "offset_record c =
     Put16 (of_nat (length (co_group c))) @ co_group c @ Put16 (of_nat (length (co_topic c))) @ co_topic c @
     Put32 (co_partition c) @ Put64 (co_offset c)"

text \<open>The writing loop stops at the first record whose names do not fit.\<close>

fun write_offsets :: "ConsumerOffset list \<Rightarrow> bytes \<times> bool" where
  "write_offsets [] = ([], True)"
| "write_offsets (c # cs) =
    (if length (co_group c) > 65535 \<or> length (co_topic c) > 65535 then ([], False)
     else let (out, good) = write_offsets cs in (offset_record c @ out, good))"

definition offsets_header :: "nat \<Rightarrow> bytes" where
  "offsets_header n = str ''MQCO'' @ Put32 1 @ Put32 (of_nat n)"

definition ConsumerOffsetStore_Save :: "save_io \<Rightarrow> store_files \<Rightarrow> ConsumerOffset list \<Rightarrow> store_files \<times> unit result" where
  "ConsumerOffsetStore_Save io fs offsets =
    (if length offsets > kMaxOffsets then (fs, Inl ''too many consumer offsets'')
     else case io_mkdir io of
       Some e \<Rightarrow> (fs, Inl e)
     | None \<Rightarrow>
         if \<not> io_open io then (fs, Inl ''cannot open consumer offset temporary file'')
         else let (out, good) = write_offsets offsets; content = offsets_header (length offsets) @ out in
           if \<not> good then (fs\<lparr>fs_tmp := Some content\<rparr>, Inl ''consumer offset name too long'')
           else if \<not> io_write io then (fs\<lparr>fs_tmp := None\<rparr>, Inl ''cannot write consumer offsets'')
           else case io_rename io of
             Some e \<Rightarrow> (fs\<lparr>fs_tmp := Some content\<rparr>, Inl e)
           | None \<Rightarrow> (\<lparr>fs_main = Some content, fs_tmp = None\<rparr>, Inr ()))"

definition read_offset :: "bytes \<Rightarrow> (ConsumerOffset \<times> bytes) result" where
  "read_offset s =
    (case in_Get16 s of
       None \<Rightarrow> Inl ''truncated consumer offsets''
     | Some (group_size, s1) \<Rightarrow>
         (case in_read (unat group_size) s1 of
            None \<Rightarrow> Inl ''truncated consumer offsets''
          | Some (grp, s2) \<Rightarrow>
              (case in_Get16 s2 of
                 None \<Rightarrow> Inl ''truncated consumer offsets''
               | Some (topic_size, s3) \<Rightarrow>
                   (case in_read (unat topic_size) s3 of
                      None \<Rightarrow> Inl ''truncated consumer offsets''
                    | Some (topic, s4) \<Rightarrow>
                        (case in_Get32 s4 of
                           None \<Rightarrow> Inl ''truncated consumer offsets''
                         | Some (part, s5) \<Rightarrow>
                             (case in_Get64 s5 of
                                None \<Rightarrow> Inl ''truncated consumer offsets''
                              | Some (offset, s6) \<Rightarrow>
                                  Inr (\<lparr>co_group = grp, co_topic = topic, co_partition = part,
                                        co_offset = offset\<rparr>, s6)))))))"

definition ConsumerOffsetStore_Load :: "load_io \<Rightarrow> store_files \<Rightarrow> ConsumerOffset list \<times> unit result" where
  "ConsumerOffsetStore_Load io fs =
    (case io_exists io of
       Some e \<Rightarrow> ([], Inl '''')
     | None \<Rightarrow>
         (case fs_main fs of
            None \<Rightarrow> ([], Inr ())
          | Some content \<Rightarrow>
              if \<not> io_read_open io then ([], Inl ''invalid consumer offsets'')
              else case read_header (str ''MQCO'') kMaxOffsets content of
                None \<Rightarrow> ([], Inl ''invalid consumer offsets'')
              | Some (count, s) \<Rightarrow> load_loop read_offset count s []))"

section \<open>The contract of a record format\<close>

locale record_format =
  fixes rd :: "bytes \<Rightarrow> ('a \<times> bytes) result"
    and enc :: "'a \<Rightarrow> bytes"
    and fits :: "'a \<Rightarrow> bool"
  assumes rd_enc: "fits x \<Longrightarrow> rd (enc x @ rest) = Inr (x, rest)"
    and rd_torn: "fits x \<Longrightarrow> strict_prefix p (enc x) \<Longrightarrow> \<exists>e. rd p = Inl e"
begin

lemma load_all:
  "\<forall>x \<in> set xs. fits x \<Longrightarrow> load_loop rd (length xs) (concat (map enc xs) @ rest) acc = (acc @ xs, Inr ())"
  by (induction xs arbitrary: acc) (auto simp: rd_enc)

lemma load_torn:
  "\<forall>x \<in> set xs. fits x \<Longrightarrow> strict_prefix p (concat (map enc xs)) \<Longrightarrow>
     \<exists>ys e. load_loop rd (length xs) p acc = (ys, Inl e)"
proof (induction xs arbitrary: p acc)
  case Nil
  then show ?case by simp
next
  case (Cons x xs)
  show ?case
  proof (cases "prefix (enc x) p")
    case True
    then obtain q where p: "p = enc x @ q" by (auto simp: prefix_def)
    with Cons.prems have "strict_prefix q (concat (map enc xs))" by (auto simp: strict_prefix_def)
    with Cons p show ?thesis by (simp add: rd_enc)
  next
    case False
    with Cons.prems have "strict_prefix p (enc x)" by (auto simp: prefix_append strict_prefix_def)
    with rd_torn [of x p] Cons.prems(1) obtain e where "rd p = Inl e" by auto
    then show ?thesis by simp
  qed
qed

end

section \<open>The two formats meet the contract\<close>

definition topic_fits :: "TopicMetadata \<Rightarrow> bool" where
  "topic_fits t \<longleftrightarrow> IsValidTopicName (tm_name t) \<and> tm_partition_count t \<noteq> 0 \<and> length (tm_name t) \<le> 65535"

definition offset_fits :: "ConsumerOffset \<Rightarrow> bool" where
  "offset_fits c \<longleftrightarrow> length (co_group c) \<le> 65535 \<and> length (co_topic c) \<le> 65535"

lemma in_Get16_Put [simp]: "in_Get16 (Put16 v @ s) = Some (v, s)"
  by (simp add: in_Get16_def)

lemma in_Get32_Put [simp]: "in_Get32 (Put32 v @ s) = Some (v, s)"
  by (simp add: in_Get32_def)

lemma in_Get64_Put [simp]: "in_Get64 (Put64 v @ s) = Some (v, s)"
  by (simp add: in_Get64_def)

lemma unat_length16 [simp]: "length xs \<le> 65535 \<Longrightarrow> unat (of_nat (length xs) :: u16) = length xs"
  by (rule unat_of_nat_fits) simp

lemma in_Get_short:
  "length p < 2 \<Longrightarrow> in_Get16 p = None" "length p < 4 \<Longrightarrow> in_Get32 p = None"
  "length p < 8 \<Longrightarrow> in_Get64 p = None" "length p < n \<Longrightarrow> in_read n p = None"
  by (simp_all add: in_Get16_def in_Get32_def in_Get64_def in_read_def)

lemma strict_prefix_shorter: "strict_prefix p xs \<Longrightarrow> length p < length xs"
  by (rule prefix_length_less)

lemma read_topic_torn:
  assumes "topic_fits t" and "strict_prefix p (topic_record t)"
  shows "read_topic p = Inl ''truncated topic metadata''"
  using assms(2) unfolding topic_record_def
proof (cases rule: strict_prefix_append_cases)
  case first
  then show ?thesis by (simp add: read_topic_def in_Get_short)
next
  case (second q)
  from this(2) show ?thesis
  proof (cases rule: strict_prefix_append_cases)
    case first
    with second assms(1) show ?thesis by (simp add: read_topic_def in_Get_short topic_fits_def)
  next
    case second': (second q')
    with second assms(1) show ?thesis
      using strict_prefix_shorter [OF second'(2)] by (simp add: read_topic_def in_Get_short topic_fits_def)
  qed
qed

lemma read_offset_torn:
  assumes "offset_fits c" and "strict_prefix p (offset_record c)"
  shows "read_offset p = Inl ''truncated consumer offsets''"
  using assms(2) unfolding offset_record_def
proof (cases rule: strict_prefix_append_cases)
  case first
  then show ?thesis by (simp add: read_offset_def in_Get_short)
next
  case (second q1)
  note p1 = second
  from p1(2) show ?thesis
  proof (cases rule: strict_prefix_append_cases)
    case first
    with p1 assms(1) show ?thesis by (simp add: read_offset_def in_Get_short offset_fits_def)
  next
    case (second q2)
    note p2 = second
    from p2(2) show ?thesis
    proof (cases rule: strict_prefix_append_cases)
      case first
      with p1 p2 assms(1) show ?thesis by (simp add: read_offset_def in_Get_short offset_fits_def)
    next
      case (second q3)
      note p3 = second
      from p3(2) show ?thesis
      proof (cases rule: strict_prefix_append_cases)
        case first
        with p1 p2 p3 assms(1) show ?thesis by (simp add: read_offset_def in_Get_short offset_fits_def)
      next
        case (second q4)
        note p4 = second
        from p4(2) show ?thesis
        proof (cases rule: strict_prefix_append_cases)
          case first
          with p1 p2 p3 p4 assms(1) show ?thesis by (simp add: read_offset_def in_Get_short offset_fits_def)
        next
          case (second q5)
          with p1 p2 p3 p4 assms(1) show ?thesis
            using strict_prefix_shorter [OF second(2)] by (simp add: read_offset_def in_Get_short offset_fits_def)
        qed
      qed
    qed
  qed
qed

interpretation topic_format: record_format read_topic topic_record topic_fits
proof
  show "read_topic (topic_record t @ rest) = Inr (t, rest)" if "topic_fits t" for t rest
    using that by (simp add: read_topic_def topic_record_def topic_fits_def)
  show "\<exists>e. read_topic p = Inl e" if "topic_fits t" "strict_prefix p (topic_record t)" for t p
    using read_topic_torn [OF that] by blast
qed

interpretation offset_format: record_format read_offset offset_record offset_fits
proof
  show "read_offset (offset_record c @ rest) = Inr (c, rest)" if "offset_fits c" for c rest
    using that by (simp add: read_offset_def offset_record_def offset_fits_def)
  show "\<exists>e. read_offset p = Inl e" if "offset_fits c" "strict_prefix p (offset_record c)" for c p
    using read_offset_torn [OF that] by blast
qed

section \<open>Loading what was saved\<close>

lemma write_offsets_fits:
  "write_offsets cs = (concat (map offset_record cs), True)" if "\<forall>c \<in> set cs. offset_fits c"
  using that by (induction cs) (auto simp: offset_fits_def)

lemma write_offsets_good: "snd (write_offsets cs) \<longleftrightarrow> (\<forall>c \<in> set cs. offset_fits c)"
  by (induction cs) (auto simp: offset_fits_def split: prod.splits)

lemma read_header_file:
  assumes "length magic = 4" and "n \<le> max_count" and "max_count < 2 ^ 32"
  shows "read_header magic max_count (magic @ Put32 1 @ Put32 (of_nat n) @ s) = Some (n, s)"
proof -
  have "unat (of_nat n :: u32) = n" using assms by (intro unat_of_nat_fits) simp
  with assms show ?thesis by (simp add: read_header_def)
qed

lemma read_header_short:
  "length p < 12 \<Longrightarrow> read_header magic max_count p = None"
  by (auto simp: read_header_def in_read_def in_Get32_def)

lemma length_str [simp]: "length (str s) = length s"
  by (simp add: str_def)

lemma TopicMetadataStore_Save_Inr:
  "snd (TopicMetadataStore_Save io fs ts) = Inr u \<longleftrightarrow>
     length ts \<le> kMaxTopics \<and> (\<forall>t \<in> set ts. topic_fits t) \<and> io_mkdir io = None \<and> io_open io \<and> io_write io \<and>
     io_rename io = None"
  by (auto simp: TopicMetadataStore_Save_def topic_fits_def list_ex_iff not_less not_le split: option.splits)

lemma TopicMetadataStore_Save_main:
  "snd (TopicMetadataStore_Save io fs ts) = Inr u \<Longrightarrow> fs_main (fst (TopicMetadataStore_Save io fs ts)) = Some (topics_file ts)"
  by (auto simp: TopicMetadataStore_Save_def split: if_splits option.splits)

lemma ConsumerOffsetStore_Save_Inr:
  "snd (ConsumerOffsetStore_Save io fs cs) = Inr u \<longleftrightarrow>
     length cs \<le> kMaxOffsets \<and> (\<forall>c \<in> set cs. offset_fits c) \<and> io_mkdir io = None \<and> io_open io \<and> io_write io \<and>
     io_rename io = None"
  by (auto simp: ConsumerOffsetStore_Save_def not_less not_le write_offsets_good [symmetric] Let_def split: option.splits prod.splits if_splits)

lemma ConsumerOffsetStore_Save_main:
  assumes "snd (ConsumerOffsetStore_Save io fs cs) = Inr u"
  shows "fs_main (fst (ConsumerOffsetStore_Save io fs cs)) =
    Some (offsets_header (length cs) @ concat (map offset_record cs))"
proof -
  from assms have "\<forall>c \<in> set cs. offset_fits c" by (simp add: ConsumerOffsetStore_Save_Inr)
  with assms show ?thesis
    by (auto simp: ConsumerOffsetStore_Save_def write_offsets_fits Let_def split: if_splits option.splits)
qed

lemma topics_file_header:
  "length ts \<le> kMaxTopics \<Longrightarrow>
     read_header (str ''MQTM'') kMaxTopics (topics_file ts) = Some (length ts, concat (map topic_record ts))"
  unfolding topics_file_def kVersion_def by (rule read_header_file) (simp_all add: kMaxTopics_def)

lemma offsets_file_header:
  "length cs \<le> kMaxOffsets \<Longrightarrow>
     read_header (str ''MQCO'') kMaxOffsets (offsets_header (length cs) @ s) = Some (length cs, s)"
  unfolding offsets_header_def append_assoc by (rule read_header_file) (simp_all add: kMaxOffsets_def)

lemma TopicMetadataStore_Load_file:
  "length ts \<le> kMaxTopics \<Longrightarrow> \<forall>t \<in> set ts. topic_fits t \<Longrightarrow> fs_main fs = Some (topics_file ts) \<Longrightarrow>
     TopicMetadataStore_Load good_load_io fs = (ts, Inr ())"
  using topic_format.load_all [of ts "[]" "[]"]
  by (simp add: TopicMetadataStore_Load_def good_load_io_def topics_file_header)

lemma ConsumerOffsetStore_Load_file:
  "length cs \<le> kMaxOffsets \<Longrightarrow> \<forall>c \<in> set cs. offset_fits c \<Longrightarrow>
     fs_main fs = Some (offsets_header (length cs) @ concat (map offset_record cs)) \<Longrightarrow>
     ConsumerOffsetStore_Load good_load_io fs = (cs, Inr ())"
  using offset_format.load_all [of cs "[]" "[]"]
  by (simp add: ConsumerOffsetStore_Load_def good_load_io_def offsets_file_header)

section \<open>Properties\<close>

text \<open>C6: a successful \<^verbatim>\<open>TopicMetadataStore::Save\<close> is read back unchanged by \<^verbatim>\<open>Load\<close>, and the same
  holds for \<^verbatim>\<open>ConsumerOffsetStore\<close>.\<close>

theorem stores_round_trip:
  "(snd (TopicMetadataStore_Save io fs ts) = Inr () \<longrightarrow>
      TopicMetadataStore_Load good_load_io (fst (TopicMetadataStore_Save io fs ts)) = (ts, Inr ())) \<and>
   (snd (ConsumerOffsetStore_Save io fs cs) = Inr () \<longrightarrow>
      ConsumerOffsetStore_Load good_load_io (fst (ConsumerOffsetStore_Save io fs cs)) = (cs, Inr ()))"
proof (intro conjI impI)
  assume saved: "snd (TopicMetadataStore_Save io fs ts) = Inr ()"
  show "TopicMetadataStore_Load good_load_io (fst (TopicMetadataStore_Save io fs ts)) = (ts, Inr ())"
    using TopicMetadataStore_Save_Inr [THEN iffD1, OF saved] TopicMetadataStore_Save_main [OF saved]
    by (intro TopicMetadataStore_Load_file) auto
next
  assume saved: "snd (ConsumerOffsetStore_Save io fs cs) = Inr ()"
  show "ConsumerOffsetStore_Load good_load_io (fst (ConsumerOffsetStore_Save io fs cs)) = (cs, Inr ())"
    using ConsumerOffsetStore_Save_Inr [THEN iffD1, OF saved] ConsumerOffsetStore_Save_main [OF saved]
    by (intro ConsumerOffsetStore_Load_file) auto
qed

text \<open>The stores a witness uses: one topic \<open>a\<close> with two partitions, one committed offset.\<close>

definition sample_topics :: "TopicMetadata list" where
  "sample_topics = [\<lparr>tm_name = str ''a'', tm_partition_count = 2\<rparr>]"

definition sample_offsets :: "ConsumerOffset list" where
  "sample_offsets = [\<lparr>co_group = str ''g'', co_topic = str ''a'', co_partition = 1, co_offset = 7\<rparr>]"

definition empty_files :: store_files where
  "empty_files = \<lparr>fs_main = None, fs_tmp = None\<rparr>"

lemma sample_saves:
  "snd (TopicMetadataStore_Save good_save_io empty_files sample_topics) = Inr ()"
  "snd (ConsumerOffsetStore_Save good_save_io empty_files sample_offsets) = Inr ()"
proof -
  have "IsValidTopicName (str ''a'')" by code_simp
  then show "snd (TopicMetadataStore_Save good_save_io empty_files sample_topics) = Inr ()"
    by (simp add: TopicMetadataStore_Save_Inr sample_topics_def good_save_io_def kMaxTopics_def topic_fits_def)
  show "snd (ConsumerOffsetStore_Save good_save_io empty_files sample_offsets) = Inr ()"
    by (simp add: ConsumerOffsetStore_Save_Inr sample_offsets_def good_save_io_def kMaxOffsets_def offset_fits_def)
qed

theorem stores_round_trip_witness:
  "TopicMetadataStore_Load good_load_io (fst (TopicMetadataStore_Save good_save_io empty_files sample_topics)) =
     (sample_topics, Inr ()) \<and>
   ConsumerOffsetStore_Load good_load_io (fst (ConsumerOffsetStore_Save good_save_io empty_files sample_offsets)) =
     (sample_offsets, Inr ())"
  using stores_round_trip [of good_save_io empty_files sample_topics sample_offsets] sample_saves by simp

text \<open>a snapshot is replaced atomically. Whatever step of \<^verbatim>\<open>Save\<close> fails (too many records, an
  invalid record, creating the directory, opening, writing, renaming), the file that \<^verbatim>\<open>Load\<close> reads
  keeps its previous content, in both stores.\<close>

theorem stores_save_atomic:
  "(snd (TopicMetadataStore_Save io fs ts) \<noteq> Inr () \<longrightarrow>
      fs_main (fst (TopicMetadataStore_Save io fs ts)) = fs_main fs) \<and>
   (snd (ConsumerOffsetStore_Save io fs cs) \<noteq> Inr () \<longrightarrow>
      fs_main (fst (ConsumerOffsetStore_Save io fs cs)) = fs_main fs)"
  by (auto simp: TopicMetadataStore_Save_def ConsumerOffsetStore_Save_def Let_def
      split: option.splits prod.splits if_splits)

theorem stores_save_atomic_witness:
  "fs_main (fst (TopicMetadataStore_Save (good_save_io\<lparr>io_rename := Some ''denied''\<rparr>)
       (empty_files\<lparr>fs_main := Some [1, 2]\<rparr>) sample_topics)) = Some [1, 2] \<and>
   fs_main (fst (ConsumerOffsetStore_Save (good_save_io\<lparr>io_write := False\<rparr>)
       (empty_files\<lparr>fs_main := Some [1, 2]\<rparr>) sample_offsets)) = Some [1, 2]"
proof -
  have "snd (TopicMetadataStore_Save (good_save_io\<lparr>io_rename := Some ''denied''\<rparr>)
      (empty_files\<lparr>fs_main := Some [1, 2]\<rparr>) sample_topics) \<noteq> Inr ()"
    and "snd (ConsumerOffsetStore_Save (good_save_io\<lparr>io_write := False\<rparr>)
      (empty_files\<lparr>fs_main := Some [1, 2]\<rparr>) sample_offsets) \<noteq> Inr ()"
    by (simp_all add: TopicMetadataStore_Save_Inr ConsumerOffsetStore_Save_Inr good_save_io_def)
  then show ?thesis
    using stores_save_atomic [of "good_save_io\<lparr>io_rename := Some ''denied''\<rparr>"
        "empty_files\<lparr>fs_main := Some [1, 2]\<rparr>" sample_topics sample_offsets]
      stores_save_atomic [of "good_save_io\<lparr>io_write := False\<rparr>"
        "empty_files\<lparr>fs_main := Some [1, 2]\<rparr>" sample_topics sample_offsets]
    by simp
qed

text \<open>Where a file of one of the two formats is cut: inside the header, or inside the records.\<close>

lemma TopicMetadataStore_Load_torn:
  assumes ts: "length ts \<le> kMaxTopics" "\<forall>t \<in> set ts. topic_fits t"
    and p: "strict_prefix p (topics_file ts)" and fs: "fs_main fs = Some p"
  shows "\<exists>ys e. TopicMetadataStore_Load good_load_io fs = (ys, Inl e)"
proof -
  define hd where "hd = str ''MQTM'' @ Put32 kVersion @ Put32 (of_nat (length ts))"
  have "strict_prefix p (hd @ concat (map topic_record ts))" using p by (simp add: topics_file_def hd_def)
  then show ?thesis
  proof (cases rule: strict_prefix_append_cases)
    case first
    then show ?thesis
      by (simp add: hd_def TopicMetadataStore_Load_def good_load_io_def fs read_header_short)
  next
    case (second q)
    have "read_header (str ''MQTM'') kMaxTopics (hd @ q) = Some (length ts, q)"
      unfolding hd_def kVersion_def append_assoc using ts by (intro read_header_file) (simp_all add: kMaxTopics_def)
    with second topic_format.load_torn [OF ts(2) second(2)] show ?thesis
      by (simp add: TopicMetadataStore_Load_def good_load_io_def fs)
  qed
qed

lemma ConsumerOffsetStore_Load_torn:
  assumes cs: "length cs \<le> kMaxOffsets" "\<forall>c \<in> set cs. offset_fits c"
    and p: "strict_prefix p (offsets_header (length cs) @ concat (map offset_record cs))"
    and fs: "fs_main fs = Some p"
  shows "\<exists>ys e. ConsumerOffsetStore_Load good_load_io fs = (ys, Inl e)"
  using p
proof (cases rule: strict_prefix_append_cases)
  case first
  then show ?thesis
    by (simp add: offsets_header_def ConsumerOffsetStore_Load_def good_load_io_def fs read_header_short)
next
  case (second q)
  with offset_format.load_torn [OF cs(2) second(2)] show ?thesis
    by (simp add: ConsumerOffsetStore_Load_def good_load_io_def fs offsets_file_header cs(1))
qed

text \<open>a snapshot that lost any number of bytes at its end is refused by \<^verbatim>\<open>Load\<close> with an error,
  in both stores: a truncated file never loads as a shorter list.\<close>

theorem stores_reject_torn_file:
  assumes "snd (TopicMetadataStore_Save io fs ts) = Inr ()"
    and "fs_main (fst (TopicMetadataStore_Save io fs ts)) = Some content"
    and "snd (ConsumerOffsetStore_Save io' fs' cs) = Inr ()"
    and "fs_main (fst (ConsumerOffsetStore_Save io' fs' cs)) = Some content'"
    and "strict_prefix p content" and "strict_prefix p' content'"
  shows "(\<exists>ys e. TopicMetadataStore_Load good_load_io (fs\<lparr>fs_main := Some p\<rparr>) = (ys, Inl e)) \<and>
         (\<exists>ys e. ConsumerOffsetStore_Load good_load_io (fs'\<lparr>fs_main := Some p'\<rparr>) = (ys, Inl e))"
proof
  show "\<exists>ys e. TopicMetadataStore_Load good_load_io (fs\<lparr>fs_main := Some p\<rparr>) = (ys, Inl e)"
    using TopicMetadataStore_Save_Inr [THEN iffD1, OF assms(1)] TopicMetadataStore_Save_main [OF assms(1)] assms(2,5)
    by (intro TopicMetadataStore_Load_torn [of ts p]) auto
  show "\<exists>ys e. ConsumerOffsetStore_Load good_load_io (fs'\<lparr>fs_main := Some p'\<rparr>) = (ys, Inl e)"
    using ConsumerOffsetStore_Save_Inr [THEN iffD1, OF assms(3)] ConsumerOffsetStore_Save_main [OF assms(3)] assms(4,6)
    by (intro ConsumerOffsetStore_Load_torn [of cs p']) auto
qed

theorem stores_reject_torn_file_witness:
  "(\<exists>ys e. TopicMetadataStore_Load good_load_io (empty_files\<lparr>fs_main := Some (str ''MQTM'')\<rparr>) = (ys, Inl e)) \<and>
   (\<exists>ys e. ConsumerOffsetStore_Load good_load_io (empty_files\<lparr>fs_main := Some (str ''MQCO'')\<rparr>) = (ys, Inl e))"
proof (rule stores_reject_torn_file)
  show "snd (TopicMetadataStore_Save good_save_io empty_files sample_topics) = Inr ()" by (rule sample_saves)
  show "snd (ConsumerOffsetStore_Save good_save_io empty_files sample_offsets) = Inr ()" by (rule sample_saves)
  show "fs_main (fst (TopicMetadataStore_Save good_save_io empty_files sample_topics)) = Some (topics_file sample_topics)"
    using sample_saves(1) by (rule TopicMetadataStore_Save_main)
  show "fs_main (fst (ConsumerOffsetStore_Save good_save_io empty_files sample_offsets)) =
      Some (offsets_header (length sample_offsets) @ concat (map offset_record sample_offsets))"
    using sample_saves(2) by (rule ConsumerOffsetStore_Save_main)
  show "strict_prefix (str ''MQTM'') (topics_file sample_topics)"
    by (simp add: topics_file_def strict_prefix_def Put32_def)
  show "strict_prefix (str ''MQCO'') (offsets_header (length sample_offsets) @ concat (map offset_record sample_offsets))"
    by (simp add: offsets_header_def strict_prefix_def Put32_def)
qed

text \<open>restart of the topic registry. The topics of the queue manager, listed, saved, loaded and
  handed to \<^verbatim>\<open>ReplaceTopics\<close> (the sequence of \<^verbatim>\<open>Broker::Init\<close>), give back the same table, and the
  load and the replacement both succeed.\<close>

theorem topics_survive_restart:
  assumes ok: "queue_ok topics"
    and saved: "snd (TopicMetadataStore_Save io fs (ListTopics topics)) = Inr ()"
    and load: "TopicMetadataStore_Load good_load_io (fst (TopicMetadataStore_Save io fs (ListTopics topics))) = (ts, r)"
  shows "r = Inr () \<and> snd (ReplaceTopics [] ts) = Inr () \<and> queue_ok (fst (ReplaceTopics [] ts)) \<and>
         map_of (fst (ReplaceTopics [] ts)) = map_of topics"
proof -
  have "TopicMetadataStore_Load good_load_io (fst (TopicMetadataStore_Save io fs (ListTopics topics))) =
      (ListTopics topics, Inr ())"
    using TopicMetadataStore_Save_Inr [THEN iffD1, OF saved] TopicMetadataStore_Save_main [OF saved]
    by (intro TopicMetadataStore_Load_file) auto
  with load have "ts = ListTopics topics" "r = Inr ()" by auto
  with ReplaceTopics_ListTopics [OF ok, of "[]"] ReplaceTopics_ok [of "[]"] show ?thesis by simp
qed

theorem topics_survive_restart_witness:
  "map_of (fst (ReplaceTopics [] sample_topics)) = map_of [(str ''a'', \<lparr>tm_name = str ''a'', tm_partition_count = 2\<rparr>)]"
proof -
  have valid_a: "IsValidTopicName (str ''a'')" by code_simp
  define topics where "topics = fst (CreateTopic [] (str ''a'') 2)"
  have topics: "topics = [(str ''a'', \<lparr>tm_name = str ''a'', tm_partition_count = 2\<rparr>)]"
    unfolding topics_def by (simp add: CreateTopic_def kMaxPartitions_def valid_a)
  have ok: "queue_ok topics" unfolding topics_def by (rule CreateTopic_ok) simp
  have list: "ListTopics topics = sample_topics" by (simp add: topics ListTopics_def sample_topics_def)
  have saved: "snd (TopicMetadataStore_Save good_save_io empty_files (ListTopics topics)) = Inr ()"
    unfolding list by (rule sample_saves)
  have load: "TopicMetadataStore_Load good_load_io
      (fst (TopicMetadataStore_Save good_save_io empty_files (ListTopics topics))) = (sample_topics, Inr ())"
    using TopicMetadataStore_Save_Inr [THEN iffD1, OF saved] TopicMetadataStore_Save_main [OF saved]
    unfolding list by (intro TopicMetadataStore_Load_file) auto
  show ?thesis using topics_survive_restart [OF ok saved load] by (simp add: topics)
qed

end
