(* ===== verification/Group_Coordinator.thy ===== *)
theory Group_Coordinator
  imports Prelude "HOL-Library.Product_Lexorder"
begin

text \<open>
  Consumer groups: \<^verbatim>\<open>src/core/consumer_group_coordinator.cc\<close> and its header. The three maps of the
  class are the fields of \<open>group_state\<close>; every public operation holds \<^verbatim>\<open>mutex_\<close> throughout, so it is
  one step. Times (\<^verbatim>\<open>steady_clock\<close> points) and the member timeout are integers on one scale.

  The lemmas show that the cached assignment lists always equal what the members and partition
  counts determine (\<open>groups_ok\<close>), and that the round-robin shares handed out by \<open>Sync\<close> split the
  partitions of the subscribed topics: disjoint, complete and balanced. The contract of the
  round-robin loop is the locale \<open>round_robin\<close>.
\<close>

section \<open>Definitions\<close>

record GroupAssignment =
  ga_topic :: bytes
  ga_partition :: u32

record Member =
  mem_last_heartbeat :: int
  mem_topics :: "bytes list"

type_synonym member_table = "(bytes, Member) umap"

record group_state =
  gs_members :: "(bytes, member_table) umap"
  gs_assignments :: "(bytes, GroupAssignment list) umap"
  gs_partitions :: "(bytes, u32) umap"
  gs_member_timeout :: int

definition init_groups :: "int \<Rightarrow> group_state" where
  "init_groups member_timeout =
     \<lparr>gs_members = [], gs_assignments = [], gs_partitions = [], gs_member_timeout = member_timeout\<rparr>"

text \<open>The sorted set of topics that any member subscribes to, and the partitions of these topics.\<close>

definition subscribed_topics :: "member_table \<Rightarrow> bytes list" where
  "subscribed_topics members = sort (remdups (concat (map (\<lambda>(_, m). mem_topics m) members)))"

definition topic_partitions :: "(bytes, u32) umap \<Rightarrow> bytes \<Rightarrow> GroupAssignment list" where
  "topic_partitions partitions topic =
    (let count = (case map_of partitions topic of None \<Rightarrow> 0 | Some n \<Rightarrow> n) in
     map (\<lambda>p. \<lparr>ga_topic = topic, ga_partition = of_nat p\<rparr>) [0..<unat count])"

definition all_partitions :: "(bytes, u32) umap \<Rightarrow> member_table \<Rightarrow> GroupAssignment list" where
  "all_partitions partitions members =
     sort_key (\<lambda>a. (ga_topic a, ga_partition a))
       (concat (map (topic_partitions partitions) (subscribed_topics members)))"

definition RebalanceLocked :: "group_state \<Rightarrow> bytes \<Rightarrow> group_state" where
  "RebalanceLocked s grp =
    (case map_of (gs_members s) grp of
       None \<Rightarrow> s
     | Some members \<Rightarrow>
         s\<lparr>gs_assignments := AList.update grp
             (if members = [] then [] else all_partitions (gs_partitions s) members) (gs_assignments s)\<rparr>)"

definition Join :: "group_state \<Rightarrow> bytes \<Rightarrow> bytes \<Rightarrow> bytes list \<Rightarrow> int \<Rightarrow> group_state \<times> bool" where
  "Join s grp member_id topics now =
    (if grp = [] \<or> member_id = [] then (s, False)
     else
       let members = (case map_of (gs_members s) grp of None \<Rightarrow> [] | Some ms \<Rightarrow> ms);
           members' = AList.update member_id \<lparr>mem_last_heartbeat = now, mem_topics = topics\<rparr> members
       in (RebalanceLocked (s\<lparr>gs_members := AList.update grp members' (gs_members s)\<rparr>) grp, True))"

definition Heartbeat :: "group_state \<Rightarrow> bytes \<Rightarrow> bytes \<Rightarrow> int \<Rightarrow> group_state \<times> bool" where
  "Heartbeat s grp member_id now =
    (case map_of (gs_members s) grp of
       None \<Rightarrow> (s, False)
     | Some members \<Rightarrow>
         (case map_of members member_id of
            None \<Rightarrow> (s, False)
          | Some m \<Rightarrow>
              (s\<lparr>gs_members := AList.update grp
                   (AList.update member_id (m\<lparr>mem_last_heartbeat := now\<rparr>) members) (gs_members s)\<rparr>, True)))"

definition Leave :: "group_state \<Rightarrow> bytes \<Rightarrow> bytes \<Rightarrow> group_state \<times> bool" where
  "Leave s grp member_id =
    (case map_of (gs_members s) grp of
       None \<Rightarrow> (s, False)
     | Some members \<Rightarrow>
         if map_of members member_id = None then (s, False)
         else (RebalanceLocked
                 (s\<lparr>gs_members := AList.update grp (AList.delete member_id members) (gs_members s)\<rparr>) grp, True))"

text \<open>The body of the loop of \<^verbatim>\<open>Expire\<close> for one group; \<open>0x1F\<close> separates group and member in the output.\<close>

definition expire_group :: "int \<Rightarrow> group_state \<times> bytes list \<Rightarrow> bytes \<Rightarrow> group_state \<times> bytes list" where
  "expire_group now acc grp =
    (let (s, expired) = acc;
         members = (case map_of (gs_members s) grp of None \<Rightarrow> [] | Some ms \<Rightarrow> ms);
         late = (\<lambda>m. now - mem_last_heartbeat m > gs_member_timeout s);
         gone = map (\<lambda>(member_id, _). grp @ [0x1F] @ member_id) (filter (\<lambda>(_, m). late m) members);
         members' = filter (\<lambda>(_, m). \<not> late m) members
     in (RebalanceLocked (s\<lparr>gs_members := AList.update grp members' (gs_members s)\<rparr>) grp, expired @ gone))"

definition Expire :: "group_state \<Rightarrow> int \<Rightarrow> group_state \<times> bytes list" where
  "Expire s now = foldl (expire_group now) (s, []) (map fst (gs_members s))"

definition SetPartitions :: "group_state \<Rightarrow> bytes \<Rightarrow> u32 \<Rightarrow> group_state" where
  "SetPartitions s topic partition_count =
    (let s' = s\<lparr>gs_partitions := AList.update topic partition_count (gs_partitions s)\<rparr>
     in foldl RebalanceLocked s' (map fst (gs_members s')))"

definition SetSubscriptions :: "group_state \<Rightarrow> bytes \<Rightarrow> bytes \<Rightarrow> bytes list \<Rightarrow> group_state \<times> bool" where
  "SetSubscriptions s grp member_id topics =
    (case map_of (gs_members s) grp of
       None \<Rightarrow> (s, False)
     | Some members \<Rightarrow>
         (case map_of members member_id of
            None \<Rightarrow> (s, False)
          | Some m \<Rightarrow>
              (RebalanceLocked
                 (s\<lparr>gs_members := AList.update grp
                      (AList.update member_id (m\<lparr>mem_topics := topics\<rparr>) members) (gs_members s)\<rparr>) grp, True)))"

text \<open>
  The loop \<^verbatim>\<open>for (index = member_index; index < size; index += sorted.size())\<close>. The step is the
  number of members, which is positive wherever the loop is reached.
\<close>

function every :: "nat \<Rightarrow> nat \<Rightarrow> 'a list \<Rightarrow> 'a list" where
  "every index step xs =
    (if 0 < step \<and> index < length xs then xs ! index # every (index + step) step xs else [])"
  by pat_completeness auto
termination
  by (relation "measure (\<lambda>(index, _, xs). length xs - index)") auto

declare every.simps [simp del]

definition sorted_ids :: "member_table \<Rightarrow> bytes list" where
  "sorted_ids members = sort (map fst members)"

definition member_index :: "bytes list \<Rightarrow> bytes \<Rightarrow> nat" where
  "member_index ids member_id = length (takeWhile (\<lambda>x. x \<noteq> member_id) ids)"

definition Sync :: "group_state \<Rightarrow> bytes \<Rightarrow> bytes \<Rightarrow> GroupAssignment list option" where
  "Sync s grp member_id =
    (case map_of (gs_members s) grp of
       None \<Rightarrow> None
     | Some members \<Rightarrow>
         if map_of members member_id = None then None
         else case map_of (gs_assignments s) grp of
           None \<Rightarrow> Some []
         | Some al \<Rightarrow>
             (let ids = sorted_ids members; index = member_index ids member_id in
              if index = length ids then None else Some (every index (length ids) al)))"

definition Assignment :: "group_state \<Rightarrow> bytes \<Rightarrow> bytes \<Rightarrow> GroupAssignment list" where
  "Assignment s grp member_id =
    (case map_of (gs_members s) grp of
       None \<Rightarrow> []
     | Some members \<Rightarrow>
         if map_of members member_id = None then []
         else case map_of (gs_assignments s) grp of
           None \<Rightarrow> []
         | Some al \<Rightarrow>
             (let ids = sorted_ids members; index = member_index ids member_id in
              if index = length ids then [] else every index (length ids) al))"

section \<open>The coordinator as a state machine\<close>

inductive group_step :: "group_state \<Rightarrow> group_state \<Rightarrow> bool" where
  join: "group_step s (fst (Join s grp member_id topics now))"
| heartbeat: "group_step s (fst (Heartbeat s grp member_id now))"
| leave: "group_step s (fst (Leave s grp member_id))"
| expire: "group_step s (fst (Expire s now))"
| set_partitions: "group_step s (SetPartitions s topic partition_count)"
| set_subscriptions: "group_step s (fst (SetSubscriptions s grp member_id topics))"

inductive groups_reachable :: "group_state \<Rightarrow> bool" where
  start: "groups_reachable (init_groups member_timeout)"
| step: "groups_reachable s \<Longrightarrow> group_step s s' \<Longrightarrow> groups_reachable s'"

inductive_cases group_stepE: "group_step s s'"

section \<open>The contract of the round-robin loop\<close>

lemma div_plus_self: "0 < n \<Longrightarrow> (a + n) div n = Suc (a div n)" for a n :: nat
  by (simp add: div_add_self2)

locale round_robin =
  fixes pick :: "nat \<Rightarrow> nat \<Rightarrow> 'a list \<Rightarrow> 'a list"
  assumes pick_set: "i < n \<Longrightarrow> set (pick i n xs) = {xs ! j | j. j < length xs \<and> j mod n = i}"
    and pick_length: "i < n \<Longrightarrow> length (pick i n xs) = (length xs + n - 1 - i) div n"
    and pick_distinct: "distinct xs \<Longrightarrow> i < n \<Longrightarrow> distinct (pick i n xs)"
begin

lemma pick_cover: "0 < n \<Longrightarrow> (\<Union>i<n. set (pick i n xs)) = set xs"
proof
  assume n: "0 < n"
  show "(\<Union>i<n. set (pick i n xs)) \<subseteq> set xs" by (auto simp: pick_set)
  show "set xs \<subseteq> (\<Union>i<n. set (pick i n xs))"
  proof
    fix x assume "x \<in> set xs"
    then obtain j where j: "j < length xs" "x = xs ! j" by (auto simp: in_set_conv_nth)
    have m: "j mod n < n" using n by simp
    have "x \<in> set (pick (j mod n) n xs)" unfolding pick_set [OF m] using j by blast
    with m show "x \<in> (\<Union>i<n. set (pick i n xs))" by blast
  qed
qed

lemma pick_disjoint:
  assumes "distinct xs" and "i < n" and "k < n" and "i \<noteq> k"
  shows "set (pick i n xs) \<inter> set (pick k n xs) = {}"
  using assms by (auto simp: pick_set nth_eq_iff_index_eq)

lemma pick_balanced:
  assumes "i < n" and "k < n"
  shows "length (pick i n xs) \<le> Suc (length (pick k n xs))"
proof -
  have "(length xs + n - 1 - i) div n \<le> (length xs + n - 1 - k + n) div n"
    using assms by (intro div_le_mono) simp
  also have "\<dots> = Suc ((length xs + n - 1 - k) div n)"
    using assms by (intro div_plus_self) simp
  finally show ?thesis using assms by (simp add: pick_length)
qed

end

lemma every_set:
  "0 < n \<Longrightarrow> set (every i n xs) = {xs ! j | j. i \<le> j \<and> j < length xs \<and> j mod n = i mod n}"
proof (induction i n xs rule: every.induct)
  case (1 i n xs)
  show ?case
  proof (cases "i < length xs")
    case False
    then show ?thesis by (auto simp: every.simps)
  next
    case True
    with 1 have IH: "set (every (i + n) n xs) = {xs ! j | j. i + n \<le> j \<and> j < length xs \<and> j mod n = i mod n}"
      by simp
    have split: "i \<le> j \<and> j mod n = i mod n \<longleftrightarrow> j = i \<or> i + n \<le> j \<and> j mod n = i mod n" for j
    proof -
      have "i + n \<le> j" if less: "i < j" and m: "j mod n = i mod n"
      proof -
        have "n dvd j - i" using less m by (simp add: mod_eq_dvd_iff_nat)
        then show ?thesis using less by (auto dest: dvd_imp_le)
      qed
      then show ?thesis by (auto simp: le_less)
    qed
    have "{xs ! j | j. i \<le> j \<and> j < length xs \<and> j mod n = i mod n} =
        insert (xs ! i) {xs ! j | j. i + n \<le> j \<and> j < length xs \<and> j mod n = i mod n}"
      (is "?A = insert _ ?B")
    proof
      show "?A \<subseteq> insert (xs ! i) ?B" using split by fastforce
      have "?B \<subseteq> ?A" using split by fastforce
      with True show "insert (xs ! i) ?B \<subseteq> ?A" by blast
    qed
    moreover have "every i n xs = xs ! i # every (i + n) n xs" using True 1(2) by (subst every.simps) simp
    ultimately show ?thesis by (simp only: list.set IH)
  qed
qed

lemma every_length: "0 < n \<Longrightarrow> length (every i n xs) = (length xs + n - 1 - i) div n"
proof (induction i n xs rule: every.induct)
  case (1 i n xs)
  show ?case
  proof (cases "i < length xs")
    case False
    then have "length xs + n - 1 - i < n" using 1(2) by simp
    then have "(length xs + n - 1 - i) div n = 0" by simp
    with False show ?thesis by (subst every.simps) simp
  next
    case True
    then have "length xs + n - 1 - i = (length xs - 1 - i) + n" by simp
    moreover have "length xs + n - 1 - (i + n) = length xs - 1 - i" using True by simp
    moreover have "every i n xs = xs ! i # every (i + n) n xs" using True 1(2) by (subst every.simps) simp
    ultimately show ?thesis using True 1 div_plus_self [of n "length xs - 1 - i"] by simp
  qed
qed

lemma every_distinct: "0 < n \<Longrightarrow> distinct xs \<Longrightarrow> distinct (every i n xs)"
proof (induction i n xs rule: every.induct)
  case (1 i n xs)
  show ?case
  proof (cases "i < length xs")
    case False
    then show ?thesis by (simp add: every.simps)
  next
    case True
    then have "every i n xs = xs ! i # every (i + n) n xs" using 1(2) by (subst every.simps) simp
    moreover have "xs ! i \<notin> set (every (i + n) n xs)"
      using 1(2,3) True by (auto simp: every_set nth_eq_iff_index_eq)
    ultimately show ?thesis using 1 True by simp
  qed
qed

interpretation every_rr: round_robin every
proof
  fix i n :: nat and xs :: "'a list"
  assume i: "i < n"
  have j: "i \<le> j" if "j mod n = i" for j using that by auto
  show "set (every i n xs) = {xs ! j | j. j < length xs \<and> j mod n = i}"
    using i every_set [of n i xs] by (auto dest: j)
  show "length (every i n xs) = (length xs + n - 1 - i) div n" using i by (simp add: every_length)
  show "distinct (every i n xs)" if "distinct xs" using that i by (simp add: every_distinct)
qed

section \<open>What a rebalance computes\<close>

definition partition_count_of :: "(bytes, u32) umap \<Rightarrow> bytes \<Rightarrow> u32" where
  "partition_count_of partitions topic = (case map_of partitions topic of None \<Rightarrow> 0 | Some n \<Rightarrow> n)"

definition topics_of_group :: "member_table \<Rightarrow> bytes set" where
  "topics_of_group members = (\<Union>(_, m) \<in> set members. set (mem_topics m))"

lemma set_subscribed_topics: "set (subscribed_topics members) = topics_of_group members"
  by (auto simp: subscribed_topics_def topics_of_group_def)

lemma set_topic_partitions:
  "set (topic_partitions partitions topic) =
     {a. ga_topic a = topic \<and> ga_partition a < partition_count_of partitions topic}" (is "?l = ?r")
proof -
  let ?n = "unat (partition_count_of partitions topic)"
  have eq: "?l = (\<lambda>p. \<lparr>ga_topic = topic, ga_partition = of_nat p\<rparr>) ` {0..<?n}"
    by (simp add: topic_partitions_def partition_count_of_def)
  have small: "unat (of_nat p :: u32) = p" if "p < ?n" for p
    using that unat_bound [of "partition_count_of partitions topic"] by (intro unat_of_nat_fits) simp
  show ?thesis
  proof
    show "?l \<subseteq> ?r" unfolding eq using small by (auto simp: word_less_nat_alt)
    show "?r \<subseteq> ?l"
    proof
      fix a assume a: "a \<in> ?r"
      then have "a = \<lparr>ga_topic = topic, ga_partition = of_nat (unat (ga_partition a))\<rparr>"
        by simp
      moreover have "unat (ga_partition a) \<in> {0..<?n}" using a by (simp add: word_less_nat_alt)
      ultimately show "a \<in> ?l" unfolding eq by (rule image_eqI)
    qed
  qed
qed

lemma distinct_topic_partitions: "distinct (topic_partitions partitions topic)"
proof -
  let ?n = "unat (partition_count_of partitions topic)"
  have "inj_on (\<lambda>p. \<lparr>ga_topic = topic, ga_partition = of_nat p :: u32\<rparr>) {0..<?n}"
  proof (rule inj_onI)
    fix p q
    assume p: "p \<in> {0..<?n}" and q: "q \<in> {0..<?n}"
      and eq: "\<lparr>ga_topic = topic, ga_partition = of_nat p :: u32\<rparr> = \<lparr>ga_topic = topic, ga_partition = of_nat q\<rparr>"
    have "unat (of_nat p :: u32) = p" "unat (of_nat q :: u32) = q"
      using p q unat_bound [of "partition_count_of partitions topic"] by (auto intro: unat_of_nat_fits)
    with eq show "p = q" by (metis GroupAssignment.ext_inject)
  qed
  then show ?thesis by (simp add: topic_partitions_def partition_count_of_def distinct_map)
qed

lemma distinct_concat_topics:
  "distinct topics \<Longrightarrow> distinct (concat (map (topic_partitions partitions) topics))"
  by (induction topics) (auto simp: distinct_topic_partitions set_topic_partitions)

lemma set_all_partitions:
  "set (all_partitions partitions members) =
     {a. ga_topic a \<in> topics_of_group members \<and> ga_partition a < partition_count_of partitions (ga_topic a)}"
  by (auto simp: all_partitions_def set_subscribed_topics set_topic_partitions)

lemma distinct_all_partitions: "distinct (all_partitions partitions members)"
  by (simp add: all_partitions_def distinct_concat_topics subscribed_topics_def)

section \<open>The invariant\<close>

text \<open>The cached assignment of every group is the one its members and the partition counts determine.\<close>

definition groups_ok :: "group_state \<Rightarrow> bool" where
  "groups_ok s \<longleftrightarrow> umap_ok (gs_members s) \<and>
     (\<forall>grp ms. map_of (gs_members s) grp = Some ms \<longrightarrow> umap_ok ms \<and>
        map_of (gs_assignments s) grp = Some (if ms = [] then [] else all_partitions (gs_partitions s) ms))"

lemma groups_ok_rebalance:
  "groups_ok s \<Longrightarrow> umap_ok ms \<Longrightarrow>
     groups_ok (RebalanceLocked (s\<lparr>gs_members := AList.update grp ms (gs_members s)\<rparr>) grp)"
  by (auto simp: groups_ok_def RebalanceLocked_def)

lemma groups_ok_members: "groups_ok s \<Longrightarrow> map_of (gs_members s) grp = Some ms \<Longrightarrow> umap_ok ms"
  by (simp add: groups_ok_def)

lemma Join_ok: "groups_ok s \<Longrightarrow> groups_ok (fst (Join s grp member_id topics now))"
  by (auto simp: Join_def Let_def intro!: groups_ok_rebalance dest: groups_ok_members split: option.splits)

lemma Leave_ok: "groups_ok s \<Longrightarrow> groups_ok (fst (Leave s grp member_id))"
  by (auto simp: Leave_def intro!: groups_ok_rebalance dest: groups_ok_members split: option.splits)

lemma SetSubscriptions_ok: "groups_ok s \<Longrightarrow> groups_ok (fst (SetSubscriptions s grp member_id topics))"
  by (auto simp: SetSubscriptions_def intro!: groups_ok_rebalance dest: groups_ok_members split: option.splits)

lemma subscriptions_update_same:
  "map_of ms member_id = Some m \<Longrightarrow> mem_topics m' = mem_topics m \<Longrightarrow>
     map (\<lambda>(_, m). mem_topics m) (AList.update member_id m' ms) = map (\<lambda>(_, m). mem_topics m) ms"
  by (induction ms) (auto split: if_splits)

lemma Heartbeat_ok: "groups_ok s \<Longrightarrow> groups_ok (fst (Heartbeat s grp member_id now))"
proof (cases "map_of (gs_members s) grp")
  case None
  then show "groups_ok s \<Longrightarrow> ?thesis" by (simp add: Heartbeat_def)
next
  case (Some ms)
  assume ok: "groups_ok s"
  show ?thesis
  proof (cases "map_of ms member_id")
    case None
    with Some ok show ?thesis by (simp add: Heartbeat_def)
  next
    case found: (Some m)
    let ?ms = "AList.update member_id (m\<lparr>mem_last_heartbeat := now\<rparr>) ms"
    have "subscribed_topics ?ms = subscribed_topics ms"
      unfolding subscribed_topics_def by (subst subscriptions_update_same [OF found]) simp_all
    then have "all_partitions (gs_partitions s) ?ms = all_partitions (gs_partitions s) ms"
      by (simp add: all_partitions_def)
    moreover have "?ms \<noteq> []" by (cases ms) auto
    moreover have "ms \<noteq> []" using found by auto
    ultimately show ?thesis using ok Some found by (auto simp: Heartbeat_def groups_ok_def)
  qed
qed

lemma expire_group_ok: "groups_ok (fst acc) \<Longrightarrow> groups_ok (fst (expire_group now acc grp))"
  by (auto simp: expire_group_def Let_def umap_ok_filter intro!: groups_ok_rebalance
      dest: groups_ok_members split: option.splits prod.splits)

lemma Expire_ok: "groups_ok s \<Longrightarrow> groups_ok (fst (Expire s now))"
proof -
  have "groups_ok (fst (foldl (expire_group now) acc grps))" if "groups_ok (fst acc)" for acc grps
    using that by (induction grps arbitrary: acc) (auto simp: expire_group_ok)
  then show "groups_ok s \<Longrightarrow> ?thesis" by (simp add: Expire_def)
qed

text \<open>Rebalancing a list of groups refreshes exactly these.\<close>

lemma foldl_RebalanceLocked:
  defines "run grps s \<equiv> foldl RebalanceLocked s grps"
  shows "gs_members (run grps s) = gs_members s \<and> gs_partitions (run grps s) = gs_partitions s \<and>
     map_of (gs_assignments (run grps s)) grp =
       (case map_of (gs_members s) grp of
          Some ms \<Rightarrow> if grp \<in> set grps then Some (if ms = [] then [] else all_partitions (gs_partitions s) ms)
                    else map_of (gs_assignments s) grp
        | None \<Rightarrow> map_of (gs_assignments s) grp)"
  unfolding run_def
proof (induction grps arbitrary: s)
  case Nil
  then show ?case by (simp split: option.split)
next
  case (Cons g grps)
  show ?case using Cons [of "RebalanceLocked s g"] by (auto simp: RebalanceLocked_def split: option.splits)
qed

lemma SetPartitions_ok: "groups_ok s \<Longrightarrow> groups_ok (SetPartitions s topic n)"
  by (auto simp: groups_ok_def SetPartitions_def Let_def foldl_RebalanceLocked map_of_eq_Some_iff umap_ok_def
      image_iff intro: rev_bexI split: option.splits dest: map_of_SomeD)

lemma group_step_ok: "group_step s s' \<Longrightarrow> groups_ok s \<Longrightarrow> groups_ok s'"
  by (auto elim!: group_stepE simp: Join_ok Heartbeat_ok Leave_ok Expire_ok SetPartitions_ok SetSubscriptions_ok)

lemma groups_reachable_ok: "groups_reachable s \<Longrightarrow> groups_ok s"
proof (induction rule: groups_reachable.induct)
  case (start member_timeout)
  show ?case by (simp add: init_groups_def groups_ok_def)
next
  case (step s s')
  then show ?case by (blast intro: group_step_ok)
qed

section \<open>Shares\<close>

lemma sorted_ids_facts:
  assumes "umap_ok ms"
  shows "distinct (sorted_ids ms)" and "set (sorted_ids ms) = dom (map_of ms)"
    and "length (sorted_ids ms) = length ms"
  using assms by (auto simp: sorted_ids_def umap_ok_def dom_map_of_conv_image_fst)

lemma member_index_less: "member_id \<in> set ids \<Longrightarrow> member_index ids member_id < length ids"
  unfolding member_index_def by (induction ids) auto

lemma nth_member_index: "member_id \<in> set ids \<Longrightarrow> ids ! member_index ids member_id = member_id"
  using nth_length_takeWhile [of "\<lambda>x. x \<noteq> member_id" ids] member_index_less [of member_id ids]
  by (simp add: member_index_def)

lemma member_index_bij: "distinct ids \<Longrightarrow> bij_betw (member_index ids) (set ids) {..<length ids}"
proof -
  assume d: "distinct ids"
  have "member_index ids (ids ! i) = i" if "i < length ids" for i
    using d that member_index_less [of "ids ! i" ids] nth_member_index [of "ids ! i" ids]
    by (simp add: nth_eq_iff_index_eq)
  then show ?thesis
    by (intro bij_betw_byWitness [where f' = "\<lambda>i. ids ! i"])
      (auto simp: nth_member_index member_index_less)
qed

text \<open>In a good state the share of a member is its stride through the group's partition list.\<close>

lemma Sync_share:
  assumes ok: "groups_ok s" and ms: "map_of (gs_members s) grp = Some ms" and m: "map_of ms member_id = Some m"
  shows "Sync s grp member_id = Some (every (member_index (sorted_ids ms) member_id) (length ms)
           (all_partitions (gs_partitions s) ms))"
    and "Assignment s grp member_id = every (member_index (sorted_ids ms) member_id) (length ms)
           (all_partitions (gs_partitions s) ms)"
proof -
  have u: "umap_ok ms" and ne: "ms \<noteq> []" using groups_ok_members [OF ok ms] m by auto
  have a: "map_of (gs_assignments s) grp = Some (all_partitions (gs_partitions s) ms)"
    using ok ms ne by (simp add: groups_ok_def)
  have "member_id \<in> set (sorted_ids ms)" using m sorted_ids_facts(2) [OF u] by auto
  then have less: "member_index (sorted_ids ms) member_id < length ms"
    using member_index_less sorted_ids_facts(3) [OF u] by metis
  then show "Sync s grp member_id = Some (every (member_index (sorted_ids ms) member_id) (length ms)
      (all_partitions (gs_partitions s) ms))"
    using ms m a sorted_ids_facts(3) [OF u] by (simp add: Sync_def Let_def)
  show "Assignment s grp member_id = every (member_index (sorted_ids ms) member_id) (length ms)
      (all_partitions (gs_partitions s) ms)"
    using less ms m a sorted_ids_facts(3) [OF u] by (simp add: Assignment_def Let_def)
qed

section \<open>Properties\<close>

text \<open>C7: partition assignment of a consumer group. In every reachable state of the coordinator, the
  shares that \<^verbatim>\<open>Sync\<close> gives the members of a group (the same lists as \<^verbatim>\<open>Assignment\<close>) are pairwise
  disjoint and duplicate free, together they cover exactly the partitions of the topics some member
  subscribes to, and the sizes of any two shares differ by at most one.\<close>

theorem group_shares_partition:
  assumes reach: "groups_reachable s" and ms: "map_of (gs_members s) grp = Some ms" and ne: "ms \<noteq> []"
  shows "(\<forall>m \<in> dom (map_of ms). Sync s grp m = Some (Assignment s grp m) \<and> distinct (Assignment s grp m)) \<and>
    (\<Union>m \<in> dom (map_of ms). set (Assignment s grp m)) =
      {a. ga_topic a \<in> topics_of_group ms \<and> ga_partition a < partition_count_of (gs_partitions s) (ga_topic a)} \<and>
    (\<forall>m \<in> dom (map_of ms). \<forall>m' \<in> dom (map_of ms). m \<noteq> m' \<longrightarrow>
       set (Assignment s grp m) \<inter> set (Assignment s grp m') = {} \<and>
       length (Assignment s grp m) \<le> Suc (length (Assignment s grp m')))"
proof -
  have ok: "groups_ok s" using reach by (rule groups_reachable_ok)
  have u: "umap_ok ms" using groups_ok_members [OF ok ms] .
  let ?ids = "sorted_ids ms" and ?n = "length ms" and ?xs = "all_partitions (gs_partitions s) ms"
  note ids = sorted_ids_facts [OF u]
  have bij: "bij_betw (member_index ?ids) (dom (map_of ms)) {..<?n}"
    using member_index_bij [OF ids(1)] ids by simp
  have share: "Assignment s grp m = every (member_index ?ids m) ?n ?xs" "Sync s grp m = Some (Assignment s grp m)"
    if "m \<in> dom (map_of ms)" for m using that Sync_share [OF ok ms] by auto
  have index: "member_index ?ids m < ?n" if "m \<in> dom (map_of ms)" for m
    using bij that by (auto simp: bij_betw_def)
  have inj: "member_index ?ids m \<noteq> member_index ?ids m'"
    if "m \<in> dom (map_of ms)" "m' \<in> dom (map_of ms)" "m \<noteq> m'" for m m'
    using bij that unfolding bij_betw_def inj_on_def by blast
  have "(\<Union>m \<in> dom (map_of ms). set (Assignment s grp m)) = (\<Union>i \<in> member_index ?ids ` dom (map_of ms). set (every i ?n ?xs))"
    by (simp add: share)
  also have "\<dots> = set ?xs"
    using bij ne every_rr.pick_cover [of ?n ?xs] by (simp add: bij_betw_def)
  finally have cover: "(\<Union>m \<in> dom (map_of ms). set (Assignment s grp m)) = set ?xs" .
  have balanced: "length (Assignment s grp m) \<le> Suc (length (Assignment s grp m'))"
    if "m \<in> dom (map_of ms)" "m' \<in> dom (map_of ms)" for m m'
    using share that every_rr.pick_balanced [OF index index] by simp
  show ?thesis
    using cover share index inj balanced every_rr.pick_disjoint [OF distinct_all_partitions]
      every_rr.pick_distinct [OF distinct_all_partitions]
    by (simp add: set_all_partitions)
qed

text \<open>The state of the witnesses: topic \<open>t\<close> with two partitions and topic \<open>u\<close> with one; member \<open>a\<close> of
  group \<open>g\<close> subscribes to \<open>t\<close> only, member \<open>b\<close> to \<open>u\<close> only.\<close>

definition sample_groups :: group_state where
  "sample_groups =
    (let s0 = init_groups 30; s1 = SetPartitions s0 (str ''t'') 2; s2 = SetPartitions s1 (str ''u'') 1;
         s3 = fst (Join s2 (str ''g'') (str ''a'') [str ''t''] 0)
     in fst (Join s3 (str ''g'') (str ''b'') [str ''u''] 10))"

lemma sample_groups_reachable: "groups_reachable sample_groups"
  unfolding sample_groups_def Let_def
  by (intro groups_reachable.step [OF _ group_step.join] groups_reachable.step [OF _ group_step.set_partitions]
      groups_reachable.start)

lemma sample_groups_members:
  "map_of (gs_members sample_groups) (str ''g'') =
     Some [(str ''a'', \<lparr>mem_last_heartbeat = 0, mem_topics = [str ''t'']\<rparr>),
           (str ''b'', \<lparr>mem_last_heartbeat = 10, mem_topics = [str ''u'']\<rparr>)]"
  by code_simp

theorem group_shares_partition_witness:
  "set (Assignment sample_groups (str ''g'') (str ''a'')) \<inter> set (Assignment sample_groups (str ''g'') (str ''b'')) = {}"
proof -
  have "str ''a'' \<noteq> str ''b''" by (simp add: str_def of_char_def)
  with group_shares_partition [OF sample_groups_reachable sample_groups_members] show ?thesis by force
qed

text \<open>shares ignore what a member subscribed to. The round robin runs over the union of the
  subscriptions of the group, so a member can be assigned a partition of a topic it never subscribed
  to, while the only subscriber of that topic does not get it.\<close>

theorem share_outside_subscription:
  "\<exists>s grp ms m member a. groups_reachable s \<and> map_of (gs_members s) grp = Some ms \<and> map_of ms m = Some member \<and>
     a \<in> set (Assignment s grp m) \<and> ga_topic a \<notin> set (mem_topics member)"
proof (intro exI conjI)
  show "groups_reachable sample_groups" by (rule sample_groups_reachable)
  show "map_of (gs_members sample_groups) (str ''g'') =
     Some [(str ''a'', \<lparr>mem_last_heartbeat = 0, mem_topics = [str ''t'']\<rparr>),
           (str ''b'', \<lparr>mem_last_heartbeat = 10, mem_topics = [str ''u'']\<rparr>)]"
    by (rule sample_groups_members)
  show "map_of [(str ''a'', \<lparr>mem_last_heartbeat = 0, mem_topics = [str ''t'']\<rparr>),
           (str ''b'', \<lparr>mem_last_heartbeat = 10, mem_topics = [str ''u'']\<rparr>)] (str ''a'') =
     Some \<lparr>mem_last_heartbeat = 0, mem_topics = [str ''t'']\<rparr>" by simp
  show "\<lparr>ga_topic = str ''u'', ga_partition = 0\<rparr> \<in> set (Assignment sample_groups (str ''g'') (str ''a''))"
    by code_simp
  show "ga_topic \<lparr>ga_topic = str ''u'', ga_partition = 0\<rparr> \<notin>
      set (mem_topics \<lparr>mem_last_heartbeat = 0, mem_topics = [str ''t'']\<rparr>)"
    by (simp add: str_def of_char_def)
qed

section \<open>Expiry\<close>

definition members_of :: "group_state \<Rightarrow> bytes \<Rightarrow> member_table" where
  "members_of s grp = (case map_of (gs_members s) grp of None \<Rightarrow> [] | Some ms \<Rightarrow> ms)"

definition late :: "group_state \<Rightarrow> int \<Rightarrow> Member \<Rightarrow> bool" where
  "late s now m \<longleftrightarrow> now - mem_last_heartbeat m > gs_member_timeout s"

lemma RebalanceLocked_frame [simp]:
  "gs_members (RebalanceLocked s grp) = gs_members s" "gs_member_timeout (RebalanceLocked s grp) = gs_member_timeout s"
  by (auto simp: RebalanceLocked_def split: option.split)

lemma members_of_expire_group:
  "members_of (fst (expire_group now acc g)) grp =
     (if grp = g then filter (\<lambda>(_, m). \<not> late (fst acc) now m) (members_of (fst acc) g)
      else members_of (fst acc) grp)"
  "gs_member_timeout (fst (expire_group now acc g)) = gs_member_timeout (fst acc)"
  "snd (expire_group now acc g) = snd acc @ map (\<lambda>(member_id, _). g @ [0x1F] @ member_id)
     (filter (\<lambda>(_, m). late (fst acc) now m) (members_of (fst acc) g))"
  by (auto simp: expire_group_def members_of_def late_def Let_def split: prod.splits)

lemma foldl_expire_group:
  "distinct grps \<Longrightarrow>
     members_of (fst (foldl (expire_group now) acc grps)) grp =
       (if grp \<in> set grps then filter (\<lambda>(_, m). \<not> late (fst acc) now m) (members_of (fst acc) grp)
        else members_of (fst acc) grp) \<and>
     set (snd (foldl (expire_group now) acc grps)) = set (snd acc) \<union>
       (\<Union>g \<in> set grps. {g @ [0x1F] @ member_id | member_id m.
          (member_id, m) \<in> set (members_of (fst acc) g) \<and> late (fst acc) now m})"
proof (induction grps arbitrary: acc)
  case Nil
  then show ?case by simp
next
  case (Cons g grps)
  let ?acc = "expire_group now acc g"
  have late: "late (fst ?acc) now m = late (fst acc) now m" for m
    by (simp add: late_def members_of_expire_group)
  have other: "members_of (fst ?acc) g' = members_of (fst acc) g'" if "g' \<in> set grps" for g'
    using that Cons.prems by (auto simp: members_of_expire_group)
  have "set (snd ?acc) = set (snd acc) \<union> {g @ [0x1F] @ member_id | member_id m.
      (member_id, m) \<in> set (members_of (fst acc) g) \<and> late (fst acc) now m}"
    by (auto simp: members_of_expire_group)
  with Cons other show ?case
    by (auto simp: late members_of_expire_group simp del: append.simps)
qed

text \<open>expiry is exact. After \<^verbatim>\<open>Expire(now)\<close> on a reachable state, every group keeps exactly the
  members whose last heartbeat is at most the timeout ago, with their data unchanged, and the
  returned list names exactly the removed members, as group, separator, member.\<close>

theorem Expire_exact:
  assumes "groups_reachable s"
  shows "map_of (members_of (fst (Expire s now)) grp) member_id =
      (case map_of (members_of s grp) member_id of
         None \<Rightarrow> None | Some m \<Rightarrow> if late s now m then None else Some m) \<and>
    set (snd (Expire s now)) = {g @ [0x1F] @ member_id | g member_id m.
      map_of (members_of s g) member_id = Some m \<and> late s now m}"
proof -
  have ok: "groups_ok s" using assms by (rule groups_reachable_ok)
  have u: "umap_ok (members_of s g)" for g
    using groups_ok_members [OF ok] by (auto simp: members_of_def split: option.split)
  have groups: "distinct (map fst (gs_members s))" using ok by (simp add: groups_ok_def umap_ok_def)
  have none: "members_of s g = []" if "g \<notin> fst ` set (gs_members s)" for g
    using that by (simp add: members_of_def map_of_eq_None_iff split: option.split) (metis map_of_SomeD fst_conv image_eqI)
  have mem: "members_of (fst (Expire s now)) grp = filter (\<lambda>(_, m). \<not> late s now m) (members_of s grp)"
    using foldl_expire_group [OF groups, of now "(s, [])" grp] none [of grp] by (auto simp: Expire_def)
  have filt: "map_of (filter (\<lambda>(_, m). \<not> P m) ms) x =
      (case map_of ms x of None \<Rightarrow> None | Some m \<Rightarrow> if P m then None else Some m)"
    if "umap_ok ms" for ms :: member_table and P x
    using that by (induction ms) (auto simp: umap_ok_def map_of_eq_None_iff split: option.split dest: map_of_SomeD)
  have "set (snd (Expire s now)) = (\<Union>g \<in> fst ` set (gs_members s). {g @ [0x1F] @ member_id | member_id m.
          (member_id, m) \<in> set (members_of s g) \<and> late s now m})"
    using foldl_expire_group [OF groups, of now "(s, [])" grp] by (simp add: Expire_def)
  also have "\<dots> = {g @ [0x1F] @ member_id | g member_id m.
      map_of (members_of s g) member_id = Some m \<and> late s now m}"
    unfolding map_of_in_set [OF u] using none by fastforce
  finally show ?thesis using mem filt [OF u] by simp
qed

theorem Expire_exact_witness:
  "map_of (members_of (fst (Expire sample_groups 35)) (str ''g'')) (str ''a'') = None"
proof -
  have "map_of (members_of sample_groups (str ''g'')) (str ''a'') = Some \<lparr>mem_last_heartbeat = 0, mem_topics = [str ''t'']\<rparr>"
    using sample_groups_members by (simp add: members_of_def)
  moreover have "late sample_groups 35 \<lparr>mem_last_heartbeat = 0, mem_topics = [str ''t'']\<rparr>" by code_simp
  ultimately show ?thesis using Expire_exact [OF sample_groups_reachable, of 35 "str ''g''" "str ''a''"] by simp
qed

end
