(* ===== verification/Wal.thy ===== *)
theory Wal
  imports Prelude
begin

text \<open>
  The write-ahead log of \<^verbatim>\<open>src/core/storage/storage_engine.cc\<close>: the checksum, the record format and
  the recovery scan of one segment file. \<open>recover_turn\<close> is one turn of the \<^verbatim>\<open>while (input)\<close> loop of
  \<^verbatim>\<open>Recover\<close> on the bytes not read yet, \<open>recover_scan\<close> the loop.

  The lemmas show that a record round trips, that the scan never reads out of range, that it returns
  exactly the complete records of a log whose tail is torn, and that the checksum detects every
  corruption confined to four neighbouring bytes of a record body.
\<close>

section \<open>Checksum\<close>

definition crc_bit :: "u32 \<Rightarrow> u32" where
  "crc_bit crc = drop_bit 1 crc XOR (0xEDB88320 AND (- (crc AND 1)))"

definition crc_byte :: "u32 \<Rightarrow> byte \<Rightarrow> u32" where
  "crc_byte crc b = (crc_bit ^^ 8) (crc XOR ucast b)"

definition Crc32 :: "bytes \<Rightarrow> u32" where
  "Crc32 data = NOT (foldl crc_byte 0xFFFFFFFF data)"

section \<open>Records\<close>

definition kRecordHeaderSize :: nat where "kRecordHeaderSize = 8"
definition kBodyFixedSize :: nat where "kBodyFixedSize = 22"
definition kMaxMessageBytes :: nat where "kMaxMessageBytes = 1024 * 1024"

text \<open>\<^verbatim>\<open>timestamp_ms\<close> is a signed 64-bit integer; it is kept as the word the code casts it to.\<close>

record Message =
  msg_offset :: u64
  msg_timestamp_ms :: u64
  msg_key :: bytes
  msg_value :: bytes

definition record_body :: "Message \<Rightarrow> bytes" where
  "record_body m =
     Put64 (msg_offset m) @ Put64 (msg_timestamp_ms m) @ Put16 (of_nat (length (msg_key m))) @ msg_key m @
     Put32 (of_nat (length (msg_value m))) @ msg_value m"

definition wal_record :: "Message \<Rightarrow> bytes" where
  "wal_record m =
     Put32 (Crc32 (record_body m)) @ Put32 (of_nat (length (record_body m))) @ record_body m"

text \<open>What \<^verbatim>\<open>Append\<close> and \<^verbatim>\<open>AppendReplica\<close> let into the log.\<close>

definition message_fits :: "bytes \<Rightarrow> bytes \<Rightarrow> bool" where
  "message_fits key val \<longleftrightarrow> length key \<le> 65535 \<and> val \<noteq> [] \<and> length val \<le> kMaxMessageBytes"

section \<open>The recovery scan\<close>

datatype recover_step = Stop | Found Message nat

definition recover_turn :: "u64 \<Rightarrow> bytes \<Rightarrow> recover_step option" where
  "recover_turn next_offset input =
    (if length input < kRecordHeaderSize then Some Stop
     else do {
       let h = take kRecordHeaderSize input;
       crc \<leftarrow> Get32 h 0;
       len \<leftarrow> Get32 h 4;
       if unat len < kBodyFixedSize \<or> unat len > kBodyFixedSize + 65535 + kMaxMessageBytes then Some Stop
       else
         let body = take (unat len) (drop kRecordHeaderSize input) in
         if length body \<noteq> unat len \<or> Crc32 body \<noteq> crc then Some Stop
         else do {
           key_len \<leftarrow> Get16 body 16;
           if 18 + unat key_len + 4 > unat len then Some Stop
           else do {
             value_len \<leftarrow> Get32 body (18 + unat key_len);
             if 22 + unat key_len + unat value_len \<noteq> unat len then Some Stop
             else do {
               offset \<leftarrow> Get64 body 0;
               timestamp_ms \<leftarrow> Get64 body 8;
               key \<leftarrow> substr body 18 (unat key_len);
               val \<leftarrow> substr body (22 + unat key_len) (unat value_len);
               Some (if offset \<noteq> next_offset then Stop
                     else Found \<lparr>msg_offset = offset, msg_timestamp_ms = timestamp_ms, msg_key = key, msg_value = val\<rparr>
                            (kRecordHeaderSize + unat len))
             }
           }
         }
     })"

text \<open>
  What the loop of one segment leaves behind: the messages, the bytes of the rebuilt index file, the
  next offset, the length of the valid part and the last timestamp.
\<close>

record scan =
  sc_messages :: "Message list"
  sc_index :: bytes
  sc_next_offset :: u64
  sc_valid_bytes :: nat
  sc_last_timestamp_ms :: u64

lemma recover_turn_size:
  "recover_turn next_offset input = Some (Found m n) \<Longrightarrow> 30 \<le> n \<and> n \<le> length input"
  by (auto simp: recover_turn_def Let_def bind_eq_Some_conv kRecordHeaderSize_def kBodyFixedSize_def
      split: if_splits)

definition index_entry :: "u32 \<Rightarrow> u64 \<Rightarrow> nat \<Rightarrow> bytes" where
  "index_entry index_interval offset position =
    (if offset mod ucast index_interval = 0 then Put64 offset @ Put64 (of_nat position) else [])"

text \<open>What one record adds: the message, an index entry every \<^verbatim>\<open>index_interval\<close> offsets, the counters.\<close>

definition scan_add :: "u32 \<Rightarrow> scan \<Rightarrow> Message \<Rightarrow> nat \<Rightarrow> scan" where
  "scan_add index_interval sc m n =
     \<lparr>sc_messages = sc_messages sc @ [m],
      sc_index = sc_index sc @ index_entry index_interval (msg_offset m) (sc_valid_bytes sc),
      sc_next_offset = sc_next_offset sc + 1,
      sc_valid_bytes = sc_valid_bytes sc + n,
      sc_last_timestamp_ms = msg_timestamp_ms m\<rparr>"

function recover_scan :: "u32 \<Rightarrow> bytes \<Rightarrow> scan \<Rightarrow> scan option" where
  "recover_scan index_interval input sc =
    (case recover_turn (sc_next_offset sc) input of
       None \<Rightarrow> None
     | Some Stop \<Rightarrow> Some sc
     | Some (Found m n) \<Rightarrow>
         recover_scan index_interval (drop n input) (scan_add index_interval sc m n))"
  by pat_completeness auto
termination
  by (relation "measure (\<lambda>(_, input, _). length input)") (auto dest: recover_turn_size)

declare recover_scan.simps [simp del]

section \<open>The checksum detects short bursts\<close>

lemma crc_bit_xor: "crc_bit (x XOR y) = crc_bit x XOR crc_bit y"
proof -
  have neg: "- (z AND 1) = (if bit z 0 then - 1 else 0)" for z :: u32
    by (simp add: and_one_eq mod2_eq_if bit_0)
  show ?thesis
    by (rule bit_word_eqI) (auto simp: crc_bit_def neg bit_simps)
qed

lemma crc_bit_zero [simp]: "crc_bit 0 = 0"
  by (simp add: crc_bit_def)

lemma crc_bit_eq_zero: "crc_bit x = 0 \<Longrightarrow> x = 0"
proof -
  assume z: "crc_bit x = 0"
  have neg: "- (x AND 1) = (if bit x 0 then - 1 else 0)"
    by (simp add: and_one_eq mod2_eq_if bit_0)
  have "bit (crc_bit x) 31 = bit x 0"
    using bit_imp_le_length [of x 32] by (auto simp: crc_bit_def neg bit_simps)
  with z have even: "\<not> bit x 0" by simp
  then have shift: "drop_bit 1 x = 0" using z by (simp add: crc_bit_def neg)
  show "x = 0"
  proof (rule bit_word_eqI)
    fix n
    show "bit x n = bit 0 n"
    proof (cases n)
      case 0
      then show ?thesis using even by simp
    next
      case (Suc k)
      have "bit (drop_bit 1 x) k = bit x n" by (simp add: Suc bit_simps)
      then show ?thesis using shift by simp
    qed
  qed
qed

lemma crc_bits_xor: "(crc_bit ^^ n) (x XOR y) = (crc_bit ^^ n) x XOR (crc_bit ^^ n) y"
  by (induction n) (simp_all add: crc_bit_xor)

lemma crc_bits_eq_zero: "(crc_bit ^^ n) x = 0 \<Longrightarrow> x = 0"
  by (induction n) (auto dest: crc_bit_eq_zero)

lemma xor_cancel: "x XOR z = y XOR z \<longleftrightarrow> x = y" "z XOR x = z XOR y \<longleftrightarrow> x = y" for x y z :: "'a::len word"
proof -
  show right: "x XOR z = y XOR z \<longleftrightarrow> x = y" for x y z :: "'a word"
  proof
    assume "x XOR z = y XOR z"
    then have "(x XOR z) XOR z = (y XOR z) XOR z" by simp
    then show "x = y" by (simp only: xor.assoc xor_self_eq xor.right_neutral)
  qed simp
  show "z XOR x = z XOR y \<longleftrightarrow> x = y" using right by (simp only: xor.commute [of z])
qed

lemma xor_eq_zero: "x XOR y = 0 \<longleftrightarrow> x = y" for x y :: "'a::len word"
  using xor_cancel(1) [of x y y] by simp

lemma crc_bits_inject: "(crc_bit ^^ n) x = (crc_bit ^^ n) y \<longleftrightarrow> x = y"
proof
  assume "(crc_bit ^^ n) x = (crc_bit ^^ n) y"
  then have "(crc_bit ^^ n) (x XOR y) = 0" by (simp add: crc_bits_xor)
  then show "x = y" using crc_bits_eq_zero xor_eq_zero by blast
qed simp

lemma foldl_crc_byte_inject: "foldl crc_byte x data = foldl crc_byte y data \<longleftrightarrow> x = y"
proof (induction data arbitrary: x y)
  case (Cons b data)
  then show ?case by (simp add: crc_byte_def crc_bits_inject xor_cancel)
qed simp

text \<open>Up to four bytes, read as a little-endian number: the form in which they enter the register.\<close>

fun le_bytes :: "bytes \<Rightarrow> u32" where
  "le_bytes [] = 0"
| "le_bytes (b # bs) = ucast b XOR push_bit 8 (le_bytes bs)"

lemma bit_le_bytes: "bit (le_bytes bs) n \<Longrightarrow> n < 8 * length bs"
proof (induction bs arbitrary: n)
  case (Cons b bs)
  show ?case
  proof (cases "n < 8")
    case False
    with Cons.prems have "bit (le_bytes bs) (n - 8)"
      by (auto simp: bit_simps dest: bit_imp_le_length)
    with Cons.IH [of "n - 8"] False show ?thesis by simp
  qed simp
qed simp

lemma crc_bits_shift: "(\<And>n. bit v n \<Longrightarrow> n + k < 32) \<Longrightarrow> (crc_bit ^^ k) (push_bit k v) = v"
proof (induction k)
  case (Suc k)
  have low: "push_bit (Suc k) v AND 1 = 0"
    by (rule bit_word_eqI) (auto simp: bit_simps simp del: push_bit_Suc)
  have "drop_bit 1 (push_bit (Suc k) v) = push_bit k v"
  proof (rule bit_word_eqI)
    fix n
    assume n: "n < LENGTH(32)"
    show "bit (drop_bit 1 (push_bit (Suc k) v)) n = bit (push_bit k v) n"
    proof (cases "n < k")
      case False
      with Suc.prems [of "n - k"] n show ?thesis by (auto simp: bit_simps Suc_diff_le simp del: push_bit_Suc)
    qed (simp add: bit_simps del: push_bit_Suc)
  qed
  then have "crc_bit (push_bit (Suc k) v) = push_bit k v" unfolding crc_bit_def low by simp
  moreover have "\<And>n. bit v n \<Longrightarrow> n + k < 32" using Suc.prems by fastforce
  ultimately show ?case by (simp only: funpow_Suc_right comp_apply Suc.IH)
qed simp

lemma foldl_crc_byte_short:
  "length bs \<le> 4 \<Longrightarrow> foldl crc_byte c bs = (crc_bit ^^ (8 * length bs)) (c XOR le_bytes bs)"
proof (induction bs arbitrary: c)
  case (Cons b bs)
  have "n + 8 < 32" if "bit (le_bytes bs) n" for n
    using bit_le_bytes [OF that] Cons.prems by simp
  then have shift: "(crc_bit ^^ 8) (push_bit 8 (le_bytes bs)) = le_bytes bs" by (rule crc_bits_shift)
  have "foldl crc_byte c (b # bs) = (crc_bit ^^ (8 * length bs)) (crc_byte c b XOR le_bytes bs)"
    using Cons by simp
  also have "crc_byte c b XOR le_bytes bs = (crc_bit ^^ 8) (c XOR ucast b XOR push_bit 8 (le_bytes bs))"
    unfolding crc_byte_def crc_bits_xor shift by (simp only: xor.assoc)
  also have "(crc_bit ^^ (8 * length bs)) ((crc_bit ^^ 8) x) = (crc_bit ^^ (8 * length (b # bs))) x" for x
    by (metis funpow_add comp_apply length_Cons mult_Suc_right add.commute)
  finally show ?case by (simp add: xor.assoc)
qed simp

lemma le_bytes_inject:
  "length xs = length ys \<Longrightarrow> length ys \<le> 4 \<Longrightarrow> le_bytes xs = le_bytes ys \<Longrightarrow> xs = ys"
proof (induction xs ys rule: list_induct2)
  case (Cons x xs y ys)
  have first: "ucast (le_bytes (b # bs)) = b" for b bs
    by (rule bit_word_eqI) (auto simp: bit_simps)
  have rest: "drop_bit 8 (le_bytes (b # bs)) = le_bytes bs" if "length bs \<le> 3" for b bs
  proof (rule bit_word_eqI)
    fix n
    assume "n < LENGTH(32)"
    show "bit (drop_bit 8 (le_bytes (b # bs))) n = bit (le_bytes bs) n"
      using bit_le_bytes [of bs n] that by (auto simp: bit_simps dest: bit_imp_le_length)
  qed
  have "x = y" using Cons.prems(2) first by metis
  moreover have "le_bytes xs = le_bytes ys"
    using Cons rest [of xs x] rest [of ys y] by simp
  ultimately show ?case using Cons by simp
qed simp

lemma Crc32_burst:
  assumes "length xs = length ys" and "length ys \<le> 4"
  shows "Crc32 (pre @ xs @ post) = Crc32 (pre @ ys @ post) \<longleftrightarrow> xs = ys"
proof
  assume "Crc32 (pre @ xs @ post) = Crc32 (pre @ ys @ post)"
  then have "foldl crc_byte (foldl crc_byte 0xFFFFFFFF pre) xs = foldl crc_byte (foldl crc_byte 0xFFFFFFFF pre) ys"
    by (simp add: Crc32_def foldl_crc_byte_inject)
  with assms have "c XOR le_bytes xs = c XOR le_bytes ys" if "c = foldl crc_byte 0xFFFFFFFF pre" for c
    using that by (simp add: foldl_crc_byte_short crc_bits_inject)
  then have "le_bytes xs = le_bytes ys" by (simp add: xor_cancel)
  with assms show "xs = ys" by (intro le_bytes_inject) simp_all
qed simp

section \<open>The scan stays inside its input\<close>

lemma recover_turn_defined: "recover_turn next_offset input \<noteq> None"
  by (auto simp: recover_turn_def Let_def bind_eq_None_conv kRecordHeaderSize_def kBodyFixedSize_def
      Get16_def Get32_def Get64_def substr_def simp del: not_None_eq)

lemma recover_scan_defined: "recover_scan k input sc \<noteq> None"
proof (induction k input sc rule: recover_scan.induct)
  case (1 k input sc)
  obtain t where t: "recover_turn (sc_next_offset sc) input = Some t"
    using recover_turn_defined [of "sc_next_offset sc" input] by blast
  then show ?case
    using 1 [OF t] by (cases t) (simp_all add: recover_scan.simps [of k input] t)
qed

section \<open>Records and logs round trip\<close>

definition fits :: "Message \<Rightarrow> bool" where
  "fits m \<longleftrightarrow> message_fits (msg_key m) (msg_value m)"

lemma length_record_body: "length (record_body m) = 22 + length (msg_key m) + length (msg_value m)"
  by (simp add: record_body_def)

lemma length_wal_record: "length (wal_record m) = 30 + length (msg_key m) + length (msg_value m)"
  by (simp add: wal_record_def length_record_body)

lemma fits_lengths:
  assumes "fits m"
  shows "unat (of_nat (length (msg_key m)) :: u16) = length (msg_key m)"
    and "unat (of_nat (length (msg_value m)) :: u32) = length (msg_value m)"
    and "unat (of_nat (length (record_body m)) :: u32) = length (record_body m)"
  using assms
  by (auto simp: fits_def message_fits_def kMaxMessageBytes_def length_record_body simp del: of_nat_add intro!: unat_of_nat_fits)

lemma body_fields:
  "Get64 (record_body m) 0 = Some (msg_offset m)"
  "Get64 (record_body m) 8 = Some (msg_timestamp_ms m)"
  "Get16 (record_body m) 16 = Some (of_nat (length (msg_key m)))"
  "substr (record_body m) 18 (length (msg_key m)) = Some (msg_key m)"
  "Get32 (record_body m) (18 + length (msg_key m)) = Some (of_nat (length (msg_value m)))"
  "substr (record_body m) (22 + length (msg_key m)) (length (msg_value m)) = Some (msg_value m)"
  by (simp_all add: record_body_def Get16_def Get32_def Get64_def substr_def)

text \<open>The header of a record whose checksum is \<open>crc\<close> and whose body, possibly altered, is \<open>body\<close>.\<close>

lemma header_fields:
  "Get32 (take kRecordHeaderSize (Put32 crc @ Put32 len @ rest)) 0 = Some crc"
  "Get32 (take kRecordHeaderSize (Put32 crc @ Put32 len @ rest)) 4 = Some len"
  "drop kRecordHeaderSize (Put32 crc @ Put32 len @ rest) = rest"
  by (simp_all add: kRecordHeaderSize_def Get32_def)

lemma recover_turn_record:
  assumes "fits m"
  shows "recover_turn next_offset (wal_record m @ rest) =
    Some (if msg_offset m = next_offset then Found m (length (wal_record m)) else Stop)"
proof -
  note len = fits_lengths [OF assms]
  have bounds: "\<not> length (record_body m) < kBodyFixedSize"
    "\<not> kBodyFixedSize + 65535 + kMaxMessageBytes < length (record_body m)"
    using assms by (auto simp: fits_def message_fits_def kBodyFixedSize_def length_record_body)
  have long: "\<not> length (wal_record m @ rest) < kRecordHeaderSize" by (simp add: kRecordHeaderSize_def length_wal_record)
  have rec: "wal_record m @ rest = Put32 (Crc32 (record_body m)) @ Put32 (of_nat (length (record_body m))) @
      record_body m @ rest"
    by (simp add: wal_record_def)
  show ?thesis
    unfolding recover_turn_def Let_def if_not_P [OF long]
    unfolding rec header_fields bind.bind_lunit len(3) if_not_P [OF bounds(1)]
    using bounds by (simp add: body_fields len(1,2) kRecordHeaderSize_def length_record_body length_wal_record)
qed

text \<open>A header in front of a shorter body, or of a body with another checksum, ends the scan.\<close>

lemma recover_turn_bad_body:
  assumes "unat len \<noteq> length body \<and> length body < unat len \<or> Crc32 (take (unat len) (body @ rest)) \<noteq> crc"
    and "rest = [] \<or> unat len \<le> length body"
  shows "recover_turn next_offset (Put32 crc @ Put32 len @ body @ rest) = Some Stop"
proof -
  have long: "\<not> length (Put32 crc @ Put32 len @ body @ rest) < kRecordHeaderSize" by (simp add: kRecordHeaderSize_def)
  show ?thesis
    unfolding recover_turn_def Let_def if_not_P [OF long]
    unfolding header_fields bind.bind_lunit
    using assms by auto
qed

lemma recover_turn_torn:
  assumes "fits m" and "strict_prefix p (wal_record m)"
  shows "recover_turn next_offset p = Some Stop"
proof -
  let ?h = "Put32 (Crc32 (record_body m)) @ Put32 (of_nat (length (record_body m)))"
  have "strict_prefix p (?h @ record_body m)" using assms(2) by (simp add: wal_record_def)
  then show ?thesis
  proof (cases rule: strict_prefix_append_cases)
    case first
    then show ?thesis by (simp add: recover_turn_def kRecordHeaderSize_def)
  next
    case (second q)
    from second(2) have "length q < length (record_body m)" by (rule prefix_length_less)
    then show ?thesis
      using recover_turn_bad_body [of "of_nat (length (record_body m))" q "[]" "Crc32 (record_body m)" next_offset]
        fits_lengths(3) [OF assms(1)] second(1)
      by simp
  qed
qed

text \<open>A log is the concatenation of its records; \<open>contiguous\<close> is the offset discipline of a partition.\<close>

definition log_bytes :: "Message list \<Rightarrow> bytes" where
  "log_bytes ms = concat (map wal_record ms)"

fun contiguous :: "u64 \<Rightarrow> Message list \<Rightarrow> bool" where
  "contiguous n [] \<longleftrightarrow> True"
| "contiguous n (m # ms) \<longleftrightarrow> msg_offset m = n \<and> contiguous (n + 1) ms"

definition scan_all :: "u32 \<Rightarrow> scan \<Rightarrow> Message list \<Rightarrow> scan" where
  "scan_all k sc ms = foldl (\<lambda>sc m. scan_add k sc m (length (wal_record m))) sc ms"

lemma scan_all_simps [simp]:
  "scan_all k sc [] = sc" "scan_all k sc (m # ms) = scan_all k (scan_add k sc m (length (wal_record m))) ms"
  by (simp_all add: scan_all_def)

lemma log_bytes_simps [simp]:
  "log_bytes [] = []" "log_bytes (m # ms) = wal_record m @ log_bytes ms"
  "log_bytes (ms @ ms') = log_bytes ms @ log_bytes ms'"
  by (simp_all add: log_bytes_def)

lemma contiguous_append:
  "contiguous n (ms @ ms') \<longleftrightarrow> contiguous n ms \<and> contiguous (n + of_nat (length ms)) ms'"
  by (induction ms arbitrary: n) (auto simp: add.assoc)

lemma recover_scan_log:
  assumes "contiguous (sc_next_offset sc) ms" and "\<forall>m \<in> set ms. fits m"
    and "recover_turn (sc_next_offset sc + of_nat (length ms)) rest = Some Stop"
  shows "recover_scan k (log_bytes ms @ rest) sc = Some (scan_all k sc ms)"
  using assms
proof (induction ms arbitrary: sc)
  case Nil
  then show ?case by (simp add: recover_scan.simps [of k rest])
next
  case (Cons m ms)
  let ?sc = "scan_add k sc m (length (wal_record m))"
  have next_eq: "sc_next_offset ?sc = sc_next_offset sc + 1" by (simp add: scan_add_def)
  have turn: "recover_turn (sc_next_offset sc) (wal_record m @ log_bytes ms @ rest) =
      Some (Found m (length (wal_record m)))"
    using Cons.prems by (simp add: recover_turn_record)
  have "recover_scan k (log_bytes ms @ rest) ?sc = Some (scan_all k ?sc ms)"
    using Cons.prems by (intro Cons.IH) (simp_all add: next_eq add.assoc)
  then show ?case by (simp add: recover_scan.simps [of k "wal_record m @ log_bytes ms @ rest"] turn)
qed

lemma scan_all_fields:
  "sc_messages (scan_all k sc ms) = sc_messages sc @ ms"
  "sc_next_offset (scan_all k sc ms) = sc_next_offset sc + of_nat (length ms)"
  "sc_valid_bytes (scan_all k sc ms) = sc_valid_bytes sc + length (log_bytes ms)"
  "sc_last_timestamp_ms (scan_all k sc ms) = (if ms = [] then sc_last_timestamp_ms sc else msg_timestamp_ms (last ms))"
  by (induction ms arbitrary: sc) (simp_all add: scan_add_def)

section \<open>Properties\<close>

text \<open>The scan at the start of a partition.\<close>

definition scan_start :: "u64 \<Rightarrow> scan" where
  "scan_start next_offset =
     \<lparr>sc_messages = [], sc_index = [], sc_next_offset = next_offset, sc_valid_bytes = 0, sc_last_timestamp_ms = 0\<rparr>"

text \<open>C8: crash recovery of a segment is exact. When a segment holds complete records with consecutive
  offsets, followed by nothing or by any proper part of one more record (a write the crash
  interrupted), the scan of \<^verbatim>\<open>Recover\<close> returns exactly the complete messages, the offset after them,
  and the length of the complete records as the length to truncate the file to.\<close>

theorem recovery_of_torn_log:
  assumes "contiguous n ms" and "\<forall>m \<in> set ms. fits m" and "fits m'"
    and "strict_prefix tail (wal_record m')"
  shows "\<exists>sc. recover_scan k (log_bytes ms @ tail) (scan_start n) = Some sc \<and> sc_messages sc = ms \<and>
    sc_next_offset sc = n + of_nat (length ms) \<and> sc_valid_bytes sc = length (log_bytes ms)"
proof -
  have "recover_turn (n + of_nat (length ms)) tail = Some Stop" using assms(3,4) by (rule recover_turn_torn)
  then have "recover_scan k (log_bytes ms @ tail) (scan_start n) = Some (scan_all k (scan_start n) ms)"
    using assms by (intro recover_scan_log) (simp_all add: scan_start_def)
  then show ?thesis by (simp add: scan_all_fields scan_start_def)
qed

definition sample_message :: Message where
  "sample_message = \<lparr>msg_offset = 0, msg_timestamp_ms = 5, msg_key = [1], msg_value = [2, 3]\<rparr>"

lemma fits_sample: "fits sample_message"
  by (simp add: fits_def message_fits_def sample_message_def kMaxMessageBytes_def)

theorem recovery_of_torn_log_witness:
  "\<exists>sc. recover_scan 1000 (wal_record sample_message @ take 9 (wal_record sample_message)) (scan_start 0) = Some sc \<and>
     sc_messages sc = [sample_message] \<and> sc_next_offset sc = 1 \<and> sc_valid_bytes sc = 33"
proof -
  have "length (take 9 (wal_record sample_message)) \<noteq> length (wal_record sample_message)"
    by (simp add: length_wal_record)
  then have torn: "strict_prefix (take 9 (wal_record sample_message)) (wal_record sample_message)"
    by (metis strict_prefix_def take_is_prefix)
  have "contiguous 0 [sample_message]" by (simp add: sample_message_def)
  from recovery_of_torn_log [OF this _ fits_sample torn, of 1000] fits_sample show ?thesis
    by (simp add: length_wal_record) (simp add: sample_message_def)
qed

text \<open>C9: the checksum catches every corruption of a record body that is confined to four neighbouring
  bytes. Whatever follows in the file, recovery keeps the records before the damaged one and stops in
  front of it; the damaged message is never delivered.\<close>

theorem recovery_stops_at_corruption:
  assumes "contiguous n ms" and "\<forall>m \<in> set ms. fits m" and "fits m'"
    and "record_body m' = pre @ xs @ post" and "length ys = length xs" and "length xs \<le> 4" and "ys \<noteq> xs"
  shows "\<exists>sc. recover_scan k (log_bytes ms @ take 8 (wal_record m') @ (pre @ ys @ post) @ rest) (scan_start n) = Some sc \<and>
    sc_messages sc = ms \<and> sc_valid_bytes sc = length (log_bytes ms)"
proof -
  let ?bad = "pre @ ys @ post"
  have head: "take 8 (wal_record m') = Put32 (Crc32 (record_body m')) @ Put32 (of_nat (length (record_body m')))"
    by (simp add: wal_record_def)
  have len: "length ?bad = length (record_body m')" using assms by simp
  have crc: "Crc32 ?bad \<noteq> Crc32 (record_body m')"
    unfolding assms(4) using assms(5-7) Crc32_burst [of ys xs pre post] by simp
  have "recover_turn (n + of_nat (length ms)) (take 8 (wal_record m') @ ?bad @ rest) = Some Stop"
    unfolding head append_assoc
    using recover_turn_bad_body [of "of_nat (length (record_body m'))" ?bad rest "Crc32 (record_body m')"]
      fits_lengths(3) [OF assms(3)] len crc
    by simp
  then have "recover_scan k (log_bytes ms @ take 8 (wal_record m') @ ?bad @ rest) (scan_start n) =
      Some (scan_all k (scan_start n) ms)"
    using assms by (intro recover_scan_log) (simp_all add: scan_start_def)
  then show ?thesis by (simp add: scan_all_fields scan_start_def)
qed

theorem recovery_stops_at_corruption_witness:
  "\<exists>sc. recover_scan 1000 (take 8 (wal_record sample_message) @ take 23 (record_body sample_message) @ [7, 3]) (scan_start 0) = Some sc \<and>
     sc_messages sc = []"
proof -
  have split: "record_body sample_message = take 23 (record_body sample_message) @ [2] @ [3]"
    by (simp add: record_body_def sample_message_def Put64_def Put16_def Put32_def)
  from recovery_stops_at_corruption [of 0 "[]" sample_message "take 23 (record_body sample_message)" "[2]" "[3]" "[7]" 1000 "[]",
      OF _ _ fits_sample split]
  show ?thesis by (auto simp: length_record_body)
qed

section \<open>Evaluating the checksum\<close>

lemma crc_bit_cases: "crc_bit c = (if bit c 0 then drop_bit 1 c XOR 0xEDB88320 else drop_bit 1 c)"
proof -
  have neg: "- (c AND 1) = (if bit c 0 then - 1 else 0)" by (simp add: and_one_eq mod2_eq_if bit_0)
  show ?thesis by (simp add: crc_bit_def neg)
qed

lemma crc_byte_steps:
  "crc_byte c b = crc_bit (crc_bit (crc_bit (crc_bit (crc_bit (crc_bit (crc_bit (crc_bit (c XOR ucast b))))))))"
  by (simp add: crc_byte_def numeral_eq_Suc)

lemma Crc32_sample: "Crc32 (record_body sample_message) = 0xCD8029B7"
proof -
  have "record_body sample_message = [0, 0, 0, 0, 0, 0, 0, 0, 0, 0, 0, 0, 0, 0, 0, 5, 0, 1, 1, 0, 0, 0, 2, 2, 3]"
    by (simp add: record_body_def sample_message_def Put64_def Put32_def Put16_def)
  then show ?thesis by (simp add: Crc32_def crc_byte_steps crc_bit_cases)
qed

end
