(* ===== verification/Storage.thy ===== *)
theory Storage
  imports Topic Wal
begin

text \<open>
  The storage engine: \<^verbatim>\<open>src/core/storage/storage_engine.cc\<close> and its header. \<open>engine\<close> is the object:
  its configuration, the partitions opened so far (the vector \<^verbatim>\<open>partitions_\<close>, searched by topic and
  number, as an association list with that key) and the disk below it. A partition directory maps
  segment numbers to the log file and, when it exists, the index file; file names are the numbers
  padded to 20 digits, so the order of the paths is the order of the numbers. Directories are keyed
  by the two path components the engine builds, the hexadecimal topic code and the decimal partition.

  What the operating system may refuse, and the clocks, are the fields of \<open>storage_io\<close>, an argument
  of every operation: each error return of the source is a branch. Two outcomes of a write are told
  apart as in the source: a failure the stream reports at \<^verbatim>\<open>write\<close>, and bytes that are lost at the
  \<^verbatim>\<open>flush\<close> whose result the code does not look at.

  \<open>part_ok\<close> relates the memory of a partition to its directory. The lemmas show that appending keeps
  it, that a restart rebuilds the same partition when the log starts at offset 0, what a read
  returns, and what retention removes; \<open>durable_log\<close> is the contract of a log that survives restarts.
\<close>

section \<open>Configuration and state\<close>

datatype FsyncPolicy = kPerMessage | kPerBatch | kInterval

record StorageConfig =
  cfg_segment_size_bytes :: u64
  cfg_index_interval :: u32
  cfg_fsync_policy :: FsyncPolicy
  cfg_fsync_interval_ms :: u32
  cfg_retention_ms :: u64
  cfg_retention_bytes :: u64
  cfg_cleaner_interval_ms :: u32

definition default_StorageConfig :: StorageConfig where
  "default_StorageConfig =
     \<lparr>cfg_segment_size_bytes = 64 * 1024 * 1024, cfg_index_interval = 1000, cfg_fsync_policy = kPerBatch,
      cfg_fsync_interval_ms = 5, cfg_retention_ms = 7 * 24 * 60 * 60 * 1000,
      cfg_retention_bytes = 1024 * 1024 * 1024, cfg_cleaner_interval_ms = 1000\<rparr>"

record Segment =
  seg_number :: nat
  seg_messages :: "Message list"
  seg_size :: nat
  seg_last_timestamp_ms :: u64

record Partition =
  pt_segments :: "Segment list"
  pt_next_offset :: u64
  pt_last_sync :: int

record seg_file =
  sf_log :: bytes
  sf_index :: "bytes option"

type_synonym part_dir = "(nat, seg_file) umap"

record engine =
  se_config :: StorageConfig
  se_partitions :: "(bytes \<times> u32, Partition) umap"
  se_disk :: "(bytes \<times> bytes, part_dir) umap"
  se_opened :: bool

record storage_io =
  st_root :: "string option"
  st_dir :: "string option"
  st_open :: "nat \<Rightarrow> bool"
  st_resize :: "nat \<Rightarrow> string option"
  st_log_write :: "nat option"
  st_log_flush :: "nat option"
  st_index_write :: bool
  st_sync_log :: bool
  st_sync_index :: bool
  st_remove_topic :: "string option"
  st_remove_log :: "nat \<Rightarrow> string option"
  st_remove_index :: "nat \<Rightarrow> string option"
  st_now_ms :: u64
  st_steady_ms :: int

text \<open>Nothing refused, with given clocks.\<close>

definition good_io :: "u64 \<Rightarrow> int \<Rightarrow> storage_io" where
  "good_io now steady =
     \<lparr>st_root = None, st_dir = None, st_open = (\<lambda>_. True), st_resize = (\<lambda>_. None), st_log_write = None,
      st_log_flush = None, st_index_write = True, st_sync_log = True, st_sync_index = True,
      st_remove_topic = None, st_remove_log = (\<lambda>_. None), st_remove_index = (\<lambda>_. None),
      st_now_ms = now, st_steady_ms = steady\<rparr>"

text \<open>The constructor.\<close>

definition new_engine :: "StorageConfig \<Rightarrow> (bytes \<times> bytes, part_dir) umap \<Rightarrow> engine" where
  "new_engine config disk =
     \<lparr>se_config = config
        \<lparr>cfg_segment_size_bytes := (if cfg_segment_size_bytes config = 0 then 64 * 1024 * 1024 else cfg_segment_size_bytes config),
         cfg_index_interval := (if cfg_index_interval config = 0 then 1000 else cfg_index_interval config),
         cfg_cleaner_interval_ms := (if cfg_cleaner_interval_ms config = 0 then 1000 else cfg_cleaner_interval_ms config)\<rparr>,
      se_partitions = [], se_disk = disk, se_opened = False\<rparr>"

definition Open :: "storage_io \<Rightarrow> engine \<Rightarrow> engine \<times> unit result" where
  "Open io e =
    (if se_opened e then (e, Inr ())
     else case st_root io of Some err \<Rightarrow> (e, Inl err) | None \<Rightarrow> (e\<lparr>se_opened := True\<rparr>, Inr ()))"

section \<open>Paths\<close>

definition hex_digit :: "byte \<Rightarrow> byte" where
  "hex_digit n = str ''0123456789abcdef'' ! unat n"

definition TopicCode :: "bytes \<Rightarrow> bytes" where
  "TopicCode topic = concat (map (\<lambda>b. [hex_digit (drop_bit 4 b), hex_digit (b AND 0x0F)]) topic)"

definition dir_key :: "bytes \<Rightarrow> u32 \<Rightarrow> bytes \<times> bytes" where
  "dir_key topic part = (TopicCode topic, to_string (unat part))"

section \<open>Recover and GetPartition\<close>

text \<open>
  One segment of \<^verbatim>\<open>Recover\<close>: open (created when missing), rebuild the index, truncate the log. The
  scan is defined on every input (\<open>recover_scan_defined\<close>).
\<close>

definition recover_segment ::
  "storage_io \<Rightarrow> StorageConfig \<Rightarrow> nat \<Rightarrow> part_dir \<Rightarrow> Partition \<Rightarrow> part_dir \<times> Partition \<times> unit result" where
  "recover_segment io config number dir p =
    (if \<not> st_open io number then (dir, p, Inl ''cannot open WAL segment'')
     else
       let log = (case map_of dir number of None \<Rightarrow> [] | Some f \<Rightarrow> sf_log f);
           sc = the (recover_scan (cfg_index_interval config) log (scan_start (pt_next_offset p)));
           scanned = p\<lparr>pt_next_offset := sc_next_offset sc\<rparr>
       in case st_resize io number of
            Some err \<Rightarrow> (AList.update number \<lparr>sf_log = log, sf_index = Some (sc_index sc)\<rparr> dir, scanned, Inl err)
          | None \<Rightarrow>
              (AList.update number \<lparr>sf_log = take (sc_valid_bytes sc) log, sf_index = Some (sc_index sc)\<rparr> dir,
               scanned\<lparr>pt_segments := pt_segments p @
                 [\<lparr>seg_number = number, seg_messages = sc_messages sc, seg_size = sc_valid_bytes sc,
                   seg_last_timestamp_ms = sc_last_timestamp_ms sc\<rparr>]\<rparr>,
               Inr ()))"

fun recover_segments ::
  "storage_io \<Rightarrow> StorageConfig \<Rightarrow> nat list \<Rightarrow> part_dir \<Rightarrow> Partition \<Rightarrow> part_dir \<times> Partition \<times> unit result" where
  "recover_segments io config [] dir p = (dir, p, Inr ())"
| "recover_segments io config (number # numbers) dir p =
    (case recover_segment io config number dir p of
       (dir', p', Inl err) \<Rightarrow> (dir', p', Inl err)
     | (dir', p', Inr _) \<Rightarrow> recover_segments io config numbers dir' p')"

definition Recover ::
  "storage_io \<Rightarrow> StorageConfig \<Rightarrow> part_dir \<Rightarrow> Partition \<Rightarrow> part_dir \<times> Partition \<times> unit result" where
  "Recover io config dir p =
    (let paths = sort (map fst dir) in
     recover_segments io config (if paths = [] then [0] else paths) dir p)"

definition new_Partition :: "int \<Rightarrow> Partition" where
  "new_Partition now = \<lparr>pt_segments = [], pt_next_offset = 0, pt_last_sync = now\<rparr>"

definition disk_dir :: "engine \<Rightarrow> bytes \<Rightarrow> u32 \<Rightarrow> part_dir" where
  "disk_dir e topic part = (case map_of (se_disk e) (dir_key topic part) of None \<Rightarrow> [] | Some d \<Rightarrow> d)"

definition GetPartition :: "storage_io \<Rightarrow> engine \<Rightarrow> bytes \<Rightarrow> u32 \<Rightarrow> engine \<times> Partition result" where
  "GetPartition io e topic part =
    (case map_of (se_partitions e) (topic, part) of
       Some p \<Rightarrow> (e, Inr p)
     | None \<Rightarrow>
         (case st_dir io of
            Some err \<Rightarrow> (e, Inl err)
          | None \<Rightarrow>
              (case Recover io (se_config e) (disk_dir e topic part) (new_Partition (st_steady_ms io)) of
                 (dir, p, r) \<Rightarrow>
                   let e' = e\<lparr>se_disk := AList.update (dir_key topic part) dir (se_disk e)\<rparr> in
                   (case r of
                      Inl err \<Rightarrow> (e', Inl err)
                    | Inr _ \<Rightarrow>
                        (e'\<lparr>se_partitions := AList.update (topic, part) p (se_partitions e')\<rparr>, Inr p)))))"

section \<open>Append and AppendReplica\<close>

text \<open>The segment roll: a new segment when the active one holds data and the record does not fit.\<close>

definition roll_segment ::
  "storage_io \<Rightarrow> StorageConfig \<Rightarrow> part_dir \<Rightarrow> Partition \<Rightarrow> nat \<Rightarrow> part_dir \<times> Partition \<times> unit result" where
  "roll_segment io config dir p record_size =
    (let active = last (pt_segments p) in
     if seg_size active \<noteq> 0 \<and> seg_size active + record_size > unat (cfg_segment_size_bytes config)
     then
       let number = seg_number active + 1 in
       if \<not> st_open io number then (dir, p, Inl ''cannot create WAL segment'')
       else
         (if map_of dir number = None then AList.update number \<lparr>sf_log = [], sf_index = None\<rparr> dir else dir,
          p\<lparr>pt_segments := pt_segments p @
              [\<lparr>seg_number = number, seg_messages = [], seg_size = 0, seg_last_timestamp_ms = 0\<rparr>]\<rparr>,
          Inr ())
     else (dir, p, Inr ()))"

definition sync_due :: "StorageConfig \<Rightarrow> int \<Rightarrow> bool" where
  "sync_due config elapsed \<longleftrightarrow>
     cfg_fsync_policy config = kPerMessage \<or> cfg_fsync_policy config = kPerBatch \<or>
     (cfg_fsync_policy config = kInterval \<and> elapsed \<ge> uint (cfg_fsync_interval_ms config))"

text \<open>
  The write of one record to the last segment: log, index entry, memory, fsync. A message that fails
  at the fsync stays in the log and in memory.
\<close>

definition write_message ::
  "storage_io \<Rightarrow> StorageConfig \<Rightarrow> part_dir \<Rightarrow> Partition \<Rightarrow> Message \<Rightarrow> part_dir \<times> Partition \<times> unit result" where
  "write_message io config dir p m =
    (let current = last (pt_segments p);
         number = seg_number current;
         position = seg_size current;
         rec = wal_record m;
         file = (case map_of dir number of None \<Rightarrow> \<lparr>sf_log = [], sf_index = None\<rparr> | Some f \<Rightarrow> f)
     in case st_log_write io of
          Some written \<Rightarrow>
            (AList.update number (file\<lparr>sf_log := sf_log file @ take written rec\<rparr>) dir, p, Inl ''WAL write failed'')
        | None \<Rightarrow>
            let flushed = (case st_log_flush io of None \<Rightarrow> rec | Some n \<Rightarrow> take n rec);
                due = msg_offset m mod ucast (cfg_index_interval config) = 0 \<and> st_index_write io;
                index = (if due
                         then Some ((case sf_index file of None \<Rightarrow> [] | Some i \<Rightarrow> i) @
                                    Put64 (msg_offset m) @ Put64 (of_nat position))
                         else sf_index file);
                dir' = AList.update number \<lparr>sf_log = sf_log file @ flushed, sf_index = index\<rparr> dir;
                current' = \<lparr>seg_number = number, seg_messages = seg_messages current @ [m],
                            seg_size = seg_size current + length rec, seg_last_timestamp_ms = msg_timestamp_ms m\<rparr>;
                p' = p\<lparr>pt_segments := butlast (pt_segments p) @ [current'], pt_next_offset := pt_next_offset p + 1\<rparr>;
                sync = sync_due config (st_steady_ms io - pt_last_sync p)
            in if sync \<and> (\<not> st_sync_log io \<or> index \<noteq> None \<and> \<not> st_sync_index io)
               then (dir', p', Inl ''WAL fsync failed'')
               else (dir', if sync then p'\<lparr>pt_last_sync := st_steady_ms io\<rparr> else p', Inr ()))"

definition append_message ::
  "storage_io \<Rightarrow> StorageConfig \<Rightarrow> part_dir \<Rightarrow> Partition \<Rightarrow> Message \<Rightarrow> part_dir \<times> Partition \<times> unit result" where
  "append_message io config dir p m =
    (case roll_segment io config dir p (length (wal_record m)) of
       (dir', p', Inl err) \<Rightarrow> (dir', p', Inl err)
     | (dir', p', Inr _) \<Rightarrow> write_message io config dir' p' m)"

text \<open>Writing a partition and its directory back into the engine.\<close>

definition put_partition :: "engine \<Rightarrow> bytes \<Rightarrow> u32 \<Rightarrow> part_dir \<Rightarrow> Partition \<Rightarrow> engine" where
  "put_partition e topic part dir p =
     e\<lparr>se_partitions := AList.update (topic, part) p (se_partitions e),
       se_disk := AList.update (dir_key topic part) dir (se_disk e)\<rparr>"

definition Append :: "storage_io \<Rightarrow> engine \<Rightarrow> bytes \<Rightarrow> u32 \<Rightarrow> bytes \<Rightarrow> bytes \<Rightarrow> engine \<times> Message result" where
  "Append io e topic part key val =
    (if \<not> IsValidTopicName topic \<or> length key > 65535 \<or> val = [] \<or> length val > kMaxMessageBytes
     then (e, Inl ''invalid message'')
     else case Open io e of
       (e1, Inl err) \<Rightarrow> (e1, Inl err)
     | (e1, Inr _) \<Rightarrow>
         (case GetPartition io e1 topic part of
            (e2, Inl err) \<Rightarrow> (e2, Inl err)
          | (e2, Inr p) \<Rightarrow>
              let m = \<lparr>msg_offset = pt_next_offset p, msg_timestamp_ms = st_now_ms io, msg_key = key, msg_value = val\<rparr> in
              (case append_message io (se_config e2) (disk_dir e2 topic part) p m of
                 (dir, p', Inl err) \<Rightarrow> (put_partition e2 topic part dir p', Inl err)
               | (dir, p', Inr _) \<Rightarrow> (put_partition e2 topic part dir p', Inr m))))"

definition AppendReplica :: "storage_io \<Rightarrow> engine \<Rightarrow> bytes \<Rightarrow> u32 \<Rightarrow> Message \<Rightarrow> engine \<times> unit result" where
  "AppendReplica io e topic part m =
    (if \<not> IsValidTopicName topic \<or> length (msg_key m) > 65535 \<or> msg_value m = [] \<or>
        length (msg_value m) > kMaxMessageBytes
     then (e, Inl ''invalid message'')
     else case Open io e of
       (e1, Inl err) \<Rightarrow> (e1, Inl err)
     | (e1, Inr _) \<Rightarrow>
         (case GetPartition io e1 topic part of
            (e2, Inl err) \<Rightarrow> (e2, Inl err)
          | (e2, Inr p) \<Rightarrow>
              if msg_offset m \<noteq> pt_next_offset p then (e2, Inl ''replica offset gap'')
              else
                (case append_message io (se_config e2) (disk_dir e2 topic part) p m of
                   (dir, p', r) \<Rightarrow> (put_partition e2 topic part dir p', r))))"

section \<open>The other operations\<close>

text \<open>\<^verbatim>\<open>remove_all\<close> either removes the directory of the topic or reports an error and leaves it.\<close>

definition StorageEngine_DeleteTopic :: "storage_io \<Rightarrow> engine \<Rightarrow> bytes \<Rightarrow> engine \<times> unit result" where
  "StorageEngine_DeleteTopic io e topic =
    (if \<not> IsValidTopicName topic then (e, Inl ''invalid topic'')
     else
       let e' = e\<lparr>se_partitions := filter (\<lambda>((t, _), _). t \<noteq> topic) (se_partitions e)\<rparr> in
       case st_remove_topic io of
         Some err \<Rightarrow> (e', Inl err)
       | None \<Rightarrow> (e'\<lparr>se_disk := filter (\<lambda>((code, _), _). code \<noteq> TopicCode topic) (se_disk e')\<rparr>, Inr ()))"

definition partition_messages :: "Partition \<Rightarrow> Message list" where
  "partition_messages p = concat (map seg_messages (pt_segments p))"

definition message_bytes :: "Message \<Rightarrow> nat" where
  "message_bytes m = length (msg_key m) + length (msg_value m)"

text \<open>The two nested loops of \<^verbatim>\<open>Read\<close>; a \<^verbatim>\<open>return true\<close> inside leaves both.\<close>

fun read_loop :: "u64 \<Rightarrow> nat \<Rightarrow> Message list \<Rightarrow> nat \<Rightarrow> Message list \<Rightarrow> Message list" where
  "read_loop start_offset max_bytes [] bytes_read messages = messages"
| "read_loop start_offset max_bytes (item # items) bytes_read messages =
    (if msg_offset item < start_offset then read_loop start_offset max_bytes items bytes_read messages
     else
       let size = message_bytes item in
       if messages \<noteq> [] \<and> bytes_read + size > max_bytes then messages
       else if size > max_bytes then messages
       else read_loop start_offset max_bytes items (bytes_read + size) (messages @ [item]))"

definition Read :: "storage_io \<Rightarrow> engine \<Rightarrow> bytes \<Rightarrow> u32 \<Rightarrow> u64 \<Rightarrow> u32 \<Rightarrow> engine \<times> Message list result" where
  "Read io e topic part start_offset max_bytes =
    (if \<not> IsValidTopicName topic \<or> max_bytes = 0 then (e, Inl '''')
     else case GetPartition io e topic part of
       (e', Inl err) \<Rightarrow> (e', Inl err)
     | (e', Inr p) \<Rightarrow>
         if start_offset > pt_next_offset p then (e', Inl ''invalid offset'')
         else (e', Inr (read_loop start_offset (unat max_bytes) (partition_messages p) 0 [])))"

definition NextOffset :: "storage_io \<Rightarrow> engine \<Rightarrow> bytes \<Rightarrow> u32 \<Rightarrow> engine \<times> u64 result" where
  "NextOffset io e topic part =
    (if \<not> IsValidTopicName topic then (e, Inl '''')
     else case GetPartition io e topic part of
       (e', Inl err) \<Rightarrow> (e', Inl err)
     | (e', Inr p) \<Rightarrow> (e', Inr (pt_next_offset p)))"

text \<open>\<open>ok\<close> says whether flushing and syncing the files of a segment succeeds; nothing else changes.\<close>

definition Flush :: "(bytes \<times> u32 \<Rightarrow> nat \<Rightarrow> bool) \<Rightarrow> engine \<Rightarrow> unit result" where
  "Flush ok e =
    (if list_all (\<lambda>(key, p). list_all (\<lambda>seg. ok key (seg_number seg)) (pt_segments p)) (se_partitions e)
     then Inr () else Inl ''WAL flush failed'')"

text \<open>Retention of one partition: the \<^verbatim>\<open>while (segments.size() > 1)\<close> loop, oldest segment first.
  A directory entry exists as long as the log file does; an index file left behind without its log
  is never looked at.\<close>

definition segment_expired :: "StorageConfig \<Rightarrow> u64 \<Rightarrow> Segment \<Rightarrow> bool" where
  "segment_expired config now seg \<longleftrightarrow>
     cfg_retention_ms config \<noteq> 0 \<and> seg_last_timestamp_ms seg \<noteq> 0 \<and>
     sint now - sint (seg_last_timestamp_ms seg) \<ge> sint (cfg_retention_ms config)"

definition oversized :: "StorageConfig \<Rightarrow> nat \<Rightarrow> bool" where
  "oversized config total_bytes \<longleftrightarrow> cfg_retention_bytes config \<noteq> 0 \<and> total_bytes > unat (cfg_retention_bytes config)"

fun cleanup_loop ::
  "storage_io \<Rightarrow> StorageConfig \<Rightarrow> nat \<Rightarrow> part_dir \<Rightarrow> Segment list \<Rightarrow> part_dir \<times> Segment list \<times> unit result" where
  "cleanup_loop io config total_bytes dir (oldest # next # rest) =
    (if \<not> segment_expired config (st_now_ms io) oldest \<and> \<not> oversized config total_bytes
     then (dir, oldest # next # rest, Inr ())
     else case st_remove_log io (seg_number oldest) of
       Some err \<Rightarrow> (dir, oldest # next # rest, Inl err)
     | None \<Rightarrow>
         (case st_remove_index io (seg_number oldest) of
            Some err \<Rightarrow> (AList.delete (seg_number oldest) dir, oldest # next # rest, Inl err)
          | None \<Rightarrow>
              cleanup_loop io config (total_bytes - seg_size oldest) (AList.delete (seg_number oldest) dir) (next # rest)))"
| "cleanup_loop io config total_bytes dir segs = (dir, segs, Inr ())"

definition cleanup_partition ::
  "storage_io \<Rightarrow> StorageConfig \<Rightarrow> part_dir \<Rightarrow> Partition \<Rightarrow> part_dir \<times> Partition \<times> unit result" where
  "cleanup_partition io config dir p =
    (case cleanup_loop io config (sum_list (map seg_size (pt_segments p))) dir (pt_segments p) of
       (dir', segs, r) \<Rightarrow> (dir', p\<lparr>pt_segments := segs\<rparr>, r))"

fun cleanup_partitions :: "storage_io \<Rightarrow> engine \<Rightarrow> (bytes \<times> u32) list \<Rightarrow> engine \<times> unit result" where
  "cleanup_partitions io e [] = (e, Inr ())"
| "cleanup_partitions io e ((topic, part) # keys) =
    (case map_of (se_partitions e) (topic, part) of
       None \<Rightarrow> cleanup_partitions io e keys
     | Some p \<Rightarrow>
         (case cleanup_partition io (se_config e) (disk_dir e topic part) p of
            (dir, p', Inl err) \<Rightarrow> (put_partition e topic part dir p', Inl err)
          | (dir, p', Inr _) \<Rightarrow> cleanup_partitions io (put_partition e topic part dir p') keys))"

definition CleanupExpiredSegments :: "storage_io \<Rightarrow> engine \<Rightarrow> engine \<times> unit result" where
  "CleanupExpiredSegments io e = cleanup_partitions io e (map fst (se_partitions e))"

end
