(* ===== verification/Storage_Log.thy ===== *)
theory Storage_Log
  imports Storage
begin

text \<open>
  What the storage engine guarantees: memory and disk of a partition agree, appends are durable across
  restarts unless a write that fails leaves part of a record behind, reads return the longest fitting run,
  retention removes old segments only. Appending is described with an operating system that may refuse
  anything. The last section is about what restarts lose.
\<close>

section \<open>Topic directories are distinct\<close>

lemma hex_digit_inject: "hex_digit a = hex_digit b \<Longrightarrow> a < 16 \<Longrightarrow> b < 16 \<Longrightarrow> a = b"
proof -
  assume eq: "hex_digit a = hex_digit b" and lt: "a < 16" "b < 16"
  have "distinct (str ''0123456789abcdef'')" "length (str ''0123456789abcdef'') = 16" by code_simp+
  moreover have "unat a < 16" "unat b < 16" using lt by (simp_all add: word_less_nat_alt)
  ultimately have "unat a = unat b" using eq by (simp add: hex_digit_def nth_eq_iff_index_eq)
  then show "a = b" by (simp add: word_unat_eq_iff)
qed

lemma nibbles: "drop_bit 4 b < (16 :: byte)" "b AND 0x0F < (16 :: byte)"
  and nibbles_inject: "drop_bit 4 a = drop_bit 4 b \<Longrightarrow> a AND 0x0F = b AND 0x0F \<Longrightarrow> a = (b :: byte)"
proof -
  have mask: "(0x0F :: byte) = mask 4" by (simp add: mask_eq_exp_minus_1)
  have "unat b < 256" using unat_bound [of b] by simp
  then have "unat b div 16 < 16" by linarith
  then show "drop_bit 4 b < (16 :: byte)" unfolding word_less_nat_alt unat_drop_bit_eq by (simp add: drop_bit_eq_div)
  show "b AND 0x0F < (16 :: byte)"
    unfolding mask take_bit_eq_mask [symmetric] word_less_nat_alt unsigned_take_bit_eq by (simp add: take_bit_nat_def)
  show "a = b" if high: "drop_bit 4 a = drop_bit 4 b" and low: "a AND 0x0F = b AND 0x0F"
  proof (rule bit_word_eqI)
    fix n
    show "bit a n = bit b n"
    proof (cases "n < 4")
      case True
      then show ?thesis using arg_cong [OF low, of "\<lambda>w. bit w n"] by (simp add: mask bit_simps)
    next
      case False
      then show ?thesis using arg_cong [OF high, of "\<lambda>w. bit w (n - 4)"] by (simp add: bit_simps)
    qed
  qed
qed

lemma TopicCode_inject: "TopicCode a = TopicCode b \<longleftrightarrow> a = b"
proof
  show "TopicCode a = TopicCode b \<Longrightarrow> a = b"
  proof (induction a arbitrary: b)
    case Nil
    then show ?case by (cases b) (auto simp: TopicCode_def)
  next
    case (Cons x a)
    then obtain y b' where b: "b = y # b'" by (cases b) (auto simp: TopicCode_def)
    with Cons.prems have "hex_digit (drop_bit 4 x) = hex_digit (drop_bit 4 y)"
      "hex_digit (x AND 0x0F) = hex_digit (y AND 0x0F)" "TopicCode a = TopicCode b'"
      by (simp_all add: TopicCode_def)
    then show ?case using Cons.IH b nibbles hex_digit_inject nibbles_inject by metis
  qed
qed simp

lemma dir_key_inject: "dir_key t p = dir_key t' p' \<longleftrightarrow> t = t' \<and> p = p'"
  by (auto simp: dir_key_def TopicCode_inject word_unat_eq_iff)

section \<open>Memory and disk agree\<close>

definition seg_ok :: "part_dir \<Rightarrow> Segment \<Rightarrow> bool" where
  "seg_ok dir seg \<longleftrightarrow>
     map_option sf_log (map_of dir (seg_number seg)) = Some (log_bytes (seg_messages seg)) \<and>
     seg_size seg = length (log_bytes (seg_messages seg)) \<and>
     seg_last_timestamp_ms seg =
       (if seg_messages seg = [] then 0 else msg_timestamp_ms (last (seg_messages seg)))"

definition part_ok :: "part_dir \<Rightarrow> u64 \<Rightarrow> Partition \<Rightarrow> bool" where
  "part_ok dir base p \<longleftrightarrow>
     pt_segments p \<noteq> [] \<and> umap_ok dir \<and> sorted_wrt (<) (map seg_number (pt_segments p)) \<and>
     fst ` set dir = seg_number ` set (pt_segments p) \<and> (\<forall>seg \<in> set (pt_segments p). seg_ok dir seg) \<and>
     contiguous base (partition_messages p) \<and> (\<forall>m \<in> set (partition_messages p). fits m) \<and>
     pt_next_offset p = base + of_nat (length (partition_messages p))"

text \<open>The operating system stores what it accepts: no write of a record is cut short.\<close>

definition whole_writes :: "storage_io \<Rightarrow> bool" where
  "whole_writes io \<longleftrightarrow> st_log_write io = None \<and> st_log_flush io = None"

lemma seg_ok_other:
  "seg_ok dir seg \<Longrightarrow> seg_number seg \<noteq> n \<Longrightarrow> seg_ok (AList.update n f dir) seg"
  by (simp add: seg_ok_def)

lemma partition_messages_snoc:
  "partition_messages (p\<lparr>pt_segments := segs @ [seg]\<rparr>) = concat (map seg_messages segs) @ seg_messages seg"
  by (simp add: partition_messages_def)

lemma roll_segment_ok:
  assumes ok: "part_ok dir base p" and roll: "roll_segment io config dir p n = (dir', p', r)"
  shows "part_ok dir' base p' \<and> partition_messages p' = partition_messages p \<and>
    pt_next_offset p' = pt_next_offset p \<and> pt_last_sync p' = pt_last_sync p"
proof (cases "p' = p \<and> dir' = dir")
  case True
  then show ?thesis using ok by simp
next
  case False
  let ?number = "seg_number (last (pt_segments p)) + 1"
  from ok obtain init cur where segs: "pt_segments p = init @ [cur]"
    unfolding part_ok_def by (metis rev_exhaust)
  have above: "seg_number seg < ?number" if "seg \<in> set (pt_segments p)" for seg
    using ok that by (fastforce simp: part_ok_def segs sorted_wrt_append)
  have dirs: "fst ` set dir = seg_number ` set (pt_segments p)" using ok by (simp add: part_ok_def)
  have fresh: "?number \<notin> fst ` set dir" unfolding dirs using above by fastforce
  then have none: "map_of dir ?number = None" by (simp add: map_of_eq_None_iff)
  from False roll none have dir': "dir' = AList.update ?number \<lparr>sf_log = [], sf_index = None\<rparr> dir"
    and p': "p' = p\<lparr>pt_segments := pt_segments p @
      [\<lparr>seg_number = ?number, seg_messages = [], seg_size = 0, seg_last_timestamp_ms = 0\<rparr>]\<rparr>"
    by (auto simp: roll_segment_def Let_def split: if_splits)
  have "\<forall>seg \<in> set (pt_segments p). seg_ok dir' seg"
    using ok above unfolding dir' part_ok_def by (fastforce intro: seg_ok_other)
  moreover have "partition_messages p' = partition_messages p" by (simp add: p' partition_messages_def)
  moreover have "sorted_wrt (<) (map seg_number (pt_segments p'))"
    using ok above by (auto simp: part_ok_def p' sorted_wrt_append)
  ultimately show ?thesis
    using ok unfolding part_ok_def by (auto simp: p' dir' update_keys seg_ok_def)
qed

lemma write_message_ok:
  assumes ok: "part_ok dir base p" and io: "whole_writes io" and m: "fits m" "msg_offset m = pt_next_offset p"
    and wr: "write_message io config dir p m = (dir', p', r)"
  shows "part_ok dir' base p' \<and> partition_messages p' = partition_messages p @ [m] \<and>
    pt_next_offset p' = pt_next_offset p + 1 \<and> (r = Inr () \<or> r = Inl ''WAL fsync failed'')"
proof -
  from ok obtain init cur where segs: "pt_segments p = init @ [cur]"
    unfolding part_ok_def by (metis rev_exhaust)
  have cur_ok: "seg_ok dir cur" using ok by (simp add: part_ok_def segs)
  then obtain f where f: "map_of dir (seg_number cur) = Some f" "sf_log f = log_bytes (seg_messages cur)"
    by (auto simp: seg_ok_def)
  let ?cur = "\<lparr>seg_number = seg_number cur, seg_messages = seg_messages cur @ [m],
      seg_size = seg_size cur + length (wal_record m), seg_last_timestamp_ms = msg_timestamp_ms m\<rparr>"
  obtain i where dir': "dir' = AList.update (seg_number cur) \<lparr>sf_log = sf_log f @ wal_record m, sf_index = i\<rparr> dir"
    and p': "pt_segments p' = init @ [?cur]" "pt_next_offset p' = pt_next_offset p + 1"
    and r: "r = Inr () \<or> r = Inl ''WAL fsync failed''"
    using wr io f by (auto simp: write_message_def Let_def segs whole_writes_def split: if_splits)
  have below: "seg_number seg < seg_number cur" if "seg \<in> set init" for seg
    using ok that by (simp add: part_ok_def segs sorted_wrt_append)
  have "seg_ok dir' seg" if "seg \<in> set init" for seg
    using ok that below [OF that] unfolding dir' by (intro seg_ok_other) (auto simp: part_ok_def segs)
  moreover have "seg_ok dir' ?cur" using cur_ok f by (simp add: dir' seg_ok_def)
  moreover have msgs: "partition_messages p' = partition_messages p @ [m]" by (simp add: p' partition_messages_def segs)
  moreover have "contiguous base (partition_messages p @ [m])"
    using ok m by (simp add: part_ok_def contiguous_append)
  ultimately show ?thesis
    using ok r m unfolding part_ok_def by (auto simp: p' segs dir' update_keys add.assoc)
qed

lemma append_message_ok:
  assumes ok: "part_ok dir base p" and io: "whole_writes io" and m: "fits m" "msg_offset m = pt_next_offset p"
    and app: "append_message io config dir p m = (dir', p', r)"
  shows "part_ok dir' base p' \<and>
    (r = Inl ''cannot create WAL segment'' \<and> partition_messages p' = partition_messages p \<and> pt_next_offset p' = pt_next_offset p \<or>
     (r = Inr () \<or> r = Inl ''WAL fsync failed'') \<and> partition_messages p' = partition_messages p @ [m] \<and>
     pt_next_offset p' = pt_next_offset p + 1)"
proof -
  obtain dir1 p1 r1 where roll: "roll_segment io config dir p (length (wal_record m)) = (dir1, p1, r1)"
    by (metis prod_cases3)
  note rolled = roll_segment_ok [OF ok roll]
  show ?thesis
  proof (cases r1)
    case (Inl e)
    then have "e = ''cannot create WAL segment''" using roll by (auto simp: roll_segment_def Let_def split: if_splits)
    with Inl rolled roll app show ?thesis by (auto simp: append_message_def)
  next
    case (Inr u)
    then have w: "write_message io config dir1 p1 m = (dir', p', r)" using roll app by (simp add: append_message_def)
    have "part_ok dir1 base p1" "msg_offset m = pt_next_offset p1" using rolled m by simp_all
    from write_message_ok [OF this(1) io m(1) this(2) w] rolled show ?thesis by auto
  qed
qed

section \<open>Recovery rebuilds the partition\<close>

definition recovers :: "storage_io \<Rightarrow> bool" where
  "recovers io \<longleftrightarrow> (\<forall>n. st_open io n \<and> st_resize io n = None)"

definition same_logs :: "part_dir \<Rightarrow> part_dir \<Rightarrow> bool" where
  "same_logs dir dir' \<longleftrightarrow> (\<forall>n. map_option sf_log (map_of dir' n) = map_option sf_log (map_of dir n)) \<and>
     (umap_ok dir \<longrightarrow> umap_ok dir')"

lemma same_logs_refl [simp]: "same_logs dir dir"
  by (simp add: same_logs_def)

lemma same_logs_trans: "same_logs a b \<Longrightarrow> same_logs b c \<Longrightarrow> same_logs a c"
  by (simp add: same_logs_def)

lemma same_logs_update:
  "map_option sf_log (map_of dir n) = Some (sf_log f) \<Longrightarrow> same_logs dir (AList.update n f dir)"
  by (auto simp: same_logs_def)

lemma same_logs_keys: "same_logs dir dir' \<Longrightarrow> fst ` set dir' = fst ` set dir"
proof -
  assume "same_logs dir dir'"
  then have "map_of dir' n = None \<longleftrightarrow> map_of dir n = None" for n
    unfolding same_logs_def by (metis map_option_is_None)
  then show ?thesis unfolding dom_map_of_conv_image_fst [symmetric] by (auto simp: dom_def)
qed

lemma seg_ok_same_logs: "same_logs dir dir' \<Longrightarrow> seg_ok dir seg \<Longrightarrow> seg_ok dir' seg"
  by (simp add: same_logs_def seg_ok_def)

lemma part_ok_same_logs: "same_logs dir dir' \<Longrightarrow> part_ok dir base p \<Longrightarrow> part_ok dir' base p"
  unfolding part_ok_def by (auto simp: same_logs_keys seg_ok_same_logs) (auto simp: same_logs_def)

lemma part_ok_cong:
  "pt_segments p' = pt_segments p \<Longrightarrow> pt_next_offset p' = pt_next_offset p \<Longrightarrow> part_ok dir base p' = part_ok dir base p"
  by (simp add: part_ok_def partition_messages_def)

lemma recover_turn_Nil [simp]: "recover_turn n [] = Some Stop"
  by (simp add: recover_turn_def kRecordHeaderSize_def)

lemma recover_segment_ok:
  assumes io: "recovers io" and seg: "seg_ok dir seg"
    and ms: "contiguous (pt_next_offset p) (seg_messages seg)" "\<forall>m \<in> set (seg_messages seg). fits m"
  shows "\<exists>dir'. recover_segment io config (seg_number seg) dir p =
      (dir', p\<lparr>pt_segments := pt_segments p @ [seg],
               pt_next_offset := pt_next_offset p + of_nat (length (seg_messages seg))\<rparr>, Inr ()) \<and> same_logs dir dir'"
proof -
  let ?k = "cfg_index_interval config" and ?ms = "seg_messages seg" and ?n = "pt_next_offset p"
  let ?sc = "scan_all ?k (scan_start ?n) ?ms"
  from seg obtain f where f: "map_of dir (seg_number seg) = Some f" "sf_log f = log_bytes ?ms"
    by (auto simp: seg_ok_def)
  have "recover_scan ?k (log_bytes ?ms @ []) (scan_start ?n) = Some ?sc"
    using ms by (intro recover_scan_log) (simp_all add: scan_start_def)
  moreover have fields: "sc_messages ?sc = ?ms" "sc_next_offset ?sc = ?n + of_nat (length ?ms)"
    "sc_valid_bytes ?sc = length (log_bytes ?ms)" "sc_last_timestamp_ms ?sc = seg_last_timestamp_ms seg"
    using seg by (simp_all add: scan_all_fields scan_start_def seg_ok_def)
  moreover have "seg = \<lparr>seg_number = seg_number seg, seg_messages = ?ms, seg_size = length (log_bytes ?ms),
      seg_last_timestamp_ms = seg_last_timestamp_ms seg\<rparr>"
    using seg by (simp add: seg_ok_def)
  ultimately show ?thesis
    using io f by (auto simp: recover_segment_def recovers_def Let_def intro!: same_logs_update)
qed

lemma recover_segments_ok:
  assumes "recovers io" and "\<forall>seg \<in> set segs. seg_ok dir seg"
    and "contiguous (pt_next_offset p) (concat (map seg_messages segs))"
    and "\<forall>m \<in> set (concat (map seg_messages segs)). fits m"
  shows "\<exists>dir'. recover_segments io config (map seg_number segs) dir p =
      (dir', p\<lparr>pt_segments := pt_segments p @ segs,
               pt_next_offset := pt_next_offset p + of_nat (length (concat (map seg_messages segs)))\<rparr>, Inr ()) \<and>
    same_logs dir dir'"
  using assms(2-)
proof (induction segs arbitrary: dir p)
  case Nil
  then show ?case by simp
next
  case (Cons seg segs)
  have "contiguous (pt_next_offset p) (seg_messages seg)" "\<forall>m \<in> set (seg_messages seg). fits m" "seg_ok dir seg"
    using Cons.prems by (simp_all add: contiguous_append)
  from recover_segment_ok [OF assms(1) this(3,1,2), of config] obtain dir1
    where first: "recover_segment io config (seg_number seg) dir p =
      (dir1, p\<lparr>pt_segments := pt_segments p @ [seg],
               pt_next_offset := pt_next_offset p + of_nat (length (seg_messages seg))\<rparr>, Inr ())"
      and same: "same_logs dir dir1" by blast
  let ?p1 = "p\<lparr>pt_segments := pt_segments p @ [seg],
               pt_next_offset := pt_next_offset p + of_nat (length (seg_messages seg))\<rparr>"
  have "\<forall>seg \<in> set segs. seg_ok dir1 seg" using Cons.prems(1) same by (auto intro: seg_ok_same_logs)
  from Cons.IH [of dir1 ?p1, OF this] Cons.prems(2,3) obtain dir2
    where rest: "recover_segments io config (map seg_number segs) dir1 ?p1 =
      (dir2, ?p1\<lparr>pt_segments := pt_segments ?p1 @ segs,
               pt_next_offset := pt_next_offset ?p1 + of_nat (length (concat (map seg_messages segs)))\<rparr>, Inr ())"
      and same2: "same_logs dir1 dir2"
    by (auto simp: contiguous_append)
  with first same_logs_trans [OF same same2] show ?case by (simp add: add.assoc)
qed

lemma sorted_segment_numbers:
  assumes "part_ok dir base p"
  shows "sort (map fst dir) = map seg_number (pt_segments p)"
proof (rule sorted_distinct_set_unique)
  show "distinct (sort (map fst dir))" "sorted (sort (map fst dir))"
    using assms by (simp_all add: part_ok_def umap_ok_def)
  show "sorted (map seg_number (pt_segments p))" "distinct (map seg_number (pt_segments p))"
    using assms by (auto simp: part_ok_def strict_sorted_iff)
  show "set (sort (map fst dir)) = set (map seg_number (pt_segments p))"
    using assms by (simp add: part_ok_def)
qed

lemma Recover_ok:
  assumes io: "recovers io" and ok: "part_ok dir 0 p"
  shows "\<exists>dir'. Recover io config dir (new_Partition t) =
      (dir', \<lparr>pt_segments = pt_segments p, pt_next_offset = pt_next_offset p, pt_last_sync = t\<rparr>, Inr ()) \<and>
    same_logs dir dir'"
proof -
  have "\<exists>dir'. recover_segments io config (map seg_number (pt_segments p)) dir (new_Partition t) =
      (dir', (new_Partition t)\<lparr>pt_segments := pt_segments (new_Partition t) @ pt_segments p,
         pt_next_offset := pt_next_offset (new_Partition t) + of_nat (length (concat (map seg_messages (pt_segments p))))\<rparr>, Inr ()) \<and>
      same_logs dir dir'"
    using ok io by (intro recover_segments_ok) (auto simp: part_ok_def new_Partition_def partition_messages_def)
  moreover have "pt_segments p \<noteq> []" "pt_next_offset p = of_nat (length (concat (map seg_messages (pt_segments p))))"
    using ok by (simp_all add: part_ok_def partition_messages_def)
  ultimately show ?thesis
    by (simp add: Recover_def sorted_segment_numbers [OF ok] new_Partition_def)
qed

text \<open>A directory without segments gives a partition with one empty segment.\<close>

lemma Recover_empty:
  "recovers io \<Longrightarrow> \<exists>dir'. Recover io config [] (new_Partition t) =
     (dir', \<lparr>pt_segments = [\<lparr>seg_number = 0, seg_messages = [], seg_size = 0, seg_last_timestamp_ms = 0\<rparr>],
             pt_next_offset = 0, pt_last_sync = t\<rparr>, Inr ()) \<and>
     part_ok dir' 0 \<lparr>pt_segments = [\<lparr>seg_number = 0, seg_messages = [], seg_size = 0, seg_last_timestamp_ms = 0\<rparr>],
             pt_next_offset = 0, pt_last_sync = t\<rparr>"
  by (simp add: Recover_def recover_segment_def recovers_def new_Partition_def Let_def recover_scan.simps
      scan_start_def part_ok_def seg_ok_def partition_messages_def)

section \<open>Reading\<close>

definition total_size :: "Message list \<Rightarrow> nat" where
  "total_size ms = sum_list (map message_bytes ms)"

lemma total_size_simps [simp]:
  "total_size [] = 0" "total_size (m # ms) = message_bytes m + total_size ms"
  "total_size (ms @ ms') = total_size ms + total_size ms'"
  by (simp_all add: total_size_def)

lemma read_loop_prefix:
  assumes "total_size acc \<le> max_bytes"
  shows "\<exists>k \<le> length (filter (\<lambda>m. start \<le> msg_offset m) ms).
    read_loop start max_bytes ms (total_size acc) acc = acc @ take k (filter (\<lambda>m. start \<le> msg_offset m) ms) \<and>
    total_size (acc @ take k (filter (\<lambda>m. start \<le> msg_offset m) ms)) \<le> max_bytes \<and>
    (k < length (filter (\<lambda>m. start \<le> msg_offset m) ms) \<longrightarrow>
       max_bytes < total_size (acc @ take (Suc k) (filter (\<lambda>m. start \<le> msg_offset m) ms)))"
  using assms
proof (induction ms arbitrary: acc)
  case Nil
  then show ?case by simp
next
  case (Cons m ms)
  let ?f = "filter (\<lambda>m. start \<le> msg_offset m)"
  show ?case
  proof (cases "msg_offset m < start")
    case True
    then have "?f (m # ms) = ?f ms" by (simp add: not_le)
    then show ?thesis using Cons.IH [OF Cons.prems] True by (simp only: read_loop.simps if_True)
  next
    case ge: False
    then have f: "?f (m # ms) = m # ?f ms" by simp
    show ?thesis
    proof (cases "total_size acc + message_bytes m \<le> max_bytes")
      case True
      then have acc': "total_size (acc @ [m]) \<le> max_bytes" by simp
      have step: "read_loop start max_bytes (m # ms) (total_size acc) acc =
          read_loop start max_bytes ms (total_size (acc @ [m])) (acc @ [m])"
        using ge True by (simp add: Let_def)
      from Cons.IH [OF acc'] obtain k where "k \<le> length (?f ms)"
        and "read_loop start max_bytes ms (total_size (acc @ [m])) (acc @ [m]) = (acc @ [m]) @ take k (?f ms)"
        and "total_size ((acc @ [m]) @ take k (?f ms)) \<le> max_bytes"
        and "k < length (?f ms) \<longrightarrow> max_bytes < total_size ((acc @ [m]) @ take (Suc k) (?f ms))" by blast
      then show ?thesis unfolding f step by (intro exI [of _ "Suc k"]) (simp add: add.assoc)
    next
      case False
      then have "read_loop start max_bytes (m # ms) (total_size acc) acc = acc"
        using ge by (auto simp: Let_def)
      then show ?thesis unfolding f using False Cons.prems by (intro exI [of _ 0]) simp
    qed
  qed
qed

section \<open>Retention\<close>

lemma cleanup_loop_spec:
  assumes "cleanup_loop io config total_bytes dir segs = (dir', segs', Inr ())" and "segs \<noteq> []"
    and "total_bytes = sum_list (map seg_size segs)"
  shows "\<exists>k < length segs. segs' = drop k segs \<and> dir' = foldl (\<lambda>d seg. AList.delete (seg_number seg) d) dir (take k segs) \<and>
    (\<forall>i < k. segment_expired config (st_now_ms io) (segs ! i) \<or> oversized config (sum_list (map seg_size (drop i segs)))) \<and>
    (length segs' = 1 \<or> \<not> segment_expired config (st_now_ms io) (hd segs') \<and> \<not> oversized config (sum_list (map seg_size segs')))"
  using assms
proof (induction io config total_bytes dir segs rule: cleanup_loop.induct)
  case (1 io config total_bytes dir oldest nxt rest)
  show ?case
  proof (cases "\<not> segment_expired config (st_now_ms io) oldest \<and> \<not> oversized config total_bytes")
    case True
    with "1.prems" show ?thesis by (intro exI [of _ 0]) auto
  next
    case False
    then have nones: "st_remove_log io (seg_number oldest) = None" "st_remove_index io (seg_number oldest) = None"
      and rec: "cleanup_loop io config (total_bytes - seg_size oldest) (AList.delete (seg_number oldest) dir) (nxt # rest) =
        (dir', segs', Inr ())"
      using "1.prems"(1) by (auto split: option.splits)
    have "total_bytes - seg_size oldest = sum_list (map seg_size (nxt # rest))" using "1.prems"(3) by simp
    from "1.IH" [OF False nones rec _ this] obtain k where k: "k < length (nxt # rest)" "segs' = drop k (nxt # rest)"
      "dir' = foldl (\<lambda>d seg. AList.delete (seg_number seg) d) (AList.delete (seg_number oldest) dir) (take k (nxt # rest))"
      "\<forall>i < k. segment_expired config (st_now_ms io) ((nxt # rest) ! i) \<or>
         oversized config (sum_list (map seg_size (drop i (nxt # rest))))"
      "length segs' = 1 \<or> \<not> segment_expired config (st_now_ms io) (hd segs') \<and> \<not> oversized config (sum_list (map seg_size segs'))"
      by blast
    have "segment_expired config (st_now_ms io) ((oldest # nxt # rest) ! i) \<or>
        oversized config (sum_list (map seg_size (drop i (oldest # nxt # rest))))" if "i < Suc k" for i
      using that k(4) False "1.prems"(3) by (cases i) auto
    with k show ?thesis by (intro exI [of _ "Suc k"]) simp
  qed
qed auto

lemma deletes_map_of:
  "map_of (foldl (\<lambda>d seg. AList.delete (seg_number seg) d) dir segs) =
     (\<lambda>n. if n \<in> seg_number ` set segs then None else map_of dir n)"
  by (induction segs arbitrary: dir) auto

lemma deletes_ok: "umap_ok dir \<Longrightarrow> umap_ok (foldl (\<lambda>d seg. AList.delete (seg_number seg) d) dir segs)"
  by (induction segs arbitrary: dir) auto

lemma drop_segments_ok:
  assumes ok: "part_ok dir base p" and k: "k < length (pt_segments p)"
    and dir': "dir' = foldl (\<lambda>d seg. AList.delete (seg_number seg) d) dir (take k (pt_segments p))"
  shows "part_ok dir' (base + of_nat (length (concat (map seg_messages (take k (pt_segments p))))))
      (p\<lparr>pt_segments := drop k (pt_segments p)\<rparr>) \<and>
    partition_messages p = concat (map seg_messages (take k (pt_segments p))) @
      partition_messages (p\<lparr>pt_segments := drop k (pt_segments p)\<rparr>)"
proof -
  let ?segs = "pt_segments p"
  let ?gone = "take k ?segs" and ?kept = "drop k ?segs"
  have split: "?segs = ?gone @ ?kept" by simp
  have msgs: "partition_messages p = concat (map seg_messages ?gone) @ partition_messages (p\<lparr>pt_segments := ?kept\<rparr>)"
    unfolding partition_messages_def by (subst split) (simp del: append_take_drop_id)
  have sorted: "sorted_wrt (<) (map seg_number ?gone @ map seg_number ?kept)"
    using ok unfolding map_append [symmetric] append_take_drop_id by (simp add: part_ok_def)
  then have apart: "seg_number g < seg_number s" if "g \<in> set ?gone" "s \<in> set ?kept" for g s
    using that by (auto simp: sorted_wrt_append)
  have dirs: "fst ` set dir' = seg_number ` set ?kept"
  proof -
    have "fst ` set dir' = fst ` set dir - seg_number ` set ?gone"
      unfolding dom_map_of_conv_image_fst [symmetric] dir' deletes_map_of by (auto simp: dom_def)
    also have "fst ` set dir = seg_number ` (set ?gone \<union> set ?kept)"
      using ok unfolding set_append [symmetric] append_take_drop_id by (simp add: part_ok_def)
    also have "\<dots> - seg_number ` set ?gone = seg_number ` set ?kept"
    proof -
      have "seg_number ` set ?gone \<inter> seg_number ` set ?kept = {}" using apart by (auto dest!: less_imp_neq)
      then show ?thesis by (simp only: image_Un) blast
    qed
    finally show ?thesis .
  qed
  have "seg_ok dir' seg" if "seg \<in> set ?kept" for seg
  proof -
    have "seg_number seg \<notin> seg_number ` set ?gone" using apart that by fastforce
    moreover have "seg_ok dir seg" using ok that by (auto simp: part_ok_def dest: in_set_dropD)
    ultimately show ?thesis by (simp add: seg_ok_def dir' deletes_map_of)
  qed
  moreover have "umap_ok dir'" using ok by (simp add: part_ok_def dir' deletes_ok)
  moreover have "sorted_wrt (<) (map seg_number ?kept)" using sorted by (simp add: sorted_wrt_append)
  moreover have "?kept \<noteq> []" using k by simp
  ultimately show ?thesis
    using ok dirs msgs by (auto simp: part_ok_def contiguous_append add.assoc)
qed

lemma cleanup_partition_spec:
  assumes ok: "part_ok dir base p" and clean: "cleanup_partition io config dir p = (dir', p', Inr ())"
  shows "\<exists>k < length (pt_segments p). p' = p\<lparr>pt_segments := drop k (pt_segments p)\<rparr> \<and>
    dir' = foldl (\<lambda>d seg. AList.delete (seg_number seg) d) dir (take k (pt_segments p)) \<and>
    (\<forall>i < k. segment_expired config (st_now_ms io) (pt_segments p ! i) \<or>
       oversized config (sum_list (map seg_size (drop i (pt_segments p))))) \<and>
    (length (pt_segments p') = 1 \<or>
     \<not> segment_expired config (st_now_ms io) (hd (pt_segments p')) \<and> \<not> oversized config (sum_list (map seg_size (pt_segments p'))))"
proof -
  obtain d segs r where loop: "cleanup_loop io config (sum_list (map seg_size (pt_segments p))) dir (pt_segments p) = (d, segs, r)"
    by (metis prod_cases3)
  with clean have eqs: "d = dir'" "r = Inr ()" "p' = p\<lparr>pt_segments := segs\<rparr>" by (auto simp: cleanup_partition_def)
  have ne: "pt_segments p \<noteq> []" using ok by (simp add: part_ok_def)
  from cleanup_loop_spec [OF loop [unfolded eqs(1,2)] ne refl] eqs(3) show ?thesis by auto
qed

section \<open>What a restart loses\<close>

lemma recover_turn_other_offset:
  "fits m \<Longrightarrow> msg_offset m \<noteq> n \<Longrightarrow> recover_turn n (wal_record m @ rest) = Some Stop"
  by (simp add: recover_turn_record)

lemma recover_segments_lost:
  assumes "recovers io" and "\<forall>seg \<in> set segs. seg_ok dir seg" and "distinct (map seg_number segs)"
    and "\<forall>m \<in> set (concat (map seg_messages segs)). fits m \<and> msg_offset m \<noteq> pt_next_offset p"
  shows "\<exists>dir'. recover_segments io config (map seg_number segs) dir p =
      (dir', p\<lparr>pt_segments := pt_segments p @ map (\<lambda>seg. \<lparr>seg_number = seg_number seg, seg_messages = [], seg_size = 0,
         seg_last_timestamp_ms = 0\<rparr>) segs\<rparr>, Inr ()) \<and>
    (\<forall>n. map_option sf_log (map_of dir' n) =
       (if n \<in> seg_number ` set segs then Some [] else map_option sf_log (map_of dir n)))"
  using assms(2-)
proof (induction segs arbitrary: dir p)
  case Nil
  then show ?case by simp
next
  case (Cons seg segs)
  let ?empty = "\<lparr>seg_number = seg_number seg, seg_messages = [], seg_size = 0, seg_last_timestamp_ms = 0\<rparr>"
  let ?p1 = "p\<lparr>pt_segments := pt_segments p @ [?empty]\<rparr>"
  from Cons.prems(1) obtain f where f: "map_of dir (seg_number seg) = Some f" "sf_log f = log_bytes (seg_messages seg)"
    by (auto simp: seg_ok_def)
  have "recover_turn (pt_next_offset p) (sf_log f) = Some Stop"
    using Cons.prems(3) f(2) by (cases "seg_messages seg") (auto simp: recover_turn_other_offset)
  then have "recover_scan k (sf_log f) (scan_start (pt_next_offset p)) = Some (scan_start (pt_next_offset p))" for k
    by (simp add: recover_scan.simps [of k "sf_log f"] scan_start_def)
  then obtain g where first: "recover_segment io config (seg_number seg) dir p = (AList.update (seg_number seg) g dir, ?p1, Inr ())"
    and g: "sf_log g = []"
    using assms(1) f by (auto simp: recover_segment_def recovers_def Let_def scan_start_def)
  have "\<forall>s \<in> set segs. seg_ok (AList.update (seg_number seg) g dir) s"
  proof
    fix t assume t: "t \<in> set segs"
    then have "seg_number t \<noteq> seg_number seg" using Cons.prems(2) by (metis distinct.simps(2) image_eqI list.map(2) list.set_map)
    with t Cons.prems(1) show "seg_ok (AList.update (seg_number seg) g dir) t" by (intro seg_ok_other) simp_all
  qed
  from Cons.IH [OF this, of ?p1] Cons.prems obtain dir'
    where rest: "recover_segments io config (map seg_number segs) (AList.update (seg_number seg) g dir) ?p1 =
      (dir', ?p1\<lparr>pt_segments := pt_segments ?p1 @ map (\<lambda>seg. \<lparr>seg_number = seg_number seg, seg_messages = [], seg_size = 0,
         seg_last_timestamp_ms = 0\<rparr>) segs\<rparr>, Inr ())"
      and logs: "\<forall>n. map_option sf_log (map_of dir' n) = (if n \<in> seg_number ` set segs then Some []
         else map_option sf_log (map_of (AList.update (seg_number seg) g dir) n))" by auto
  show ?case using first rest logs g by auto
qed

section \<open>The engine\<close>

text \<open>
  \<open>disk_ok\<close>: a directory that a restart can rebuild in full. \<open>engine_ok\<close>: every opened partition agrees
  with its directory, and every directory can be rebuilt.
\<close>

definition disk_ok :: "part_dir \<Rightarrow> bool" where
  "disk_ok dir \<longleftrightarrow> dir = [] \<or> (\<exists>p. part_ok dir 0 p)"

definition engine_ok :: "engine \<Rightarrow> bool" where
  "engine_ok e \<longleftrightarrow> (\<forall>topic part.
     (case map_of (se_partitions e) (topic, part) of
        None \<Rightarrow> disk_ok (disk_dir e topic part)
      | Some p \<Rightarrow> part_ok (disk_dir e topic part) 0 p))"

text \<open>The messages of a partition: those in memory, or those a restart finds on disk.\<close>

definition stored :: "engine \<Rightarrow> bytes \<times> u32 \<Rightarrow> Message list" where
  "stored e = (\<lambda>(topic, part).
     case GetPartition (good_io 0 0) e topic part of (_, Inr p) \<Rightarrow> partition_messages p | (_, Inl _) \<Rightarrow> [])"

definition opens :: "storage_io \<Rightarrow> bool" where
  "opens io \<longleftrightarrow> recovers io \<and> st_dir io = None \<and> st_root io = None"

lemma opens_good [simp]: "opens (good_io now steady)" "whole_writes (good_io now steady)"
  by (simp_all add: opens_def recovers_def whole_writes_def good_io_def)

lemma disk_dir_put:
  "disk_dir (put_partition e topic part dir p) topic' part' =
     (if (topic', part') = (topic, part) then dir else disk_dir e topic' part')"
  by (auto simp: disk_dir_def put_partition_def dir_key_inject)

lemma put_partition_frame [simp]:
  "map_of (se_partitions (put_partition e topic part dir p)) = (map_of (se_partitions e))((topic, part) \<mapsto> p)"
  "se_config (put_partition e topic part dir p) = se_config e" "se_opened (put_partition e topic part dir p) = se_opened e"
  by (simp_all add: put_partition_def)

lemma engine_ok_closed:
  assumes "engine_ok e" and "map_of (se_partitions e) (topic, part) = None"
  shows "disk_ok (disk_dir e topic part)"
proof -
  have "case map_of (se_partitions e) (topic, part) of
      None \<Rightarrow> disk_ok (disk_dir e topic part) | Some p \<Rightarrow> part_ok (disk_dir e topic part) 0 p"
    using assms(1) unfolding engine_ok_def by blast
  with assms(2) show ?thesis by simp
qed

lemma engine_ok_open:
  assumes "engine_ok e" and "map_of (se_partitions e) (topic, part) = Some p"
  shows "part_ok (disk_dir e topic part) 0 p"
proof -
  have "case map_of (se_partitions e) (topic, part) of
      None \<Rightarrow> disk_ok (disk_dir e topic part) | Some p \<Rightarrow> part_ok (disk_dir e topic part) 0 p"
    using assms(1) unfolding engine_ok_def by blast
  with assms(2) show ?thesis by simp
qed

lemma engine_okI:
  assumes "\<And>topic part. map_of (se_partitions e) (topic, part) = None \<Longrightarrow> disk_ok (disk_dir e topic part)"
    and "\<And>topic part p. map_of (se_partitions e) (topic, part) = Some p \<Longrightarrow> part_ok (disk_dir e topic part) 0 p"
  shows "engine_ok e"
  unfolding engine_ok_def using assms by (auto split: option.split)

text \<open>Opening a partition that is not in memory: the state is the old one with that partition put in.\<close>

lemma GetPartition_new:
  assumes ok: "engine_ok e" and io: "opens io" and new: "map_of (se_partitions e) (topic, part) = None"
  shows "\<exists>dir p dir0 q. GetPartition io e topic part = (put_partition e topic part dir p, Inr p) \<and> part_ok dir 0 p \<and>
    Recover (good_io 0 0) (se_config e) (disk_dir e topic part) (new_Partition 0) = (dir0, q, Inr ()) \<and>
    partition_messages q = partition_messages p"
proof -
  have rec: "recovers io" "recovers (good_io 0 0)" using io by (simp_all add: opens_def recovers_def good_io_def)
  have "\<exists>dir p dir0. Recover io (se_config e) (disk_dir e topic part) (new_Partition (st_steady_ms io)) = (dir, p, Inr ()) \<and>
      part_ok dir 0 p \<and> Recover (good_io 0 0) (se_config e) (disk_dir e topic part) (new_Partition 0) =
        (dir0, p\<lparr>pt_last_sync := 0\<rparr>, Inr ())"
  proof (cases "disk_dir e topic part = []")
    case True
    then show ?thesis
      using Recover_empty [OF rec(1), of "se_config e" "st_steady_ms io"] Recover_empty [OF rec(2), of "se_config e" 0] by auto
  next
    case False
    with engine_ok_closed [OF ok new] obtain q where q: "part_ok (disk_dir e topic part) 0 q"
      by (auto simp: disk_ok_def)
    let ?p = "\<lparr>pt_segments = pt_segments q, pt_next_offset = pt_next_offset q, pt_last_sync = st_steady_ms io\<rparr>"
    obtain dir dir0
      where r: "Recover io (se_config e) (disk_dir e topic part) (new_Partition (st_steady_ms io)) = (dir, ?p, Inr ())"
        and same: "same_logs (disk_dir e topic part) dir"
        and r0: "Recover (good_io 0 0) (se_config e) (disk_dir e topic part) (new_Partition 0) =
          (dir0, ?p\<lparr>pt_last_sync := 0\<rparr>, Inr ())"
      using Recover_ok [OF rec(1) q, of "se_config e" "st_steady_ms io"] Recover_ok [OF rec(2) q, of "se_config e" 0]
      by (simp only: Partition.simps) blast
    have "part_ok dir 0 q" using same q by (rule part_ok_same_logs)
    then have "part_ok dir 0 ?p" by (subst part_ok_cong [of _ q]) simp_all
    with r r0 show ?thesis by blast
  qed
  then obtain dir p dir0 where r: "Recover io (se_config e) (disk_dir e topic part) (new_Partition (st_steady_ms io)) = (dir, p, Inr ())"
    and p: "part_ok dir 0 p"
    and r0: "Recover (good_io 0 0) (se_config e) (disk_dir e topic part) (new_Partition 0) = (dir0, p\<lparr>pt_last_sync := 0\<rparr>, Inr ())"
    by blast
  have "GetPartition io e topic part = (put_partition e topic part dir p, Inr p)"
    using new io r by (simp add: GetPartition_def opens_def Let_def put_partition_def)
  moreover have "partition_messages (p\<lparr>pt_last_sync := 0\<rparr>) = partition_messages p"
    by (simp add: partition_messages_def)
  ultimately show ?thesis using p r0 by blast
qed

lemma stored_open: "map_of (se_partitions e) (topic, part) = Some p \<Longrightarrow> stored e (topic, part) = partition_messages p"
  by (simp add: stored_def GetPartition_def)

lemma stored_frame:
  "map_of (se_partitions e') k = map_of (se_partitions e) k \<Longrightarrow> disk_dir e' (fst k) (snd k) = disk_dir e (fst k) (snd k) \<Longrightarrow>
     se_config e' = se_config e \<Longrightarrow> stored e' k = stored e k"
  by (cases k) (auto simp: stored_def GetPartition_def Let_def split: option.splits prod.splits sum.splits)

lemma engine_ok_put: "engine_ok e \<Longrightarrow> part_ok dir 0 p \<Longrightarrow> engine_ok (put_partition e topic part dir p)"
  by (rule engine_okI) (auto simp: disk_dir_put engine_ok_closed engine_ok_open split: if_splits)

lemma stored_put:
  "stored (put_partition e topic part dir p) = (stored e)((topic, part) := partition_messages p)"
proof
  fix k
  show "stored (put_partition e topic part dir p) k = ((stored e)((topic, part) := partition_messages p)) k"
  proof (cases "k = (topic, part)")
    case True
    then show ?thesis by (simp add: stored_open)
  next
    case False
    then have "stored (put_partition e topic part dir p) k = stored e k"
      by (intro stored_frame) (auto simp: disk_dir_put)
    with False show ?thesis by simp
  qed
qed

lemma GetPartition_ok:
  assumes ok: "engine_ok e" and io: "opens io"
  shows "\<exists>e' p. GetPartition io e topic part = (e', Inr p) \<and> engine_ok e' \<and> stored e' = stored e \<and>
    map_of (se_partitions e') (topic, part) = Some p \<and> stored e (topic, part) = partition_messages p \<and>
    se_config e' = se_config e \<and> se_opened e' = se_opened e"
proof (cases "map_of (se_partitions e) (topic, part)")
  case (Some p)
  then show ?thesis using ok by (simp add: GetPartition_def stored_open)
next
  case None
  from GetPartition_new [OF ok io None] obtain dir p dir0 q
    where get: "GetPartition io e topic part = (put_partition e topic part dir p, Inr p)" and p: "part_ok dir 0 p"
      and rec: "Recover (good_io 0 0) (se_config e) (disk_dir e topic part) (new_Partition 0) = (dir0, q, Inr ())"
        "partition_messages q = partition_messages p" by blast
  from rec have msgs: "stored e (topic, part) = partition_messages p"
    using None by (auto simp: stored_def GetPartition_def Let_def good_io_def split: prod.splits sum.splits)
  then have "stored (put_partition e topic part dir p) = stored e" by (simp add: stored_put fun_upd_idem)
  with get p msgs engine_ok_put [OF ok p] show ?thesis by simp
qed

lemma Open_ok: "opens io \<Longrightarrow> Open io e = (e\<lparr>se_opened := True\<rparr>, Inr ())"
  by (simp add: Open_def opens_def)

lemma disk_dir_opened [simp]: "disk_dir (e\<lparr>se_opened := b\<rparr>) = disk_dir e"
  by (intro ext) (simp add: disk_dir_def)

lemma stored_opened [simp]: "stored (e\<lparr>se_opened := b\<rparr>) = stored e"
  by (rule ext, rule stored_frame) (simp_all add: disk_dir_def)

lemma engine_ok_opened [simp]: "engine_ok (e\<lparr>se_opened := b\<rparr>) = engine_ok e"
  unfolding engine_ok_def disk_dir_opened by simp

text \<open>What an append does to an engine in good order; the only errors left are a segment that cannot be
  created and an fsync that fails, and after the latter the message is in the log.\<close>

lemma append_to_engine:
  assumes ok: "engine_ok e" and io: "opens io" "whole_writes io"
    and get: "GetPartition io e topic part = (e2, Inr p)" and m: "fits m" "msg_offset m = pt_next_offset p"
    and app: "append_message io (se_config e2) (disk_dir e2 topic part) p m = (dir, p', r)"
  shows "engine_ok (put_partition e2 topic part dir p') \<and>
    (r = Inl ''cannot create WAL segment'' \<and> stored (put_partition e2 topic part dir p') = stored e \<or>
     (r = Inr () \<or> r = Inl ''WAL fsync failed'') \<and>
       stored (put_partition e2 topic part dir p') = (stored e)((topic, part) := stored e (topic, part) @ [m])) \<and>
    pt_next_offset p = of_nat (length (stored e (topic, part)))"
proof -
  from GetPartition_ok [OF ok io(1), of topic part] get
  have e2: "engine_ok e2" "stored e2 = stored e" "map_of (se_partitions e2) (topic, part) = Some p"
    "stored e (topic, part) = partition_messages p"
    by auto
  have p: "part_ok (disk_dir e2 topic part) 0 p" using engine_ok_open [OF e2(1,3)] .
  note app_ok = append_message_ok [OF p io(2) m app]
  have next_eq: "pt_next_offset p = of_nat (length (stored e (topic, part)))" using p e2(4) by (simp add: part_ok_def)
  show ?thesis
    using app_ok engine_ok_put [OF e2(1), of dir p' topic part] e2 next_eq by (auto simp: stored_put fun_upd_idem)
qed

lemma Append_ok:
  assumes ok: "engine_ok e" and io: "opens io" "whole_writes io" and app: "Append io e topic part key val = (e', r)"
  shows "engine_ok e' \<and>
    (case r of
       Inr m \<Rightarrow> IsValidTopicName topic \<and> message_fits key val \<and>
         m = \<lparr>msg_offset = of_nat (length (stored e (topic, part))), msg_timestamp_ms = st_now_ms io, msg_key = key, msg_value = val\<rparr> \<and>
         stored e' = (stored e)((topic, part) := stored e (topic, part) @ [m])
     | Inl err \<Rightarrow>
         (err = ''invalid message'' \<and> \<not> (IsValidTopicName topic \<and> message_fits key val) \<or>
          err = ''cannot create WAL segment'') \<and> stored e' = stored e \<or>
         err = ''WAL fsync failed'' \<and>
           (\<exists>m. stored e' = (stored e)((topic, part) := stored e (topic, part) @ [m])))"
proof (cases "IsValidTopicName topic \<and> message_fits key val")
  case False
  then show ?thesis using app ok by (auto simp: Append_def message_fits_def not_less split: if_splits)
next
  case valid: True
  let ?e1 = "e\<lparr>se_opened := True\<rparr>"
  obtain e2 p where get: "GetPartition io ?e1 topic part = (e2, Inr p)"
    using GetPartition_ok [of ?e1 io topic part] ok io by auto
  define m where "m = \<lparr>msg_offset = pt_next_offset p, msg_timestamp_ms = st_now_ms io, msg_key = key, msg_value = val\<rparr>"
  obtain dir p' r' where am: "append_message io (se_config e2) (disk_dir e2 topic part) p m = (dir, p', r')"
    by (metis prod_cases3)
  have fits: "fits m" "msg_offset m = pt_next_offset p" using valid by (simp_all add: m_def fits_def)
  from ok have "engine_ok ?e1" by simp
  note appended = append_to_engine [OF this io get fits am]
  have "e' = put_partition e2 topic part dir p'" "r = (case r' of Inl err \<Rightarrow> Inl err | Inr _ \<Rightarrow> Inr m)"
    using app valid get am Open_ok [OF io(1), of e] unfolding m_def
    by (auto simp: Append_def message_fits_def Let_def split: sum.splits)
  with appended valid show ?thesis by (auto simp: m_def split: sum.split)
qed

lemma AppendReplica_ok:
  assumes ok: "engine_ok e" and io: "opens io" "whole_writes io" and app: "AppendReplica io e topic part m = (e', r)"
  shows "engine_ok e' \<and>
    (if \<not> IsValidTopicName topic \<or> \<not> fits m then r = Inl ''invalid message'' \<and> stored e' = stored e
     else if msg_offset m \<noteq> of_nat (length (stored e (topic, part))) then r = Inl ''replica offset gap'' \<and> stored e' = stored e
     else r = Inl ''cannot create WAL segment'' \<and> stored e' = stored e \<or>
       (r = Inr () \<or> r = Inl ''WAL fsync failed'') \<and> stored e' = (stored e)((topic, part) := stored e (topic, part) @ [m]))"
proof (cases "IsValidTopicName topic \<and> fits m")
  case False
  then show ?thesis using app ok by (auto simp: AppendReplica_def fits_def message_fits_def not_less split: if_splits)
next
  case valid: True
  let ?e1 = "e\<lparr>se_opened := True\<rparr>"
  have e1: "engine_ok ?e1" using ok by simp
  from GetPartition_ok [OF e1 io(1), of topic part] obtain e2 p where get: "GetPartition io ?e1 topic part = (e2, Inr p)"
    and e2: "engine_ok e2" "stored e2 = stored e" "map_of (se_partitions e2) (topic, part) = Some p"
      "stored e (topic, part) = partition_messages p"
    by auto
  have next_eq: "pt_next_offset p = of_nat (length (stored e (topic, part)))"
    using engine_ok_open [OF e2(1,3)] e2(4) by (simp add: part_ok_def)
  have valid': "\<not> (\<not> IsValidTopicName topic \<or> 65535 < length (msg_key m) \<or> msg_value m = [] \<or>
      kMaxMessageBytes < length (msg_value m))"
    using valid by (simp add: fits_def message_fits_def)
  show ?thesis
  proof (cases "msg_offset m = pt_next_offset p")
    case False
    then show ?thesis
      using app valid valid' get e2 next_eq Open_ok [OF io(1), of e] by (auto simp: AppendReplica_def)
  next
    case True
    obtain dir p' r' where am: "append_message io (se_config e2) (disk_dir e2 topic part) p m = (dir, p', r')"
      by (metis prod_cases3)
    have eqs: "e' = put_partition e2 topic part dir p'" "r = r'"
      using app valid' get True am Open_ok [OF io(1), of e] by (simp_all add: AppendReplica_def)
    from append_to_engine [OF e1 io get _ True am] valid True next_eq show ?thesis unfolding eqs by auto
  qed
qed

definition restart :: "engine \<Rightarrow> engine" where
  "restart e = new_engine (se_config e) (se_disk e)"

lemma part_ok_disk_ok: "part_ok dir 0 p \<Longrightarrow> disk_ok dir"
  by (auto simp: disk_ok_def)

lemma restart_frame: "disk_dir (restart e) = disk_dir e" "se_partitions (restart e) = []"
  by (auto simp: restart_def new_engine_def disk_dir_def fun_eq_iff)

lemma restart_ok: "engine_ok e \<Longrightarrow> engine_ok (restart e)"
proof (rule engine_okI)
  fix topic part
  assume ok: "engine_ok e"
  show "disk_ok (disk_dir (restart e) topic part)"
    unfolding restart_frame using engine_ok_closed [OF ok, of topic part] engine_ok_open [OF ok, of topic part]
    by (cases "map_of (se_partitions e) (topic, part)") (auto dest: part_ok_disk_ok)
qed (simp add: restart_frame)

lemma Recover_config:
  "part_ok dir 0 p \<Longrightarrow> \<exists>dir'. Recover (good_io 0 0) config dir (new_Partition 0) = (dir', p\<lparr>pt_last_sync := 0\<rparr>, Inr ())"
  using Recover_ok [of "good_io 0 0" dir p config 0] by (cases p) (auto simp: recovers_def good_io_def)

lemma stored_closed:
  assumes new: "map_of (se_partitions e) (topic, part) = None"
  shows "part_ok (disk_dir e topic part) 0 p \<Longrightarrow> stored e (topic, part) = partition_messages p"
    and "disk_dir e topic part = [] \<Longrightarrow> stored e (topic, part) = []"
proof -
  show "stored e (topic, part) = partition_messages p" if "part_ok (disk_dir e topic part) 0 p"
    using Recover_config [OF that, of "se_config e"] new
    by (auto simp: stored_def GetPartition_def Let_def good_io_def partition_messages_def)
  show "stored e (topic, part) = []" if "disk_dir e topic part = []"
    using Recover_empty [of "good_io 0 0" "se_config e" 0] new that
    by (auto simp: stored_def GetPartition_def Let_def good_io_def recovers_def partition_messages_def)
qed

lemma stored_restart:
  assumes ok: "engine_ok e"
  shows "stored (restart e) = stored e"
proof
  fix k :: "bytes \<times> u32"
  obtain topic part where k: "k = (topic, part)" by (cases k)
  have closed: "map_of (se_partitions (restart e)) (topic, part) = None" by (simp add: restart_frame)
  show "stored (restart e) k = stored e k"
  proof (cases "map_of (se_partitions e) (topic, part)")
    case (Some p)
    then show ?thesis
      using stored_closed(1) [OF closed, of p] engine_ok_open [OF ok Some] by (simp add: k stored_open restart_frame)
  next
    case None
    then consider "disk_dir e topic part = []" | p where "part_ok (disk_dir e topic part) 0 p"
      using engine_ok_closed [OF ok None] by (auto simp: disk_ok_def)
    then show ?thesis
      using stored_closed [OF closed] stored_closed [OF None] by cases (auto simp: k restart_frame)
  qed
qed

lemma Read_ok:
  assumes ok: "engine_ok e" and io: "opens io" and valid: "IsValidTopicName topic" "max_bytes \<noteq> 0"
  shows "\<exists>e'. engine_ok e' \<and> stored e' = stored e \<and> Read io e topic part start max_bytes =
    (e', if start > of_nat (length (stored e (topic, part))) then Inl ''invalid offset''
         else Inr (read_loop start (unat max_bytes) (stored e (topic, part)) 0 []))"
proof -
  from GetPartition_ok [OF ok io, of topic part] obtain e' p where get: "GetPartition io e topic part = (e', Inr p)"
    and e': "engine_ok e'" "stored e' = stored e" "map_of (se_partitions e') (topic, part) = Some p"
      "stored e (topic, part) = partition_messages p"
    by auto
  have "pt_next_offset p = of_nat (length (stored e (topic, part)))"
    using engine_ok_open [OF e'(1,3)] e'(4) by (simp add: part_ok_def)
  with get e' valid show ?thesis by (simp add: Read_def)
qed

lemma DeleteTopic_stored:
  assumes ok: "engine_ok e" and del: "StorageEngine_DeleteTopic io e topic = (e', Inr ())"
  shows "engine_ok e' \<and> stored e' = (\<lambda>(t, n). if t = topic then [] else stored e (t, n))"
proof -
  have parts: "map_of (se_partitions e') (t, n) = (if t = topic then None else map_of (se_partitions e) (t, n))" for t n
    using del by (auto simp: StorageEngine_DeleteTopic_def Let_def map_of_filter_key split: if_splits option.splits)
  have dirs: "disk_dir e' t n = (if t = topic then [] else disk_dir e t n)" for t n
    using del by (auto simp: StorageEngine_DeleteTopic_def Let_def disk_dir_def dir_key_def TopicCode_inject
        map_of_filter_key split: if_splits option.splits)
  have config: "se_config e' = se_config e"
    using del by (auto simp: StorageEngine_DeleteTopic_def Let_def split: if_splits option.splits)
  have "engine_ok e'"
    by (rule engine_okI) (auto simp: parts dirs disk_ok_def engine_ok_closed [OF ok, unfolded disk_ok_def]
        engine_ok_open [OF ok] split: if_splits)
  moreover have "stored e' (t, n) = (if t = topic then [] else stored e (t, n))" for t n
  proof (cases "t = topic")
    case True
    then show ?thesis using stored_closed(2) [of e' t n] by (simp add: parts dirs)
  next
    case False
    then show ?thesis using stored_frame [of e' "(t, n)" e] by (simp add: parts dirs config)
  qed
  ultimately show ?thesis by auto
qed

section \<open>Appending with an operating system that may refuse anything\<close>

text \<open>
  The lemmas above are about an operating system that opens every file. Here every call may fail: the
  directories, the opening of a segment, its truncation, the write, the flush, the fsync.
\<close>

lemma recover_segment_any:
  assumes seg: "seg_ok dir seg" and ms: "contiguous (pt_next_offset p) (seg_messages seg)" "\<forall>m \<in> set (seg_messages seg). fits m"
    and rec: "recover_segment io config (seg_number seg) dir p = (dir', p', r)"
  shows "same_logs dir dir' \<and>
    (r = Inr () \<longrightarrow> p' = p\<lparr>pt_segments := pt_segments p @ [seg],
       pt_next_offset := pt_next_offset p + of_nat (length (seg_messages seg))\<rparr>)"
proof (cases "st_open io (seg_number seg) \<and> st_resize io (seg_number seg) = None")
  case True
  let ?io = "good_io 0 0"
  have "recover_segment io config (seg_number seg) dir p = recover_segment ?io config (seg_number seg) dir p"
    using True by (simp add: recover_segment_def good_io_def Let_def)
  moreover have "recovers ?io" by (simp add: recovers_def good_io_def)
  ultimately show ?thesis using recover_segment_ok [OF _ seg ms, of ?io config] rec by auto
next
  case False
  from seg obtain f where "map_of dir (seg_number seg) = Some f" by (auto simp: seg_ok_def)
  with False rec show ?thesis
    by (auto simp: recover_segment_def Let_def intro!: same_logs_update split: if_splits option.splits)
qed

lemma recover_segments_any:
  assumes "\<forall>seg \<in> set segs. seg_ok dir seg" and "contiguous (pt_next_offset p) (concat (map seg_messages segs))"
    and "\<forall>m \<in> set (concat (map seg_messages segs)). fits m"
    and "recover_segments io config (map seg_number segs) dir p = (dir', p', r)"
  shows "same_logs dir dir'"
  using assms
proof (induction segs arbitrary: dir p)
  case (Cons seg segs)
  obtain dir1 p1 r1 where first: "recover_segment io config (seg_number seg) dir p = (dir1, p1, r1)"
    by (metis prod_cases3)
  have one: "same_logs dir dir1 \<and> (r1 = Inr () \<longrightarrow> p1 = p\<lparr>pt_segments := pt_segments p @ [seg],
       pt_next_offset := pt_next_offset p + of_nat (length (seg_messages seg))\<rparr>)"
    using Cons.prems by (intro recover_segment_any [OF _ _ _ first]) (simp_all add: contiguous_append)
  show ?case
  proof (cases r1)
    case (Inl err)
    with Cons.prems(4) first one show ?thesis by simp
  next
    case (Inr u)
    with Cons.prems(4) first have rest: "recover_segments io config (map seg_number segs) dir1 p1 = (dir', p', r)" by simp
    have "\<forall>seg \<in> set segs. seg_ok dir1 seg" using Cons.prems(1) one by (auto intro: seg_ok_same_logs)
    moreover have "pt_next_offset p1 = pt_next_offset p + of_nat (length (seg_messages seg))" using one Inr by simp
    ultimately have "same_logs dir1 dir'" using Cons.prems(2,3) rest by (intro Cons.IH) (auto simp: contiguous_append)
    with one show ?thesis by (blast intro: same_logs_trans)
  qed
qed simp

text \<open>A recovery that succeeds met no failure, and one that fails reports the failure it met.\<close>

definition recovery_refused :: "storage_io \<Rightarrow> string \<Rightarrow> bool" where
  "recovery_refused io err \<longleftrightarrow>
     (\<exists>n. \<not> st_open io n \<and> err = ''cannot open WAL segment'' \<or> st_resize io n = Some err)"

lemma recover_segments_result:
  "recover_segments io config numbers dir p = (dir', p', r) \<Longrightarrow>
     (r = Inr () \<longrightarrow> recover_segments (good_io now steady) config numbers dir p = (dir', p', r)) \<and>
     (\<forall>err. r = Inl err \<longrightarrow> recovery_refused io err)"
proof (induction numbers arbitrary: dir p)
  case (Cons n numbers)
  obtain dir1 p1 r1 where first: "recover_segment io config n dir p = (dir1, p1, r1)" by (metis prod_cases3)
  have same: "r1 = Inr () \<Longrightarrow> recover_segment (good_io now steady) config n dir p = (dir1, p1, r1)"
    and refused: "\<And>err. r1 = Inl err \<Longrightarrow> recovery_refused io err"
    using first by (auto simp: recover_segment_def good_io_def Let_def recovery_refused_def split: if_splits option.splits)
  show ?case
  proof (cases r1)
    case (Inl err)
    with Cons.prems first refused show ?thesis by auto
  next
    case (Inr u)
    with Cons.prems first same have "recover_segments io config numbers dir1 p1 = (dir', p', r)"
      and "recover_segment (good_io now steady) config n dir p = (dir1, p1, Inr u)" by simp_all
    with Cons.IH [of dir1 p1] show ?thesis by auto
  qed
qed auto

lemma Recover_result:
  assumes "Recover io config dir p = (dir', p', r)"
  shows "(r = Inr () \<longrightarrow> Recover (good_io now steady) config dir p = (dir', p', r)) \<and>
    (\<forall>err. r = Inl err \<longrightarrow> recovery_refused io err)"
  using assms recover_segments_result unfolding Recover_def Let_def by blast

lemma Recover_any:
  assumes ok: "disk_ok dir" and rec: "Recover io config dir (new_Partition t) = (dir', p', r)"
  shows "same_logs dir dir' \<or> dir = [] \<and> (\<exists>q. part_ok dir' 0 q \<and> partition_messages q = [])"
proof (cases "dir = []")
  case True
  let ?seg = "\<lparr>seg_number = 0, seg_messages = [], seg_size = 0, seg_last_timestamp_ms = 0\<rparr>"
  from True rec have "dir' = [] \<or> (\<exists>i. dir' = [(0, \<lparr>sf_log = [], sf_index = i\<rparr>)])"
    by (auto simp: Recover_def recover_segment_def Let_def split: if_splits option.splits)
  moreover have "part_ok [(0, \<lparr>sf_log = [], sf_index = i\<rparr>)] 0 \<lparr>pt_segments = [?seg], pt_next_offset = 0, pt_last_sync = 0\<rparr>" for i
    by (simp add: part_ok_def seg_ok_def partition_messages_def)
  moreover have "partition_messages \<lparr>pt_segments = [?seg], pt_next_offset = 0, pt_last_sync = 0\<rparr> = []"
    by (simp add: partition_messages_def)
  ultimately show ?thesis using True by auto
next
  case False
  with ok obtain q where q: "part_ok dir 0 q" by (auto simp: disk_ok_def)
  then have "pt_segments q \<noteq> []" by (simp add: part_ok_def)
  with rec have "recover_segments io config (map seg_number (pt_segments q)) dir (new_Partition t) = (dir', p', r)"
    by (simp add: Recover_def sorted_segment_numbers [OF q])
  then have "same_logs dir dir'"
    using q by (intro recover_segments_any) (auto simp: part_ok_def new_Partition_def partition_messages_def)
  then show ?thesis by blast
qed

text \<open>Whatever the operating system refuses, opening a partition changes neither its messages nor any other.\<close>

lemma engine_ok_update_disk:
  assumes ok: "engine_ok e" and none: "map_of (se_partitions e) (topic, part) = None"
    and dir: "same_logs (disk_dir e topic part) dir \<or>
      disk_dir e topic part = [] \<and> (\<exists>q. part_ok dir 0 q \<and> partition_messages q = [])"
  defines "e' \<equiv> e\<lparr>se_disk := AList.update (dir_key topic part) dir (se_disk e)\<rparr>"
  shows "engine_ok e'" and "stored e' = stored e"
proof -
  have dirs: "disk_dir e' t n = (if (t, n) = (topic, part) then dir else disk_dir e t n)" for t n
    by (auto simp: e'_def disk_dir_def dir_key_inject)
  have parts: "se_partitions e' = se_partitions e" "se_config e' = se_config e" by (simp_all add: e'_def)
  have none': "map_of (se_partitions e') (topic, part) = None" using none by (simp add: parts)
  have same: "disk_ok dir \<and> stored e' (topic, part) = stored e (topic, part)"
  proof (cases "disk_dir e topic part = []")
    case True
    with dir have "dir = [] \<or> (\<exists>q. part_ok dir 0 q \<and> partition_messages q = [])"
      using same_logs_keys [of "[]" dir] by auto
    with True show ?thesis
      using stored_closed [OF none] stored_closed [OF none'] by (auto simp: dirs disk_ok_def)
  next
    case False
    with engine_ok_closed [OF ok none] obtain q where q: "part_ok (disk_dir e topic part) 0 q"
      by (auto simp: disk_ok_def)
    with False dir have "part_ok dir 0 q" by (auto intro: part_ok_same_logs)
    with q show ?thesis
      using stored_closed(1) [OF none, of q] stored_closed(1) [OF none', of q] by (auto simp: dirs disk_ok_def)
  qed
  then show "engine_ok e'"
    by (intro engine_okI) (auto simp: dirs parts engine_ok_closed [OF ok] engine_ok_open [OF ok] none split: if_splits)
  have "stored e' k = stored e k" if "k \<noteq> (topic, part)" for k
    using that by (intro stored_frame) (auto simp: dirs parts)
  with same show "stored e' = stored e" by (intro ext) metis
qed

lemma GetPartition_any:
  assumes ok: "engine_ok e" and get: "GetPartition io e topic part = (e', r)"
  shows "engine_ok e' \<and> stored e' = stored e \<and> se_config e' = se_config e \<and>
    (case r of
       Inr p \<Rightarrow> map_of (se_partitions e') (topic, part) = Some p \<and> stored e (topic, part) = partition_messages p
     | Inl err \<Rightarrow> map_of (se_partitions e) (topic, part) = None \<and> (st_dir io = Some err \<or> recovery_refused io err))"
proof (cases "map_of (se_partitions e) (topic, part)")
  case (Some p)
  then show ?thesis using ok get by (auto simp: GetPartition_def stored_open)
next
  case None
  show ?thesis
  proof (cases "st_dir io")
    case (Some err)
    with None ok get show ?thesis by (auto simp: GetPartition_def)
  next
    case dir: None
    obtain dir p0 r0 where rec: "Recover io (se_config e) (disk_dir e topic part) (new_Partition (st_steady_ms io)) = (dir, p0, r0)"
      by (metis prod_cases3)
    show ?thesis
    proof (cases r0)
      case (Inl err)
      with None dir rec get have "r = Inl err" "e' = e\<lparr>se_disk := AList.update (dir_key topic part) dir (se_disk e)\<rparr>"
        by (auto simp: GetPartition_def Let_def)
      with engine_ok_update_disk [OF ok None Recover_any [OF engine_ok_closed [OF ok None] rec]]
        Recover_result [OF rec] Inl None show ?thesis by auto
    next
      case (Inr u)
      let ?io = "good_io 0 (st_steady_ms io)"
      have "Recover ?io (se_config e) (disk_dir e topic part) (new_Partition (st_steady_ms io)) = (dir, p0, r0)"
        using Recover_result [OF rec, of 0 "st_steady_ms io"] Inr by simp
      then have "GetPartition ?io e topic part = GetPartition io e topic part"
        using None dir rec by (simp add: GetPartition_def good_io_def)
      with get GetPartition_ok [OF ok, of ?io topic part] show ?thesis by auto
    qed
  qed
qed

text \<open>The bytes of a partition's log files, in the order of the segments.\<close>

definition dir_log :: "part_dir \<Rightarrow> bytes" where
  "dir_log dir = concat (map (\<lambda>n. case map_of dir n of None \<Rightarrow> [] | Some f \<Rightarrow> sf_log f) (sort (map fst dir)))"

definition disk_log :: "engine \<Rightarrow> bytes \<times> u32 \<Rightarrow> bytes" where
  "disk_log e = (\<lambda>(topic, part). dir_log (disk_dir e topic part))"

lemma log_bytes_concat: "log_bytes (concat mss) = concat (map log_bytes mss)"
  by (induction mss) simp_all

lemma dir_log_segments:
  assumes "part_ok dir base p" and "\<And>n. map_of dir' n = None \<longleftrightarrow> map_of dir n = None" and "umap_ok dir'"
  shows "dir_log dir' =
    concat (map (\<lambda>seg. case map_of dir' (seg_number seg) of None \<Rightarrow> [] | Some f \<Rightarrow> sf_log f) (pt_segments p))"
proof -
  have "fst ` set dir' = fst ` set dir"
    using assms(2) unfolding dom_map_of_conv_image_fst [symmetric] by (auto simp: dom_def)
  then have "sort (map fst dir') = sort (map fst dir)"
    using assms(1,3) by (intro sorted_distinct_set_unique) (simp_all add: part_ok_def umap_ok_def)
  then show ?thesis by (simp add: dir_log_def sorted_segment_numbers [OF assms(1)] comp_def)
qed

lemma dir_log_part:
  assumes "part_ok dir base p"
  shows "dir_log dir = log_bytes (partition_messages p)"
proof -
  have "(case map_of dir (seg_number seg) of None \<Rightarrow> [] | Some f \<Rightarrow> sf_log f) = log_bytes (seg_messages seg)"
    if "seg \<in> set (pt_segments p)" for seg
    using assms that by (auto simp: part_ok_def seg_ok_def)
  moreover have "umap_ok dir" using assms by (simp add: part_ok_def)
  ultimately show ?thesis
    by (simp add: dir_log_segments [OF assms] partition_messages_def log_bytes_concat comp_def cong: map_cong)
qed

lemma dir_log_last:
  assumes ok: "part_ok dir base p"
  shows "dir_log (AList.update (seg_number (last (pt_segments p))) f dir) =
    log_bytes (concat (map seg_messages (butlast (pt_segments p)))) @ sf_log f"
proof -
  from ok obtain init cur where segs: "pt_segments p = init @ [cur]"
    unfolding part_ok_def by (metis rev_exhaust)
  let ?dir = "AList.update (seg_number cur) f dir"
  have cur: "map_of dir (seg_number cur) \<noteq> None" using ok by (auto simp: part_ok_def segs seg_ok_def)
  have "(case map_of ?dir (seg_number seg) of None \<Rightarrow> [] | Some g \<Rightarrow> sf_log g) = log_bytes (seg_messages seg)"
    if "seg \<in> set init" for seg
  proof -
    have "seg_number seg < seg_number cur" "seg_ok dir seg"
      using ok that by (simp_all add: part_ok_def segs sorted_wrt_append)
    then show ?thesis by (auto simp: seg_ok_def)
  qed
  moreover have "umap_ok ?dir" using ok by (simp add: part_ok_def)
  ultimately show ?thesis
    using cur by (simp add: dir_log_segments [OF ok] segs log_bytes_concat comp_def cong: map_cong)
qed

text \<open>What reaches the log file when the flush is cut short.\<close>

definition flushed_record :: "storage_io \<Rightarrow> Message \<Rightarrow> bytes" where
  "flushed_record io m = (case st_log_flush io of None \<Rightarrow> wal_record m | Some n \<Rightarrow> take n (wal_record m))"

text \<open>No write leaves a part of a record in the file: it puts all of it there, or fails with nothing.\<close>

definition clean_writes :: "storage_io \<Rightarrow> bool" where
  "clean_writes io \<longleftrightarrow> (st_log_write io = None \<or> st_log_write io = Some 0) \<and> st_log_flush io = None"

lemma write_message_any:
  assumes ok: "part_ok dir base p" and wr: "write_message io config dir p m = (dir', p', r)"
  shows "(\<exists>n. st_log_write io = Some n \<and> r = Inl ''WAL write failed'' \<and> p' = p \<and>
      dir_log dir' = dir_log dir @ take n (wal_record m) \<and> (n = 0 \<longrightarrow> part_ok dir' base p')) \<or>
    st_log_write io = None \<and> (r = Inr () \<or> r = Inl ''WAL fsync failed'' \<and> (\<not> st_sync_log io \<or> \<not> st_sync_index io)) \<and>
      partition_messages p' = partition_messages p @ [m] \<and> dir_log dir' = dir_log dir @ flushed_record io m"
proof -
  from ok obtain init cur where segs: "pt_segments p = init @ [cur]"
    unfolding part_ok_def by (metis rev_exhaust)
  from ok obtain f where f: "map_of dir (seg_number cur) = Some f" "sf_log f = log_bytes (seg_messages cur)"
    by (auto simp: part_ok_def segs seg_ok_def)
  have old: "dir_log dir = log_bytes (concat (map seg_messages init)) @ sf_log f"
    by (simp add: dir_log_part [OF ok] partition_messages_def segs f)
  have upd: "dir_log (AList.update (seg_number cur) g dir) = log_bytes (concat (map seg_messages init)) @ sf_log g" for g
    using dir_log_last [OF ok, of g] by (simp add: segs)
  show ?thesis
  proof (cases "st_log_write io")
    case (Some n)
    let ?f = "f\<lparr>sf_log := sf_log f @ take n (wal_record m)\<rparr>"
    from Some wr f have w: "dir' = AList.update (seg_number cur) ?f dir" "p' = p" "r = Inl ''WAL write failed''"
      by (auto simp: write_message_def Let_def segs)
    have "same_logs dir dir'" if "n = 0" using f that unfolding w by (intro same_logs_update) simp
    then have "n = 0 \<longrightarrow> part_ok dir' base p'" using ok part_ok_same_logs w(2) by blast
    with Some w old upd [of ?f] show ?thesis by simp
  next
    case None
    let ?cur = "\<lparr>seg_number = seg_number cur, seg_messages = seg_messages cur @ [m],
        seg_size = seg_size cur + length (wal_record m), seg_last_timestamp_ms = msg_timestamp_ms m\<rparr>"
    from None wr f obtain i where "dir' = AList.update (seg_number cur) \<lparr>sf_log = sf_log f @ flushed_record io m, sf_index = i\<rparr> dir"
      "pt_segments p' = init @ [?cur]"
      "r = Inr () \<or> r = Inl ''WAL fsync failed'' \<and> (\<not> st_sync_log io \<or> \<not> st_sync_index io)"
      by (auto simp: write_message_def Let_def segs flushed_record_def split: if_splits)
    with None old upd show ?thesis by (simp add: partition_messages_def segs)
  qed
qed

text \<open>
  The outcomes of writing \<open>m\<close> to a partition: what is reported, what the partition holds then, and what
  its log files have gained.
\<close>

definition write_outcome ::
  "storage_io \<Rightarrow> Message \<Rightarrow> unit result \<Rightarrow> Message list \<Rightarrow> bytes \<Rightarrow> bool" where
  "write_outcome io m r gained bytes \<longleftrightarrow>
     r = Inl ''cannot create WAL segment'' \<and> (\<exists>n. \<not> st_open io n) \<and> gained = [] \<and> bytes = [] \<or>
     (\<exists>n. st_log_write io = Some n \<and> r = Inl ''WAL write failed'' \<and> gained = [] \<and> bytes = take n (wal_record m)) \<or>
     st_log_write io = None \<and> (r = Inr () \<or> r = Inl ''WAL fsync failed'' \<and> (\<not> st_sync_log io \<or> \<not> st_sync_index io)) \<and>
       gained = [m] \<and> bytes = flushed_record io m"

lemma append_message_any:
  assumes ok: "part_ok dir base p" and m: "fits m" "msg_offset m = pt_next_offset p"
    and app: "append_message io config dir p m = (dir', p', r)"
  shows "\<exists>gained bytes. write_outcome io m r gained bytes \<and> partition_messages p' = partition_messages p @ gained \<and>
    dir_log dir' = dir_log dir @ bytes \<and> (clean_writes io \<longrightarrow> part_ok dir' base p')"
proof -
  obtain dir1 p1 r1 where roll: "roll_segment io config dir p (length (wal_record m)) = (dir1, p1, r1)"
    by (metis prod_cases3)
  note rolled = roll_segment_ok [OF ok roll]
  then have logs: "dir_log dir1 = dir_log dir" using dir_log_part [OF ok] dir_log_part [of dir1 base p1] by simp
  show ?thesis
  proof (cases r1)
    case (Inl e)
    then have "e = ''cannot create WAL segment''" "\<exists>n. \<not> st_open io n"
      using roll by (auto simp: roll_segment_def Let_def split: if_splits)
    with Inl rolled roll app logs show ?thesis by (auto simp: append_message_def write_outcome_def)
  next
    case (Inr u)
    then have w: "write_message io config dir1 p1 m = (dir', p', r)" using roll app by (simp add: append_message_def)
    have p1: "part_ok dir1 base p1" "msg_offset m = pt_next_offset p1" using rolled m by simp_all
    have "part_ok dir' base p'" if "clean_writes io"
    proof (cases "st_log_write io")
      case None
      with that write_message_ok [OF p1(1) _ m(1) p1(2) w] show ?thesis by (simp add: clean_writes_def whole_writes_def)
    next
      case (Some n)
      with that write_message_any [OF p1(1) w] show ?thesis by (auto simp: clean_writes_def)
    qed
    with write_message_any [OF p1(1) w] rolled logs show ?thesis by (fastforce simp: write_outcome_def)
  qed
qed

lemma disk_log_put: "disk_log (put_partition e topic part dir p) = (disk_log e)((topic, part) := dir_log dir)"
  by (auto simp: disk_log_def disk_dir_put)

lemma disk_log_stored:
  assumes "engine_ok e"
  shows "disk_log e k = log_bytes (stored e k)"
proof -
  obtain topic part where k: "k = (topic, part)" by (cases k)
  show ?thesis
  proof (cases "map_of (se_partitions e) (topic, part)")
    case (Some p)
    with dir_log_part [OF engine_ok_open [OF assms Some]] show ?thesis by (simp add: k disk_log_def stored_open)
  next
    case None
    from engine_ok_closed [OF assms None] consider "disk_dir e topic part = []" | q where "part_ok (disk_dir e topic part) 0 q"
      by (auto simp: disk_ok_def)
    then show ?thesis
      using stored_closed [OF None] by cases (auto simp: k disk_log_def dir_log_part, simp add: dir_log_def)
  qed
qed

lemma Append_any:
  assumes ok: "engine_ok e" and app: "Append io e topic part key val = (e', r)"
  defines "m \<equiv> \<lparr>msg_offset = of_nat (length (stored e (topic, part))), msg_timestamp_ms = st_now_ms io, msg_key = key, msg_value = val\<rparr>"
  shows "(\<exists>err. r = Inl err \<and> engine_ok e' \<and> stored e' = stored e \<and>
      (err = ''invalid message'' \<and> \<not> (IsValidTopicName topic \<and> message_fits key val) \<and> e' = e \<or>
       IsValidTopicName topic \<and> message_fits key val \<and>
         (\<not> se_opened e \<and> st_root io = Some err \<and> e' = e \<or>
          map_of (se_partitions e) (topic, part) = None \<and> (st_dir io = Some err \<or> recovery_refused io err)))) \<or>
    IsValidTopicName topic \<and> message_fits key val \<and>
      (\<exists>w gained bytes. write_outcome io m w gained bytes \<and>
         r = (case w of Inl err \<Rightarrow> Inl err | Inr _ \<Rightarrow> Inr m) \<and>
         stored e' = (stored e)((topic, part) := stored e (topic, part) @ gained) \<and>
         disk_log e' = (disk_log e)((topic, part) := disk_log e (topic, part) @ bytes) \<and>
         (clean_writes io \<longrightarrow> engine_ok e'))"
proof (cases "IsValidTopicName topic \<and> message_fits key val")
  case False
  then show ?thesis using app ok by (auto simp: Append_def message_fits_def not_less split: if_splits)
next
  case valid: True
  obtain e1 r1 where opened: "Open io e = (e1, r1)" by (cases "Open io e")
  have e1: "engine_ok e1" "stored e1 = stored e" "disk_log e1 = disk_log e" "se_partitions e1 = se_partitions e"
    and refused: "\<And>err. r1 = Inl err \<Longrightarrow> \<not> se_opened e \<and> st_root io = Some err \<and> e1 = e"
    using opened ok by (auto simp: Open_def disk_log_def split: if_splits option.splits)
  show ?thesis
  proof (cases r1)
    case (Inl err)
    with app valid opened have "r = Inl err" "e' = e1" by (auto simp: Append_def message_fits_def)
    with valid ok refused [OF Inl] show ?thesis by blast
  next
    case (Inr u)
    obtain e2 r2 where get: "GetPartition io e1 topic part = (e2, r2)" by (cases "GetPartition io e1 topic part")
    note got = GetPartition_any [OF e1(1) get]
    show ?thesis
    proof (cases r2)
      case (Inl err)
      with app valid opened Inr get have "r = Inl err" "e' = e2" by (auto simp: Append_def message_fits_def)
      with valid got e1 Inl show ?thesis by auto
    next
      case r2: (Inr p)
      with got have p: "map_of (se_partitions e2) (topic, part) = Some p" "stored e (topic, part) = partition_messages p"
        and e2: "engine_ok e2" "stored e2 = stored e" by (simp_all add: e1)
      have ok2: "part_ok (disk_dir e2 topic part) 0 p" by (rule engine_ok_open [OF e2(1) p(1)])
      then have off: "msg_offset m = pt_next_offset p" using p(2) by (simp add: m_def part_ok_def)
      have fits: "fits m" using valid by (simp add: m_def fits_def)
      obtain dir p' w where am: "append_message io (se_config e2) (disk_dir e2 topic part) p m = (dir, p', w)"
        by (metis prod_cases3)
      from append_message_any [OF ok2 fits off am] obtain gained bytes
        where out: "write_outcome io m w gained bytes" "partition_messages p' = partition_messages p @ gained"
          "dir_log dir = dir_log (disk_dir e2 topic part) @ bytes" "clean_writes io \<longrightarrow> part_ok dir 0 p'" by blast
      have m': "\<lparr>msg_offset = pt_next_offset p, msg_timestamp_ms = st_now_ms io, msg_key = key, msg_value = val\<rparr> = m"
        using off by (simp add: m_def)
      have e': "e' = put_partition e2 topic part dir p'" and r: "r = (case w of Inl err \<Rightarrow> Inl err | Inr _ \<Rightarrow> Inr m)"
        using app valid opened Inr get r2 am by (auto simp: Append_def message_fits_def Let_def m' split: sum.splits)
      have "disk_log e2 = disk_log e" using disk_log_stored [OF e2(1)] disk_log_stored [OF ok] e2(2) by (intro ext) simp
      then have "disk_log e' = (disk_log e)((topic, part) := disk_log e (topic, part) @ bytes)"
        using out(3) by (simp add: e' disk_log_put) (simp add: disk_log_def fun_eq_iff)
      moreover have "stored e' = (stored e)((topic, part) := stored e (topic, part) @ gained)"
        using out(2) p(2) e2(2) by (simp add: e' stored_put)
      moreover have "clean_writes io \<longrightarrow> engine_ok e'" using out(4) engine_ok_put [OF e2(1)] by (simp add: e')
      ultimately show ?thesis using valid out(1) r by blast
    qed
  qed
qed

section \<open>A log that survives restarts\<close>

datatype ('c, 'k) log_op = Append_op 'c 'k bytes bytes | Restart_op

locale durable_log =
  fixes inv :: "'s \<Rightarrow> bool"
    and log :: "'s \<Rightarrow> 'k \<Rightarrow> Message list"
    and app :: "'c \<Rightarrow> 's \<Rightarrow> 'k \<Rightarrow> bytes \<Rightarrow> bytes \<Rightarrow> 's \<times> Message result"
    and reopen :: "'s \<Rightarrow> 's"
    and good :: "'c \<Rightarrow> bool"
  assumes app_inv: "inv s \<Longrightarrow> good c \<Longrightarrow> inv (fst (app c s k key val))"
    and app_extends: "inv s \<Longrightarrow> good c \<Longrightarrow> \<exists>ms. log (fst (app c s k key val)) = (log s)(k := log s k @ ms)"
    and app_acked: "inv s \<Longrightarrow> good c \<Longrightarrow> snd (app c s k key val) = Inr m \<Longrightarrow>
      log (fst (app c s k key val)) k = log s k @ [m] \<and> msg_offset m = of_nat (length (log s k)) \<and>
      msg_key m = key \<and> msg_value m = val"
    and reopen_inv: "inv s \<Longrightarrow> inv (reopen s)"
    and reopen_log: "inv s \<Longrightarrow> log (reopen s) = log s"
begin

text \<open>Running a sequence of operations collects the acknowledged messages.\<close>

fun run :: "'s \<Rightarrow> ('c, 'k) log_op list \<Rightarrow> 's \<times> ('k \<times> Message) list" where
  "run s [] = (s, [])"
| "run s (Append_op c k key val # ops) =
    (case app c s k key val of
       (s', Inl _) \<Rightarrow> run s' ops
     | (s', Inr m) \<Rightarrow> (case run s' ops of (s'', acks) \<Rightarrow> (s'', (k, m) # acks)))"
| "run s (Restart_op # ops) = run (reopen s) ops"

fun good_op :: "('c, 'k) log_op \<Rightarrow> bool" where
  "good_op (Append_op c k key val) = good c"
| "good_op Restart_op = True"

definition acked :: "'k \<Rightarrow> ('k \<times> Message) list \<Rightarrow> Message list" where
  "acked k acks = map snd (filter (\<lambda>(k', _). k' = k) acks)"

lemma run_durable:
  "inv s \<Longrightarrow> \<forall>x \<in> set ops. good_op x \<Longrightarrow> run s ops = (s', acks) \<Longrightarrow>
     inv s' \<and> (\<exists>ms. log s' k = log s k @ ms \<and> subseq (acked k acks) ms)"
proof (induction s ops arbitrary: s' acks rule: run.induct)
  case (1 s)
  then show ?case by (auto simp: acked_def)
next
  case (2 s c k1 key val ops)
  obtain s1 r where a: "app c s k1 key val = (s1, r)" by (cases "app c s k1 key val")
  have s1: "inv s1" using app_inv [of s c k1 key val] "2.prems" a by simp
  obtain new where new: "log s1 = (log s)(k1 := log s k1 @ new)"
    using app_extends [of s c k1 key val] "2.prems" a by auto
  show ?case
  proof (cases r)
    case (Inl err)
    with "2.IH"(1) [OF a [symmetric] Inl s1] "2.prems" a
    obtain ms where "inv s'" "log s' k = log s1 k @ ms" "subseq (acked k acks) ms" by auto
    with new show ?thesis by (cases "k = k1") (auto intro: subseq_drop_many)
  next
    case (Inr m)
    obtain acks' where rest: "run s1 ops = (s', acks')" "acks = (k1, m) # acks'"
      using "2.prems"(3) a Inr by (auto split: prod.splits)
    with "2.IH"(2) [OF a [symmetric] Inr s1] "2.prems"
    obtain ms where ms: "inv s'" "log s' k = log s1 k @ ms" "subseq (acked k acks') ms" by auto
    have new1: "log s1 k1 = log s k1 @ [m]" using app_acked [of s c k1 key val m] "2.prems" a Inr by simp
    show ?thesis
    proof (cases "k = k1")
      case True
      with ms new1 rest show ?thesis by (intro conjI exI [of _ "m # ms"]) (auto simp: acked_def)
    next
      case False
      with ms new rest show ?thesis by (auto simp: acked_def)
    qed
  qed
next
  case (3 s ops)
  then show ?case by (simp add: reopen_inv reopen_log)
qed

end

definition writes_well :: "storage_io \<Rightarrow> bool" where
  "writes_well io \<longleftrightarrow> opens io \<and> whole_writes io"

definition append_at :: "storage_io \<Rightarrow> engine \<Rightarrow> bytes \<times> u32 \<Rightarrow> bytes \<Rightarrow> bytes \<Rightarrow> engine \<times> Message result" where
  "append_at io e k key val = Append io e (fst k) (snd k) key val"

interpretation storage: durable_log engine_ok stored append_at restart clean_writes
proof
  fix e :: engine and io k key val m
  assume ok: "engine_ok e"
  show "engine_ok (restart e)" "stored (restart e) = stored e" using ok by (rule restart_ok, rule stored_restart)
  assume io: "clean_writes io"
  note app = Append_any [OF ok, of io "fst k" "snd k" key val, OF surjective_pairing]
  show "engine_ok (fst (append_at io e k key val))" using app io by (auto simp: append_at_def)
  show "\<exists>ms. stored (fst (append_at io e k key val)) = (stored e)(k := stored e k @ ms)"
    using app by (auto simp: append_at_def fun_upd_idem intro: exI [of _ "[]"])
  assume "snd (append_at io e k key val) = Inr m"
  then show "stored (fst (append_at io e k key val)) k = stored e k @ [m] \<and> msg_offset m = of_nat (length (stored e k)) \<and>
      msg_key m = key \<and> msg_value m = val"
    using app by (auto simp: append_at_def write_outcome_def)
qed

section \<open>Properties\<close>

text \<open>A sequence of appends to any partitions and restarts of the engine, with the acknowledged messages.\<close>

fun storage_run :: "engine \<Rightarrow> (storage_io, bytes \<times> u32) log_op list \<Rightarrow> engine \<times> ((bytes \<times> u32) \<times> Message) list" where
  "storage_run e [] = (e, [])"
| "storage_run e (Append_op io k key val # ops) =
    (case Append io e (fst k) (snd k) key val of
       (e', Inl _) \<Rightarrow> storage_run e' ops
     | (e', Inr m) \<Rightarrow> (case storage_run e' ops of (e'', acks) \<Rightarrow> (e'', (k, m) # acks)))"
| "storage_run e (Restart_op # ops) = storage_run (restart e) ops"

definition acked_in :: "bytes \<times> u32 \<Rightarrow> ((bytes \<times> u32) \<times> Message) list \<Rightarrow> Message list" where
  "acked_in k acks = map snd (filter (\<lambda>(k', _). k' = k) acks)"

fun io_of_op :: "(storage_io, bytes \<times> u32) log_op \<Rightarrow> storage_io set" where
  "io_of_op (Append_op io k key val) = {io}"
| "io_of_op Restart_op = {}"

lemma storage_run_eq: "storage_run e ops = storage.run e ops"
  by (induction e ops rule: storage_run.induct) (auto simp flip: append_at_def split: sum.split prod.split)

lemma good_op_io: "storage.good_op x \<longleftrightarrow> (\<forall>io \<in> io_of_op x. clean_writes io)"
  by (cases x) auto

lemma engine_ok_new [simp]: "engine_ok (new_engine config [])"
  by (rule engine_okI) (simp_all add: new_engine_def disk_dir_def disk_ok_def)

lemma stored_new [simp]: "stored (new_engine config []) k = []"
  using stored_closed(2) [of "new_engine config []" "fst k" "snd k"] by (simp add: new_engine_def disk_dir_def)

text \<open>With an operating system that refuses nothing, every valid message is accepted.\<close>

lemma append_message_good: "snd (snd (append_message (good_io now steady) config dir p m)) = Inr ()"
  by (simp add: append_message_def roll_segment_def write_message_def good_io_def Let_def)

lemma Append_good:
  assumes "engine_ok e" and "IsValidTopicName topic" and "message_fits key val"
  shows "\<exists>e' m. Append (good_io now steady) e topic part key val = (e', Inr m)"
proof -
  obtain e2 p where get: "GetPartition (good_io now steady) (e\<lparr>se_opened := True\<rparr>) topic part = (e2, Inr p)"
    using GetPartition_ok [of "e\<lparr>se_opened := True\<rparr>" "good_io now steady" topic part] assms(1) by auto
  let ?m = "\<lparr>msg_offset = pt_next_offset p, msg_timestamp_ms = st_now_ms (good_io now steady), msg_key = key, msg_value = val\<rparr>"
  obtain dir p' where "append_message (good_io now steady) (se_config e2) (disk_dir e2 topic part) p ?m = (dir, p', Inr ())"
    using append_message_good [of now steady "se_config e2" "disk_dir e2 topic part" p ?m]
    by (metis prod.collapse unit_all_eq1)
  then show ?thesis
    using assms get Open_ok [of "good_io now steady" e] by (simp add: Append_def message_fits_def Let_def)
qed





text \<open>replica appends are gap free. \<^verbatim>\<open>AppendReplica\<close> stores a message only at the offset that continues
  the partition; a message with any other offset (a gap, a duplicate, an old one) is refused with
  \<open>replica offset gap\<close> and nothing changes.\<close>

theorem AppendReplica_no_gap:
  assumes "engine_ok e" and "writes_well io" and "AppendReplica io e topic part m = (e', r)"
    and "msg_offset m \<noteq> of_nat (length (stored e (topic, part)))"
  shows "engine_ok e' \<and> stored e' = stored e \<and> (r = Inl ''replica offset gap'' \<or> r = Inl ''invalid message'')"
  using AppendReplica_ok [OF assms(1) _ _ assms(3)] assms(2,4) by (auto simp: writes_well_def split: if_splits)

theorem AppendReplica_no_gap_witness:
  "\<exists>e' r. AppendReplica (good_io 0 0) (new_engine default_StorageConfig []) (str ''a'') 0 (sample_message\<lparr>msg_offset := 3\<rparr>) = (e', r) \<and>
     stored e' = stored (new_engine default_StorageConfig [])"
proof -
  let ?m = "sample_message\<lparr>msg_offset := 3\<rparr>"
  obtain e' r where a: "AppendReplica (good_io 0 0) (new_engine default_StorageConfig []) (str ''a'') 0 ?m = (e', r)"
    by (cases "AppendReplica (good_io 0 0) (new_engine default_StorageConfig []) (str ''a'') 0 ?m")
  have "writes_well (good_io 0 0)" by (simp add: writes_well_def)
  from AppendReplica_no_gap [OF engine_ok_new this a] a show ?thesis by simp
qed

text \<open>C12: a read returns the longest run that fits. From an engine in good order, \<^verbatim>\<open>Read\<close> at an offset not
  past the end returns the first messages at or after that offset, as many as fit into
  \<^verbatim>\<open>max_bytes\<close> of keys and values and not one more; past the end it fails with \<open>invalid offset\<close>.
  Reading changes no stored message.\<close>

theorem Read_longest_run:
  assumes "engine_ok e" and "opens io" and "IsValidTopicName topic" and "max_bytes \<noteq> 0"
  shows "\<exists>e' r. Read io e topic part start max_bytes = (e', r) \<and> engine_ok e' \<and> stored e' = stored e \<and>
    (let avail = filter (\<lambda>m. start \<le> msg_offset m) (stored e (topic, part)) in
     if of_nat (length (stored e (topic, part))) < start then r = Inl ''invalid offset''
     else \<exists>k \<le> length avail. r = Inr (take k avail) \<and> total_size (take k avail) \<le> unat max_bytes \<and>
       (k < length avail \<longrightarrow> unat max_bytes < total_size (take (Suc k) avail)))"
proof -
  from Read_ok [OF assms, of part start] obtain e' where e': "engine_ok e'" "stored e' = stored e"
    "Read io e topic part start max_bytes =
      (e', if start > of_nat (length (stored e (topic, part))) then Inl ''invalid offset''
           else Inr (read_loop start (unat max_bytes) (stored e (topic, part)) 0 []))" by blast
  from read_loop_prefix [of "[]" "unat max_bytes" start "stored e (topic, part)"] e' show ?thesis
    by (auto simp: Let_def)
qed

theorem Read_longest_run_witness:
  "\<exists>e' r. Read (good_io 0 0) (new_engine default_StorageConfig []) (str ''a'') 0 5 100 = (e', r) \<and> r = Inl ''invalid offset''"
proof -
  have "IsValidTopicName (str ''a'')" by code_simp
  from Read_longest_run [OF engine_ok_new [of default_StorageConfig] opens_good(1) [of 0 0] this, of 100 0 5]
  show ?thesis by (auto simp: Let_def)
qed

text \<open>deleting a topic removes all of its partitions and nothing else, in memory and on disk: distinct
  topics never share a directory.\<close>

theorem DeleteTopic_removes_topic:
  assumes "engine_ok e" and "StorageEngine_DeleteTopic io e topic = (e', Inr ())"
  shows "engine_ok e' \<and> stored e' = (\<lambda>(t, n). if t = topic then [] else stored e (t, n))"
  using assms by (rule DeleteTopic_stored)

theorem DeleteTopic_removes_topic_witness:
  "stored (fst (StorageEngine_DeleteTopic (good_io 0 0) (new_engine default_StorageConfig []) (str ''a''))) (str ''a'', 3) = []"
proof -
  have "IsValidTopicName (str ''a'')" by code_simp
  then obtain e' where d: "StorageEngine_DeleteTopic (good_io 0 0) (new_engine default_StorageConfig []) (str ''a'') = (e', Inr ())"
    by (simp add: StorageEngine_DeleteTopic_def good_io_def)
  from DeleteTopic_removes_topic [OF engine_ok_new d] d show ?thesis by simp
qed

text \<open>C13: retention only ever drops whole segments from the old end and always keeps the newest. A
  successful pass of \<^verbatim>\<open>CleanupExpiredSegments\<close> over a partition leaves a non-empty suffix of its
  segments, memory and disk still agree, the next offset is unchanged, every dropped segment was
  expired or the log was over its size limit when its turn came, and the pass stopped only when a single
  segment was left or neither reason held for the oldest one.\<close>

theorem retention_drops_old_segments:
  assumes "part_ok dir base p" and "cleanup_partition io config dir p = (dir', p', Inr ())"
  shows "\<exists>k base'. k < length (pt_segments p) \<and> pt_segments p' = drop k (pt_segments p) \<and> part_ok dir' base' p' \<and>
    pt_next_offset p' = pt_next_offset p \<and>
    (\<forall>i < k. segment_expired config (st_now_ms io) (pt_segments p ! i) \<or>
       oversized config (sum_list (map seg_size (drop i (pt_segments p))))) \<and>
    (length (pt_segments p') = 1 \<or>
     \<not> segment_expired config (st_now_ms io) (hd (pt_segments p')) \<and> \<not> oversized config (sum_list (map seg_size (pt_segments p'))))"
proof -
  from cleanup_partition_spec [OF assms] obtain k where k: "k < length (pt_segments p)"
    "p' = p\<lparr>pt_segments := drop k (pt_segments p)\<rparr>"
    "dir' = foldl (\<lambda>d seg. AList.delete (seg_number seg) d) dir (take k (pt_segments p))"
    and why: "\<forall>i < k. segment_expired config (st_now_ms io) (pt_segments p ! i) \<or>
       oversized config (sum_list (map seg_size (drop i (pt_segments p))))"
      "length (pt_segments p') = 1 \<or> \<not> segment_expired config (st_now_ms io) (hd (pt_segments p')) \<and>
       \<not> oversized config (sum_list (map seg_size (pt_segments p')))" by blast
  from drop_segments_ok [OF assms(1) k(1,3)] k(2) have "\<exists>base'. part_ok dir' base' p'" by blast
  with k why show ?thesis by auto
qed

text \<open>The partition of the witnesses below: two segments of one message each.\<close>

definition two_segments :: Partition where
  "two_segments =
     \<lparr>pt_segments = [\<lparr>seg_number = 0, seg_messages = [sample_message], seg_size = 33, seg_last_timestamp_ms = 5\<rparr>,
                    \<lparr>seg_number = 1, seg_messages = [sample_message\<lparr>msg_offset := 1\<rparr>], seg_size = 33, seg_last_timestamp_ms = 5\<rparr>],
      pt_next_offset = 2, pt_last_sync = 0\<rparr>"

definition two_segments_dir :: part_dir where
  "two_segments_dir =
     [(0, \<lparr>sf_log = wal_record sample_message, sf_index = None\<rparr>),
      (1, \<lparr>sf_log = wal_record (sample_message\<lparr>msg_offset := 1\<rparr>), sf_index = None\<rparr>)]"

definition small_config :: StorageConfig where
  "small_config = default_StorageConfig\<lparr>cfg_segment_size_bytes := 1, cfg_retention_bytes := 40\<rparr>"

lemma two_segments_ok: "part_ok two_segments_dir 0 two_segments"
  using fits_sample
  by (simp add: part_ok_def two_segments_def two_segments_dir_def seg_ok_def partition_messages_def umap_ok_def
      length_wal_record fits_def) (auto simp: sample_message_def)

lemma two_segments_cleanup:
  "cleanup_partition (good_io 6 0) small_config two_segments_dir two_segments =
     (AList.delete 0 two_segments_dir, two_segments\<lparr>pt_segments := tl (pt_segments two_segments)\<rparr>, Inr ())"
  by (simp add: cleanup_partition_def two_segments_def small_config_def default_StorageConfig_def good_io_def
      oversized_def segment_expired_def)

theorem retention_drops_old_segments_witness:
  "\<exists>base'. part_ok (AList.delete 0 two_segments_dir) base' (two_segments\<lparr>pt_segments := tl (pt_segments two_segments)\<rparr>)"
  using retention_drops_old_segments [OF two_segments_ok two_segments_cleanup] by blast

lemma contiguous_nth_offset: "contiguous n ms \<Longrightarrow> i < length ms \<Longrightarrow> msg_offset (ms ! i) = n + of_nat i"
proof (induction ms arbitrary: n i)
  case (Cons m ms)
  show ?case
  proof (cases i)
    case (Suc j)
    with Cons have "msg_offset (ms ! j) = (n + 1) + of_nat j" by (intro Cons.IH) simp_all
    with Suc show ?thesis by (simp add: add.assoc)
  qed (use Cons in simp)
qed simp

text \<open>C14: retention followed by a restart empties the partition. \<^verbatim>\<open>Recover\<close> expects the first record it
  meets to have offset 0, so once retention has removed anything, the next restart takes every
  remaining record for damage: the partition comes back empty, with next offset 0, and every
  remaining log file is truncated to nothing.\<close>

theorem retention_then_restart_loses_log:
  assumes ok: "part_ok dir 0 p" and few: "length (partition_messages p) < 2 ^ 64"
    and clean: "cleanup_partition io config dir p = (dir', p', Inr ())"
    and dropped: "partition_messages p' \<noteq> partition_messages p" and rec: "recovers io'"
  shows "\<exists>dir'' q. Recover io' config dir' (new_Partition t) = (dir'', q, Inr ()) \<and> partition_messages q = [] \<and>
    pt_next_offset q = 0 \<and> (\<forall>n f. map_of dir'' n = Some f \<longrightarrow> sf_log f = [])"
proof -
  from cleanup_partition_spec [OF ok clean] obtain k where k: "k < length (pt_segments p)"
    "p' = p\<lparr>pt_segments := drop k (pt_segments p)\<rparr>"
    "dir' = foldl (\<lambda>d seg. AList.delete (seg_number seg) d) dir (take k (pt_segments p))" by blast
  let ?gone = "concat (map seg_messages (take k (pt_segments p)))"
  from drop_segments_ok [OF ok k(1,3)] k(2)
  have ok': "part_ok dir' (0 + of_nat (length ?gone)) p'" and split: "partition_messages p = ?gone @ partition_messages p'"
    by simp_all
  have gone: "0 < length ?gone" using split dropped by auto
  have nonzero: "msg_offset m \<noteq> 0" if "m \<in> set (partition_messages p')" for m
  proof -
    from that obtain i where i: "i < length (partition_messages p')" "m = partition_messages p' ! i"
      by (auto simp: in_set_conv_nth)
    then have "msg_offset m = of_nat (length ?gone) + of_nat i"
      using contiguous_nth_offset ok' by (simp add: part_ok_def)
    then have "msg_offset m = of_nat (length ?gone + i)" by simp
    moreover have "length ?gone + i < 2 ^ 64" using few split i by simp
    ultimately have "unat (msg_offset m) = length ?gone + i" by (simp add: unat_of_nat_fits del: of_nat_add)
    with gone show ?thesis by (metis add_is_0 not_gr_zero unsigned_0)
  qed
  let ?q = "(new_Partition t)\<lparr>pt_segments := pt_segments (new_Partition t) @ map (\<lambda>seg. \<lparr>seg_number = seg_number seg,
      seg_messages = [], seg_size = 0, seg_last_timestamp_ms = 0\<rparr>) (pt_segments p')\<rparr>"
  have "\<exists>dir''. recover_segments io' config (map seg_number (pt_segments p')) dir' (new_Partition t) = (dir'', ?q, Inr ()) \<and>
    (\<forall>n. map_option sf_log (map_of dir'' n) =
       (if n \<in> seg_number ` set (pt_segments p') then Some [] else map_option sf_log (map_of dir' n)))"
    using ok' rec nonzero
    by (intro recover_segments_lost) (auto simp: part_ok_def partition_messages_def new_Partition_def strict_sorted_iff)
  then obtain dir'' where r: "recover_segments io' config (map seg_number (pt_segments p')) dir' (new_Partition t) = (dir'', ?q, Inr ())"
    and logs: "\<And>n. map_option sf_log (map_of dir'' n) =
       (if n \<in> seg_number ` set (pt_segments p') then Some [] else map_option sf_log (map_of dir' n))" by blast
  have keys: "seg_number ` set (pt_segments p') = dom (map_of dir')"
    using ok' by (simp add: part_ok_def dom_map_of_conv_image_fst)
  have "sf_log f = []" if "map_of dir'' n = Some f" for n f
    using logs [of n] that unfolding keys by (auto simp: domIff split: if_splits)
  moreover have "Recover io' config dir' (new_Partition t) = (dir'', ?q, Inr ())"
    using r ok' by (simp add: Recover_def sorted_segment_numbers [OF ok'] part_ok_def)
  moreover have "partition_messages ?q = []" "pt_next_offset ?q = 0"
    by (auto simp: partition_messages_def new_Partition_def)
  ultimately show ?thesis by blast
qed

theorem retention_then_restart_loses_log_witness:
  "\<exists>dir'' q. Recover (good_io 7 0) small_config (AList.delete 0 two_segments_dir) (new_Partition 0) = (dir'', q, Inr ()) \<and>
     partition_messages q = []"
proof -
  have few: "length (partition_messages two_segments) < 2 ^ 64" and
    dropped: "partition_messages (two_segments\<lparr>pt_segments := tl (pt_segments two_segments)\<rparr>) \<noteq> partition_messages two_segments"
    by (simp_all add: partition_messages_def two_segments_def)
  have "recovers (good_io 7 0)" by (simp add: recovers_def good_io_def)
  from retention_then_restart_loses_log [OF two_segments_ok few two_segments_cleanup dropped this, of 0]
  show ?thesis by blast
qed

text \<open>a write that failed half way poisons the segment. The failed record's first bytes stay in the
  file, the next append is written behind them and acknowledged, and the next restart stops at the
  garbage: the acknowledged message is gone.\<close>

theorem failed_write_poisons_segment:
  "\<exists>io config dir p m dir1 p1 dir2 p2 dir3 q. part_ok dir 0 p \<and> fits m \<and>
     append_message io config dir p m = (dir1, p1, Inl ''WAL write failed'') \<and>
     append_message (good_io 0 0) config dir1 p1 m = (dir2, p2, Inr ()) \<and> m \<in> set (partition_messages p2) \<and>
     Recover (good_io 0 0) config dir2 (new_Partition 0) = (dir3, q, Inr ()) \<and> m \<notin> set (partition_messages q)"
proof -
  let ?m = sample_message
  let ?seg = "\<lparr>seg_number = 0, seg_messages = [], seg_size = 0, seg_last_timestamp_ms = 0\<rparr>"
  let ?p = "\<lparr>pt_segments = [?seg], pt_next_offset = 0, pt_last_sync = 0\<rparr>"
  let ?dir = "[(0, \<lparr>sf_log = [], sf_index = None\<rparr>)]"
  let ?io = "(good_io 0 0)\<lparr>st_log_write := Some 4\<rparr>"
  let ?bad = "take 4 (wal_record ?m)"
  have p: "part_ok ?dir 0 ?p" by (simp add: part_ok_def seg_ok_def partition_messages_def)
  have a1: "append_message ?io default_StorageConfig ?dir ?p ?m =
      ([(0, \<lparr>sf_log = ?bad, sf_index = None\<rparr>)], ?p, Inl ''WAL write failed'')"
    by (simp add: append_message_def roll_segment_def write_message_def good_io_def)
  obtain idx p2 where a2: "append_message (good_io 0 0) default_StorageConfig [(0, \<lparr>sf_log = ?bad, sf_index = None\<rparr>)] ?p ?m =
      ([(0, \<lparr>sf_log = ?bad @ wal_record ?m, sf_index = idx\<rparr>)], p2, Inr ())" and m2: "?m \<in> set (partition_messages p2)"
    by (auto simp: append_message_def roll_segment_def write_message_def good_io_def default_StorageConfig_def
        sync_due_def Let_def partition_messages_def)
  have head: "take 8 (?bad @ wal_record ?m) = Put32 0xCD8029B7 @ Put32 0xCD8029B7"
    by (simp add: wal_record_def Crc32_sample)
  have "recover_turn 0 (?bad @ wal_record ?m) = Some Stop"
  proof -
    have long: "\<not> length (?bad @ wal_record ?m) < kRecordHeaderSize" by (simp add: kRecordHeaderSize_def length_wal_record)
    have "Get32 (take kRecordHeaderSize (?bad @ wal_record ?m)) 0 = Some 0xCD8029B7"
      "Get32 (take kRecordHeaderSize (?bad @ wal_record ?m)) 4 = Some 0xCD8029B7"
      unfolding kRecordHeaderSize_def head by (simp_all add: Get32_def)
    then show ?thesis
      unfolding recover_turn_def Let_def if_not_P [OF long] by (simp add: kBodyFixedSize_def kMaxMessageBytes_def)
  qed
  then have "recover_scan 1000 (?bad @ wal_record ?m) (scan_start 0) = Some (scan_start 0)"
    by (simp add: recover_scan.simps [of 1000 "?bad @ wal_record ?m"] scan_start_def)
  then obtain dir3 q where "Recover (good_io 0 0) default_StorageConfig
      [(0, \<lparr>sf_log = ?bad @ wal_record ?m, sf_index = idx\<rparr>)] (new_Partition 0) = (dir3, q, Inr ())" "partition_messages q = []"
    by (auto simp: Recover_def recover_segment_def new_Partition_def good_io_def default_StorageConfig_def Let_def
        scan_start_def partition_messages_def)
  then show ?thesis using p fits_sample a1 a2 m2 by (metis empty_iff list.set(1))
qed

definition segment_bounded :: "StorageConfig \<Rightarrow> Segment \<Rightarrow> bool" where
  "segment_bounded config seg \<longleftrightarrow>
     (seg_size seg \<le> unat (cfg_segment_size_bytes config) \<or> length (seg_messages seg) = 1) \<and>
     (seg_size seg = 0 \<longleftrightarrow> seg_messages seg = [])"

definition segments_bounded :: "StorageConfig \<Rightarrow> Partition \<Rightarrow> bool" where
  "segments_bounded config p \<longleftrightarrow> pt_segments p \<noteq> [] \<and> (\<forall>seg \<in> set (pt_segments p). segment_bounded config seg)"

lemma roll_segment_bounded:
  assumes "segments_bounded config p" and "roll_segment io config dir p n = (dir', p', Inr ())"
  shows "segments_bounded config p' \<and>
    (seg_size (last (pt_segments p')) = 0 \<or> seg_size (last (pt_segments p')) + n \<le> unat (cfg_segment_size_bytes config))"
  using assms by (auto simp: roll_segment_def Let_def segments_bounded_def segment_bounded_def split: if_splits)

lemma roll_segment_error: "roll_segment io config dir p n = (dir', p', Inl err) \<Longrightarrow> p' = p"
  by (auto simp: roll_segment_def Let_def split: if_splits)

lemma write_message_bounded:
  assumes "segments_bounded config p" and "write_message io config dir p m = (dir', p', r)"
    and "seg_size (last (pt_segments p)) = 0 \<or>
      seg_size (last (pt_segments p)) + length (wal_record m) \<le> unat (cfg_segment_size_bytes config)"
  shows "segments_bounded config p'"
proof -
  from assms(1) obtain init cur where segs: "pt_segments p = init @ [cur]"
    unfolding segments_bounded_def by (metis rev_exhaust)
  let ?cur = "\<lparr>seg_number = seg_number cur, seg_messages = seg_messages cur @ [m],
      seg_size = seg_size cur + length (wal_record m), seg_last_timestamp_ms = msg_timestamp_ms m\<rparr>"
  have "pt_segments p' = pt_segments p \<or> pt_segments p' = init @ [?cur]"
    using assms(2) segs by (auto simp: write_message_def Let_def split: option.splits if_splits)
  moreover have "segment_bounded config ?cur"
    using assms(1,3) by (auto simp: segments_bounded_def segment_bounded_def segs length_wal_record)
  ultimately show ?thesis using assms(1) by (auto simp: segments_bounded_def segs)
qed

text \<open>segment sizes are bounded. Appending never grows a segment past the configured size unless
  the segment holds a single record; this is kept by every append, whatever the operating system
  answers.\<close>

theorem append_keeps_segments_bounded:
  assumes "segments_bounded config p" and "append_message io config dir p m = (dir', p', r)"
  shows "segments_bounded config p'"
proof -
  obtain dir1 p1 r1 where roll: "roll_segment io config dir p (length (wal_record m)) = (dir1, p1, r1)"
    by (metis prod_cases3)
  show ?thesis
  proof (cases r1)
    case (Inl err)
    then have "p1 = p" using roll roll_segment_error by blast
    with Inl assms roll show ?thesis by (simp add: append_message_def)
  next
    case (Inr u)
    with assms(2) roll have "write_message io config dir1 p1 m = (dir', p', r)" by (simp add: append_message_def)
    with roll_segment_bounded [OF assms(1), of io dir] roll Inr show ?thesis
      by (auto intro: write_message_bounded)
  qed
qed

theorem append_keeps_segments_bounded_witness:
  "segments_bounded small_config (fst (snd (append_message (good_io 0 0) small_config two_segments_dir two_segments
     (sample_message\<lparr>msg_offset := 2\<rparr>))))"
proof -
  let ?a = "append_message (good_io 0 0) small_config two_segments_dir two_segments (sample_message\<lparr>msg_offset := 2\<rparr>)"
  have "segments_bounded small_config two_segments"
    by (simp add: segments_bounded_def segment_bounded_def two_segments_def)
  moreover have "?a = (fst ?a, fst (snd ?a), snd (snd ?a))" by simp
  ultimately show ?thesis by (rule append_keeps_segments_bounded)
qed

end
