(* ===== verification/Replication.thy ===== *)
theory Replication
  imports Prelude
begin

text \<open>
  The replication coordinator: \<^verbatim>\<open>src/server/replication.cc\<close> and its header. \<open>repl\<close> has one field per
  data member; \<open>rs_disk\<close> is the content of \<^verbatim>\<open>raft_state.bin\<close>. Every public operation holds
  \<^verbatim>\<open>mutex_\<close> throughout and is one step. The integers of the state file are written in host order,
  here the little-endian order of the supported platforms. The clock is an argument (milliseconds),
  and \<open>persist_io\<close> says which of the file operations of \<^verbatim>\<open>PersistLocked\<close> succeed; it reports nothing,
  so a failed save only shows in \<open>rs_disk\<close>.

  What is proved of them, elections of a cluster included, is in the theory \<open>Election\<close>.
\<close>

section \<open>State\<close>

datatype ReplicaRole = kLeader | kFollower | kCandidate

record ReplicaProgress =
  rp_node_id :: bytes
  rp_replicated_offset :: u64
  rp_last_heartbeat :: int
  rp_healthy :: bool
  rp_term :: u64

definition default_ReplicaProgress :: ReplicaProgress where
  "default_ReplicaProgress =
     \<lparr>rp_node_id = [], rp_replicated_offset = 0, rp_last_heartbeat = 0, rp_healthy = False, rp_term = 0\<rparr>"

record PartitionState =
  ps_local_offset :: u64
  ps_commit_index :: u64
  ps_last_applied :: u64
  ps_last_log_term :: u64

definition default_PartitionState :: PartitionState where
  "default_PartitionState = \<lparr>ps_local_offset = 0, ps_commit_index = 0, ps_last_applied = 0, ps_last_log_term = 0\<rparr>"

record repl =
  rs_node_id :: bytes
  rs_heartbeat_timeout :: int
  rs_role :: ReplicaRole
  rs_leader_id :: bytes
  rs_voted_for :: bytes
  rs_current_term :: u64
  rs_local_offset :: u64
  rs_commit_index :: u64
  rs_last_applied :: u64
  rs_votes :: "bytes list"
  rs_pre_votes :: "bytes list"
  rs_missed_heartbeat_rounds :: nat
  rs_has_path :: bool
  rs_disk :: "bytes option"
  rs_replicas :: "(bytes, ReplicaProgress) umap"
  rs_partition_states :: "(bytes, PartitionState) umap"
  rs_partition_replicas :: "(bytes, (bytes, ReplicaProgress) umap) umap"

record persist_io =
  pio_write :: bool
  pio_rename :: bool
  pio_second :: "bool \<times> bool"

text \<open>The same two outcomes for the second save of an operation that saves twice.\<close>

definition second_save :: "persist_io \<Rightarrow> persist_io" where
  "second_save io = io\<lparr>pio_write := fst (pio_second io), pio_rename := snd (pio_second io)\<rparr>"

definition kLegacyPartition :: bytes where "kLegacyPartition = str ''__legacy__''"

section \<open>Persistence\<close>

definition kRaftMagic :: u32 where "kRaftMagic = 0x31544652"

definition raft_file :: "u64 \<Rightarrow> u64 \<Rightarrow> u64 \<Rightarrow> bytes \<Rightarrow> bytes" where
  "raft_file term commit applied voted =
     rev (Put32 kRaftMagic) @ rev (Put64 term) @ rev (Put64 commit) @ rev (Put64 applied) @
     rev (Put32 (of_nat (length voted))) @ voted"

text \<open>
  The temporary file replaces the state file in two steps: the old file is removed first. A process
  that dies in \<^verbatim>\<open>PersistLocked\<close> leaves one of the same files behind: dying before the removal is a
  write that fails, dying between the removal and the renaming is a renaming that fails.
\<close>

definition PersistLocked :: "persist_io \<Rightarrow> repl \<Rightarrow> repl" where
  "PersistLocked io s =
    (if \<not> rs_has_path s \<or> \<not> pio_write io then s
     else if pio_rename io
     then s\<lparr>rs_disk := Some (raft_file (rs_current_term s) (rs_commit_index s) (rs_last_applied s) (rs_voted_for s))\<rparr>
     else s\<lparr>rs_disk := None\<rparr>)"

text \<open>What \<^verbatim>\<open>LoadState\<close> reads: term, commit index, last applied and vote, or nothing.\<close>

definition read_raft_file :: "bytes \<Rightarrow> (u64 \<times> u64 \<times> u64 \<times> bytes) option" where
  "read_raft_file input = do {
     (magic, s1) \<leftarrow> in_read 4 input;
     if be_value (rev magic) \<noteq> kRaftMagic then None else do {
     (term, s2) \<leftarrow> in_read 8 s1;
     (commit, s3) \<leftarrow> in_read 8 s2;
     (applied, s4) \<leftarrow> in_read 8 s3;
     (voted_size, s5) \<leftarrow> in_read 4 s4;
     let n = unat (be_value (rev voted_size) :: u32);
     if n > 4096 then None else do {
     (voted, s6) \<leftarrow> in_read n s5;
     Some (be_value (rev term), be_value (rev commit), be_value (rev applied), voted) } } }"

definition LoadState :: "repl \<Rightarrow> repl" where
  "LoadState s =
    (if \<not> rs_has_path s then s
     else case rs_disk s of
       None \<Rightarrow> s
     | Some input \<Rightarrow>
         (case read_raft_file input of
            None \<Rightarrow> s
          | Some (term, commit, applied, voted) \<Rightarrow>
              s\<lparr>rs_current_term := term, rs_commit_index := commit, rs_last_applied := applied,
                rs_voted_for := voted\<rparr>))"

definition new_ReplicationCoordinator :: "bytes \<Rightarrow> ReplicaRole \<Rightarrow> int \<Rightarrow> bool \<Rightarrow> bytes option \<Rightarrow> repl" where
  "new_ReplicationCoordinator node_id role timeout has_path disk =
     LoadState
       \<lparr>rs_node_id = node_id, rs_heartbeat_timeout = timeout, rs_role = role, rs_leader_id = node_id,
        rs_voted_for = [], rs_current_term = 0, rs_local_offset = 0, rs_commit_index = 0, rs_last_applied = 0,
        rs_votes = [], rs_pre_votes = [], rs_missed_heartbeat_rounds = 0, rs_has_path = has_path, rs_disk = disk,
        rs_replicas = [], rs_partition_states = [], rs_partition_replicas = []\<rparr>"

section \<open>Queries\<close>

definition lastLogIndex :: "repl \<Rightarrow> u64" where
  "lastLogIndex s = foldl (\<lambda>result (_, st). max result (ps_local_offset st)) (rs_local_offset s) (rs_partition_states s)"

definition lastLogTerm :: "repl \<Rightarrow> u64" where
  "lastLogTerm s = foldl (\<lambda>result (_, st). max result (ps_last_log_term st)) 0 (rs_partition_states s)"

definition commitIndex_all :: "repl \<Rightarrow> u64" where
  "commitIndex_all s = foldl (\<lambda>result (_, st). max result (ps_commit_index st)) 0 (rs_partition_states s)"

definition commitIndex :: "repl \<Rightarrow> bytes \<Rightarrow> u64" where
  "commitIndex s partition_key =
    (case map_of (rs_partition_states s) partition_key of None \<Rightarrow> 0 | Some st \<Rightarrow> ps_commit_index st)"

definition Majority :: "repl \<Rightarrow> nat" where
  "Majority s = (length (rs_replicas s) + 1) div 2 + 1"

definition Healthy :: "repl \<Rightarrow> ReplicaProgress \<Rightarrow> int \<Rightarrow> bool" where
  "Healthy s replica now \<longleftrightarrow> rp_healthy replica \<and> now - rp_last_heartbeat replica \<le> rs_heartbeat_timeout s"

definition CanServeWrites :: "repl \<Rightarrow> int \<Rightarrow> bool" where
  "CanServeWrites s now =
    (if rs_role s \<noteq> kLeader then False
     else if rs_replicas s = [] then True
     else 1 + length (filter (\<lambda>(_, replica). Healthy s replica now) (rs_replicas s)) \<ge> Majority s)"

definition LogMatches :: "repl \<Rightarrow> bytes \<Rightarrow> u64 \<Rightarrow> u64 \<Rightarrow> bool" where
  "LogMatches s partition_key prev_log_index prev_log_term =
    (let st = (case map_of (rs_partition_states s) partition_key of None \<Rightarrow> default_PartitionState | Some st \<Rightarrow> st) in
     prev_log_index = 0 \<or> (prev_log_index = ps_local_offset st \<and> prev_log_term = ps_last_log_term st))"

definition NextLogIndex :: "repl \<Rightarrow> bytes \<Rightarrow> u64" where
  "NextLogIndex s partition_key =
    (case map_of (rs_partition_states s) partition_key of None \<Rightarrow> 0 | Some st \<Rightarrow> ps_local_offset st + 1)"

text \<open>The healthy replicas of a partition that hold the offset.\<close>

definition acknowledged_by :: "repl \<Rightarrow> bytes \<Rightarrow> u64 \<Rightarrow> int \<Rightarrow> bytes list" where
  "acknowledged_by s partition_key offset now =
    (case map_of (rs_partition_replicas s) partition_key of
       None \<Rightarrow> []
     | Some progress \<Rightarrow>
         map fst (filter (\<lambda>(_, replica). Healthy s replica now \<and> rp_replicated_offset replica \<ge> offset) progress))"

definition IsQuorumReplicated :: "repl \<Rightarrow> bytes \<Rightarrow> u64 \<Rightarrow> nat \<Rightarrow> int \<Rightarrow> bool" where
  "IsQuorumReplicated s partition_key offset count now =
    (if count = 0 then False
     else
       (case map_of (rs_partition_states s) partition_key of
          None \<Rightarrow> 0 | Some st \<Rightarrow> if ps_local_offset st \<ge> offset then 1 else 0) +
       length (acknowledged_by s partition_key offset now) \<ge> count)"

definition ElectLeader :: "repl \<Rightarrow> int \<Rightarrow> bytes" where
  "ElectLeader s now =
    (if rs_role s = kLeader then rs_node_id s
     else if Healthy s \<lparr>rp_node_id = rs_node_id s, rp_replicated_offset = 0, rp_last_heartbeat = now,
                        rp_healthy = True, rp_term = rs_current_term s\<rparr> now
     then rs_node_id s else [])"

definition Snapshot :: "repl \<Rightarrow> int \<Rightarrow> ReplicaProgress list" where
  "Snapshot s now =
     sort_key rp_node_id (map (\<lambda>(_, replica). replica\<lparr>rp_healthy := Healthy s replica now\<rparr>) (rs_replicas s))"

section \<open>Membership and heartbeats\<close>

definition SetLeader :: "persist_io \<Rightarrow> repl \<Rightarrow> bytes \<Rightarrow> repl" where
  "SetLeader io s node_id =
     PersistLocked io
       (s\<lparr>rs_leader_id := node_id, rs_role := (if node_id = rs_node_id s then kLeader else kFollower), rs_votes := []\<rparr>)"

definition RegisterReplica :: "repl \<Rightarrow> bytes \<Rightarrow> repl" where
  "RegisterReplica s node_id =
    (if node_id = [] \<or> node_id = rs_node_id s \<or> map_of (rs_replicas s) node_id \<noteq> None then s
     else s\<lparr>rs_replicas := AList.update node_id default_ReplicaProgress (rs_replicas s)\<rparr>)"

definition RemoveReplica :: "repl \<Rightarrow> bytes \<Rightarrow> repl" where
  "RemoveReplica s node_id =
     s\<lparr>rs_replicas := AList.delete node_id (rs_replicas s),
       rs_partition_replicas := map (\<lambda>(key, progress). (key, AList.delete node_id progress)) (rs_partition_replicas s)\<rparr>"

text \<open>\<^verbatim>\<open>partition_replicas_[partition][node_id]\<close>: the entry, default constructed when missing.\<close>

definition partition_progress :: "repl \<Rightarrow> bytes \<Rightarrow> (bytes, ReplicaProgress) umap" where
  "partition_progress s partition_key =
    (case map_of (rs_partition_replicas s) partition_key of None \<Rightarrow> [] | Some progress \<Rightarrow> progress)"

definition ObserveHeartbeat :: "repl \<Rightarrow> bytes \<Rightarrow> bytes \<Rightarrow> u64 \<Rightarrow> int \<Rightarrow> repl" where
  "ObserveHeartbeat s partition_key node_id replicated_offset now =
    (if node_id = [] \<or> node_id = rs_node_id s then s
     else case map_of (rs_replicas s) node_id of
       None \<Rightarrow> s
     | Some replica \<Rightarrow>
         let observe = (\<lambda>r. \<lparr>rp_node_id = node_id, rp_replicated_offset = max (rp_replicated_offset r) replicated_offset,
               rp_last_heartbeat = now, rp_healthy = True, rp_term = rs_current_term s\<rparr>);
             progress = partition_progress s partition_key;
             old = (case map_of progress node_id of None \<Rightarrow> default_ReplicaProgress | Some r \<Rightarrow> r)
         in s\<lparr>rs_replicas := AList.update node_id (observe replica) (rs_replicas s),
              rs_partition_replicas :=
                AList.update partition_key (AList.update node_id (observe old) progress) (rs_partition_replicas s)\<rparr>)"

definition ObserveHeartbeatRound :: "repl \<Rightarrow> bool \<Rightarrow> repl \<times> bool" where
  "ObserveHeartbeatRound s majority_responded =
    (if rs_role s \<noteq> kLeader then (s, False)
     else if majority_responded then (s\<lparr>rs_missed_heartbeat_rounds := 0\<rparr>, True)
     else
       let s' = s\<lparr>rs_missed_heartbeat_rounds := rs_missed_heartbeat_rounds s + 1\<rparr> in
       if rs_missed_heartbeat_rounds s' < 3 then (s', True)
       else (s'\<lparr>rs_role := kFollower, rs_leader_id := [], rs_votes := []\<rparr>, False))"

section \<open>Log replication\<close>

definition partition_state :: "repl \<Rightarrow> bytes \<Rightarrow> PartitionState" where
  "partition_state s partition_key =
    (case map_of (rs_partition_states s) partition_key of None \<Rightarrow> default_PartitionState | Some st \<Rightarrow> st)"

definition ObserveAppend ::
  "persist_io \<Rightarrow> repl \<Rightarrow> bytes \<Rightarrow> u64 \<Rightarrow> bytes \<Rightarrow> u64 \<Rightarrow> u64 \<Rightarrow> int \<Rightarrow> repl \<times> bool" where
  "ObserveAppend io s partition_key term leader_id replicated_offset leader_commit now =
    (if term < rs_current_term s \<or> leader_id = [] then (s, False)
     else if leader_id \<noteq> rs_node_id s \<and> map_of (rs_replicas s) leader_id = None then (s, False)
     else
       let s1 = (if term > rs_current_term s
                 then PersistLocked io (s\<lparr>rs_current_term := term, rs_voted_for := []\<rparr>) else s);
           st = partition_state s1 partition_key;
           commit = min (max (ps_commit_index st) leader_commit) replicated_offset;
           s2 = PersistLocked (second_save io)
             (s1\<lparr>rs_leader_id := leader_id,
                 rs_role := (if leader_id = rs_node_id s1 then kLeader else kFollower),
                 rs_partition_states :=
                   AList.update partition_key (st\<lparr>ps_commit_index := commit\<rparr>) (rs_partition_states s1),
                 rs_commit_index := max (rs_commit_index s1) commit,
                 rs_last_applied := max (rs_last_applied s1) commit\<rparr>)
       in (case map_of (rs_replicas s2) leader_id of
             Some replica \<Rightarrow>
               if leader_id = rs_node_id s2 then s2
               else
                 let replica' = replica\<lparr>rp_node_id := leader_id, rp_last_heartbeat := now, rp_healthy := True, rp_term := term\<rparr>
                 in s2\<lparr>rs_replicas := AList.update leader_id replica' (rs_replicas s2),
                       rs_partition_replicas :=
                         AList.update partition_key
                           (AList.update leader_id (replica'\<lparr>rp_replicated_offset := replicated_offset\<rparr>)
                             (partition_progress s2 partition_key)) (rs_partition_replicas s2)\<rparr>
           | None \<Rightarrow> s2, True))"

definition AdvanceCommit :: "persist_io \<Rightarrow> repl \<Rightarrow> bytes \<Rightarrow> u64 \<Rightarrow> int \<Rightarrow> repl \<times> bool" where
  "AdvanceCommit io s partition_key offset now =
    (if rs_role s \<noteq> kLeader then (s, False)
     else
       let st = partition_state s partition_key;
           s1 = s\<lparr>rs_partition_states := AList.update partition_key st (rs_partition_states s)\<rparr>
       in if offset > ps_local_offset st \<or> ps_last_log_term st \<noteq> rs_current_term s then (s1, False)
          else if 1 + length (acknowledged_by s partition_key offset now) < Majority s then (s1, False)
          else
            let commit = max (ps_commit_index st) offset
            in (PersistLocked io
                  (s1\<lparr>rs_partition_states :=
                        AList.update partition_key (st\<lparr>ps_commit_index := commit, ps_last_applied := commit\<rparr>)
                          (rs_partition_states s1),
                      rs_commit_index := max (rs_commit_index s1) commit,
                      rs_last_applied := max (rs_last_applied s1) commit\<rparr>), True))"

definition RecordLocalOffset :: "repl \<Rightarrow> bytes \<Rightarrow> u64 \<Rightarrow> repl" where
  "RecordLocalOffset s partition_key offset =
    (let st = partition_state s partition_key in
     s\<lparr>rs_partition_states := AList.update partition_key
         (st\<lparr>ps_local_offset := max (ps_local_offset st) offset, ps_last_log_term := rs_current_term s\<rparr>)
         (rs_partition_states s)\<rparr>)"

section \<open>Elections\<close>

definition BeginElection :: "persist_io \<Rightarrow> repl \<Rightarrow> repl \<times> (u64 \<times> bytes)" where
  "BeginElection io s =
    (let s' = PersistLocked io
       (s\<lparr>rs_current_term := rs_current_term s + 1, rs_role := kCandidate, rs_leader_id := [],
          rs_voted_for := rs_node_id s, rs_votes := [rs_node_id s]\<rparr>)
     in (s', (rs_current_term s', rs_node_id s')))"

definition BeginPreVote :: "repl \<Rightarrow> u64 \<times> bytes" where
  "BeginPreVote s = (rs_current_term s + 1, rs_node_id s)"

text \<open>A node that is this one or a registered replica.\<close>

definition known_node :: "repl \<Rightarrow> bytes \<Rightarrow> bool" where
  "known_node s node_id \<longleftrightarrow> node_id = rs_node_id s \<or> map_of (rs_replicas s) node_id \<noteq> None"

definition ObservePreVote :: "repl \<Rightarrow> u64 \<Rightarrow> bytes \<Rightarrow> bool \<Rightarrow> repl \<times> bool" where
  "ObservePreVote s term voter_id granted =
    (if term \<noteq> rs_current_term s + 1 \<or> \<not> granted \<or> voter_id = [] \<or> \<not> known_node s voter_id then (s, False)
     else
       let pre_votes = List.insert voter_id (rs_pre_votes s)
       in (s\<lparr>rs_pre_votes := pre_votes\<rparr>, length pre_votes \<ge> Majority s))"

definition RequestVote :: "persist_io \<Rightarrow> repl \<Rightarrow> u64 \<Rightarrow> bytes \<Rightarrow> u64 \<Rightarrow> u64 \<Rightarrow> repl \<times> bool" where
  "RequestVote io s term candidate_id candidate_last_log_index candidate_last_log_term =
    (if candidate_id = [] \<or> term < rs_current_term s \<or> \<not> known_node s candidate_id then (s, False)
     else if candidate_last_log_term < lastLogTerm s \<or>
             (candidate_last_log_term = lastLogTerm s \<and> candidate_last_log_index < lastLogIndex s)
     then (s, False)
     else
       let s1 = (if term > rs_current_term s
                 then s\<lparr>rs_current_term := term, rs_voted_for := [], rs_role := kFollower, rs_leader_id := []\<rparr>
                 else s)
       in if rs_voted_for s1 \<noteq> [] \<and> rs_voted_for s1 \<noteq> candidate_id then (s1, False)
          else (PersistLocked io (s1\<lparr>rs_voted_for := candidate_id\<rparr>), True))"

definition RequestPreVote :: "repl \<Rightarrow> u64 \<Rightarrow> bytes \<Rightarrow> u64 \<Rightarrow> u64 \<Rightarrow> bool" where
  "RequestPreVote s term candidate_id candidate_last_log_index candidate_last_log_term =
    (if candidate_id = [] \<or> term < rs_current_term s \<or> \<not> known_node s candidate_id then False
     else candidate_last_log_term > lastLogTerm s \<or>
       (candidate_last_log_term = lastLogTerm s \<and> candidate_last_log_index \<ge> lastLogIndex s))"

definition ObserveVote :: "persist_io \<Rightarrow> repl \<Rightarrow> u64 \<Rightarrow> bytes \<Rightarrow> bool \<Rightarrow> repl \<times> bool" where
  "ObserveVote io s term voter_id granted =
    (if term \<noteq> rs_current_term s \<or> rs_role s \<noteq> kCandidate \<or> \<not> granted \<or> voter_id = [] then (s, False)
     else if \<not> known_node s voter_id then (s, False)
     else
       let s1 = s\<lparr>rs_votes := List.insert voter_id (rs_votes s)\<rparr>
       in if length (rs_votes s1) \<ge> Majority s1
          then (PersistLocked io (s1\<lparr>rs_role := kLeader, rs_leader_id := rs_node_id s1, rs_voted_for := rs_node_id s1\<rparr>), True)
          else (s1, False))"

section \<open>The overloads without a partition\<close>

definition ObserveHeartbeat_legacy :: "repl \<Rightarrow> bytes \<Rightarrow> u64 \<Rightarrow> int \<Rightarrow> repl" where
  "ObserveHeartbeat_legacy s = ObserveHeartbeat s kLegacyPartition"

definition ObserveAppend_legacy :: "persist_io \<Rightarrow> repl \<Rightarrow> u64 \<Rightarrow> bytes \<Rightarrow> u64 \<Rightarrow> u64 \<Rightarrow> int \<Rightarrow> repl \<times> bool" where
  "ObserveAppend_legacy io s = ObserveAppend io s kLegacyPartition"

definition RequestVote_legacy :: "persist_io \<Rightarrow> repl \<Rightarrow> u64 \<Rightarrow> bytes \<Rightarrow> repl \<times> bool" where
  "RequestVote_legacy io s term candidate_id = RequestVote io s term candidate_id 0 0"

definition AdvanceCommit_legacy :: "persist_io \<Rightarrow> repl \<Rightarrow> u64 \<Rightarrow> int \<Rightarrow> repl \<times> bool" where
  "AdvanceCommit_legacy io s = AdvanceCommit io s kLegacyPartition"

definition RecordLocalOffset_legacy :: "repl \<Rightarrow> u64 \<Rightarrow> repl" where
  "RecordLocalOffset_legacy s = RecordLocalOffset s kLegacyPartition"

definition IsQuorumReplicated_legacy :: "repl \<Rightarrow> u64 \<Rightarrow> nat \<Rightarrow> int \<Rightarrow> bool" where
  "IsQuorumReplicated_legacy s = IsQuorumReplicated s kLegacyPartition"

end
