(* ===== verification/Election.thy ===== *)
theory Election
  imports Replication "HOL-Library.Sublist"
begin

text \<open>
  Leader election in a cluster of replication coordinators. \<open>cluster\<close> has the state of every node and
  three history sets: the votes that were granted (term, voter, candidate), the elections that were
  won (term, node) and the reports that were received (node, partition, reporting node, offset, time).
  The steps are the public operations of \<^verbatim>\<open>src/server/replication.cc\<close> on one node,
  in any order and with any arguments, and crashes with restart from the state file; the network may
  delay, repeat, drop and reorder requests, and a vote reply reaches a candidate only if that vote
  was granted to it. The membership is fixed, as \<^verbatim>\<open>Broker\<close> registers it from its configuration. Every
  save of the state file may fail, and a node may die inside one; the parameter \<open>survives\<close> of the
  relation says in which states a crash is considered. Election safety holds when a node that restarts
  finds its term and its vote in the file (\<open>state_saved\<close>) and not otherwise, see \<open>lost_state_two_winners\<close>.

  The argument is the one of quorum systems, stated as a locale: two majorities intersect.
\<close>

section \<open>Quorums\<close>

locale quorum_system =
  fixes quorum :: "'n set \<Rightarrow> bool"
  assumes quorums_intersect: "quorum Q \<Longrightarrow> quorum Q' \<Longrightarrow> Q \<inter> Q' \<noteq> {}"
begin

lemma unique_winner:
  assumes "\<And>v c c'. (v, c) \<in> votes \<Longrightarrow> (v, c') \<in> votes \<Longrightarrow> c = c'"
    and "quorum Q" and "\<forall>v \<in> Q. (v, c) \<in> votes" and "quorum Q'" and "\<forall>v \<in> Q'. (v, c') \<in> votes"
  shows "c = c'"
proof -
  from quorums_intersect [OF assms(2,4)] obtain v where "v \<in> Q" "v \<in> Q'" by blast
  with assms show ?thesis by blast
qed

end

definition majority_of :: "bytes list \<Rightarrow> bytes set \<Rightarrow> bool" where
  "majority_of nodes Q \<longleftrightarrow> Q \<subseteq> set nodes \<and> card (set nodes) div 2 + 1 \<le> card Q"

interpretation majority: quorum_system "majority_of nodes" for nodes
proof
  fix Q Q'
  assume q: "majority_of nodes Q" "majority_of nodes Q'"
  show "Q \<inter> Q' \<noteq> {}"
  proof
    assume disj: "Q \<inter> Q' = {}"
    have sub: "Q \<union> Q' \<subseteq> set nodes" "finite Q" "finite Q'"
      using q finite_subset by (auto simp: majority_of_def)
    have "card Q + card Q' = card (Q \<union> Q')" using disj sub by (simp add: card_Un_disjoint)
    also have "\<dots> \<le> card (set nodes)" using sub by (intro card_mono) simp_all
    finally have "card Q + card Q' \<le> card (set nodes)" .
    moreover have "card (set nodes) div 2 + 1 \<le> card Q" "card (set nodes) div 2 + 1 \<le> card Q'"
      using q by (simp_all add: majority_of_def)
    ultimately show False by linarith
  qed
qed

section \<open>What the operations do to term, vote and role\<close>

lemma PersistLocked_fields [simp]:
  "rs_node_id (PersistLocked io s) = rs_node_id s" "rs_role (PersistLocked io s) = rs_role s"
  "rs_leader_id (PersistLocked io s) = rs_leader_id s" "rs_voted_for (PersistLocked io s) = rs_voted_for s"
  "rs_current_term (PersistLocked io s) = rs_current_term s" "rs_commit_index (PersistLocked io s) = rs_commit_index s"
  "rs_last_applied (PersistLocked io s) = rs_last_applied s" "rs_votes (PersistLocked io s) = rs_votes s"
  "rs_has_path (PersistLocked io s) = rs_has_path s" "rs_replicas (PersistLocked io s) = rs_replicas s"
  "rs_partition_states (PersistLocked io s) = rs_partition_states s"
  "rs_partition_replicas (PersistLocked io s) = rs_partition_replicas s"
  "rs_local_offset (PersistLocked io s) = rs_local_offset s"
  by (simp_all add: PersistLocked_def)

definition good_persist :: persist_io where
  "good_persist = \<lparr>pio_write = True, pio_rename = True, pio_second = (True, True)\<rparr>"

lemma read_raft_file_inverse:
  assumes "length voted \<le> 4096"
  shows "read_raft_file (raft_file term commit applied voted) = Some (term, commit, applied, voted)"
proof -
  have "unat (of_nat (length voted) :: u32) = length voted" using assms by (intro unat_of_nat_fits) simp
  with assms show ?thesis by (simp add: read_raft_file_def raft_file_def Let_def)
qed

text \<open>What a restart reads back from the state file, and that it is the term and the vote in memory.\<close>

definition reload :: "bytes option \<Rightarrow> u64 \<times> bytes" where
  "reload disk =
    (case disk of
       None \<Rightarrow> (0, [])
     | Some input \<Rightarrow> (case read_raft_file input of None \<Rightarrow> (0, []) | Some (term, _, _, voted) \<Rightarrow> (term, voted)))"

definition state_saved :: "repl \<Rightarrow> bool" where
  "state_saved s \<longleftrightarrow> reload (rs_disk s) = (rs_current_term s, rs_voted_for s)"

text \<open>A save that succeeds establishes it.\<close>

lemma PersistLocked_saves:
  assumes "rs_has_path s" and "pio_write io" and "pio_rename io" and "length (rs_voted_for s) \<le> 4096"
  shows "state_saved (PersistLocked io s)"
  using assms by (simp add: state_saved_def reload_def PersistLocked_def read_raft_file_inverse)

definition member_ok :: "bytes list \<Rightarrow> bytes \<Rightarrow> repl \<Rightarrow> bool" where
  "member_ok nodes n s \<longleftrightarrow> rs_node_id s = n \<and> fst ` set (rs_replicas s) = set nodes - {n} \<and> umap_ok (rs_replicas s)"

definition node_ok :: "bytes list \<Rightarrow> bytes \<Rightarrow> repl \<Rightarrow> bool" where
  "node_ok nodes n s \<longleftrightarrow> member_ok nodes n s \<and> (rs_voted_for s = [] \<or> rs_voted_for s \<in> set nodes) \<and>
     (rs_role s = kCandidate \<longrightarrow> rs_voted_for s = n) \<and> distinct (rs_votes s)"

definition names_ok :: "bytes list \<Rightarrow> bool" where
  "names_ok nodes \<longleftrightarrow> [] \<notin> set nodes \<and> (\<forall>n \<in> set nodes. length n \<le> 4096)"

lemma member_ok_cong:
  "rs_node_id s' = rs_node_id s \<Longrightarrow> fst ` set (rs_replicas s') = fst ` set (rs_replicas s) \<Longrightarrow>
     umap_ok (rs_replicas s') = umap_ok (rs_replicas s) \<Longrightarrow> member_ok nodes n s' = member_ok nodes n s"
  by (simp add: member_ok_def)

lemma known_node_iff:
  assumes "member_ok nodes n s" and "n \<in> set nodes"
  shows "known_node s x \<longleftrightarrow> x \<in> set nodes"
proof -
  have "map_of (rs_replicas s) x \<noteq> None \<longleftrightarrow> x \<in> fst ` set (rs_replicas s)" by (simp add: map_of_eq_None_iff)
  with assms show ?thesis by (auto simp: known_node_def member_ok_def)
qed

lemma BeginElection_eq:
  "BeginElection io s = (PersistLocked io (s\<lparr>rs_current_term := rs_current_term s + 1, rs_role := kCandidate,
     rs_leader_id := [], rs_voted_for := rs_node_id s, rs_votes := [rs_node_id s]\<rparr>), rs_current_term s + 1, rs_node_id s)"
  by (simp add: BeginElection_def Let_def)

lemma RequestVote_cases:
  assumes "RequestVote io s t cand li lt = (s', granted)"
  shows "\<not> granted \<and> s' = s \<or>
    granted \<and> rs_current_term s \<le> t \<and> cand \<noteq> [] \<and> known_node s cand \<and>
      (t = rs_current_term s \<longrightarrow> rs_voted_for s = [] \<or> rs_voted_for s = cand) \<and>
      s' = PersistLocked io (s\<lparr>rs_current_term := t, rs_role := (if t = rs_current_term s then rs_role s else kFollower),
        rs_leader_id := (if t = rs_current_term s then rs_leader_id s else []), rs_voted_for := cand, rs_votes := rs_votes s\<rparr>)"
  using assms by (auto simp: RequestVote_def Let_def not_less split: if_splits)

text \<open>Every operation that changes neither term nor vote nor candidacy keeps \<open>node_ok\<close>.\<close>

lemma node_ok_frame:
  assumes "node_ok nodes n s" and "member_ok nodes n s'"
    and "rs_voted_for s' = rs_voted_for s" and "rs_role s' = kCandidate \<Longrightarrow> rs_role s = kCandidate"
    and "distinct (rs_votes s')"
  shows "node_ok nodes n s'"
  using assms by (simp add: node_ok_def)

lemma node_ok_new_vote:
  assumes "node_ok nodes n s" and "cand \<in> set nodes" and "role = kCandidate \<longrightarrow> cand = n" and "distinct votes"
  shows "node_ok nodes n (PersistLocked io (s\<lparr>rs_current_term := t, rs_role := role, rs_leader_id := leader,
     rs_voted_for := cand, rs_votes := votes\<rparr>))"
  using assms by (simp add: node_ok_def member_ok_def)

section \<open>The cluster\<close>

record cluster =
  cl_node :: "bytes \<Rightarrow> repl"
  cl_grants :: "(u64 \<times> bytes \<times> bytes) set"
  cl_elected :: "(u64 \<times> bytes) set"
  cl_reports :: "(bytes \<times> bytes \<times> bytes \<times> u64 \<times> int) set"

text \<open>A node starts from its state file and registers its peers.\<close>

definition start_node :: "bytes list \<Rightarrow> ReplicaRole \<Rightarrow> int \<Rightarrow> bytes \<Rightarrow> bytes option \<Rightarrow> repl" where
  "start_node nodes role timeout n disk =
     foldl RegisterReplica (new_ReplicationCoordinator n role timeout True disk) nodes"

definition init_cluster :: "bytes list \<Rightarrow> (bytes \<Rightarrow> ReplicaRole) \<Rightarrow> int \<Rightarrow> cluster" where
  "init_cluster nodes role timeout =
     \<lparr>cl_node = (\<lambda>n. start_node nodes (role n) timeout n None), cl_grants = {}, cl_elected = {}, cl_reports = {}\<rparr>"

definition set_node :: "cluster \<Rightarrow> bytes \<Rightarrow> repl \<Rightarrow> cluster" where
  "set_node c n s = c\<lparr>cl_node := (cl_node c)(n := s)\<rparr>"

inductive cluster_step :: "bytes list \<Rightarrow> (repl \<Rightarrow> bool) \<Rightarrow> cluster \<Rightarrow> cluster \<Rightarrow> bool" for nodes survives where
  begin_election:
    "n \<in> set nodes \<Longrightarrow> rs_current_term (cl_node c n) + 1 \<noteq> 0 \<Longrightarrow> BeginElection io (cl_node c n) = (s, t, x) \<Longrightarrow>
     cluster_step nodes survives c (set_node c n s\<lparr>cl_grants := insert (t, n, n) (cl_grants c)\<rparr>)"
| request_vote:
    "v \<in> set nodes \<Longrightarrow> RequestVote io (cl_node c v) t cand li lt = (s, granted) \<Longrightarrow>
     cluster_step nodes survives c (set_node c v s\<lparr>cl_grants := (if granted then insert (t, v, cand) (cl_grants c) else cl_grants c)\<rparr>)"
| observe_vote:
    "n \<in> set nodes \<Longrightarrow> (t, v, n) \<in> cl_grants c \<Longrightarrow> ObserveVote io (cl_node c n) t v True = (s, won) \<Longrightarrow>
     cluster_step nodes survives c (set_node c n s\<lparr>cl_elected := (if won then insert (t, n) (cl_elected c) else cl_elected c)\<rparr>)"
| observe_append:
    "n \<in> set nodes \<Longrightarrow> ObserveAppend io (cl_node c n) key t leader off commit now = (s, accepted) \<Longrightarrow>
     cluster_step nodes survives c (set_node c n s\<lparr>cl_reports := insert (n, key, leader, off, now) (cl_reports c)\<rparr>)"
| pre_vote:
    "n \<in> set nodes \<Longrightarrow> cluster_step nodes survives c (set_node c n (fst (ObservePreVote (cl_node c n) t v granted)))"
| heartbeat:
    "n \<in> set nodes \<Longrightarrow> cluster_step nodes survives c
       (set_node c n (ObserveHeartbeat (cl_node c n) key v off now)\<lparr>cl_reports := insert (n, key, v, off, now) (cl_reports c)\<rparr>)"
| heartbeat_round:
    "n \<in> set nodes \<Longrightarrow> cluster_step nodes survives c (set_node c n (fst (ObserveHeartbeatRound (cl_node c n) responded)))"
| advance_commit:
    "n \<in> set nodes \<Longrightarrow> cluster_step nodes survives c (set_node c n (fst (AdvanceCommit io (cl_node c n) key off now)))"
| record_local:
    "n \<in> set nodes \<Longrightarrow> cluster_step nodes survives c (set_node c n (RecordLocalOffset (cl_node c n) key off))"
| set_leader:
    "n \<in> set nodes \<Longrightarrow> cluster_step nodes survives c (set_node c n (SetLeader io (cl_node c n) leader))"
| restart_node:
    "n \<in> set nodes \<Longrightarrow> role \<noteq> kCandidate \<Longrightarrow> survives (cl_node c n) \<Longrightarrow>
     cluster_step nodes survives c (set_node c n (start_node nodes role timeout n (rs_disk (cl_node c n))))"

inductive cluster_reachable :: "bytes list \<Rightarrow> (repl \<Rightarrow> bool) \<Rightarrow> cluster \<Rightarrow> bool" for nodes survives where
  init: "(\<And>n. role n \<noteq> kCandidate) \<Longrightarrow> cluster_reachable nodes survives (init_cluster nodes role timeout)"
| step: "cluster_reachable nodes survives c \<Longrightarrow> cluster_step nodes survives c c' \<Longrightarrow> cluster_reachable nodes survives c'"

section \<open>Every step keeps the election invariant\<close>

definition grants_ok :: "bytes list \<Rightarrow> cluster \<Rightarrow> bool" where
  "grants_ok nodes c \<longleftrightarrow> (\<forall>t v cand. (t, v, cand) \<in> cl_grants c \<longrightarrow>
     v \<in> set nodes \<and> cand \<noteq> [] \<and> t \<le> rs_current_term (cl_node c v) \<and>
     (t = rs_current_term (cl_node c v) \<longrightarrow> rs_voted_for (cl_node c v) = cand))"

definition one_vote :: "cluster \<Rightarrow> bool" where
  "one_vote c \<longleftrightarrow> (\<forall>t v cand cand'. (t, v, cand) \<in> cl_grants c \<longrightarrow> (t, v, cand') \<in> cl_grants c \<longrightarrow> cand = cand')"

definition candidates_ok :: "bytes list \<Rightarrow> cluster \<Rightarrow> bool" where
  "candidates_ok nodes c \<longleftrightarrow> (\<forall>n v. n \<in> set nodes \<longrightarrow> rs_role (cl_node c n) = kCandidate \<longrightarrow>
     v \<in> set (rs_votes (cl_node c n)) \<longrightarrow> (rs_current_term (cl_node c n), v, n) \<in> cl_grants c)"

definition elected_ok :: "bytes list \<Rightarrow> cluster \<Rightarrow> bool" where
  "elected_ok nodes c \<longleftrightarrow> (\<forall>t n. (t, n) \<in> cl_elected c \<longrightarrow>
     (\<exists>Q. majority_of nodes Q \<and> (\<forall>v \<in> Q. (t, v, n) \<in> cl_grants c)))"

definition votes_ok :: "bytes list \<Rightarrow> cluster \<Rightarrow> bool" where
  "votes_ok nodes c \<longleftrightarrow> (\<forall>n. n \<in> set nodes \<longrightarrow> node_ok nodes n (cl_node c n)) \<and>
     grants_ok nodes c \<and> one_vote c \<and> candidates_ok nodes c \<and> elected_ok nodes c"

lemma votes_okI:
  assumes "\<And>n. n \<in> set nodes \<Longrightarrow> node_ok nodes n (cl_node c n)"
    and "\<And>t v cand. (t, v, cand) \<in> cl_grants c \<Longrightarrow> v \<in> set nodes \<and> cand \<noteq> [] \<and> t \<le> rs_current_term (cl_node c v) \<and>
        (t = rs_current_term (cl_node c v) \<longrightarrow> rs_voted_for (cl_node c v) = cand)"
    and "\<And>t v cand cand'. (t, v, cand) \<in> cl_grants c \<Longrightarrow> (t, v, cand') \<in> cl_grants c \<Longrightarrow> cand = cand'"
    and "\<And>n v. n \<in> set nodes \<Longrightarrow> rs_role (cl_node c n) = kCandidate \<Longrightarrow> v \<in> set (rs_votes (cl_node c n)) \<Longrightarrow>
        (rs_current_term (cl_node c n), v, n) \<in> cl_grants c"
    and "\<And>t n. (t, n) \<in> cl_elected c \<Longrightarrow> \<exists>Q. majority_of nodes Q \<and> (\<forall>v \<in> Q. (t, v, n) \<in> cl_grants c)"
  shows "votes_ok nodes c"
  unfolding votes_ok_def grants_ok_def one_vote_def candidates_ok_def elected_ok_def
  by (intro conjI allI impI) (use assms in simp_all)

lemma votes_okD:
  assumes "votes_ok nodes c"
  shows "n \<in> set nodes \<Longrightarrow> node_ok nodes n (cl_node c n)"
    and "(t, v, cand) \<in> cl_grants c \<Longrightarrow> v \<in> set nodes \<and> cand \<noteq> [] \<and> t \<le> rs_current_term (cl_node c v) \<and>
        (t = rs_current_term (cl_node c v) \<longrightarrow> rs_voted_for (cl_node c v) = cand)"
    and "(t, v, cand) \<in> cl_grants c \<Longrightarrow> (t, v, cand') \<in> cl_grants c \<Longrightarrow> cand = cand'"
    and "n \<in> set nodes \<Longrightarrow> rs_role (cl_node c n) = kCandidate \<Longrightarrow> v \<in> set (rs_votes (cl_node c n)) \<Longrightarrow>
        (rs_current_term (cl_node c n), v, n) \<in> cl_grants c"
    and "(t, n) \<in> cl_elected c \<Longrightarrow> \<exists>Q. majority_of nodes Q \<and> (\<forall>v \<in> Q. (t, v, n) \<in> cl_grants c)"
proof -
  have parts: "grants_ok nodes c" "one_vote c" "candidates_ok nodes c" "elected_ok nodes c"
    using assms by (simp_all add: votes_ok_def)
  show "n \<in> set nodes \<Longrightarrow> node_ok nodes n (cl_node c n)" using assms by (simp add: votes_ok_def)
  show "(t, v, cand) \<in> cl_grants c \<Longrightarrow> v \<in> set nodes \<and> cand \<noteq> [] \<and> t \<le> rs_current_term (cl_node c v) \<and>
      (t = rs_current_term (cl_node c v) \<longrightarrow> rs_voted_for (cl_node c v) = cand)"
    using parts(1) unfolding grants_ok_def by iprover
  show "(t, v, cand) \<in> cl_grants c \<Longrightarrow> (t, v, cand') \<in> cl_grants c \<Longrightarrow> cand = cand'"
    using parts(2) unfolding one_vote_def by iprover
  show "n \<in> set nodes \<Longrightarrow> rs_role (cl_node c n) = kCandidate \<Longrightarrow> v \<in> set (rs_votes (cl_node c n)) \<Longrightarrow>
      (rs_current_term (cl_node c n), v, n) \<in> cl_grants c"
    using parts(3) unfolding candidates_ok_def by iprover
  show "(t, n) \<in> cl_elected c \<Longrightarrow> \<exists>Q. majority_of nodes Q \<and> (\<forall>v \<in> Q. (t, v, n) \<in> cl_grants c)"
    using parts(4) unfolding elected_ok_def by iprover
qed

lemma votes_ok_reports [simp]: "votes_ok nodes (c\<lparr>cl_reports := x\<rparr>) = votes_ok nodes c"
  by (simp add: votes_ok_def grants_ok_def one_vote_def candidates_ok_def elected_ok_def)

lemma set_node_fields [simp]:
  "cl_node (set_node c n s) x = (if x = n then s else cl_node c x)"
  "cl_grants (set_node c n s) = cl_grants c" "cl_elected (set_node c n s) = cl_elected c"
  "cl_reports (set_node c n s) = cl_reports c"
  by (simp_all add: set_node_def)

text \<open>
  The one induction step behind all others: node \<open>n\<close> changes to \<open>s\<close> and the vote \<open>new\<close>, if any, is
  granted. Term and vote may only move forward, and a candidate's votes must have been granted.
\<close>

lemma votes_ok_change:
  assumes ok: "votes_ok nodes c" and n: "n \<in> set nodes" and node: "node_ok nodes n s"
    and t: "rs_current_term (cl_node c n) \<le> rs_current_term s"
    and vote: "rs_current_term s = rs_current_term (cl_node c n) \<Longrightarrow> rs_voted_for (cl_node c n) \<noteq> [] \<Longrightarrow>
      rs_voted_for s = rs_voted_for (cl_node c n)"
    and new: "\<And>t' v cand. (t', v, cand) \<in> new \<Longrightarrow> v = n \<and> cand \<noteq> [] \<and> t' = rs_current_term s \<and> cand = rs_voted_for s"
    and cand: "\<And>v. rs_role s = kCandidate \<Longrightarrow> v \<in> set (rs_votes s) \<Longrightarrow> (rs_current_term s, v, n) \<in> new \<union> cl_grants c"
  shows "votes_ok nodes (set_node c n s\<lparr>cl_grants := new \<union> cl_grants c\<rparr>)"
proof (rule votes_okI)
  let ?c = "set_node c n s\<lparr>cl_grants := new \<union> cl_grants c\<rparr>"
  note D = votes_okD [OF ok]
  have old: "v \<in> set nodes \<and> cand \<noteq> [] \<and> t' \<le> rs_current_term (cl_node ?c v) \<and>
      (t' = rs_current_term (cl_node ?c v) \<longrightarrow> rs_voted_for (cl_node ?c v) = cand)"
    if g: "(t', v, cand) \<in> cl_grants c" for t' v cand
  proof (cases "v = n")
    case True
    with D(2) [OF g] t have le: "t' \<le> rs_current_term s" "t' \<le> rs_current_term (cl_node c n)" by auto
    have "rs_voted_for s = cand" if eq: "t' = rs_current_term s"
    proof -
      have same: "rs_current_term s = rs_current_term (cl_node c n)" using eq le t by simp
      with D(2) [OF g] True eq have "rs_voted_for (cl_node c n) = cand" "cand \<noteq> []" by simp_all
      with vote same show ?thesis by simp
    qed
    with True n D(2) [OF g] le show ?thesis by simp
  next
    case False
    with D(2) [OF g] show ?thesis by simp
  qed
  show "node_ok nodes x (cl_node ?c x)" if "x \<in> set nodes" for x using that node D(1) by simp
  show all: "v \<in> set nodes \<and> cand \<noteq> [] \<and> t' \<le> rs_current_term (cl_node ?c v) \<and>
      (t' = rs_current_term (cl_node ?c v) \<longrightarrow> rs_voted_for (cl_node ?c v) = cand)"
    if "(t', v, cand) \<in> cl_grants ?c" for t' v cand
  proof (cases "(t', v, cand) \<in> new")
    case True
    with new [OF True] n show ?thesis by auto
  next
    case False
    with that have "(t', v, cand) \<in> cl_grants c" by simp
    then show ?thesis by (rule old)
  qed
  show "cand = cand'" if "(t', v, cand) \<in> cl_grants ?c" "(t', v, cand') \<in> cl_grants ?c" for t' v cand cand'
  proof (cases "(t', v, cand) \<in> new \<or> (t', v, cand') \<in> new")
    case True
    then have "v = n" "t' = rs_current_term s" using new by blast+
    then show ?thesis using all [OF that(1)] all [OF that(2)] by simp
  next
    case False
    with that D(3) show ?thesis by simp
  qed
  show "(rs_current_term (cl_node ?c x), v, x) \<in> cl_grants ?c"
    if "x \<in> set nodes" "rs_role (cl_node ?c x) = kCandidate" "v \<in> set (rs_votes (cl_node ?c x))" for x v
  proof (cases "x = n")
    case True
    with that cand [of v] show ?thesis by simp
  next
    case False
    with that D(4) [of x v] show ?thesis by simp
  qed
  show "\<exists>Q. majority_of nodes Q \<and> (\<forall>v \<in> Q. (t', v, x) \<in> cl_grants ?c)" if "(t', x) \<in> cl_elected ?c" for t' x
    using that D(5) [of t' x] by auto
qed

lemma set_node_grants [simp]: "set_node c n s\<lparr>cl_grants := cl_grants c\<rparr> = set_node c n s"
  by (simp add: set_node_def)

lemmas votes_ok_same = votes_ok_change [where new = "{}", simplified]

section \<open>The steps\<close>

lemma start_node_fields:
  "foldl RegisterReplica s peers =
     s\<lparr>rs_replicas := rs_replicas (foldl RegisterReplica s peers)\<rparr> \<and>
   fst ` set (rs_replicas (foldl RegisterReplica s peers)) = fst ` set (rs_replicas s) \<union> (set peers - {[], rs_node_id s}) \<and>
   (umap_ok (rs_replicas s) \<longrightarrow> umap_ok (rs_replicas (foldl RegisterReplica s peers)))"
proof (induction peers arbitrary: s)
  case Nil
  then show ?case by simp
next
  case (Cons p peers)
  have first: "RegisterReplica s p = s\<lparr>rs_replicas := rs_replicas (RegisterReplica s p)\<rparr>"
    "fst ` set (rs_replicas (RegisterReplica s p)) = fst ` set (rs_replicas s) \<union> ({p} - {[], rs_node_id s})"
    "umap_ok (rs_replicas s) \<longrightarrow> umap_ok (rs_replicas (RegisterReplica s p))"
    by (auto simp: RegisterReplica_def update_keys map_of_eq_None_iff)
  have id: "rs_node_id (RegisterReplica s p) = rs_node_id s" by (simp add: RegisterReplica_def)
  from Cons [of "RegisterReplica s p"] have
    "foldl RegisterReplica s (p # peers) = RegisterReplica s p\<lparr>rs_replicas := rs_replicas (foldl RegisterReplica s (p # peers))\<rparr>"
    "fst ` set (rs_replicas (foldl RegisterReplica s (p # peers))) =
       fst ` set (rs_replicas (RegisterReplica s p)) \<union> (set peers - {[], rs_node_id s})"
    "umap_ok (rs_replicas (RegisterReplica s p)) \<longrightarrow> umap_ok (rs_replicas (foldl RegisterReplica s (p # peers)))"
    by (simp_all add: id)
  moreover from this(1) have "foldl RegisterReplica s (p # peers) = s\<lparr>rs_replicas := rs_replicas (foldl RegisterReplica s (p # peers))\<rparr>"
    using first(1) by (metis repl.update_convs(15) repl.surjective)
  ultimately show ?case using first by auto
qed

text \<open>A restarted node has the term and the vote it had before, and no candidacy.\<close>

lemma start_node_ok:
  assumes names: "names_ok nodes" and n: "n \<in> set nodes" and role: "role \<noteq> kCandidate"
    and disk: "reload disk = (t, voted)"
    and voted: "voted = [] \<or> voted \<in> set nodes"
  shows "node_ok nodes n (start_node nodes role timeout n disk)"
    and "rs_current_term (start_node nodes role timeout n disk) = t"
    and "rs_voted_for (start_node nodes role timeout n disk) = voted"
    and "rs_role (start_node nodes role timeout n disk) = role"
proof -
  define s0 where "s0 = new_ReplicationCoordinator n role timeout True disk"
  have s0: "rs_node_id s0 = n" "rs_replicas s0 = []" "rs_role s0 = role" "rs_votes s0 = []" "rs_has_path s0"
    "rs_disk s0 = disk" "rs_current_term s0 = t" "rs_voted_for s0 = voted"
    using disk
    by (auto simp: s0_def new_ReplicationCoordinator_def LoadState_def reload_def split: option.splits)
  let ?s = "start_node nodes role timeout n disk"
  have "?s = foldl RegisterReplica s0 nodes" by (simp add: start_node_def s0_def)
  with start_node_fields [of s0 nodes] have s: "?s = s0\<lparr>rs_replicas := rs_replicas ?s\<rparr>"
    "fst ` set (rs_replicas ?s) = set nodes - {[], n}" "umap_ok (rs_replicas ?s)"
    by (simp_all add: s0)
  have eqs: "rs_node_id ?s = n" "rs_role ?s = role" "rs_votes ?s = []" "rs_has_path ?s" "rs_disk ?s = disk"
    "rs_current_term ?s = t" "rs_voted_for ?s = voted"
    by (subst s(1), simp add: s0)+
  have "set nodes - {[], n} = set nodes - {n}" using names by (auto simp: names_ok_def)
  with s eqs have "member_ok nodes n ?s" by (simp add: member_ok_def)
  then show "node_ok nodes n ?s" using voted role by (simp add: node_ok_def eqs)
  show "rs_current_term ?s = t" "rs_voted_for ?s = voted" "rs_role ?s = role" by (rule eqs)+
qed

lemma node_ok_parts:
  "node_ok nodes n s \<Longrightarrow> member_ok nodes n s"
  "node_ok nodes n s \<Longrightarrow> rs_voted_for s = [] \<or> rs_voted_for s \<in> set nodes"
  "node_ok nodes n s \<Longrightarrow> distinct (rs_votes s)"
  "node_ok nodes n s \<Longrightarrow> rs_node_id s = n"
  by (simp_all add: node_ok_def member_ok_def)

text \<open>Operations that leave term, vote, file and candidacy alone.\<close>

lemma quiet_change:
  assumes ok: "votes_ok nodes c" and n: "n \<in> set nodes"
    and "member_ok nodes n s" and "rs_current_term s = rs_current_term (cl_node c n)"
    and "rs_voted_for s = rs_voted_for (cl_node c n)"
    and "rs_role s = kCandidate \<longrightarrow> rs_role (cl_node c n) = kCandidate"
    and "rs_votes s = rs_votes (cl_node c n) \<or> rs_votes s = []"
  shows "votes_ok nodes (set_node c n s)"
proof -
  have node: "node_ok nodes n s"
    by (rule node_ok_frame [OF votes_okD(1) [OF ok n]]) (use assms node_ok_parts(3) [OF votes_okD(1) [OF ok n]] in auto)
  show ?thesis
    by (rule votes_ok_same [OF ok n node]) (use assms votes_okD(4) [OF ok n] in auto)
qed

lemma begin_election_ok:
  assumes ok: "votes_ok nodes c" and n: "n \<in> set nodes" and names: "names_ok nodes"
    and wrap: "rs_current_term (cl_node c n) + 1 \<noteq> 0" and b: "BeginElection io (cl_node c n) = (s, t, x)"
  shows "votes_ok nodes (set_node c n s\<lparr>cl_grants := insert (t, n, n) (cl_grants c)\<rparr>)"
proof -
  note node = votes_okD(1) [OF ok n]
  have id: "rs_node_id (cl_node c n) = n" using node by (rule node_ok_parts(4))
  have s: "s = PersistLocked io (cl_node c n\<lparr>rs_current_term := rs_current_term (cl_node c n) + 1, rs_role := kCandidate,
      rs_leader_id := [], rs_voted_for := n, rs_votes := [n]\<rparr>)" and t: "t = rs_current_term (cl_node c n) + 1"
    using b by (auto simp: BeginElection_eq id)
  have node': "node_ok nodes n s" unfolding s using node n by (intro node_ok_new_vote) simp_all
  have less: "rs_current_term (cl_node c n) < rs_current_term (cl_node c n) + 1"
    using wrap by (rule word_less_add_1)
  have "votes_ok nodes (set_node c n s\<lparr>cl_grants := {(t, n, n)} \<union> cl_grants c\<rparr>)"
    by (rule votes_ok_change [OF ok n node']) (use less names n in \<open>auto simp: s t names_ok_def\<close>)
  then show ?thesis by simp
qed

lemma request_vote_ok:
  assumes ok: "votes_ok nodes c" and n: "v \<in> set nodes" and names: "names_ok nodes"
    and r: "RequestVote io (cl_node c v) t cand li lt = (s, granted)"
  shows "votes_ok nodes (set_node c v s\<lparr>cl_grants := (if granted then insert (t, v, cand) (cl_grants c) else cl_grants c)\<rparr>)"
proof (cases granted)
  case False
  then have "s = cl_node c v" using RequestVote_cases [OF r] by simp
  then have "set_node c v s\<lparr>cl_grants := (if granted then insert (t, v, cand) (cl_grants c) else cl_grants c)\<rparr> = c"
    using False by (simp add: set_node_def)
  then show ?thesis using ok by simp
next
  case True
  note node = votes_okD(1) [OF ok n]
  from RequestVote_cases [OF r] True have le: "rs_current_term (cl_node c v) \<le> t" and cand: "cand \<noteq> []" "known_node (cl_node c v) cand"
    and same: "t = rs_current_term (cl_node c v) \<longrightarrow> rs_voted_for (cl_node c v) = [] \<or> rs_voted_for (cl_node c v) = cand"
    and s: "s = PersistLocked io (cl_node c v\<lparr>rs_current_term := t,
        rs_role := (if t = rs_current_term (cl_node c v) then rs_role (cl_node c v) else kFollower),
        rs_leader_id := (if t = rs_current_term (cl_node c v) then rs_leader_id (cl_node c v) else []), rs_voted_for := cand,
        rs_votes := rs_votes (cl_node c v)\<rparr>)"
    by simp_all
  have member: "cand \<in> set nodes" using known_node_iff [OF node_ok_parts(1) [OF node] n] cand by simp
  have self: "cand = v" if "t = rs_current_term (cl_node c v)" "rs_role (cl_node c v) = kCandidate"
    using that node same n cand names by (auto simp: node_ok_def names_ok_def)
  have node': "node_ok nodes v s"
    unfolding s using node member self node_ok_parts(3) [OF node] by (intro node_ok_new_vote) auto
  have "votes_ok nodes (set_node c v s\<lparr>cl_grants := {(t, v, cand)} \<union> cl_grants c\<rparr>)"
  proof (rule votes_ok_change [OF ok n node'])
    show "(rs_current_term s, w, v) \<in> {(t, v, cand)} \<union> cl_grants c" if "rs_role s = kCandidate" "w \<in> set (rs_votes s)" for w
      using that votes_okD(4) [OF ok n, of w] by (auto simp: s split: if_splits)
  qed (use le same cand in \<open>auto simp: s\<close>)
  with True show ?thesis by simp
qed

lemma length_members:
  assumes "member_ok nodes n s" and "n \<in> set nodes"
  shows "Suc (length (rs_replicas s)) = card (set nodes)"
proof -
  have "length (rs_replicas s) = card (fst ` set (rs_replicas s))"
    using assms(1) by (metis distinct_card length_map list.set_map member_ok_def umap_ok_def)
  also have "\<dots> = card (set nodes - {n})" using assms(1) by (simp add: member_ok_def)
  finally show ?thesis using card_Suc_Diff1 [OF finite_set assms(2)] by simp
qed

lemma observe_vote_ok:
  assumes ok: "votes_ok nodes c" and n: "n \<in> set nodes" and g: "(t, v, n) \<in> cl_grants c"
    and r: "ObserveVote io (cl_node c n) t v True = (s, won)"
  shows "votes_ok nodes (set_node c n s\<lparr>cl_elected := (if won then insert (t, n) (cl_elected c) else cl_elected c)\<rparr>)"
proof -
  note node = votes_okD(1) [OF ok n]
  let ?s = "cl_node c n" and ?votes = "List.insert v (rs_votes (cl_node c n))"
  have id: "rs_node_id ?s = n" using node by (rule node_ok_parts(4))
  show ?thesis
  proof (cases "t = rs_current_term ?s \<and> rs_role ?s = kCandidate \<and> v \<noteq> [] \<and> known_node ?s v")
    case False
    then have "s = ?s" "\<not> won" using r by (auto simp: ObserveVote_def split: if_splits)
    then have "set_node c n s\<lparr>cl_elected := (if won then insert (t, n) (cl_elected c) else cl_elected c)\<rparr> = c"
      by (simp add: set_node_def)
    then show ?thesis using ok by simp
  next
    case True
    then have vf: "rs_voted_for ?s = n" using node by (simp add: node_ok_def)
    have granted: "(t, w, n) \<in> cl_grants c" if "w \<in> set ?votes" for w
      using that g True votes_okD(4) [OF ok n, of w] by auto
    have dist: "distinct ?votes" using node_ok_parts(3) [OF node] by simp
    have s: "s = (if won then PersistLocked io (?s\<lparr>rs_votes := ?votes, rs_role := kLeader, rs_leader_id := n, rs_voted_for := n\<rparr>)
        else ?s\<lparr>rs_votes := ?votes\<rparr>)" and won: "won \<longleftrightarrow> Majority ?s \<le> length ?votes"
      using r True by (auto simp: ObserveVote_def Let_def Majority_def id split: if_splits)
    have "member_ok nodes n s" by (rule member_ok_cong [THEN iffD2, OF _ _ _ node_ok_parts(1) [OF node]]) (auto simp: s)
    then have node': "node_ok nodes n s" using node vf n dist by (simp add: node_ok_def s)
    have base: "votes_ok nodes (set_node c n s)"
      by (rule votes_ok_same [OF ok n node']) (use vf granted True in \<open>auto simp: s split: if_splits\<close>)
    have "majority_of nodes (set ?votes)" if won
    proof -
      have "Majority ?s = card (set nodes) div 2 + 1"
        using length_members [OF node_ok_parts(1) [OF node] n] by (simp add: Majority_def)
      moreover have "card (set ?votes) = length ?votes" using dist by (rule distinct_card)
      moreover have "set ?votes \<subseteq> set nodes" using granted votes_okD(2) [OF ok] by blast
      ultimately show ?thesis using that won by (simp add: majority_of_def)
    qed
    then have elected: "\<exists>Q. majority_of nodes Q \<and> (\<forall>v \<in> Q. (t, v, n) \<in> cl_grants c)" if won using that granted by blast
    note D = votes_okD [OF base]
    show ?thesis
      by (rule votes_okI) (use D elected in \<open>auto split: if_splits\<close>)
  qed
qed

lemma observe_append_fields:
  assumes "ObserveAppend io s key t leader off commit now = (s', accepted)"
  shows "s' = s \<or>
    rs_node_id s' = rs_node_id s \<and> fst ` set (rs_replicas s') = fst ` set (rs_replicas s) \<and>
      (umap_ok (rs_replicas s) \<longrightarrow> umap_ok (rs_replicas s')) \<and> rs_role s' \<noteq> kCandidate \<and> rs_votes s' = rs_votes s \<and>
      rs_current_term s \<le> t \<and> rs_current_term s' = t \<and> rs_voted_for s' = (if t = rs_current_term s then rs_voted_for s else [])"
proof (cases "t < rs_current_term s \<or> leader = [] \<or> (leader \<noteq> rs_node_id s \<and> map_of (rs_replicas s) leader = None)")
  case True
  then have "ObserveAppend io s key t leader off commit now = (s, False)" by (auto simp: ObserveAppend_def)
  then show ?thesis using assms(1) by simp
next
  case False
  define s1 where "s1 = (if t > rs_current_term s then PersistLocked io (s\<lparr>rs_current_term := t, rs_voted_for := []\<rparr>) else s)"
  define st where "st = partition_state s1 key"
  define ci where "ci = min (max (ps_commit_index st) commit) off"
  define s2 where "s2 = PersistLocked (second_save io) (s1\<lparr>rs_leader_id := leader,
      rs_role := (if leader = rs_node_id s1 then kLeader else kFollower),
      rs_partition_states := AList.update key (st\<lparr>ps_commit_index := ci\<rparr>) (rs_partition_states s1),
      rs_commit_index := max (rs_commit_index s1) ci, rs_last_applied := max (rs_last_applied s1) ci\<rparr>)"
  have s1: "rs_node_id s1 = rs_node_id s" "rs_replicas s1 = rs_replicas s" "rs_votes s1 = rs_votes s"
    "rs_current_term s1 = t" "rs_voted_for s1 = (if t = rs_current_term s then rs_voted_for s else [])"
    using False by (auto simp: s1_def)
  have s2: "rs_node_id s2 = rs_node_id s" "rs_replicas s2 = rs_replicas s" "rs_votes s2 = rs_votes s"
    "rs_current_term s2 = t" "rs_voted_for s2 = (if t = rs_current_term s then rs_voted_for s else [])" "rs_role s2 \<noteq> kCandidate"
    using s1 by (simp_all add: s2_def)
  have upd: "fst ` set (AList.update leader r m) = fst ` set m" if "map_of m leader \<noteq> None" for r and m :: "(bytes, ReplicaProgress) umap"
    using that by (simp add: update_keys_present)
  have s': "s' = s2 \<or> (\<exists>r pr. map_of (rs_replicas s) leader \<noteq> None \<and>
      s' = s2\<lparr>rs_replicas := AList.update leader r (rs_replicas s2), rs_partition_replicas := pr\<rparr>)"
    using assms(1) False s2(1,2)
    unfolding ObserveAppend_def Let_def s1_def [symmetric] st_def [symmetric] ci_def [symmetric] s2_def [symmetric]
    by (auto split: option.splits if_splits)
  then show ?thesis
  proof
    assume "s' = s2"
    then show ?thesis using s2 False by auto
  next
    assume "\<exists>r pr. map_of (rs_replicas s) leader \<noteq> None \<and>
      s' = s2\<lparr>rs_replicas := AList.update leader r (rs_replicas s2), rs_partition_replicas := pr\<rparr>"
    then obtain r pr where leader: "map_of (rs_replicas s) leader \<noteq> None"
      and eq: "s' = s2\<lparr>rs_replicas := AList.update leader r (rs_replicas s2), rs_partition_replicas := pr\<rparr>" by blast
    show ?thesis using s2 False upd [OF leader] by (auto simp: eq)
  qed
qed

lemma observe_append_ok:
  assumes ok: "votes_ok nodes c" and n: "n \<in> set nodes"
    and r: "ObserveAppend io (cl_node c n) key t leader off commit now = (s, accepted)"
  shows "votes_ok nodes (set_node c n s)"
proof -
  note node = votes_okD(1) [OF ok n]
  from observe_append_fields [OF r] show ?thesis
  proof
    assume "s = cl_node c n"
    then show ?thesis using ok by (simp add: set_node_def)
  next
    assume f: "rs_node_id s = rs_node_id (cl_node c n) \<and> fst ` set (rs_replicas s) = fst ` set (rs_replicas (cl_node c n)) \<and>
      (umap_ok (rs_replicas (cl_node c n)) \<longrightarrow> umap_ok (rs_replicas s)) \<and> rs_role s \<noteq> kCandidate \<and>
      rs_votes s = rs_votes (cl_node c n) \<and> rs_current_term (cl_node c n) \<le> t \<and> rs_current_term s = t \<and>
      rs_voted_for s = (if t = rs_current_term (cl_node c n) then rs_voted_for (cl_node c n) else [])"
    then have "node_ok nodes n s" using node by (simp add: node_ok_def member_ok_def)
    then have "votes_ok nodes (set_node c n s\<lparr>cl_grants := {} \<union> cl_grants c\<rparr>)"
      by (rule votes_ok_change [OF ok n]) (use f in auto)
    then show ?thesis by (simp add: set_node_def)
  qed
qed

text \<open>The operations that leave term and vote alone.\<close>

lemma ObserveHeartbeat_fields:
  "rs_node_id (ObserveHeartbeat s key v off now) = rs_node_id s"
  "rs_current_term (ObserveHeartbeat s key v off now) = rs_current_term s"
  "rs_voted_for (ObserveHeartbeat s key v off now) = rs_voted_for s"
  "rs_role (ObserveHeartbeat s key v off now) = rs_role s"
  "rs_votes (ObserveHeartbeat s key v off now) = rs_votes s"
  "rs_has_path (ObserveHeartbeat s key v off now) = rs_has_path s"
  "rs_disk (ObserveHeartbeat s key v off now) = rs_disk s"
  "fst ` set (rs_replicas (ObserveHeartbeat s key v off now)) = fst ` set (rs_replicas s)"
  "umap_ok (rs_replicas s) \<Longrightarrow> umap_ok (rs_replicas (ObserveHeartbeat s key v off now))"
  by (simp_all add: ObserveHeartbeat_def Let_def update_keys_present split: option.splits)

lemma ObservePreVote_eq:
  "fst (ObservePreVote s t v granted) = s\<lparr>rs_pre_votes := rs_pre_votes (fst (ObservePreVote s t v granted))\<rparr>"
  by (simp add: ObservePreVote_def Let_def)

lemma ObserveHeartbeatRound_fields:
  "rs_node_id (fst (ObserveHeartbeatRound s b)) = rs_node_id s"
  "rs_current_term (fst (ObserveHeartbeatRound s b)) = rs_current_term s"
  "rs_voted_for (fst (ObserveHeartbeatRound s b)) = rs_voted_for s"
  "rs_role (fst (ObserveHeartbeatRound s b)) = kCandidate \<Longrightarrow> rs_role s = kCandidate"
  "rs_votes (fst (ObserveHeartbeatRound s b)) = rs_votes s \<or> rs_votes (fst (ObserveHeartbeatRound s b)) = []"
  "rs_has_path (fst (ObserveHeartbeatRound s b)) = rs_has_path s"
  "rs_disk (fst (ObserveHeartbeatRound s b)) = rs_disk s"
  "rs_replicas (fst (ObserveHeartbeatRound s b)) = rs_replicas s"
  by (simp_all add: ObserveHeartbeatRound_def Let_def split: if_splits)

lemma RecordLocalOffset_eq:
  "RecordLocalOffset s key off = s\<lparr>rs_partition_states := rs_partition_states (RecordLocalOffset s key off)\<rparr>"
  by (simp add: RecordLocalOffset_def Let_def)

lemma AdvanceCommit_fields:
  "rs_node_id (fst (AdvanceCommit io s key off now)) = rs_node_id s"
  "rs_current_term (fst (AdvanceCommit io s key off now)) = rs_current_term s"
  "rs_voted_for (fst (AdvanceCommit io s key off now)) = rs_voted_for s"
  "rs_role (fst (AdvanceCommit io s key off now)) = rs_role s"
  "rs_votes (fst (AdvanceCommit io s key off now)) = rs_votes s"
  "rs_has_path (fst (AdvanceCommit io s key off now)) = rs_has_path s"
  "rs_replicas (fst (AdvanceCommit io s key off now)) = rs_replicas s"
  by (simp_all add: AdvanceCommit_def Let_def)

lemma quiet_steps_ok:
  assumes ok: "votes_ok nodes c" and n: "n \<in> set nodes"
  shows "votes_ok nodes (set_node c n (fst (ObservePreVote (cl_node c n) t v granted)))"
    and "votes_ok nodes (set_node c n (ObserveHeartbeat (cl_node c n) key v off now))"
    and "votes_ok nodes (set_node c n (fst (ObserveHeartbeatRound (cl_node c n) b)))"
    and "votes_ok nodes (set_node c n (fst (AdvanceCommit io (cl_node c n) key off now)))"
    and "votes_ok nodes (set_node c n (RecordLocalOffset (cl_node c n) key off))"
    and "votes_ok nodes (set_node c n (SetLeader io (cl_node c n) leader))"
proof -
  let ?s = "cl_node c n"
  note node = votes_okD(1) [OF ok n]
  have m: "member_ok nodes n ?s" using node by (rule node_ok_parts(1))
  show "votes_ok nodes (set_node c n (fst (ObservePreVote ?s t v granted)))"
    by (rule quiet_change [OF ok n]; subst ObservePreVote_eq) (use m in \<open>simp_all add: member_ok_def\<close>)
  show "votes_ok nodes (set_node c n (ObserveHeartbeat ?s key v off now))"
    by (rule quiet_change [OF ok n]) (use m in \<open>simp_all add: member_ok_def ObserveHeartbeat_fields\<close>)
  show "votes_ok nodes (set_node c n (fst (ObserveHeartbeatRound ?s b)))"
    by (rule quiet_change [OF ok n])
      (use m ObserveHeartbeatRound_fields(4,5) in \<open>simp_all add: member_ok_def ObserveHeartbeatRound_fields(1-3,6-8)\<close>)
  show "votes_ok nodes (set_node c n (fst (AdvanceCommit io ?s key off now)))"
    by (rule quiet_change [OF ok n]) (use m in \<open>simp_all add: member_ok_def AdvanceCommit_fields\<close>)
  show "votes_ok nodes (set_node c n (RecordLocalOffset ?s key off))"
    by (rule quiet_change [OF ok n]; subst RecordLocalOffset_eq) (use m in \<open>simp_all add: member_ok_def\<close>)
  show "votes_ok nodes (set_node c n (SetLeader io ?s leader))"
    by (rule quiet_change [OF ok n])
      (use m in \<open>simp_all add: member_ok_def SetLeader_def\<close>)
qed

lemma restart_node_ok:
  assumes ok: "votes_ok nodes c" and n: "n \<in> set nodes" and names: "names_ok nodes" and role: "role \<noteq> kCandidate"
    and saved: "state_saved (cl_node c n)"
  shows "votes_ok nodes (set_node c n (start_node nodes role timeout n (rs_disk (cl_node c n))))"
proof -
  note node = votes_okD(1) [OF ok n]
  note start = start_node_ok [OF names n role saved [unfolded state_saved_def] node_ok_parts(2) [OF node], of timeout]
  show ?thesis by (rule votes_ok_same [OF ok n start(1)]) (use start role in auto)
qed

lemma init_ok:
  assumes "names_ok nodes" and "\<And>n. role n \<noteq> kCandidate"
  shows "votes_ok nodes (init_cluster nodes role timeout)"
proof (rule votes_okI)
  fix n v assume n: "n \<in> set nodes"
  note start = start_node_ok [OF assms(1) n assms(2) [of n], of None 0 "[]" timeout, unfolded reload_def, simplified]
  show "node_ok nodes n (cl_node (init_cluster nodes role timeout) n)"
    using start(1) by (simp add: init_cluster_def)
  assume "rs_role (cl_node (init_cluster nodes role timeout) n) = kCandidate"
  then show "(rs_current_term (cl_node (init_cluster nodes role timeout) n), v, n) \<in> cl_grants (init_cluster nodes role timeout)"
    using start(4) assms(2) [of n] by (simp add: init_cluster_def)
qed (simp_all add: init_cluster_def)

lemma cluster_step_ok:
  assumes "cluster_step nodes state_saved c c'" and ok: "votes_ok nodes c" and names: "names_ok nodes"
  shows "votes_ok nodes c'"
  using assms(1)
proof cases
  case begin_election
  then show ?thesis using begin_election_ok [OF ok] names by simp
next
  case request_vote
  then show ?thesis using request_vote_ok [OF ok] names by simp
next
  case observe_vote
  then show ?thesis using observe_vote_ok [OF ok] by simp
next
  case observe_append
  then show ?thesis using observe_append_ok [OF ok] by simp
next
  case restart_node
  then show ?thesis using restart_node_ok [OF ok _ names] by simp
qed (simp_all add: quiet_steps_ok [OF ok])

lemma reachable_ok:
  assumes "cluster_reachable nodes state_saved c" and "names_ok nodes"
  shows "votes_ok nodes c"
  using assms by (induction rule: cluster_reachable.induct) (auto intro: init_ok cluster_step_ok)

section \<open>Election safety\<close>

text \<open>C15: In every reachable state of a cluster with fixed membership, whatever messages were delayed, lost or
  repeated, whichever saves of state files failed and whichever nodes crashed, two nodes that won an election of the
  same term are the same node, provided that every node that crashed found its current term and vote in its state file
  when it restarted, and that no node started an election in the largest term. The first condition is what
  \<^verbatim>\<open>PersistLocked\<close> is meant to ensure and does not (\<open>lost_state_two_winners\<close>): its failures are ignored, and a crash
  between the removal of the old file and the renaming of the new one loses the state.\<close>

theorem election_safety:
  assumes "cluster_reachable nodes state_saved c" and "names_ok nodes" and "(t, n) \<in> cl_elected c" and "(t, n') \<in> cl_elected c"
  shows "n = n'"
proof -
  note D = votes_okD [OF reachable_ok [OF assms(1,2)]]
  from D(5) [OF assms(3)] obtain Q where Q: "majority_of nodes Q" "\<forall>v \<in> Q. (t, v, n) \<in> cl_grants c" by blast
  from D(5) [OF assms(4)] obtain Q' where Q': "majority_of nodes Q'" "\<forall>v \<in> Q'. (t, v, n') \<in> cl_grants c" by blast
  show ?thesis
    by (rule majority.unique_winner [where votes = "{(v, x). (t, v, x) \<in> cl_grants c}" and Q = Q and Q' = Q'])
      (use Q Q' D(3) in auto)
qed

text \<open>A run of three nodes: the first one's peer asks for a vote in term one, gets it and wins.\<close>

definition demo_nodes :: "bytes list" where "demo_nodes = [[97], [98], [99]]"

definition demo_start :: "bytes \<Rightarrow> ReplicaRole" where
  "demo_start n = (if n = [97] then kLeader else kFollower)"

definition demo_won :: cluster where
  "demo_won =
    (let c0 = init_cluster demo_nodes demo_start 1000;
         c1 = set_node c0 [98] (fst (BeginElection good_persist (cl_node c0 [98])))\<lparr>cl_grants := {(1, [98], [98])}\<rparr>;
         c2 = set_node c1 [97] (fst (RequestVote good_persist (cl_node c1 [97]) 1 [98] 0 0))
                \<lparr>cl_grants := {(1, [97], [98]), (1, [98], [98])}\<rparr>
     in set_node c2 [98] (fst (ObserveVote good_persist (cl_node c2 [98]) 1 [97] True))\<lparr>cl_elected := {(1, [98])}\<rparr>)"

lemmas demo_eval = start_node_def new_ReplicationCoordinator_def LoadState_def RegisterReplica_def demo_nodes_def demo_start_def
  good_persist_def PersistLocked_def

lemma demo_start_node [simp]:
  "start_node demo_nodes role timeout [98] None = new_ReplicationCoordinator [98] role timeout True None
     \<lparr>rs_replicas := [([97], default_ReplicaProgress), ([99], default_ReplicaProgress)]\<rparr>"
  "start_node demo_nodes role timeout [97] None = new_ReplicationCoordinator [97] role timeout True None
     \<lparr>rs_replicas := [([98], default_ReplicaProgress), ([99], default_ReplicaProgress)]\<rparr>"
  "start_node demo_nodes role timeout [99] None = new_ReplicationCoordinator [99] role timeout True None
     \<lparr>rs_replicas := [([97], default_ReplicaProgress), ([98], default_ReplicaProgress)]\<rparr>"
  by (simp_all add: demo_eval)

lemma demo_steps:
  defines "c0 \<equiv> init_cluster demo_nodes demo_start 1000"
  defines "b1 \<equiv> fst (BeginElection good_persist (cl_node c0 [98]))"
  defines "c1 \<equiv> set_node c0 [98] b1\<lparr>cl_grants := {(1, [98], [98])}\<rparr>"
  defines "a1 \<equiv> fst (RequestVote good_persist (cl_node c1 [97]) 1 [98] 0 0)"
  defines "c2 \<equiv> set_node c1 [97] a1\<lparr>cl_grants := {(1, [97], [98]), (1, [98], [98])}\<rparr>"
  shows "BeginElection good_persist (cl_node c0 [98]) = (b1, 1, [98])"
    and "RequestVote good_persist (cl_node c1 [97]) 1 [98] 0 0 = (a1, True)"
    and "ObserveVote good_persist (cl_node c2 [98]) 1 [97] True = (cl_node demo_won [98], True)"
    and "rs_role (cl_node demo_won [98]) = kLeader" and "rs_current_term (cl_node demo_won [98]) = 1"
    and "rs_disk (cl_node demo_won [97]) = Some (raft_file 1 0 0 [98])"
  by (simp_all add: c0_def b1_def c1_def a1_def c2_def demo_won_def init_cluster_def BeginElection_eq
      new_ReplicationCoordinator_def LoadState_def demo_start_def RequestVote_def ObserveVote_def known_node_def
      lastLogTerm_def lastLogIndex_def Majority_def Let_def good_persist_def PersistLocked_def)

lemma demo_won_reachable: "cluster_reachable demo_nodes state_saved demo_won"
proof -
  define c0 where "c0 = init_cluster demo_nodes demo_start 1000"
  define b1 where "b1 = fst (BeginElection good_persist (cl_node c0 [98]))"
  define c1 where "c1 = set_node c0 [98] b1\<lparr>cl_grants := {(1, [98], [98])}\<rparr>"
  define a1 where "a1 = fst (RequestVote good_persist (cl_node c1 [97]) 1 [98] 0 0)"
  define c2 where "c2 = set_node c1 [97] a1\<lparr>cl_grants := {(1, [97], [98]), (1, [98], [98])}\<rparr>"
  note st = demo_steps [folded c0_def, folded b1_def, folded c1_def, folded a1_def, folded c2_def]
  have won: "demo_won = set_node c2 [98] (cl_node demo_won [98])\<lparr>cl_elected := {(1, [98])}\<rparr>"
    by (simp add: demo_won_def Let_def c0_def b1_def c1_def a1_def c2_def set_node_def)
  have empty: "cl_grants c0 = {}" "cl_elected c2 = {}" and zero: "rs_current_term (cl_node c0 [98]) = 0"
    by (simp_all add: c2_def c1_def c0_def init_cluster_def new_ReplicationCoordinator_def LoadState_def)
  have "cluster_reachable demo_nodes state_saved c0"
    unfolding c0_def by (rule cluster_reachable.init) (simp add: demo_start_def)
  moreover have "cluster_step demo_nodes state_saved c0 c1"
    using cluster_step.begin_election [OF _ _ st(1), of demo_nodes] by (simp add: c1_def empty zero demo_nodes_def)
  moreover have "cluster_step demo_nodes state_saved c1 c2"
    using cluster_step.request_vote [OF _ st(2), of demo_nodes] by (simp add: c2_def c1_def demo_nodes_def)
  moreover have "cluster_step demo_nodes state_saved c2 demo_won"
    using cluster_step.observe_vote [OF _ _ st(3), of demo_nodes] by (subst won) (simp add: c2_def demo_nodes_def empty [unfolded c2_def])
  ultimately show ?thesis by (blast intro: cluster_reachable.step)
qed

theorem election_safety_witness: "{n. (1, n) \<in> cl_elected demo_won} = {[98]}"
proof -
  have "(1, [98]) \<in> cl_elected demo_won" by (simp add: demo_won_def Let_def)
  moreover have "n = [98]" if "(1, n) \<in> cl_elected demo_won" for n
    using election_safety [OF demo_won_reachable _ that, of "[98]"] by (simp add: names_ok_def demo_nodes_def demo_won_def Let_def)
  ultimately show ?thesis by blast
qed

lemma demo_won_saved: "state_saved (cl_node demo_won [97])" and demo_reload: "reload (Some (raft_file 1 0 0 [98])) = (1, [98])"
  by (simp_all add: state_saved_def reload_def read_raft_file_inverse demo_won_def Let_def init_cluster_def BeginElection_eq
      new_ReplicationCoordinator_def LoadState_def demo_start_def RequestVote_def known_node_def
      lastLogTerm_def lastLogIndex_def good_persist_def PersistLocked_def)

text \<open>Two nodes can be leader in the same term although only one was elected: a node configured as leader
  that granted its vote to a peer comes back from a restart as leader, in the term it voted in.\<close>

theorem restart_gives_second_leader:
  "\<exists>c. cluster_reachable demo_nodes state_saved c \<and> rs_role (cl_node c [97]) = kLeader \<and> rs_role (cl_node c [98]) = kLeader \<and>
     rs_current_term (cl_node c [97]) = 1 \<and> rs_current_term (cl_node c [98]) = 1 \<and> cl_elected c = {(1, [98])}"
proof -
  let ?c = "set_node demo_won [97] (start_node demo_nodes kLeader 1000 [97] (rs_disk (cl_node demo_won [97])))"
  have "cluster_step demo_nodes state_saved demo_won ?c"
    by (rule cluster_step.restart_node) (simp_all add: demo_nodes_def demo_won_saved)
  then have "cluster_reachable demo_nodes state_saved ?c" using demo_won_reachable by (blast intro: cluster_reachable.step)
  moreover have "rs_role (cl_node ?c [97]) = kLeader" "rs_current_term (cl_node ?c [97]) = 1"
    using start_node_ok(2,4) [of demo_nodes "[97]" kLeader "rs_disk (cl_node demo_won [97])" 1 "[98]" 1000]
    by (auto simp: names_ok_def demo_nodes_def demo_steps(6) demo_reload)
  moreover have "cl_elected ?c = {(1, [98])}" by (simp add: demo_won_def Let_def)
  ultimately show ?thesis using demo_steps(4,5) by (intro exI [of _ ?c]) simp
qed

text \<open>
  What the condition of election safety excludes. The first node votes for the second one in term one, and its state
  file is lost between the removal of the old file and the renaming of the new one. The second node wins. The first
  node restarts without its vote and gives it to the third one, which wins the same term too.
\<close>

definition lost_save :: persist_io where
  "lost_save = good_persist\<lparr>pio_rename := False\<rparr>"

lemma lost_state_two_winners:
  "\<exists>c. cluster_reachable demo_nodes (\<lambda>_. True) c \<and> (1, [98]) \<in> cl_elected c \<and> (1, [99]) \<in> cl_elected c"
proof -
  define c0 where "c0 = init_cluster demo_nodes demo_start 1000"
  define b1 where "b1 = fst (BeginElection good_persist (cl_node c0 [98]))"
  define c1 where "c1 = set_node c0 [98] b1\<lparr>cl_grants := insert (1, [98], [98]) (cl_grants c0)\<rparr>"
  define a1 where "a1 = fst (RequestVote lost_save (cl_node c1 [97]) 1 [98] 0 0)"
  define c2 where "c2 = set_node c1 [97] a1\<lparr>cl_grants := insert (1, [97], [98]) (cl_grants c1)\<rparr>"
  define b2 where "b2 = fst (ObserveVote good_persist (cl_node c2 [98]) 1 [97] True)"
  define c3 where "c3 = set_node c2 [98] b2\<lparr>cl_elected := insert (1, [98]) (cl_elected c2)\<rparr>"
  define c4 where "c4 = set_node c3 [97] (start_node demo_nodes kFollower 1000 [97] (rs_disk (cl_node c3 [97])))"
  define d1 where "d1 = fst (BeginElection good_persist (cl_node c4 [99]))"
  define c5 where "c5 = set_node c4 [99] d1\<lparr>cl_grants := insert (1, [99], [99]) (cl_grants c4)\<rparr>"
  define a2 where "a2 = fst (RequestVote good_persist (cl_node c5 [97]) 1 [99] 0 0)"
  define c6 where "c6 = set_node c5 [97] a2\<lparr>cl_grants := insert (1, [97], [99]) (cl_grants c5)\<rparr>"
  define d2 where "d2 = fst (ObserveVote good_persist (cl_node c6 [99]) 1 [97] True)"
  define c7 where "c7 = set_node c6 [99] d2\<lparr>cl_elected := insert (1, [99]) (cl_elected c6)\<rparr>"
  note evals = BeginElection_eq new_ReplicationCoordinator_def LoadState_def demo_start_def RequestVote_def ObserveVote_def
    known_node_def lastLogTerm_def lastLogIndex_def Majority_def Let_def good_persist_def lost_save_def PersistLocked_def
  have n0: "cl_node c0 = (\<lambda>n. start_node demo_nodes (demo_start n) 1000 n None)" by (simp add: c0_def init_cluster_def)
  have s1: "BeginElection good_persist (cl_node c0 [98]) = (b1, 1, [98])" by (simp add: b1_def n0 evals)
  have s2: "RequestVote lost_save (cl_node c1 [97]) 1 [98] 0 0 = (a1, True)" and disk: "rs_disk a1 = None"
    by (simp_all add: a1_def c1_def n0 evals)
  have s3: "ObserveVote good_persist (cl_node c2 [98]) 1 [97] True = (b2, True)" by (simp add: b2_def c2_def c1_def b1_def n0 evals)
  have n4: "cl_node c4 [97] = start_node demo_nodes kFollower 1000 [97] None" "cl_node c4 [99] = start_node demo_nodes kFollower 1000 [99] None"
    by (simp_all add: c4_def c3_def c2_def c1_def disk n0 demo_start_def)
  have s5: "BeginElection good_persist (cl_node c4 [99]) = (d1, 1, [99])" by (simp add: d1_def n4 evals)
  have s6: "RequestVote good_persist (cl_node c5 [97]) 1 [99] 0 0 = (a2, True)" by (simp add: a2_def c5_def n4 evals)
  have s7: "ObserveVote good_persist (cl_node c6 [99]) 1 [97] True = (d2, True)" by (simp add: d2_def c6_def c5_def d1_def n4 evals)
  have members: "[97] \<in> set demo_nodes" "[98] \<in> set demo_nodes" "[99] \<in> set demo_nodes" by (simp_all add: demo_nodes_def)
  have zero: "rs_current_term (cl_node c0 [98]) = 0" "rs_current_term (cl_node c4 [99]) = 0"
    by (simp_all add: n0 n4 new_ReplicationCoordinator_def LoadState_def)
  let ?step = "cluster_step demo_nodes (\<lambda>_. True)"
  have r: "cluster_reachable demo_nodes (\<lambda>_. True) c0"
    unfolding c0_def by (rule cluster_reachable.init) (simp add: demo_start_def)
  have st1: "?step c0 c1"
    using cluster_step.begin_election [OF _ _ s1, of demo_nodes] by (simp add: c1_def members zero)
  have st2: "?step c1 c2" using cluster_step.request_vote [OF _ s2, of demo_nodes] by (simp add: c2_def members)
  have st3: "?step c2 c3"
    using cluster_step.observe_vote [OF _ _ s3, of demo_nodes] by (simp add: c3_def members) (simp add: c2_def)
  have st4: "?step c3 c4" unfolding c4_def by (rule cluster_step.restart_node) (simp_all add: members)
  have st5: "?step c4 c5"
    using cluster_step.begin_election [OF _ _ s5, of demo_nodes] by (simp add: c5_def members zero)
  have st6: "?step c5 c6" using cluster_step.request_vote [OF _ s6, of demo_nodes] by (simp add: c6_def members)
  have st7: "?step c6 c7"
    using cluster_step.observe_vote [OF _ _ s7, of demo_nodes] by (simp add: c7_def members) (simp add: c6_def)
  note s4 = cluster_reachable.step [OF cluster_reachable.step [OF cluster_reachable.step [OF cluster_reachable.step [OF r st1] st2] st3] st4]
  have "cluster_reachable demo_nodes (\<lambda>_. True) c7"
    by (rule cluster_reachable.step [OF cluster_reachable.step [OF cluster_reachable.step [OF s4 st5] st6] st7])
  moreover have "(1, [98]) \<in> cl_elected c7" "(1, [99]) \<in> cl_elected c7"
    by (simp_all add: c7_def c6_def c5_def c4_def c3_def)
  ultimately show ?thesis by blast
qed

section \<open>Commit index\<close>

lemma commitIndex_update:
  "rs_partition_states s = AList.update key st m \<Longrightarrow>
     commitIndex s k = (if k = key then ps_commit_index st else case map_of m k of None \<Rightarrow> 0 | Some st \<Rightarrow> ps_commit_index st)"
  by (simp add: commitIndex_def update_conv')

lemma commitIndex_state: "ps_commit_index (partition_state s key) = commitIndex s key"
  by (simp add: partition_state_def commitIndex_def default_PartitionState_def split: option.split)

text \<open>
  The nodes that hold an offset as far as a node knows: itself, when its log has it in the current
  term, and the peers whose last report is not older than the timeout and whose offset reaches it.
\<close>

definition holds_offset :: "repl \<Rightarrow> bytes \<Rightarrow> u64 \<Rightarrow> int \<Rightarrow> bytes \<Rightarrow> bool" where
  "holds_offset s key off now p \<longleftrightarrow>
    (if p = rs_node_id s
     then off \<le> ps_local_offset (partition_state s key) \<and> ps_last_log_term (partition_state s key) = rs_current_term s
     else \<exists>r. map_of (partition_progress s key) p = Some r \<and> rp_healthy r \<and>
       now - rp_last_heartbeat r \<le> rs_heartbeat_timeout s \<and> off \<le> rp_replicated_offset r)"

text \<open>What a node remembers of its peers are members, each once, and what they reported.\<close>

definition progress_ok :: "bytes list \<Rightarrow> (bytes \<times> bytes \<times> bytes \<times> u64 \<times> int) set \<Rightarrow> bytes \<Rightarrow> repl \<Rightarrow> bool" where
  "progress_ok nodes reports n s \<longleftrightarrow> member_ok nodes n s \<and>
     (\<forall>key. umap_ok (partition_progress s key) \<and> fst ` set (partition_progress s key) \<subseteq> set nodes - {n} \<and>
       (\<forall>p r. map_of (partition_progress s key) p = Some r \<longrightarrow>
          (\<exists>off. (n, key, p, off, rp_last_heartbeat r) \<in> reports) \<and>
          (rp_replicated_offset r = 0 \<or> (\<exists>t. (n, key, p, rp_replicated_offset r, t) \<in> reports))))"

lemma progress_okD:
  assumes "progress_ok nodes reports n s"
  shows "member_ok nodes n s" and "umap_ok (partition_progress s key)"
    and "fst ` set (partition_progress s key) \<subseteq> set nodes - {n}"
    and "map_of (partition_progress s key) p = Some r \<Longrightarrow> (\<exists>off. (n, key, p, off, rp_last_heartbeat r) \<in> reports) \<and>
      (rp_replicated_offset r = 0 \<or> (\<exists>t. (n, key, p, rp_replicated_offset r, t) \<in> reports))"
  using assms unfolding progress_ok_def by blast+

lemma progress_ok_mono: "progress_ok nodes reports n s \<Longrightarrow> reports \<subseteq> reports' \<Longrightarrow> progress_ok nodes reports' n s"
  unfolding progress_ok_def by blast

lemma progress_ok_cong:
  assumes "progress_ok nodes reports n s" and "rs_node_id s' = rs_node_id s" and "rs_replicas s' = rs_replicas s"
    and "rs_partition_replicas s' = rs_partition_replicas s"
  shows "progress_ok nodes reports n s'"
  using assms unfolding progress_ok_def by (simp add: member_ok_def partition_progress_def)

text \<open>A report of a member about one partition.\<close>

lemma progress_ok_report:
  assumes ok: "progress_ok nodes reports n s" and v: "v \<in> set nodes" "v \<noteq> n"
    and s': "rs_node_id s' = rs_node_id s" "rs_replicas s' = AList.update v x (rs_replicas s)"
      "rs_partition_replicas s' = AList.update key (AList.update v r (partition_progress s key)) (rs_partition_replicas s)"
    and r: "rp_last_heartbeat r = now" "(n, key, v, off, now) \<in> reports"
      "rp_replicated_offset r = off \<or>
       rp_replicated_offset r = (case map_of (partition_progress s key) v of None \<Rightarrow> 0 | Some q \<Rightarrow> rp_replicated_offset q)"
  shows "progress_ok nodes reports n s'"
proof -
  note D = progress_okD [OF ok]
  have member: "member_ok nodes n s'"
    using D(1) v by (auto simp: member_ok_def s' update_keys)
  have prog: "partition_progress s' k = (if k = key then AList.update v r (partition_progress s key) else partition_progress s k)" for k
    by (simp add: partition_progress_def s' update_conv')
  have "rp_replicated_offset r = 0 \<or> (\<exists>t. (n, key, v, rp_replicated_offset r, t) \<in> reports)"
    using r D(4) [of key v] by (cases "map_of (partition_progress s key) v") auto
  moreover have "\<exists>off. (n, key, v, off, rp_last_heartbeat r) \<in> reports" using r by auto
  ultimately show ?thesis
    unfolding progress_ok_def using member D v by (auto simp: prog update_keys update_conv')
qed

lemma ObserveHeartbeat_progress:
  assumes ok: "progress_ok nodes reports n s"
  shows "progress_ok nodes (insert (n, key, v, off, now) reports) n (ObserveHeartbeat s key v off now)"
proof (cases "v = [] \<or> v = rs_node_id s \<or> map_of (rs_replicas s) v = None")
  case True
  then have "ObserveHeartbeat s key v off now = s" by (auto simp: ObserveHeartbeat_def)
  with ok show ?thesis by (auto intro: progress_ok_mono)
next
  case False
  then obtain x where x: "map_of (rs_replicas s) v = Some x" by auto
  have v: "v \<in> set nodes" "v \<noteq> n"
    using x progress_okD(1) [OF ok] by (auto simp: member_ok_def dest!: map_of_SomeD) force+
  have ok': "progress_ok nodes (insert (n, key, v, off, now) reports) n s" using ok by (auto intro: progress_ok_mono)
  show ?thesis
    using False x by (intro progress_ok_report [OF ok' v])
      (auto simp: ObserveHeartbeat_def Let_def default_ReplicaProgress_def max_def split: option.split)
qed

lemma ObserveAppend_progress:
  assumes ok: "progress_ok nodes reports n s" and r: "ObserveAppend io s key t leader off commit now = (s', accepted)"
  shows "progress_ok nodes (insert (n, key, leader, off, now) reports) n s'"
proof -
  let ?reports = "insert (n, key, leader, off, now) reports"
  have ok': "progress_ok nodes ?reports n s" using ok by (auto intro: progress_ok_mono)
  have id: "rs_node_id s = n" using progress_okD(1) [OF ok] by (simp add: member_ok_def)
  show ?thesis
  proof (cases "t < rs_current_term s \<or> leader = [] \<or> leader \<noteq> n \<and> map_of (rs_replicas s) leader = None")
    case True
    then have "ObserveAppend io s key t leader off commit now = (s, False)" by (auto simp: ObserveAppend_def id)
    with ok' r show ?thesis by simp
  next
    case False
    define s1 where "s1 = (if t > rs_current_term s then PersistLocked io (s\<lparr>rs_current_term := t, rs_voted_for := []\<rparr>) else s)"
    have s1: "rs_node_id s1 = n" "rs_replicas s1 = rs_replicas s" "rs_partition_replicas s1 = rs_partition_replicas s"
      by (simp_all add: s1_def id)
    show ?thesis
    proof (cases "leader = n \<or> map_of (rs_replicas s) leader = None")
      case True
      have "rs_node_id s' = rs_node_id s" "rs_replicas s' = rs_replicas s" "rs_partition_replicas s' = rs_partition_replicas s"
        using r False True unfolding ObserveAppend_def Let_def s1_def [symmetric] by (auto simp: s1 id split: option.splits)
      with ok' show ?thesis by (rule progress_ok_cong)
    next
      case peer: False
      then obtain x where x: "map_of (rs_replicas s) leader = Some x" by auto
      have v: "leader \<in> set nodes" "leader \<noteq> n"
        using x progress_okD(1) [OF ok] peer by (auto simp: member_ok_def dest!: map_of_SomeD) force+
      let ?x = "x\<lparr>rp_node_id := leader, rp_last_heartbeat := now, rp_healthy := True, rp_term := t\<rparr>"
      have "rs_node_id s' = rs_node_id s" "rs_replicas s' = AList.update leader ?x (rs_replicas s)"
        "rs_partition_replicas s' = AList.update key (AList.update leader (?x\<lparr>rp_replicated_offset := off\<rparr>)
           (partition_progress s key)) (rs_partition_replicas s)"
        using r False peer x unfolding ObserveAppend_def Let_def s1_def [symmetric]
        by (auto simp: s1 id partition_progress_def)
      then show ?thesis by (intro progress_ok_report [OF ok' v]) auto
    qed
  qed
qed

lemma start_node_progress:
  assumes "names_ok nodes" and "n \<in> set nodes" and "role \<noteq> kCandidate"
  shows "progress_ok nodes reports n (start_node nodes role timeout n disk)"
proof -
  define s0 where "s0 = new_ReplicationCoordinator n role timeout True disk"
  have s0: "rs_node_id s0 = n" "rs_replicas s0 = []" "rs_partition_replicas s0 = []"
    by (auto simp: s0_def new_ReplicationCoordinator_def LoadState_def split: option.splits)
  let ?s = "start_node nodes role timeout n disk"
  have "?s = foldl RegisterReplica s0 nodes" by (simp add: start_node_def s0_def)
  with start_node_fields [of s0 nodes] have s: "?s = s0\<lparr>rs_replicas := rs_replicas ?s\<rparr>"
    "fst ` set (rs_replicas ?s) = set nodes - {[], n}" "umap_ok (rs_replicas ?s)"
    by (simp_all add: s0)
  have "rs_node_id ?s = n" "rs_partition_replicas ?s = []" by (subst s(1), simp add: s0)+
  moreover have "set nodes - {[], n} = set nodes - {n}" using assms(1) by (auto simp: names_ok_def)
  ultimately show ?thesis using s(2,3) by (simp add: progress_ok_def member_ok_def partition_progress_def)
qed

lemma cluster_step_progress:
  assumes "cluster_step nodes survives c c'" and names: "names_ok nodes"
    and ok: "\<And>n. n \<in> set nodes \<Longrightarrow> progress_ok nodes (cl_reports c) n (cl_node c n)" and n: "n \<in> set nodes"
  shows "progress_ok nodes (cl_reports c') n (cl_node c' n)"
  using assms(1)
proof cases
  case (begin_election m io s t x)
  then show ?thesis using ok [OF n] by (auto simp: BeginElection_eq intro: progress_ok_cong)
next
  case (request_vote m io t cand li lt s granted)
  then show ?thesis using ok [OF n] RequestVote_cases [OF request_vote(3)] by (auto intro: progress_ok_cong)
next
  case (observe_vote m t v io s won)
  then have "rs_node_id s = rs_node_id (cl_node c m)" "rs_replicas s = rs_replicas (cl_node c m)"
    "rs_partition_replicas s = rs_partition_replicas (cl_node c m)"
    by (auto simp: ObserveVote_def Let_def split: if_splits)
  with observe_vote(1) ok [OF n] show ?thesis by (auto intro: progress_ok_cong)
next
  case (observe_append m io key t leader off commit now s accepted)
  with ok [OF n] ObserveAppend_progress [OF ok [OF observe_append(2)] observe_append(3)] show ?thesis
    by (auto intro: progress_ok_mono)
next
  case (pre_vote m t v granted)
  then show ?thesis using ok [OF n] by (auto simp: ObservePreVote_def Let_def intro: progress_ok_cong)
next
  case (heartbeat m key v off now)
  with ok [OF n] ObserveHeartbeat_progress [OF ok [OF heartbeat(2)], of key v off now] show ?thesis
    by (auto intro: progress_ok_mono)
next
  case (heartbeat_round m responded)
  then show ?thesis using ok [OF n] by (auto simp: ObserveHeartbeatRound_def Let_def intro: progress_ok_cong)
next
  case (advance_commit m io key off now)
  then show ?thesis using ok [OF n] by (auto simp: AdvanceCommit_def Let_def intro: progress_ok_cong)
next
  case (record_local m key off)
  then show ?thesis using ok [OF n] by (auto simp: RecordLocalOffset_def Let_def intro: progress_ok_cong)
next
  case (set_leader m io leader)
  then show ?thesis using ok [OF n] by (auto simp: SetLeader_def intro: progress_ok_cong)
next
  case (restart_node m role timeout)
  then show ?thesis using ok [OF n] start_node_progress [OF names n] by auto
qed

lemma reachable_progress:
  assumes "cluster_reachable nodes survives c" and "names_ok nodes" and "n \<in> set nodes"
  shows "progress_ok nodes (cl_reports c) n (cl_node c n)"
  using assms
proof (induction arbitrary: n rule: cluster_reachable.induct)
  case (init role timeout)
  then show ?case using start_node_progress by (simp add: init_cluster_def)
next
  case (step c c')
  then show ?case using cluster_step_progress by blast
qed

lemma acknowledged_by_set:
  assumes "umap_ok (partition_progress s key)" and "rs_node_id s \<notin> fst ` set (partition_progress s key)"
  shows "distinct (acknowledged_by s key off now)"
    and "set (acknowledged_by s key off now) = {p. p \<noteq> rs_node_id s \<and> holds_offset s key off now p}"
proof -
  have eq: "acknowledged_by s key off now =
      map fst (filter (\<lambda>(_, r). Healthy s r now \<and> off \<le> rp_replicated_offset r) (partition_progress s key))"
    by (simp add: acknowledged_by_def partition_progress_def split: option.split)
  show "distinct (acknowledged_by s key off now)"
    unfolding eq using assms(1) by (simp add: umap_ok_def distinct_map_filter)
  have iff: "(p, r) \<in> set (partition_progress s key) \<longleftrightarrow> map_of (partition_progress s key) p = Some r" for p r
    using assms(1) by (simp add: umap_ok_def)
  have self: "map_of (partition_progress s key) (rs_node_id s) = None"
    using assms(2) by (simp add: map_of_eq_None_iff)
  have "p \<in> set (acknowledged_by s key off now) \<longleftrightarrow>
      (\<exists>r. map_of (partition_progress s key) p = Some r \<and> Healthy s r now \<and> off \<le> rp_replicated_offset r)" for p
    unfolding eq by (simp add: image_iff iff Bex_def)
  then show "set (acknowledged_by s key off now) = {p. p \<noteq> rs_node_id s \<and> holds_offset s key off now p}"
    using self by (auto simp: holds_offset_def Healthy_def)
qed

text \<open>A leader of three with one healthy follower at offset five.\<close>

definition demo_leader :: repl where
  "demo_leader = ObserveHeartbeat (RecordLocalOffset
     (start_node demo_nodes kLeader 1000 [97] None) [1] 7) [1] [98] 5 100"

lemma AdvanceCommit_result:
  assumes "AdvanceCommit io s key off now = (s', ok)"
  shows "(ok \<longleftrightarrow> rs_role s = kLeader \<and> off \<le> ps_local_offset (partition_state s key) \<and>
        ps_last_log_term (partition_state s key) = rs_current_term s \<and>
        Majority s \<le> 1 + length (acknowledged_by s key off now))"
    and "commitIndex s' k = (if ok \<and> k = key then max (commitIndex s key) off else commitIndex s k)"
  using assms unfolding AdvanceCommit_def Let_def
  by (auto simp: not_less not_le commitIndex_state split: if_splits)
    (auto simp: commitIndex_def partition_state_def update_conv' default_PartitionState_def split: option.splits)

text \<open>The cluster in which that follower reported.\<close>

definition demo_reported :: cluster where
  "demo_reported = set_node (set_node (init_cluster demo_nodes demo_start 1000) [97]
       (RecordLocalOffset (start_node demo_nodes kLeader 1000 [97] None) [1] 7)) [97] demo_leader
     \<lparr>cl_reports := {([97], [1], [98], 5, 100)}\<rparr>"

lemma demo_reported_reachable: "cluster_reachable demo_nodes (\<lambda>_. True) demo_reported"
proof -
  let ?c0 = "init_cluster demo_nodes demo_start 1000"
  let ?c1 = "set_node ?c0 [97] (RecordLocalOffset (start_node demo_nodes kLeader 1000 [97] None) [1] 7)"
  have n: "[97] \<in> set demo_nodes" by (simp add: demo_nodes_def)
  have c0: "cl_node ?c0 [97] = start_node demo_nodes kLeader 1000 [97] None" "cl_reports ?c0 = {}"
    unfolding init_cluster_def by (simp_all add: demo_start_def)
  have r0: "cluster_reachable demo_nodes (\<lambda>_. True) ?c0" by (rule cluster_reachable.init) (simp add: demo_start_def)
  have st1: "cluster_step demo_nodes (\<lambda>_. True) ?c0 ?c1"
    using cluster_step.record_local [OF n, of "\<lambda>_. True" ?c0 "[1]" 7] by (simp only: c0)
  have st2: "cluster_step demo_nodes (\<lambda>_. True) ?c1 demo_reported"
    using cluster_step.heartbeat [OF n, of "\<lambda>_. True" ?c1 "[1]" "[98]" 5 100]
    by (simp only: set_node_fields c0 if_True refl demo_reported_def demo_leader_def)
  show ?thesis by (rule cluster_reachable.step [OF cluster_reachable.step [OF r0 st1] st2])
qed

text \<open>C16: A leader of a cluster with fixed membership commits an offset of a partition exactly when its own log holds the
  offset in the current term and it knows a majority of the cluster's nodes, itself included, that hold it: peers whose
  last report about the partition is not older than the timeout and whose offset reaches it. Each such peer has reported
  to this node within the timeout, and has reported the offset or a larger one. On success the commit index of that
  partition becomes the larger of the old one and the offset; in every other case, and for every other partition,
  \<^verbatim>\<open>AdvanceCommit\<close> leaves the commit indexes as they were.\<close>

theorem AdvanceCommit_needs_majority:
  assumes "cluster_reachable nodes survives c" and "names_ok nodes" and "n \<in> set nodes" and "s = cl_node c n"
    and "AdvanceCommit io s key off now = (s', ok)"
  shows "(ok \<longleftrightarrow> rs_role s = kLeader \<and> holds_offset s key off now n \<and>
        majority_of nodes {p. holds_offset s key off now p}) \<and>
    (\<forall>p. p \<noteq> n \<and> holds_offset s key off now p \<longrightarrow>
       (\<exists>off' t. (n, key, p, off', t) \<in> cl_reports c \<and> now - t \<le> rs_heartbeat_timeout s) \<and>
       (off = 0 \<or> (\<exists>off' t. off \<le> off' \<and> (n, key, p, off', t) \<in> cl_reports c))) \<and>
    commitIndex s' k = (if ok \<and> k = key then max (commitIndex s key) off else commitIndex s k)"
proof (intro conjI)
  have prog: "progress_ok nodes (cl_reports c) n s" using reachable_progress [OF assms(1-3)] assms(4) by simp
  note D = progress_okD [OF prog]
  have id: "rs_node_id s = n" using D(1) by (simp add: member_ok_def)
  note acks = acknowledged_by_set [OF D(2), of key off now, unfolded id]
  have dist: "distinct (acknowledged_by s key off now)" using acks(1) D(3) [of key] by blast
  have acks_set: "set (acknowledged_by s key off now) = {p. p \<noteq> n \<and> holds_offset s key off now p}"
    using acks(2) D(3) [of key] by blast
  have sub: "set (acknowledged_by s key off now) \<subseteq> set nodes - {n}"
  proof -
    have "set (acknowledged_by s key off now) \<subseteq> fst ` set (partition_progress s key)"
      by (auto simp: acknowledged_by_def partition_progress_def split: option.split)
    with D(3) show ?thesis by blast
  qed
  have major: "Majority s = card (set nodes) div 2 + 1"
    using length_members [OF D(1) assms(3)] by (simp add: Majority_def)
  have count: "majority_of nodes {p. holds_offset s key off now p} \<longleftrightarrow> Majority s \<le> 1 + length (acknowledged_by s key off now)"
    if "holds_offset s key off now n"
  proof -
    have "{p. holds_offset s key off now p} = insert n (set (acknowledged_by s key off now))" using acks_set that by auto
    moreover have "card (insert n (set (acknowledged_by s key off now))) = 1 + length (acknowledged_by s key off now)"
      using sub by (subst card_insert_disjoint) (auto simp: distinct_card [OF dist])
    ultimately show ?thesis using sub assms(3) by (auto simp: majority_of_def major)
  qed
  have self: "holds_offset s key off now n \<longleftrightarrow>
      off \<le> ps_local_offset (partition_state s key) \<and> ps_last_log_term (partition_state s key) = rs_current_term s"
    by (simp add: holds_offset_def id)
  show "ok \<longleftrightarrow> rs_role s = kLeader \<and> holds_offset s key off now n \<and> majority_of nodes {p. holds_offset s key off now p}"
    using AdvanceCommit_result(1) [OF assms(5)] count self by blast
  show "\<forall>p. p \<noteq> n \<and> holds_offset s key off now p \<longrightarrow>
       (\<exists>off' t. (n, key, p, off', t) \<in> cl_reports c \<and> now - t \<le> rs_heartbeat_timeout s) \<and>
       (off = 0 \<or> (\<exists>off' t. off \<le> off' \<and> (n, key, p, off', t) \<in> cl_reports c))"
    using D(4) [of key] by (fastforce simp: holds_offset_def id split: if_splits)
  show "commitIndex s' k = (if ok \<and> k = key then max (commitIndex s key) off else commitIndex s k)"
    by (rule AdvanceCommit_result(2) [OF assms(5)])
qed

text \<open>In the demonstration, offset five is held by two of the three nodes until the report is too old, offset six by one.\<close>

lemma demo_holds:
  "holds_offset demo_leader [1] off now p \<longleftrightarrow>
     p = [97] \<and> off \<le> 7 \<or> p = [98] \<and> off \<le> 5 \<and> now - 100 \<le> 1000"
  by (auto simp: holds_offset_def demo_leader_def RecordLocalOffset_def ObserveHeartbeat_def new_ReplicationCoordinator_def
      LoadState_def partition_state_def default_PartitionState_def partition_progress_def default_ReplicaProgress_def)

theorem AdvanceCommit_needs_majority_witness:
  "snd (AdvanceCommit good_persist demo_leader [1] 5 200) \<and>
   commitIndex (fst (AdvanceCommit good_persist demo_leader [1] 5 200)) [1] = 5 \<and>
   \<not> snd (AdvanceCommit good_persist demo_leader [1] 6 200) \<and> \<not> snd (AdvanceCommit good_persist demo_leader [1] 5 2000)"
proof -
  have names: "names_ok demo_nodes" "[97] \<in> set demo_nodes" by (simp_all add: names_ok_def demo_nodes_def)
  have s: "demo_leader = cl_node demo_reported [97]" by (simp add: demo_reported_def)
  have lead: "rs_role demo_leader = kLeader" "commitIndex demo_leader [1] = 0"
    by (simp_all add: demo_leader_def RecordLocalOffset_def ObserveHeartbeat_def new_ReplicationCoordinator_def LoadState_def
        commitIndex_def partition_state_def default_PartitionState_def Let_def)
  have two: "{p. holds_offset demo_leader [1] 5 200 p} = {[97], [98]}"
    and one: "{p. holds_offset demo_leader [1] 6 200 p} = {[97]}" "{p. holds_offset demo_leader [1] 5 2000 p} = {[97]}"
    unfolding demo_holds by auto
  have maj: "majority_of demo_nodes {[97], [98]}" "\<not> majority_of demo_nodes {[97]}"
    by (simp_all add: majority_of_def demo_nodes_def)
  note commits = AdvanceCommit_needs_majority [OF demo_reported_reachable names s prod.collapse [symmetric], of good_persist "[1]" _ _ "[1]"]
  have yes: "snd (AdvanceCommit good_persist demo_leader [1] 5 200)"
    using commits [of 5 200] lead maj two by (simp add: demo_holds)
  moreover have "commitIndex (fst (AdvanceCommit good_persist demo_leader [1] 5 200)) [1] = 5"
    using commits [of 5 200] yes lead by simp
  moreover have "\<not> snd (AdvanceCommit good_persist demo_leader [1] 6 200)" using commits [of 6 200] maj one(1) by simp
  moreover have "\<not> snd (AdvanceCommit good_persist demo_leader [1] 5 2000)" using commits [of 5 2000] maj one(2) by simp
  ultimately show ?thesis by blast
qed

text \<open>A follower that accepts an append sets the commit index of the partition to the leader's commit
  index or its own, whichever is larger, but never beyond the offset named in the request: so the commit index goes
  backwards exactly when that offset is smaller than what was already committed.\<close>

theorem ObserveAppend_commit:
  "ObserveAppend io s key t leader off commit now = (s', True) \<Longrightarrow>
     commitIndex s' key = min (max (commitIndex s key) commit) off \<and>
     (commitIndex s' key < commitIndex s key \<longleftrightarrow> off < commitIndex s key)"
proof -
  assume r: "ObserveAppend io s key t leader off commit now = (s', True)"
  define s1 where "s1 = (if t > rs_current_term s then PersistLocked io (s\<lparr>rs_current_term := t, rs_voted_for := []\<rparr>) else s)"
  have same: "rs_partition_states s1 = rs_partition_states s" by (simp add: s1_def)
  then have st: "partition_state s1 key = partition_state s key" by (simp add: partition_state_def)
  have "rs_partition_states s' = AList.update key (partition_state s key
      \<lparr>ps_commit_index := min (max (commitIndex s key) commit) off\<rparr>) (rs_partition_states s)"
    using r unfolding ObserveAppend_def Let_def s1_def [symmetric] st same
    by (auto simp: commitIndex_state split: if_splits option.splits)
  then have "commitIndex s' key = min (max (commitIndex s key) commit) off" by (simp add: commitIndex_update)
  then show ?thesis by (auto simp: min_def max_def split: if_splits)
qed

theorem ObserveAppend_commit_witness:
  "commitIndex (fst (ObserveAppend good_persist demo_leader [1] 0 [98] 7 7 200)) [1] = 7 \<and>
   commitIndex (fst (ObserveAppend good_persist (fst (ObserveAppend good_persist demo_leader [1] 0 [98] 7 7 200)) [1] 0 [98] 3 7 300)) [1] = 3"
proof -
  define s where "s = fst (ObserveAppend good_persist demo_leader [1] 0 [98] 7 7 200)"
  have fields: "rs_node_id demo_leader = [97]" "rs_current_term demo_leader = 0" "commitIndex demo_leader [1] = 0"
    "map_of (rs_replicas demo_leader) [98] \<noteq> None" "rs_has_path demo_leader"
    by (simp_all add: demo_leader_def RecordLocalOffset_def ObserveHeartbeat_def new_ReplicationCoordinator_def LoadState_def
        commitIndex_def partition_state_def default_PartitionState_def partition_progress_def)
  have first: "ObserveAppend good_persist demo_leader [1] 0 [98] 7 7 200 = (s, True)"
    using fields by (simp add: s_def ObserveAppend_def Let_def)
  then have s: "commitIndex s [1] = 7" using ObserveAppend_commit [OF first] fields by simp
  have "rs_current_term s = 0" "map_of (rs_replicas s) [98] \<noteq> None"
    using observe_append_fields [OF first] fields by (auto simp: map_of_eq_None_iff)
  then have "ObserveAppend good_persist s [1] 0 [98] 3 7 300 = (fst (ObserveAppend good_persist s [1] 0 [98] 3 7 300), True)"
    by (auto simp: ObserveAppend_def Let_def)
  from ObserveAppend_commit [OF this] s show ?thesis unfolding s_def [symmetric] by simp
qed

section \<open>Stepping down\<close>

definition heartbeat_rounds :: "repl \<Rightarrow> bool list \<Rightarrow> repl" where
  "heartbeat_rounds = foldl (\<lambda>s b. fst (ObserveHeartbeatRound s b))"

lemma ObserveHeartbeatRound_not_leader:
  "rs_role s \<noteq> kLeader \<Longrightarrow> heartbeat_rounds s rounds = s"
  by (induction rounds) (simp_all add: heartbeat_rounds_def ObserveHeartbeatRound_def)

lemma heartbeat_rounds_leader:
  assumes "rs_role s = kLeader" and "rs_missed_heartbeat_rounds s = m" and "m < 3"
  shows "rs_role (heartbeat_rounds s rounds) = kLeader \<longleftrightarrow>
    \<not> sublist [False, False, False] (replicate m False @ rounds)"
  using assms
proof (induction rounds arbitrary: s m)
  case Nil
  then have "m = 0 \<or> m = 1 \<or> m = 2" by auto
  with Nil show ?case by (auto simp: heartbeat_rounds_def numeral_2_eq_2 dest: sublist_length_le)
next
  case (Cons b rounds)
  let ?s = "fst (ObserveHeartbeatRound s b)"
  have unfold: "heartbeat_rounds s (b # rounds) = heartbeat_rounds ?s rounds" by (simp add: heartbeat_rounds_def)
  show ?case
  proof (cases b)
    case True
    with Cons.prems have "rs_role ?s = kLeader" "rs_missed_heartbeat_rounds ?s = 0" by (simp_all add: ObserveHeartbeatRound_def)
    from Cons.IH [OF this] have "rs_role (heartbeat_rounds ?s rounds) = kLeader \<longleftrightarrow> \<not> sublist [False, False, False] rounds" by simp
    moreover have "m = 0 \<or> m = 1 \<or> m = 2" using Cons.prems by auto
    ultimately show ?thesis using True unfolding unfold by (auto simp: sublist_Cons_right numeral_2_eq_2)
  next
    case False
    show ?thesis
    proof (cases "m = 2")
      case True
      with False Cons.prems have "rs_role ?s = kFollower" by (simp add: ObserveHeartbeatRound_def Let_def)
      then have "rs_role (heartbeat_rounds ?s rounds) \<noteq> kLeader" by (simp add: ObserveHeartbeatRound_not_leader)
      moreover have "sublist [False, False, False] (replicate m False @ b # rounds)"
        using True False by (simp add: numeral_2_eq_2 sublist_Cons_right)
      ultimately show ?thesis unfolding unfold by simp
    next
      case m: False
      with False Cons.prems have "rs_role ?s = kLeader" "rs_missed_heartbeat_rounds ?s = Suc m" "Suc m < 3"
        by (simp_all add: ObserveHeartbeatRound_def Let_def)
      from Cons.IH [OF this] False show ?thesis unfolding unfold by (simp add: replicate_app_Cons_same)
    qed
  qed
qed

text \<open>A leader with no missed round stays leader through a sequence of heartbeat rounds exactly when the
  sequence does not contain three rounds in a row without a majority.\<close>

theorem leader_steps_down:
  "rs_role s = kLeader \<Longrightarrow> rs_missed_heartbeat_rounds s = 0 \<Longrightarrow>
     rs_role (heartbeat_rounds s rounds) = kLeader \<longleftrightarrow> \<not> sublist [False, False, False] rounds"
  using heartbeat_rounds_leader [of s 0 rounds] by simp

theorem leader_steps_down_witness:
  "rs_role (heartbeat_rounds demo_leader [False, False, True, False, False]) = kLeader \<and>
   rs_role (heartbeat_rounds demo_leader [True, False, False, False]) \<noteq> kLeader"
proof -
  have "rs_role demo_leader = kLeader" "rs_missed_heartbeat_rounds demo_leader = 0"
    by (simp_all add: demo_leader_def RecordLocalOffset_def ObserveHeartbeat_def new_ReplicationCoordinator_def LoadState_def Let_def)
  note steps = leader_steps_down [OF this]
  have "\<not> sublist [False, False, False] [False, False, True, False, False]"
    "sublist [False, False, False] [True, False, False, False]"
    by (simp_all add: sublist_Cons_right)
  then show ?thesis by (simp add: steps)
qed

section \<open>Pre-votes\<close>

text \<open>
  Pre-votes are never cleared: one that was collected for an earlier term still counts after the term moved on, so the
  majority of a later pre-vote round can be reached by voters of different terms.
\<close>

lemma stale_pre_votes_count:
  assumes "ObservePreVote s (rs_current_term s + 1) v True = (s', False)" and "v \<noteq> w" and "known_node s v" and "known_node s w"
    and "v \<noteq> []" and "w \<noteq> []" and "Majority s = 2"
  shows "snd (ObservePreVote (s'\<lparr>rs_current_term := t\<rparr>) (t + 1) w True)"
proof -
  have s': "s' = s\<lparr>rs_pre_votes := List.insert v (rs_pre_votes s)\<rparr>" using assms by (simp add: ObservePreVote_def Let_def)
  have "2 \<le> card (set (List.insert w (List.insert v (rs_pre_votes s))))"
  proof -
    have "card {v, w} \<le> card (set (List.insert w (List.insert v (rs_pre_votes s))))" by (intro card_mono) auto
    then show ?thesis using assms(2) by simp
  qed
  also have "\<dots> \<le> length (List.insert w (List.insert v (rs_pre_votes s)))" by (rule card_length)
  finally show ?thesis using assms(4,6,7) by (simp add: ObservePreVote_def Let_def s' known_node_def Majority_def)
qed

end
