(* ===== verification/Broker.thy ===== *)
theory Broker
  imports Complex_Main Protocol Stores Group_Coordinator Storage Replication
begin

text \<open>
  The broker's state and configuration, client authentication and authorisation, the two produce
  limits, and the handlers for topics, consumer groups and consumer offsets:
  \<^verbatim>\<open>src/server/broker.cc\<close> and \<^verbatim>\<open>include/mq/server/broker.h\<close>.

  \<open>broker\<close> has one field per data member (mutexes, the condition variable and the thread apart). A
  handler is one step: it maps the state and a request to the new state and the response, or to
  \<open>None\<close> where the code would read outside the payload. What the operating system and the clocks
  decide is in \<open>broker_io\<close>; calls of the same kind within one request are numbered. A steady clock is
  an \<open>int\<close> in milliseconds. The \<^verbatim>\<open>long double\<close> token count is an exact rational.
\<close>

section \<open>State\<close>

record ReplicationPeer =
  peer_node_id :: bytes
  peer_host :: bytes
  peer_port :: u16
  peer_leader :: bool

record ClientAuthorization =
  allow_admin :: bool
  allow_produce :: bool
  allow_consume :: bool
  produce_topics :: "bytes list"
  consume_topics :: "bytes list"

definition default_ClientAuthorization :: ClientAuthorization where
  "default_ClientAuthorization =
     \<lparr>allow_admin = True, allow_produce = True, allow_consume = True, produce_topics = [], consume_topics = []\<rparr>"

record IdempotencyEntry =
  ie_response :: Response
  ie_expires_at :: int

record TopicQuotaWindow =
  qw_bytes :: u64
  qw_start :: int

record broker =
  br_storage :: engine
  br_metadata_files :: store_files
  br_offset_files :: store_files
  br_groups :: group_state
  br_offsets :: "ConsumerOffset list"
  br_queues :: topic_table
  br_opened :: bool
  br_cache :: "(bytes, IdempotencyEntry) umap"
  br_node_id :: bytes
  br_peers :: "ReplicationPeer list"
  br_replication_token :: bytes
  br_client_token :: bytes
  br_authorization :: ClientAuthorization
  br_replication_configured :: bool
  br_quorum :: nat
  br_repl :: repl
  br_follower :: bool
  br_replication_offsets :: "(bytes, u64) umap"
  br_request_count :: u64
  br_produce_count :: u64
  br_fetch_count :: u64
  br_error_count :: u64
  br_rate_limit :: u64
  br_tokens :: rat
  br_last_refill :: int
  br_topic_quota :: u64
  br_windows :: "(bytes, TopicQuotaWindow) umap"

text \<open>
  The answer of a peer to \<^verbatim>\<open>ReplicationClient::Append\<close>: whether the call with these arguments
  (peer, topic, partition, messages, term, commit index, leader, previous index and term) succeeds.
\<close>

type_synonym append_rpc =
  "ReplicationPeer \<Rightarrow> bytes \<Rightarrow> u32 \<Rightarrow> Message list \<Rightarrow> u64 \<Rightarrow> u64 \<Rightarrow> bytes \<Rightarrow> u64 \<Rightarrow> u64 \<Rightarrow> bool"

text \<open>One produced message: the clock before and after, the storage, the state file and the peers.\<close>

record produce_io =
  pi_now :: int
  pi_done :: int
  pi_storage :: storage_io
  pi_persist :: persist_io
  pi_append :: append_rpc

record broker_io =
  bi_now :: int
  bi_produce :: "nat \<Rightarrow> produce_io"
  bi_storage :: "nat \<Rightarrow> storage_io"
  bi_flush :: "bytes \<times> u32 \<Rightarrow> nat \<Rightarrow> bool"
  bi_save_topics :: "nat \<Rightarrow> save_io"
  bi_save_offsets :: save_io
  bi_persist :: persist_io

type_synonym outcome = "(broker \<times> Response) option"

section \<open>Helpers\<close>

text \<open>The position after the bytes, or \<open>None\<close> when there are not enough.\<close>

definition Take :: "bytes \<Rightarrow> nat \<Rightarrow> nat \<Rightarrow> nat option" where
  "Take input position count =
    (if position > length input \<or> count > length input - position then None else Some (position + count))"

definition ConstantTimeEqual :: "bytes \<Rightarrow> bytes \<Rightarrow> bool" where
  "ConstantTimeEqual left right =
    (if length left \<noteq> length right then False
     else foldl (\<lambda>difference (l, r). difference OR (l XOR r)) 0 (zip left right) = 0)"

definition IdempotencyKey :: "bytes \<Rightarrow> u64 \<Rightarrow> u64 \<Rightarrow> bytes" where
  "IdempotencyKey topic producer_id sequence_number =
     topic @ [0x1F] @ to_string (unat producer_id) @ str '':'' @ to_string (unat sequence_number)"

definition PartitionKey :: "bytes \<Rightarrow> u32 \<Rightarrow> bytes" where
  "PartitionKey topic part = topic @ [0x1F] @ to_string (unat part)"

definition MakeResponse :: "Request \<Rightarrow> Status \<Rightarrow> bytes \<Rightarrow> Response" where
  "MakeResponse request st payload = default_Response\<lparr>resp_status := st, resp_id := req_id request, resp_payload := payload\<rparr>"

abbreviation reply :: "broker \<Rightarrow> Request \<Rightarrow> Status \<Rightarrow> outcome" where
  "reply b request st \<equiv> Some (b, MakeResponse request st [])"

text \<open>The status for a topic that cannot be routed.\<close>

definition route_status :: "string \<Rightarrow> Status" where
  "route_status err = (if err = ''unknown topic'' then kUnknownTopic else kInvalidOffset)"

section \<open>Construction and configuration\<close>

definition new_Broker ::
  "StorageConfig \<Rightarrow> (bytes \<times> bytes, part_dir) umap \<Rightarrow> store_files \<Rightarrow> store_files \<Rightarrow> int \<Rightarrow> broker" where
  "new_Broker config disk topic_files offset_files now =
     \<lparr>br_storage = new_engine config disk, br_metadata_files = topic_files, br_offset_files = offset_files,
      br_groups = init_groups 30000, br_offsets = [], br_queues = [], br_opened = False, br_cache = [],
      br_node_id = str ''node-local'', br_peers = [], br_replication_token = [], br_client_token = [],
      br_authorization = default_ClientAuthorization, br_replication_configured = False, br_quorum = 0,
      br_repl = new_ReplicationCoordinator (str ''node-local'') kLeader 10000 False None,
      br_follower = False, br_replication_offsets = [],
      br_request_count = 0, br_produce_count = 0, br_fetch_count = 0, br_error_count = 0,
      br_rate_limit = 0, br_tokens = 0, br_last_refill = now, br_topic_quota = 0, br_windows = []\<rparr>"

text \<open>\<open>raft_disk\<close> is the state file found in the metadata directory.\<close>

definition ConfigureReplication ::
  "broker \<Rightarrow> bytes \<Rightarrow> ReplicationPeer list \<Rightarrow> nat \<Rightarrow> bool \<Rightarrow> bytes \<Rightarrow> bytes option \<Rightarrow> broker" where
  "ConfigureReplication b node_id peers quorum follower auth_token raft_disk =
     b\<lparr>br_node_id := node_id, br_peers := peers,
       br_quorum := (if quorum = 0 then length peers + 1 else quorum),
       br_follower := follower, br_replication_token := auth_token, br_replication_configured := True,
       br_repl := foldl RegisterReplica
         (new_ReplicationCoordinator node_id (if follower then kFollower else kLeader) 10000 True raft_disk)
         (map peer_node_id peers)\<rparr>"

definition ConfigureClientAuth :: "broker \<Rightarrow> bytes \<Rightarrow> ClientAuthorization \<Rightarrow> broker" where
  "ConfigureClientAuth b auth_token authorization =
     b\<lparr>br_client_token := auth_token, br_authorization := authorization\<rparr>"

definition ConfigureRateLimit :: "broker \<Rightarrow> u64 \<Rightarrow> int \<Rightarrow> broker" where
  "ConfigureRateLimit b produce_requests_per_second now =
     b\<lparr>br_rate_limit := produce_requests_per_second, br_tokens := of_nat (unat produce_requests_per_second),
       br_last_refill := now\<rparr>"

definition ConfigureTopicQuota :: "broker \<Rightarrow> u64 \<Rightarrow> broker" where
  "ConfigureTopicQuota b produce_bytes_per_second = b\<lparr>br_topic_quota := produce_bytes_per_second, br_windows := []\<rparr>"

section \<open>Limits\<close>

definition AllowProduceRequest :: "int \<Rightarrow> broker \<Rightarrow> broker \<times> bool" where
  "AllowProduceRequest now b =
    (if br_rate_limit b = 0 then (b, True)
     else
       let elapsed = of_int (now - br_last_refill b) / 1000;
           capacity = of_nat (unat (br_rate_limit b));
           tokens = min capacity (br_tokens b + elapsed * capacity);
           b' = b\<lparr>br_tokens := tokens, br_last_refill := now\<rparr>
       in if tokens < 1 then (b', False) else (b'\<lparr>br_tokens := tokens - 1\<rparr>, True))"

definition AllowTopicBytes :: "int \<Rightarrow> broker \<Rightarrow> bytes \<Rightarrow> u64 \<Rightarrow> broker \<times> bool" where
  "AllowTopicBytes now b topic count =
    (if br_topic_quota b = 0 then (b, True)
     else if count > br_topic_quota b then (b, False)
     else
       let found = (case map_of (br_windows b) topic of None \<Rightarrow> \<lparr>qw_bytes = 0, qw_start = now\<rparr> | Some w \<Rightarrow> w);
           window = (if now - qw_start found \<ge> 1000 then \<lparr>qw_bytes = 0, qw_start = now\<rparr> else found)
       in if qw_bytes window > br_topic_quota b - count
          then (b\<lparr>br_windows := AList.update topic window (br_windows b)\<rparr>, False)
          else (b\<lparr>br_windows := AList.update topic (window\<lparr>qw_bytes := qw_bytes window + count\<rparr>) (br_windows b)\<rparr>, True))"

section \<open>Authentication and authorisation\<close>

definition TopicAllowed :: "bytes list \<Rightarrow> bytes \<Rightarrow> bool" where
  "TopicAllowed topics topic \<longleftrightarrow> topics = [] \<or> topic \<in> set topics"

fun AuthorizeClientRequest :: "ClientAuthorization \<Rightarrow> Command \<Rightarrow> bytes \<Rightarrow> bool" where
  "AuthorizeClientRequest a kCreateTopic topic = allow_admin a"
| "AuthorizeClientRequest a kDeleteTopic topic = allow_admin a"
| "AuthorizeClientRequest a kListTopic topic = allow_admin a"
| "AuthorizeClientRequest a kMetrics topic = allow_admin a"
| "AuthorizeClientRequest a kProduce topic = (allow_produce a \<and> TopicAllowed (produce_topics a) topic)"
| "AuthorizeClientRequest a kProduceBatch topic = (allow_produce a \<and> TopicAllowed (produce_topics a) topic)"
| "AuthorizeClientRequest a kFetch topic = (allow_consume a \<and> (topic = [] \<or> TopicAllowed (consume_topics a) topic))"
| "AuthorizeClientRequest a kCommitOffset topic = (allow_consume a \<and> (topic = [] \<or> TopicAllowed (consume_topics a) topic))"
| "AuthorizeClientRequest a kJoinGroup topic = (allow_consume a \<and> (topic = [] \<or> TopicAllowed (consume_topics a) topic))"
| "AuthorizeClientRequest a kSyncGroup topic = (allow_consume a \<and> (topic = [] \<or> TopicAllowed (consume_topics a) topic))"
| "AuthorizeClientRequest a kOffsetFetch topic = (allow_consume a \<and> (topic = [] \<or> TopicAllowed (consume_topics a) topic))"
| "AuthorizeClientRequest a kHeartbeat topic = True"
| "AuthorizeClientRequest a _ topic = False"

text \<open>The token check both validations share: the payload after the token, or nothing.\<close>

definition strip_token :: "bytes \<Rightarrow> bytes \<Rightarrow> bytes option option" where
  "strip_token token payload =
    (if length payload < 2 then Some None
     else do {
       token_size \<leftarrow> Get16 payload 0;
       if unat token_size \<noteq> length token \<or> length payload < 2 + unat token_size then Some None
       else do {
         presented \<leftarrow> substr payload 2 (unat token_size);
         Some (if ConstantTimeEqual presented token then Some (drop (2 + unat token_size) payload) else None) } })"

definition ValidateReplicationRequest :: "broker \<Rightarrow> Request \<Rightarrow> Request option option" where
  "ValidateReplicationRequest b request =
    (let flags = req_flags request; command = req_command request in
     if \<not> br_replication_configured b \<or> br_replication_token b = [] \<or> flags AND kFlagReplication = 0 then Some None
     else if command \<notin> {kHeartbeat, kReplicaFetch, kReplicaAppend, kReplicaVote} then Some None
     else if command = kReplicaAppend \<and> flags AND kFlagReplicationTerm = 0 then Some None
     else if flags AND kFlagReplicationTerm \<noteq> 0 \<and> command \<notin> {kHeartbeat, kReplicaAppend, kReplicaVote} then Some None
     else do {
       rest \<leftarrow> strip_token (br_replication_token b) (req_payload request);
       Some (map_option (\<lambda>payload. request\<lparr>req_payload := payload\<rparr>) rest) })"

definition ValidateClientAuth :: "broker \<Rightarrow> Request \<Rightarrow> Request option option" where
  "ValidateClientAuth b request =
    (let flags = req_flags request in
     if flags AND kFlagReplication \<noteq> 0 then Some None
     else if br_client_token b = [] then Some (if flags AND kFlagAuthentication = 0 then Some request else None)
     else if flags AND kFlagAuthentication = 0 then Some None
     else do {
       rest \<leftarrow> strip_token (br_client_token b) (req_payload request);
       Some (map_option
         (\<lambda>payload. request\<lparr>req_flags := flags AND NOT kFlagAuthentication, req_payload := payload\<rparr>) rest) })"

section \<open>Topics\<close>

definition HandleCreateTopic :: "broker_io \<Rightarrow> broker \<Rightarrow> Request \<Rightarrow> outcome" where
  "HandleCreateTopic io b request =
    (if length (req_payload request) \<noteq> 4 then reply b request kBadRequest
     else do {
       partition_count \<leftarrow> Get32 (req_payload request) 0;
       case CreateTopic (br_queues b) (req_topic request) partition_count of
         (queues, Inl err) \<Rightarrow>
           reply (b\<lparr>br_queues := queues\<rparr>) request (if err = ''topic already exists'' then kTopicExists else kBadRequest)
       | (queues, Inr _) \<Rightarrow>
           let b1 = b\<lparr>br_queues := queues, br_groups := SetPartitions (br_groups b) (req_topic request) partition_count\<rparr> in
           (case TopicMetadataStore_Save (bi_save_topics io 0) (br_metadata_files b1) (ListTopics queues) of
              (files, Inl err) \<Rightarrow>
                reply (b1\<lparr>br_metadata_files := files, br_queues := fst (DeleteTopic queues (req_topic request))\<rparr>)
                  request kStorageError
            | (files, Inr _) \<Rightarrow> reply (b1\<lparr>br_metadata_files := files\<rparr>) request kOk) })"

text \<open>\<^verbatim>\<open>rfind(prefix, 0) == 0\<close> asks whether the key starts with the prefix.\<close>

definition drop_topic_entries :: "bytes \<Rightarrow> (bytes, IdempotencyEntry) umap \<Rightarrow> (bytes, IdempotencyEntry) umap" where
  "drop_topic_entries topic cache =
     filter (\<lambda>(key, _). take (length topic + 1) key \<noteq> topic @ [0x1F]) cache"

definition HandleDeleteTopic :: "broker_io \<Rightarrow> broker \<Rightarrow> Request \<Rightarrow> outcome" where
  "HandleDeleteTopic io b request =
    (if req_payload request \<noteq> [] then reply b request kBadRequest
     else case GetTopic (br_queues b) (req_topic request) of
       None \<Rightarrow> reply b request kUnknownTopic
     | Some deleted_topic \<Rightarrow>
         (case DeleteTopic (br_queues b) (req_topic request) of
            (queues, Inl err) \<Rightarrow> reply (b\<lparr>br_queues := queues\<rparr>) request kUnknownTopic
          | (queues, Inr _) \<Rightarrow>
              (case TopicMetadataStore_Save (bi_save_topics io 0) (br_metadata_files b) (ListTopics queues) of
                 (files, Inl err) \<Rightarrow>
                   reply (b\<lparr>br_metadata_files := files,
                            br_queues := fst (CreateTopic queues (tm_name deleted_topic) (tm_partition_count deleted_topic))\<rparr>)
                     request kStorageError
               | (files, Inr _) \<Rightarrow>
                   (case StorageEngine_DeleteTopic (bi_storage io 0) (br_storage b) (req_topic request) of
                      (storage, Inl err) \<Rightarrow>
                        let queues' = fst (CreateTopic queues (tm_name deleted_topic) (tm_partition_count deleted_topic)) in
                        reply (b\<lparr>br_storage := storage, br_queues := queues',
                                 br_metadata_files :=
                                   fst (TopicMetadataStore_Save (bi_save_topics io 1) files (ListTopics queues'))\<rparr>)
                          request kStorageError
                    | (storage, Inr _) \<Rightarrow>
                        let offsets = filter (\<lambda>item. co_topic item \<noteq> req_topic request) (br_offsets b) in
                        reply (b\<lparr>br_storage := storage, br_queues := queues, br_metadata_files := files,
                                 br_cache := drop_topic_entries (req_topic request) (br_cache b), br_offsets := offsets,
                                 br_offset_files :=
                                   fst (ConsumerOffsetStore_Save (bi_save_offsets io) (br_offset_files b) offsets)\<rparr>)
                          request kOk))))"

definition HandleListTopic :: "broker \<Rightarrow> Request \<Rightarrow> outcome" where
  "HandleListTopic b request =
    (if req_topic request \<noteq> [] \<or> req_payload request \<noteq> [] then reply b request kBadRequest
     else
       let topics = ListTopics (br_queues b) in
       Some (b, MakeResponse request kOk
         (Put32 (of_nat (length topics)) @
          concat (map (\<lambda>t. Put16 (of_nat (length (tm_name t))) @ tm_name t @ Put32 (tm_partition_count t)) topics))))"

section \<open>Consumer groups\<close>

text \<open>The loop over the topic names of a join request.\<close>

fun read_names :: "bytes \<Rightarrow> nat \<Rightarrow> nat \<Rightarrow> bytes list \<Rightarrow> (bytes list \<times> nat) option option" where
  "read_names payload 0 position topics = Some (Some (topics, position))"
| "read_names payload (Suc count) position topics =
    (if position + 2 > length payload then Some None
     else do {
       size \<leftarrow> Get16 payload position;
       if size = 0 \<or> position + 2 + unat size > length payload then Some None
       else do {
         name \<leftarrow> substr payload (position + 2) (unat size);
         read_names payload count (position + 2 + unat size) (topics @ [name]) } })"

definition HandleJoinGroup :: "broker_io \<Rightarrow> broker \<Rightarrow> Request \<Rightarrow> outcome" where
  "HandleJoinGroup io b request =
    (let payload = req_payload request in
     if length payload < 6 then reply b request kBadRequest
     else do {
       group_size \<leftarrow> map_option unat (Get16 payload 0);
       if 2 + group_size + 4 > length payload then reply b request kBadRequest
       else do {
         member_size \<leftarrow> map_option unat (Get16 payload (2 + group_size));
         topic_count \<leftarrow> map_option unat (Get16 payload (4 + group_size));
         let start = 6 + group_size + member_size;
         if group_size = 0 \<or> member_size = 0 \<or> start > length payload then reply b request kBadRequest
         else do {
           names \<leftarrow> read_names payload topic_count start [];
           case names of
             None \<Rightarrow> reply b request kBadRequest
           | Some (topics, position) \<Rightarrow>
               if position \<noteq> length payload then reply b request kBadRequest
               else do {
                 grp \<leftarrow> substr payload 2 group_size;
                 member_id \<leftarrow> substr payload (4 + group_size) member_size;
                 case Join (br_groups b) grp member_id topics (bi_now io) of
                   (groups, False) \<Rightarrow> reply (b\<lparr>br_groups := groups\<rparr>) request kBadRequest
                 | (groups, True) \<Rightarrow>
                     Some (b\<lparr>br_groups := groups\<rparr>,
                       MakeResponse request kOk (Put16 (of_nat (length member_id)) @ member_id)) } } } })"

definition HandleSyncGroup :: "broker \<Rightarrow> Request \<Rightarrow> outcome" where
  "HandleSyncGroup b request =
    (let payload = req_payload request in
     if length payload < 4 then reply b request kBadRequest
     else do {
       group_size \<leftarrow> map_option unat (Get16 payload 0);
       if 2 + group_size + 2 > length payload then reply b request kBadRequest
       else do {
         member_size \<leftarrow> map_option unat (Get16 payload (2 + group_size));
         if group_size = 0 \<or> member_size = 0 \<or> 4 + group_size + member_size \<noteq> length payload
         then reply b request kBadRequest
         else do {
           grp \<leftarrow> substr payload 2 group_size;
           member_id \<leftarrow> substr payload (4 + group_size) member_size;
           case Sync (br_groups b) grp member_id of
             None \<Rightarrow> reply b request kInvalidOffset
           | Some assignments \<Rightarrow>
               Some (b, MakeResponse request kOk
                 (Put32 (of_nat (length assignments)) @
                  concat (map (\<lambda>a. Put16 (of_nat (length (ga_topic a))) @ ga_topic a @ Put32 (ga_partition a)) assignments))) } } })"

text \<open>
  Heartbeats: of a replica, of a group member, or an empty one that flushes the storage. Every one
  expires group members first.
\<close>

definition HandleHeartbeat :: "broker_io \<Rightarrow> broker \<Rightarrow> Request \<Rightarrow> outcome" where
  "HandleHeartbeat io b0 request =
    (let payload = req_payload request; b = b0\<lparr>br_groups := fst (Expire (br_groups b0) (bi_now io))\<rparr> in
     if req_flags request AND kFlagReplication \<noteq> 0 then
       (if req_topic request = [] \<or> length payload < 14 then reply b request kBadRequest
        else do {
          node_size \<leftarrow> map_option unat (Get16 payload 0);
          if node_size = 0 \<or> (14 + node_size \<noteq> length payload \<and> 30 + node_size \<noteq> length payload)
          then reply b request kBadRequest
          else do {
            node_id \<leftarrow> substr payload 2 node_size;
            part \<leftarrow> Get32 payload (2 + node_size);
            replicated_offset \<leftarrow> Get64 payload (6 + node_size);
            let key = PartitionKey (req_topic request) part;
            if length payload = 30 + node_size then do {
              term \<leftarrow> Get64 payload (14 + node_size);
              commit \<leftarrow> Get64 payload (22 + node_size);
              case ObserveAppend (bi_persist io) (br_repl b) key term node_id replicated_offset commit (bi_now io) of
                (s, False) \<Rightarrow> reply (b\<lparr>br_repl := s\<rparr>) request kStorageError
              | (s, True) \<Rightarrow> Some (b\<lparr>br_repl := s\<rparr>, MakeResponse request kOk (Put64 replicated_offset)) }
            else Some (b\<lparr>br_repl := ObserveHeartbeat (br_repl b) key node_id replicated_offset (bi_now io)\<rparr>,
                       MakeResponse request kOk (Put64 replicated_offset)) } })
     else if length payload \<ge> 4 then do {
       group_size \<leftarrow> map_option unat (Get16 payload 0);
       if length payload \<noteq> 4 + group_size then reply b request kBadRequest
       else do {
         member_size \<leftarrow> map_option unat (Get16 payload (2 + group_size));
         if group_size = 0 \<or> member_size = 0 \<or> length payload \<noteq> 4 + group_size + member_size
         then reply b request kBadRequest
         else do {
           grp \<leftarrow> substr payload 2 group_size;
           member_id \<leftarrow> substr payload (4 + group_size) member_size;
           case Heartbeat (br_groups b) grp member_id (bi_now io) of
             (groups, False) \<Rightarrow> reply (b\<lparr>br_groups := groups\<rparr>) request kInvalidOffset
           | (groups, True) \<Rightarrow> reply (b\<lparr>br_groups := groups\<rparr>) request kOk } } }
     else if payload \<noteq> [] then reply b request kBadRequest
     else case Flush (bi_flush io) (br_storage b) of
       Inl err \<Rightarrow> reply b request kStorageError
     | Inr _ \<Rightarrow> reply b request kOk)"

section \<open>Consumer offsets\<close>

definition same_offset :: "bytes \<Rightarrow> bytes \<Rightarrow> u32 \<Rightarrow> ConsumerOffset \<Rightarrow> bool" where
  "same_offset grp topic part item \<longleftrightarrow> co_group item = grp \<and> co_topic item = topic \<and> co_partition item = part"

text \<open>\<^verbatim>\<open>find_if\<close> and the assignment through its iterator, or \<^verbatim>\<open>push_back\<close>.\<close>

fun commit_offset :: "bytes \<Rightarrow> bytes \<Rightarrow> u32 \<Rightarrow> u64 \<Rightarrow> ConsumerOffset list \<Rightarrow> ConsumerOffset list" where
  "commit_offset grp topic part offset [] = [\<lparr>co_group = grp, co_topic = topic, co_partition = part, co_offset = offset\<rparr>]"
| "commit_offset grp topic part offset (item # items) =
    (if same_offset grp topic part item then item\<lparr>co_offset := offset\<rparr> # items
     else item # commit_offset grp topic part offset items)"

definition HandleCommitOffset :: "broker_io \<Rightarrow> broker \<Rightarrow> Request \<Rightarrow> outcome" where
  "HandleCommitOffset io b request =
    (let payload = req_payload request in
     case Take payload 0 2 of
       None \<Rightarrow> reply b request kBadRequest
     | Some group_position \<Rightarrow> do {
         group_size \<leftarrow> map_option unat (Get16 payload 0);
         case Option.bind (Option.bind (Take payload group_position group_size) (\<lambda>p. Take payload p 4)) (\<lambda>p. Take payload p 8) of
           None \<Rightarrow> reply b request kBadRequest
         | Some position \<Rightarrow>
             if position \<noteq> length payload then reply b request kBadRequest
             else do {
               part \<leftarrow> Get32 payload (group_position + group_size);
               offset \<leftarrow> Get64 payload (group_position + group_size + 4);
               if group_size = 0 \<or> req_topic request = [] then reply b request kBadRequest
               else case ResolvePartition (br_queues b) (req_topic request) part [] of
                 Inl err \<Rightarrow> reply b request (route_status err)
               | Inr resolved \<Rightarrow> do {
                   grp \<leftarrow> substr payload group_position group_size;
                   let offsets = commit_offset grp (req_topic request) resolved offset (br_offsets b);
                   case ConsumerOffsetStore_Save (bi_save_offsets io) (br_offset_files b) offsets of
                     (files, Inl err) \<Rightarrow> reply (b\<lparr>br_offsets := offsets, br_offset_files := files\<rparr>) request kStorageError
                   | (files, Inr _) \<Rightarrow> reply (b\<lparr>br_offsets := offsets, br_offset_files := files\<rparr>) request kOk } } })"

definition committed :: "ConsumerOffset list \<Rightarrow> bytes \<Rightarrow> bytes \<Rightarrow> u32 \<Rightarrow> u64 option" where
  "committed offsets grp topic part = map_option co_offset (find (same_offset grp topic part) offsets)"

definition HandleOffsetFetch :: "broker \<Rightarrow> Request \<Rightarrow> outcome" where
  "HandleOffsetFetch b request =
    (let payload = req_payload request in
     if req_topic request = [] \<or> length payload < 6 then reply b request kBadRequest
     else do {
       group_size \<leftarrow> map_option unat (Get16 payload 0);
       if group_size = 0 \<or> length payload \<noteq> 6 + group_size then reply b request kBadRequest
       else do {
         part \<leftarrow> Get32 payload (2 + group_size);
         grp \<leftarrow> substr payload 2 group_size;
         case ResolvePartition (br_queues b) (req_topic request) part [] of
           Inl err \<Rightarrow> reply b request (route_status err)
         | Inr resolved \<Rightarrow>
             Some (b, MakeResponse request kOk
               (Put64 (case committed (br_offsets b) grp (req_topic request) resolved of None \<Rightarrow> 0 | Some off \<Rightarrow> off))) } })"

section \<open>Opening\<close>

text \<open>The steps stop at the first one that fails; what was done stays.\<close>

definition Broker_Open :: "storage_io \<Rightarrow> load_io \<Rightarrow> load_io \<Rightarrow> broker \<Rightarrow> broker \<times> unit result" where
  "Broker_Open storage_io topics_io offsets_io b =
    (if br_opened b then (b, Inr ())
     else case Open storage_io (br_storage b) of
       (storage, Inl err) \<Rightarrow> (b\<lparr>br_storage := storage\<rparr>, Inl err)
     | (storage, Inr _) \<Rightarrow>
         (case TopicMetadataStore_Load topics_io (br_metadata_files b) of
            (topics, Inl err) \<Rightarrow> (b\<lparr>br_storage := storage\<rparr>, Inl err)
          | (topics, Inr _) \<Rightarrow>
              (case ReplaceTopics (br_queues b) topics of
                 (queues, Inl err) \<Rightarrow> (b\<lparr>br_storage := storage, br_queues := queues\<rparr>, Inl err)
               | (queues, Inr _) \<Rightarrow>
                   let b1 = b\<lparr>br_storage := storage, br_queues := queues,
                       br_groups := foldl (\<lambda>g t. SetPartitions g (tm_name t) (tm_partition_count t)) (br_groups b) (ListTopics queues)\<rparr> in
                   (case ConsumerOffsetStore_Load offsets_io (br_offset_files b) of
                      (offsets, Inl err) \<Rightarrow> (b1\<lparr>br_offsets := offsets\<rparr>, Inl err)
                    | (offsets, Inr _) \<Rightarrow> (b1\<lparr>br_offsets := offsets, br_opened := True\<rparr>, Inr ())))))"

definition Broker_Flush :: "broker_io \<Rightarrow> broker \<Rightarrow> unit result" where
  "Broker_Flush io b = Flush (bi_flush io) (br_storage b)"

end
