(* ===== verification/Broker_Data.thy ===== *)
theory Broker_Data
  imports Broker
begin

text \<open>
  The data path of the broker, \<^verbatim>\<open>src/server/broker.cc\<close>: \<^verbatim>\<open>Replicate\<close>, \<^verbatim>\<open>HandleProduce\<close>,
  \<^verbatim>\<open>HandleProduceBatch\<close>, \<^verbatim>\<open>HandleFetch\<close> and \<^verbatim>\<open>HandleMetrics\<close>. A long handler is split where the code
  has a comment: parsing, routing and storing are definitions of their own, and the loops of the batch
  are recursions over the messages. The parsers return \<open>None\<close> for a read outside the payload, \<open>Inl\<close>
  the status of an early return and \<open>Inr\<close> what was parsed.
\<close>

section \<open>Replication of one message\<close>

text \<open>The loop over the peers: the coordinator and the number of acknowledgements after it.\<close>

fun replicate_to_peers ::
  "produce_io \<Rightarrow> broker \<Rightarrow> bytes \<Rightarrow> u32 \<Rightarrow> Message \<Rightarrow> ReplicationPeer list \<Rightarrow> repl \<Rightarrow> nat \<Rightarrow> repl \<times> nat" where
  "replicate_to_peers io b topic part message [] s acknowledgements = (s, acknowledgements)"
| "replicate_to_peers io b topic part message (peer # peers) s acknowledgements =
    (if pi_append io peer topic part [message] (rs_current_term s) (commitIndex s (PartitionKey topic part)) (br_node_id b)
          (if msg_offset message = 0 then 0 else msg_offset message - 1) (lastLogTerm s)
     then replicate_to_peers io b topic part message peers
            (ObserveHeartbeat s (PartitionKey topic part) (peer_node_id peer) (msg_offset message) (pi_done io))
            (acknowledgements + 1)
     else replicate_to_peers io b topic part message peers s acknowledgements)"

definition Replicate :: "produce_io \<Rightarrow> broker \<Rightarrow> bytes \<Rightarrow> u32 \<Rightarrow> Message \<Rightarrow> broker \<times> bool" where
  "Replicate io b topic part message =
    (if br_peers b = [] \<or> br_quorum b \<le> 1 then (b, False)
     else case replicate_to_peers io b topic part message (br_peers b) (br_repl b) 1 of
       (s, acknowledgements) \<Rightarrow>
         if acknowledgements < br_quorum b then (b\<lparr>br_repl := s\<rparr>, False)
         else case AdvanceCommit (pi_persist io) s (PartitionKey topic part) (msg_offset message) (pi_done io) of
           (s', committed_now) \<Rightarrow> (b\<lparr>br_repl := s'\<rparr>, committed_now))"

section \<open>HandleProduce\<close>

text \<open>Partition, key and value from the position on; the payload ends with the value.\<close>

definition parse_message :: "bytes \<Rightarrow> nat \<Rightarrow> (Status + (u32 \<times> bytes \<times> bytes)) option" where
  "parse_message payload position =
    (if position + 4 > length payload then Some (Inl kBadRequest)
     else do {
       requested_partition \<leftarrow> Get32 payload position;
       case Option.bind (Take payload position 4) (\<lambda>p. Take payload p 2) of
         None \<Rightarrow> Some (Inl kBadRequest)
       | Some key_position \<Rightarrow> do {
           key_length \<leftarrow> map_option unat (Get16 payload (key_position - 2));
           case Option.bind (Take payload key_position key_length) (\<lambda>p. Take payload p 4) of
             None \<Rightarrow> Some (Inl kBadRequest)
           | Some value_position \<Rightarrow> do {
               value_length \<leftarrow> map_option unat (Get32 payload (value_position - 4));
               (case Take payload value_position value_length of
                  None \<Rightarrow> Some (Inl kBadRequest)
                | Some end_position \<Rightarrow>
                    if end_position \<noteq> length payload then Some (Inl kBadRequest)
                    else do {
                      key \<leftarrow> substr payload key_position key_length;
                      val \<leftarrow> substr payload value_position value_length;
                      Some (Inr (requested_partition, key, val)) }) } } })"

text \<open>After the log: replication when every replica must acknowledge, the answer, the cache entry.\<close>

definition finish_message :: "produce_io \<Rightarrow> broker \<Rightarrow> Request \<Rightarrow> bytes option \<Rightarrow> u32 \<Rightarrow> Message \<Rightarrow> broker \<times> Response" where
  "finish_message io b request cache_key part message =
    (case (if req_flags request AND kAckMask = kAckAll then Replicate io b (req_topic request) part message else (b, True)) of
       (b1, False) \<Rightarrow> (b1, MakeResponse request kStorageError [])
     | (b1, True) \<Rightarrow>
         let response = MakeResponse request kOk (Put32 part @ Put64 (msg_offset message)) in
         (case cache_key of
            None \<Rightarrow> (b1, response)
          | Some ck \<Rightarrow>
              (b1\<lparr>br_cache := AList.update ck \<lparr>ie_response = response, ie_expires_at = pi_done io + 300000\<rparr> (br_cache b1)\<rparr>,
               response)))"

text \<open>
  Routing, quota, log, replication and answer, with the cache key of an idempotent producer. The
  quota counts \<^verbatim>\<open>key_length + value_length\<close>, the sizes just parsed.
\<close>

definition store_message ::
  "produce_io \<Rightarrow> broker \<Rightarrow> Request \<Rightarrow> bool \<Rightarrow> bytes option \<Rightarrow> u32 \<times> bytes \<times> bytes \<Rightarrow> broker \<times> Response" where
  "store_message io b request enforce_topic_quota cache_key parsed =
    (case parsed of (requested_partition, key, val) \<Rightarrow>
     case ResolvePartition (br_queues b) (req_topic request) requested_partition key of
       Inl err \<Rightarrow> (b, MakeResponse request (if err = ''unknown topic'' then kUnknownTopic else kBadRequest) [])
     | Inr part \<Rightarrow>
         (case (if enforce_topic_quota \<and> req_flags request AND kFlagReplication = 0
                then AllowTopicBytes (pi_now io) b (req_topic request) (of_nat (length key + length val))
                else (b, True)) of
            (b1, False) \<Rightarrow> (b1, MakeResponse request kQuotaExceeded [])
          | (b1, True) \<Rightarrow>
              (case Append (pi_storage io) (br_storage b1) (req_topic request) part key val of
                 (storage, Inl err) \<Rightarrow> (b1\<lparr>br_storage := storage\<rparr>, MakeResponse request kStorageError [])
               | (storage, Inr message) \<Rightarrow>
                   let b2 = b1\<lparr>br_storage := storage,
                        br_repl := RecordLocalOffset (br_repl b1) (PartitionKey (req_topic request) part) (msg_offset message)\<rparr> in
                   finish_message io b2 request cache_key part message)))"

definition purge_cache :: "int \<Rightarrow> (bytes, IdempotencyEntry) umap \<Rightarrow> (bytes, IdempotencyEntry) umap" where
  "purge_cache now cache = filter (\<lambda>(_, entry). \<not> ie_expires_at entry \<le> now) cache"

definition produce_from ::
  "produce_io \<Rightarrow> broker \<Rightarrow> Request \<Rightarrow> bool \<Rightarrow> bytes option \<Rightarrow> nat \<Rightarrow> outcome" where
  "produce_from io b request enforce_topic_quota cache_key position = do {
     parsed \<leftarrow> parse_message (req_payload request) position;
     Some (case parsed of
       Inl st \<Rightarrow> (b, MakeResponse request st [])
     | Inr m \<Rightarrow> store_message io b request enforce_topic_quota cache_key m) }"

definition HandleProduce :: "produce_io \<Rightarrow> broker \<Rightarrow> Request \<Rightarrow> bool \<Rightarrow> bool \<Rightarrow> outcome" where
  "HandleProduce io b request enforce_rate_limit enforce_topic_quota =
    (let client = (req_flags request AND kFlagReplication = 0); payload = req_payload request in
     if client \<and> (rs_role (br_repl b) \<noteq> kLeader \<or> \<not> CanServeWrites (br_repl b) (pi_now io))
     then reply b request kNotLeader
     else case (if enforce_rate_limit \<and> client then AllowProduceRequest (pi_now io) b else (b, True)) of
       (b1, False) \<Rightarrow> reply b1 request kRateLimited
     | (b1, True) \<Rightarrow>
         if req_flags request AND kFlagProducerMetadata = 0
         then produce_from io b1 request enforce_topic_quota None 0
         else case Take payload 0 16 of
           None \<Rightarrow> reply b1 request kBadRequest
         | Some position \<Rightarrow> do {
             producer_id \<leftarrow> Get64 payload 0;
             sequence_number \<leftarrow> Get64 payload 8;
             let b2 = b1\<lparr>br_cache := purge_cache (pi_now io) (br_cache b1)\<rparr>;
             let key = IdempotencyKey (req_topic request) producer_id sequence_number;
             case map_of (br_cache b2) key of
               Some entry \<Rightarrow> Some (b2, ie_response entry\<lparr>resp_id := req_id request\<rparr>)
             | None \<Rightarrow> produce_from io b2 request enforce_topic_quota (Some key) position })"

section \<open>HandleProduceBatch\<close>

text \<open>A message of the batch: answered from the cache, or a single request to run.\<close>

datatype batch_item = Cached Response | Pending Request

text \<open>\<open>cached_results\<close> is \<^verbatim>\<open>results\<close> and \<^verbatim>\<open>is_cached\<close> after the cache check.\<close>

definition cached_results :: "(bytes, IdempotencyEntry) umap \<Rightarrow> Request \<Rightarrow> u64 \<Rightarrow> u64 \<Rightarrow> nat \<Rightarrow> Response option list" where
  "cached_results cache request producer_id first_sequence count =
     map (\<lambda>i. map_option (\<lambda>entry. ie_response entry\<lparr>resp_id := req_id request\<rparr>)
       (map_of cache (IdempotencyKey (req_topic request) producer_id (first_sequence + of_nat i)))) [0..<count]"

definition single_request :: "Request \<Rightarrow> u64 \<Rightarrow> u64 \<Rightarrow> bytes \<Rightarrow> bytes \<Rightarrow> Request" where
  "single_request request producer_id sequence_number key val =
     request\<lparr>req_command := kProduce,
       req_flags := (req_flags request AND NOT kFlagProducerMetadata) OR kFlagProducerMetadata,
       req_payload := Put64 producer_id @ Put64 sequence_number @ Put32 0xFFFFFFFF @
         Put16 (of_nat (length key)) @ key @ Put32 (of_nat (length val)) @ val\<rparr>"

text \<open>The parsing loop, from message number \<open>i\<close> at a position with the bytes counted so far.\<close>

fun parse_batch ::
  "Request \<Rightarrow> u64 \<Rightarrow> u64 \<Rightarrow> nat \<Rightarrow> Response option list \<Rightarrow> nat \<Rightarrow> u64 \<Rightarrow> (Status + (batch_item list \<times> nat \<times> u64)) option" where
  "parse_batch request producer_id first_sequence i [] position new_bytes = Some (Inr ([], position, new_bytes))"
| "parse_batch request producer_id first_sequence i (result # results) position new_bytes =
    (let payload = req_payload request in
     case Take payload position 2 of
       None \<Rightarrow> Some (Inl kBadRequest)
     | Some key_position \<Rightarrow> do {
         key_size \<leftarrow> map_option unat (Get16 payload (key_position - 2));
         case Option.bind (Take payload key_position key_size) (\<lambda>p. Take payload p 4) of
           None \<Rightarrow> Some (Inl kBadRequest)
         | Some value_position \<Rightarrow> do {
             value_size \<leftarrow> map_option unat (Get32 payload (value_position - 4));
             case Take payload value_position value_size of
               None \<Rightarrow> Some (Inl kBadRequest)
             | Some next_position \<Rightarrow>
                 (case result of
                    Some cached \<Rightarrow>
                      if length (resp_payload cached) \<noteq> 12 then Some (Inl kInternalError)
                      else do {
                        rest \<leftarrow> parse_batch request producer_id first_sequence (i + 1) results next_position new_bytes;
                        Some (map_sum id (\<lambda>(items, r). (Cached cached # items, r)) rest) }
                  | None \<Rightarrow> do {
                      key \<leftarrow> substr payload key_position key_size;
                      val \<leftarrow> substr payload value_position value_size;
                      let single = single_request request producer_id (first_sequence + of_nat i) key val;
                      let item_bytes = of_nat (key_size + value_size);
                      if new_bytes > - 1 - item_bytes then Some (Inl kBadRequest)
                      else do {
                        rest \<leftarrow> parse_batch request producer_id first_sequence (i + 1) results next_position (new_bytes + item_bytes);
                        Some (map_sum id (\<lambda>(items, r). (Pending single # items, r)) rest) } }) } })"

text \<open>The loop that runs the pending messages; the first failure ends the batch.\<close>

fun run_batch :: "(nat \<Rightarrow> produce_io) \<Rightarrow> nat \<Rightarrow> batch_item list \<Rightarrow> broker \<Rightarrow> bytes \<Rightarrow> (broker \<times> (Status + bytes)) option" where
  "run_batch io i [] b response_payload = Some (b, Inr response_payload)"
| "run_batch io i (Cached response # items) b response_payload =
     run_batch io (i + 1) items b (response_payload @ resp_payload response)"
| "run_batch io i (Pending request # items) b response_payload = do {
     (b', response) \<leftarrow> HandleProduce (io i) b request False False;
     if resp_status response \<noteq> kOk then Some (b', Inl (resp_status response))
     else run_batch io (i + 1) items b' (response_payload @ resp_payload response) }"

definition HandleProduceBatch :: "broker_io \<Rightarrow> broker \<Rightarrow> Request \<Rightarrow> outcome" where
  "HandleProduceBatch io b request =
    (let client = (req_flags request AND kFlagReplication = 0); payload = req_payload request in
     if client \<and> (rs_role (br_repl b) \<noteq> kLeader \<or> \<not> CanServeWrites (br_repl b) (bi_now io))
     then reply b request kNotLeader
     else case (if client then AllowProduceRequest (bi_now io) b else (b, True)) of
       (b1, False) \<Rightarrow> reply b1 request kRateLimited
     | (b1, True) \<Rightarrow>
         if req_flags request AND kFlagProducerMetadata = 0 then reply b1 request kNotSupported
         else case Take payload 0 20 of
           None \<Rightarrow> reply b1 request kBadRequest
         | Some position \<Rightarrow> do {
             producer_id \<leftarrow> Get64 payload 0;
             first_sequence \<leftarrow> Get64 payload 8;
             count \<leftarrow> Get32 payload 16;
             if count = 0 \<or> count > 10000 \<or> first_sequence > - 1 - ucast count + 1
             then reply b1 request kBadRequest
             else do {
               let b2 = b1\<lparr>br_cache := purge_cache (bi_now io) (br_cache b1)\<rparr>;
               parsed \<leftarrow> parse_batch request producer_id first_sequence 0
                 (cached_results (br_cache b2) request producer_id first_sequence (unat count)) position 0;
               case parsed of
                 Inl st \<Rightarrow> reply b2 request st
               | Inr (items, end_position, new_bytes) \<Rightarrow>
                   if end_position \<noteq> length payload then reply b2 request kBadRequest
                   else case (if client then AllowTopicBytes (bi_now io) b2 (req_topic request) new_bytes else (b2, True)) of
                     (b3, False) \<Rightarrow> reply b3 request kQuotaExceeded
                   | (b3, True) \<Rightarrow> do {
                       (b4, answer) \<leftarrow> run_batch (bi_produce io) 0 items b3 (Put32 count);
                       Some (b4, case answer of
                         Inl st \<Rightarrow> MakeResponse request st []
                       | Inr response_payload \<Rightarrow> MakeResponse request kOk response_payload) } } })"

section \<open>HandleFetch\<close>

definition message_record :: "Message \<Rightarrow> bytes" where
  "message_record m = Put64 (msg_offset m) @ Put64 (msg_timestamp_ms m) @ Put16 (of_nat (length (msg_key m))) @ msg_key m @
     Put32 (of_nat (length (msg_value m))) @ msg_value m"

definition record_size :: "Message \<Rightarrow> nat" where
  "record_size m = 8 + 8 + 2 + length (msg_key m) + 4 + length (msg_value m)"

text \<open>The loop that fills a fetch response while the next record fits.\<close>

fun encode_messages :: "Message list \<Rightarrow> bytes \<Rightarrow> u32 \<Rightarrow> bytes \<times> u32" where
  "encode_messages [] payload response_count = (payload, response_count)"
| "encode_messages (message # messages) payload response_count =
    (if record_size message > kMaxPayloadBytes - 4 \<or> length payload > kMaxPayloadBytes - 4 - record_size message
     then (payload, response_count)
     else encode_messages messages (payload @ message_record message) (response_count + 1))"

text \<open>The count is written over the first four bytes at the end.\<close>

definition messages_payload :: "Message list \<Rightarrow> bytes" where
  "messages_payload messages =
    (case encode_messages messages (Put32 0) 0 of (payload, response_count) \<Rightarrow> Put32 response_count @ drop 4 payload)"

text \<open>Partition, group (empty when none), offset and byte limit.\<close>

definition parse_fetch :: "bytes \<Rightarrow> (Status + (u32 \<times> bytes \<times> u64 \<times> u32)) option" where
  "parse_fetch payload =
    (if length payload < 16 then Some (Inl kBadRequest)
     else do {
       part \<leftarrow> Get32 payload 0;
       if length payload = 16 then do {
         offset \<leftarrow> Get64 payload 4;
         max_bytes \<leftarrow> Get32 payload 12;
         Some (if max_bytes = 0 then Inl kBadRequest else Inr (part, [], offset, max_bytes)) }
       else if length payload < 18 then Some (Inl kBadRequest)
       else do {
         group_size \<leftarrow> map_option unat (Get16 payload 4);
         if group_size = 0 \<or> length payload \<noteq> 18 + group_size then Some (Inl kBadRequest)
         else do {
           grp \<leftarrow> substr payload 6 group_size;
           offset \<leftarrow> Get64 payload (6 + group_size);
           max_bytes \<leftarrow> Get32 payload (14 + group_size);
           Some (if max_bytes = 0 then Inl kBadRequest else Inr (part, grp, offset, max_bytes)) } } })"

definition fetch_start :: "broker \<Rightarrow> bytes \<Rightarrow> bytes \<Rightarrow> u32 \<Rightarrow> u64 \<Rightarrow> u64" where
  "fetch_start b grp topic part offset =
    (if grp = [] then offset
     else case committed (br_offsets b) grp topic part of None \<Rightarrow> offset | Some off \<Rightarrow> max offset off)"

definition HandleFetch :: "broker_io \<Rightarrow> broker \<Rightarrow> Request \<Rightarrow> outcome" where
  "HandleFetch io b request = do {
     parsed \<leftarrow> parse_fetch (req_payload request);
     case parsed of
       Inl st \<Rightarrow> reply b request st
     | Inr (part, grp, offset, max_bytes) \<Rightarrow>
         (case ResolvePartition (br_queues b) (req_topic request) part [] of
            Inl err \<Rightarrow> reply b request (route_status err)
          | Inr resolved \<Rightarrow>
              (case Read (bi_storage io 0) (br_storage b) (req_topic request) resolved
                      (fetch_start b grp (req_topic request) resolved offset) max_bytes of
                 (storage, Inl err) \<Rightarrow>
                   reply (b\<lparr>br_storage := storage\<rparr>) request (if err = ''invalid offset'' then kInvalidOffset else kStorageError)
               | (storage, Inr messages) \<Rightarrow>
                   Some (b\<lparr>br_storage := storage\<rparr>, MakeResponse request kOk (messages_payload messages)))) }"

section \<open>HandleMetrics\<close>

fun role_name :: "ReplicaRole \<Rightarrow> bytes" where
  "role_name kLeader = str ''leader''"
| "role_name kFollower = str ''follower''"
| "role_name kCandidate = str ''candidate''"

text \<open>One metric: its type line and its value line.\<close>

definition metric :: "string \<Rightarrow> string \<Rightarrow> u64 \<Rightarrow> bytes" where
  "metric name kind v = str ''# TYPE '' @ str name @ str '' '' @ str kind @ [10] @
     str name @ str '' '' @ to_string (unat v) @ [10]"

definition metrics_text :: "broker \<Rightarrow> bytes" where
  "metrics_text b =
     metric ''mq_requests_total'' ''counter'' (br_request_count b) @
     metric ''mq_produce_total'' ''counter'' (br_produce_count b) @
     metric ''mq_fetch_total'' ''counter'' (br_fetch_count b) @
     metric ''mq_errors_total'' ''counter'' (br_error_count b) @
     metric ''mq_replication_term'' ''gauge'' (rs_current_term (br_repl b)) @
     metric ''mq_commit_index'' ''gauge'' (commitIndex_all (br_repl b)) @
     str ''# TYPE mq_raft_voted_for gauge'' @ [10] @
     str ''mq_raft_voted_for{node='' @ [34] @ rs_voted_for (br_repl b) @ [34] @ str ''} 1'' @ [10] @
     metric ''mq_raft_commit_index'' ''gauge'' (commitIndex_all (br_repl b)) @
     metric ''mq_raft_last_applied'' ''gauge'' (rs_last_applied (br_repl b)) @
     metric ''mq_topic_produce_quota_bytes_per_second'' ''gauge'' (br_topic_quota b) @
     metric ''mq_topic_produce_bytes_used'' ''gauge'' (sum_list (map (\<lambda>(_, w). qw_bytes w) (br_windows b))) @
     str ''mq_replication_role{role='' @ [34] @ role_name (rs_role (br_repl b)) @ [34] @ str ''} 1'' @ [10]"

definition HandleMetrics :: "broker \<Rightarrow> Request \<Rightarrow> outcome" where
  "HandleMetrics b request =
    (if req_topic request \<noteq> [] \<or> req_payload request \<noteq> [] \<or> req_flags request AND kFlagReplication \<noteq> 0
     then reply b request kBadRequest
     else Some (b, MakeResponse request kOk (metrics_text b)))"

end
