(* ===== verification/Broker_Cluster.thy ===== *)
theory Broker_Cluster
  imports Broker_Data
begin

text \<open>
  The replication side of the broker, \<^verbatim>\<open>src/server/broker.cc\<close>: the three handlers peers call, one turn
  of the replication thread as follower, candidate and leader, and the dispatch \<^verbatim>\<open>Handle\<close> over all
  handlers. The answers of the peers are functions of the arguments of the call, in \<open>loop_io\<close>; the
  turns are sequenced by \<open>replication_turns\<close>.
\<close>

section \<open>HandleReplicaFetch\<close>

definition read_status :: "string \<Rightarrow> Status" where
  "read_status err =
    (if err = ''unknown topic'' then kUnknownTopic else if err = ''invalid offset'' then kInvalidOffset else kStorageError)"

definition HandleReplicaFetch :: "broker_io \<Rightarrow> broker \<Rightarrow> Request \<Rightarrow> outcome" where
  "HandleReplicaFetch io b request =
    (if req_flags request AND kFlagReplication = 0 \<or> length (req_payload request) \<noteq> 16 then reply b request kBadRequest
     else do {
       part \<leftarrow> Get32 (req_payload request) 0;
       offset \<leftarrow> Get64 (req_payload request) 4;
       max_bytes \<leftarrow> Get32 (req_payload request) 12;
       if max_bytes = 0 then reply b request kBadRequest
       else case ResolvePartition (br_queues b) (req_topic request) part [] of
         Inl err \<Rightarrow> reply b request (route_status err)
       | Inr resolved \<Rightarrow>
           (case Read (bi_storage io 0) (br_storage b) (req_topic request) resolved offset max_bytes of
              (storage, Inl err) \<Rightarrow> reply (b\<lparr>br_storage := storage\<rparr>) request (read_status err)
            | (storage, Inr messages) \<Rightarrow>
                Some (b\<lparr>br_storage := storage\<rparr>, MakeResponse request kOk (messages_payload messages))) })"

section \<open>HandleReplicaAppend\<close>

text \<open>
  The header with a term: term, commit index, leader, then the previous index and term when the four
  bytes after them look like a message count; last the position after the header.
\<close>

definition parse_append_header :: "bytes \<Rightarrow> (Status + (u64 \<times> u64 \<times> bytes \<times> u64 \<times> u64 \<times> nat)) option" where
  "parse_append_header payload =
    (if length payload < 26 then Some (Inl kBadRequest)
     else do {
       term \<leftarrow> Get64 payload 0;
       commit \<leftarrow> Get64 payload 8;
       leader_size \<leftarrow> map_option unat (Get16 payload 16);
       if leader_size = 0 \<or> length payload < 26 + leader_size then Some (Inl kBadRequest)
       else do {
         leader_id \<leftarrow> substr payload 18 leader_size;
         let position = 18 + leader_size;
         candidate_count \<leftarrow> (if length payload \<ge> 38 + leader_size then Get32 payload (position + 20) else Some 0);
         if 0 < candidate_count \<and> candidate_count \<le> 10000
         then do {
           prev_log_index \<leftarrow> Get64 payload position;
           prev_log_term \<leftarrow> Get64 payload (position + 8);
           Some (Inr (term, commit, leader_id, prev_log_index, prev_log_term, position + 16)) }
         else Some (Inr (term, commit, leader_id, 0, 0, position)) } })"

text \<open>The message loop.\<close>

fun parse_records :: "bytes \<Rightarrow> nat \<Rightarrow> nat \<Rightarrow> Message list \<Rightarrow> (Status + (Message list \<times> nat)) option" where
  "parse_records payload 0 position messages = Some (Inr (messages, position))"
| "parse_records payload (Suc count) position messages =
    (if position + 18 > length payload then Some (Inl kBadRequest)
     else do {
       offset \<leftarrow> Get64 payload position;
       timestamp \<leftarrow> Get64 payload (position + 8);
       key_size \<leftarrow> map_option unat (Get16 payload (position + 16));
       if position + 18 + key_size + 4 > length payload then Some (Inl kBadRequest)
       else do {
         key \<leftarrow> substr payload (position + 18) key_size;
         value_size \<leftarrow> map_option unat (Get32 payload (position + 18 + key_size));
         if position + 22 + key_size + value_size > length payload then Some (Inl kBadRequest)
         else do {
           val \<leftarrow> substr payload (position + 22 + key_size) value_size;
           parse_records payload count (position + 22 + key_size + value_size)
             (messages @ [\<lparr>msg_offset = offset, msg_timestamp_ms = timestamp, msg_key = key, msg_value = val\<rparr>]) } } })"

fun consecutive_offsets :: "Message list \<Rightarrow> bool" where
  "consecutive_offsets (m # m' # messages) =
    (msg_offset m \<noteq> - 1 \<and> msg_offset m' = msg_offset m + 1 \<and> consecutive_offsets (m' # messages))"
| "consecutive_offsets messages = True"

fun append_replicas ::
  "(nat \<Rightarrow> storage_io) \<Rightarrow> nat \<Rightarrow> engine \<Rightarrow> bytes \<Rightarrow> u32 \<Rightarrow> Message list \<Rightarrow> engine \<times> unit result" where
  "append_replicas io i storage topic part [] = (storage, Inr ())"
| "append_replicas io i storage topic part (m # messages) =
    (case AppendReplica (io i) storage topic part m of
       (storage', Inl err) \<Rightarrow> (storage', Inl err)
     | (storage', Inr _) \<Rightarrow> append_replicas io (i + 1) storage' topic part messages)"

text \<open>What happens to the parsed messages: log matching, offsets, coordinator, log.\<close>

definition apply_append ::
  "broker_io \<Rightarrow> broker \<Rightarrow> Request \<Rightarrow> u64 \<times> u64 \<times> bytes \<times> u64 \<times> u64 \<Rightarrow> u32 \<Rightarrow> Message list \<Rightarrow> broker \<times> Response" where
  "apply_append io b request header resolved messages =
    (case header of (term, commit, leader_id, prev_log_index, prev_log_term) \<Rightarrow>
     let with_term = (req_flags request AND kFlagReplicationTerm \<noteq> 0);
         key = PartitionKey (req_topic request) resolved;
         last_offset = msg_offset (last messages) in
     if with_term \<and> \<not> LogMatches (br_repl b) key prev_log_index prev_log_term
     then (b, MakeResponse request kInvalidOffset (Put64 (NextLogIndex (br_repl b) key)))
     else case NextOffset (bi_storage io 0) (br_storage b) (req_topic request) resolved of
       (storage, Inl err) \<Rightarrow> (b\<lparr>br_storage := storage\<rparr>, MakeResponse request kInvalidOffset [])
     | (storage, Inr expected_offset) \<Rightarrow>
         let b1 = b\<lparr>br_storage := storage\<rparr> in
         if msg_offset (hd messages) \<noteq> expected_offset \<or> \<not> consecutive_offsets messages
         then (b1, MakeResponse request kInvalidOffset [])
         else case (if with_term then ObserveAppend (bi_persist io) (br_repl b1) key term leader_id last_offset commit (bi_now io)
                    else (br_repl b1, True)) of
           (s, False) \<Rightarrow> (b1\<lparr>br_repl := s\<rparr>, MakeResponse request kStorageError [])
         | (s, True) \<Rightarrow>
             (case append_replicas (bi_storage io) 1 (br_storage b1) (req_topic request) resolved messages of
                (storage', Inl err) \<Rightarrow>
                  (b1\<lparr>br_repl := s, br_storage := storage'\<rparr>,
                   MakeResponse request (if err = ''replica offset gap'' then kInvalidOffset else kStorageError) [])
              | (storage', Inr _) \<Rightarrow>
                  (b1\<lparr>br_repl := RecordLocalOffset s key last_offset, br_storage := storage'\<rparr>, MakeResponse request kOk [])))"

definition HandleReplicaAppend :: "broker_io \<Rightarrow> broker \<Rightarrow> Request \<Rightarrow> outcome" where
  "HandleReplicaAppend io b request =
    (let payload = req_payload request in
     if req_flags request AND kFlagReplication = 0 \<or> length payload < 8 then reply b request kBadRequest
     else do {
       parsed \<leftarrow> (if req_flags request AND kFlagReplicationTerm \<noteq> 0 then parse_append_header payload
                 else Some (Inr (0, 0, [], 0, 0, 0)));
       case parsed of
         Inl st \<Rightarrow> reply b request st
       | Inr (term, commit, leader_id, prev_log_index, prev_log_term, position) \<Rightarrow>
           if position + 8 > length payload then reply b request kBadRequest
           else do {
             part \<leftarrow> Get32 payload position;
             count \<leftarrow> Get32 payload (position + 4);
             if count = 0 \<or> count > 10000 then reply b request kBadRequest
             else case ResolvePartition (br_queues b) (req_topic request) part [] of
               Inl err \<Rightarrow> reply b request (route_status err)
             | Inr resolved \<Rightarrow> do {
                 records \<leftarrow> parse_records payload (unat count) (position + 8) [];
                 case records of
                   Inl st \<Rightarrow> reply b request st
                 | Inr (messages, end_position) \<Rightarrow>
                     if end_position \<noteq> length payload then reply b request kBadRequest
                     else Some (apply_append io b request (term, commit, leader_id, prev_log_index, prev_log_term)
                       resolved messages) } } })"

section \<open>HandleReplicaVote\<close>

definition HandleReplicaVote :: "broker_io \<Rightarrow> broker \<Rightarrow> Request \<Rightarrow> outcome" where
  "HandleReplicaVote io b request =
    (let payload = req_payload request in
     if req_flags request AND kFlagReplication = 0 \<or> length payload < 10 then reply b request kBadRequest
     else do {
       term \<leftarrow> Get64 payload 0;
       name_size \<leftarrow> map_option unat (Get16 payload 8);
       if name_size = 0 \<or> length payload \<noteq> 26 + name_size then reply b request kBadRequest
       else do {
         last_log_index \<leftarrow> Get64 payload (10 + name_size);
         last_log_term \<leftarrow> Get64 payload (18 + name_size);
         candidate \<leftarrow> substr payload 10 name_size;
         case (if req_flags request AND kFlagReplicationTerm \<noteq> 0
               then (br_repl b, RequestPreVote (br_repl b) term candidate last_log_index last_log_term)
               else RequestVote (bi_persist io) (br_repl b) term candidate last_log_index last_log_term) of
           (s, granted) \<Rightarrow>
             Some (b\<lparr>br_repl := s\<rparr>, MakeResponse request kOk [if granted then 1 else 0]) } })"

section \<open>Handle\<close>

definition kKnownFlags :: u16 where
  "kKnownFlags = kAckMask OR kFlagProducerMetadata OR kFlagReplication OR kFlagReplicationTerm OR kFlagAuthentication"

fun dispatch :: "broker_io \<Rightarrow> broker \<Rightarrow> Request \<Rightarrow> Command \<Rightarrow> outcome" where
  "dispatch io b request kCreateTopic = HandleCreateTopic io b request"
| "dispatch io b request kListTopic = HandleListTopic b request"
| "dispatch io b request kMetrics = HandleMetrics b request"
| "dispatch io b request kDeleteTopic = HandleDeleteTopic io b request"
| "dispatch io b request kProduce = HandleProduce (bi_produce io 0) b request True True"
| "dispatch io b request kProduceBatch = HandleProduceBatch io b request"
| "dispatch io b request kFetch = HandleFetch io b request"
| "dispatch io b request kCommitOffset = HandleCommitOffset io b request"
| "dispatch io b request kJoinGroup = HandleJoinGroup io b request"
| "dispatch io b request kSyncGroup = HandleSyncGroup b request"
| "dispatch io b request kOffsetFetch = HandleOffsetFetch b request"
| "dispatch io b request kHeartbeat = HandleHeartbeat io b request"
| "dispatch io b request kReplicaFetch = HandleReplicaFetch io b request"
| "dispatch io b request kReplicaAppend = HandleReplicaAppend io b request"
| "dispatch io b request kReplicaVote = HandleReplicaVote io b request"
| "dispatch io b request _ = reply b request kBadRequest"

definition replication_command :: "Request \<Rightarrow> bool" where
  "replication_command request \<longleftrightarrow>
     (req_command request = kHeartbeat \<and> req_flags request AND kFlagReplication \<noteq> 0) \<or>
     req_command request = kReplicaFetch \<or> req_command request = kReplicaAppend \<or> req_command request = kReplicaVote"

text \<open>The request without its token, or the status of the refusal.\<close>

definition authenticate :: "broker \<Rightarrow> Request \<Rightarrow> (Status + Request) option" where
  "authenticate b request =
    (if replication_command request \<or> req_flags request AND kFlagReplication \<noteq> 0
     then do {
       valid \<leftarrow> ValidateReplicationRequest b request;
       Some (case valid of None \<Rightarrow> Inl kBadRequest | Some normalized \<Rightarrow> Inr normalized) }
     else do {
       valid \<leftarrow> ValidateClientAuth b request;
       Some (case valid of
         None \<Rightarrow> Inl (if br_client_token b = [] then kBadRequest else kUnauthenticated)
       | Some normalized \<Rightarrow> Inr normalized) })"

definition count_command :: "Command \<Rightarrow> broker \<Rightarrow> broker" where
  "count_command command b =
    (if command = kProduce \<or> command = kProduceBatch then b\<lparr>br_produce_count := br_produce_count b + 1\<rparr>
     else if command = kFetch then b\<lparr>br_fetch_count := br_fetch_count b + 1\<rparr>
     else b)"

definition Handle :: "broker_io \<Rightarrow> broker \<Rightarrow> Request \<Rightarrow> outcome" where
  "Handle io b0 request =
    (let b = b0\<lparr>br_request_count := br_request_count b0 + 1\<rparr>; flags = req_flags request in
     if \<not> br_opened b then reply (b\<lparr>br_error_count := br_error_count b + 1\<rparr>) request kInternalError
     else if req_version request \<noteq> kCurrentVersion
     then Some (b, MakeResponse request kVersionMismatch [kCurrentVersion])
     else if flags AND NOT kKnownFlags \<noteq> 0 \<or> flags AND kAckMask = kAckMask then reply b request kBadRequest
     else if flags AND kFlagReplication \<noteq> 0 \<and> flags AND kFlagAuthentication \<noteq> 0 then reply b request kBadRequest
     else do {
       checked \<leftarrow> authenticate b request;
       case checked of
         Inl st \<Rightarrow> reply b request st
       | Inr normalized \<Rightarrow>
           if \<not> replication_command request \<and> br_client_token b \<noteq> [] \<and>
              \<not> AuthorizeClientRequest (br_authorization b) (req_command normalized) (req_topic normalized)
           then reply b request kPermissionDenied
           else do {
             (b', response) \<leftarrow> dispatch io (count_command (req_command request) b) normalized (req_command normalized);
             Some (if resp_status response \<noteq> kOk then b'\<lparr>br_error_count := br_error_count b' + 1\<rparr> else b', response) } })"

section \<open>The replication thread\<close>

record loop_io =
  li_now :: int
  li_timeout :: int
  li_persist :: persist_io
  li_storage :: "bytes \<Rightarrow> u32 \<Rightarrow> nat \<Rightarrow> storage_io"
  li_fetch :: "ReplicationPeer \<Rightarrow> bytes \<Rightarrow> u32 \<Rightarrow> u64 \<Rightarrow> u32 \<Rightarrow> Message list option"
  li_pre_vote :: "ReplicationPeer \<Rightarrow> u64 \<Rightarrow> bytes \<Rightarrow> u64 \<Rightarrow> u64 \<Rightarrow> bool"
  li_vote :: "ReplicationPeer \<Rightarrow> u64 \<Rightarrow> bytes \<Rightarrow> u64 \<Rightarrow> u64 \<Rightarrow> bool"
  li_heartbeat :: "ReplicationPeer \<Rightarrow> bytes \<Rightarrow> u32 \<Rightarrow> bytes \<Rightarrow> u64 \<Rightarrow> u64 \<Rightarrow> u64 \<Rightarrow> bool"
  li_append :: append_rpc

text \<open>
  \<open>li_pre_vote\<close> and \<open>li_vote\<close> say whether the call succeeds and the peer grants; \<open>li_timeout\<close> is the
  next random election timeout, between 150 and 300. The follower's own heartbeat to its leader changes
  nothing here.
\<close>

text \<open>All topics with all their partitions, in the order of the two loops.\<close>

definition topic_partition_pairs :: "broker \<Rightarrow> (bytes \<times> u32) list" where
  "topic_partition_pairs b =
     concat (map (\<lambda>t. map (\<lambda>p. (tm_name t, of_nat p)) [0..<unat (tm_partition_count t)]) (ListTopics (br_queues b)))"

definition follower_key :: "bytes \<Rightarrow> u32 \<Rightarrow> bytes" where
  "follower_key topic part = topic @ str '':'' @ to_string (unat part)"

text \<open>One partition of the follower's fetch loop; the second component is \<^verbatim>\<open>leader_seen\<close>.\<close>

definition fetch_partition :: "loop_io \<Rightarrow> ReplicationPeer \<Rightarrow> broker \<times> bool \<Rightarrow> bytes \<times> u32 \<Rightarrow> broker \<times> bool" where
  "fetch_partition io peer acc tp =
    (case acc of (b, leader_seen) \<Rightarrow> case tp of (topic, part) \<Rightarrow>
     let known = (case map_of (br_replication_offsets b) (follower_key topic part) of None \<Rightarrow> 0 | Some off \<Rightarrow> off) in
     case (if known = 0 then NextOffset (li_storage io topic part 0) (br_storage b) topic part
           else (br_storage b, Inr known)) of
       (storage, Inl err) \<Rightarrow> (b\<lparr>br_storage := storage\<rparr>, leader_seen)
     | (storage, Inr offset) \<Rightarrow>
         (case li_fetch io peer topic part offset (1024 * 1024) of
            None \<Rightarrow> (b\<lparr>br_storage := storage\<rparr>, leader_seen)
          | Some messages \<Rightarrow>
              (case append_replicas (li_storage io topic part) 1 storage topic part messages of
                 (storage', Inl err) \<Rightarrow> (b\<lparr>br_storage := storage'\<rparr>, True)
               | (storage', Inr _) \<Rightarrow>
                   (if messages = [] then b\<lparr>br_storage := storage'\<rparr>
                    else b\<lparr>br_storage := storage',
                           br_replication_offsets := AList.update (follower_key topic part)
                             (msg_offset (last messages) + 1) (br_replication_offsets b)\<rparr>, True))))"

definition fetch_from_leaders :: "loop_io \<Rightarrow> broker \<Rightarrow> broker \<times> bool" where
  "fetch_from_leaders io b =
     foldl (\<lambda>acc peer. if rs_role (br_repl (fst acc)) = kFollower \<and> peer_leader peer
                       then foldl (fetch_partition io peer) acc (topic_partition_pairs (fst acc)) else acc)
       (b, False) (br_peers b)"

text \<open>The pre-vote round and, after its majority, the election.\<close>

definition pre_vote_round :: "loop_io \<Rightarrow> broker \<Rightarrow> repl \<times> bool" where
  "pre_vote_round io b =
    (let (term, _) = BeginPreVote (br_repl b) in
     foldl (\<lambda>(s, majority_seen) peer.
         if \<not> peer_leader peer \<and> li_pre_vote io peer term (br_node_id b) (lastLogIndex s) (lastLogTerm s)
         then (case ObservePreVote s term (peer_node_id peer) True of (s', reached) \<Rightarrow> (s', reached \<or> majority_seen))
         else (s, majority_seen))
       (ObservePreVote (br_repl b) term (br_node_id b) True) (br_peers b))"

definition election_round :: "loop_io \<Rightarrow> broker \<Rightarrow> repl \<Rightarrow> repl" where
  "election_round io b s0 =
    (case BeginElection (li_persist io) s0 of (s1, term, _) \<Rightarrow>
     foldl (\<lambda>s peer.
         if \<not> peer_leader peer \<and> li_vote io peer term (br_node_id b) (lastLogIndex s) (lastLogTerm s)
         then fst (ObserveVote (li_persist io) s term (peer_node_id peer) True) else s)
       (fst (ObserveVote (li_persist io) s1 term (br_node_id b) True)) (br_peers b))"

record replication_thread =
  th_last_election :: int
  th_election_timeout :: int

definition follower_turn :: "loop_io \<Rightarrow> replication_thread \<times> broker \<Rightarrow> replication_thread \<times> broker" where
  "follower_turn io st =
    (case st of (th, b) \<Rightarrow> case fetch_from_leaders io b of (b1, leader_seen) \<Rightarrow>
     if leader_seen then (\<lparr>th_last_election = li_now io, th_election_timeout = li_timeout io\<rparr>, b1)
     else if li_now io - th_last_election th \<ge> th_election_timeout th
     then case pre_vote_round io b1 of (s, majority_seen) \<Rightarrow>
       (\<lparr>th_last_election = li_now io, th_election_timeout = li_timeout io\<rparr>,
        b1\<lparr>br_repl := if majority_seen then election_round io b1 s else s\<rparr>)
     else (th, b1))"

text \<open>One partition of one peer in the leader's turn, with the number of heartbeat responses.\<close>

definition heartbeat_partition :: "loop_io \<Rightarrow> ReplicationPeer \<Rightarrow> broker \<times> nat \<Rightarrow> bytes \<times> u32 \<Rightarrow> broker \<times> nat" where
  "heartbeat_partition io peer acc tp =
    (case acc of (b, responses) \<Rightarrow> case tp of (topic, part) \<Rightarrow>
     let key = PartitionKey topic part; commit = commitIndex (br_repl b) key in
     if \<not> li_heartbeat io peer topic part (br_node_id b) commit (rs_current_term (br_repl b)) commit then (b, responses)
     else
       let b1 = b\<lparr>br_repl := ObserveHeartbeat (br_repl b) key (peer_node_id peer) commit (li_now io)\<rparr>;
           offset_key = peer_node_id peer @ str '':'' @ key;
           follower_offset = (case map_of (br_replication_offsets b1) offset_key of None \<Rightarrow> 0 | Some off \<Rightarrow> off);
           b2 = b1\<lparr>br_replication_offsets := AList.update offset_key follower_offset (br_replication_offsets b1)\<rparr>
       in case Read (li_storage io topic part 0) (br_storage b2) topic part follower_offset (1024 * 1024) of
            (storage, Inl err) \<Rightarrow> (b2\<lparr>br_storage := storage\<rparr>, responses + 1)
          | (storage, Inr pending) \<Rightarrow>
              let b3 = b2\<lparr>br_storage := storage\<rparr> in
              if pending \<noteq> [] \<and>
                 li_append io peer topic part pending (rs_current_term (br_repl b3)) (commitIndex (br_repl b3) key) (br_node_id b3)
                   (if msg_offset (hd pending) = 0 then 0 else msg_offset (hd pending) - 1) (lastLogTerm (br_repl b3))
              then (b3\<lparr>br_replication_offsets := AList.update offset_key (msg_offset (last pending) + 1)
                        (br_replication_offsets b3)\<rparr>, responses + 1)
              else (b3, responses + 1))"

definition leader_turn :: "loop_io \<Rightarrow> broker \<Rightarrow> broker" where
  "leader_turn io b =
    (case foldl (\<lambda>acc peer. foldl (heartbeat_partition io peer) acc (topic_partition_pairs (fst acc))) (b, 1) (br_peers b) of
       (b1, heartbeat_responses) \<Rightarrow>
         b1\<lparr>br_repl := fst (ObserveHeartbeatRound (br_repl b1)
              (heartbeat_responses \<ge> (length (br_peers b1) + 2) div 2 + 1))\<rparr>)"

definition replication_turn :: "replication_thread \<times> broker \<Rightarrow> loop_io \<Rightarrow> replication_thread \<times> broker" where
  "replication_turn st io =
    (if rs_role (br_repl (snd st)) \<noteq> kLeader then follower_turn io st else (fst st, leader_turn io (snd st)))"

definition replication_turns :: "replication_thread \<times> broker \<Rightarrow> loop_io list \<Rightarrow> replication_thread \<times> broker" where
  "replication_turns = foldl replication_turn"

end
