(* ===== verification/Broker_Safety.thy ===== *)
theory Broker_Safety
  imports Broker_Cluster
begin

text \<open>
  Which requests can make the broker read outside their payload. Every parser and handler is shown to be
  defined on every payload, one lemma each; the header of a replica append is the one exception, and the
  lemma states exactly which lengths it fails on.
\<close>

section \<open>Helpers\<close>

named_theorems definedI \<open>introduction rules for a computation that reads only inside its input\<close>

lemma defined_bind [definedI]: "a \<noteq> None \<Longrightarrow> (\<And>x. a = Some x \<Longrightarrow> f x \<noteq> None) \<Longrightarrow> Option.bind a f \<noteq> None"
  by (cases a) simp_all

lemma defined_if [definedI]: "(P \<Longrightarrow> x \<noteq> None) \<Longrightarrow> (\<not> P \<Longrightarrow> y \<noteq> None) \<Longrightarrow> (if P then x else y) \<noteq> None"
  by simp

lemma defined_case_option [definedI]:
  "(a = None \<Longrightarrow> x \<noteq> None) \<Longrightarrow> (\<And>v. a = Some v \<Longrightarrow> f v \<noteq> None) \<Longrightarrow> (case a of None \<Rightarrow> x | Some v \<Rightarrow> f v) \<noteq> None"
  by (cases a) simp_all

lemma defined_case_sum [definedI]:
  "(\<And>v. a = Inl v \<Longrightarrow> f v \<noteq> None) \<Longrightarrow> (\<And>v. a = Inr v \<Longrightarrow> g v \<noteq> None) \<Longrightarrow> case_sum f g a \<noteq> None"
  by (cases a) simp_all

lemma defined_case_prod [definedI]: "(\<And>x y. a = (x, y) \<Longrightarrow> f x y \<noteq> None) \<Longrightarrow> case_prod f a \<noteq> None"
  by (cases a) simp_all

lemma defined_case_bool [definedI]: "(a \<Longrightarrow> x \<noteq> None) \<Longrightarrow> (\<not> a \<Longrightarrow> y \<noteq> None) \<Longrightarrow> case_bool x y a \<noteq> None"
  by (cases a) simp_all

lemma defined_Let [definedI]: "f v \<noteq> None \<Longrightarrow> Let v f \<noteq> None"
  by (simp add: Let_def)

lemma defined_Some [definedI]: "Some x \<noteq> None"
  by simp

lemma defined_map_option [definedI]: "a \<noteq> None \<Longrightarrow> map_option f a \<noteq> None"
  by simp

lemma defined_reads [definedI]:
  "pos + 2 \<le> length s \<Longrightarrow> Get16 s pos \<noteq> None" "pos + 4 \<le> length s \<Longrightarrow> Get32 s pos \<noteq> None"
  "pos + 8 \<le> length s \<Longrightarrow> Get64 s pos \<noteq> None" "pos \<le> length s \<Longrightarrow> substr s pos n \<noteq> None"
  by (simp_all add: bounds_simps)

lemma Take_eq_Some: "Take input position count = Some p \<longleftrightarrow> position + count \<le> length input \<and> p = position + count"
  by (auto simp: Take_def)

lemmas leaf_simps = not_less not_le Take_eq_Some bind_eq_Some_conv

lemma ConstantTimeEqual_iff [simp]: "ConstantTimeEqual left right \<longleftrightarrow> left = right"
proof -
  have or_zero: "(a OR b = 0) = (a = 0 \<and> b = 0)" for a b :: byte
    by (auto simp: bit_eq_iff bit_simps)
  have "foldl (\<lambda>d (l, r). d OR (l XOR r)) d (zip left right) = 0 \<longleftrightarrow> d = 0 \<and> left = right"
    if "length left = length right" for d :: byte
    using that by (induction left right arbitrary: d rule: list_induct2) (simp_all add: or_zero xor_eq_zero conj_assoc)
  then show ?thesis by (auto simp: ConstantTimeEqual_def)
qed

lemma strip_token_eq:
  "strip_token token payload =
     Some (if length token < 65536 \<and> take (2 + length token) payload = Put16 (of_nat (length token)) @ token
           then Some (drop (2 + length token) payload) else None)"
proof (cases "length payload < 2")
  case True
  have "take (2 + length token) payload \<noteq> Put16 (of_nat (length token)) @ token"
    using True by (auto dest: arg_cong [where f = length])
  with True show ?thesis by (simp add: strip_token_def)
next
  case False
  define h where "h = take 2 payload"
  define w :: u16 where "w = be_value h"
  have h: "length h = 2" "payload = h @ drop 2 payload" using False by (simp_all add: h_def)
  have w: "Get16 payload 0 = Some w" using False by (simp add: Get16_def w_def h_def)
  have hw: "h = Put16 w" using h(1) by (simp add: w_def Put16_be_value)
  have eq: "take (2 + length token) payload = Put16 (of_nat (length token)) @ token \<longleftrightarrow>
      h = Put16 (of_nat (length token)) \<and> take (length token) (drop 2 payload) = token"
    using h(1) by (subst h(2)) simp
  have size: "unat w = length token \<longleftrightarrow> length token < 65536 \<and> h = Put16 (of_nat (length token))"
  proof
    assume u: "unat w = length token"
    then show "length token < 65536 \<and> h = Put16 (of_nat (length token))"
      using unat_bound [of w] by (simp add: hw flip: u)
  next
    assume a: "length token < 65536 \<and> h = Put16 (of_nat (length token))"
    then have "w = of_nat (length token)" unfolding w_def by simp
    then show "unat w = length token" using a by (simp add: unat_of_nat_fits)
  qed
  have short: "Suc (Suc (length token)) \<le> length payload" if "take (length token) (drop 2 payload) = token"
    using that False by (auto dest: arg_cong [where f = length])
  have "strip_token token payload =
      Some (if unat w = length token \<and> take (length token) (drop 2 payload) = token then Some (drop (2 + length token) payload) else None)"
    using False short by (auto simp: strip_token_def w bounds_simps not_less)
  then show ?thesis unfolding eq size by (simp only: conj_assoc)
qed

lemma strip_token_defined [definedI]: "strip_token token payload \<noteq> None"
  by (simp add: strip_token_eq)

lemma ValidateReplicationRequest_defined [definedI]: "ValidateReplicationRequest b request \<noteq> None"
  unfolding ValidateReplicationRequest_def by (intro definedI)

lemma ValidateClientAuth_defined [definedI]: "ValidateClientAuth b request \<noteq> None"
  unfolding ValidateClientAuth_def by (intro definedI)

lemma authenticate_defined [definedI]: "authenticate b request \<noteq> None"
  unfolding authenticate_def by (intro definedI)

section \<open>Handlers\<close>

lemma HandleCreateTopic_defined [definedI]: "HandleCreateTopic io b request \<noteq> None"
  unfolding HandleCreateTopic_def by (intro definedI) simp

lemma HandleDeleteTopic_defined [definedI]: "HandleDeleteTopic io b request \<noteq> None"
  unfolding HandleDeleteTopic_def by (intro definedI)

lemma HandleListTopic_defined [definedI]: "HandleListTopic b request \<noteq> None"
  unfolding HandleListTopic_def by (intro definedI)

lemma read_names_defined [definedI]: "read_names payload count position topics \<noteq> None"
proof (induction count arbitrary: position topics)
  case (Suc count)
  show ?case unfolding read_names.simps by (intro definedI Suc) (simp_all add: leaf_simps)
qed simp

lemma HandleJoinGroup_defined [definedI]: "HandleJoinGroup io b request \<noteq> None"
  unfolding HandleJoinGroup_def by (intro definedI) (simp_all add: leaf_simps)

lemma HandleSyncGroup_defined [definedI]: "HandleSyncGroup b request \<noteq> None"
  unfolding HandleSyncGroup_def by (intro definedI) (simp_all add: leaf_simps)

lemma HandleHeartbeat_defined [definedI]: "HandleHeartbeat io b request \<noteq> None"
  unfolding HandleHeartbeat_def by (intro definedI) (auto simp: leaf_simps)

lemma HandleCommitOffset_defined [definedI]: "HandleCommitOffset io b request \<noteq> None"
  unfolding HandleCommitOffset_def by (intro definedI) (auto simp: leaf_simps)

lemma HandleOffsetFetch_defined [definedI]: "HandleOffsetFetch b request \<noteq> None"
  unfolding HandleOffsetFetch_def by (intro definedI) (simp_all add: leaf_simps)

lemma parse_message_defined [definedI]: "parse_message payload position \<noteq> None"
  unfolding parse_message_def by (intro definedI) (auto simp: leaf_simps)

lemma produce_from_defined [definedI]: "produce_from io b request quota key position \<noteq> None"
  unfolding produce_from_def by (intro definedI)

lemma HandleProduce_defined [definedI]: "HandleProduce io b request rate quota \<noteq> None"
  unfolding HandleProduce_def by (intro definedI) (simp_all add: leaf_simps)

lemma parse_batch_defined [definedI]: "parse_batch request pid first i results position new_bytes \<noteq> None"
proof (induction results arbitrary: i position new_bytes)
  case (Cons r results)
  show ?case unfolding parse_batch.simps by (intro definedI Cons) (auto simp: leaf_simps)
qed simp

lemma run_batch_defined [definedI]: "run_batch io i items b payload \<noteq> None"
proof (induction items arbitrary: i b payload)
  case (Cons item items)
  show ?case
  proof (cases item)
    case (Cached r)
    then show ?thesis using Cons by simp
  next
    case (Pending r)
    show ?thesis unfolding Pending run_batch.simps by (intro definedI Cons)
  qed
qed simp

lemma HandleProduceBatch_defined [definedI]: "HandleProduceBatch io b request \<noteq> None"
  unfolding HandleProduceBatch_def by (intro definedI) (simp_all add: leaf_simps)

lemma parse_fetch_defined [definedI]: "parse_fetch payload \<noteq> None"
  unfolding parse_fetch_def by (intro definedI) (simp_all add: leaf_simps)

lemma HandleFetch_defined [definedI]: "HandleFetch io b request \<noteq> None"
  unfolding HandleFetch_def by (intro definedI)

lemma HandleMetrics_defined [definedI]: "HandleMetrics b request \<noteq> None"
  unfolding HandleMetrics_def by (intro definedI)

lemma HandleReplicaFetch_defined [definedI]: "HandleReplicaFetch io b request \<noteq> None"
  unfolding HandleReplicaFetch_def by (intro definedI) (simp_all add: leaf_simps)

lemma HandleReplicaVote_defined [definedI]: "HandleReplicaVote io b request \<noteq> None"
  unfolding HandleReplicaVote_def by (intro definedI) (simp_all add: leaf_simps)

lemma parse_records_defined [definedI]: "parse_records payload count position messages \<noteq> None"
proof (induction count arbitrary: position messages)
  case (Suc count)
  show ?case unfolding parse_records.simps by (intro definedI Suc) (simp_all add: leaf_simps)
qed simp

text \<open>The payloads on which the header of a replica append is read past the end: the code asks for 38 bytes
  beside the leader's name and then reads up to byte 42.\<close>

definition append_overread :: "bytes \<Rightarrow> bool" where
  "append_overread payload \<longleftrightarrow>
     18 \<le> length payload \<and> (let leader_size = unat (be_value (take 2 (drop 16 payload)) :: u16) in
       leader_size \<noteq> 0 \<and> 38 + leader_size \<le> length payload \<and> length payload < 42 + leader_size)"

lemma parse_append_header_defined: "\<not> append_overread payload \<Longrightarrow> parse_append_header payload \<noteq> None"
  unfolding parse_append_header_def
  by (intro definedI) (auto simp: leaf_simps append_overread_def Get16_def Let_def)

lemma parse_append_header_overread: "append_overread payload \<Longrightarrow> parse_append_header payload = None"
  by (auto simp: append_overread_def parse_append_header_def Let_def Get16_def Get32_def Get64_def substr_def)

lemma HandleReplicaAppend_None:
  "HandleReplicaAppend io b request = None \<longleftrightarrow>
     req_flags request AND kFlagReplication \<noteq> 0 \<and> req_flags request AND kFlagReplicationTerm \<noteq> 0 \<and>
     append_overread (req_payload request)"
  (is "_ \<longleftrightarrow> ?bad")
proof
  assume bad: ?bad
  then have "8 \<le> length (req_payload request)" by (auto simp: append_overread_def)
  with bad show "HandleReplicaAppend io b request = None"
    by (simp add: HandleReplicaAppend_def parse_append_header_overread)
next
  have "HandleReplicaAppend io b request \<noteq> None" if "\<not> ?bad"
    unfolding HandleReplicaAppend_def
    by (intro definedI parse_append_header_defined) (use that in \<open>auto simp: leaf_simps\<close>)
  then show "HandleReplicaAppend io b request = None \<Longrightarrow> ?bad" by blast
qed

section \<open>Tokens\<close>

definition carries_token :: "bytes \<Rightarrow> bytes \<Rightarrow> bytes \<Rightarrow> bool" where
  "carries_token token payload rest \<longleftrightarrow>
     length token < 65536 \<and> payload = Put16 (of_nat (length token)) @ token @ rest"

lemma strip_token_Some: "strip_token token payload = Some (Some rest) \<longleftrightarrow> carries_token token payload rest"
proof -
  have "take (2 + length token) payload = Put16 (of_nat (length token)) @ token \<and> drop (2 + length token) payload = rest \<longleftrightarrow>
      payload = Put16 (of_nat (length token)) @ token @ rest"
  proof
    assume "take (2 + length token) payload = Put16 (of_nat (length token)) @ token \<and> drop (2 + length token) payload = rest"
    then show "payload = Put16 (of_nat (length token)) @ token @ rest"
      using append_take_drop_id [of "2 + length token" payload] by simp
  qed simp
  then show ?thesis by (auto simp: strip_token_eq carries_token_def)
qed

lemma authenticate_replication:
  assumes "authenticate b r = Some (Inr n)" and "replication_command r \<or> req_flags r AND kFlagReplication \<noteq> 0"
  shows "br_replication_configured b" and "br_replication_token b \<noteq> []" and "req_flags r AND kFlagReplication \<noteq> 0"
    and "req_command r \<in> {kHeartbeat, kReplicaFetch, kReplicaAppend, kReplicaVote}"
    and "carries_token (br_replication_token b) (req_payload r) (req_payload n)"
    and "n = r\<lparr>req_payload := req_payload n\<rparr>"
  using assms
  by (auto simp: authenticate_def ValidateReplicationRequest_def Let_def bind_eq_Some_conv strip_token_Some
      split: if_splits option.splits)

lemma authenticate_client:
  assumes "authenticate b r = Some (Inr n)" and "\<not> replication_command r" and "req_flags r AND kFlagReplication = 0"
  shows "br_client_token b = [] \<Longrightarrow> n = r \<and> req_flags r AND kFlagAuthentication = 0"
    and "br_client_token b \<noteq> [] \<Longrightarrow> req_flags r AND kFlagAuthentication \<noteq> 0 \<and>
      carries_token (br_client_token b) (req_payload r) (req_payload n) \<and>
      n = r\<lparr>req_flags := req_flags r AND NOT kFlagAuthentication, req_payload := req_payload n\<rparr>"
  using assms
  by (auto simp: authenticate_def ValidateClientAuth_def Let_def bind_eq_Some_conv strip_token_Some
      split: if_splits option.splits)

lemma authenticate_command: "authenticate b r = Some (Inr n) \<Longrightarrow> req_command n = req_command r \<and> req_topic n = req_topic r"
  by (auto simp: authenticate_def ValidateReplicationRequest_def ValidateClientAuth_def Let_def bind_eq_Some_conv
      split: if_splits option.splits)

lemma authenticate_counts:
  "authenticate (b\<lparr>br_request_count := k\<rparr>) r = authenticate b r"
  by (simp add: authenticate_def ValidateReplicationRequest_def ValidateClientAuth_def Let_def)

section \<open>Properties\<close>

lemma dispatch_defined:
  "(command = kReplicaAppend \<Longrightarrow> HandleReplicaAppend io b request \<noteq> None) \<Longrightarrow> dispatch io b request command \<noteq> None"
  by (cases command) (simp_all add: definedI)

lemma Handle_overread:
  assumes "Handle io b request = None"
  shows "req_command request = kReplicaAppend \<and>
    (\<exists>rest. carries_token (br_replication_token b) (req_payload request) rest \<and> append_overread rest)"
proof (rule ccontr)
  assume other: "\<not> ?thesis"
  have "dispatch io b' n (req_command n) \<noteq> None" if "authenticate b request = Some (Inr n)" for b' n
  proof (rule dispatch_defined)
    assume "req_command n = kReplicaAppend"
    then have c: "req_command request = kReplicaAppend" using authenticate_command [OF that] by simp
    then have "carries_token (br_replication_token b) (req_payload request) (req_payload n)"
      using authenticate_replication(5) [OF that] by (simp add: replication_command_def)
    with c other show "HandleReplicaAppend io b' n \<noteq> None" by (auto simp: HandleReplicaAppend_None)
  qed
  then have "Handle io b request \<noteq> None"
    unfolding Handle_def authenticate_counts by (intro definedI) (auto simp: authenticate_counts)
  with assms show False by simp
qed

text \<open>C17: The only request that can make the broker read outside the payload is a replica append that carries the
  replication token and whose remaining payload is one of the lengths between 38 and 41 beside the leader's name;
  for every other request, whatever its bytes, the broker answers.\<close>

theorem handle_memory_safe:
  assumes "Handle io b request = None"
  shows "req_command request = kReplicaAppend \<and>
    (\<exists>rest. carries_token (br_replication_token b) (req_payload request) rest \<and> append_overread rest)"
  using assms by (rule Handle_overread)

text \<open>A broker with both tokens and a replica append that is three bytes short.\<close>

definition demo_io :: broker_io where
  "demo_io = \<lparr>bi_now = 0, bi_produce = (\<lambda>_. \<lparr>pi_now = 0, pi_done = 0, pi_storage = good_io 0 0,
       pi_persist = \<lparr>pio_write = True, pio_rename = True, pio_second = (True, True)\<rparr>, pi_append = (\<lambda>_ _ _ _ _ _ _ _ _. False)\<rparr>),
     bi_storage = (\<lambda>_. good_io 0 0), bi_flush = (\<lambda>_ _. True), bi_save_topics = (\<lambda>_. good_save_io),
     bi_save_offsets = good_save_io, bi_persist = \<lparr>pio_write = True, pio_rename = True, pio_second = (True, True)\<rparr>\<rparr>"

definition demo_files :: store_files where "demo_files = \<lparr>fs_main = None, fs_tmp = None\<rparr>"

definition demo_broker :: broker where
  "demo_broker =
     ConfigureClientAuth
       (ConfigureReplication
         (fst (Broker_Open (good_io 0 0) good_load_io good_load_io (new_Broker default_StorageConfig [] demo_files demo_files 0)))
         [97] [] 0 False [7] None)
       [5] (default_ClientAuthorization\<lparr>allow_produce := False\<rparr>)"

definition overread_request :: Request where
  "overread_request = default_Request\<lparr>req_command := kReplicaAppend, req_flags := kFlagReplication OR kFlagReplicationTerm,
     req_payload := Put16 1 @ [7] @ replicate 16 0 @ Put16 1 @ [97] @ replicate 20 0\<rparr>"

lemma demo_broker_fields:
  "br_opened demo_broker" "br_client_token demo_broker = [5]" "br_replication_token demo_broker = [7]"
  "br_replication_configured demo_broker" "br_authorization demo_broker = default_ClientAuthorization\<lparr>allow_produce := False\<rparr>"
  by (simp_all add: demo_broker_def ConfigureClientAuth_def ConfigureReplication_def Broker_Open_def new_Broker_def
      Open_def new_engine_def good_io_def TopicMetadataStore_Load_def ConsumerOffsetStore_Load_def good_load_io_def
      demo_files_def ReplaceTopics_def ListTopics_def)

lemmas flag_simps = kAckMask_def kAckZero_def kAckOne_def kAckAll_def kFlagProducerMetadata_def kFlagReplication_def
  kFlagReplicationTerm_def kFlagAuthentication_def kKnownFlags_def

lemma overread_payload:
  "append_overread (replicate 16 0 @ Put16 1 @ [97] @ replicate 20 0)"
  by (simp add: append_overread_def Let_def)

lemma overread_authenticated:
  "authenticate demo_broker overread_request =
     Some (Inr (overread_request\<lparr>req_payload := replicate 16 0 @ Put16 1 @ [97] @ replicate 20 0\<rparr>))"
proof -
  have "strip_token [7] (req_payload overread_request) = Some (Some (replicate 16 0 @ Put16 1 @ [97] @ replicate 20 0))"
    unfolding strip_token_Some by (simp add: carries_token_def overread_request_def)
  then show ?thesis
    by (simp add: authenticate_def replication_command_def ValidateReplicationRequest_def Let_def demo_broker_fields)
      (simp add: overread_request_def flag_simps)
qed

theorem handle_memory_safe_witness:
  "Handle demo_io demo_broker overread_request = None \<and>
   (\<exists>rest. carries_token [7] (req_payload overread_request) rest \<and> append_overread rest)"
proof -
  have "HandleReplicaAppend demo_io b (overread_request\<lparr>req_payload := replicate 16 0 @ Put16 1 @ [97] @ replicate 20 0\<rparr>) = None" for b
    using overread_payload by (simp add: HandleReplicaAppend_None) (simp add: overread_request_def flag_simps)
  then have none: "Handle demo_io demo_broker overread_request = None"
    unfolding Handle_def Let_def
    by (simp add: authenticate_counts overread_authenticated demo_broker_fields)
      (simp add: overread_request_def default_Request_def replication_command_def flag_simps)
  from handle_memory_safe [OF this] none show ?thesis by (simp add: demo_broker_fields)
qed

lemma Handle_refused:
  assumes "Handle io b request = Some (b', response)" and "br_client_token b \<noteq> []"
    and "\<nexists>rest. carries_token (br_client_token b) (req_payload request) rest \<and>
      AuthorizeClientRequest (br_authorization b) (req_command request) (req_topic request)"
    and "\<nexists>rest. carries_token (br_replication_token b) (req_payload request) rest \<and> br_replication_token b \<noteq> []"
  shows "resp_status response \<noteq> kOk \<and> (resp_payload response = [] \<or> resp_payload response = [kCurrentVersion]) \<and>
    b' = b\<lparr>br_request_count := br_request_count b + 1, br_error_count := br_error_count b'\<rparr>"
proof -
  have refused: "\<not> replication_command request \<and>
      \<not> AuthorizeClientRequest (br_authorization b) (req_command n) (req_topic n)"
    if "authenticate b request = Some (Inr n)" for n
  proof (cases "replication_command request \<or> req_flags request AND kFlagReplication \<noteq> 0")
    case True
    then show ?thesis using authenticate_replication(2,5) [OF that True] assms(4) by blast
  next
    case False
    then show ?thesis
      using authenticate_client(2) [OF that _ _ assms(2)] authenticate_command [OF that] assms(3) by auto
  qed
  show ?thesis
  proof (cases "authenticate b request")
    case None
    then show ?thesis using authenticate_defined by blast
  next
    case (Some checked)
    have st: "st \<noteq> kOk" if "checked = Inl st" for st
      using Some that by (auto simp: authenticate_def bind_eq_Some_conv split: if_splits option.splits)
    show ?thesis
    proof (cases checked)
      case (Inl st)
      then show ?thesis using assms(1) Some st [OF Inl]
        by (auto simp: Handle_def Let_def authenticate_counts MakeResponse_def default_Response_def split: if_splits)
    next
      case (Inr n)
      then have "\<not> replication_command request" "\<not> AuthorizeClientRequest (br_authorization b) (req_command n) (req_topic n)"
        using refused Some by simp_all
      then show ?thesis using assms(1,2) Some Inr
        by (auto simp: Handle_def Let_def authenticate_counts MakeResponse_def default_Response_def split: if_splits)
    qed
  qed
qed

text \<open>C18: On a broker with a client token, a request that carries neither this token (with the permission for its
  command and topic) nor, for a replication command, the replication token is refused: the answer is not OK and
  shows no data, and of the broker only the request and error counters change.\<close>

theorem requests_need_token:
  assumes "Handle io b request = Some (b', response)" and "br_client_token b \<noteq> []"
    and "\<nexists>rest. carries_token (br_client_token b) (req_payload request) rest \<and>
      AuthorizeClientRequest (br_authorization b) (req_command request) (req_topic request)"
    and "\<nexists>rest. carries_token (br_replication_token b) (req_payload request) rest \<and> br_replication_token b \<noteq> []"
  shows "resp_status response \<noteq> kOk \<and> (resp_payload response = [] \<or> resp_payload response = [kCurrentVersion]) \<and>
    b' = b\<lparr>br_request_count := br_request_count b + 1, br_error_count := br_error_count b'\<rparr>"
  using assms by (rule Handle_refused)

theorem requests_need_token_witness:
  "resp_status (snd (the (Handle demo_io demo_broker (default_Request\<lparr>req_command := kProduce, req_topic := [116],
       req_flags := kFlagAuthentication, req_payload := Put16 1 @ [5] @ [0]\<rparr>)))) \<noteq> kOk"
proof -
  let ?r = "default_Request\<lparr>req_command := kProduce, req_topic := [116], req_flags := kFlagAuthentication,
    req_payload := Put16 1 @ [5] @ [0]\<rparr>"
  have "Handle demo_io demo_broker ?r \<noteq> None" using Handle_overread by fastforce
  then obtain b' response where h: "Handle demo_io demo_broker ?r = Some (b', response)" by auto
  have "\<nexists>rest. carries_token [7] (req_payload ?r) rest \<and> [7::byte] \<noteq> []"
    by (simp add: carries_token_def Put16_def)
  then have "resp_status response \<noteq> kOk"
    using requests_need_token [OF h] by (simp add: demo_broker_fields default_ClientAuthorization_def)
  then show ?thesis unfolding h by simp
qed

end
