(* ===== verification/Broker_Limits.thy ===== *)
theory Broker_Limits
  imports Broker_Safety
begin

text \<open>
  What the two produce limits of the broker admit: the token bucket over all requests
  (\<^verbatim>\<open>Broker::AllowProduceRequest\<close>) and the byte quota per topic (\<^verbatim>\<open>Broker::AllowTopicBytes\<close>), each over a
  sequence of calls at non-decreasing times.
\<close>

section \<open>Request rate\<close>

text \<open>The broker and the number of admitted requests after calls at the given times.\<close>

fun rate_run :: "broker \<Rightarrow> int list \<Rightarrow> broker \<times> nat" where
  "rate_run b [] = (b, 0)"
| "rate_run b (now # ts) =
    (case AllowProduceRequest now b of (b', allowed) \<Rightarrow>
     case rate_run b' ts of (b'', n) \<Rightarrow> (b'', (if allowed then 1 else 0) + n))"

definition capacity :: "broker \<Rightarrow> rat" where
  "capacity b = of_nat (unat (br_rate_limit b))"

lemma AllowProduceRequest_step:
  assumes "br_rate_limit b \<noteq> 0" and "AllowProduceRequest now b = (b', allowed)"
  shows "br_rate_limit b' = br_rate_limit b" and "br_last_refill b' = now"
    and "br_tokens b' + (if allowed then 1 else 0) \<le> br_tokens b + of_int (now - br_last_refill b) / 1000 * capacity b"
    and "0 \<le> br_tokens b \<Longrightarrow> br_last_refill b \<le> now \<Longrightarrow> 0 \<le> br_tokens b'"
    and "br_tokens b' + (if allowed then 1 else 0) \<le> capacity b"
    and "0 \<le> br_tokens b \<Longrightarrow> br_last_refill b + 1000 \<le> now \<Longrightarrow> allowed"
proof -
  have nonneg: "0 \<le> capacity b" by (simp add: capacity_def del: of_nat_unat)
  define t where "t = min (capacity b) (br_tokens b + of_int (now - br_last_refill b) / 1000 * capacity b)"
  have b': "b' = b\<lparr>br_tokens := (if t < 1 then t else t - 1), br_last_refill := now\<rparr>" and a: "allowed \<longleftrightarrow> \<not> t < 1"
    using assms unfolding AllowProduceRequest_def Let_def capacity_def [symmetric] t_def [symmetric] by (auto split: if_splits)
  show "br_rate_limit b' = br_rate_limit b" "br_last_refill b' = now" by (simp_all add: b')
  have "t \<le> br_tokens b + of_int (now - br_last_refill b) / 1000 * capacity b" "t \<le> capacity b" by (simp_all add: t_def)
  then show "br_tokens b' + (if allowed then 1 else 0) \<le> br_tokens b + of_int (now - br_last_refill b) / 1000 * capacity b"
    and "br_tokens b' + (if allowed then 1 else 0) \<le> capacity b"
    by (auto simp: b' a)
  show allowed if tokens: "0 \<le> br_tokens b" and idle: "br_last_refill b + 1000 \<le> now"
  proof -
    have one: "1 \<le> capacity b" unfolding capacity_def using assms(1)
      by (metis One_nat_def Suc_leI of_nat_1 of_nat_mono unat_gt_0)
    have "1 * capacity b \<le> of_int (now - br_last_refill b) / 1000 * capacity b"
      using idle nonneg by (intro mult_right_mono) (simp_all add: le_divide_eq)
    with tokens one have "1 \<le> t" unfolding t_def by (intro min.boundedI) linarith+
    then show ?thesis by (simp add: a)
  qed
  assume "0 \<le> br_tokens b" and "br_last_refill b \<le> now"
  then have "0 \<le> t" using nonneg by (simp add: t_def)
  then show "0 \<le> br_tokens b'" by (simp add: b')
qed

lemma rate_run_bound:
  assumes "br_rate_limit b \<noteq> 0" and "0 \<le> br_tokens b" and "sorted (br_last_refill b # ts)"
  shows "of_nat (snd (rate_run b ts)) \<le> br_tokens b + of_int (last (br_last_refill b # ts) - br_last_refill b) / 1000 * capacity b"
  using assms
proof (induction ts arbitrary: b)
  case Nil
  then show ?case by simp
next
  case (Cons now ts)
  obtain b' allowed where step: "AllowProduceRequest now b = (b', allowed)" by fastforce
  obtain b'' n where run: "rate_run b' ts = (b'', n)" by fastforce
  note st = AllowProduceRequest_step [OF Cons.prems(1) step]
  have cap: "capacity b' = capacity b" by (simp add: capacity_def st(1))
  have "0 \<le> br_tokens b'" using Cons.prems by (intro st(4)) simp_all
  then have "of_nat n \<le> br_tokens b' + of_int (last (now # ts) - now) / 1000 * capacity b"
    using Cons.IH [of b'] Cons.prems st(1,2) run by (simp add: cap)
  then have "of_nat n + (if allowed then 1 else 0) \<le>
      br_tokens b + of_int (now - br_last_refill b) / 1000 * capacity b + of_int (last (now # ts) - now) / 1000 * capacity b"
    using st(3) by linarith
  also have "\<dots> = br_tokens b + of_int (last (now # ts) - br_last_refill b) / 1000 * capacity b"
    by (simp add: field_simps)
  finally show ?case using step run by (simp split: if_splits)
qed

text \<open>A run leaves the bucket filled between zero and the time of the last request.\<close>

lemma rate_run_state:
  assumes "br_rate_limit b \<noteq> 0" and "0 \<le> br_tokens b" and "sorted (br_last_refill b # ts)"
  shows "br_rate_limit (fst (rate_run b ts)) = br_rate_limit b \<and> 0 \<le> br_tokens (fst (rate_run b ts)) \<and>
    br_last_refill (fst (rate_run b ts)) = last (br_last_refill b # ts)"
  using assms
proof (induction ts arbitrary: b)
  case (Cons now ts)
  obtain b' allowed where step: "AllowProduceRequest now b = (b', allowed)" by fastforce
  note st = AllowProduceRequest_step [OF Cons.prems(1) step]
  have "fst (rate_run b (now # ts)) = fst (rate_run b' ts)" using step by (simp split: prod.split)
  moreover have "0 \<le> br_tokens b'" using Cons.prems by (intro st(4)) simp_all
  moreover have "br_rate_limit b' \<noteq> 0" "sorted (br_last_refill b' # ts)" using Cons.prems st(1,2) by simp_all
  ultimately show ?case using Cons.IH [of b'] st(1,2) by simp
qed simp

text \<open>However long the bucket was idle, the first request finds no more than its capacity.\<close>

lemma rate_run_window:
  assumes "br_rate_limit b \<noteq> 0" and "0 \<le> br_tokens b" and "sorted (br_last_refill b # now # ts)"
  shows "of_nat (snd (rate_run b (now # ts))) \<le> capacity b + of_int (last (now # ts) - now) / 1000 * capacity b"
proof -
  obtain b' allowed where step: "AllowProduceRequest now b = (b', allowed)" by fastforce
  note st = AllowProduceRequest_step [OF assms(1) step]
  have "0 \<le> br_tokens b'" using assms by (intro st(4)) simp_all
  moreover have "br_rate_limit b' \<noteq> 0" "sorted (br_last_refill b' # ts)" using assms st(1,2) by simp_all
  ultimately have "of_nat (snd (rate_run b' ts)) \<le> br_tokens b' + of_int (last (now # ts) - now) / 1000 * capacity b'"
    using rate_run_bound [of b' ts] st(2) by simp
  moreover have "capacity b' = capacity b" by (simp add: capacity_def st(1))
  ultimately have "of_nat (snd (rate_run b' ts)) + (if allowed then 1 else 0) \<le>
      capacity b + of_int (last (now # ts) - now) / 1000 * capacity b"
    using st(5) by simp
  then show ?thesis using step by (auto simp: add.commute split: prod.split if_splits)
qed

text \<open>C20: After a rate limit of \<open>n\<close> requests per second is configured, and whatever requests came before, any
  run of consecutive requests has at most \<open>n\<close> of them admitted, plus \<open>n\<close> for each second (a fraction of a second
  counting for its part) between the first and the last of them: an idle bucket saves up \<open>n\<close> requests and no more.
  A request that comes a second or more after the one before it is admitted. The times are the readings of a steady
  clock in milliseconds.\<close>

theorem rate_limit_bound:
  assumes "limit \<noteq> 0" and "sorted (t # before @ now # ts)"
  shows "of_nat (snd (rate_run (fst (rate_run (ConfigureRateLimit b limit t) before)) (now # ts))) \<le>
      of_nat (unat limit) * (1 + of_int (last (now # ts) - now) / 1000 :: rat) \<and>
    (last (t # before) + 1000 \<le> now \<longrightarrow>
       snd (AllowProduceRequest now (fst (rate_run (ConfigureRateLimit b limit t) before))))"
proof -
  let ?start = "ConfigureRateLimit b limit t" and ?b = "fst (rate_run (ConfigureRateLimit b limit t) before)"
  have b0: "br_rate_limit ?start = limit" "0 \<le> br_tokens ?start" "br_last_refill ?start = t"
    by (simp_all add: ConfigureRateLimit_def del: of_nat_unat)
  have "sorted (t # before)" "last (t # before) \<le> now" "sorted (now # ts)"
    using assms(2) by (auto simp: sorted_append)
  with rate_run_state [of ?start before] b0 assms(1)
  have b: "br_rate_limit ?b = limit" "0 \<le> br_tokens ?b" "sorted (br_last_refill ?b # now # ts)"
    "br_last_refill ?b = last (t # before)" by auto
  have "of_nat (snd (rate_run ?b (now # ts))) \<le> capacity ?b + of_int (last (now # ts) - now) / 1000 * capacity ?b"
    using b assms(1) by (intro rate_run_window) simp_all
  moreover have "snd (AllowProduceRequest now ?b)" if "last (t # before) + 1000 \<le> now"
    using AllowProduceRequest_step(6) [of ?b now, OF _ prod.collapse [symmetric]] b assms(1) that by simp
  ultimately show ?thesis
    using b(1) by (simp add: capacity_def algebra_simps del: of_nat_unat rate_run.simps)
qed

theorem rate_limit_bound_witness:
  "snd (rate_run (fst (rate_run (ConfigureRateLimit demo_broker 2 0) [0, 0, 0])) [60000, 60000, 60000, 60000, 60500]) \<le> 3 \<and>
   snd (AllowProduceRequest 60000 (fst (rate_run (ConfigureRateLimit demo_broker 2 0) [0, 0, 0])))"
  using rate_limit_bound [of 2 0 "[0, 0, 0]" 60000 "[60000, 60000, 60000, 60500]" demo_broker]
  by (simp del: rate_run.simps)

section \<open>Bytes per topic\<close>

text \<open>The bytes admitted for one topic by calls with the given times and sizes.\<close>

fun quota_run :: "broker \<Rightarrow> bytes \<Rightarrow> (int \<times> u64) list \<Rightarrow> nat" where
  "quota_run b topic [] = 0"
| "quota_run b topic ((now, n) # calls) =
    (case AllowTopicBytes now b topic n of (b', allowed) \<Rightarrow> (if allowed then unat n else 0) + quota_run b' topic calls)"

text \<open>The window a call at the given time starts from, and its invariant.\<close>

definition window_at :: "broker \<Rightarrow> bytes \<Rightarrow> int \<Rightarrow> TopicQuotaWindow" where
  "window_at b topic now =
    (let found = (case map_of (br_windows b) topic of None \<Rightarrow> \<lparr>qw_bytes = 0, qw_start = now\<rparr> | Some w \<Rightarrow> w) in
     if now - qw_start found \<ge> 1000 then \<lparr>qw_bytes = 0, qw_start = now\<rparr> else found)"

definition windows_ok :: "broker \<Rightarrow> bool" where
  "windows_ok b \<longleftrightarrow> (\<forall>topic w. map_of (br_windows b) topic = Some w \<longrightarrow> qw_bytes w \<le> br_topic_quota b)"

lemma window_at_ok: "windows_ok b \<Longrightarrow> qw_bytes (window_at b topic now) \<le> br_topic_quota b"
  by (auto simp: window_at_def windows_ok_def Let_def split: option.splits)

lemma AllowTopicBytes_step:
  assumes "br_topic_quota b \<noteq> 0" and "windows_ok b" and "AllowTopicBytes now b topic n = (b', allowed)"
  shows "br_topic_quota b' = br_topic_quota b" and "windows_ok b'"
    and "unat n \<le> unat (br_topic_quota b) \<Longrightarrow> map_of (br_windows b') topic =
      Some \<lparr>qw_bytes = (if allowed then qw_bytes (window_at b topic now) + n else qw_bytes (window_at b topic now)),
            qw_start = qw_start (window_at b topic now)\<rparr>"
    and "allowed \<Longrightarrow> unat (qw_bytes (window_at b topic now) + n) = unat (qw_bytes (window_at b topic now)) + unat n"
    and "allowed \<Longrightarrow> unat (qw_bytes (window_at b topic now)) + unat n \<le> unat (br_topic_quota b)"
    and "\<not> unat n \<le> unat (br_topic_quota b) \<Longrightarrow> b' = b \<and> \<not> allowed"
proof -
  define w where "w = window_at b topic now"
  have wq: "qw_bytes w \<le> br_topic_quota b" using assms(2) by (simp add: w_def window_at_ok)
  show big: "\<not> unat n \<le> unat (br_topic_quota b) \<Longrightarrow> b' = b \<and> \<not> allowed"
    using assms(1,3) by (auto simp: AllowTopicBytes_def word_less_nat_alt)
  have eq: "(b', allowed) = (if qw_bytes w > br_topic_quota b - n
      then (b\<lparr>br_windows := AList.update topic w (br_windows b)\<rparr>, False)
      else (b\<lparr>br_windows := AList.update topic (w\<lparr>qw_bytes := qw_bytes w + n\<rparr>) (br_windows b)\<rparr>, True))"
    if "unat n \<le> unat (br_topic_quota b)"
    using that assms(1,3) unfolding AllowTopicBytes_def Let_def w_def window_at_def
    by (simp add: word_less_nat_alt split: if_splits)
  have fits: "unat (qw_bytes w + n) = unat (qw_bytes w) + unat n \<and> unat (qw_bytes w) + unat n \<le> unat (br_topic_quota b)"
    if "allowed"
  proof -
    have le: "unat n \<le> unat (br_topic_quota b)" using that big by blast
    with eq [OF le] that have "qw_bytes w \<le> br_topic_quota b - n" by (simp split: if_splits)
    then have "unat (qw_bytes w) \<le> unat (br_topic_quota b) - unat n" using le by (simp add: word_le_nat_alt unat_sub)
    then have sum: "unat (qw_bytes w) + unat n \<le> unat (br_topic_quota b)" using le by linarith
    then have "unat (qw_bytes w) + unat n < 2 ^ 64" using unat_bound [of "br_topic_quota b"] by simp
    then show ?thesis using sum by (simp add: unat_word_ariths)
  qed
  show "allowed \<Longrightarrow> unat (qw_bytes (window_at b topic now) + n) = unat (qw_bytes (window_at b topic now)) + unat n"
    and "allowed \<Longrightarrow> unat (qw_bytes (window_at b topic now)) + unat n \<le> unat (br_topic_quota b)"
    using fits by (simp_all add: w_def)
  show "br_topic_quota b' = br_topic_quota b"
    using eq big by (cases "unat n \<le> unat (br_topic_quota b)") (auto split: if_splits)
  show "windows_ok b'"
  proof (cases "unat n \<le> unat (br_topic_quota b)")
    case True
    have "qw_bytes w + n \<le> br_topic_quota b" if allowed using fits [OF that] by (simp add: word_le_nat_alt)
    then show ?thesis using eq [OF True] wq assms(2) by (auto simp: windows_ok_def map_of_update split: if_splits)
  next
    case False
    then show ?thesis using big assms(2) by simp
  qed
  assume "unat n \<le> unat (br_topic_quota b)"
  from eq [OF this] show "map_of (br_windows b') topic =
      Some \<lparr>qw_bytes = (if allowed then qw_bytes (window_at b topic now) + n else qw_bytes (window_at b topic now)),
            qw_start = qw_start (window_at b topic now)\<rparr>"
    by (auto simp: w_def map_of_update split: if_splits)
qed

lemma window_at_same:
  "map_of (br_windows b) topic = Some w \<Longrightarrow> now < qw_start w + 1000 \<Longrightarrow> window_at b topic now = w"
  by (simp add: window_at_def)

text \<open>Within one window the quota is never exceeded.\<close>

lemma quota_one_window:
  assumes "br_topic_quota b \<noteq> 0" and "windows_ok b" and "map_of (br_windows b) topic = Some w"
    and "\<forall>c \<in> set calls. fst c < qw_start w + 1000"
  shows "quota_run b topic calls + unat (qw_bytes w) \<le> unat (br_topic_quota b)"
  using assms
proof (induction calls arbitrary: b w)
  case Nil
  then show ?case by (auto simp: windows_ok_def word_le_nat_alt)
next
  case (Cons c calls)
  obtain now n where c: "c = (now, n)" by fastforce
  obtain b' allowed where step: "AllowTopicBytes now b topic n = (b', allowed)" by fastforce
  note st = AllowTopicBytes_step [OF Cons.prems(1,2) step]
  have w: "window_at b topic now = w" using Cons.prems c by (simp add: window_at_same)
  show ?case
  proof (cases "unat n \<le> unat (br_topic_quota b)")
    case True
    note after = st(3) [OF True, unfolded w]
    have "quota_run b' topic calls + unat (if allowed then qw_bytes w + n else qw_bytes w) \<le> unat (br_topic_quota b)"
      using Cons.IH [OF _ st(2) after] Cons.prems st(1) by simp
    then show ?thesis using st(4) by (auto simp: c step w split: if_splits)
  next
    case False
    then have "b' = b" "\<not> allowed" using st(6) by simp_all
    then show ?thesis using Cons.IH [OF Cons.prems(1,2,3)] Cons.prems(4) by (simp add: c step)
  qed
qed

lemma quota_two_windows:
  assumes "br_topic_quota b \<noteq> 0" and "windows_ok b" and "map_of (br_windows b) topic = Some w"
    and "sorted (map fst calls)" and "\<forall>c \<in> set calls. t0 \<le> fst c \<and> fst c < t0 + 1000"
  shows "quota_run b topic calls + unat (qw_bytes w) \<le> 2 * unat (br_topic_quota b)"
  using assms
proof (induction calls arbitrary: b w)
  case Nil
  then have "qw_bytes w \<le> br_topic_quota b" by (simp add: windows_ok_def)
  then show ?case by (simp add: word_le_nat_alt)
next
  case (Cons c calls)
  obtain now n where c: "c = (now, n)" by fastforce
  obtain b' allowed where step: "AllowTopicBytes now b topic n = (b', allowed)" by fastforce
  note st = AllowTopicBytes_step [OF Cons.prems(1,2) step]
  have later: "\<forall>c \<in> set calls. fst c < now + 1000" using Cons.prems(5) by (auto simp: c)
  show ?case
  proof (cases "unat n \<le> unat (br_topic_quota b)")
    case False
    then have "b' = b" "\<not> allowed" using st(6) by simp_all
    then show ?thesis using Cons.IH [OF Cons.prems(1,2,3)] Cons.prems(4,5) by (simp add: c step)
  next
    case fits: True
    show ?thesis
    proof (cases "now < qw_start w + 1000")
      case True
      then have w: "window_at b topic now = w" using Cons.prems by (simp add: window_at_same)
      note after = st(3) [OF fits, unfolded w]
      have "quota_run b' topic calls + unat (if allowed then qw_bytes w + n else qw_bytes w) \<le> 2 * unat (br_topic_quota b)"
        using Cons.IH [OF _ st(2) after] Cons.prems st(1) by simp
      then show ?thesis using st(4) by (auto simp: c step w split: if_splits)
    next
      case False
      then have w: "window_at b topic now = \<lparr>qw_bytes = 0, qw_start = now\<rparr>" using Cons.prems(3) by (simp add: window_at_def)
      note after = st(3) [OF fits, unfolded w]
      have "quota_run b' topic calls + unat (if allowed then n else 0) \<le> unat (br_topic_quota b)"
        using quota_one_window [OF _ st(2) after, of calls] later Cons.prems(1) st(1) by (cases allowed) simp_all
      moreover have "unat (qw_bytes w) \<le> unat (br_topic_quota b)"
        using Cons.prems(2,3) by (simp add: windows_ok_def word_le_nat_alt)
      ultimately show ?thesis by (simp add: c step split: if_splits)
    qed
  qed
qed

lemma quota_no_window:
  assumes "br_topic_quota b \<noteq> 0" and "windows_ok b" and "map_of (br_windows b) topic = None"
    and "sorted (map fst calls)" and "\<forall>c \<in> set calls. t0 \<le> fst c \<and> fst c < t0 + 1000"
  shows "quota_run b topic calls \<le> unat (br_topic_quota b)"
  using assms
proof (induction calls)
  case (Cons c calls)
  obtain now n where c: "c = (now, n)" by fastforce
  obtain b' allowed where step: "AllowTopicBytes now b topic n = (b', allowed)" by fastforce
  note st = AllowTopicBytes_step [OF Cons.prems(1,2) step]
  show ?case
  proof (cases "unat n \<le> unat (br_topic_quota b)")
    case False
    then have "b' = b" "\<not> allowed" using st(6) by simp_all
    then show ?thesis using Cons by (simp add: c step)
  next
    case True
    have w: "window_at b topic now = \<lparr>qw_bytes = 0, qw_start = now\<rparr>" using Cons.prems(3) by (simp add: window_at_def)
    note after = st(3) [OF True, unfolded w]
    have "\<forall>c \<in> set calls. fst c < now + 1000" using Cons.prems(5) by (auto simp: c)
    then have "quota_run b' topic calls + unat (if allowed then n else 0) \<le> unat (br_topic_quota b)"
      using quota_one_window [OF _ st(2) after, of calls] Cons.prems(1) st(1) by (cases allowed) simp_all
    then show ?thesis by (simp add: c step split: if_splits)
  qed
qed simp

text \<open>In any second the broker admits at most twice the configured byte quota for a topic, and it can come
  close to that: the window is fixed, not sliding, so a full quota at its end and another at the start of the
  next one are both admitted.\<close>

theorem topic_quota_bound:
  assumes "quota \<noteq> 0" and "sorted (map fst (before @ calls))"
    and "\<forall>c \<in> set calls. t0 \<le> fst c \<and> fst c < t0 + 1000"
  shows "quota_run (foldl (\<lambda>b (now, n). fst (AllowTopicBytes now b topic n)) (ConfigureTopicQuota b quota) before) topic calls
      \<le> 2 * unat quota"
proof -
  define b0 where "b0 = foldl (\<lambda>b (now, n). fst (AllowTopicBytes now b topic n)) (ConfigureTopicQuota b quota) before"
  have "br_topic_quota b0 = quota \<and> windows_ok b0"
    unfolding b0_def
  proof (induction before rule: rev_induct)
    case Nil
    then show ?case by (simp add: ConfigureTopicQuota_def windows_ok_def)
  next
    case (snoc c calls)
    then show ?case
      using AllowTopicBytes_step(1,2) [OF _ _ prod.collapse [symmetric]] assms(1) by (auto simp: case_prod_beta)
  qed
  then have b0: "br_topic_quota b0 = quota" "windows_ok b0" by simp_all
  show ?thesis
  proof (cases "map_of (br_windows b0) topic")
    case (Some w)
    then show ?thesis using quota_two_windows [of b0 topic w calls t0] b0 assms by (simp add: b0_def sorted_append)
  next
    case None
    then show ?thesis using quota_no_window [of b0 topic calls t0] b0 assms by (simp add: b0_def sorted_append)
  qed
qed

theorem topic_quota_bound_witness:
  "quota_run (ConfigureTopicQuota demo_broker 10) [116] [(0, 1), (999, 9), (1000, 10)] = 20 \<and>
   quota_run (foldl (\<lambda>b (now, n). fst (AllowTopicBytes now b [116] n)) (ConfigureTopicQuota demo_broker 10) [(0, 1)])
     [116] [(999, 9), (1000, 10)] \<le> 2 * 10"
  using topic_quota_bound [of 10 "[(0, 1)]" "[(999, 9), (1000, 10)]" 999 "[116]" demo_broker]
  by (simp add: AllowTopicBytes_def ConfigureTopicQuota_def)

end
