(* ===== verification/Broker_Log.thy ===== *)
theory Broker_Log
  imports Broker_Safety Storage_Log
begin

text \<open>
  What the data path does to the log: a produce request appends one message or none,
  and committed offsets are found again, also after a restart. The
  storage invariant and the abstract content of the partitions (\<open>engine_ok\<close>, \<open>stored\<close>) are those of the
  theory \<open>Storage_Log\<close>.
\<close>

section \<open>What a produce request leaves alone\<close>

lemma AllowTopicBytes_frame: "fst (AllowTopicBytes now b topic n) = b\<lparr>br_windows := br_windows (fst (AllowTopicBytes now b topic n))\<rparr>"
  by (simp add: AllowTopicBytes_def Let_def)

lemma AllowProduceRequest_frame:
  "fst (AllowProduceRequest now b) =
     b\<lparr>br_tokens := br_tokens (fst (AllowProduceRequest now b)), br_last_refill := br_last_refill (fst (AllowProduceRequest now b))\<rparr>"
  by (simp add: AllowProduceRequest_def Let_def)

lemma Replicate_frame: "fst (Replicate io b topic part m) = b\<lparr>br_repl := br_repl (fst (Replicate io b topic part m))\<rparr>"
  by (simp add: Replicate_def case_prod_beta)

text \<open>The limits change neither log, nor topics, offsets and cache.\<close>

definition same_data :: "broker \<Rightarrow> broker \<Rightarrow> bool" where
  "same_data b b' \<longleftrightarrow> br_storage b' = br_storage b \<and> br_queues b' = br_queues b \<and> br_offsets b' = br_offsets b \<and>
     br_cache b' = br_cache b \<and> br_groups b' = br_groups b"

lemma limits_same_data:
  "AllowTopicBytes now b topic n = (b', x) \<Longrightarrow> same_data b b'"
  "AllowProduceRequest now b = (b', x) \<Longrightarrow> same_data b b'"
  using AllowTopicBytes_frame [of now b topic n] AllowProduceRequest_frame [of now b]
  by (auto simp: same_data_def dest: arg_cong [where f = br_storage] arg_cong [where f = br_queues]
      arg_cong [where f = br_offsets] arg_cong [where f = br_cache] arg_cong [where f = br_groups])

lemma Replicate_same_data: "Replicate io b topic part m = (b', x) \<Longrightarrow> same_data b b'"
  using Replicate_frame [of io b topic part m]
  by (auto simp: same_data_def dest: arg_cong [where f = br_storage] arg_cong [where f = br_queues]
      arg_cong [where f = br_offsets] arg_cong [where f = br_cache] arg_cong [where f = br_groups])

section \<open>Storing a message\<close>

text \<open>The message a produce request adds to the end of a partition.\<close>

definition next_message :: "broker \<Rightarrow> storage_io \<Rightarrow> bytes \<Rightarrow> u32 \<Rightarrow> bytes \<Rightarrow> bytes \<Rightarrow> Message" where
  "next_message b io topic part key val =
     \<lparr>msg_offset = of_nat (length (stored (br_storage b) (topic, part))), msg_timestamp_ms = st_now_ms io,
      msg_key = key, msg_value = val\<rparr>"

definition appends :: "broker \<Rightarrow> broker \<Rightarrow> bytes \<Rightarrow> u32 \<Rightarrow> Message \<Rightarrow> bool" where
  "appends b b' topic part m \<longleftrightarrow>
     stored (br_storage b') = (stored (br_storage b))((topic, part) := stored (br_storage b) (topic, part) @ [m])"

lemma finish_message_cases:
  assumes "finish_message io b request ck part m = (b', r)"
  obtains (failed) "r = MakeResponse request kStorageError []" and "same_data b b'"
  | (acked) "r = MakeResponse request kOk (Put32 part @ Put64 (msg_offset m))" and "br_storage b' = br_storage b"
      and "br_queues b' = br_queues b" and "br_offsets b' = br_offsets b"
      and "br_cache b' = (case ck of None \<Rightarrow> br_cache b
        | Some k \<Rightarrow> AList.update k \<lparr>ie_response = r, ie_expires_at = pi_done io + 300000\<rparr> (br_cache b))"
proof -
  obtain b1 acked where ack:
    "(if req_flags request AND kAckMask = kAckAll then Replicate io b (req_topic request) part m else (b, True)) = (b1, acked)"
    by fastforce
  have d: "same_data b b1" using ack Replicate_same_data by (auto simp: same_data_def split: if_splits)
  show thesis
  proof (cases acked)
    case False
    then show thesis using assms d unfolding finish_message_def ack by (intro failed) simp_all
  next
    case True
    then show thesis using assms d unfolding finish_message_def ack
      by (intro acked) (auto simp: same_data_def Let_def split: option.splits)
  qed
qed

lemma store_message_cases:
  assumes ok: "engine_ok (br_storage b)" and io: "writes_well (pi_storage io)"
    and run: "store_message io b request quota ck (requested, key, val) = (b', r)"
  obtains (refused) st where "r = MakeResponse request st []" and "st \<noteq> kOk" and "stored (br_storage b') = stored (br_storage b)"
      and "engine_ok (br_storage b')" and "br_cache b' = br_cache b" and "br_queues b' = br_queues b" and "br_offsets b' = br_offsets b"
  | (failed) part m where "r = MakeResponse request kStorageError []" and "appends b b' (req_topic request) part m"
      and "engine_ok (br_storage b')" and "br_cache b' = br_cache b" and "br_queues b' = br_queues b" and "br_offsets b' = br_offsets b"
  | (appended) part m where "r = MakeResponse request kOk (Put32 part @ Put64 (msg_offset m))"
      and "ResolvePartition (br_queues b) (req_topic request) requested key = Inr part"
      and "m = next_message b (pi_storage io) (req_topic request) part key val" and "appends b b' (req_topic request) part m"
      and "IsValidTopicName (req_topic request)" and "message_fits key val" and "engine_ok (br_storage b')"
      and "br_queues b' = br_queues b" and "br_offsets b' = br_offsets b"
      and "br_cache b' = (case ck of None \<Rightarrow> br_cache b
        | Some k \<Rightarrow> AList.update k \<lparr>ie_response = r, ie_expires_at = pi_done io + 300000\<rparr> (br_cache b))"
proof (cases "ResolvePartition (br_queues b) (req_topic request) requested key")
  case (Inl err)
  then show thesis using run ok by (intro refused [of "if err = ''unknown topic'' then kUnknownTopic else kBadRequest"])
    (auto simp: store_message_def)
next
  case (Inr part)
  let ?t = "req_topic request"
  obtain b1 allowed where quota: "(if quota \<and> req_flags request AND kFlagReplication = 0
      then AllowTopicBytes (pi_now io) b ?t (of_nat (length key + length val)) else (b, True)) = (b1, allowed)" by fastforce
  have d1: "same_data b b1" using quota limits_same_data(1) by (auto simp: same_data_def split: if_splits)
  show thesis
  proof (cases allowed)
    case False
    then show thesis using run Inr quota d1 ok by (intro refused [of kQuotaExceeded]) (auto simp: store_message_def same_data_def)
  next
    case True
    obtain storage res where app: "Append (pi_storage io) (br_storage b1) ?t part key val = (storage, res)" by fastforce
    have st1: "br_storage b1 = br_storage b" using d1 by (simp add: same_data_def)
    from Append_ok [OF ok _ _ app [unfolded st1]] io have ok': "engine_ok storage"
      and r: "case res of
       Inr m \<Rightarrow> IsValidTopicName ?t \<and> message_fits key val \<and> m = next_message b (pi_storage io) ?t part key val \<and>
         stored storage = (stored (br_storage b))((?t, part) := stored (br_storage b) (?t, part) @ [m])
     | Inl err \<Rightarrow> stored storage = stored (br_storage b) \<or>
           (\<exists>m. stored storage = (stored (br_storage b))((?t, part) := stored (br_storage b) (?t, part) @ [m]))"
      by (auto simp: writes_well_def next_message_def split: sum.splits)
    show thesis
    proof (cases res)
      case (Inl err)
      then have res': "b' = b1\<lparr>br_storage := storage\<rparr>" "r = MakeResponse request kStorageError []"
        using run Inr quota True app by (simp_all add: store_message_def)
      from r Inl show thesis
      proof (simp, elim disjE exE)
        assume "stored storage = stored (br_storage b)"
        then show thesis using res' d1 ok' by (intro refused [of kStorageError]) (auto simp: same_data_def)
      next
        fix m assume "stored storage = (stored (br_storage b))((?t, part) := stored (br_storage b) (?t, part) @ [m])"
        then show thesis using res' d1 ok' by (intro failed [of part m]) (auto simp: same_data_def appends_def)
      qed
    next
      case (Inr m)
      define b2 where "b2 = b1\<lparr>br_storage := storage,
          br_repl := RecordLocalOffset (br_repl b1) (PartitionKey ?t part) (msg_offset m)\<rparr>"
      have facts: "IsValidTopicName ?t" "message_fits key val" "m = next_message b (pi_storage io) ?t part key val"
        "stored storage = (stored (br_storage b))((?t, part) := stored (br_storage b) (?t, part) @ [m])"
        using r Inr by simp_all
      have fin: "finish_message io b2 request ck part m = (b', r)"
        using run \<open>ResolvePartition (br_queues b) ?t requested key = Inr part\<close> quota True app Inr
        by (simp add: store_message_def b2_def Let_def)
      then show thesis
      proof (cases rule: finish_message_cases)
        case failed
        then show thesis using d1 ok' facts by (intro that(2) [of part m]) (auto simp: same_data_def b2_def appends_def)
      next
        case acked
        then show thesis
          using d1 ok' facts \<open>ResolvePartition (br_queues b) ?t requested key = Inr part\<close>
          by (intro appended [of part m]) (auto simp: same_data_def b2_def appends_def split: option.splits)
      qed
    qed
  qed
qed

section \<open>HandleProduce\<close>

text \<open>The cache key of a request with producer metadata, and where its message starts.\<close>

definition produce_key :: "Request \<Rightarrow> bytes option" where
  "produce_key request =
    (if req_flags request AND kFlagProducerMetadata = 0 \<or> length (req_payload request) < 16 then None
     else Some (IdempotencyKey (req_topic request) (be_value (take 8 (req_payload request)))
       (be_value (take 8 (drop 8 (req_payload request))))))"

definition message_start :: "Request \<Rightarrow> nat" where
  "message_start request = (if req_flags request AND kFlagProducerMetadata = 0 then 0 else 16)"

text \<open>The cache after the expired entries were removed, which only a request with metadata does.\<close>

definition live_cache :: "produce_io \<Rightarrow> broker \<Rightarrow> Request \<Rightarrow> (bytes, IdempotencyEntry) umap" where
  "live_cache io b request =
    (if req_flags request AND kFlagProducerMetadata = 0 then br_cache b else purge_cache (pi_now io) (br_cache b))"

definition admitted :: "produce_io \<Rightarrow> broker \<Rightarrow> Request \<Rightarrow> bool \<Rightarrow> broker \<times> Status option" where
  "admitted io b request rate =
    (if req_flags request AND kFlagReplication = 0 \<and> (rs_role (br_repl b) \<noteq> kLeader \<or> \<not> CanServeWrites (br_repl b) (pi_now io))
     then (b, Some kNotLeader)
     else case (if rate \<and> req_flags request AND kFlagReplication = 0 then AllowProduceRequest (pi_now io) b else (b, True)) of
       (b1, ok) \<Rightarrow> (b1, if ok then None else Some kRateLimited))"

lemma admitted_same_data: "admitted io b request rate = (b1, x) \<Longrightarrow> same_data b b1"
  using limits_same_data(2) by (auto simp: admitted_def same_data_def split: if_splits prod.splits)

lemma HandleProduce_eq:
  "HandleProduce io b request rate quota =
    (case admitted io b request rate of
       (b1, Some st) \<Rightarrow> reply b1 request st
     | (b1, None) \<Rightarrow>
         if req_flags request AND kFlagProducerMetadata \<noteq> 0 \<and> length (req_payload request) < 16 then reply b1 request kBadRequest
         else
           let b2 = b1\<lparr>br_cache := live_cache io b1 request\<rparr> in
           (case Option.bind (produce_key request) (map_of (br_cache b2)) of
              Some entry \<Rightarrow> Some (b2, ie_response entry\<lparr>resp_id := req_id request\<rparr>)
            | None \<Rightarrow> produce_from io b2 request quota (produce_key request) (message_start request)))"
proof -
  obtain b1 x where a: "admitted io b request rate = (b1, x)" by fastforce
  have unchanged: "b1\<lparr>br_cache := br_cache b1\<rparr> = b1" by simp
  show ?thesis
    using a
    by (auto simp: HandleProduce_def admitted_def Let_def Take_def bounds_simps produce_key_def message_start_def live_cache_def
        not_less split: if_splits prod.splits bool.splits option.splits)
qed

lemma HandleProduce_cases:
  assumes ok: "engine_ok (br_storage b)" and io: "writes_well (pi_storage io)"
    and run: "HandleProduce io b request rate quota = Some (b', r)"
  obtains (refused) st where "r = MakeResponse request st []" and "st \<noteq> kOk" and "stored (br_storage b') = stored (br_storage b)"
      and "engine_ok (br_storage b')" and "br_cache b' = br_cache b \<or> br_cache b' = live_cache io b request"
      and "br_queues b' = br_queues b" and "br_offsets b' = br_offsets b"
  | (failed) part m where "r = MakeResponse request kStorageError []" and "appends b b' (req_topic request) part m"
      and "engine_ok (br_storage b')" and "br_cache b' = live_cache io b request"
      and "br_queues b' = br_queues b" and "br_offsets b' = br_offsets b"
  | (cached) key entry where "produce_key request = Some key" and "map_of (live_cache io b request) key = Some entry"
      and "r = ie_response entry\<lparr>resp_id := req_id request\<rparr>" and "br_storage b' = br_storage b"
      and "br_cache b' = live_cache io b request" and "br_queues b' = br_queues b" and "br_offsets b' = br_offsets b"
  | (appended) requested key val part m where "parse_message (req_payload request) (message_start request) = Some (Inr (requested, key, val))"
      and "r = MakeResponse request kOk (Put32 part @ Put64 (msg_offset m))"
      and "ResolvePartition (br_queues b) (req_topic request) requested key = Inr part"
      and "m = next_message b (pi_storage io) (req_topic request) part key val" and "appends b b' (req_topic request) part m"
      and "IsValidTopicName (req_topic request)" and "message_fits key val" and "engine_ok (br_storage b')"
      and "br_queues b' = br_queues b" and "br_offsets b' = br_offsets b"
      and "br_cache b' = (case produce_key request of None \<Rightarrow> live_cache io b request
        | Some k \<Rightarrow> AList.update k \<lparr>ie_response = r, ie_expires_at = pi_done io + 300000\<rparr> (live_cache io b request))"
      and "Option.bind (produce_key request) (map_of (live_cache io b request)) = None"
proof -
  obtain b1 x where a: "admitted io b request rate = (b1, x)" by fastforce
  have d: "same_data b b1" by (rule admitted_same_data [OF a])
  have live: "live_cache io b1 request = live_cache io b request" using d by (simp add: live_cache_def same_data_def)
  show thesis
  proof (cases x)
    case (Some st)
    then have "st \<noteq> kOk" using a by (auto simp: admitted_def split: if_splits prod.splits)
    then show thesis using run a Some d ok by (intro refused [of st]) (auto simp: HandleProduce_eq same_data_def)
  next
    case None
    note run' = run [unfolded HandleProduce_eq a None prod.case option.case]
    define b2 where "b2 = b1\<lparr>br_cache := live_cache io b request\<rparr>"
    have d2: "br_storage b2 = br_storage b" "br_queues b2 = br_queues b" "br_offsets b2 = br_offsets b" "br_cache b2 = live_cache io b request"
      using d by (simp_all add: b2_def same_data_def)
    show thesis
    proof (cases "req_flags request AND kFlagProducerMetadata \<noteq> 0 \<and> length (req_payload request) < 16")
      case True
      then show thesis using run' d ok by (intro refused [of kBadRequest]) (auto simp: same_data_def)
    next
      case False
      note run2 = run' [unfolded live Let_def b2_def [symmetric] if_not_P [OF False]]
      show thesis
      proof (cases "Option.bind (produce_key request) (map_of (br_cache b2))")
        case (Some entry)
        then obtain key where "produce_key request = Some key" "map_of (live_cache io b request) key = Some entry"
          by (auto simp: bind_eq_Some_conv d2)
        then show thesis using run2 Some d2 by (intro cached [of key entry]) simp_all
      next
        case None
        obtain parsed where p: "parse_message (req_payload request) (message_start request) = Some parsed"
          using parse_message_defined by fastforce
        show thesis
        proof (cases parsed)
          case (Inl st)
          then have "st \<noteq> kOk" using p by (auto simp: parse_message_def Let_def bind_eq_Some_conv split: if_splits option.splits)
          then show thesis using run2 None p Inl d2 ok by (intro refused [of st]) (auto simp: produce_from_def)
        next
          case (Inr msg)
          obtain requested key val where msg: "msg = (requested, key, val)" by (metis prod_cases3)
          have sm: "store_message io b2 request quota (produce_key request) (requested, key, val) = (b', r)"
            using run2 None p Inr msg by (simp add: produce_from_def)
          have nm: "next_message b2 = next_message b" "appends b2 = appends b" by (simp_all add: fun_eq_iff next_message_def appends_def d2)
          have "engine_ok (br_storage b2)" using ok d2 by simp
          from this io sm show thesis
          proof (cases rule: store_message_cases)
            case (refused st)
            then show thesis using d2 by (intro that(1) [of st]) simp_all
          next
            case (failed part m)
            then show thesis using d2 nm by (intro that(2) [of part m]) simp_all
          next
            case (appended part m)
            then show thesis using d2 nm p Inr msg None by (intro that(4) [of requested key val part m]) (simp_all cong: option.case_cong)
          qed
        qed
      qed
    qed
  qed
qed

text \<open>C21: A produce request appends one message or none. It appends exactly the parsed message, at the end of the
  partition it is routed to, when it answers OK with that partition and offset for the first time; an OK from
  the idempotency cache and every refusal append nothing; only a storage error can leave a message behind.\<close>

theorem produce_appends_once:
  assumes "engine_ok (br_storage b)" and "writes_well (pi_storage io)" and "HandleProduce io b request rate quota = Some (b', r)"
  shows "engine_ok (br_storage b') \<and>
    (stored (br_storage b') = stored (br_storage b) \<and>
       (resp_status r \<noteq> kOk \<or>
        (\<exists>key entry. produce_key request = Some key \<and> map_of (live_cache io b request) key = Some entry \<and>
           r = ie_response entry\<lparr>resp_id := req_id request\<rparr>)) \<or>
     (\<exists>part m. appends b b' (req_topic request) part m \<and>
       (resp_status r = kStorageError \<or>
        (\<exists>requested key val. parse_message (req_payload request) (message_start request) = Some (Inr (requested, key, val)) \<and>
           ResolvePartition (br_queues b) (req_topic request) requested key = Inr part \<and>
           m = next_message b (pi_storage io) (req_topic request) part key val \<and>
           r = MakeResponse request kOk (Put32 part @ Put64 (msg_offset m))))))"
  using assms
proof (cases rule: HandleProduce_cases)
  case (refused st)
  then show ?thesis by (simp add: MakeResponse_def)
next
  case (failed part m)
  then have "resp_status r = kStorageError" by (simp add: MakeResponse_def)
  with failed show ?thesis by blast
next
  case (cached key entry)
  then show ?thesis using assms(1) by auto
next
  case (appended requested key val part m)
  then show ?thesis by blast
qed

definition log_broker :: broker where
  "log_broker = demo_broker\<lparr>br_queues := [([116], \<lparr>tm_name = [116], tm_partition_count = 1\<rparr>)]\<rparr>"

definition log_io :: produce_io where
  "log_io = bi_produce demo_io 0"

definition log_request :: Request where
  "log_request = default_Request\<lparr>req_command := kProduce, req_topic := [116], req_flags := kFlagProducerMetadata,
     req_payload := Put64 1 @ Put64 2 @ Put32 0 @ Put16 1 @ [107] @ Put32 1 @ [118]\<rparr>"

lemma log_broker_storage:
  "engine_ok (br_storage log_broker)" "stored (br_storage log_broker) k = []" "br_cache log_broker = []" "br_rate_limit log_broker = 0"
  "rs_role (br_repl log_broker) = kLeader" "rs_replicas (br_repl log_broker) = []" "br_topic_quota log_broker = 0"
  by (simp_all add: log_broker_def demo_broker_def ConfigureClientAuth_def ConfigureReplication_def Broker_Open_def new_Broker_def
      Open_def good_io_def TopicMetadataStore_Load_def ConsumerOffsetStore_Load_def good_load_io_def new_engine_def [symmetric]
      demo_files_def ReplaceTopics_def ListTopics_def new_ReplicationCoordinator_def LoadState_def)

lemma log_request_parsed:
  "parse_message (req_payload log_request) (message_start log_request) = Some (Inr (0, [107], [118]))"
  "produce_key log_request = Some (IdempotencyKey [116] 1 2)"
  by (simp_all add: log_request_def parse_message_def message_start_def produce_key_def flag_simps Take_def Get16_def Get32_def
      substr_def Let_def)

lemma log_request_runs:
  "\<exists>b' (m :: Message). HandleProduce log_io log_broker log_request True True =
     Some (b', MakeResponse log_request kOk (Put32 0 @ Put64 (msg_offset m))) \<and> msg_key m = [107] \<and> msg_value m = [118] \<and>
     rs_role (br_repl b') = kLeader \<and> rs_replicas (br_repl b') = []"
proof -
  have valid: "IsValidTopicName [116]" "message_fits [107] [118]"
    by code_simp (simp add: message_fits_def kMaxMessageBytes_def)
  define b where "b = log_broker\<lparr>br_cache := live_cache log_io log_broker log_request\<rparr>"
  have io: "pi_storage log_io = good_io 0 0" by (simp add: log_io_def demo_io_def)
  have adm: "admitted log_io log_broker log_request True = (log_broker, None)"
    by (simp add: admitted_def log_broker_storage CanServeWrites_def AllowProduceRequest_def)
  have "br_storage b = br_storage log_broker" by (simp add: b_def)
  then obtain e m where app: "Append (good_io 0 0) (br_storage b) [116] 0 [107] [118] = (e, Inr m)"
    using Append_good [OF log_broker_storage(1) valid, of 0 0 0] by auto
  have m: "msg_key m = [107]" "msg_value m = [118]"
    using Append_ok [OF _ _ _ app] log_broker_storage(1) by (simp_all add: b_def)
  have route: "ResolvePartition (br_queues b) [116] 0 [107] = Inr 0"
    by (simp add: b_def log_broker_def ResolvePartition_def kAutoPartition_def)
  have topic: "req_topic log_request = [116]" and flags: "req_flags log_request AND kAckMask \<noteq> kAckAll"
    by (simp_all add: log_request_def flag_simps)
  have quota: "AllowTopicBytes now b [116] n = (b, True)" for now n by (simp add: AllowTopicBytes_def b_def log_broker_storage)
  have live: "live_cache log_io log_broker log_request = []"
    by (simp add: live_cache_def purge_cache_def log_broker_storage)
  have meta: "\<not> (req_flags log_request AND kFlagProducerMetadata \<noteq> 0 \<and> length (req_payload log_request) < 16)"
    by (simp add: log_request_def)
  have miss: "Option.bind (produce_key log_request) (map_of (br_cache b)) = None"
    by (simp add: b_def live log_request_parsed)
  have repl: "rs_role (br_repl b) = kLeader" "rs_replicas (br_repl b) = []" by (simp_all add: b_def log_broker_storage)
  have "\<exists>b'. produce_from log_io b log_request True (produce_key log_request) (message_start log_request) =
      Some (b', MakeResponse log_request kOk (Put32 0 @ Put64 (msg_offset m))) \<and>
      rs_role (br_repl b') = kLeader \<and> rs_replicas (br_repl b') = []"
    using flags by (simp add: produce_from_def log_request_parsed store_message_def route topic quota app io finish_message_def
        RecordLocalOffset_def repl Let_def)
  then have "\<exists>b'. HandleProduce log_io log_broker log_request True True =
      Some (b', MakeResponse log_request kOk (Put32 0 @ Put64 (msg_offset m))) \<and>
      rs_role (br_repl b') = kLeader \<and> rs_replicas (br_repl b') = []"
    unfolding HandleProduce_eq adm prod.case option.case if_not_P [OF meta] Let_def b_def [symmetric] miss .
  then show ?thesis using m by blast
qed

theorem produce_appends_once_witness:
  "\<exists>b' m. HandleProduce log_io log_broker log_request True True =
     Some (b', MakeResponse log_request kOk (Put32 0 @ Put64 (msg_offset m))) \<and> stored (br_storage b') ([116], 0) = [m]"
proof -
  from log_request_runs obtain b' and m0 :: Message where
    run: "HandleProduce log_io log_broker log_request True True = Some (b', MakeResponse log_request kOk (Put32 0 @ Put64 (msg_offset m0)))"
    by blast
  have w: "writes_well (pi_storage log_io)" by (simp add: writes_well_def log_io_def demo_io_def)
  have live: "live_cache log_io log_broker log_request = []" by (simp add: live_cache_def purge_cache_def log_broker_storage)
  have topic: "req_topic log_request = [116]" by (simp add: log_request_def)
  from produce_appends_once [OF log_broker_storage(1) w run] obtain part m where
    "appends log_broker b' [116] part m" "ResolvePartition (br_queues log_broker) [116] 0 [107] = Inr part"
    "MakeResponse log_request kOk (Put32 0 @ Put64 (msg_offset m0)) = MakeResponse log_request kOk (Put32 part @ Put64 (msg_offset m))"
    by (auto simp: live topic log_request_parsed MakeResponse_def)
  moreover have "part = 0" using calculation(2) by (simp add: ResolvePartition_def log_broker_def kAutoPartition_def)
  ultimately show ?thesis using run by (auto simp: appends_def log_broker_storage)
qed

section \<open>The idempotency cache\<close>

lemma purge_cache_keeps:
  "map_of cache key = Some entry \<Longrightarrow> now < ie_expires_at entry \<Longrightarrow> map_of (purge_cache now cache) key = Some entry"
  by (induction cache) (auto simp: purge_cache_def split: if_splits)

lemma live_cache_keeps:
  "map_of (br_cache b) key = Some entry \<Longrightarrow> pi_now io < ie_expires_at entry \<Longrightarrow> map_of (live_cache io b request) key = Some entry"
  by (simp add: live_cache_def purge_cache_keeps)

lemma finish_message_cache:
  assumes "finish_message io b request ck part m = (b', r)"
  shows "br_cache b' = br_cache b \<or> (\<exists>k e. ck = Some k \<and> br_cache b' = AList.update k e (br_cache b))"
  using assms by (cases rule: finish_message_cases) (auto simp: same_data_def split: option.splits)

lemma store_message_cache:
  assumes "store_message io b request quota ck parsed = (b', r)"
  shows "br_cache b' = br_cache b \<or> (\<exists>k e. ck = Some k \<and> br_cache b' = AList.update k e (br_cache b))"
proof -
  obtain requested key val where parsed: "parsed = (requested, key, val)" by (metis prod_cases3)
  obtain b1 allowed where quota: "(if quota \<and> req_flags request AND kFlagReplication = 0
      then AllowTopicBytes (pi_now io) b (req_topic request) (of_nat (length key + length val)) else (b, True)) = (b1, allowed)"
    by fastforce
  have b1: "br_cache b1 = br_cache b" using quota limits_same_data(1) by (auto simp: same_data_def split: if_splits)
  show ?thesis
  proof (cases "ResolvePartition (br_queues b) (req_topic request) requested key")
    case (Inl err)
    then show ?thesis using assms by (simp add: store_message_def parsed)
  next
    case (Inr part)
    note run = assms [unfolded store_message_def parsed prod.case Inr sum.case quota]
    obtain storage res where app: "Append (pi_storage io) (br_storage b1) (req_topic request) part key val = (storage, res)" by fastforce
    show ?thesis
    proof (cases "allowed \<and> \<not> isl res")
      case True
      then obtain m where "res = Inr m" by (cases res) auto
      then have "finish_message io (b1\<lparr>br_storage := storage,
          br_repl := RecordLocalOffset (br_repl b1) (PartitionKey (req_topic request) part) (msg_offset m)\<rparr>) request ck part m = (b', r)"
        using run True app by (simp add: Let_def)
      from finish_message_cache [OF this] b1 show ?thesis by simp
    next
      case False
      then show ?thesis using run app b1 by (cases allowed; cases res) auto
    qed
  qed
qed

lemma HandleProduce_cache:
  assumes "HandleProduce io b request rate quota = Some (b', r)" and "map_of (br_cache b) key = Some entry"
    and "pi_now io < ie_expires_at entry"
  shows "map_of (br_cache b') key = Some entry"
proof -
  obtain b1 x where a: "admitted io b request rate = (b1, x)" by fastforce
  have b1: "br_cache b1 = br_cache b" using admitted_same_data [OF a] by (simp add: same_data_def)
  define b2 where "b2 = b1\<lparr>br_cache := live_cache io b1 request\<rparr>"
  have b2: "map_of (br_cache b2) key = Some entry"
    using live_cache_keeps [of b1 key entry io request] assms b1 by (simp add: b2_def)
  have stored_entry: "map_of (br_cache b'') key = Some entry"
    if "produce_from io b2 request quota (produce_key request) (message_start request) = Some (b'', r')"
      "Option.bind (produce_key request) (map_of (br_cache b2)) = None" for b'' r'
  proof -
    obtain parsed where p: "parse_message (req_payload request) (message_start request) = Some parsed" using parse_message_defined by fastforce
    show ?thesis
    proof (cases parsed)
      case (Inl st)
      then show ?thesis using that p b2 by (simp add: produce_from_def)
    next
      case (Inr msg)
      then have "store_message io b2 request quota (produce_key request) msg = (b'', r')" using that p by (simp add: produce_from_def)
      from store_message_cache [OF this] that(2) b2 show ?thesis by (auto simp: map_of_update)
    qed
  qed
  show ?thesis
    using assms(1,2) a b1 b2 stored_entry [of b' r] unfolding HandleProduce_eq b2_def
    by (auto simp: Let_def split: option.splits if_splits)
qed

section \<open>Consumer offsets\<close>

lemma committed_commit:
  "committed (commit_offset grp topic part off offsets) g t p =
    (if g = grp \<and> t = topic \<and> p = part then Some off else committed offsets g t p)"
  by (induction offsets) (auto simp: committed_def same_offset_def)

definition restarted :: "broker \<Rightarrow> broker" where
  "restarted b = fst (Broker_Open (good_io 0 0) good_load_io good_load_io
     (new_Broker (se_config (br_storage b)) (se_disk (br_storage b)) (br_metadata_files b) (br_offset_files b) 0))"

lemma HandleCommitOffset_run:
  assumes "req_payload request = Put16 (of_nat (length grp)) @ grp @ Put32 part @ Put64 off"
    and "0 < length grp" and "length grp < 65536" and "req_topic request \<noteq> []"
    and "ResolvePartition (br_queues b) (req_topic request) part [] = Inr resolved"
  shows "HandleCommitOffset io b request =
    (let offsets = commit_offset grp (req_topic request) resolved off (br_offsets b) in
     case ConsumerOffsetStore_Save (bi_save_offsets io) (br_offset_files b) offsets of
       (files, Inl err) \<Rightarrow> reply (b\<lparr>br_offsets := offsets, br_offset_files := files\<rparr>) request kStorageError
     | (files, Inr _) \<Rightarrow> reply (b\<lparr>br_offsets := offsets, br_offset_files := files\<rparr>) request kOk)"
proof -
  have u: "unat (of_nat (length grp) :: u16) = length grp" using assms(3) by (intro unat_of_nat_fits) simp
  show ?thesis
    using assms u by (simp add: HandleCommitOffset_def Take_def Get16_def Get32_def Get64_def substr_def Let_def)
qed

text \<open>C23: An offset that was committed with an OK is the one the group's next offset query is answered with; no other
  group, topic or partition is affected; and the broker that is opened again from the same files has every
  committed offset.\<close>

theorem committed_offset_is_found:
  assumes "req_payload request = Put16 (of_nat (length grp)) @ grp @ Put32 part @ Put64 off"
    and "0 < length grp" and "length grp < 65536" and "req_topic request \<noteq> []"
    and "ResolvePartition (br_queues b) (req_topic request) part [] = Inr resolved"
    and "HandleCommitOffset io b request = Some (b', r)" and "resp_status r = kOk"
    and "query = request\<lparr>req_payload := Put16 (of_nat (length grp)) @ grp @ Put32 part\<rparr>"
    and "snd (TopicMetadataStore_Load good_load_io (br_metadata_files b)) = Inr ()"
    and "snd (ReplaceTopics [] (fst (TopicMetadataStore_Load good_load_io (br_metadata_files b)))) = Inr ()"
  shows "HandleOffsetFetch b' query = Some (b', MakeResponse query kOk (Put64 off)) \<and>
    committed (br_offsets b') g t p = (if g = grp \<and> t = req_topic request \<and> p = resolved then Some off else committed (br_offsets b) g t p) \<and>
    br_opened (restarted b') \<and> br_offsets (restarted b') = br_offsets b'"
proof -
  let ?offsets = "commit_offset grp (req_topic request) resolved off (br_offsets b)"
  have u: "unat (of_nat (length grp) :: u16) = length grp" using assms(3) by (intro unat_of_nat_fits) simp
  obtain files res where save: "ConsumerOffsetStore_Save (bi_save_offsets io) (br_offset_files b) ?offsets = (files, res)" by fastforce
  have res: "res = Inr ()" and b': "b' = b\<lparr>br_offsets := ?offsets, br_offset_files := files\<rparr>"
    using assms(6,7) unfolding HandleCommitOffset_run [OF assms(1-5)] Let_def save
    by (cases res; auto simp: MakeResponse_def)+
  have fits: "length ?offsets \<le> kMaxOffsets" "\<forall>c \<in> set ?offsets. offset_fits c"
    and main: "fs_main files = Some (offsets_header (length ?offsets) @ concat (map offset_record ?offsets))"
    using ConsumerOffsetStore_Save_Inr [of "bi_save_offsets io" "br_offset_files b" ?offsets "()"]
      ConsumerOffsetStore_Save_main [of "bi_save_offsets io" "br_offset_files b" ?offsets "()"] save res by auto
  have load: "ConsumerOffsetStore_Load good_load_io files = (?offsets, Inr ())"
    by (rule ConsumerOffsetStore_Load_file [OF fits main])
  have "HandleOffsetFetch b' query = Some (b', MakeResponse query kOk (Put64 off))"
    using assms(2-5,8) u by (simp add: HandleOffsetFetch_def b' Get16_def Get32_def substr_def Let_def committed_commit)
  moreover obtain topics queues where "TopicMetadataStore_Load good_load_io (br_metadata_files b) = (topics, Inr ())"
    "ReplaceTopics [] topics = (queues, Inr ())"
    using assms(9,10) by (metis prod.collapse fst_conv)
  then have "br_opened (restarted b') \<and> br_offsets (restarted b') = ?offsets"
    by (simp add: restarted_def Broker_Open_def new_Broker_def b' load Open_def new_engine_def good_io_def Let_def)
  ultimately show ?thesis by (simp add: b' committed_commit)
qed

definition offset_request :: Request where
  "offset_request = default_Request\<lparr>req_command := kCommitOffset, req_topic := [116],
     req_payload := Put16 1 @ [103] @ Put32 0 @ Put64 5\<rparr>"

theorem committed_offset_is_found_witness:
  "\<exists>b'. HandleCommitOffset demo_io log_broker offset_request = Some (b', MakeResponse offset_request kOk []) \<and>
     committed (br_offsets (restarted b')) [103] [116] 0 = Some 5"
proof -
  have route: "ResolvePartition (br_queues log_broker) (req_topic offset_request) 0 [] = Inr 0"
    by (simp add: log_broker_def offset_request_def ResolvePartition_def kAutoPartition_def)
  have payload: "req_payload offset_request = Put16 (of_nat (length [103::byte])) @ [103] @ Put32 0 @ Put64 5"
    "req_topic offset_request \<noteq> []"
    by (simp_all add: offset_request_def)
  have files: "br_metadata_files log_broker = demo_files" "br_offsets log_broker = []"
    by (simp_all add: log_broker_def demo_broker_def ConfigureClientAuth_def ConfigureReplication_def Broker_Open_def new_Broker_def
        Open_def good_io_def TopicMetadataStore_Load_def ConsumerOffsetStore_Load_def good_load_io_def new_engine_def
        demo_files_def ReplaceTopics_def ListTopics_def)
  have save: "snd (ConsumerOffsetStore_Save good_save_io f (commit_offset [103] [116] 0 5 [])) = Inr ()" for f
    by (simp add: ConsumerOffsetStore_Save_Inr good_save_io_def offset_fits_def kMaxOffsets_def)
  have run: "\<exists>b'. HandleCommitOffset demo_io log_broker offset_request = Some (b', MakeResponse offset_request kOk [])"
    unfolding HandleCommitOffset_run [OF payload(1) _ _ payload(2) route, simplified]
    using save [of "br_offset_files log_broker"]
    by (auto simp: Let_def demo_io_def files offset_request_def split: prod.split sum.split)
  then obtain b' where b': "HandleCommitOffset demo_io log_broker offset_request = Some (b', MakeResponse offset_request kOk [])" by blast
  have "committed (br_offsets (restarted b')) [103] [116] 0 = Some 5"
    using committed_offset_is_found [OF payload(1) _ _ payload(2) route b' _ refl, of "[103]" "[116]" 0]
    by (simp add: files MakeResponse_def demo_files_def TopicMetadataStore_Load_def good_load_io_def ReplaceTopics_def offset_request_def)
  with b' show ?thesis by blast
qed

end
