(* ===== verification/Broker_Types.thy ===== *)
theory Broker_Types
  imports Broker_Log
begin

text \<open>
  The well-formedness of the broker's state and of its responses, kept by every handler: the topic table, the
  consumer groups, the idempotency cache and the committed offsets stay consistent, and every response
  carries the protocol version, a status of the protocol and the id of its request. \<open>ensures\<close> is a
  postcondition of a handler, with one introduction rule per construct handlers are written in.
\<close>

section \<open>Postconditions\<close>

definition ensures :: "'a option \<Rightarrow> ('a \<Rightarrow> bool) \<Rightarrow> bool" where
  "ensures result post \<longleftrightarrow> (\<forall>x. result = Some x \<longrightarrow> post x)"

named_theorems ensuresI \<open>introduction rules for the postcondition of a handler\<close>

lemma ensures_bind [ensuresI]: "(\<And>x. a = Some x \<Longrightarrow> ensures (f x) post) \<Longrightarrow> ensures (Option.bind a f) post"
  by (cases a) (simp_all add: ensures_def)

lemma ensures_if [ensuresI]: "(P \<Longrightarrow> ensures x post) \<Longrightarrow> (\<not> P \<Longrightarrow> ensures y post) \<Longrightarrow> ensures (if P then x else y) post"
  by simp

lemma ensures_case_option [ensuresI]:
  "(a = None \<Longrightarrow> ensures x post) \<Longrightarrow> (\<And>v. a = Some v \<Longrightarrow> ensures (f v) post) \<Longrightarrow> ensures (case a of None \<Rightarrow> x | Some v \<Rightarrow> f v) post"
  by (cases a) simp_all

lemma ensures_case_sum [ensuresI]:
  "(\<And>v. a = Inl v \<Longrightarrow> ensures (f v) post) \<Longrightarrow> (\<And>v. a = Inr v \<Longrightarrow> ensures (g v) post) \<Longrightarrow> ensures (case_sum f g a) post"
  by (cases a) simp_all

lemma ensures_case_prod [ensuresI]: "(\<And>x y. a = (x, y) \<Longrightarrow> ensures (f x y) post) \<Longrightarrow> ensures (case_prod f a) post"
  by (cases a) simp_all

lemma ensures_case_bool [ensuresI]: "(a \<Longrightarrow> ensures x post) \<Longrightarrow> (\<not> a \<Longrightarrow> ensures y post) \<Longrightarrow> ensures (case_bool x y a) post"
  by (cases a) simp_all

lemma ensures_Let [ensuresI]: "ensures (f v) post \<Longrightarrow> ensures (Let v f) post"
  by (simp add: Let_def)

lemma ensures_Some [ensuresI]: "post x \<Longrightarrow> ensures (Some x) post"
  by (auto simp: ensures_def)

lemma ensuresD: "ensures result post \<Longrightarrow> result = Some x \<Longrightarrow> post x"
  by (simp add: ensures_def)

section \<open>Well-formed states and responses\<close>

definition response_ok :: "Response \<Rightarrow> bool" where
  "response_ok r \<longleftrightarrow> resp_version r = kCurrentVersion \<and> wf_status (resp_status r) \<and> resp_status r \<noteq> kInternalError \<and> resp_flags r = 0"

text \<open>A cached answer is an OK with a partition and an offset.\<close>

definition cache_ok :: "(bytes, IdempotencyEntry) umap \<Rightarrow> bool" where
  "cache_ok cache \<longleftrightarrow> umap_ok cache \<and>
     (\<forall>entry \<in> snd ` set cache. response_ok (ie_response entry) \<and> length (resp_payload (ie_response entry)) = 12)"

definition broker_typed :: "broker \<Rightarrow> bool" where
  "broker_typed b \<longleftrightarrow> br_opened b \<and> queue_ok (br_queues b) \<and> groups_ok (br_groups b) \<and> cache_ok (br_cache b)"

definition replies :: "Request \<Rightarrow> broker \<Rightarrow> Response \<Rightarrow> bool" where
  "replies request b r \<longleftrightarrow> broker_typed b \<and> response_ok r \<and> resp_id r = req_id request"

lemma response_ok_MakeResponse [simp]:
  "response_ok (MakeResponse request st payload) \<longleftrightarrow> wf_status st \<and> st \<noteq> kInternalError"
  by (simp add: response_ok_def MakeResponse_def default_Response_def)

lemma MakeResponse_parts [simp]:
  "resp_id (MakeResponse request st payload) = req_id request" "resp_payload (MakeResponse request st payload) = payload"
  "resp_status (MakeResponse request st payload) = st"
  by (simp_all add: MakeResponse_def)

lemma response_ok_id [simp]: "response_ok (r\<lparr>resp_id := n\<rparr>) = response_ok r"
  by (simp add: response_ok_def)

lemma wf_routes [simp]:
  "wf_status (route_status err)" "wf_status (read_status err)" "route_status err \<noteq> kInternalError" "read_status err \<noteq> kInternalError"
  by (simp_all add: route_status_def read_status_def)

lemmas typed_defs = replies_def broker_typed_def

section \<open>What the calls keep\<close>

named_theorems typedD \<open>results of the operations the handlers call, from well-formed states\<close>

lemma topics_kept [typedD]:
  "CreateTopic t name n = (t', r) \<Longrightarrow> queue_ok t \<Longrightarrow> queue_ok t'"
  "DeleteTopic t name = (t', r') \<Longrightarrow> queue_ok t \<Longrightarrow> queue_ok t'"
  using CreateTopic_ok [of t name n] DeleteTopic_ok [of t name] by simp_all

lemma groups_kept [typedD]:
  "Join g grp member_id topics now = (g', joined) \<Longrightarrow> groups_ok g \<Longrightarrow> groups_ok g'"
  "Heartbeat g grp member_id now = (g', alive) \<Longrightarrow> groups_ok g \<Longrightarrow> groups_ok g'"
  using Join_ok [of g grp member_id topics now] Heartbeat_ok [of g grp member_id now] by simp_all

lemmas kept_intros = CreateTopic_ok DeleteTopic_ok SetPartitions_ok Expire_ok

lemma cache_ok_filter: "cache_ok cache \<Longrightarrow> cache_ok (filter P cache)"
  by (auto simp: cache_ok_def umap_ok_filter)

lemma cache_ok_purge: "cache_ok cache \<Longrightarrow> cache_ok (purge_cache now cache)"
  by (simp add: purge_cache_def cache_ok_filter)

lemma cache_ok_drop: "cache_ok cache \<Longrightarrow> cache_ok (drop_topic_entries topic cache)"
  by (simp add: drop_topic_entries_def cache_ok_filter)

lemma cache_ok_lookup:
  "cache_ok cache \<Longrightarrow> map_of cache key = Some entry \<Longrightarrow> response_ok (ie_response entry) \<and> length (resp_payload (ie_response entry)) = 12"
  by (force simp: cache_ok_def dest: map_of_SomeD)

lemma cache_ok_update:
  assumes "cache_ok cache" and "response_ok (ie_response entry)" and "length (resp_payload (ie_response entry)) = 12"
  shows "cache_ok (AList.update key entry cache)"
proof -
  have "umap_ok (AList.update key entry cache)" using assms(1) by (simp add: cache_ok_def umap_ok_def distinct_update)
  moreover have "snd ` set (AList.update key entry cache) \<subseteq> snd ` set cache \<union> {entry}"
    by (induction cache) (auto split: if_splits)
  ultimately show ?thesis using assms unfolding cache_ok_def by blast
qed

text \<open>The operations that touch none of the three tables.\<close>

definition same_tables :: "broker \<Rightarrow> broker \<Rightarrow> bool" where
  "same_tables b b' \<longleftrightarrow> br_opened b' = br_opened b \<and> br_queues b' = br_queues b \<and> br_groups b' = br_groups b \<and> br_cache b' = br_cache b"

lemma same_tables_typed: "same_tables b b' \<Longrightarrow> broker_typed b' = broker_typed b"
  by (simp add: same_tables_def broker_typed_def)

lemma limits_kept:
  "AllowProduceRequest now b = (b', ok) \<Longrightarrow> same_tables b b'" "AllowTopicBytes now b topic count = (b', ok) \<Longrightarrow> same_tables b b'"
  "Replicate io b topic part m = (b', ok) \<Longrightarrow> same_tables b b'"
  by (auto simp: same_tables_def AllowProduceRequest_def AllowTopicBytes_def Replicate_def Let_def split: if_splits prod.splits)

section \<open>Handlers\<close>

text \<open>The tables a handler leaves alone, and those it updates, decide well-formedness.\<close>

lemmas typed_rules = kept_intros cache_ok_drop cache_ok_purge

lemma HandleCreateTopic_replies: "broker_typed b \<Longrightarrow> ensures (HandleCreateTopic io b request) (case_prod (replies request))"
  unfolding HandleCreateTopic_def
  by (intro ensuresI) (auto simp: typed_defs dest: typedD intro: typed_rules)

lemma HandleDeleteTopic_replies: "broker_typed b \<Longrightarrow> ensures (HandleDeleteTopic io b request) (case_prod (replies request))"
  unfolding HandleDeleteTopic_def
  by (intro ensuresI) (auto simp: typed_defs dest: typedD intro: typed_rules)

lemma HandleListTopic_replies: "broker_typed b \<Longrightarrow> ensures (HandleListTopic b request) (case_prod (replies request))"
  unfolding HandleListTopic_def by (intro ensuresI) (auto simp: typed_defs)

lemma HandleMetrics_replies: "broker_typed b \<Longrightarrow> ensures (HandleMetrics b request) (case_prod (replies request))"
  unfolding HandleMetrics_def by (intro ensuresI) (auto simp: typed_defs)

lemma HandleJoinGroup_replies: "broker_typed b \<Longrightarrow> ensures (HandleJoinGroup io b request) (case_prod (replies request))"
  unfolding HandleJoinGroup_def
  by (intro ensuresI) (auto simp: typed_defs dest: typedD)

lemma HandleSyncGroup_replies: "broker_typed b \<Longrightarrow> ensures (HandleSyncGroup b request) (case_prod (replies request))"
  unfolding HandleSyncGroup_def by (intro ensuresI) (auto simp: typed_defs)

lemma HandleHeartbeat_replies: "broker_typed b \<Longrightarrow> ensures (HandleHeartbeat io b request) (case_prod (replies request))"
  unfolding HandleHeartbeat_def
  by (intro ensuresI) (auto simp: typed_defs intro: typed_rules typedD)

lemma HandleCommitOffset_replies: "broker_typed b \<Longrightarrow> ensures (HandleCommitOffset io b request) (case_prod (replies request))"
  unfolding HandleCommitOffset_def by (intro ensuresI) (auto simp: typed_defs)

lemma HandleOffsetFetch_replies: "broker_typed b \<Longrightarrow> ensures (HandleOffsetFetch b request) (case_prod (replies request))"
  unfolding HandleOffsetFetch_def by (intro ensuresI) (auto simp: typed_defs)

section \<open>The data path\<close>

lemma parsers_refuse:
  "parse_message payload position = Some (Inl st) \<Longrightarrow> st = kBadRequest"
  "parse_fetch payload = Some (Inl st) \<Longrightarrow> st = kBadRequest"
  "parse_append_header payload = Some (Inl st) \<Longrightarrow> st = kBadRequest"
  by (auto simp: parse_message_def parse_fetch_def parse_append_header_def Let_def bind_eq_Some_conv split: if_splits option.splits)

lemma parse_records_refuses: "parse_records payload count position messages = Some (Inl st) \<Longrightarrow> st = kBadRequest"
  by (induction payload count position messages rule: parse_records.induct)
    (auto simp: bind_eq_Some_conv split: if_splits)

lemma finish_message_replies:
  assumes "broker_typed b"
  shows "replies request (fst (finish_message io b request cache_key part m)) (snd (finish_message io b request cache_key part m))"
proof -
  obtain b1 ok where r: "(if req_flags request AND kAckMask = kAckAll then Replicate io b (req_topic request) part m else (b, True)) = (b1, ok)"
    by fastforce
  then have "same_tables b b1" by (auto simp: same_tables_def dest: limits_kept(3) split: if_splits)
  with assms have "broker_typed b1" by (simp add: same_tables_typed)
  then show ?thesis unfolding finish_message_def r
    by (auto simp: replies_def broker_typed_def Let_def intro!: cache_ok_update split: bool.split option.split)
qed

lemma store_message_replies:
  assumes "broker_typed b"
  shows "replies request (fst (store_message io b request quota cache_key parsed)) (snd (store_message io b request quota cache_key parsed))"
proof -
  obtain requested_partition key val where p: "parsed = (requested_partition, key, val)" by (cases parsed)
  obtain b1 ok where r: "(if quota \<and> req_flags request AND kFlagReplication = 0
      then AllowTopicBytes (pi_now io) b (req_topic request) (of_nat (length key + length val)) else (b, True)) = (b1, ok)"
    by fastforce
  then have "same_tables b b1" by (auto simp: same_tables_def dest: limits_kept(2) split: if_splits)
  with assms have b1: "broker_typed b1" by (simp add: same_tables_typed)
  then have stored: "broker_typed (b1\<lparr>br_storage := storage\<rparr>)" "broker_typed (b1\<lparr>br_storage := storage, br_repl := s\<rparr>)" for storage s
    by (simp_all add: broker_typed_def)
  show ?thesis unfolding store_message_def p prod.case r
    using assms b1 by (auto simp: replies_def [where r = "MakeResponse _ _ _"] stored Let_def intro: finish_message_replies
        split: sum.split bool.split prod.split)
qed

lemma store_message_result: "store_message io b request quota cache_key parsed = (b', r) \<Longrightarrow> broker_typed b \<Longrightarrow> replies request b' r"
  using store_message_replies [of b request io quota cache_key parsed] by simp

lemma produce_from_replies: "broker_typed b \<Longrightarrow> ensures (produce_from io b request quota cache_key position) (case_prod (replies request))"
  unfolding produce_from_def
  by (intro ensuresI) (auto simp: replies_def [where r = "MakeResponse _ _ _"] dest: parsers_refuse store_message_result split: sum.split)

lemma HandleProduce_replies:
  assumes "broker_typed b"
  shows "ensures (HandleProduce io b request rate quota) (case_prod (replies request))"
proof -
  obtain b1 ok where r: "(if rate \<and> req_flags request AND kFlagReplication = 0 then AllowProduceRequest (pi_now io) b else (b, True)) = (b1, ok)"
    by fastforce
  then have "same_tables b b1" by (auto simp: same_tables_def dest: limits_kept(1) split: if_splits)
  with assms have b1: "broker_typed b1" by (simp add: same_tables_typed)
  let ?b2 = "b1\<lparr>br_cache := purge_cache (pi_now io) (br_cache b1)\<rparr>"
  have b2: "broker_typed ?b2" using b1 by (simp add: broker_typed_def cache_ok_purge)
  have hit: "replies request ?b2 (ie_response entry\<lparr>resp_id := req_id request\<rparr>)" if "map_of (br_cache ?b2) key = Some entry" for key entry
    using cache_ok_lookup [of "br_cache ?b2"] b2 that by (auto simp: replies_def broker_typed_def)
  show ?thesis unfolding HandleProduce_def Let_def r prod.case
    using assms b1 b2 hit
    by (intro ensuresI) (auto simp: replies_def [where r = "MakeResponse _ _ _"] intro: produce_from_replies)
qed

text \<open>Cached answers have twelve bytes, so the internal error of the batch parser is never reached.\<close>

lemma parse_batch_refuses:
  "\<forall>r. Some r \<in> set results \<longrightarrow> length (resp_payload r) = 12 \<Longrightarrow>
   ensures (parse_batch request producer_id first_sequence i results position new_bytes) (\<lambda>x. \<forall>st. x = Inl st \<longrightarrow> st = kBadRequest)"
proof (induction results arbitrary: i position new_bytes)
  case Nil
  show ?case by (simp add: ensures_def)
next
  case (Cons result results)
  then have "ensures (parse_batch request producer_id first_sequence i' results position' new_bytes')
      (\<lambda>x. \<forall>st. x = Inl st \<longrightarrow> st = kBadRequest)" for i' position' new_bytes' by simp
  from this [THEN ensuresD] Cons.prems show ?case unfolding parse_batch.simps
    by (intro ensuresI) (auto simp: map_sum_def split: sum.splits)
qed

lemma cached_results_length:
  assumes "cache_ok cache" and "Some r \<in> set (cached_results cache request producer_id first_sequence count)"
  shows "length (resp_payload r) = 12"
  using assms(2) cache_ok_lookup [OF assms(1)] by (auto simp: cached_results_def eq_commute [of "Some _" "map_option _ _"])

lemma run_batch_typed:
  "run_batch io i items b payload = Some (b', answer) \<Longrightarrow> broker_typed b \<Longrightarrow>
   broker_typed b' \<and> (\<forall>st. answer = Inl st \<longrightarrow> wf_status st \<and> st \<noteq> kInternalError)"
proof (induction io i items b payload rule: run_batch.induct)
  case (3 io i request items b payload)
  then obtain b1 r where r: "HandleProduce (io i) b request False False = Some (b1, r)"
    by (auto simp: bind_eq_Some_conv)
  from ensuresD [OF HandleProduce_replies [OF "3.prems"(2)] r] have "broker_typed b1" "response_ok r"
    by (simp_all add: replies_def)
  then show ?case using "3.prems"(1) "3.IH" [OF r refl] r by (auto simp: response_ok_def split: if_splits)
qed auto

lemma HandleProduceBatch_replies:
  assumes "broker_typed b"
  shows "ensures (HandleProduceBatch io b request) (case_prod (replies request))"
proof -
  obtain b1 ok where r: "(if req_flags request AND kFlagReplication = 0 then AllowProduceRequest (bi_now io) b else (b, True)) = (b1, ok)"
    by fastforce
  then have "same_tables b b1" by (auto simp: same_tables_def dest: limits_kept(1) split: if_splits)
  with assms have b1: "broker_typed b1" by (simp add: same_tables_typed)
  let ?b2 = "b1\<lparr>br_cache := purge_cache (bi_now io) (br_cache b1)\<rparr>"
  have b2: "broker_typed ?b2" using b1 by (simp add: broker_typed_def cache_ok_purge)
  have parsed: "st = kBadRequest" if "parse_batch request producer_id first_sequence 0
      (cached_results (br_cache ?b2) request producer_id first_sequence count) position 0 = Some (Inl st)"
    for st producer_id first_sequence count position
    using ensuresD [OF parse_batch_refuses that] cached_results_length [of "br_cache ?b2"] b2 by (auto simp: broker_typed_def)
  have b3: "broker_typed b3" if "(if req_flags request AND kFlagReplication = 0
      then AllowTopicBytes (bi_now io) ?b2 (req_topic request) n else (?b2, True)) = (b3, admitted)" for b3 n admitted
  proof -
    from that have "same_tables ?b2 b3" by (auto simp: same_tables_def dest: limits_kept(2) split: if_splits)
    with b2 show ?thesis by (simp add: same_tables_typed)
  qed
  show ?thesis unfolding HandleProduceBatch_def Let_def r prod.case
    using assms b1 b2
    by (intro ensuresI) (auto simp: replies_def [where r = "MakeResponse _ _ _"] dest: parsed [simplified] b3 run_batch_typed split: sum.split)
qed

lemma HandleFetch_replies: "broker_typed b \<Longrightarrow> ensures (HandleFetch io b request) (case_prod (replies request))"
  unfolding HandleFetch_def by (intro ensuresI) (auto simp: typed_defs dest: parsers_refuse)

lemma HandleReplicaFetch_replies: "broker_typed b \<Longrightarrow> ensures (HandleReplicaFetch io b request) (case_prod (replies request))"
  unfolding HandleReplicaFetch_def by (intro ensuresI) (auto simp: typed_defs)

lemma HandleReplicaVote_replies: "broker_typed b \<Longrightarrow> ensures (HandleReplicaVote io b request) (case_prod (replies request))"
  unfolding HandleReplicaVote_def by (intro ensuresI) (auto simp: typed_defs)

lemma apply_append_replies:
  "broker_typed b \<Longrightarrow> replies request (fst (apply_append io b request header resolved messages)) (snd (apply_append io b request header resolved messages))"
  by (auto simp: apply_append_def typed_defs Let_def split: prod.split sum.split bool.split)

lemma apply_append_result:
  "apply_append io b request header resolved messages = (b', r) \<Longrightarrow> broker_typed b \<Longrightarrow> replies request b' r"
  using apply_append_replies [of b request io header resolved messages] by simp

lemma HandleReplicaAppend_replies: "broker_typed b \<Longrightarrow> ensures (HandleReplicaAppend io b request) (case_prod (replies request))"
  unfolding HandleReplicaAppend_def
  by (intro ensuresI) (auto simp: replies_def [where r = "MakeResponse _ _ _"] dest: apply_append_result
      parsers_refuse parse_records_refuses split: if_splits)

lemma dispatch_replies: "broker_typed b \<Longrightarrow> ensures (dispatch io b request command) (case_prod (replies request))"
  by (cases command)
    (simp_all add: HandleCreateTopic_replies HandleDeleteTopic_replies HandleListTopic_replies HandleMetrics_replies
      HandleJoinGroup_replies HandleSyncGroup_replies HandleHeartbeat_replies HandleCommitOffset_replies HandleOffsetFetch_replies
      HandleProduce_replies HandleProduceBatch_replies HandleFetch_replies HandleReplicaFetch_replies HandleReplicaVote_replies
      HandleReplicaAppend_replies ensures_Some replies_def)

section \<open>Requests and turns\<close>

lemma authenticate_typed:
  "authenticate b r = Some (Inl st) \<Longrightarrow> wf_status st \<and> st \<noteq> kInternalError"
  "authenticate b r = Some (Inr n) \<Longrightarrow> req_id n = req_id r"
  by (auto simp: authenticate_def ValidateReplicationRequest_def ValidateClientAuth_def Let_def bind_eq_Some_conv
      split: if_splits option.splits)

lemma Handle_replies:
  assumes "broker_typed b"
  shows "ensures (Handle io b request) (case_prod (replies request))"
proof -
  let ?b = "b\<lparr>br_request_count := br_request_count b + 1\<rparr>"
  have "broker_typed ?b" using assms by (simp add: broker_typed_def)
  moreover from this have "broker_typed (count_command c ?b)" for c by (simp add: count_command_def broker_typed_def)
  then have "replies request b' r" if "dispatch io (count_command c ?b) n (req_command n) = Some (b', r)"
    "authenticate ?b request = Some (Inr n)" for b' r n c
    using ensuresD [OF dispatch_replies that(1)] authenticate_typed(2) [OF that(2)] by (simp add: replies_def)
  ultimately show ?thesis unfolding Handle_def Let_def
    by (intro ensuresI) (auto simp: replies_def broker_typed_def dest: authenticate_typed(1))
qed


lemma same_tables_trans: "same_tables a b \<Longrightarrow> same_tables b c \<Longrightarrow> same_tables a c"
  by (simp add: same_tables_def)

text \<open>A fold whose steps keep the tables keeps them.\<close>

lemma foldl_same_tables:
  assumes "\<And>acc x. same_tables (fst acc) (fst (f acc x))"
  shows "same_tables (fst acc) (fst (foldl f acc xs))"
proof (induction xs arbitrary: acc)
  case (Cons x xs)
  show ?case using same_tables_trans [OF assms Cons.IH] by simp
qed (simp add: same_tables_def)

lemma fetch_from_leaders_tables: "same_tables b (fst (fetch_from_leaders io b))"
proof -
  have "same_tables (fst acc) (fst (fetch_partition io peer acc tp))" for acc peer tp
    by (auto simp: same_tables_def fetch_partition_def Let_def split: prod.splits sum.splits option.splits)
  then have "same_tables (fst acc) (fst (foldl (fetch_partition io peer) acc tps))" for acc peer tps
    by (rule foldl_same_tables)
  then have "same_tables (fst acc) (fst (if rs_role (br_repl (fst acc)) = kFollower \<and> peer_leader peer
      then foldl (fetch_partition io peer) acc (topic_partition_pairs (fst acc)) else acc))" for acc :: "broker \<times> bool" and peer
    by (simp add: same_tables_def)
  from foldl_same_tables [OF this, of "(b, False)"] show ?thesis by (simp add: fetch_from_leaders_def)
qed

lemma leader_turn_tables: "same_tables b (leader_turn io b)"
proof -
  have "same_tables (fst acc) (fst (heartbeat_partition io peer acc tp))" for acc peer tp
    by (auto simp: same_tables_def heartbeat_partition_def Let_def split: prod.splits sum.splits)
  then have "same_tables (fst acc) (fst (foldl (heartbeat_partition io peer) acc tps))" for acc peer tps
    by (rule foldl_same_tables)
  then have "same_tables (fst acc) (fst (foldl (heartbeat_partition io peer) acc (topic_partition_pairs (fst acc))))" for acc peer
    by simp
  then have "same_tables (fst (b, 1 :: nat)) (fst (foldl (\<lambda>acc peer. foldl (heartbeat_partition io peer) acc (topic_partition_pairs (fst acc)))
      (b, 1) (br_peers b)))"
    by (rule foldl_same_tables)
  then show ?thesis by (auto simp: leader_turn_def same_tables_def split: prod.splits)
qed

lemma replication_turn_tables: "same_tables (snd st) (snd (replication_turn st io))"
  using fetch_from_leaders_tables [of "snd st" io] leader_turn_tables [of "snd st" io]
  by (auto simp: replication_turn_def follower_turn_def same_tables_def split: prod.splits if_splits)

section \<open>Every state of a running broker\<close>

text \<open>A broker opened on any directory and any disk, configured in any way, after any requests and turns of the
  replication thread, in any order.\<close>

inductive broker_reachable :: "broker \<Rightarrow> bool" where
  opened: "Broker_Open storage_io topics_io offsets_io (new_Broker config disk topic_files offset_files now) = (b, Inr ()) \<Longrightarrow>
    broker_reachable b"
| replication: "broker_reachable b \<Longrightarrow> broker_reachable (ConfigureReplication b node peers quorum follower token raft_disk)"
| client_auth: "broker_reachable b \<Longrightarrow> broker_reachable (ConfigureClientAuth b token authorization)"
| rate_limit: "broker_reachable b \<Longrightarrow> broker_reachable (ConfigureRateLimit b limit now)"
| topic_quota: "broker_reachable b \<Longrightarrow> broker_reachable (ConfigureTopicQuota b quota)"
| request: "broker_reachable b \<Longrightarrow> Handle io b request = Some (b', response) \<Longrightarrow> broker_reachable b'"
| turn: "broker_reachable b \<Longrightarrow> broker_reachable (snd (replication_turn (th, b) loop))"

lemma opened_typed:
  assumes "Broker_Open storage_io topics_io offsets_io (new_Broker config disk topic_files offset_files now) = (b, Inr ())"
  shows "broker_typed b"
proof -
  have "groups_ok (foldl (\<lambda>g t. SetPartitions g (tm_name t) (tm_partition_count t)) g ts)" if "groups_ok g" for g ts
    using that by (induction ts arbitrary: g) (simp_all add: SetPartitions_ok)
  moreover have "groups_ok (init_groups 30000)" by (rule groups_reachable_ok) (rule groups_reachable.start)
  moreover have "queue_ok (fst (ReplaceTopics [] ts))" for ts by (rule ReplaceTopics_ok) simp
  then have "queue_ok q" if "ReplaceTopics [] ts = (q, r)" for ts q r using that by (metis fst_conv)
  ultimately show ?thesis using assms
    by (auto simp: Broker_Open_def new_Broker_def broker_typed_def cache_ok_def Let_def split: prod.splits sum.splits)
qed

lemma broker_reachable_typed: "broker_reachable b \<Longrightarrow> broker_typed b"
proof (induction rule: broker_reachable.induct)
  case (request b io request b' response)
  from ensuresD [OF Handle_replies [OF request.IH] request.hyps(2)] show ?case by (simp add: replies_def)
next
  case (turn b th loop)
  from replication_turn_tables [of "(th, b)" loop] turn.IH show ?case by (simp add: same_tables_typed)
next
  case opened
  then show ?case by (rule opened_typed)
qed (simp_all add: broker_typed_def ConfigureReplication_def ConfigureClientAuth_def ConfigureRateLimit_def
      ConfigureTopicQuota_def)


lemma demo_broker_reachable: "broker_reachable demo_broker"
proof -
  let ?open = "Broker_Open (good_io 0 0) good_load_io good_load_io (new_Broker default_StorageConfig [] demo_files demo_files 0)"
  have "snd ?open = Inr ()"
    by (simp add: Broker_Open_def new_Broker_def Open_def new_engine_def good_io_def TopicMetadataStore_Load_def
        ConsumerOffsetStore_Load_def good_load_io_def demo_files_def ReplaceTopics_def ListTopics_def)
  then have "?open = (fst ?open, Inr ())" by (simp add: prod_eq_iff)
  then show ?thesis unfolding demo_broker_def by (intro broker_reachable.intros)
qed


end
