(* ===== verification/Broker_Retry.thy ===== *)
theory Broker_Retry
  imports Broker_Types "HOL-Library.Sublist"
begin

text \<open>
  Retries of an idempotent producer. An answer that was put into the idempotency cache stays there,
  whatever requests the broker handles and whatever turns its replication thread takes, until it
  expires or its topic is deleted; a retry is answered from it and writes nothing.
\<close>

section \<open>What keeps a cache entry\<close>

definition in_cache :: "bytes \<Rightarrow> IdempotencyEntry \<Rightarrow> broker \<Rightarrow> bool" where
  "in_cache key entry b \<longleftrightarrow> map_of (br_cache b) key = Some entry"

abbreviation keeps_entry :: "outcome \<Rightarrow> bytes \<Rightarrow> IdempotencyEntry \<Rightarrow> bool" where
  "keeps_entry out key entry \<equiv> ensures out (\<lambda>(b', _). in_cache key entry b')"

lemma same_tables_in_cache: "same_tables b b' \<Longrightarrow> in_cache key entry b' = in_cache key entry b"
  by (simp add: same_tables_def in_cache_def)

lemma quiet_handlers_keep:
  assumes "in_cache key entry b"
  shows "keeps_entry (HandleCreateTopic io b request) key entry" and "keeps_entry (HandleListTopic b request) key entry"
    and "keeps_entry (HandleMetrics b request) key entry" and "keeps_entry (HandleJoinGroup io b request) key entry"
    and "keeps_entry (HandleSyncGroup b request) key entry" and "keeps_entry (HandleHeartbeat io b request) key entry"
    and "keeps_entry (HandleCommitOffset io b request) key entry" and "keeps_entry (HandleOffsetFetch b request) key entry"
    and "keeps_entry (HandleFetch io b request) key entry" and "keeps_entry (HandleReplicaFetch io b request) key entry"
    and "keeps_entry (HandleReplicaVote io b request) key entry"
  using assms
  unfolding HandleCreateTopic_def HandleListTopic_def HandleMetrics_def HandleJoinGroup_def HandleSyncGroup_def
    HandleHeartbeat_def HandleCommitOffset_def HandleOffsetFetch_def HandleFetch_def HandleReplicaFetch_def HandleReplicaVote_def
  by (intro ensuresI; auto simp: in_cache_def)+

lemma apply_append_keeps:
  "apply_append io b request header resolved messages = (b', r) \<Longrightarrow> in_cache key entry b \<Longrightarrow> in_cache key entry b'"
  by (auto simp: apply_append_def in_cache_def Let_def split: prod.splits sum.splits bool.splits if_splits)

lemma HandleReplicaAppend_keeps:
  "in_cache key entry b \<Longrightarrow> keeps_entry (HandleReplicaAppend io b request) key entry"
  unfolding HandleReplicaAppend_def
  by (intro ensuresI) (auto dest: apply_append_keeps split: if_splits)

text \<open>A delete request drops the entries whose key begins with its topic.\<close>

definition drops_key :: "bytes \<Rightarrow> Request \<Rightarrow> bool" where
  "drops_key key request \<longleftrightarrow> req_command request = kDeleteTopic \<and> prefix (req_topic request @ [0x1F]) key"

lemma drop_topic_entries_keeps:
  assumes "\<not> prefix (topic @ [0x1F]) key" and "map_of cache key = Some entry"
  shows "map_of (drop_topic_entries topic cache) key = Some entry"
proof -
  have "take (length topic + 1) key \<noteq> topic @ [0x1F]" using assms(1) by (metis take_is_prefix)
  with assms(2) show ?thesis by (induction cache) (auto simp: drop_topic_entries_def split: if_splits)
qed

lemma HandleDeleteTopic_keeps:
  assumes "in_cache key entry b" and "\<not> prefix (req_topic request @ [0x1F]) key"
  shows "keeps_entry (HandleDeleteTopic io b request) key entry"
  using assms unfolding HandleDeleteTopic_def
  by (intro ensuresI) (auto simp: in_cache_def drop_topic_entries_keeps)

lemma HandleProduce_keeps:
  assumes "in_cache key entry b" and "pi_now io < ie_expires_at entry"
  shows "keeps_entry (HandleProduce io b request rate quota) key entry"
  using assms HandleProduce_cache [of io b request rate quota] by (auto simp: ensures_def in_cache_def)

lemma run_batch_keeps:
  "run_batch io i items b payload = Some (b', answer) \<Longrightarrow> in_cache key entry b \<Longrightarrow> \<forall>i. pi_now (io i) < ie_expires_at entry \<Longrightarrow>
   in_cache key entry b'"
proof (induction io i items b payload rule: run_batch.induct)
  case (3 io i request items b payload)
  then obtain b1 r where r: "HandleProduce (io i) b request False False = Some (b1, r)"
    by (auto simp: bind_eq_Some_conv)
  have "in_cache key entry b1" using ensuresD [OF HandleProduce_keeps r] "3.prems"(2,3) by auto
  then show ?case using "3.prems"(1,3) "3.IH" [OF r refl] r by (auto split: if_splits)
qed auto

lemma HandleProduceBatch_keeps:
  assumes b: "in_cache key entry b" and now: "bi_now io < ie_expires_at entry" "\<forall>i. pi_now (bi_produce io i) < ie_expires_at entry"
  shows "keeps_entry (HandleProduceBatch io b request) key entry"
proof -
  obtain b1 ok where r: "(if req_flags request AND kFlagReplication = 0 then AllowProduceRequest (bi_now io) b else (b, True)) = (b1, ok)"
    by fastforce
  then have "same_tables b b1" by (auto simp: same_tables_def dest: limits_kept(1) split: if_splits)
  with b have b1: "in_cache key entry b1" by (simp add: same_tables_in_cache)
  let ?b2 = "b1\<lparr>br_cache := purge_cache (bi_now io) (br_cache b1)\<rparr>"
  have b2: "in_cache key entry ?b2" using b1 now by (simp add: in_cache_def purge_cache_keeps)
  have b3: "in_cache key entry b3" if "(if req_flags request AND kFlagReplication = 0
      then AllowTopicBytes (bi_now io) ?b2 (req_topic request) n else (?b2, True)) = (b3, admitted)" for b3 n admitted
  proof -
    from that have "same_tables ?b2 b3" by (auto simp: same_tables_def dest: limits_kept(2) split: if_splits)
    with b2 show ?thesis by (simp add: same_tables_in_cache)
  qed
  show ?thesis unfolding HandleProduceBatch_def Let_def r prod.case
    using b b1 b2 now by (intro ensuresI) (auto dest: b3 run_batch_keeps)
qed

lemma dispatch_keeps:
  assumes "in_cache key entry b" and "bi_now io < ie_expires_at entry" and "\<forall>i. pi_now (bi_produce io i) < ie_expires_at entry"
    and "command = kDeleteTopic \<longrightarrow> \<not> prefix (req_topic request @ [0x1F]) key"
  shows "keeps_entry (dispatch io b request command) key entry"
  using assms
  by (cases command) (simp_all add: quiet_handlers_keep HandleReplicaAppend_keeps HandleDeleteTopic_keeps HandleProduce_keeps
      HandleProduceBatch_keeps ensures_Some)

lemma Handle_keeps:
  assumes b: "in_cache key entry b" and now: "bi_now io < ie_expires_at entry" "\<forall>i. pi_now (bi_produce io i) < ie_expires_at entry"
    and del: "\<not> drops_key key request"
  shows "keeps_entry (Handle io b request) key entry"
proof -
  let ?b = "b\<lparr>br_request_count := br_request_count b + 1\<rparr>"
  have b0: "in_cache key entry ?b" "in_cache key entry (count_command c ?b)" for c
    using b by (simp_all add: in_cache_def count_command_def)
  have "in_cache key entry b'" if "dispatch io (count_command c ?b) n (req_command n) = Some (b', r)"
    "authenticate ?b request = Some (Inr n)" for b' r n c
    using ensuresD [OF dispatch_keeps [OF b0(2) now] that(1)] authenticate_command [OF that(2)] del by (auto simp: drops_key_def)
  with b0 show ?thesis unfolding Handle_def Let_def
    by (intro ensuresI) (auto simp: in_cache_def)
qed

section \<open>Requests and turns of a running broker\<close>

datatype broker_event = Request_event broker_io Request | Turn_event replication_thread loop_io

text \<open>The state after a sequence of requests and turns of the replication thread.\<close>

fun broker_run :: "broker \<Rightarrow> broker_event list \<Rightarrow> broker option" where
  "broker_run b [] = Some b"
| "broker_run b (Request_event io request # events) =
    (case Handle io b request of None \<Rightarrow> None | Some (b', _) \<Rightarrow> broker_run b' events)"
| "broker_run b (Turn_event th loop # events) = broker_run (snd (replication_turn (th, b) loop)) events"

text \<open>The event happens before the given time and does not drop the key.\<close>

fun event_keeps :: "int \<Rightarrow> bytes \<Rightarrow> broker_event \<Rightarrow> bool" where
  "event_keeps until key (Request_event io request) \<longleftrightarrow>
     bi_now io < until \<and> (\<forall>i. pi_now (bi_produce io i) < until) \<and> \<not> drops_key key request"
| "event_keeps until key (Turn_event th loop) \<longleftrightarrow> True"

lemma broker_run_keeps:
  "broker_run b events = Some b' \<Longrightarrow> in_cache key entry b \<Longrightarrow> list_all (event_keeps (ie_expires_at entry) key) events \<Longrightarrow>
   in_cache key entry b'"
proof (induction b events rule: broker_run.induct)
  case (2 b io request events)
  then obtain b1 r where h: "Handle io b request = Some (b1, r)" and run: "broker_run b1 events = Some b'"
    by (auto split: option.splits)
  have "in_cache key entry b1" using ensuresD [OF Handle_keeps h] "2.prems" by auto
  with "2.IH" [OF h refl run] "2.prems" show ?case by simp
next
  case (3 b th loop events)
  then show ?case using same_tables_in_cache [OF replication_turn_tables [of "(th, b)" loop]] by simp
qed simp

section \<open>Retries\<close>

text \<open>The first OK puts its answer into the cache, whatever the storage did.\<close>

lemma store_message_caches:
  assumes "store_message io b request quota (Some key) parsed = (b', r)" and "resp_status r = kOk"
  shows "in_cache key \<lparr>ie_response = r, ie_expires_at = pi_done io + 300000\<rparr> b'"
  using assms
  by (auto simp: store_message_def finish_message_def in_cache_def Let_def map_of_update
      split: prod.splits sum.splits bool.splits if_splits)

lemma HandleProduce_caches:
  assumes run: "HandleProduce io b request rate quota = Some (b', r)" and ok: "resp_status r = kOk"
    and key: "produce_key request = Some key" and miss: "map_of (live_cache io b request) key = None"
  shows "in_cache key \<lparr>ie_response = r, ie_expires_at = pi_done io + 300000\<rparr> b'"
proof -
  obtain b1 x where a: "admitted io b request rate = (b1, x)" by fastforce
  have d: "same_data b b1" by (rule admitted_same_data [OF a])
  have live: "live_cache io b1 request = live_cache io b request" using d by (simp add: live_cache_def same_data_def)
  have meta: "\<not> (req_flags request AND kFlagProducerMetadata \<noteq> 0 \<and> length (req_payload request) < 16)"
    using key by (auto simp: produce_key_def split: if_splits)
  have none: "x = None"
  proof (rule ccontr)
    assume "x \<noteq> None"
    then obtain st where x: "x = Some st" by auto
    then have "st \<noteq> kOk" using a by (auto simp: admitted_def split: if_splits prod.splits)
    with run ok a x show False by (auto simp: HandleProduce_eq)
  qed
  define b2 where "b2 = b1\<lparr>br_cache := live_cache io b request\<rparr>"
  have "produce_from io b2 request quota (Some key) (message_start request) = Some (b', r)"
    using run miss unfolding HandleProduce_eq a none prod.case option.case if_not_P [OF meta] live Let_def b2_def [symmetric]
    by (simp add: key b2_def)
  then obtain parsed where parse: "parse_message (req_payload request) (message_start request) = Some parsed"
    and r: "(b', r) = (case parsed of Inl st \<Rightarrow> (b2, MakeResponse request st []) | Inr m \<Rightarrow> store_message io b2 request quota (Some key) m)"
    by (auto simp: produce_from_def bind_eq_Some_conv)
  show ?thesis
  proof (cases parsed)
    case (Inl st)
    with parse have "st = kBadRequest" by (auto dest: parsers_refuse(1))
    with Inl r ok show ?thesis by simp
  next
    case (Inr m)
    with r have "store_message io b2 request quota (Some key) m = (b', r)" by simp
    from store_message_caches [OF this ok] show ?thesis .
  qed
qed

lemma HandleProduce_hit:
  assumes "HandleProduce io b request rate quota = Some (b', r)" and "produce_key request = Some key"
    and "in_cache key entry b" and "pi_now io < ie_expires_at entry"
  shows "br_storage b' = br_storage b \<and>
    r = (if req_flags request AND kFlagReplication = 0 \<and> (rs_role (br_repl b) \<noteq> kLeader \<or> \<not> CanServeWrites (br_repl b) (pi_now io))
         then MakeResponse request kNotLeader []
         else if rate \<and> req_flags request AND kFlagReplication = 0 \<and> \<not> snd (AllowProduceRequest (pi_now io) b)
         then MakeResponse request kRateLimited []
         else ie_response entry\<lparr>resp_id := req_id request\<rparr>)"
proof -
  obtain b1 x where a: "admitted io b request rate = (b1, x)" by fastforce
  have d: "same_data b b1" by (rule admitted_same_data [OF a])
  have live: "map_of (live_cache io b1 request) key = Some entry"
    using d assms(3,4) by (intro live_cache_keeps) (simp_all add: same_data_def in_cache_def)
  have meta: "\<not> (req_flags request AND kFlagProducerMetadata \<noteq> 0 \<and> length (req_payload request) < 16)"
    using assms(2) by (auto simp: produce_key_def split: if_splits)
  show ?thesis
  proof (cases x)
    case (Some st)
    then show ?thesis using assms(1) a d
      by (auto simp: HandleProduce_eq same_data_def admitted_def split: if_splits prod.splits)
  next
    case None
    then have "r = ie_response entry\<lparr>resp_id := req_id request\<rparr>" "br_storage b' = br_storage b"
      using assms(1) d live unfolding HandleProduce_eq a None prod.case option.case if_not_P [OF meta] Let_def
      by (auto simp: assms(2) same_data_def)
    with a None show ?thesis by (auto simp: admitted_def split: if_splits prod.splits)
  qed
qed

text \<open>C22: A produce request with a producer id and a sequence number was answered OK and was not itself answered
  from the cache. Then, until five minutes after it was finished and as long as the broker keeps running, whatever
  other requests of any kind it handles and whatever its replication thread does, except for a request to delete the
  topic, a retry with the same topic, producer id and sequence number writes nothing to the log. It is answered as the
  first request was, unless the broker at that time is not a leader that can serve writes or the rate limit refuses
  the retry, which is then the answer.\<close>

theorem retry_appends_nothing:
  assumes "HandleProduce io b request rate quota = Some (b1, r)" and "resp_status r = kOk"
    and "produce_key request = Some key" and "map_of (live_cache io b request) key = None"
    and "broker_run b1 events = Some b'" and "list_all (event_keeps (pi_done io + 300000) key) events"
    and "produce_key retry = Some key" and "pi_now io2 < pi_done io + 300000"
    and "HandleProduce io2 b' retry rate2 quota2 = Some (b2, r2)"
  shows "br_storage b2 = br_storage b' \<and>
    r2 = (if req_flags retry AND kFlagReplication = 0 \<and> (rs_role (br_repl b') \<noteq> kLeader \<or> \<not> CanServeWrites (br_repl b') (pi_now io2))
          then MakeResponse retry kNotLeader []
          else if rate2 \<and> req_flags retry AND kFlagReplication = 0 \<and> \<not> snd (AllowProduceRequest (pi_now io2) b')
          then MakeResponse retry kRateLimited []
          else r\<lparr>resp_id := req_id retry\<rparr>)"
proof -
  let ?entry = "\<lparr>ie_response = r, ie_expires_at = pi_done io + 300000\<rparr>"
  have "in_cache key ?entry b1" by (rule HandleProduce_caches [OF assms(1-4)])
  with assms(5) have "in_cache key ?entry b'" by (rule broker_run_keeps) (use assms(6) in simp)
  moreover have "pi_now io2 < ie_expires_at ?entry" using assms(8) by simp
  ultimately show ?thesis using HandleProduce_hit [OF assms(9,7), of ?entry] unfolding IdempotencyEntry.simps by blast
qed

theorem retry_appends_nothing_witness:
  "\<exists>b1 r b2. HandleProduce log_io log_broker log_request True True = Some (b1, r) \<and> resp_status r = kOk \<and>
     HandleProduce log_io b1 (log_request\<lparr>req_id := 9\<rparr>) False True = Some (b2, r\<lparr>resp_id := 9\<rparr>) \<and> br_storage b2 = br_storage b1"
proof -
  from log_request_runs obtain b1 and m :: Message where
    run: "HandleProduce log_io log_broker log_request True True = Some (b1, MakeResponse log_request kOk (Put32 0 @ Put64 (msg_offset m)))"
    and lead: "rs_role (br_repl b1) = kLeader" "rs_replicas (br_repl b1) = []" by blast
  let ?retry = "log_request\<lparr>req_id := 9\<rparr>"
  obtain b2 r2 where retry: "HandleProduce log_io b1 ?retry False True = Some (b2, r2)"
    using HandleProduce_defined by fastforce
  have key: "produce_key ?retry = Some (IdempotencyKey [116] 1 2)"
    using log_request_parsed(2) by (simp add: produce_key_def split: if_splits)
  have live: "map_of (live_cache log_io log_broker log_request) (IdempotencyKey [116] 1 2) = None"
    by (simp add: live_cache_def purge_cache_def log_broker_storage)
  have times: "pi_now log_io < pi_done log_io + 300000" by (simp add: log_io_def demo_io_def)
  have serves: "CanServeWrites (br_repl b1) now" for now using lead by (simp add: CanServeWrites_def)
  have "br_storage b2 = br_storage b1 \<and>
      r2 = (if req_flags ?retry AND kFlagReplication = 0 \<and> (rs_role (br_repl b1) \<noteq> kLeader \<or> \<not> CanServeWrites (br_repl b1) (pi_now log_io))
            then MakeResponse ?retry kNotLeader []
            else if False \<and> req_flags ?retry AND kFlagReplication = 0 \<and> \<not> snd (AllowProduceRequest (pi_now log_io) b1)
            then MakeResponse ?retry kRateLimited []
            else MakeResponse log_request kOk (Put32 0 @ Put64 (msg_offset m))\<lparr>resp_id := req_id ?retry\<rparr>)"
    by (rule retry_appends_nothing [OF run _ log_request_parsed(2) live _ _ key times retry, of "[]"]) simp_all
  then have "br_storage b2 = br_storage b1" "r2 = MakeResponse log_request kOk (Put32 0 @ Put64 (msg_offset m))\<lparr>resp_id := 9\<rparr>"
    using lead serves by simp_all
  with run retry show ?thesis by auto
qed

end
