(* ===== verification/Broker_Access.thy ===== *)
theory Broker_Access
  imports Broker_Retry
begin

text \<open>
  What a request has to carry to be answered with OK, in every state of a running broker: the tokens and
  permissions that decide about it are the configured ones, whatever requests were handled and
  whatever turns the replication thread took.
\<close>

section \<open>Tokens and permissions stay as they were configured\<close>

definition same_access :: "broker \<Rightarrow> broker \<Rightarrow> bool" where
  "same_access b b' \<longleftrightarrow> br_client_token b' = br_client_token b \<and> br_authorization b' = br_authorization b \<and>
     br_replication_token b' = br_replication_token b \<and> br_replication_configured b' = br_replication_configured b"

lemma same_access_refl [simp]: "same_access b b"
  by (simp add: same_access_def)

lemma same_access_trans: "same_access a b \<Longrightarrow> same_access b c \<Longrightarrow> same_access a c"
  by (simp add: same_access_def)

lemma limits_access:
  "AllowProduceRequest now b = (b', ok) \<Longrightarrow> same_access b b'" "AllowTopicBytes now b topic count = (b', ok) \<Longrightarrow> same_access b b'"
  "Replicate io b topic part m = (b', ok) \<Longrightarrow> same_access b b'"
  by (auto simp: same_access_def AllowProduceRequest_def AllowTopicBytes_def Replicate_def Let_def split: if_splits prod.splits)

abbreviation keeps_access :: "outcome \<Rightarrow> broker \<Rightarrow> bool" where
  "keeps_access out b \<equiv> ensures out (\<lambda>(b', _). same_access b b')"

lemma quiet_handlers_access:
  shows "keeps_access (HandleCreateTopic io b request) b" and "keeps_access (HandleListTopic b request) b"
    and "keeps_access (HandleMetrics b request) b" and "keeps_access (HandleJoinGroup io b request) b"
    and "keeps_access (HandleSyncGroup b request) b" and "keeps_access (HandleHeartbeat io b request) b"
    and "keeps_access (HandleCommitOffset io b request) b" and "keeps_access (HandleOffsetFetch b request) b"
    and "keeps_access (HandleFetch io b request) b" and "keeps_access (HandleReplicaFetch io b request) b"
    and "keeps_access (HandleReplicaVote io b request) b" and "keeps_access (HandleDeleteTopic io b request) b"
  unfolding HandleCreateTopic_def HandleListTopic_def HandleMetrics_def HandleJoinGroup_def HandleSyncGroup_def
    HandleHeartbeat_def HandleCommitOffset_def HandleOffsetFetch_def HandleFetch_def HandleReplicaFetch_def HandleReplicaVote_def
    HandleDeleteTopic_def
  by (intro ensuresI; auto simp: same_access_def)+

lemma apply_append_access:
  "apply_append io b request header resolved messages = (b', r) \<Longrightarrow> same_access b b'"
  by (auto simp: apply_append_def same_access_def Let_def split: prod.splits sum.splits bool.splits if_splits)

lemma HandleReplicaAppend_access: "keeps_access (HandleReplicaAppend io b request) b"
  unfolding HandleReplicaAppend_def
  by (intro ensuresI) (auto dest: apply_append_access split: if_splits)

lemma finish_message_access: "finish_message io b request key part m = (b', r) \<Longrightarrow> same_access b b'"
  using limits_access(3)
  by (fastforce simp: finish_message_def same_access_def Let_def split: prod.splits bool.splits option.splits if_splits)

lemma store_message_access: "store_message io b request quota key parsed = (b', r) \<Longrightarrow> same_access b b'"
proof -
  assume run: "store_message io b request quota key parsed = (b', r)"
  obtain requested k val where parsed: "parsed = (requested, k, val)" by (metis prod_cases3)
  obtain b1 allowed where quota: "(if quota \<and> req_flags request AND kFlagReplication = 0
      then AllowTopicBytes (pi_now io) b (req_topic request) (of_nat (length k + length val)) else (b, True)) = (b1, allowed)"
    by fastforce
  then have b1: "same_access b b1" by (auto dest: limits_access(2) split: if_splits)
  then have stored: "same_access b (b1\<lparr>br_storage := st\<rparr>)" "same_access b (b1\<lparr>br_storage := st, br_repl := s\<rparr>)" for st s
    by (simp_all add: same_access_def)
  show ?thesis
    using run b1 stored unfolding store_message_def parsed prod.case quota
    by (auto simp: Let_def dest: finish_message_access same_access_trans [OF stored(2)] split: sum.splits bool.splits prod.splits)
qed

lemma HandleProduce_access: "keeps_access (HandleProduce io b request rate quota) b"
proof -
  obtain b1 ok where r: "(if rate \<and> req_flags request AND kFlagReplication = 0 then AllowProduceRequest (pi_now io) b else (b, True)) = (b1, ok)"
    by fastforce
  then have b1: "same_access b b1" by (auto dest: limits_access(1) split: if_splits)
  then have b2: "same_access b (b1\<lparr>br_cache := x\<rparr>)" for x by (simp add: same_access_def)
  have made: "keeps_access (produce_from io b' request quota key position) b" if "same_access b b'" for b' key position
    unfolding produce_from_def using that
    by (intro ensuresI) (auto dest: store_message_access same_access_trans split: sum.split)
  show ?thesis unfolding HandleProduce_def Let_def r prod.case
    using b1 b2 by (intro ensuresI) (auto intro: made)
qed

lemma run_batch_access: "run_batch io i items b payload = Some (b', answer) \<Longrightarrow> same_access b b'"
proof (induction io i items b payload rule: run_batch.induct)
  case (3 io i request items b payload)
  then obtain b1 r where r: "HandleProduce (io i) b request False False = Some (b1, r)"
    by (auto simp: bind_eq_Some_conv)
  have "same_access b b1" using ensuresD [OF HandleProduce_access r] by simp
  then show ?case using "3.prems" "3.IH" [OF r refl] r by (auto dest: same_access_trans split: if_splits)
qed auto

lemma run_batch_access_from:
  "run_batch io i items b1 payload = Some (b', answer) \<Longrightarrow> same_access b b1 \<Longrightarrow> same_access b b'"
  using run_batch_access same_access_trans by blast

lemma HandleProduceBatch_access: "keeps_access (HandleProduceBatch io b request) b"
proof -
  obtain b1 ok where r: "(if req_flags request AND kFlagReplication = 0 then AllowProduceRequest (bi_now io) b else (b, True)) = (b1, ok)"
    by fastforce
  then have b1: "same_access b b1" by (auto dest: limits_access(1) split: if_splits)
  let ?b2 = "b1\<lparr>br_cache := purge_cache (bi_now io) (br_cache b1)\<rparr>"
  have b2: "same_access b ?b2" using b1 by (simp add: same_access_def)
  have b3: "same_access b b3" if "(if req_flags request AND kFlagReplication = 0
      then AllowTopicBytes (bi_now io) ?b2 (req_topic request) n else (?b2, True)) = (b3, admitted)" for b3 n admitted
    using that b2 by (auto dest: limits_access(2) same_access_trans split: if_splits)
  show ?thesis unfolding HandleProduceBatch_def Let_def r prod.case
    using b1 b2 by (intro ensuresI) (auto dest: b3 intro: run_batch_access_from)
qed

lemma dispatch_access: "keeps_access (dispatch io b request command) b"
  by (cases command) (simp_all add: quiet_handlers_access HandleReplicaAppend_access HandleProduce_access HandleProduceBatch_access ensures_Some)

lemma Handle_access: "keeps_access (Handle io b request) b"
proof -
  let ?b = "b\<lparr>br_request_count := br_request_count b + 1\<rparr>"
  have "same_access b b'" if "dispatch io (count_command c ?b) n command = Some (b', r)" for b' r n c command
    using ensuresD [OF dispatch_access that] by (simp add: same_access_def count_command_def split: if_splits)
  then show ?thesis unfolding Handle_def Let_def
    by (intro ensuresI) (auto simp: same_access_def)
qed

text \<open>The replication thread.\<close>

lemma foldl_access:
  assumes "\<And>acc x. same_access (fst acc) (fst (f acc x))"
  shows "same_access (fst acc) (fst (foldl f acc xs))"
proof (induction xs arbitrary: acc)
  case (Cons x xs)
  show ?case using same_access_trans [OF assms Cons.IH] by simp
qed simp

lemma fetch_from_leaders_access: "same_access b (fst (fetch_from_leaders io b))"
proof -
  have "same_access (fst acc) (fst (fetch_partition io peer acc tp))" for acc peer tp
    by (auto simp: same_access_def fetch_partition_def Let_def split: prod.splits sum.splits option.splits)
  then have "same_access (fst acc) (fst (foldl (fetch_partition io peer) acc tps))" for acc peer tps
    by (rule foldl_access)
  then have "same_access (fst acc) (fst (if rs_role (br_repl (fst acc)) = kFollower \<and> peer_leader peer
      then foldl (fetch_partition io peer) acc (topic_partition_pairs (fst acc)) else acc))" for acc :: "broker \<times> bool" and peer
    by simp
  from foldl_access [OF this, of "(b, False)"] show ?thesis by (simp add: fetch_from_leaders_def)
qed

lemma leader_turn_access: "same_access b (leader_turn io b)"
proof -
  have "same_access (fst acc) (fst (heartbeat_partition io peer acc tp))" for acc peer tp
    by (auto simp: same_access_def heartbeat_partition_def Let_def split: prod.splits sum.splits)
  then have "same_access (fst acc) (fst (foldl (heartbeat_partition io peer) acc tps))" for acc peer tps
    by (rule foldl_access)
  then have "same_access (fst acc) (fst (foldl (heartbeat_partition io peer) acc (topic_partition_pairs (fst acc))))" for acc peer
    by simp
  then have "same_access (fst (b, 1 :: nat)) (fst (foldl (\<lambda>acc peer. foldl (heartbeat_partition io peer) acc (topic_partition_pairs (fst acc)))
      (b, 1) (br_peers b)))"
    by (rule foldl_access)
  then show ?thesis by (auto simp: leader_turn_def same_access_def split: prod.splits)
qed

lemma replication_turn_access: "same_access (snd st) (snd (replication_turn st io))"
  using fetch_from_leaders_access [of "snd st" io] leader_turn_access [of "snd st" io]
  by (auto simp: replication_turn_def follower_turn_def same_access_def split: prod.splits if_splits)

lemma broker_run_access: "broker_run b events = Some b' \<Longrightarrow> same_access b b'"
proof (induction b events rule: broker_run.induct)
  case (2 b io request events)
  then obtain b1 r where h: "Handle io b request = Some (b1, r)" and run: "broker_run b1 events = Some b'"
    by (auto split: option.splits)
  have "same_access b b1" using ensuresD [OF Handle_access h] by simp
  with "2.IH" [OF h refl run] show ?case by (rule same_access_trans [rotated])
next
  case (3 b th loop events)
  then show ?case using same_access_trans [OF replication_turn_access [of "(th, b)" loop]] by simp
qed simp

section \<open>What an answer OK implies\<close>

lemma Handle_ok_access:
  assumes run: "Handle io b request = Some (b', response)" and ok: "resp_status response = kOk"
  shows "req_flags request AND kFlagReplication \<noteq> 0 \<and> br_replication_token b \<noteq> [] \<and>
      (\<exists>rest. carries_token (br_replication_token b) (req_payload request) rest) \<and>
      req_command request \<in> {kHeartbeat, kReplicaFetch, kReplicaAppend, kReplicaVote} \<or>
    req_flags request AND kFlagReplication = 0 \<and>
      (if br_client_token b = [] then req_flags request AND kFlagAuthentication = 0
       else req_flags request AND kFlagAuthentication \<noteq> 0 \<and>
         (\<exists>rest. carries_token (br_client_token b) (req_payload request) rest) \<and>
         AuthorizeClientRequest (br_authorization b) (req_command request) (req_topic request))"
proof -
  let ?b = "b\<lparr>br_request_count := br_request_count b + 1\<rparr>"
  obtain checked where auth: "authenticate ?b request = Some checked" using authenticate_defined by fastforce
  have st: "st \<noteq> kOk" if "checked = Inl st" for st
    using auth that by (auto simp: authenticate_def bind_eq_Some_conv split: if_splits option.splits)
  obtain n where n: "checked = Inr n" and allowed: "replication_command request \<or> br_client_token b = [] \<or>
      AuthorizeClientRequest (br_authorization b) (req_command n) (req_topic n)"
    using run ok auth st by (cases checked) (auto simp: Handle_def Let_def MakeResponse_def split: if_splits)
  have auth': "authenticate b request = Some (Inr n)" using auth n by (simp add: authenticate_counts)
  note same = authenticate_command [OF auth']
  show ?thesis
  proof (cases "replication_command request \<or> req_flags request AND kFlagReplication \<noteq> 0")
    case True
    from authenticate_replication [OF auth' True] show ?thesis by blast
  next
    case False
    then show ?thesis using authenticate_client [OF auth'] allowed same by auto
  qed
qed

end
