(* ===== verification/Broker_Groups.thy ===== *)
theory Broker_Groups
  imports Broker_Safety
begin

text \<open>
  The requests of a consumer group as \<^verbatim>\<open>MqConsumer\<close> in \<^verbatim>\<open>src/client/mq_client.cc\<close> and the protocol
  description lay them out, and what the broker makes of them: a join reads the number of topics from the
  member's name, and a member's heartbeat is always refused.
\<close>

definition names_bytes :: "bytes list \<Rightarrow> bytes" where
  "names_bytes names = concat (map (\<lambda>t. Put16 (of_nat (length t)) @ t) names)"

definition name_ok :: "bytes \<Rightarrow> bool" where
  "name_ok t \<longleftrightarrow> t \<noteq> [] \<and> length t < 65536"

lemma name_ok_size: "name_ok t \<Longrightarrow> unat (of_nat (length t) :: u16) = length t"
  by (intro unat_of_nat_fits) (simp add: name_ok_def)

lemma name_ok_nonzero: "name_ok t \<Longrightarrow> (of_nat (length t) :: u16) \<noteq> 0"
  by (metis length_0_conv name_ok_def name_ok_size unat_0)

lemma read_names_bytes:
  assumes "list_all name_ok names"
  shows "read_names (pre @ names_bytes names) k (length pre) topics =
    (if k \<le> length names then Some (Some (topics @ take k names, length pre + length (names_bytes (take k names)))) else Some None)"
  using assms
proof (induction names arbitrary: pre k topics)
  case Nil
  then show ?case by (cases k) (simp_all add: names_bytes_def)
next
  case (Cons t names)
  show ?case
  proof (cases k)
    case 0
    then show ?thesis by (simp add: names_bytes_def)
  next
    case (Suc k')
    have t: "name_ok t" using Cons.prems by simp
    let ?pre = "pre @ Put16 (of_nat (length t)) @ t"
    have payload: "pre @ names_bytes (t # names) = ?pre @ names_bytes names" by (simp add: names_bytes_def)
    have "read_names (?pre @ names_bytes names) k' (length ?pre) (topics @ [t]) =
      (if k' \<le> length names then Some (Some ((topics @ [t]) @ take k' names, length ?pre + length (names_bytes (take k' names)))) else Some None)"
      by (rule Cons.IH) (use Cons.prems in simp)
    moreover have "Get16 (?pre @ names_bytes names) (length pre) = Some (of_nat (length t))" by (simp add: Get16_def)
    ultimately show ?thesis
      using name_ok_size [OF t] name_ok_nonzero [OF t] unfolding Suc payload
      by (simp add: substr_def names_bytes_def add.assoc)
  qed
qed

lemma names_bytes_short: "k < length names \<Longrightarrow> length (names_bytes (take k names)) < length (names_bytes names)"
proof (induction names arbitrary: k)
  case (Cons t names)
  then show ?case by (cases k) (simp_all add: names_bytes_def)
qed simp

text \<open>The payloads the client sends.\<close>

definition join_payload :: "bytes \<Rightarrow> bytes \<Rightarrow> bytes list \<Rightarrow> bytes" where
  "join_payload grp member_id topics =
     Put16 (of_nat (length grp)) @ grp @ Put16 (of_nat (length member_id)) @ member_id @
     Put16 (of_nat (length topics)) @ names_bytes topics"

definition member_payload :: "bytes \<Rightarrow> bytes \<Rightarrow> bytes" where
  "member_payload grp member_id =
     Put16 (of_nat (length grp)) @ grp @ Put16 (of_nat (length member_id)) @ member_id"

text \<open>The number of topics as the broker reads it: the two bytes after the size of the member's name.\<close>

definition topic_count_read :: "bytes \<Rightarrow> bytes list \<Rightarrow> nat" where
  "topic_count_read member_id topics = unat (be_value (take 2 (member_id @ Put16 (of_nat (length topics)))) :: u16)"

lemma HandleJoinGroup_run:
  assumes "req_payload request = join_payload grp member_id topics" and "name_ok grp" and "name_ok member_id"
    and "list_all name_ok topics"
  shows "\<exists>b' r. HandleJoinGroup io b request = Some (b', r) \<and>
    resp_status r = (if topic_count_read member_id topics = length topics then kOk else kBadRequest) \<and>
    (topic_count_read member_id topics \<noteq> length topics \<longrightarrow> b' = b)"
proof -
  let ?p = "req_payload request" and ?g = "length grp" and ?m = "length member_id"
  define pre where "pre = Put16 (of_nat ?g) @ grp @ Put16 (of_nat ?m) @ member_id @ Put16 (of_nat (length topics) :: u16)"
  have p: "?p = pre @ names_bytes topics" using assms(1) by (simp add: join_payload_def pre_def)
  have pre: "length pre = 6 + ?g + ?m" by (simp add: pre_def)
  have sizes: "unat (of_nat ?g :: u16) = ?g" "unat (of_nat ?m :: u16) = ?m" using assms(2,3) by (simp_all add: name_ok_size)
  have pos: "0 < ?g" "0 < ?m" using assms(2,3) by (simp_all add: name_ok_def)
  have g: "Get16 ?p 0 = Some (of_nat ?g)" by (simp add: Get16_def p pre_def)
  have m: "Get16 ?p (Suc (Suc ?g)) = Some (of_nat ?m)" by (simp add: Get16_def p pre_def)
  have drops: "drop (4 + ?g) ?p = member_id @ Put16 (of_nat (length topics)) @ names_bytes topics" by (simp add: p pre_def)
  have len: "length ?p = 6 + ?g + ?m + length (names_bytes topics)" by (simp add: p pre)
  have "take 2 (drop (4 + ?g) ?p) = take 2 (member_id @ Put16 (of_nat (length topics)))"
    unfolding drops using pos by (cases member_id) simp_all
  then have c: "map_option unat (Get16 ?p (4 + ?g)) = Some (topic_count_read member_id topics)"
    by (simp add: Get16_def len topic_count_read_def)
  have names: "read_names ?p (topic_count_read member_id topics) (6 + ?g + ?m) [] =
    (if topic_count_read member_id topics \<le> length topics
     then Some (Some (take (topic_count_read member_id topics) topics,
       length pre + length (names_bytes (take (topic_count_read member_id topics) topics)))) else Some None)"
    unfolding p pre [symmetric] by (simp add: read_names_bytes [OF assms(4)])
  have subs: "substr ?p 2 ?g = Some grp" "substr ?p (4 + ?g) ?m = Some member_id"
    using drops by (simp_all add: substr_def len) (simp add: p pre_def)
  have joined: "\<exists>groups. Join (br_groups b) grp member_id ts now = (groups, True)" for ts now
    using pos by (simp add: Join_def Let_def)
  show ?thesis
  proof (cases "topic_count_read member_id topics = length topics")
    case True
    then show ?thesis
      using joined [of topics "bi_now io"] pos
      by (auto simp: HandleJoinGroup_def Let_def g m c [unfolded True] names [unfolded True] subs sizes len pre MakeResponse_def)
  next
    case False
    then have "topic_count_read member_id topics < length topics \<or> length topics < topic_count_read member_id topics" by auto
    then show ?thesis
      using pos False names_bytes_short [of "topic_count_read member_id topics" topics]
      by (auto simp: HandleJoinGroup_def Let_def g m c names sizes len pre MakeResponse_def)
  qed
qed

text \<open>C24: A join request in the client's layout is accepted exactly when the first two bytes after the size of the
  member's name happen to be the number of topics, and a heartbeat of a group member is refused whoever
  sends it, so that a member cannot keep its membership alive.\<close>

theorem group_requests_misread:
  assumes "name_ok grp" and "name_ok member_id" and "list_all name_ok topics"
    and "req_flags heartbeat AND kFlagReplication = 0" and "req_payload heartbeat = member_payload grp member_id"
    and "req_payload join = join_payload grp member_id topics"
  shows "(\<exists>b' r. HandleJoinGroup io b join = Some (b', r) \<and>
      resp_status r = (if topic_count_read member_id topics = length topics then kOk else kBadRequest)) \<and>
    HandleHeartbeat io b heartbeat =
      Some (b\<lparr>br_groups := fst (Expire (br_groups b) (bi_now io))\<rparr>, MakeResponse heartbeat kBadRequest [])"
proof -
  have "unat (of_nat (length grp) :: u16) = length grp" using assms(1) by (rule name_ok_size)
  moreover have "Get16 (req_payload heartbeat) 0 = Some (of_nat (length grp))" by (simp add: assms(5) member_payload_def Get16_def)
  moreover have "length (req_payload heartbeat) = 4 + length grp + length member_id" by (simp add: assms(5) member_payload_def)
  moreover have "0 < length member_id" using assms(2) by (simp add: name_ok_def)
  ultimately show ?thesis
    using HandleJoinGroup_run [OF assms(6,1,2,3), of io b] assms(4) by (auto simp: HandleHeartbeat_def Let_def)
qed

theorem group_requests_misread_witness:
  "\<exists>b' r. HandleJoinGroup demo_io demo_broker (default_Request\<lparr>req_payload := join_payload [103] [109, 49] [[116]]\<rparr>) = Some (b', r) \<and>
     resp_status r = kBadRequest"
  using group_requests_misread [of "[103]" "[109, 49]" "[[116]]" "default_Request\<lparr>req_payload := member_payload [103] [109, 49]\<rparr>"
    "default_Request\<lparr>req_payload := join_payload [103] [109, 49] [[116]]\<rparr>" demo_io demo_broker]
  by (simp add: name_ok_def default_Request_def topic_count_read_def be_value_def)

end
