(* ===== verification/Broker_Turns.thy ===== *)
theory Broker_Turns
  imports Broker_Safety
begin

text \<open>
  Runs of the replication thread (\<^verbatim>\<open>Broker::ReplicationLoop\<close>), which \<^verbatim>\<open>main\<close> starts on every broker: what a turn
  does to the role of a broker that has no peers.
\<close>

text \<open>A broker without peers whose coordinator knows no other node.\<close>

definition alone :: "broker \<Rightarrow> bool" where
  "alone b \<longleftrightarrow> br_peers b = [] \<and> rs_replicas (br_repl b) = [] \<and> rs_node_id (br_repl b) = br_node_id b \<and> br_node_id b \<noteq> []"

lemma leader_turn_alone:
  assumes "alone b"
  shows "leader_turn io b = b\<lparr>br_repl := fst (ObserveHeartbeatRound (br_repl b) False)\<rparr>"
  using assms by (simp add: leader_turn_def alone_def)

lemma follower_turn_alone:
  assumes "alone b"
  shows "follower_turn io (th, b) =
    (if li_now io - th_last_election th \<ge> th_election_timeout th
     then (\<lparr>th_last_election = li_now io, th_election_timeout = li_timeout io\<rparr>,
           b\<lparr>br_repl := election_round io b (fst (ObservePreVote (br_repl b) (rs_current_term (br_repl b) + 1) (br_node_id b) True))\<rparr>)
     else (th, b))"
proof -
  have "List.insert (br_node_id b) (rs_pre_votes (br_repl b)) \<noteq> []" by (auto simp: List.insert_def)
  then have "Suc 0 \<le> length (List.insert (br_node_id b) (rs_pre_votes (br_repl b)))" by (simp add: Suc_le_eq)
  then have "snd (ObservePreVote (br_repl b) (rs_current_term (br_repl b) + 1) (br_node_id b) True)"
    using assms by (simp add: ObservePreVote_def Let_def alone_def known_node_def Majority_def)
  then have "pre_vote_round io b = (fst (ObservePreVote (br_repl b) (rs_current_term (br_repl b) + 1) (br_node_id b) True), True)"
    using assms by (simp add: pre_vote_round_def alone_def BeginPreVote_def prod_eq_iff)
  then show ?thesis using assms by (simp add: follower_turn_def fetch_from_leaders_def alone_def)
qed

lemma election_alone:
  assumes "alone b"
    and s: "s = election_round io b (fst (ObservePreVote (br_repl b) t (br_node_id b) True))"
  shows "rs_role s = kLeader" and "rs_missed_heartbeat_rounds s = rs_missed_heartbeat_rounds (br_repl b)"
    and "rs_replicas s = []" and "rs_node_id s = br_node_id b" and "rs_current_term s = rs_current_term (br_repl b) + 1"
  using assms
  by (simp_all add: election_round_def BeginElection_def ObserveVote_def ObservePreVote_def Let_def alone_def known_node_def
      Majority_def PersistLocked_def)

text \<open>A broker without peers loses its leadership: it is leader at the start, its heartbeat rounds never reach
  the majority the loop asks for, and after the third turn it is a follower and refuses clients. Every election it
  then wins, in a new term, is lost again in the very next turn, because the count of missed rounds stays.\<close>

theorem single_broker_flaps:
  assumes "alone b" and "rs_role (br_repl b) = kLeader" and "rs_missed_heartbeat_rounds (br_repl b) = 0"
    and "replication_turns (th, b) [i1, i2, i3] = (th3, b3)" and "li_now i4 - th_last_election th3 \<ge> th_election_timeout th3"
    and "replication_turns (th3, b3) [i4] = (th4, b4)" and "replication_turns (th4, b4) [i5] = (th5, b5)"
    and "req_flags request AND kFlagReplication = 0"
  shows "rs_role (br_repl b3) = kFollower \<and> HandleProduce io b3 request rate quota = Some (b3, MakeResponse request kNotLeader []) \<and>
    rs_role (br_repl b4) = kLeader \<and> rs_current_term (br_repl b4) = rs_current_term (br_repl b) + 1 \<and> rs_role (br_repl b5) = kFollower"
proof -
  define s3 where "s3 = (br_repl b)\<lparr>rs_missed_heartbeat_rounds := 3, rs_role := kFollower, rs_leader_id := [], rs_votes := []\<rparr>"
  have step: "replication_turn (t, x) i = (t, x\<lparr>br_repl := fst (ObserveHeartbeatRound (br_repl x) False)\<rparr>)"
    if "alone x" "rs_role (br_repl x) = kLeader" for t x i
    using that by (simp add: replication_turn_def leader_turn_alone)
  have alone1: "alone (b\<lparr>br_repl := (br_repl b)\<lparr>rs_missed_heartbeat_rounds := n\<rparr>\<rparr>)" for n using assms(1) by (simp add: alone_def)
  have b3: "th3 = th" "b3 = b\<lparr>br_repl := s3\<rparr>"
    using assms(4) unfolding replication_turns_def
    by (simp_all add: step assms(1,2,3) alone1 ObserveHeartbeatRound_def s3_def numeral_3_eq_3)
  have role3: "rs_role (br_repl b3) = kFollower" "alone b3" using assms(1) by (simp_all add: b3 s3_def alone_def)
  note won = election_alone [OF role3(2) refl, of i4 "rs_current_term (br_repl b3) + 1"]
  have b4: "b4 = b3\<lparr>br_repl := election_round i4 b3 (fst (ObservePreVote (br_repl b3) (rs_current_term (br_repl b3) + 1) (br_node_id b3) True))\<rparr>"
    using assms(5,6) role3 by (simp add: replication_turns_def replication_turn_def follower_turn_alone)
  have b4_role: "alone b4" "rs_role (br_repl b4) = kLeader" "rs_missed_heartbeat_rounds (br_repl b4) = 3"
    using role3(2) won by (simp_all add: b4 alone_def) (simp add: b3 s3_def)
  have "b5 = b4\<lparr>br_repl := fst (ObserveHeartbeatRound (br_repl b4) False)\<rparr>"
    using assms(7) by (simp add: replication_turns_def step b4_role)
  then have "rs_role (br_repl b5) = kFollower" using b4_role by (simp add: ObserveHeartbeatRound_def)
  moreover have "HandleProduce io b3 request rate quota = Some (b3, MakeResponse request kNotLeader [])"
    using role3 assms(8) by (simp add: HandleProduce_def)
  moreover have "rs_current_term (br_repl b3) = rs_current_term (br_repl b)" by (simp add: b3 s3_def)
  ultimately show ?thesis using role3 won b4 by simp
qed

definition idle_turn :: "int \<Rightarrow> loop_io" where
  "idle_turn now = \<lparr>li_now = now, li_timeout = 200, li_persist = \<lparr>pio_write = True, pio_rename = True, pio_second = (True, True)\<rparr>,
     li_storage = (\<lambda>_ _ _. good_io 0 0), li_fetch = (\<lambda>_ _ _ _ _. None), li_pre_vote = (\<lambda>_ _ _ _ _. False),
     li_vote = (\<lambda>_ _ _ _ _. False), li_heartbeat = (\<lambda>_ _ _ _ _ _ _. False), li_append = (\<lambda>_ _ _ _ _ _ _ _ _. False)\<rparr>"

theorem single_broker_flaps_witness:
  "rs_role (br_repl (snd (replication_turns (\<lparr>th_last_election = 0, th_election_timeout = 150\<rparr>, demo_broker)
     [idle_turn 0, idle_turn 250, idle_turn 500]))) = kFollower"
proof -
  let ?th = "\<lparr>th_last_election = 0, th_election_timeout = 150\<rparr>"
  obtain th3 b3 where r3: "replication_turns (?th, demo_broker) [idle_turn 0, idle_turn 250, idle_turn 500] = (th3, b3)" by fastforce
  define i4 where "i4 = idle_turn (th_last_election th3 + th_election_timeout th3)"
  obtain th4 b4 where r4: "replication_turns (th3, b3) [i4] = (th4, b4)" by fastforce
  obtain th5 b5 where r5: "replication_turns (th4, b4) [idle_turn 2000] = (th5, b5)" by fastforce
  have "alone demo_broker" "rs_role (br_repl demo_broker) = kLeader" "rs_missed_heartbeat_rounds (br_repl demo_broker) = 0"
    by (simp_all add: alone_def demo_broker_def ConfigureClientAuth_def ConfigureReplication_def new_ReplicationCoordinator_def LoadState_def)
  moreover have "th_election_timeout th3 \<le> li_now i4 - th_last_election th3" by (simp add: i4_def idle_turn_def)
  moreover have "req_flags default_Request AND kFlagReplication = 0" by (simp add: default_Request_def)
  ultimately have "rs_role (br_repl b3) = kFollower" using single_broker_flaps [OF _ _ _ r3 _ r4 r5] by blast
  then show ?thesis by (simp add: r3)
qed

end
