(* ===== verification/Client.thy ===== *)
theory Client
  imports Broker_Groups
begin

text \<open>
  The client library, \<^verbatim>\<open>src/client/mq_client.cc\<close>: the call loop with its reconnects and the operations of
  \<^verbatim>\<open>MqProducer\<close> and \<^verbatim>\<open>MqConsumer\<close>. \<open>client\<close> has the data members of both \<^verbatim>\<open>Impl\<close> structures; sockets and TLS
  sessions are the flag \<open>cl_connected\<close>. A call is given the attempts that start before its deadline: which
  endpoints can be reached, whether the frame is sent, and the bytes that come back in answer to it, cut
  short if the connection breaks. The clock enters only through the number of attempts.
\<close>

section \<open>State\<close>

datatype AckMode = kZero | kOne | kAll

record ProduceResult =
  pr_partition :: u32
  pr_offset :: u64

record ProducerMessage =
  pm_key :: bytes
  pm_value :: bytes

record TopicInfo =
  ti_name :: bytes
  ti_partitions :: u32

record client =
  cl_connected :: bool
  cl_host :: bytes
  cl_port :: u16
  cl_endpoints :: "(bytes \<times> u16) list"
  cl_endpoint_index :: nat
  cl_timeout_ms :: u32
  cl_request_id :: u64
  cl_producer_id :: u64
  cl_sequence :: u64
  cl_backoff :: nat
  cl_error :: string
  cl_auth_token :: bytes
  cl_topic :: bytes
  cl_group :: bytes
  cl_member_id :: bytes
  cl_partition :: u32
  cl_next_offset :: u64
  cl_pending :: "Message list"

text \<open>A fresh client; the producer id is random and never 0.\<close>

definition new_client :: "u64 \<Rightarrow> client" where
  "new_client producer_id =
     \<lparr>cl_connected = False, cl_host = [], cl_port = 0, cl_endpoints = [], cl_endpoint_index = 0, cl_timeout_ms = 5000,
      cl_request_id = 1, cl_producer_id = producer_id, cl_sequence = 0, cl_backoff = 100, cl_error = '''', cl_auth_token = [],
      cl_topic = [], cl_group = [], cl_member_id = [], cl_partition = 0, cl_next_offset = 0, cl_pending = []\<rparr>"

record attempt =
  at_reach :: "nat \<Rightarrow> bool"
  at_send :: bool
  at_receive :: "bytes \<Rightarrow> bytes"

section \<open>Connecting and calling\<close>

text \<open>The loop over the endpoints: the first one that can be reached, starting at the current index.\<close>

definition first_reachable :: "attempt \<Rightarrow> nat \<Rightarrow> nat \<Rightarrow> nat option" where
  "first_reachable io start n = find (at_reach io) (map (\<lambda>i. (start + i) mod n) [0..<n])"

definition Connect :: "attempt \<Rightarrow> client \<Rightarrow> client \<times> bool" where
  "Connect io c =
    (if cl_connected c then (c, True)
     else
       let c1 = (if cl_endpoints c = [] \<and> cl_host c \<noteq> [] then c\<lparr>cl_endpoints := [(cl_host c, cl_port c)]\<rparr> else c);
           n = length (cl_endpoints c1) in
       if n = 0 then (c1, False)
       else case first_reachable io (cl_endpoint_index c1) n of
         Some index \<Rightarrow>
           (c1\<lparr>cl_host := fst (cl_endpoints c1 ! index), cl_port := snd (cl_endpoints c1 ! index),
               cl_endpoint_index := index, cl_connected := True\<rparr>, True)
       | None \<Rightarrow>
           let last_index = (cl_endpoint_index c1 + (n - 1)) mod n in
           (c1\<lparr>cl_host := fst (cl_endpoints c1 ! last_index), cl_port := snd (cl_endpoints c1 ! last_index),
               cl_endpoint_index := (cl_endpoint_index c1 + 1) mod n\<rparr>, False))"

definition Close :: "client \<Rightarrow> client" where
  "Close c = c\<lparr>cl_connected := False\<rparr>"

text \<open>The token in front of the payload.\<close>

definition add_token :: "client \<Rightarrow> Request \<Rightarrow> Request option" where
  "add_token c request =
    (if cl_auth_token c = [] then Some request
     else if length (cl_auth_token c) > 65535 then None
     else Some (request\<lparr>req_payload := Put16 (of_nat (length (cl_auth_token c))) @ cl_auth_token c @ req_payload request,
                        req_flags := req_flags request OR kFlagAuthentication\<rparr>))"

text \<open>What one received answer means.\<close>

datatype answer = Accept Response | Retry client

definition read_answer :: "client \<Rightarrow> Request \<Rightarrow> bytes \<Rightarrow> answer option" where
  "read_answer c request received =
    (if length received < 18 then Some (Retry (Close c))
     else do {
       payload_size \<leftarrow> map_option unat (Get32 (take 18 received) 14);
       if payload_size > kMaxPayloadBytes then Some (Retry (Close (c\<lparr>cl_error := ''response payload too large''\<rparr>)))
       else if length received < 18 + payload_size then Some (Retry (Close c))
       else do {
         decoded \<leftarrow> DecodeResponse (take (18 + payload_size) received);
         Some (case decoded of
           Inl err \<Rightarrow> Retry (Close (c\<lparr>cl_error := err\<rparr>))
         | Inr response \<Rightarrow>
             if resp_id response \<noteq> req_id request then Retry (Close (c\<lparr>cl_error := ''response request_id mismatch''\<rparr>))
             else if resp_status response = kNotLeader \<and> length (cl_endpoints c) > 1
             then Retry ((Close c)\<lparr>cl_endpoint_index := (cl_endpoint_index c + 1) mod length (cl_endpoints c)\<rparr>)
             else Accept response) } })"

fun call_loop :: "attempt list \<Rightarrow> client \<Rightarrow> Request \<Rightarrow> (client \<times> Response option) option" where
  "call_loop [] c request = Some (c\<lparr>cl_error := ''request timeout''\<rparr>, None)"
| "call_loop (io # ios) c request =
    (case Connect io c of
       (c1, False) \<Rightarrow> call_loop ios (c1\<lparr>cl_backoff := min (cl_backoff c1 * 2) 30000\<rparr>) request
     | (c1, True) \<Rightarrow>
         let sent = request\<lparr>req_id := cl_request_id c1\<rparr>; c2 = c1\<lparr>cl_request_id := cl_request_id c1 + 1\<rparr> in
         (case EncodeRequest sent of
            Inl _ \<Rightarrow> call_loop ios (Close c2) sent
          | Inr frame \<Rightarrow>
              if \<not> at_send io then call_loop ios (Close c2) sent
              else do {
                answer \<leftarrow> read_answer c2 sent (at_receive io frame);
                case answer of
                  Accept response \<Rightarrow> Some (c2\<lparr>cl_backoff := 100\<rparr>, Some response)
                | Retry c3 \<Rightarrow> call_loop ios c3 sent }))"

definition Call :: "attempt list \<Rightarrow> client \<Rightarrow> Request \<Rightarrow> (client \<times> Response option) option" where
  "Call ios c request =
    (case add_token c request of
       None \<Rightarrow> Some (c\<lparr>cl_error := ''auth token exceeds protocol limit''\<rparr>, None)
     | Some request' \<Rightarrow> call_loop ios c request')"

definition SendWithoutResponse :: "attempt \<Rightarrow> client \<Rightarrow> Request \<Rightarrow> client \<times> bool" where
  "SendWithoutResponse io c request =
    (case add_token c request of
       None \<Rightarrow> (c\<lparr>cl_error := ''auth token exceeds protocol limit''\<rparr>, False)
     | Some request' \<Rightarrow>
         (case Connect io c of
            (c1, False) \<Rightarrow> (c1, False)
          | (c1, True) \<Rightarrow>
              let sent = request'\<lparr>req_id := cl_request_id c1\<rparr> in
              (Close (c1\<lparr>cl_request_id := cl_request_id c1 + 1\<rparr>),
               case EncodeRequest sent of Inl _ \<Rightarrow> False | Inr _ \<Rightarrow> at_send io)))"

section \<open>Producer\<close>

fun ack_flags :: "AckMode \<Rightarrow> u16" where
  "ack_flags kZero = 0" | "ack_flags kOne = 1" | "ack_flags kAll = 2"

definition connect :: "attempt \<Rightarrow> client \<Rightarrow> bytes \<Rightarrow> u16 \<Rightarrow> client \<times> bool" where
  "connect io c host port = Connect io (Close (c\<lparr>cl_host := host, cl_port := port, cl_pending := []\<rparr>))"

definition connect_endpoints :: "attempt \<Rightarrow> client \<Rightarrow> (bytes \<times> u16) list \<Rightarrow> client \<times> bool" where
  "connect_endpoints io c endpoints =
    (if endpoints = [] then (c, False)
     else Connect io (Close (c\<lparr>cl_endpoints := endpoints, cl_endpoint_index := 0, cl_pending := []\<rparr>)))"

definition is_ok :: "Response option \<Rightarrow> bool" where
  "is_ok response \<longleftrightarrow> (case response of None \<Rightarrow> False | Some r \<Rightarrow> resp_status r = kOk)"

definition createTopic :: "attempt list \<Rightarrow> client \<Rightarrow> bytes \<Rightarrow> u32 \<Rightarrow> (client \<times> bool) option" where
  "createTopic ios c name partitions =
     map_option (map_prod id is_ok)
       (Call ios c (default_Request\<lparr>req_command := kCreateTopic, req_topic := name, req_payload := Put32 partitions\<rparr>))"

definition message_bytes_of :: "bytes \<Rightarrow> bytes \<Rightarrow> bytes" where
  "message_bytes_of key val = Put16 (of_nat (length key)) @ key @ Put32 (of_nat (length val)) @ val"

definition produce_request :: "client \<Rightarrow> bytes \<Rightarrow> bytes \<Rightarrow> bytes \<Rightarrow> AckMode \<Rightarrow> Request" where
  "produce_request c topic key val ack =
     default_Request\<lparr>req_command := kProduce, req_topic := topic, req_flags := kFlagProducerMetadata OR ack_flags ack,
       req_payload := Put64 (cl_producer_id c) @ Put64 (cl_sequence c) @ Put32 0xFFFFFFFF @ message_bytes_of key val\<rparr>"

text \<open>The result is the partition and offset when the answer carries them.\<close>

definition read_result :: "bytes \<Rightarrow> ProduceResult option option" where
  "read_result payload =
    (if length payload = 12 then do {
       part \<leftarrow> Get32 payload 0;
       offset \<leftarrow> Get64 payload 4;
       Some (Some \<lparr>pr_partition = part, pr_offset = offset\<rparr>) }
     else Some None)"

definition produce ::
  "attempt list \<Rightarrow> client \<Rightarrow> bytes \<Rightarrow> bytes \<Rightarrow> bytes \<Rightarrow> AckMode \<Rightarrow> (client \<times> bool \<times> ProduceResult option) option" where
  "produce ios c topic key val ack =
    (if length key > 65535 \<or> val = [] \<or> length val > 1024 * 1024 \<or> cl_sequence c = - 1
     then Some (c\<lparr>cl_error := ''message or sequence exceeds limit''\<rparr>, False, None)
     else
       let request = produce_request c topic key val ack; c1 = c\<lparr>cl_sequence := cl_sequence c + 1\<rparr> in
       if ack = kZero
       then Some (case ios of [] \<Rightarrow> (c1, False, None)
                  | io # _ \<Rightarrow> (case SendWithoutResponse io c1 request of (c2, ok) \<Rightarrow> (c2, ok, None)))
       else do {
         (c2, response) \<leftarrow> Call ios c1 request;
         case response of
           None \<Rightarrow> Some (c2, False, None)
         | Some r \<Rightarrow>
             if resp_status r \<noteq> kOk then Some (c2, False, None)
             else do { result \<leftarrow> read_result (resp_payload r); Some (c2, True, result) } })"

definition batch_request :: "client \<Rightarrow> bytes \<Rightarrow> ProducerMessage list \<Rightarrow> AckMode \<Rightarrow> Request" where
  "batch_request c topic messages ack =
     default_Request\<lparr>req_command := kProduceBatch, req_topic := topic, req_flags := kFlagProducerMetadata OR ack_flags ack,
       req_payload := Put64 (cl_producer_id c) @ Put64 (cl_sequence c) @ Put32 (of_nat (length messages)) @
         concat (map (\<lambda>m. message_bytes_of (pm_key m) (pm_value m)) messages)\<rparr>"

fun read_results :: "bytes \<Rightarrow> nat \<Rightarrow> nat \<Rightarrow> ProduceResult list \<Rightarrow> ProduceResult list option option" where
  "read_results payload 0 pos results = Some (Some results)"
| "read_results payload (Suc count) pos results =
    (if pos + 12 > length payload then Some None
     else do {
       part \<leftarrow> Get32 payload pos;
       offset \<leftarrow> Get64 payload (pos + 4);
       read_results payload count (pos + 12) (results @ [\<lparr>pr_partition = part, pr_offset = offset\<rparr>]) })"

text \<open>Called with a place for the results; \<open>None\<close> as result list stands for \<^verbatim>\<open>return false\<close>.\<close>

definition produceBatch ::
  "attempt list \<Rightarrow> client \<Rightarrow> bytes \<Rightarrow> ProducerMessage list \<Rightarrow> AckMode \<Rightarrow> (client \<times> ProduceResult list option) option" where
  "produceBatch ios c topic messages ack =
    (if messages = [] \<or> length messages > 10000 \<or> cl_sequence c > - 1 - of_nat (length messages)
     then Some (c\<lparr>cl_error := ''batch or sequence exceeds limit''\<rparr>, None)
     else if \<not> list_all (\<lambda>m. length (pm_key m) \<le> 65535 \<and> pm_value m \<noteq> [] \<and> length (pm_value m) \<le> 1024 * 1024) messages
     then Some (c\<lparr>cl_error := ''message exceeds limit''\<rparr>, None)
     else
       let request = batch_request c topic messages ack; c1 = c\<lparr>cl_sequence := cl_sequence c + of_nat (length messages)\<rparr> in
       if ack = kZero
       then Some (case ios of [] \<Rightarrow> (c1, None)
                  | io # _ \<Rightarrow> (case SendWithoutResponse io c1 request of (c2, ok) \<Rightarrow> (c2, if ok then Some [] else None)))
       else do {
         (c2, response) \<leftarrow> Call ios c1 request;
         case response of
           None \<Rightarrow> Some (c2, None)
         | Some r \<Rightarrow>
             if resp_status r \<noteq> kOk \<or> length (resp_payload r) < 4 then Some (c2, None)
             else do {
               count \<leftarrow> Get32 (resp_payload r) 0;
               if unat count \<noteq> length messages then Some (c2, None)
               else do { results \<leftarrow> read_results (resp_payload r) (length messages) 4 []; Some (c2, results) } } })"

definition flush :: "attempt list \<Rightarrow> client \<Rightarrow> (client \<times> bool) option" where
  "flush ios c = map_option (map_prod id is_ok) (Call ios c (default_Request\<lparr>req_command := kHeartbeat\<rparr>))"

text \<open>Named entries with a 32-bit number: topics with their partition counts, and group assignments.\<close>

fun read_entries :: "bytes \<Rightarrow> nat \<Rightarrow> nat \<Rightarrow> (bytes \<times> u32) list \<Rightarrow> ((bytes \<times> u32) list \<times> nat) option option" where
  "read_entries payload 0 position entries = Some (Some (entries, position))"
| "read_entries payload (Suc count) position entries =
    (if position + 2 > length payload then Some None
     else do {
       name_size \<leftarrow> map_option unat (Get16 payload position);
       if position + 2 + name_size + 4 > length payload then Some None
       else do {
         name \<leftarrow> substr payload (position + 2) name_size;
         number \<leftarrow> Get32 payload (position + 2 + name_size);
         read_entries payload count (position + 6 + name_size) (entries @ [(name, number)]) } })"

definition read_entry_list :: "bytes \<Rightarrow> nat \<Rightarrow> (bytes \<times> u32) list option option" where
  "read_entry_list payload count = do {
     read \<leftarrow> read_entries payload count 4 [];
     Some (case read of None \<Rightarrow> None | Some (entries, position) \<Rightarrow> if position = length payload then Some entries else None) }"

definition listTopics :: "attempt list \<Rightarrow> client \<Rightarrow> (client \<times> TopicInfo list option) option" where
  "listTopics ios c = do {
     (c1, response) \<leftarrow> Call ios c (default_Request\<lparr>req_command := kListTopic\<rparr>);
     case response of
       None \<Rightarrow> Some (c1, None)
     | Some r \<Rightarrow>
         if resp_status r \<noteq> kOk \<or> length (resp_payload r) < 4 then Some (c1, None)
         else do {
           count \<leftarrow> map_option unat (Get32 (resp_payload r) 0);
           if count > 100000 then Some (c1\<lparr>cl_error := ''too many topics''\<rparr>, None)
           else do {
             entries \<leftarrow> read_entry_list (resp_payload r) count;
             Some (case entries of
               None \<Rightarrow> (c1\<lparr>cl_error := ''invalid topic response''\<rparr>, None)
             | Some list \<Rightarrow> (c1, Some (map (\<lambda>(name, n). \<lparr>ti_name = name, ti_partitions = n\<rparr>) list))) } } }"

definition metrics :: "attempt list \<Rightarrow> client \<Rightarrow> (client \<times> bytes option) option" where
  "metrics ios c = do {
     (c1, response) \<leftarrow> Call ios c (default_Request\<lparr>req_command := kMetrics\<rparr>);
     Some (c1, if is_ok response then map_option resp_payload response else None) }"

definition setTimeoutMs :: "client \<Rightarrow> u32 \<Rightarrow> client" where
  "setTimeoutMs c timeout_ms = c\<lparr>cl_timeout_ms := (if timeout_ms = 0 then 5000 else timeout_ms)\<rparr>"

definition setAuthToken :: "client \<Rightarrow> bytes \<Rightarrow> client" where
  "setAuthToken c token =
    (if length token > 65535 then c\<lparr>cl_error := ''auth token exceeds protocol limit''\<rparr> else c\<lparr>cl_auth_token := token\<rparr>)"

definition setProducerId :: "client \<Rightarrow> u64 \<Rightarrow> client" where
  "setProducerId c producer_id = c\<lparr>cl_producer_id := producer_id\<rparr>"

section \<open>Consumer\<close>

definition close_consumer :: "client \<Rightarrow> client" where
  "close_consumer c = Close (c\<lparr>cl_pending := []\<rparr>)"

definition subscribe :: "client \<Rightarrow> bytes \<Rightarrow> bytes \<Rightarrow> u32 \<Rightarrow> client \<times> bool" where
  "subscribe c topic grp part =
    (c\<lparr>cl_topic := topic, cl_group := grp, cl_partition := part, cl_next_offset := 0, cl_pending := []\<rparr>,
     topic \<noteq> [] \<and> grp \<noteq> [])"

definition joinGroup :: "attempt list \<Rightarrow> client \<Rightarrow> bytes \<Rightarrow> bytes \<Rightarrow> bytes list \<Rightarrow> (client \<times> bool) option" where
  "joinGroup ios c grp member_id topics =
    (if grp = [] \<or> member_id = [] \<or> length topics > 65535 then Some (c, False)
     else
       let c1 = c\<lparr>cl_group := grp, cl_member_id := member_id\<rparr> in
       if \<not> list_all (\<lambda>t. t \<noteq> [] \<and> length t \<le> 65535) topics then Some (c1, False)
       else map_option (map_prod id is_ok)
         (Call ios c1 (default_Request\<lparr>req_command := kJoinGroup, req_payload := join_payload grp member_id topics\<rparr>)))"

definition syncGroup :: "attempt list \<Rightarrow> client \<Rightarrow> (client \<times> GroupAssignment list option) option" where
  "syncGroup ios c =
    (if cl_group c = [] then Some (c, None)
     else do {
       (c1, response) \<leftarrow> Call ios c (default_Request\<lparr>req_command := kSyncGroup, req_payload := member_payload (cl_group c) (cl_member_id c)\<rparr>);
       case response of
         None \<Rightarrow> Some (c1, None)
       | Some r \<Rightarrow>
           if resp_status r \<noteq> kOk \<or> length (resp_payload r) < 4 then Some (c1, None)
           else do {
             count \<leftarrow> map_option unat (Get32 (resp_payload r) 0);
             entries \<leftarrow> read_entry_list (resp_payload r) count;
             Some (c1, map_option (map (\<lambda>(topic, part). \<lparr>ga_topic = topic, ga_partition = part\<rparr>)) entries) } })"

definition fetchGroupOffsets :: "attempt list \<Rightarrow> client \<Rightarrow> bytes \<Rightarrow> u32 \<Rightarrow> (client \<times> u64 option) option" where
  "fetchGroupOffsets ios c topic part =
    (if topic = [] \<or> cl_group c = [] then Some (c, None)
     else do {
       (c1, response) \<leftarrow> Call ios c (default_Request\<lparr>req_command := kOffsetFetch, req_topic := topic,
          req_payload := Put16 (of_nat (length (cl_group c))) @ cl_group c @ Put32 part\<rparr>);
       case response of
         None \<Rightarrow> Some (c1, None)
       | Some r \<Rightarrow>
           if resp_status r \<noteq> kOk \<or> length (resp_payload r) \<noteq> 8 then Some (c1, None)
           else do { offset \<leftarrow> Get64 (resp_payload r) 0; Some (c1, Some offset) } })"

definition fetch_request :: "client \<Rightarrow> Request" where
  "fetch_request c = default_Request\<lparr>req_command := kFetch, req_topic := cl_topic c,
     req_payload := Put32 (cl_partition c) @ Put16 (of_nat (length (cl_group c))) @ cl_group c @ Put64 (cl_next_offset c) @
       Put32 (1024 * 1024)\<rparr>"

text \<open>The loop over the messages of a fetch response.\<close>

fun read_messages :: "bytes \<Rightarrow> nat \<Rightarrow> nat \<Rightarrow> Message list \<Rightarrow> (string + (Message list \<times> nat)) option" where
  "read_messages payload 0 pos messages = Some (Inr (messages, pos))"
| "read_messages payload (Suc count) pos messages =
    (if pos + 18 > length payload then Some (Inl ''invalid fetch response header'')
     else do {
       offset \<leftarrow> Get64 payload pos;
       timestamp \<leftarrow> Get64 payload (pos + 8);
       key_size \<leftarrow> map_option unat (Get16 payload (pos + 16));
       if pos + 18 + key_size + 4 > length payload then Some (Inl ''invalid fetch response key'')
       else do {
         key \<leftarrow> substr payload (pos + 18) key_size;
         value_size \<leftarrow> map_option unat (Get32 payload (pos + 18 + key_size));
         if pos + 22 + key_size + value_size > length payload then Some (Inl ''invalid fetch response value'')
         else do {
           val \<leftarrow> substr payload (pos + 22 + key_size) value_size;
           read_messages payload count (pos + 22 + key_size + value_size)
             (messages @ [\<lparr>msg_offset = offset, msg_timestamp_ms = timestamp, msg_key = key, msg_value = val\<rparr>]) } } })"

text \<open>Handing out the next message of the local batch.\<close>

definition take_pending :: "client \<Rightarrow> client \<times> Message option" where
  "take_pending c =
    (case cl_pending c of
       [] \<Rightarrow> (c, None)
     | m # rest \<Rightarrow> (c\<lparr>cl_pending := rest, cl_next_offset := msg_offset m + 1\<rparr>, Some m))"

definition poll :: "attempt list \<Rightarrow> client \<Rightarrow> (client \<times> Message option) option" where
  "poll ios c =
    (if cl_pending c \<noteq> [] then Some (take_pending c)
     else do {
       (c1, response) \<leftarrow> Call ios c (fetch_request c);
       case response of
         None \<Rightarrow> Some (c1, None)
       | Some r \<Rightarrow>
           if resp_status r \<noteq> kOk
           then Some (c1\<lparr>cl_error := ''fetch failed with status '' @ map (\<lambda>d. char_of (unat d)) (to_string (unat (status_byte (resp_status r))))\<rparr>, None)
           else if length (resp_payload r) < 4 then Some (c1, None)
           else do {
             message_count \<leftarrow> map_option unat (Get32 (resp_payload r) 0);
             if message_count = 0 then Some (c1, None)
             else if message_count > 100000 then Some (c1\<lparr>cl_error := ''too many messages in fetch response''\<rparr>, None)
             else do {
               read \<leftarrow> read_messages (resp_payload r) message_count 4 [];
               Some (case read of
                 Inl err \<Rightarrow> (c1\<lparr>cl_error := err, cl_pending := []\<rparr>, None)
               | Inr (messages, pos) \<Rightarrow>
                   if pos \<noteq> length (resp_payload r) \<or> messages = []
                   then (c1\<lparr>cl_error := ''invalid fetch response length'', cl_pending := []\<rparr>, None)
                   else take_pending (c1\<lparr>cl_pending := messages\<rparr>)) } } })"

definition commit :: "attempt list \<Rightarrow> client \<Rightarrow> u64 \<Rightarrow> (client \<times> bool) option" where
  "commit ios c offset =
     map_option (map_prod id is_ok)
       (Call ios c (default_Request\<lparr>req_command := kCommitOffset, req_topic := cl_topic c,
          req_payload := Put16 (of_nat (length (cl_group c))) @ cl_group c @ Put32 (cl_partition c) @ Put64 offset\<rparr>))"

end
