(* ===== verification/Network.thy ===== *)
theory Network
  imports Protocol
begin

text \<open>
  Memory pools, read buffers and connections: \<^verbatim>\<open>src/core/memory_pool.cc\<close>, \<^verbatim>\<open>src/network/buffer.cc\<close> and
  \<^verbatim>\<open>src/network/tcp_connection.cc\<close>. Sizes are natural numbers below \<open>2 ^ 64\<close>; a subtraction of
  sizes is \<open>size_sub\<close>, which wraps around as \<^verbatim>\<open>std::size_t\<close> does, so that the invariants have to show that it never
  does. An access outside a buffer is the value \<open>None\<close>. \<open>owner\<close> says whether the call runs on the thread that
  owns the object.
\<close>

section \<open>Sizes\<close>

definition size_sub :: "nat \<Rightarrow> nat \<Rightarrow> nat" where
  "size_sub a b = (a + 2 ^ 64 - b) mod 2 ^ 64"

lemma size_sub_eq [simp]: "b \<le> a \<Longrightarrow> a < 2 ^ 64 \<Longrightarrow> size_sub a b = a - b"
  unfolding size_sub_def by (simp add: mod_if)

section \<open>Memory pools\<close>

text \<open>A block is its offset in the pool's storage.\<close>

record MemoryPool =
  mp_capacity :: nat
  mp_used :: nat

definition new_MemoryPool :: "nat \<Rightarrow> MemoryPool result" where
  "new_MemoryPool capacity_bytes =
    (if capacity_bytes = 0 then Inl ''capacity_bytes must be positive''
     else Inr \<lparr>mp_capacity = capacity_bytes, mp_used = 0\<rparr>)"

definition pool_Allocate :: "bool \<Rightarrow> MemoryPool \<Rightarrow> nat \<Rightarrow> nat \<Rightarrow> MemoryPool \<times> nat option" where
  "pool_Allocate owner pool sz alignment =
    (if \<not> owner \<or> sz = 0 \<or> alignment = 0 \<or> alignment AND (alignment - 1) \<noteq> 0 then (pool, None)
     else
       let remainder = mp_used pool AND (alignment - 1);
           padding = (if remainder = 0 then 0 else size_sub alignment remainder);
           free = size_sub (mp_capacity pool) (mp_used pool) in
       if padding > free \<or> sz > size_sub free padding then (pool, None)
       else (pool\<lparr>mp_used := mp_used pool + (padding + sz)\<rparr>, Some (mp_used pool + padding)))"

definition pool_Reset :: "MemoryPool \<Rightarrow> MemoryPool" where
  "pool_Reset pool = pool\<lparr>mp_used := 0\<rparr>"

definition pool_ok :: "MemoryPool \<Rightarrow> bool" where
  "pool_ok pool \<longleftrightarrow> mp_used pool \<le> mp_capacity pool \<and> mp_capacity pool < 2 ^ 64"

text \<open>The test \<^verbatim>\<open>alignment & (alignment - 1)\<close> accepts exactly the powers of two.\<close>

lemma power_of_two_test:
  "n \<noteq> 0 \<Longrightarrow> n AND (n - 1) = 0 \<longleftrightarrow> (\<exists>k. n = 2 ^ k)" for n :: nat
proof (induction n rule: less_induct)
  case (less n)
  show ?case
  proof (cases "even n")
    case True
    then obtain m where m: "n = 2 * m" by blast
    with less.prems have pos: "m \<noteq> 0" by simp
    have "n AND (n - 1) = 2 * (m AND (m - 1))"
    proof -
      have "(n - 1) div 2 = m - 1" using m pos by simp
      then show ?thesis using m by (subst and_rec) simp
    qed
    moreover have "(\<exists>k. n = 2 ^ k) \<longleftrightarrow> (\<exists>k. m = 2 ^ k)"
    proof
      assume "\<exists>k. n = 2 ^ k"
      then obtain k where k: "n = 2 ^ k" by blast
      with m pos have "k \<noteq> 0" by (cases k) auto
      with k m show "\<exists>k. m = 2 ^ k" by (cases k) auto
    next
      assume "\<exists>k. m = 2 ^ k"
      then show "\<exists>k. n = 2 ^ k" using m by (metis power_Suc)
    qed
    ultimately show ?thesis using less.IH [of m] m pos by simp
  next
    case False
    then obtain m where m: "n = Suc (2 * m)" by (auto elim: oddE)
    have "n AND (n - 1) = 2 * m" unfolding m by (subst and_rec) simp
    moreover have "(\<exists>k. n = 2 ^ k) \<longleftrightarrow> m = 0"
    proof
      assume "\<exists>k. n = 2 ^ k"
      then obtain k where k: "n = 2 ^ k" by blast
      with False have "k = 0" by (cases k) auto
      with k m show "m = 0" by simp
    next
      assume "m = 0"
      then have "n = 2 ^ 0" using m by simp
      then show "\<exists>k. n = 2 ^ k" ..
    qed
    ultimately show ?thesis by simp
  qed
qed

lemma and_low_bits: "a AND (2 ^ k - 1) = a mod 2 ^ k" for a :: nat
  by (simp add: take_bit_eq_mask mask_eq_exp_minus_1 flip: take_bit_eq_mod)

text \<open>What an allocation does: it moves the mark past a free, aligned block, or changes nothing.\<close>

lemma pool_Allocate_ok:
  assumes ok: "pool_ok pool" and al: "alignment < 2 ^ 64" and run: "pool_Allocate owner pool sz alignment = (pool', r)"
  shows "pool_ok pool' \<and> mp_capacity pool' = mp_capacity pool \<and>
    (case r of None \<Rightarrow> pool' = pool
     | Some off \<Rightarrow> owner \<and> 0 < sz \<and> mp_used pool \<le> off \<and> off + sz = mp_used pool' \<and> alignment dvd off)"
proof (cases "\<not> owner \<or> sz = 0 \<or> alignment = 0 \<or> alignment AND (alignment - 1) \<noteq> 0")
  case True
  then show ?thesis using run ok by (auto simp: pool_Allocate_def)
next
  case False
  then obtain k where k: "alignment = 2 ^ k" using power_of_two_test by auto
  let ?u = "mp_used pool"
  define rem where "rem = ?u mod 2 ^ k"
  define padding where "padding = (if rem = 0 then 0 else 2 ^ k - rem)"
  have rem: "rem < 2 ^ k" by (simp add: rem_def)
  have free: "size_sub (mp_capacity pool) ?u = mp_capacity pool - ?u" "?u \<le> mp_capacity pool" "mp_capacity pool < 2 ^ 64"
    using ok by (simp_all add: pool_ok_def)
  have low: "?u AND (2 ^ k - Suc 0) = rem" using and_low_bits [of ?u k] by (simp add: rem_def)
  have pad: "(if rem = 0 then 0 else size_sub (2 ^ k) rem) = padding"
    using rem al k by (simp add: padding_def)
  have dvd: "2 ^ k dvd ?u + padding"
  proof (cases "rem = 0")
    case True
    then show ?thesis by (simp add: padding_def rem_def dvd_eq_mod_eq_0)
  next
    case False
    have "?u + padding = 2 ^ k * (?u div 2 ^ k) + rem + (2 ^ k - rem)" using False by (simp add: padding_def rem_def)
    also have "\<dots> = 2 ^ k * (?u div 2 ^ k + 1)" using rem by simp
    finally show ?thesis by simp
  qed
  have "(pool', r) = (if padding > mp_capacity pool - ?u \<or> sz > size_sub (mp_capacity pool - ?u) padding then (pool, None)
      else (pool\<lparr>mp_used := ?u + (padding + sz)\<rparr>, Some (?u + padding)))"
    using run False unfolding pool_Allocate_def k Let_def One_nat_def low pad free by simp
  with False ok free dvd k show ?thesis
    by (auto simp: pool_ok_def split: if_splits)
qed

text \<open>A run of allocations, with the blocks it hands out.\<close>

definition block_before :: "nat \<times> nat \<times> nat \<Rightarrow> nat \<times> nat \<times> nat \<Rightarrow> bool" where
  "block_before b1 b2 \<longleftrightarrow> fst b1 + fst (snd b1) \<le> fst b2"

fun allocations :: "MemoryPool \<Rightarrow> (nat \<times> nat) list \<Rightarrow> MemoryPool \<times> (nat \<times> nat \<times> nat) list" where
  "allocations pool [] = (pool, [])"
| "allocations pool ((sz, alignment) # requests) =
    (case pool_Allocate True pool sz alignment of
       (pool', r) \<Rightarrow> (case allocations pool' requests of
         (pool'', blocks) \<Rightarrow> (pool'', (case r of None \<Rightarrow> blocks | Some off \<Rightarrow> (off, sz, alignment) # blocks))))"

lemma allocations_ok:
  assumes "pool_ok pool" and "\<forall>(sz, alignment) \<in> set requests. alignment < 2 ^ 64" and "allocations pool requests = (pool', blocks)"
  shows "pool_ok pool' \<and> mp_capacity pool' = mp_capacity pool \<and> mp_used pool \<le> mp_used pool' \<and>
    sorted_wrt block_before blocks \<and>
    (\<forall>(off, sz, alignment) \<in> set blocks. mp_used pool \<le> off \<and> off + sz \<le> mp_used pool' \<and> 0 < sz \<and> alignment dvd off)"
  using assms
proof (induction pool requests arbitrary: pool' blocks rule: allocations.induct)
  case (1 pool)
  then show ?case by simp
next
  case (2 pool sz alignment requests)
  obtain p1 r where a: "pool_Allocate True pool sz alignment = (p1, r)" by fastforce
  obtain bs where rest: "allocations p1 requests = (pool', bs)" and blocks: "blocks = (case r of None \<Rightarrow> bs | Some off \<Rightarrow> (off, sz, alignment) # bs)"
    using 2(4) a by (auto split: prod.splits)
  have p1: "pool_ok p1 \<and> mp_capacity p1 = mp_capacity pool \<and> (case r of None \<Rightarrow> p1 = pool
      | Some off \<Rightarrow> True \<and> 0 < sz \<and> mp_used pool \<le> off \<and> off + sz = mp_used p1 \<and> alignment dvd off)"
    using pool_Allocate_ok [OF 2(2) _ a] 2(3) by simp
  have IH: "pool_ok pool' \<and> mp_capacity pool' = mp_capacity p1 \<and> mp_used p1 \<le> mp_used pool' \<and>
    sorted_wrt block_before bs \<and>
    (\<forall>(off, sz, alignment) \<in> set bs. mp_used p1 \<le> off \<and> off + sz \<le> mp_used pool' \<and> 0 < sz \<and> alignment dvd off)"
    using 2(1) [OF a [symmetric] _ _ rest] p1 2(3) by auto
  show ?case
  proof (cases r)
    case None
    then show ?thesis using IH p1 blocks by simp
  next
    case (Some off)
    then have off: "0 < sz" "mp_used pool \<le> off" "off + sz = mp_used p1" "alignment dvd off" "mp_capacity p1 = mp_capacity pool" using p1 by simp_all
    have "\<forall>b \<in> set bs. block_before (off, sz, alignment) b" using IH off(3) by (auto simp: block_before_def)
    with IH off Some blocks show ?thesis by auto
  qed
qed

section \<open>Read buffers\<close>

record Buffer =
  bf_data :: bytes
  bf_capacity :: nat
  bf_read :: nat
  bf_write :: nat

definition readable_bytes :: "Buffer \<Rightarrow> nat" where
  "readable_bytes b = size_sub (bf_write b) (bf_read b)"

definition writable_bytes :: "Buffer \<Rightarrow> nat" where
  "writable_bytes b = size_sub (bf_capacity b) (bf_write b)"

definition new_Buffer :: "bool \<Rightarrow> MemoryPool option \<Rightarrow> nat \<Rightarrow> MemoryPool option \<times> Buffer result" where
  "new_Buffer owner pool capacity_bytes =
    (case pool of
       None \<Rightarrow> (pool, Inl ''buffer must be created by its memory pool owner'')
     | Some p \<Rightarrow>
         if capacity_bytes = 0 \<or> \<not> owner then (pool, Inl ''buffer must be created by its memory pool owner'')
         else case pool_Allocate owner p capacity_bytes 1 of
           (p', None) \<Rightarrow> (Some p', Inl ''std::bad_alloc'')
         | (p', Some _) \<Rightarrow>
             (Some p', Inr \<lparr>bf_data = replicate capacity_bytes 0, bf_capacity = capacity_bytes, bf_read = 0, bf_write = 0\<rparr>))"

text \<open>Copying into the storage and out of it, inside its bounds.\<close>

definition memcpy :: "bytes \<Rightarrow> nat \<Rightarrow> bytes \<Rightarrow> bytes option" where
  "memcpy storage position source =
    (if position + length source \<le> length storage
     then Some (take position storage @ source @ drop (position + length source) storage) else None)"

definition slice :: "bytes \<Rightarrow> nat \<Rightarrow> nat \<Rightarrow> bytes option" where
  "slice storage position n = (if position + n \<le> length storage then Some (take n (drop position storage)) else None)"

definition Compact :: "Buffer \<Rightarrow> Buffer option" where
  "Compact b = do {
     kept \<leftarrow> slice (bf_data b) (bf_read b) (readable_bytes b);
     storage \<leftarrow> memcpy (bf_data b) 0 kept;
     Some (b\<lparr>bf_data := storage, bf_read := 0, bf_write := readable_bytes b\<rparr>) }"

definition Buffer_Append :: "Buffer \<Rightarrow> bytes \<Rightarrow> (Buffer \<times> bool) option" where
  "Buffer_Append b input =
    (if length input > size_sub (bf_capacity b) (readable_bytes b) then Some (b, False)
     else do {
       b1 \<leftarrow> (if length input > writable_bytes b then Compact b else Some b);
       storage \<leftarrow> memcpy (bf_data b1) (bf_write b1) input;
       Some (b1\<lparr>bf_data := storage, bf_write := bf_write b1 + length input\<rparr>, True) })"

definition Readable :: "Buffer \<Rightarrow> bytes option" where
  "Readable b = slice (bf_data b) (bf_read b) (readable_bytes b)"

definition Clear :: "Buffer \<Rightarrow> Buffer" where
  "Clear b = b\<lparr>bf_read := 0, bf_write := 0\<rparr>"

definition Consume :: "Buffer \<Rightarrow> nat \<Rightarrow> Buffer" where
  "Consume b n = (if n \<ge> readable_bytes b then Clear b else b\<lparr>bf_read := bf_read b + n\<rparr>)"

section \<open>Connections\<close>

record TcpConnection =
  cn_open :: bool
  cn_decoder :: bytes
  cn_read_buffer :: Buffer
  cn_write_capacity :: nat
  cn_write_queue :: "bytes list"
  cn_queued_bytes :: nat
  cn_front_offset :: nat

definition new_TcpConnection :: "bool \<Rightarrow> MemoryPool option \<Rightarrow> nat \<Rightarrow> nat \<Rightarrow> MemoryPool option \<times> TcpConnection result" where
  "new_TcpConnection in_loop pool read_capacity write_capacity =
    (case new_Buffer in_loop pool read_capacity of
       (pool', Inl err) \<Rightarrow> (pool', Inl err)
     | (pool', Inr buffer) \<Rightarrow>
         (pool', if \<not> in_loop then Inl ''connection must be created by its event loop owner''
                 else Inr \<lparr>cn_open = True, cn_decoder = [], cn_read_buffer = buffer, cn_write_capacity = write_capacity,
                           cn_write_queue = [], cn_queued_bytes = 0, cn_front_offset = 0\<rparr>))"

definition DecodeRequests :: "bool \<Rightarrow> TcpConnection \<Rightarrow> bytes \<Rightarrow> (TcpConnection \<times> Request list \<times> bool) option" where
  "DecodeRequests in_loop c input =
    (if \<not> in_loop \<or> \<not> cn_open c then Some (c, [], False)
     else do {
       (buffer, requests, err) \<leftarrow> Push (cn_decoder c) input;
       Some (c\<lparr>cn_decoder := buffer\<rparr>, requests, err = None) })"

text \<open>What closing does on the owner's thread, at once or as a queued task.\<close>

definition drop_buffers :: "TcpConnection \<Rightarrow> TcpConnection" where
  "drop_buffers c = c\<lparr>cn_read_buffer := Clear (cn_read_buffer c), cn_write_queue := [], cn_queued_bytes := 0, cn_front_offset := 0\<rparr>"

text \<open>The second component says whether the clearing is left to a task of the loop.\<close>

definition connection_Close :: "bool \<Rightarrow> TcpConnection \<Rightarrow> TcpConnection \<times> bool" where
  "connection_Close in_loop c =
    (if \<not> cn_open c then (c, False)
     else if \<not> in_loop then (c\<lparr>cn_open := False\<rparr>, True)
     else (drop_buffers (c\<lparr>cn_open := False\<rparr>), False))"

definition OnReadable :: "bool \<Rightarrow> (bytes \<Rightarrow> nat) option \<Rightarrow> TcpConnection \<Rightarrow> bytes \<Rightarrow> (TcpConnection \<times> bool) option" where
  "OnReadable in_loop read_callback c input =
    (if \<not> in_loop \<or> \<not> cn_open c then Some (c, False)
     else do {
       (buffer, ok) \<leftarrow> Buffer_Append (cn_read_buffer c) input;
       let c1 = c\<lparr>cn_read_buffer := buffer\<rparr>;
       if \<not> ok then Some (c1, False)
       else case read_callback of
         None \<Rightarrow> Some (c1, True)
       | Some callback \<Rightarrow> do {
           available \<leftarrow> Readable buffer;
           let consumed = callback available;
           if consumed > readable_bytes buffer then Some (fst (connection_Close in_loop c1), False)
           else Some (c1\<lparr>cn_read_buffer := Consume buffer consumed\<rparr>, True) } })"

definition AppendWrite :: "bool \<Rightarrow> TcpConnection \<Rightarrow> bytes \<Rightarrow> TcpConnection \<times> bool" where
  "AppendWrite in_loop c frame =
    (if \<not> in_loop \<or> \<not> cn_open c then (c, False)
     else if cn_queued_bytes c > cn_write_capacity c \<or> length frame > size_sub (cn_write_capacity c) (cn_queued_bytes c) then (c, False)
     else (c\<lparr>cn_write_queue := cn_write_queue c @ [frame], cn_queued_bytes := cn_queued_bytes c + length frame\<rparr>, True))"

text \<open>
  \<^verbatim>\<open>Send\<close> writes at once on the owner's thread and otherwise leaves the frame to the loop, if its queue takes the
  task; \<open>run_send\<close> is that task.
\<close>

definition Send :: "bool \<Rightarrow> bool \<Rightarrow> TcpConnection \<Rightarrow> bytes \<Rightarrow> TcpConnection \<times> bytes option \<times> bool" where
  "Send in_loop task_queued c frame =
    (if \<not> cn_open c then (c, None, False)
     else if in_loop then (case AppendWrite in_loop c frame of (c', ok) \<Rightarrow> (c', None, ok))
     else (c, if task_queued then Some frame else None, task_queued))"

definition run_send :: "TcpConnection \<Rightarrow> bytes \<Rightarrow> TcpConnection" where
  "run_send c frame =
    (if \<not> cn_open c then c
     else case AppendWrite True c frame of (c', True) \<Rightarrow> c' | (c', False) \<Rightarrow> fst (connection_Close True c'))"

definition Writable :: "bool \<Rightarrow> TcpConnection \<Rightarrow> bytes" where
  "Writable in_loop c =
    (if \<not> in_loop then [] else case cn_write_queue c of [] \<Rightarrow> [] | front # _ \<Rightarrow> drop (cn_front_offset c) front)"

definition ConsumeWritten :: "bool \<Rightarrow> TcpConnection \<Rightarrow> nat \<Rightarrow> TcpConnection result" where
  "ConsumeWritten in_loop c n =
    (if \<not> in_loop then Inl ''writes must be consumed by owner thread''
     else case cn_write_queue c of
       [] \<Rightarrow> Inl ''written bytes exceed pending output''
     | front # rest \<Rightarrow>
         if n > size_sub (length front) (cn_front_offset c) then Inl ''written bytes exceed pending output''
         else
           let c1 = c\<lparr>cn_front_offset := cn_front_offset c + n, cn_queued_bytes := size_sub (cn_queued_bytes c) n\<rparr> in
           Inr (if cn_front_offset c1 = length front then c1\<lparr>cn_write_queue := rest, cn_front_offset := 0\<rparr> else c1))"

section \<open>Byte queues\<close>

text \<open>
  What the read buffer and the output of a connection both promise: bytes come out in the order they went in.
  \<open>put\<close> takes a piece or refuses it whole, \<open>take_out\<close> removes bytes from the front, as many as are \<open>visible\<close>.
\<close>

datatype queue_op = Put bytes | Get nat

fun queue_run ::
  "('q \<Rightarrow> bytes \<Rightarrow> ('q \<times> bool) option) \<Rightarrow> ('q \<Rightarrow> nat \<Rightarrow> 'q option) \<Rightarrow> ('q \<Rightarrow> bytes option) \<Rightarrow> 'q \<Rightarrow> queue_op list \<Rightarrow>
     ('q \<times> bytes \<times> bytes) option" where
  "queue_run put take_out visible q [] = Some (q, [], [])"
| "queue_run put take_out visible q (Put piece # ops) = do {
     (q1, ok) \<leftarrow> put q piece;
     (q2, accepted, delivered) \<leftarrow> queue_run put take_out visible q1 ops;
     Some (q2, (if ok then piece else []) @ accepted, delivered) }"
| "queue_run put take_out visible q (Get n # ops) = do {
     front \<leftarrow> visible q;
     q1 \<leftarrow> (if front = [] then Some q else take_out q (min n (length front)));
     (q2, accepted, delivered) \<leftarrow> queue_run put take_out visible q1 ops;
     Some (q2, accepted, take n front @ delivered) }"

definition pieces_nonempty :: "queue_op list \<Rightarrow> bool" where
  "pieces_nonempty ops \<longleftrightarrow> list_all (\<lambda>op. case op of Put piece \<Rightarrow> piece \<noteq> [] | Get n \<Rightarrow> True) ops"

locale byte_queue =
  fixes invar :: "'q \<Rightarrow> bool" and contents :: "'q \<Rightarrow> bytes" and limit :: "'q \<Rightarrow> nat"
    and put :: "'q \<Rightarrow> bytes \<Rightarrow> ('q \<times> bool) option" and take_out :: "'q \<Rightarrow> nat \<Rightarrow> 'q option" and visible :: "'q \<Rightarrow> bytes option"
  assumes put_ok: "invar q \<Longrightarrow> piece \<noteq> [] \<Longrightarrow> length piece < 2 ^ 64 \<Longrightarrow>
      \<exists>q' ok. put q piece = Some (q', ok) \<and> invar q' \<and> limit q' = limit q \<and>
        (ok \<longleftrightarrow> length (contents q) + length piece \<le> limit q) \<and> contents q' = (if ok then contents q @ piece else contents q)"
    and visible_ok: "invar q \<Longrightarrow> \<exists>front. visible q = Some front \<and> prefix front (contents q) \<and> (front = [] \<longrightarrow> contents q = [])"
    and take_out_ok: "invar q \<Longrightarrow> visible q = Some front \<Longrightarrow> 0 < n \<Longrightarrow> n \<le> length front \<Longrightarrow>
      \<exists>q'. take_out q n = Some q' \<and> invar q' \<and> limit q' = limit q \<and> contents q' = drop n (contents q)"
    and bounded: "invar q \<Longrightarrow> length (contents q) \<le> limit q"
begin

lemma fifo:
  assumes "invar q" and "pieces_nonempty ops" and "\<forall>op \<in> set ops. case op of Put piece \<Rightarrow> length piece < 2 ^ 64 | Get n \<Rightarrow> 0 < n"
    and "queue_run put take_out visible q ops = Some (q', accepted, delivered)"
  shows "invar q' \<and> limit q' = limit q \<and> contents q @ accepted = delivered @ contents q' \<and> length (contents q') \<le> limit q"
  using assms
proof (induction ops arbitrary: q accepted delivered)
  case Nil
  then show ?case using bounded by auto
next
  case (Cons op ops)
  show ?case
  proof (cases op)
    case (Put piece)
    then obtain q1 ok where q1: "put q piece = Some (q1, ok)" "invar q1" "limit q1 = limit q"
      "contents q1 = (if ok then contents q @ piece else contents q)"
      using put_ok [of q piece] Cons.prems by (auto simp: pieces_nonempty_def)
    with Cons.prems(4) Put obtain acc where run: "queue_run put take_out visible q1 ops = Some (q', acc, delivered)"
      "accepted = (if ok then piece else []) @ acc" by (auto simp: bind_eq_Some_conv)
    from Cons.IH [OF q1(2) _ _ run(1)] Cons.prems(2,3) have
      "invar q' \<and> limit q' = limit q1 \<and> contents q1 @ acc = delivered @ contents q' \<and> length (contents q') \<le> limit q1"
      by (simp add: pieces_nonempty_def)
    then show ?thesis using q1 run by auto
  next
    case (Get n)
    obtain front where front: "visible q = Some front" "prefix front (contents q)" using visible_ok [OF Cons.prems(1)] by blast
    have "0 < n" using Cons.prems(3) Get by simp
    obtain q1 where q1: "(if front = [] then Some q else take_out q (min n (length front))) = Some q1" "invar q1" "limit q1 = limit q"
      "contents q = take n front @ contents q1"
    proof (cases "front = []")
      case False
      with \<open>0 < n\<close> take_out_ok [OF Cons.prems(1) front(1), of "min n (length front)"] obtain q1 where
        "take_out q (min n (length front)) = Some q1" "invar q1" "limit q1 = limit q"
        "contents q1 = drop (min n (length front)) (contents q)" by auto
      moreover have "take (min n (length front)) (contents q) = take n front" using front(2) by (auto simp: prefix_def min_def)
      ultimately show thesis using False that [of q1] by (metis append_take_drop_id)
    qed (use Cons.prems(1) in \<open>auto intro: that [of q]\<close>)
    with Cons.prems(4) Get front(1) obtain del where run: "queue_run put take_out visible q1 ops = Some (q', accepted, del)"
      "delivered = take n front @ del" by (auto simp: bind_eq_Some_conv split: if_splits)
    from Cons.IH [OF q1(2) _ _ run(1)] Cons.prems(2,3) have
      "invar q' \<and> limit q' = limit q1 \<and> contents q1 @ accepted = del @ contents q' \<and> length (contents q') \<le> limit q1"
      by (simp add: pieces_nonempty_def)
    then show ?thesis using q1 run by auto
  qed
qed

lemma runs:
  assumes "invar q" and "pieces_nonempty ops" and "\<forall>op \<in> set ops. case op of Put piece \<Rightarrow> length piece < 2 ^ 64 | Get n \<Rightarrow> 0 < n"
  shows "queue_run put take_out visible q ops \<noteq> None"
  using assms
proof (induction ops arbitrary: q)
  case Nil
  then show ?case by simp
next
  case (Cons op ops)
  show ?case
  proof (cases op)
    case (Put piece)
    then obtain q1 ok where "put q piece = Some (q1, ok)" "invar q1"
      using put_ok [of q piece] Cons.prems by (auto simp: pieces_nonempty_def)
    then show ?thesis using Cons.IH [of q1] Cons.prems(2,3) Put by (auto simp: pieces_nonempty_def)
  next
    case (Get n)
    obtain front where front: "visible q = Some front" using visible_ok [OF Cons.prems(1)] by blast
    have "0 < n" using Cons.prems(3) Get by simp
    then obtain q1 where "(if front = [] then Some q else take_out q (min n (length front))) = Some q1" "invar q1"
      using take_out_ok [OF Cons.prems(1) front, of "min n (length front)"] Cons.prems(1) by (cases "front = []") auto
    then show ?thesis using Cons.IH [of q1] Cons.prems(2,3) Get front by (auto simp: pieces_nonempty_def)
  qed
qed

end

section \<open>The buffer is a byte queue\<close>

definition buffer_ok :: "Buffer \<Rightarrow> bool" where
  "buffer_ok b \<longleftrightarrow> bf_read b \<le> bf_write b \<and> bf_write b \<le> bf_capacity b \<and> length (bf_data b) = bf_capacity b \<and> bf_capacity b < 2 ^ 64"

definition buffer_contents :: "Buffer \<Rightarrow> bytes" where
  "buffer_contents b = take (bf_write b - bf_read b) (drop (bf_read b) (bf_data b))"

lemma buffer_sizes:
  assumes "buffer_ok b"
  shows "readable_bytes b = bf_write b - bf_read b" "writable_bytes b = bf_capacity b - bf_write b"
    "length (buffer_contents b) = bf_write b - bf_read b"
    "size_sub (bf_capacity b) (bf_write b - bf_read b) = bf_capacity b - (bf_write b - bf_read b)"
proof -
  have le: "bf_read b \<le> bf_write b" "bf_write b \<le> bf_capacity b" "length (bf_data b) = bf_capacity b" "bf_capacity b < 2 ^ 64"
    using assms by (simp_all add: buffer_ok_def)
  show "readable_bytes b = bf_write b - bf_read b" "writable_bytes b = bf_capacity b - bf_write b"
    using le by (simp_all add: readable_bytes_def writable_bytes_def)
  show "length (buffer_contents b) = bf_write b - bf_read b" using le by (simp add: buffer_contents_def)
  show "size_sub (bf_capacity b) (bf_write b - bf_read b) = bf_capacity b - (bf_write b - bf_read b)"
    using le by (intro size_sub_eq) linarith+
qed

lemma Compact_ok:
  assumes "buffer_ok b"
  shows "\<exists>b'. Compact b = Some b' \<and> buffer_ok b' \<and> bf_capacity b' = bf_capacity b \<and> buffer_contents b' = buffer_contents b \<and>
    bf_read b' = 0 \<and> bf_write b' = bf_write b - bf_read b"
proof -
  define n where "n = bf_write b - bf_read b"
  have le: "bf_read b + n \<le> length (bf_data b)" "length (bf_data b) = bf_capacity b" "n \<le> bf_capacity b" "bf_capacity b < 2 ^ 64"
    using assms by (auto simp: buffer_ok_def n_def)
  have "Compact b = Some (b\<lparr>bf_data := take n (drop (bf_read b) (bf_data b)) @ drop n (bf_data b), bf_read := 0, bf_write := n\<rparr>)"
    using le by (simp add: Compact_def slice_def memcpy_def buffer_sizes [OF assms] min_absorb2 flip: n_def)
  with le show ?thesis by (simp add: buffer_ok_def buffer_contents_def min_absorb2 flip: n_def)
qed

lemma memcpy_at_end:
  assumes "buffer_ok b" and "length input \<le> bf_capacity b - bf_write b"
  shows "\<exists>storage. memcpy (bf_data b) (bf_write b) input = Some storage \<and>
    buffer_ok (b\<lparr>bf_data := storage, bf_write := bf_write b + length input\<rparr>) \<and>
    buffer_contents (b\<lparr>bf_data := storage, bf_write := bf_write b + length input\<rparr>) = buffer_contents b @ input"
proof -
  have le: "bf_write b + length input \<le> bf_capacity b" "bf_read b \<le> bf_write b" using assms by (auto simp: buffer_ok_def)
  then show ?thesis
    using assms(1) by (auto simp: memcpy_def buffer_ok_def buffer_contents_def take_drop)
qed

lemma Buffer_Append_ok:
  assumes "buffer_ok b"
  shows "\<exists>b' ok. Buffer_Append b input = Some (b', ok) \<and> buffer_ok b' \<and> bf_capacity b' = bf_capacity b \<and>
    (ok \<longleftrightarrow> length (buffer_contents b) + length input \<le> bf_capacity b) \<and>
    buffer_contents b' = (if ok then buffer_contents b @ input else buffer_contents b)"
proof (cases "length input > bf_capacity b - (bf_write b - bf_read b)")
  case True
  then show ?thesis using assms by (auto simp: Buffer_Append_def buffer_sizes buffer_ok_def)
next
  case False
  obtain b1 where b1: "(if length input > writable_bytes b then Compact b else Some b) = Some b1" "buffer_ok b1"
    "bf_capacity b1 = bf_capacity b" "buffer_contents b1 = buffer_contents b" "length input \<le> bf_capacity b1 - bf_write b1"
  proof (cases "length input > writable_bytes b")
    case True
    then show thesis using Compact_ok [OF assms] False that by auto
  next
    case fits: False
    then show thesis using assms that [of b] by (simp add: buffer_sizes)
  qed
  from memcpy_at_end [OF b1(2,5)] obtain storage where "memcpy (bf_data b1) (bf_write b1) input = Some storage"
    "buffer_ok (b1\<lparr>bf_data := storage, bf_write := bf_write b1 + length input\<rparr>)"
    "buffer_contents (b1\<lparr>bf_data := storage, bf_write := bf_write b1 + length input\<rparr>) = buffer_contents b1 @ input" by blast
  with False b1 assms show ?thesis
    by (auto simp: Buffer_Append_def buffer_sizes buffer_ok_def)
qed

lemma Readable_ok: "buffer_ok b \<Longrightarrow> Readable b = Some (buffer_contents b)"
  by (simp add: Readable_def slice_def buffer_sizes) (simp add: buffer_ok_def buffer_contents_def)

lemma Consume_ok:
  assumes "buffer_ok b" and "n \<le> length (buffer_contents b)"
  shows "buffer_ok (Consume b n) \<and> bf_capacity (Consume b n) = bf_capacity b \<and> buffer_contents (Consume b n) = drop n (buffer_contents b)"
  using assms by (auto simp: Consume_def Clear_def buffer_sizes) (auto simp: buffer_ok_def buffer_contents_def drop_take add.commute)

interpretation read_buffer: byte_queue buffer_ok buffer_contents bf_capacity Buffer_Append "\<lambda>b n. Some (Consume b n)" Readable
proof
  fix b :: Buffer and piece front n
  show "buffer_ok b \<Longrightarrow> \<exists>q' ok. Buffer_Append b piece = Some (q', ok) \<and> buffer_ok q' \<and> bf_capacity q' = bf_capacity b \<and>
      (ok \<longleftrightarrow> length (buffer_contents b) + length piece \<le> bf_capacity b) \<and>
      buffer_contents q' = (if ok then buffer_contents b @ piece else buffer_contents b)"
    by (rule Buffer_Append_ok)
  show "buffer_ok b \<Longrightarrow> \<exists>front. Readable b = Some front \<and> prefix front (buffer_contents b) \<and> (front = [] \<longrightarrow> buffer_contents b = [])"
    by (simp add: Readable_ok)
  show "buffer_ok b \<Longrightarrow> Readable b = Some front \<Longrightarrow> 0 < n \<Longrightarrow> n \<le> length front \<Longrightarrow>
      \<exists>q'. Some (Consume b n) = Some q' \<and> buffer_ok q' \<and> bf_capacity q' = bf_capacity b \<and> buffer_contents q' = drop n (buffer_contents b)"
    using Consume_ok by (simp add: Readable_ok)
  show "buffer_ok b \<Longrightarrow> length (buffer_contents b) \<le> bf_capacity b" by (simp add: buffer_sizes) (auto simp: buffer_ok_def)
qed

section \<open>The output of a connection is a byte queue\<close>

definition conn_ok :: "TcpConnection \<Rightarrow> bool" where
  "conn_ok c \<longleftrightarrow> cn_open c \<and> cn_write_capacity c < 2 ^ 64 \<and>
     (\<forall>frame \<in> set (cn_write_queue c). frame \<noteq> [] \<and> length frame \<le> cn_write_capacity c) \<and>
     (case cn_write_queue c of [] \<Rightarrow> cn_front_offset c = 0 | front # _ \<Rightarrow> cn_front_offset c < length front) \<and>
     cn_queued_bytes c + cn_front_offset c = length (concat (cn_write_queue c)) \<and> cn_queued_bytes c \<le> cn_write_capacity c"

definition output_pending :: "TcpConnection \<Rightarrow> bytes" where
  "output_pending c = drop (cn_front_offset c) (concat (cn_write_queue c))"

lemma length_output_pending: "conn_ok c \<Longrightarrow> length (output_pending c) = cn_queued_bytes c"
  by (auto simp: conn_ok_def output_pending_def)

lemma AppendWrite_ok:
  assumes ok: "conn_ok c" and "frame \<noteq> []"
  shows "\<exists>c' r. AppendWrite True c frame = (c', r) \<and> conn_ok c' \<and> cn_write_capacity c' = cn_write_capacity c \<and>
    (r \<longleftrightarrow> length (output_pending c) + length frame \<le> cn_write_capacity c) \<and>
    output_pending c' = (if r then output_pending c @ frame else output_pending c)"
proof -
  have facts: "cn_open c" "cn_queued_bytes c \<le> cn_write_capacity c" "cn_write_capacity c < 2 ^ 64"
    "cn_queued_bytes c + cn_front_offset c = length (concat (cn_write_queue c))"
    using ok by (simp_all add: conn_ok_def)
  then have run: "AppendWrite True c frame =
      (if length frame \<le> cn_write_capacity c - cn_queued_bytes c
       then (c\<lparr>cn_write_queue := cn_write_queue c @ [frame], cn_queued_bytes := cn_queued_bytes c + length frame\<rparr>, True) else (c, False))"
    by (simp add: AppendWrite_def)
  show ?thesis
  proof (cases "length frame \<le> cn_write_capacity c - cn_queued_bytes c")
    case True
    then have "conn_ok (c\<lparr>cn_write_queue := cn_write_queue c @ [frame], cn_queued_bytes := cn_queued_bytes c + length frame\<rparr>)"
      using ok assms(2) facts by (auto simp: conn_ok_def split: list.splits)
    moreover have "output_pending (c\<lparr>cn_write_queue := cn_write_queue c @ [frame], cn_queued_bytes := cn_queued_bytes c + length frame\<rparr>) =
        output_pending c @ frame"
      using facts(4) by (simp add: output_pending_def)
    ultimately show ?thesis using True run facts by (auto simp: length_output_pending [OF ok])
  next
    case False
    then show ?thesis using run facts ok by (auto simp: length_output_pending [OF ok])
  qed
qed

lemma Writable_ok:
  assumes "conn_ok c"
  shows "prefix (Writable True c) (output_pending c)" and "Writable True c = [] \<longrightarrow> output_pending c = []"
  using assms by (auto simp: Writable_def output_pending_def conn_ok_def split: list.splits)

lemma ConsumeWritten_ok:
  assumes ok: "conn_ok c" and n: "0 < n" "n \<le> length (Writable True c)"
  shows "\<exists>c'. ConsumeWritten True c n = Inr c' \<and> conn_ok c' \<and> cn_write_capacity c' = cn_write_capacity c \<and>
    output_pending c' = drop n (output_pending c)"
proof -
  obtain front rest where q: "cn_write_queue c = front # rest" using n by (cases "cn_write_queue c") (auto simp: Writable_def)
  have facts: "cn_open c" "cn_front_offset c < length front" "length front \<le> cn_write_capacity c" "cn_write_capacity c < 2 ^ 64"
    "cn_queued_bytes c + cn_front_offset c = length front + length (concat rest)" "cn_queued_bytes c \<le> cn_write_capacity c"
    "\<forall>frame \<in> set rest. frame \<noteq> [] \<and> length frame \<le> cn_write_capacity c"
    using ok q by (simp_all add: conn_ok_def)
  have len: "cn_front_offset c + n \<le> length front" using n q by (simp add: Writable_def)
  have sub: "size_sub (length front) (cn_front_offset c) = length front - cn_front_offset c" "size_sub (cn_queued_bytes c) n = cn_queued_bytes c - n"
    using facts len by simp_all
  define c1 where "c1 = c\<lparr>cn_front_offset := cn_front_offset c + n, cn_queued_bytes := cn_queued_bytes c - n\<rparr>"
  have run: "ConsumeWritten True c n =
      Inr (if cn_front_offset c + n = length front then c1\<lparr>cn_write_queue := rest, cn_front_offset := 0\<rparr> else c1)"
    using len by (simp add: ConsumeWritten_def q sub c1_def Let_def)
  show ?thesis
  proof (cases "cn_front_offset c + n = length front")
    case True
    then have "conn_ok (c1\<lparr>cn_write_queue := rest, cn_front_offset := 0\<rparr>)"
      using facts by (auto simp: conn_ok_def c1_def split: list.splits)
    moreover have "output_pending (c1\<lparr>cn_write_queue := rest, cn_front_offset := 0\<rparr>) = drop n (output_pending c)"
      using True by (simp add: output_pending_def q add.commute)
    ultimately show ?thesis using True run by (simp add: c1_def)
  next
    case False
    then have "conn_ok c1" using facts len q by (auto simp: conn_ok_def c1_def)
    moreover have "output_pending c1 = drop n (output_pending c)" by (simp add: output_pending_def c1_def add.commute)
    ultimately show ?thesis using False run by (simp add: c1_def)
  qed
qed

definition consume_output :: "TcpConnection \<Rightarrow> nat \<Rightarrow> TcpConnection option" where
  "consume_output c n = (case ConsumeWritten True c n of Inl _ \<Rightarrow> None | Inr c' \<Rightarrow> Some c')"

interpretation connection_output: byte_queue conn_ok output_pending cn_write_capacity
  "\<lambda>c frame. Some (AppendWrite True c frame)" consume_output "\<lambda>c. Some (Writable True c)"
proof
  fix c :: TcpConnection and piece front :: bytes and n :: nat
  show "conn_ok c \<Longrightarrow> piece \<noteq> [] \<Longrightarrow> \<exists>q' ok. Some (AppendWrite True c piece) = Some (q', ok) \<and> conn_ok q' \<and>
      cn_write_capacity q' = cn_write_capacity c \<and> (ok \<longleftrightarrow> length (output_pending c) + length piece \<le> cn_write_capacity c) \<and>
      output_pending q' = (if ok then output_pending c @ piece else output_pending c)"
    using AppendWrite_ok by simp
  show "conn_ok c \<Longrightarrow> \<exists>front. Some (Writable True c) = Some front \<and> prefix front (output_pending c) \<and> (front = [] \<longrightarrow> output_pending c = [])"
    using Writable_ok by simp
  show "conn_ok c \<Longrightarrow> Some (Writable True c) = Some front \<Longrightarrow> 0 < n \<Longrightarrow> n \<le> length front \<Longrightarrow>
      \<exists>q'. consume_output c n = Some q' \<and> conn_ok q' \<and> cn_write_capacity q' = cn_write_capacity c \<and> output_pending q' = drop n (output_pending c)"
    using ConsumeWritten_ok [of c n] by (auto simp: consume_output_def)
  show "conn_ok c \<Longrightarrow> length (output_pending c) \<le> cn_write_capacity c"
    by (simp add: length_output_pending) (simp add: conn_ok_def)
qed

section \<open>Claims\<close>

text \<open>a memory pool never hands out the same byte twice. The blocks of any sequence of allocations, whatever
  sizes and alignments are asked for, lie inside the pool, one after the other without overlap, each at a multiple of its
  alignment; the size arithmetic never wraps around.\<close>

theorem pool_blocks_disjoint:
  assumes "new_MemoryPool capacity = Inr pool" and "capacity < 2 ^ 64"
    and "\<forall>(sz, alignment) \<in> set requests. alignment < 2 ^ 64" and "allocations pool requests = (pool', blocks)"
  shows "pool_ok pool' \<and> sorted_wrt block_before blocks \<and>
    (\<forall>(off, sz, alignment) \<in> set blocks. 0 < sz \<and> off + sz \<le> capacity \<and> alignment dvd off)"
proof -
  have pool: "pool_ok pool" "mp_capacity pool = capacity" using assms(1,2) by (auto simp: new_MemoryPool_def pool_ok_def split: if_splits)
  from allocations_ok [OF pool(1) assms(3,4)] pool(2) show ?thesis by (fastforce simp: pool_ok_def)
qed

theorem pool_blocks_disjoint_witness:
  "allocations \<lparr>mp_capacity = 64, mp_used = 0\<rparr> [(3, 1), (8, 8), (100, 1), (16, 16)] =
     (\<lparr>mp_capacity = 64, mp_used = 32\<rparr>, [(0, 3, 1), (8, 8, 8), (16, 16, 16)]) \<and> pool_ok \<lparr>mp_capacity = 64, mp_used = 32\<rparr>"
proof -
  have run: "allocations \<lparr>mp_capacity = 64, mp_used = 0\<rparr> [(3, 1), (8, 8), (100, 1), (16, 16)] =
      (\<lparr>mp_capacity = 64, mp_used = 32\<rparr>, [(0, 3, 1), (8, 8, 8), (16, 16, 16)])"
    by (simp add: pool_Allocate_def Let_def)
  have new: "new_MemoryPool 64 = Inr \<lparr>mp_capacity = 64, mp_used = 0\<rparr>" by (simp add: new_MemoryPool_def)
  from pool_blocks_disjoint [OF new _ _ run] run show ?thesis by simp
qed

text \<open>C29: the read buffer and the output of a connection are first-in first-out byte queues: any sequence of writes and
  reads of any sizes runs without leaving the storage, what comes out followed by what is left is what was
  accepted, and never more than the capacity waits.\<close>

theorem byte_queues_fifo:
  assumes "pieces_nonempty ops" and "\<forall>op \<in> set ops. case op of Put piece \<Rightarrow> length piece < 2 ^ 64 | Get n \<Rightarrow> 0 < n"
  shows "(buffer_ok b \<longrightarrow> (\<exists>b' accepted delivered.
      queue_run Buffer_Append (\<lambda>b n. Some (Consume b n)) Readable b ops = Some (b', accepted, delivered) \<and> buffer_ok b' \<and>
      buffer_contents b @ accepted = delivered @ buffer_contents b' \<and> length (buffer_contents b') \<le> bf_capacity b)) \<and>
    (conn_ok c \<longrightarrow> (\<exists>c' accepted delivered.
      queue_run (\<lambda>c frame. Some (AppendWrite True c frame)) consume_output (\<lambda>c. Some (Writable True c)) c ops = Some (c', accepted, delivered) \<and>
      conn_ok c' \<and> output_pending c @ accepted = delivered @ output_pending c' \<and> length (output_pending c') \<le> cn_write_capacity c))"
proof (intro conjI impI)
  assume b: "buffer_ok b"
  from read_buffer.runs [OF b assms] obtain b' acc del where
    run: "queue_run Buffer_Append (\<lambda>b n. Some (Consume b n)) Readable b ops = Some (b', acc, del)" by auto
  from read_buffer.fifo [OF b assms run] run show "\<exists>b' accepted delivered.
      queue_run Buffer_Append (\<lambda>b n. Some (Consume b n)) Readable b ops = Some (b', accepted, delivered) \<and> buffer_ok b' \<and>
      buffer_contents b @ accepted = delivered @ buffer_contents b' \<and> length (buffer_contents b') \<le> bf_capacity b" by blast
next
  assume c: "conn_ok c"
  from connection_output.runs [OF c assms] obtain c' acc del where
    run: "queue_run (\<lambda>c frame. Some (AppendWrite True c frame)) consume_output (\<lambda>c. Some (Writable True c)) c ops = Some (c', acc, del)" by auto
  from connection_output.fifo [OF c assms run] run show "\<exists>c' accepted delivered.
      queue_run (\<lambda>c frame. Some (AppendWrite True c frame)) consume_output (\<lambda>c. Some (Writable True c)) c ops = Some (c', accepted, delivered) \<and>
      conn_ok c' \<and> output_pending c @ accepted = delivered @ output_pending c' \<and> length (output_pending c') \<le> cn_write_capacity c" by blast
qed

definition small_buffer :: Buffer where
  "small_buffer = \<lparr>bf_data = [0, 0, 0, 0], bf_capacity = 4, bf_read = 0, bf_write = 0\<rparr>"

definition demo_ops :: "queue_op list" where
  "demo_ops = [Put [1, 2, 3], Get 2, Put [4, 5], Put [6, 7], Get 9]"

theorem byte_queues_fifo_witness:
  "\<exists>b'. queue_run Buffer_Append (\<lambda>b n. Some (Consume b n)) Readable small_buffer demo_ops =
      Some (b', [1, 2, 3, 4, 5], [1, 2, 3, 4, 5]) \<and> buffer_ok b'"
proof -
  have ops: "pieces_nonempty demo_ops" "\<forall>op \<in> set demo_ops. case op of Put piece \<Rightarrow> length piece < 2 ^ 64 | Get n \<Rightarrow> 0 < n"
    by (simp_all add: pieces_nonempty_def demo_ops_def)
  have "buffer_ok small_buffer" by (simp add: buffer_ok_def small_buffer_def)
  with byte_queues_fifo [OF ops, of small_buffer] obtain b' acc del where
    "queue_run Buffer_Append (\<lambda>b n. Some (Consume b n)) Readable small_buffer demo_ops = Some (b', acc, del)" "buffer_ok b'"
    by blast
  moreover have "map_option snd (queue_run Buffer_Append (\<lambda>b n. Some (Consume b n)) Readable small_buffer demo_ops) =
      Some ([1, 2, 3, 4, 5], [1, 2, 3, 4, 5])"
    by (simp add: demo_ops_def small_buffer_def Buffer_Append_def readable_bytes_def writable_bytes_def Compact_def slice_def memcpy_def
        Readable_def Consume_def Clear_def)
  ultimately show ?thesis by auto
qed

end
