(* ===== verification/Tcp_Server.thy ===== *)
theory Tcp_Server
  imports Network
begin

text \<open>
  One reactor thread of the server, \<^verbatim>\<open>src/network/tcp_server.cc\<close> with the queue of \<^verbatim>\<open>src/network/event_loop.cc\<close>
  (the branch for Linux). \<open>reactor\<close> is a \<^verbatim>\<open>SubReactor\<close>: its clients by file descriptor, the connection
  objects, which outlive their clients while a worker holds them, the tasks queued for the loop and the
  jobs given to the workers. The answers of sockets and TLS sessions are arguments. Three history fields record
  what a proof needs and the code does not read: the requests decoded on a connection, the frames its output queue took and
  the bytes handed to the socket.
\<close>

section \<open>State\<close>

datatype TlsIoResult = kOk_io | kWantRead | kWantWrite | kClosed | kError

text \<open>Tasks of the loop and jobs of the workers; a job first answers its request and then arms the socket.\<close>

datatype loop_task = Write_task nat bytes | Arm_task nat nat | Add_task nat
datatype worker_job = Answer nat nat Request | Arm nat nat

record Client_entry =
  ce_connection :: nat
  ce_tls :: bool
  ce_tls_ready :: bool
  ce_want_write :: bool

record reactor =
  sr_clients :: "nat \<rightharpoonup> Client_entry"
  sr_connections :: "nat \<rightharpoonup> TcpConnection"
  sr_next :: nat
  sr_armed :: "nat \<rightharpoonup> bool"
  sr_tasks :: "loop_task list"
  sr_running :: bool
  sr_jobs :: "worker_job list"
  aux_asked :: "nat \<Rightarrow> Request list"
  aux_frames :: "nat \<Rightarrow> bytes list"
  aux_wire :: "nat \<Rightarrow> bytes"

definition new_reactor :: reactor where
  "new_reactor = \<lparr>sr_clients = Map.empty, sr_connections = Map.empty, sr_next = 1, sr_armed = Map.empty, sr_tasks = [],
     sr_running = True, sr_jobs = [], aux_asked = (\<lambda>_. []), aux_frames = (\<lambda>_. []), aux_wire = (\<lambda>_. [])\<rparr>"

definition kConnectionReadBufferBytes :: nat where "kConnectionReadBufferBytes = 256 * 1024"
definition kConnectionWriteBufferBytes :: nat where "kConnectionWriteBufferBytes = kMaxPayloadBytes + 18"

definition QueueInLoop :: "reactor \<Rightarrow> loop_task \<Rightarrow> reactor \<times> bool" where
  "QueueInLoop s task =
    (if sr_running s \<and> length (sr_tasks s) < 1024 then (s\<lparr>sr_tasks := sr_tasks s @ [task]\<rparr>, True) else (s, False))"

definition CloseClient :: "reactor \<Rightarrow> nat \<Rightarrow> reactor" where
  "CloseClient s fd =
    (case sr_clients s fd of
       None \<Rightarrow> s
     | Some _ \<Rightarrow> s\<lparr>sr_armed := (sr_armed s)(fd := None), sr_clients := (sr_clients s)(fd := None)\<rparr>)"

text \<open>\<^verbatim>\<open>ModifyFd\<close>: the interest in writing; reading is always of interest.\<close>

definition ModifyFd :: "reactor \<Rightarrow> nat \<Rightarrow> bool \<Rightarrow> reactor" where
  "ModifyFd s fd out = (case sr_armed s fd of None \<Rightarrow> s | Some _ \<Rightarrow> s\<lparr>sr_armed := (sr_armed s)(fd \<mapsto> out)\<rparr>)"

section \<open>Reading\<close>

text \<open>The history of an output queue that may have taken a frame.\<close>

definition put_connection :: "reactor \<Rightarrow> nat \<Rightarrow> TcpConnection \<Rightarrow> reactor" where
  "put_connection s k c = s\<lparr>sr_connections := (sr_connections s)(k \<mapsto> c)\<rparr>"

definition record_frame :: "reactor \<Rightarrow> nat \<Rightarrow> bytes \<Rightarrow> bool \<Rightarrow> reactor" where
  "record_frame s k frame taken =
    (if taken then s\<lparr>aux_frames := (aux_frames s)(k := aux_frames s k @ [frame])\<rparr> else s)"

definition exhausted_response :: "Request \<Rightarrow> Response" where
  "exhausted_response request = default_Response\<lparr>resp_status := kResourceExhausted, resp_id := req_id request\<rparr>"

text \<open>
  The loop over the decoded requests: \<open>accept i\<close> says whether the worker pool takes the \<open>i\<close>th. A request it
  refuses is answered at once. The result says whether the client is still there.
\<close>

fun submit_requests :: "(nat \<Rightarrow> bool) \<Rightarrow> nat \<Rightarrow> reactor \<Rightarrow> nat \<Rightarrow> nat \<Rightarrow> Request list \<Rightarrow> reactor \<times> bool" where
  "submit_requests accept i s fd k [] = (s, True)"
| "submit_requests accept i s fd k (request # requests) =
    (if accept i then submit_requests accept (i + 1) (s\<lparr>sr_jobs := sr_jobs s @ [Answer k fd request]\<rparr>) fd k requests
     else case EncodeResponse (exhausted_response request) of
       Inl _ \<Rightarrow> (CloseClient s fd, False)
     | Inr frame \<Rightarrow>
         (case sr_connections s k of
            None \<Rightarrow> (CloseClient s fd, False)
          | Some c \<Rightarrow>
              (case Send True False c frame of (c', _, sent) \<Rightarrow>
                 let s1 = record_frame (put_connection s k c') k frame sent in
                 if sent then submit_requests accept (i + 1) s1 fd k requests else (CloseClient s1 fd, False))))"

text \<open>One \<^verbatim>\<open>recv\<close> or TLS read.\<close>

datatype read_result = Got bytes "nat \<Rightarrow> bool" | Read_wait | Read_want_write | Read_failed

definition set_want_write :: "reactor \<Rightarrow> nat \<Rightarrow> bool \<Rightarrow> reactor" where
  "set_want_write s fd want =
    (case sr_clients s fd of None \<Rightarrow> s | Some cl \<Rightarrow> s\<lparr>sr_clients := (sr_clients s)(fd \<mapsto> cl\<lparr>ce_want_write := want\<rparr>)\<rparr>)"

fun read_client :: "reactor \<Rightarrow> nat \<Rightarrow> nat \<Rightarrow> read_result list \<Rightarrow> (reactor \<times> bool) option" where
  "read_client s fd k [] = Some (s, True)"
| "read_client s fd k (Read_wait # results) = Some (s, True)"
| "read_client s fd k (Read_want_write # results) = Some (set_want_write s fd True, True)"
| "read_client s fd k (Read_failed # results) = Some (CloseClient s fd, False)"
| "read_client s fd k (Got input accept # results) =
    (if input = [] then Some (CloseClient s fd, False)
     else case sr_connections s k of
       None \<Rightarrow> Some (CloseClient s fd, False)
     | Some c \<Rightarrow> do {
         (c', requests, ok) \<leftarrow> DecodeRequests True c input;
         let s1 = (put_connection s k c')\<lparr>aux_asked := (aux_asked s)(k := aux_asked s k @ requests)\<rparr>;
         if \<not> ok then Some (CloseClient s1 fd, False)
         else case submit_requests accept 0 s1 fd k requests of
           (s2, False) \<Rightarrow> Some (s2, False)
         | (s2, True) \<Rightarrow> read_client s2 fd k results })"

section \<open>Writing\<close>

datatype write_result = Wrote nat | Write_want_read | Write_want_write | Write_again | Write_failed

fun write_client :: "reactor \<Rightarrow> nat \<Rightarrow> nat \<Rightarrow> write_result list \<Rightarrow> reactor \<times> bool" where
  "write_client s fd k [] = (s, True)"
| "write_client s fd k (result # results) =
    (case sr_connections s k of
       None \<Rightarrow> (CloseClient s fd, False)
     | Some c \<Rightarrow>
         if Writable True c = [] then (s, True)
         else case result of
           Write_again \<Rightarrow> (s, True)
         | Write_want_read \<Rightarrow> (set_want_write s fd False, True)
         | Write_want_write \<Rightarrow> (set_want_write s fd True, True)
         | Write_failed \<Rightarrow> (CloseClient s fd, False)
         | Wrote n \<Rightarrow>
             if n = 0 then (CloseClient s fd, False)
             else case ConsumeWritten True c n of
               Inl _ \<Rightarrow> (CloseClient s fd, False)
             | Inr c' \<Rightarrow>
                 write_client (set_want_write ((put_connection s k c')\<lparr>aux_wire := (aux_wire s)(k := aux_wire s k @ take n (Writable True c))\<rparr>)
                   fd False) fd k results)"

section \<open>HandleClient\<close>

record client_io =
  io_hangup :: bool
  io_in :: bool
  io_out :: bool
  io_handshake :: TlsIoResult
  io_reads :: "read_result list"
  io_writes :: "write_result list"

text \<open>The handshake of a TLS client; the result says whether to go on.\<close>

definition handshake :: "reactor \<Rightarrow> nat \<Rightarrow> Client_entry \<Rightarrow> TlsIoResult \<Rightarrow> reactor \<times> bool" where
  "handshake s fd cl result =
    (if ce_tls_ready cl then (s, True)
     else case result of
       kOk_io \<Rightarrow> (s\<lparr>sr_clients := (sr_clients s)(fd \<mapsto> cl\<lparr>ce_tls_ready := True, ce_want_write := False\<rparr>)\<rparr>, True)
     | kWantWrite \<Rightarrow> (ModifyFd (set_want_write s fd True) fd True, False)
     | kWantRead \<Rightarrow> (ModifyFd (set_want_write s fd False) fd False, False)
     | _ \<Rightarrow> (CloseClient s fd, False))"

definition output_wanted :: "reactor \<Rightarrow> nat \<Rightarrow> bool" where
  "output_wanted s fd =
    (case sr_clients s fd of
       None \<Rightarrow> False
     | Some cl \<Rightarrow> ce_want_write cl \<or>
         (case sr_connections s (ce_connection cl) of None \<Rightarrow> False | Some c \<Rightarrow> Writable True c \<noteq> []))"

definition HandleClient :: "client_io \<Rightarrow> reactor \<Rightarrow> nat \<Rightarrow> reactor option" where
  "HandleClient io s fd =
    (case sr_clients s fd of
       None \<Rightarrow> Some s
     | Some cl \<Rightarrow>
         if io_hangup io then Some (CloseClient s fd)
         else case handshake s fd cl (io_handshake io) of
           (s1, False) \<Rightarrow> Some s1
         | (s1, True) \<Rightarrow> do {
             (s2, alive) \<leftarrow> (if io_in io then read_client s1 fd (ce_connection cl) (io_reads io) else Some (s1, True));
             if \<not> alive then Some s2
             else case (if io_out io then write_client s2 fd (ce_connection cl) (io_writes io) else (s2, True)) of
               (s3, False) \<Rightarrow> Some s3
             | (s3, True) \<Rightarrow> Some (ModifyFd s3 fd (output_wanted s3 fd)) })"

section \<open>Accepting, answering, tasks\<close>

text \<open>
  \<^verbatim>\<open>AddClient\<close>: \<open>tls\<close> says whether TLS is on and if so whether a session could be made; \<open>registered\<close> is the answer of
  \<^verbatim>\<open>epoll_ctl\<close>. The record of the reactor has neither the open descriptors nor the TLS sessions (these are counted in the
  theories of the server's life and of TLS): a branch that only closes the descriptor, or drops a session without closing it, as the
  code does when the descriptor is already a client of the reactor, takes a connection number and changes nothing else. The
  descriptor \<^verbatim>\<open>accept\<close> returns is not open, so it is no client of a reactor that closes the descriptors of the
  clients it erases.
\<close>

definition AddClient :: "bool option \<Rightarrow> bool \<Rightarrow> reactor \<Rightarrow> nat \<Rightarrow> reactor" where
  "AddClient tls registered s fd =
    (case new_MemoryPool (512 * 1024) of
       Inl _ \<Rightarrow> s
     | Inr pool \<Rightarrow>
         let s0 = s\<lparr>sr_next := sr_next s + 1\<rparr> in
         (case new_TcpConnection True (Some pool) kConnectionReadBufferBytes kConnectionWriteBufferBytes of
            (_, Inl _) \<Rightarrow> s0
          | (_, Inr c) \<Rightarrow>
              if tls = Some False then s0
              else if sr_clients s fd \<noteq> None then s0
              else
                let s1 = s\<lparr>sr_connections := (sr_connections s)(sr_next s \<mapsto> c), sr_next := sr_next s + 1,
                     sr_clients := (sr_clients s)(fd \<mapsto> \<lparr>ce_connection = sr_next s, ce_tls = (tls \<noteq> None),
                       ce_tls_ready = (tls = None), ce_want_write = False\<rparr>)\<rparr> in
                if registered then s1\<lparr>sr_armed := (sr_armed s1)(fd \<mapsto> False)\<rparr> else CloseClient s1 fd))"

text \<open>A worker runs its job, with the response of the handler.\<close>

definition run_job :: "(Request \<Rightarrow> Response) \<Rightarrow> reactor \<Rightarrow> nat \<Rightarrow> reactor" where
  "run_job handler s i =
    (if i \<ge> length (sr_jobs s) then s
     else
       let rest = take i (sr_jobs s) @ drop (i + 1) (sr_jobs s) in
       case sr_jobs s ! i of
         Answer k fd request \<Rightarrow>
           (case EncodeResponse (handler request) of
              Inl _ \<Rightarrow> s\<lparr>sr_jobs := rest\<rparr>
            | Inr frame \<Rightarrow>
                (case sr_connections s k of
                   None \<Rightarrow> s\<lparr>sr_jobs := rest\<rparr>
                 | Some c \<Rightarrow>
                     if \<not> cn_open c then s\<lparr>sr_jobs := rest\<rparr>
                     else case QueueInLoop s (Write_task k frame) of
                       (s1, False) \<Rightarrow> s1\<lparr>sr_jobs := rest\<rparr>
                     | (s1, True) \<Rightarrow> s1\<lparr>sr_jobs := rest @ [Arm k fd]\<rparr>))
       | Arm k fd \<Rightarrow> fst (QueueInLoop (s\<lparr>sr_jobs := rest\<rparr>) (Arm_task fd k)))"

text \<open>The loop runs its oldest task.\<close>

definition run_task :: "(bool option \<times> bool) \<Rightarrow> reactor \<Rightarrow> reactor" where
  "run_task add_io s =
    (case sr_tasks s of
       [] \<Rightarrow> s
     | task # tasks \<Rightarrow>
         let s1 = s\<lparr>sr_tasks := tasks\<rparr> in
         case task of
           Write_task k frame \<Rightarrow>
             (case sr_connections s1 k of
                None \<Rightarrow> s1
              | Some c \<Rightarrow>
                  record_frame (put_connection s1 k (run_send c frame)) k frame (cn_open c \<and> snd (AppendWrite True c frame)))
         | Arm_task fd k \<Rightarrow>
             (case sr_clients s1 fd of
                None \<Rightarrow> s1
              | Some cl \<Rightarrow> if ce_connection cl \<noteq> k then s1 else ModifyFd s1 fd True)
         | Add_task fd \<Rightarrow> AddClient (fst add_io) (snd add_io) s1 fd)"

text \<open>
  \<^verbatim>\<open>AcceptReady\<close>: the accepting thread takes connections while \<^verbatim>\<open>accept\<close> returns a descriptor (with the answer of
  \<^verbatim>\<open>NonBlocking\<close>) and deals them to the reactors in turn.
\<close>

fun AcceptReady :: "(nat \<times> bool) option list \<Rightarrow> reactor list \<Rightarrow> nat \<Rightarrow> reactor list \<times> nat" where
  "AcceptReady [] subs next_sub = (subs, next_sub)"
| "AcceptReady (None # _) subs next_sub = (subs, next_sub)"
| "AcceptReady (Some (fd, nonblocking) # accepts) subs next_sub =
    (if \<not> nonblocking then AcceptReady accepts subs next_sub
     else
       let i = next_sub mod length subs in
       AcceptReady accepts (subs[i := fst (QueueInLoop (subs ! i) (Add_task fd))]) (next_sub + 1))"

section \<open>Steps\<close>

text \<open>
  What can happen, in any order: the accepting thread hands over a descriptor, a socket becomes ready, a worker
  runs one of its jobs with some handler that answers with the request's id, the loop runs a task or stops.
\<close>

definition answers_ids :: "(Request \<Rightarrow> Response) \<Rightarrow> bool" where
  "answers_ids handler \<longleftrightarrow> (\<forall>request. resp_id (handler request) = req_id request)"

inductive server_step :: "reactor \<Rightarrow> reactor \<Rightarrow> bool" where
  hand_over: "server_step s (fst (QueueInLoop s (Add_task fd)))"
| ready: "HandleClient io s fd = Some s' \<Longrightarrow> server_step s s'"
| job: "answers_ids handler \<Longrightarrow> server_step s (run_job handler s i)"
| task: "server_step s (run_task add_io s)"
| stop: "server_step s (s\<lparr>sr_running := False\<rparr>)"

inductive server_reachable :: "reactor \<Rightarrow> bool" where
  start: "server_reachable new_reactor"
| step: "server_reachable s \<Longrightarrow> server_step s s' \<Longrightarrow> server_reachable s'"

lemma AcceptReady_steps:
  "list_all2 server_step\<^sup>*\<^sup>* subs (fst (AcceptReady accepts subs next_sub))"
proof (induction accepts subs next_sub rule: AcceptReady.induct)
  case (3 fd nonblocking accepts subs next_sub)
  show ?case
  proof (cases nonblocking)
    case False
    then show ?thesis using 3(1) by simp
  next
    case True
    let ?i = "next_sub mod length subs"
    let ?subs = "subs[?i := fst (QueueInLoop (subs ! ?i) (Add_task fd))]"
    have "list_all2 server_step\<^sup>*\<^sup>* subs ?subs"
      unfolding list_all2_conv_all_nth
    proof (intro conjI allI impI)
      fix i assume "i < length subs"
      then show "server_step\<^sup>*\<^sup>* (subs ! i) (?subs ! i)"
        by (cases "i = ?i") (simp_all add: r_into_rtranclp [of server_step, OF hand_over])
    qed simp
    moreover have "list_all2 server_step\<^sup>*\<^sup>* ?subs (fst (AcceptReady accepts ?subs (next_sub + 1)))"
      using 3(2) True by simp
    ultimately have "list_all2 server_step\<^sup>*\<^sup>* subs (fst (AcceptReady accepts ?subs (next_sub + 1)))"
      by (rule list_all2_trans [rotated]) (rule rtranclp_trans)
    then show ?thesis using True by (simp add: Let_def)
  qed
qed (auto intro: list_all2_refl)

section \<open>The invariant\<close>

text \<open>A frame that answers one of the given requests.\<close>

definition answer_to :: "Request list \<Rightarrow> bytes \<Rightarrow> bool" where
  "answer_to requests frame \<longleftrightarrow>
     (\<exists>request \<in> set requests. \<exists>response. EncodeResponse response = Inr frame \<and> resp_id response = req_id request)"

definition conn_stream :: "TcpConnection \<Rightarrow> bytes list \<Rightarrow> bytes \<Rightarrow> bool" where
  "conn_stream c fs wire \<longleftrightarrow>
    (if cn_open c then conn_ok c \<and> wire @ output_pending c = concat fs
     else prefix wire (concat fs) \<and> cn_write_queue c = [])"

definition stream_ok :: "reactor \<Rightarrow> nat \<Rightarrow> bool" where
  "stream_ok s k \<longleftrightarrow>
    (case sr_connections s k of None \<Rightarrow> aux_frames s k = [] \<and> aux_wire s k = []
     | Some c \<Rightarrow> k < sr_next s \<and> conn_stream c (aux_frames s k) (aux_wire s k))"

definition answered :: "reactor \<Rightarrow> nat \<Rightarrow> bool" where
  "answered s k \<longleftrightarrow> (\<forall>frame \<in> set (aux_frames s k). answer_to (aux_asked s k) frame)"

definition job_ok :: "reactor \<Rightarrow> worker_job \<Rightarrow> bool" where
  "job_ok s j \<longleftrightarrow> (case j of Answer k fd request \<Rightarrow> request \<in> set (aux_asked s k) | Arm k fd \<Rightarrow> True)"

definition task_ok :: "reactor \<Rightarrow> loop_task \<Rightarrow> bool" where
  "task_ok s t \<longleftrightarrow> (case t of Write_task k frame \<Rightarrow> answer_to (aux_asked s k) frame | _ \<Rightarrow> True)"

definition server_inv :: "reactor \<Rightarrow> bool" where
  "server_inv s \<longleftrightarrow> (\<forall>k. stream_ok s k \<and> answered s k) \<and> (\<forall>j \<in> set (sr_jobs s). job_ok s j) \<and>
     (\<forall>t \<in> set (sr_tasks s). task_ok s t) \<and> (\<forall>k \<ge> sr_next s. sr_connections s k = None)"

lemmas inv_defs = server_inv_def stream_ok_def answered_def job_ok_def task_ok_def

lemma inv_clients [simp]:
  "server_inv (s\<lparr>sr_clients := x\<rparr>) = server_inv s" "server_inv (s\<lparr>sr_armed := y\<rparr>) = server_inv s"
  "server_inv (s\<lparr>sr_running := z\<rparr>) = server_inv s"
  by (simp_all add: inv_defs cong: option.case_cong worker_job.case_cong loop_task.case_cong)

lemma inv_bookkeeping [simp]:
  "server_inv (CloseClient s fd) = server_inv s" "server_inv (ModifyFd s fd out) = server_inv s"
  "server_inv (set_want_write s fd want) = server_inv s"
  by (simp_all add: CloseClient_def ModifyFd_def set_want_write_def split: option.splits)

lemma set_want_write_frame [simp]:
  "sr_connections (set_want_write s fd want) = sr_connections s" "aux_wire (set_want_write s fd want) = aux_wire s"
  by (simp_all add: set_want_write_def split: option.splits)

lemma answer_to_mono: "answer_to requests frame \<Longrightarrow> set requests \<subseteq> set requests' \<Longrightarrow> answer_to requests' frame"
  by (auto simp: answer_to_def)

lemma EncodeResponse_nonempty: "EncodeResponse r = Inr frame \<Longrightarrow> frame \<noteq> []"
  by (auto simp: EncodeResponse_def split: if_splits sum.splits)

lemma answer_nonempty: "answer_to requests frame \<Longrightarrow> frame \<noteq> []"
  using EncodeResponse_nonempty by (auto simp: answer_to_def)

text \<open>Every change of a connection is an instance of this.\<close>

definition update_conn :: "reactor \<Rightarrow> nat \<Rightarrow> TcpConnection \<Rightarrow> bytes list \<Rightarrow> bytes \<Rightarrow> Request list \<Rightarrow> reactor" where
  "update_conn s k c fs wire asked =
     s\<lparr>sr_connections := (sr_connections s)(k \<mapsto> c), aux_frames := (aux_frames s)(k := fs),
       aux_wire := (aux_wire s)(k := wire), aux_asked := (aux_asked s)(k := asked)\<rparr>"

lemma inv_update:
  assumes inv: "server_inv s" and "k < sr_next s" and "conn_stream c fs wire"
    and asked: "set (aux_asked s k) \<subseteq> set asked" and "\<forall>frame \<in> set fs. answer_to asked frame"
  shows "server_inv (update_conn s k c fs wire asked)"
proof -
  have jobs: "job_ok (update_conn s k c fs wire asked) j" if "job_ok s j" for j
    using that asked by (auto simp: job_ok_def update_conn_def split: worker_job.splits)
  have tasks: "task_ok (update_conn s k c fs wire asked) t" if "task_ok s t" for t
    using that answer_to_mono [OF _ asked] by (auto simp: task_ok_def update_conn_def split: loop_task.splits)
  have "stream_ok (update_conn s k c fs wire asked) i \<and> answered (update_conn s k c fs wire asked) i" for i
    using assms by (auto simp: inv_defs update_conn_def cong: option.case_cong)
  with jobs tasks inv assms(2) show ?thesis
    by (auto simp: server_inv_def) (auto simp: update_conn_def)
qed

lemma inv_conn:
  assumes "server_inv s" and "sr_connections s k = Some c"
  shows "k < sr_next s" "conn_stream c (aux_frames s k) (aux_wire s k)" "\<forall>frame \<in> set (aux_frames s k). answer_to (aux_asked s k) frame"
proof -
  have "stream_ok s k" "answered s k" using assms(1) by (auto simp: server_inv_def)
  then show "k < sr_next s" "conn_stream c (aux_frames s k) (aux_wire s k)" "\<forall>frame \<in> set (aux_frames s k). answer_to (aux_asked s k) frame"
    using assms(2) by (simp_all add: stream_ok_def answered_def)
qed

lemma conn_stream_AppendWrite:
  assumes "conn_stream c fs wire" and "frame \<noteq> []"
  shows "conn_stream (fst (AppendWrite True c frame)) (if snd (AppendWrite True c frame) then fs @ [frame] else fs) wire"
proof (cases "cn_open c")
  case True
  with assms have ok: "conn_ok c" and out: "concat fs = wire @ output_pending c" by (simp_all add: conn_stream_def)
  from AppendWrite_ok [OF ok assms(2)] obtain c' r where "AppendWrite True c frame = (c', r)" "conn_ok c'"
    "output_pending c' = (if r then output_pending c @ frame else output_pending c)" by blast
  moreover from this(2) have "cn_open c'" by (simp add: conn_ok_def)
  ultimately show ?thesis using out by (simp add: conn_stream_def)
next
  case False
  then show ?thesis using assms(1) by (simp add: AppendWrite_def)
qed

lemma conn_stream_close:
  assumes "conn_stream c fs wire"
  shows "conn_stream (fst (connection_Close True c)) fs wire"
proof (cases "cn_open c")
  case True
  with assms have "concat fs = wire @ output_pending c" by (simp add: conn_stream_def)
  with True show ?thesis by (simp add: conn_stream_def connection_Close_def drop_buffers_def)
next
  case False
  then show ?thesis using assms by (simp add: connection_Close_def)
qed

lemma conn_stream_run_send:
  assumes "conn_stream c fs wire" and "frame \<noteq> []"
  shows "conn_stream (run_send c frame) (if cn_open c \<and> snd (AppendWrite True c frame) then fs @ [frame] else fs) wire"
  using conn_stream_AppendWrite [OF assms] assms(1)
  by (auto simp: run_send_def intro: conn_stream_close split: prod.splits bool.splits)

section \<open>Every step keeps the invariant\<close>

lemma QueueInLoop_inv: "server_inv s \<Longrightarrow> task_ok s t \<Longrightarrow> server_inv (fst (QueueInLoop s t))"
  by (auto simp: QueueInLoop_def inv_defs cong: option.case_cong worker_job.case_cong loop_task.case_cong)

lemma jobs_inv: "server_inv s \<Longrightarrow> \<forall>j \<in> set jobs. job_ok s j \<Longrightarrow> server_inv (s\<lparr>sr_jobs := jobs\<rparr>)"
  by (simp add: inv_defs cong: option.case_cong worker_job.case_cong loop_task.case_cong)

lemma submit_requests_inv:
  assumes "server_inv s" and "set requests \<subseteq> set (aux_asked s k)" and "submit_requests accept i s fd k requests = (s', alive)"
  shows "server_inv s'"
  using assms
proof (induction requests arbitrary: i s)
  case Nil
  then show ?case by simp
next
  case (Cons request requests)
  show ?case
  proof (cases "accept i")
    case True
    have "server_inv (s\<lparr>sr_jobs := sr_jobs s @ [Answer k fd request]\<rparr>)"
      using Cons.prems(1,2) by (intro jobs_inv) (auto simp: server_inv_def job_ok_def)
    with Cons.IH [of "s\<lparr>sr_jobs := sr_jobs s @ [Answer k fd request]\<rparr>" "i + 1"] Cons.prems(2,3) True show ?thesis by simp
  next
    case False
    show ?thesis
    proof (cases "EncodeResponse (exhausted_response request)")
      case (Inl e)
      then show ?thesis using Cons.prems False by auto
    next
      case (Inr frame)
      show ?thesis
      proof (cases "sr_connections s k")
        case None
        then show ?thesis using Cons.prems False Inr by auto
      next
        case (Some c)
        obtain c' sent where send: "AppendWrite True c frame = (c', sent)" by fastforce
        have sent: "Send True False c frame = (c', None, sent)"
          using send by (auto simp: Send_def AppendWrite_def split: if_splits)
        define s1 where "s1 = record_frame (put_connection s k c') k frame sent"
        have ans: "answer_to (aux_asked s k) frame"
          using Inr Cons.prems(2) unfolding answer_to_def
          by (intro bexI [of _ request] exI [of _ "exhausted_response request"]) (auto simp: exhausted_response_def)
        have "s1 = update_conn s k c' (if sent then aux_frames s k @ [frame] else aux_frames s k) (aux_wire s k) (aux_asked s k)"
          by (simp add: s1_def record_frame_def put_connection_def update_conn_def)
        then have inv: "server_inv s1"
          using inv_conn [OF Cons.prems(1) Some] conn_stream_AppendWrite [of c _ _ frame] EncodeResponse_nonempty [OF Inr] ans send Cons.prems(1)
          by (auto intro!: inv_update)
        have asked: "aux_asked s1 = aux_asked s" by (simp add: s1_def record_frame_def put_connection_def)
        show ?thesis
        proof (cases sent)
          case True
          with Cons.prems(3) False Inr Some sent have "submit_requests accept (i + 1) s1 fd k requests = (s', alive)"
            by (simp add: s1_def)
          with Cons.IH [of s1 "i + 1"] inv asked Cons.prems(2) show ?thesis by simp
        next
          case refused: False
          then show ?thesis using Cons.prems(3) False Inr Some sent inv by (auto simp: s1_def)
        qed
      qed
    qed
  qed
qed

lemma submit_requests_asked: "submit_requests accept i s fd k requests = (s', alive) \<Longrightarrow> aux_asked s' = aux_asked s"
proof (induction requests arbitrary: i s)
  case (Cons request requests)
  then show ?case
    by (fastforce simp: CloseClient_def record_frame_def put_connection_def Let_def split: if_splits sum.splits option.splits prod.splits)
qed simp

lemma read_client_inv:
  assumes "server_inv s" and "read_client s fd k results = Some (s', alive)"
  shows "server_inv s'"
  using assms
proof (induction s fd k results rule: read_client.induct)
  case (5 s fd k input accept results)
  show ?case
  proof (cases "sr_connections s k")
    case None
    then show ?thesis using 5(2,3) by (auto split: if_splits)
  next
    case (Some c)
    show ?thesis
    proof (cases "input = []")
      case True
      then show ?thesis using 5(2,3) by auto
    next
      case nonempty: False
      obtain c' requests ok where dec: "DecodeRequests True c input = Some (c', requests, ok)"
        using 5(3) Some nonempty by (auto simp: bind_eq_Some_conv)
      define s1 where "s1 = (put_connection s k c')\<lparr>aux_asked := (aux_asked s)(k := aux_asked s k @ requests)\<rparr>"
      have c': "c' = c\<lparr>cn_decoder := cn_decoder c'\<rparr>"
        using dec by (auto simp: DecodeRequests_def bind_eq_Some_conv split: if_splits)
      have stream: "conn_stream c' fs w = conn_stream c fs w" for fs w
        by (subst c') (simp add: conn_stream_def conn_ok_def output_pending_def cong: list.case_cong)
      have "s1 = update_conn s k c' (aux_frames s k) (aux_wire s k) (aux_asked s k @ requests)"
        by (simp add: s1_def put_connection_def update_conn_def)
      moreover have "\<forall>frame \<in> set (aux_frames s k). answer_to (aux_asked s k @ requests) frame"
        using inv_conn(3) [OF 5(2) Some] answer_to_mono by auto
      ultimately have inv: "server_inv s1"
        using inv_conn(1,2) [OF 5(2) Some] stream 5(2) by (auto intro!: inv_update)
      show ?thesis
      proof (cases ok)
        case False
        then show ?thesis using 5(3) Some nonempty dec inv by (auto simp: s1_def)
      next
        case True
        obtain s2 alive' where sub: "submit_requests accept 0 s1 fd k requests = (s2, alive')" by fastforce
        have inv2: "server_inv s2" by (rule submit_requests_inv [OF inv _ sub]) (simp add: s1_def)
        show ?thesis
        proof (cases alive')
          case alive: True
          have "read_client s2 fd k results = Some (s', alive)"
            using 5(3) Some nonempty dec True sub alive by (simp add: s1_def)
          then show ?thesis
            using 5(1) [OF nonempty Some dec refl refl s1_def _ sub [symmetric]] inv2 True alive by simp
        next
          case dead: False
          then show ?thesis using 5(3) Some nonempty dec True sub inv2 by (simp add: s1_def)
        qed
      qed
    qed
  qed
qed auto

lemma write_client_inv:
  assumes "server_inv s" and "write_client s fd k results = (s', alive)"
  shows "server_inv s'"
  using assms
proof (induction results arbitrary: s)
  case Nil
  then show ?case by simp
next
  case (Cons result results)
  show ?case
  proof (cases "sr_connections s k")
    case None
    then show ?thesis using Cons.prems by auto
  next
    case (Some c)
    show ?thesis
    proof (cases "Writable True c = []")
      case True
      then show ?thesis using Cons.prems Some by simp
    next
      case False
      show ?thesis
      proof (cases "\<exists>n c'. result = Wrote n \<and> n \<noteq> 0 \<and> ConsumeWritten True c n = Inr c'")
        case stop: False
        then show ?thesis using Cons.prems Some False by (auto split: write_result.splits if_splits sum.splits)
      next
        case True
        then obtain n c' where w: "result = Wrote n" "n \<noteq> 0" "ConsumeWritten True c n = Inr c'" by blast
        define s1 where "s1 = (put_connection s k c')\<lparr>aux_wire := (aux_wire s)(k := aux_wire s k @ take n (Writable True c))\<rparr>"
        have str: "conn_stream c (aux_frames s k) (aux_wire s k)" by (rule inv_conn [OF Cons.prems(1) Some])
        have "cn_open c" using False str by (auto simp: conn_stream_def Writable_def split: if_splits)
        with str have ok: "conn_ok c" "aux_wire s k @ output_pending c = concat (aux_frames s k)" by (simp_all add: conn_stream_def)
        have n: "n \<le> length (Writable True c)"
          using w(3) ok(1) by (auto simp: ConsumeWritten_def Writable_def conn_ok_def split: list.splits if_splits)
        from ConsumeWritten_ok [OF ok(1) _ n] w have c': "conn_ok c'" "output_pending c' = drop n (output_pending c)" by auto
        have "take n (Writable True c) = take n (output_pending c)" using Writable_ok(1) [OF ok(1)] n by (auto simp: prefix_def)
        then have "conn_stream c' (aux_frames s k) (aux_wire s k @ take n (Writable True c))"
          using c' ok(2) by (auto simp: conn_stream_def conn_ok_def)
        moreover have "s1 = update_conn s k c' (aux_frames s k) (aux_wire s k @ take n (Writable True c)) (aux_asked s k)"
          by (simp add: s1_def put_connection_def update_conn_def)
        ultimately have "server_inv s1"
          using inv_conn(1,3) [OF Cons.prems(1) Some] Cons.prems(1) by (auto intro!: inv_update)
        moreover have "write_client (set_want_write s1 fd False) fd k results = (s', alive)"
          using Cons.prems(2) Some False w by (simp add: s1_def)
        ultimately show ?thesis using Cons.IH [of "set_want_write s1 fd False"] by simp
      qed
    qed
  qed
qed

lemma HandleClient_inv:
  assumes "server_inv s" and "HandleClient io s fd = Some s'"
  shows "server_inv s'"
proof (cases "sr_clients s fd")
  case None
  then show ?thesis using assms by (simp add: HandleClient_def)
next
  case (Some cl)
  obtain s1 go where hs: "handshake s fd cl (io_handshake io) = (s1, go)" by fastforce
  then have inv1: "server_inv s1" using assms(1) by (auto simp: handshake_def split: if_splits TlsIoResult.splits)
  show ?thesis
  proof (cases "io_hangup io \<or> \<not> go")
    case True
    then show ?thesis using assms Some hs inv1 by (cases go) (auto simp: HandleClient_def split: if_splits)
  next
    case False
    then obtain s2 alive where rd: "(if io_in io then read_client s1 fd (ce_connection cl) (io_reads io) else Some (s1, True)) = Some (s2, alive)"
      using assms(2) Some hs by (auto simp: HandleClient_def bind_eq_Some_conv)
    then have inv2: "server_inv s2" using inv1 read_client_inv by (auto split: if_splits)
    obtain s3 go3 where wr: "(if io_out io then write_client s2 fd (ce_connection cl) (io_writes io) else (s2, True)) = (s3, go3)" by fastforce
    then have inv3: "server_inv s3" using inv2 write_client_inv by (auto split: if_splits)
    show ?thesis using assms(2) Some hs False rd wr inv2 inv3 by (cases alive; cases go3) (auto simp: HandleClient_def)
  qed
qed

lemma inv_fresh:
  assumes inv: "server_inv s" and c: "conn_stream c [] []"
  shows "server_inv (s\<lparr>sr_connections := (sr_connections s)(sr_next s \<mapsto> c), sr_next := sr_next s + 1\<rparr>)"
proof -
  let ?s = "s\<lparr>sr_connections := (sr_connections s)(sr_next s \<mapsto> c), sr_next := sr_next s + 1\<rparr>"
  have none: "sr_connections s (sr_next s) = None" using inv by (simp add: server_inv_def)
  have streams: "stream_ok s i" "answered s i" for i using inv by (auto simp: server_inv_def)
  then have "aux_frames s (sr_next s) = [] \<and> aux_wire s (sr_next s) = []" using none streams(1) [of "sr_next s"] by (simp add: stream_ok_def)
  then have "stream_ok ?s i" for i
    using streams(1) [of i] c by (cases "i = sr_next s"; cases "sr_connections s i") (simp_all add: stream_ok_def)
  moreover have "answered ?s i" for i using streams(2) [of i] by (simp add: answered_def)
  ultimately show ?thesis
    using inv by (simp add: server_inv_def job_ok_def task_ok_def cong: worker_job.case_cong loop_task.case_cong)
qed

lemma inv_next: "server_inv s \<Longrightarrow> server_inv (s\<lparr>sr_next := sr_next s + 1\<rparr>)"
  by (auto simp: inv_defs less_SucI cong: worker_job.case_cong loop_task.case_cong split: option.split_asm option.split)
    (metis option.distinct(1))+

lemma AddClient_inv:
  assumes inv: "server_inv s"
  shows "server_inv (AddClient tls registered s fd)"
proof -
  obtain pool where pool: "new_MemoryPool (512 * 1024) = Inr pool" by (simp add: new_MemoryPool_def)
  obtain p' r where new: "new_TcpConnection True (Some pool) kConnectionReadBufferBytes kConnectionWriteBufferBytes = (p', r)" by fastforce
  show ?thesis
  proof (cases r)
    case (Inl e)
    then show ?thesis using inv_next [OF inv] pool new by (simp add: AddClient_def Let_def)
  next
    case (Inr c)
    let ?k = "sr_next s"
    have c: "cn_open c" "cn_write_capacity c = kConnectionWriteBufferBytes" "cn_write_queue c = []" "cn_queued_bytes c = 0" "cn_front_offset c = 0"
      using new Inr by (auto simp: new_TcpConnection_def split: prod.splits sum.splits if_splits)
    then have "conn_stream c [] []"
      by (simp add: conn_stream_def conn_ok_def output_pending_def kConnectionWriteBufferBytes_def kMaxPayloadBytes_def)
    from inv_fresh [OF inv this] have "server_inv (s\<lparr>sr_connections := (sr_connections s)(?k \<mapsto> c), sr_next := ?k + 1\<rparr>)" by simp
    then show ?thesis using inv_next [OF inv] pool new Inr by (auto simp: AddClient_def Let_def)
  qed
qed

lemma run_job_inv:
  assumes inv: "server_inv s" and ids: "answers_ids handler"
  shows "server_inv (run_job handler s i)"
proof (cases "i < length (sr_jobs s)")
  case False
  then show ?thesis using inv by (simp add: run_job_def)
next
  case True
  let ?rest = "take i (sr_jobs s) @ drop (i + 1) (sr_jobs s)"
  have jobs: "\<forall>j \<in> set (sr_jobs s). job_ok s j" using inv by (simp add: server_inv_def)
  then have rest: "\<forall>j \<in> set ?rest. job_ok s j" by (auto dest: in_set_takeD in_set_dropD)
  then have inv': "server_inv (s\<lparr>sr_jobs := ?rest\<rparr>)" by (rule jobs_inv [OF inv])
  show ?thesis
  proof (cases "sr_jobs s ! i")
    case (Arm k fd)
    then show ?thesis using True QueueInLoop_inv [OF inv', of "Arm_task fd k"] by (simp add: run_job_def Let_def task_ok_def)
  next
    case (Answer k fd request)
    have asked: "request \<in> set (aux_asked s k)" using jobs nth_mem [OF True] Answer by (force simp: job_ok_def)
    show ?thesis
    proof (cases "EncodeResponse (handler request)")
      case (Inl e)
      then show ?thesis using True Answer inv' by (simp add: run_job_def Let_def)
    next
      case (Inr frame)
      have "answer_to (aux_asked s k) frame"
        using Inr asked ids by (auto simp: answer_to_def answers_ids_def)
      then have ok: "task_ok s (Write_task k frame)" by (simp add: task_ok_def)
      obtain s1 queued where q: "QueueInLoop s (Write_task k frame) = (s1, queued)" by fastforce
      then have inv1: "server_inv s1" using QueueInLoop_inv [OF inv ok] by simp
      have same: "aux_asked s1 = aux_asked s" using q by (auto simp: QueueInLoop_def split: if_splits)
      have "server_inv (s1\<lparr>sr_jobs := ?rest\<rparr>)" "server_inv (s1\<lparr>sr_jobs := ?rest @ [Arm k fd]\<rparr>)"
        using rest same by (auto intro!: jobs_inv [OF inv1] simp: job_ok_def cong: worker_job.case_cong)
      then show ?thesis using True Answer Inr q inv'
        by (auto simp: run_job_def Let_def split: option.splits bool.splits)
    qed
  qed
qed

lemma run_task_inv:
  assumes inv: "server_inv s"
  shows "server_inv (run_task add_io s)"
proof (cases "sr_tasks s")
  case Nil
  then show ?thesis using inv by (simp add: run_task_def)
next
  case (Cons t ts)
  define s1 where "s1 = s\<lparr>sr_tasks := ts\<rparr>"
  have inv1: "server_inv s1" and t: "task_ok s1 t"
    using inv Cons by (auto simp: s1_def inv_defs cong: option.case_cong worker_job.case_cong loop_task.case_cong)
  show ?thesis
  proof (cases t)
    case (Write_task k frame)
    show ?thesis
    proof (cases "sr_connections s1 k")
      case None
      then show ?thesis using Cons Write_task inv1 by (simp add: run_task_def s1_def)
    next
      case (Some c)
      let ?taken = "cn_open c \<and> snd (AppendWrite True c frame)"
      have ans: "answer_to (aux_asked s1 k) frame" using t Write_task by (simp add: task_ok_def)
      have "server_inv (update_conn s1 k (run_send c frame) (if ?taken then aux_frames s1 k @ [frame] else aux_frames s1 k)
          (aux_wire s1 k) (aux_asked s1 k))"
        using inv_conn [OF inv1 Some] conn_stream_run_send [OF _ answer_nonempty [OF ans]] ans inv1 by (intro inv_update) auto
      moreover have "run_task add_io s = update_conn s1 k (run_send c frame) (if ?taken then aux_frames s1 k @ [frame] else aux_frames s1 k)
          (aux_wire s1 k) (aux_asked s1 k)"
        using Cons Write_task Some by (simp add: run_task_def s1_def record_frame_def put_connection_def update_conn_def Let_def)
      ultimately show ?thesis by simp
    qed
  next
    case (Arm_task fd k)
    then show ?thesis using Cons inv1 by (auto simp: run_task_def s1_def Let_def split: option.splits)
  next
    case (Add_task fd)
    then show ?thesis using Cons AddClient_inv [OF inv1] by (simp add: run_task_def s1_def)
  qed
qed

lemma server_reachable_inv: "server_reachable s \<Longrightarrow> server_inv s"
proof (induction rule: server_reachable.induct)
  case start
  then show ?case by (simp add: new_reactor_def inv_defs)
next
  case (step s s')
  from step(2,3) show ?case
  proof (induction rule: server_step.induct)
    case (hand_over s fd)
    then show ?case by (intro QueueInLoop_inv) (simp_all add: task_ok_def)
  next
    case (ready io s fd s')
    then show ?case using HandleClient_inv by blast
  next
    case (job handler s i)
    then show ?case by (intro run_job_inv)
  next
    case (task s add_io)
    then show ?case by (rule run_task_inv)
  next
    case (stop s)
    then show ?case by simp
  qed
qed

section \<open>Claims\<close>

text \<open>C30: responses reach the connection that asked, whole and in order. In every reachable state of a reactor, under any
  interleaving of accepts, socket events, workers and loop tasks, with descriptors reused, connections closed
  and reads and writes of any sizes, the bytes handed to a connection's socket are a prefix of a sequence of
  complete frames, each of which is the response, with the same id, to a request decoded on that same
  connection; and the output waiting on an open connection is the rest of that sequence and within its limit.\<close>

theorem responses_whole_and_matched:
  assumes "server_reachable s"
  shows "prefix (aux_wire s k) (concat (aux_frames s k)) \<and> (\<forall>frame \<in> set (aux_frames s k). answer_to (aux_asked s k) frame) \<and>
    (\<forall>c. sr_connections s k = Some c \<and> cn_open c \<longrightarrow>
       aux_wire s k @ output_pending c = concat (aux_frames s k) \<and> length (output_pending c) \<le> cn_write_capacity c)"
proof -
  have inv: "server_inv s" by (rule server_reachable_inv [OF assms])
  then have st: "stream_ok s k" and ans: "answered s k" by (simp_all add: server_inv_def)
  show ?thesis
  proof (cases "sr_connections s k")
    case None
    then show ?thesis using st ans by (simp add: stream_ok_def answered_def)
  next
    case (Some c)
    then have stream: "conn_stream c (aux_frames s k) (aux_wire s k)" using st by (simp add: stream_ok_def)
    show ?thesis
    proof (cases "cn_open c")
      case False
      then show ?thesis using Some stream ans by (simp add: conn_stream_def answered_def)
    next
      case True
      with stream have ok: "conn_ok c" and out: "aux_wire s k @ output_pending c = concat (aux_frames s k)" by (simp_all add: conn_stream_def)
      have "length (output_pending c) \<le> cn_write_capacity c" by (rule connection_output.bounded [OF ok])
      with Some ans out show ?thesis by (auto simp: answered_def simp flip: out)
    qed
  qed
qed

definition demo_frame :: bytes where
  "demo_frame = Put16 kMagic @ [kCurrentVersion] @ [status_byte kResourceExhausted] @ Put64 7 @ Put16 0 @ Put32 0"

definition demo_ready :: client_io where
  "demo_ready = \<lparr>io_hangup = False, io_in = True, io_out = True, io_handshake = kOk_io,
     io_reads = [Got (request_frame sample_request) (\<lambda>_. False)], io_writes = [Wrote 18]\<rparr>"

definition demo_reactor :: reactor where
  "demo_reactor = run_task (None, True) (fst (QueueInLoop new_reactor (Add_task 5)))"

lemma Push_frame: "wf_Request r \<Longrightarrow> Push [] (request_frame r) = Some ([], [r], None)"
  using push_loop_frames [of "[r]" "[]" "[]" "[]"]
  by (auto simp: Push_def wf_Request_def kMaxFrameBytes_def frames_def waiting_def)

lemma demo_reactor_client:
  "\<exists>c. sr_connections demo_reactor 1 = Some c \<and> sr_clients demo_reactor 5 = Some \<lparr>ce_connection = 1, ce_tls = False, ce_tls_ready = True, ce_want_write = False\<rparr> \<and>
     cn_open c \<and> cn_decoder c = [] \<and> cn_write_queue c = [] \<and> cn_queued_bytes c = 0 \<and> cn_front_offset c = 0 \<and>
     cn_write_capacity c = kConnectionWriteBufferBytes \<and> aux_frames demo_reactor 1 = [] \<and> aux_wire demo_reactor 1 = [] \<and> aux_asked demo_reactor 1 = []"
proof -
  have "pool_Allocate True \<lparr>mp_capacity = 524288, mp_used = 0\<rparr> 262144 1 = (\<lparr>mp_capacity = 524288, mp_used = 262144\<rparr>, Some 0)"
    by (simp add: pool_Allocate_def Let_def)
  then show ?thesis
    by (simp add: demo_reactor_def QueueInLoop_def new_reactor_def run_task_def AddClient_def new_MemoryPool_def new_TcpConnection_def
        new_Buffer_def kConnectionReadBufferBytes_def Let_def)
qed

theorem responses_whole_and_matched_witness:
  "\<exists>s. server_reachable s \<and> aux_wire s 1 = demo_frame \<and> prefix (aux_wire s 1) (concat (aux_frames s 1)) \<and>
     (\<forall>frame \<in> set (aux_frames s 1). answer_to (aux_asked s 1) frame)"
proof -
  have reach: "server_reachable demo_reactor"
    unfolding demo_reactor_def by (intro server_reachable.step [OF server_reachable.step [OF server_reachable.start hand_over] task])
  obtain c where c: "sr_connections demo_reactor 1 = Some c"
    "sr_clients demo_reactor 5 = Some \<lparr>ce_connection = 1, ce_tls = False, ce_tls_ready = True, ce_want_write = False\<rparr>"
    "cn_open c" "cn_decoder c = []" "cn_write_queue c = []" "cn_queued_bytes c = 0" "cn_front_offset c = 0"
    "cn_write_capacity c = kConnectionWriteBufferBytes" "aux_wire demo_reactor 1 = []"
    using demo_reactor_client by blast
  have dec: "DecodeRequests True c (request_frame sample_request) = Some (c, [sample_request], True)"
    using Push_frame [OF wf_samples(1)] c by (simp add: DecodeRequests_def)
  have enc: "EncodeResponse (exhausted_response sample_request) = Inr demo_frame"
    by (simp add: EncodeResponse_def exhausted_response_def default_Response_def CheckString_def demo_frame_def sample_request_def)
  have nonempty: "request_frame sample_request \<noteq> []" by (simp add: request_frame_def)
  have len: "length demo_frame = 18" by (simp add: demo_frame_def)
  have app: "AppendWrite True c demo_frame = (c\<lparr>cn_write_queue := [demo_frame], cn_queued_bytes := 18\<rparr>, True)"
    using c len by (simp add: AppendWrite_def kConnectionWriteBufferBytes_def kMaxPayloadBytes_def)
  have "\<exists>s. HandleClient demo_ready demo_reactor 5 = Some s \<and> aux_wire s 1 = demo_frame"
    using c len nonempty demo_frame_def
    by (simp add: HandleClient_def demo_ready_def handshake_def dec enc app Send_def Let_def put_connection_def record_frame_def
        Writable_def ConsumeWritten_def set_want_write_def ModifyFd_def split: option.splits)
  then obtain s where s: "HandleClient demo_ready demo_reactor 5 = Some s" "aux_wire s 1 = demo_frame" by blast
  have "server_reachable s" by (rule server_reachable.step [OF reach ready [OF s(1)]])
  from this s(2) responses_whole_and_matched [OF this, of 1] show ?thesis by blast
qed

text \<open>A client that sends a request and closes its socket at once is not heard. When the event of a descriptor
  carries the hang-up flag, the client is removed before anything is read: no request is decoded, no job is
  created, whatever bytes wait in the socket. \<^verbatim>\<open>MqProducer::produce\<close> with \<^verbatim>\<open>AckMode::kZero\<close> closes right after sending.\<close>

lemma hangup_discards_input:
  assumes "io_hangup io" and "sr_clients s fd = Some cl"
  shows "\<exists>s'. HandleClient io s fd = Some s' \<and> sr_clients s' fd = None \<and> aux_asked s' = aux_asked s \<and> sr_jobs s' = sr_jobs s"
  using assms by (simp add: HandleClient_def CloseClient_def)

end
