(* ===== verification/End_To_End.thy ===== *)
theory End_To_End
  imports Client Broker_Log Tcp_Server
begin

text \<open>
  Client and broker together. \<open>via\<close> is a connection to a broker: a frame the client sends is decoded, handled
  and the response encoded, as the connection callback of \<^verbatim>\<open>src/server/main.cc\<close> does. The theorems follow
  messages from \<^verbatim>\<open>MqProducer::produce\<close> to \<^verbatim>\<open>MqConsumer::poll\<close>, and the committed offset of a group from
  \<^verbatim>\<open>MqConsumer::commit\<close> to the fetches after it.
\<close>

section \<open>Fetch responses\<close>

lemma length_message_record: "length (message_record m) = record_size m"
  by (simp add: message_record_def record_size_def)

lemma encode_messages_prefix:
  "\<exists>k \<le> length ms. encode_messages ms payload n = (payload @ concat (map message_record (take k ms)), n + of_nat k) \<and>
     (0 < k \<longrightarrow> length payload + length (concat (map message_record (take k ms))) \<le> kMaxPayloadBytes - 4) \<and>
     (ms \<noteq> [] \<longrightarrow> length payload + record_size (hd ms) \<le> kMaxPayloadBytes - 4 \<longrightarrow> 0 < k)"
proof (induction ms arbitrary: payload n)
  case Nil
  then show ?case by simp
next
  case (Cons m ms)
  show ?case
  proof (cases "record_size m > kMaxPayloadBytes - 4 \<or> length payload > kMaxPayloadBytes - 4 - record_size m")
    case True
    then show ?thesis by (intro exI [of _ 0]) auto
  next
    case False
    then have fit: "length (payload @ message_record m) \<le> kMaxPayloadBytes - 4" unfolding length_append length_message_record by linarith
    from Cons.IH [of "payload @ message_record m" "n + 1"] obtain k where k: "k \<le> length ms"
      "encode_messages ms (payload @ message_record m) (n + 1) =
        ((payload @ message_record m) @ concat (map message_record (take k ms)), n + 1 + of_nat k)"
      "0 < k \<longrightarrow> length (payload @ message_record m) + length (concat (map message_record (take k ms))) \<le> kMaxPayloadBytes - 4"
      by blast
    have "length payload + length (concat (map message_record (take (Suc k) (m # ms)))) \<le> kMaxPayloadBytes - 4"
      using k(3) fit by (cases k) auto
    with k False show ?thesis by (intro exI [of _ "Suc k"]) (simp add: algebra_simps)
  qed
qed

lemma records_length: "22 * length ms \<le> length (concat (map message_record ms))"
  by (induction ms) (simp_all add: length_message_record record_size_def)

text \<open>The client's loop reads back what the broker wrote.\<close>

definition encodable :: "Message \<Rightarrow> bool" where
  "encodable m \<longleftrightarrow> length (msg_key m) \<le> 65535 \<and> length (msg_value m) < 2 ^ 32"

text \<open>The fields of a record, wherever it stands; the three loops that read records rest on this.\<close>

lemma record_fields:
  assumes "encodable m" and "payload = pre @ message_record m @ rest"
  shows "Get64 payload (length pre) = Some (msg_offset m)" and "Get64 payload (length pre + 8) = Some (msg_timestamp_ms m)"
    and "map_option unat (Get16 payload (length pre + 16)) = Some (length (msg_key m))"
    and "substr payload (length pre + 18) (length (msg_key m)) = Some (msg_key m)"
    and "map_option unat (Get32 payload (length pre + 18 + length (msg_key m))) = Some (length (msg_value m))"
    and "substr payload (length pre + 22 + length (msg_key m)) (length (msg_value m)) = Some (msg_value m)"
    and "length payload \<ge> length pre + 22 + length (msg_key m) + length (msg_value m)"
    and "length pre + 22 + length (msg_key m) + length (msg_value m) = length (pre @ message_record m)"
    and "\<lparr>msg_offset = msg_offset m, msg_timestamp_ms = msg_timestamp_ms m, msg_key = msg_key m, msg_value = msg_value m\<rparr> = (m :: Message)"
proof -
  have k: "unat (of_nat (length (msg_key m)) :: u16) = length (msg_key m)"
    and v: "unat (of_nat (length (msg_value m)) :: u32) = length (msg_value m)"
    using assms(1) by (simp_all add: encodable_def unat_of_nat_len16 unat_of_nat take_bit_nat_eq_self)
  have p: "payload = pre @ Put64 (msg_offset m) @ Put64 (msg_timestamp_ms m) @ Put16 (of_nat (length (msg_key m))) @ msg_key m @
      Put32 (of_nat (length (msg_value m))) @ msg_value m @ rest"
    using assms(2) by (simp add: message_record_def)
  show "Get64 payload (length pre) = Some (msg_offset m)" "Get64 payload (length pre + 8) = Some (msg_timestamp_ms m)"
    "map_option unat (Get16 payload (length pre + 16)) = Some (length (msg_key m))"
    "substr payload (length pre + 18) (length (msg_key m)) = Some (msg_key m)"
    "map_option unat (Get32 payload (length pre + 18 + length (msg_key m))) = Some (length (msg_value m))"
    "substr payload (length pre + 22 + length (msg_key m)) (length (msg_value m)) = Some (msg_value m)"
    "length payload \<ge> length pre + 22 + length (msg_key m) + length (msg_value m)"
    by (simp_all add: p k v Get64_def Get32_def Get16_def substr_def drop_Cons')
qed (simp_all add: length_message_record record_size_def)

text \<open>A loop over records, as the client, the replication client and the broker have one each.\<close>

locale record_loop =
  fixes read_records :: "bytes \<Rightarrow> nat \<Rightarrow> nat \<Rightarrow> Message list \<Rightarrow> ('e + Message list \<times> nat) option"
  assumes no_record: "read_records payload 0 position acc = Some (Inr (acc, position))"
    and one_record: "encodable m \<Longrightarrow> payload = pre @ message_record m @ rest \<Longrightarrow>
      read_records payload (Suc n) (length pre) acc = read_records payload n (length (pre @ message_record m)) (acc @ [m])"
begin

lemma all_records:
  assumes "list_all encodable ms" and "payload = pre @ concat (map message_record ms) @ rest"
  shows "read_records payload (length ms) (length pre) acc =
    Some (Inr (acc @ ms, length pre + length (concat (map message_record ms))))"
  using assms
proof (induction ms arbitrary: pre acc)
  case Nil
  then show ?case by (simp add: no_record)
next
  case (Cons m ms)
  have "read_records payload (length ms) (length (pre @ message_record m)) (acc @ [m]) =
      Some (Inr ((acc @ [m]) @ ms, length (pre @ message_record m) + length (concat (map message_record ms))))"
    using Cons.prems by (intro Cons.IH) simp_all
  then show ?case
    using one_record [of m payload pre "concat (map message_record ms) @ rest" "length ms" acc] Cons.prems by simp
qed

end

interpretation consumer_loop: record_loop read_messages
proof
  fix payload pre rest :: bytes and m n acc
  assume m: "encodable m" "payload = pre @ message_record m @ rest"
  note f = record_fields [OF m]
  show "read_messages payload (Suc n) (length pre) acc = read_messages payload n (length (pre @ message_record m)) (acc @ [m])"
    using f(7) unfolding f(8) [symmetric] by (simp add: f(1-6,9))
qed simp

lemma messages_payload_read:
  assumes "list_all encodable ms"
  shows "\<exists>k \<le> length ms. messages_payload ms = Put32 (of_nat k) @ concat (map message_record (take k ms)) \<and>
    length (messages_payload ms) \<le> kMaxPayloadBytes \<and> k < 50000 \<and>
    (ms \<noteq> [] \<longrightarrow> record_size (hd ms) \<le> kMaxPayloadBytes - 8 \<longrightarrow> 0 < k) \<and>
    read_messages (messages_payload ms) k 4 [] = Some (Inr (take k ms, length (messages_payload ms)))"
proof -
  from encode_messages_prefix [of ms "Put32 0" 0] obtain k where k: "k \<le> length ms"
    "encode_messages ms (Put32 0) 0 = (Put32 0 @ concat (map message_record (take k ms)), of_nat k)"
    "0 < k \<longrightarrow> 4 + length (concat (map message_record (take k ms))) \<le> kMaxPayloadBytes - 4"
    "ms \<noteq> [] \<longrightarrow> 4 + record_size (hd ms) \<le> kMaxPayloadBytes - 4 \<longrightarrow> 0 < k"
    by auto
  have payload: "messages_payload ms = Put32 (of_nat k) @ concat (map message_record (take k ms))"
    by (simp add: messages_payload_def k(2))
  have len: "length (messages_payload ms) \<le> kMaxPayloadBytes"
    using k(3) by (cases k) (auto simp: payload kMaxPayloadBytes_def)
  have "22 * k \<le> kMaxPayloadBytes"
    using records_length [of "take k ms"] k(1) len by (simp add: payload)
  then have "k < 50000" by (simp add: kMaxPayloadBytes_def)
  moreover have "list_all encodable (take k ms)" using assms by (auto simp: list_all_iff dest: in_set_takeD)
  from consumer_loop.all_records [OF this, of _ "Put32 (of_nat k)" "[]" "[]"] payload k(1)
  have "read_messages (messages_payload ms) k 4 [] = Some (Inr (take k ms, length (messages_payload ms)))"
    by (simp add: min_absorb2)
  moreover have "ms \<noteq> [] \<longrightarrow> record_size (hd ms) \<le> kMaxPayloadBytes - 8 \<longrightarrow> 0 < k" using k(4) by (auto simp: kMaxPayloadBytes_def)
  ultimately show ?thesis using k(1) len payload by blast
qed

section \<open>The log as the fetch handler reads it\<close>

lemma stored_log:
  assumes "engine_ok e"
  shows "contiguous 0 (stored e (topic, part)) \<and> (\<forall>m \<in> set (stored e (topic, part)). fits m)"
proof -
  from GetPartition_ok [OF assms opens_good(1), of 0 0 topic part] obtain e' p
    where "engine_ok e'" "map_of (se_partitions e') (topic, part) = Some p" "stored e (topic, part) = partition_messages p"
    by auto
  with engine_ok_open [of e' topic part p] show ?thesis by (simp add: part_ok_def)
qed

lemma contiguous_filter:
  assumes "contiguous (of_nat n) ms" and "n + length ms \<le> 2 ^ 64"
  shows "filter (\<lambda>m. start \<le> msg_offset m) ms = drop (unat start - n) ms"
  using assms
proof (induction ms arbitrary: n)
  case Nil
  then show ?case by simp
next
  case (Cons m ms)
  have n: "unat (of_nat n :: u64) = n" using Cons.prems(2) by (simp add: unat_of_nat take_bit_nat_eq_self)
  have "filter (\<lambda>m. start \<le> msg_offset m) ms = drop (unat start - Suc n) ms"
    using Cons.prems by (intro Cons.IH) (simp_all add: add.commute)
  moreover have "start \<le> msg_offset m \<longleftrightarrow> unat start \<le> n"
    using Cons.prems(1) n by (simp add: word_le_nat_alt)
  ultimately show ?case by (cases "unat start \<le> n") (simp_all add: drop_Cons')
qed

lemma read_loop_log:
  assumes "engine_ok e" and "length (stored e (topic, part)) < 2 ^ 64" and "unat start < length (stored e (topic, part))"
    and "message_bytes (stored e (topic, part) ! unat start) \<le> max_bytes"
  shows "\<exists>k. 0 < k \<and> k \<le> length (stored e (topic, part)) - unat start \<and>
    read_loop start max_bytes (stored e (topic, part)) 0 [] = take k (drop (unat start) (stored e (topic, part)))"
proof -
  let ?log = "stored e (topic, part)"
  have "filter (\<lambda>m. start \<le> msg_offset m) ?log = drop (unat start) ?log"
    using contiguous_filter [of 0 ?log start] stored_log [OF assms(1)] assms(2) by simp
  with read_loop_prefix [of "[]" max_bytes start ?log] obtain k where k: "k \<le> length (drop (unat start) ?log)"
    "read_loop start max_bytes ?log 0 [] = take k (drop (unat start) ?log)"
    "k < length (drop (unat start) ?log) \<longrightarrow> max_bytes < total_size (take (Suc k) (drop (unat start) ?log))"
    by (auto simp: total_size_def)
  have "k \<noteq> 0"
  proof
    assume "k = 0"
    with k(3) assms(3) have "max_bytes < total_size (take 1 (drop (unat start) ?log))" by simp
    also have "take 1 (drop (unat start) ?log) = [?log ! unat start]" using assms(3) by (simp add: take_Suc hd_drop_conv_nth)
    finally show False using assms(4) by (simp add: total_size_def)
  qed
  with k show ?thesis by (intro exI [of _ k]) auto
qed

section \<open>A client's request at the broker\<close>

definition sent_request :: "client \<Rightarrow> Request \<Rightarrow> Request" where
  "sent_request c request =
    (case add_token c request of None \<Rightarrow> request | Some r \<Rightarrow> r\<lparr>req_id := cl_request_id c\<rparr>)"

definition plain :: "Request \<Rightarrow> bool" where
  "plain r \<longleftrightarrow> req_version r = kCurrentVersion \<and> req_flags r \<in> {0, 5, 6} \<and> req_command r \<notin> {kReplicaFetch, kReplicaAppend, kReplicaVote}"

lemma plain_flags:
  assumes "plain r"
  shows "req_flags r AND kFlagReplication = 0" and "req_flags r AND kFlagAuthentication = 0"
    and "req_flags r AND NOT kKnownFlags = 0" and "(req_flags r OR kFlagAuthentication) AND NOT kKnownFlags = 0"
    and "req_flags r AND kAckMask \<noteq> kAckMask" and "(req_flags r OR kFlagAuthentication) AND kAckMask \<noteq> kAckMask"
    and "(req_flags r OR kFlagAuthentication) AND kFlagReplication = 0"
    and "(req_flags r OR kFlagAuthentication) AND kFlagAuthentication \<noteq> 0"
    and "(req_flags r OR kFlagAuthentication) AND NOT kFlagAuthentication = req_flags r"
proof -
  consider "req_flags r = 0" | "req_flags r = 5" | "req_flags r = 6" using assms by (auto simp: plain_def)
  then show "req_flags r AND kFlagReplication = 0" "req_flags r AND kFlagAuthentication = 0"
    "req_flags r AND NOT kKnownFlags = 0" "(req_flags r OR kFlagAuthentication) AND NOT kKnownFlags = 0"
    "req_flags r AND kAckMask \<noteq> kAckMask" "(req_flags r OR kFlagAuthentication) AND kAckMask \<noteq> kAckMask"
    "(req_flags r OR kFlagAuthentication) AND kFlagReplication = 0"
    "(req_flags r OR kFlagAuthentication) AND kFlagAuthentication \<noteq> 0"
    "(req_flags r OR kFlagAuthentication) AND NOT kFlagAuthentication = req_flags r"
    by (cases; simp add: flag_simps)+
qed

text \<open>The broker and the client share the token, and the token may do what is asked.\<close>

definition accepts :: "broker \<Rightarrow> client \<Rightarrow> Command \<Rightarrow> bytes \<Rightarrow> bool" where
  "accepts b c command topic \<longleftrightarrow> br_opened b \<and> cl_auth_token c = br_client_token b \<and> length (br_client_token b) \<le> 65535 \<and>
     (br_client_token b \<noteq> [] \<longrightarrow> AuthorizeClientRequest (br_authorization b) command topic)"

definition counted :: "Command \<Rightarrow> broker \<Rightarrow> broker" where
  "counted command b = count_command command (b\<lparr>br_request_count := br_request_count b + 1\<rparr>)"

lemma counted_frame [simp]:
  "br_storage (counted command b) = br_storage b" "br_queues (counted command b) = br_queues b"
  "br_offsets (counted command b) = br_offsets b" "br_cache (counted command b) = br_cache b"
  by (simp_all add: counted_def count_command_def)

lemma sent_request_simps [simp]:
  "req_version (sent_request c r) = req_version r" "req_command (sent_request c r) = req_command r" "req_topic (sent_request c r) = req_topic r"
  by (simp_all add: sent_request_def add_token_def)

lemma authenticate_accepted_client:
  assumes "accepts b c (req_command r) (req_topic r)" and "plain r"
  shows "authenticate (b\<lparr>br_request_count := n\<rparr>) (sent_request c r) = Some (Inr (r\<lparr>req_id := cl_request_id c\<rparr>))"
proof (cases "br_client_token b = []")
  case True
  with assms plain_flags [OF assms(2)] show ?thesis
    by (auto simp: sent_request_def add_token_def accepts_def authenticate_def replication_command_def ValidateClientAuth_def plain_def Let_def)
next
  case False
  with assms plain_flags [OF assms(2)] show ?thesis
    by (auto simp: sent_request_def add_token_def accepts_def authenticate_def replication_command_def ValidateClientAuth_def plain_def
        Let_def strip_token_eq)
qed

lemma Handle_client:
  assumes acc: "accepts b c (req_command r) (req_topic r)" and plain: "plain r"
    and run: "dispatch io (counted (req_command r) b) (r\<lparr>req_id := cl_request_id c\<rparr>) (req_command r) = Some (b', resp)"
  shows "Handle io b (sent_request c r) =
    Some (if resp_status resp \<noteq> kOk then b'\<lparr>br_error_count := br_error_count b' + 1\<rparr> else b', resp)"
proof -
  have flags: "req_flags (sent_request c r) AND NOT kKnownFlags = 0" "req_flags (sent_request c r) AND kAckMask \<noteq> kAckMask"
    "req_flags (sent_request c r) AND kFlagReplication = 0"
    using acc plain_flags [OF plain] by (auto simp: sent_request_def add_token_def accepts_def)
  with acc plain run authenticate_accepted_client [OF acc plain] show ?thesis
    by (auto simp: Handle_def Let_def accepts_def plain_def counted_def)
qed

section \<open>A connection to a broker\<close>

text \<open>One frame at the server, on a fresh connection: taken by the stream decoder, handled, the answer encoded.\<close>

definition handle_frame :: "broker_io \<Rightarrow> broker \<Rightarrow> bytes \<Rightarrow> (broker \<times> bytes) option" where
  "handle_frame io b frame = do {
     (_, requests, err) \<leftarrow> Push [] frame;
     case (requests, err) of
       ([request], None) \<Rightarrow> do {
         (b', response) \<leftarrow> Handle io b request;
         Some (b', case EncodeResponse response of Inl _ \<Rightarrow> [] | Inr answer \<Rightarrow> answer) }
     | _ \<Rightarrow> Some (b, []) }"

definition via :: "broker_io \<Rightarrow> broker \<Rightarrow> attempt" where
  "via io b = \<lparr>at_reach = (\<lambda>_. True), at_send = True,
     at_receive = (\<lambda>frame. case handle_frame io b frame of None \<Rightarrow> [] | Some (_, answer) \<Rightarrow> answer)\<rparr>"

lemma read_answer_frame:
  assumes "wf_Response r" and "EncodeResponse r = Inr frame" and "resp_id r = req_id request" and "resp_status r \<noteq> kNotLeader"
  shows "read_answer c request frame = Some (Accept r)"
proof -
  have frame: "frame = Put16 kMagic @ [resp_version r] @ [status_byte (resp_status r)] @ Put64 (resp_id r) @
      Put16 (resp_flags r) @ Put32 (of_nat (length (resp_payload r))) @ resp_payload r"
    using assms(1,2) by (simp add: EncodeResponse_wf)
  have len: "length frame = 18 + length (resp_payload r)" by (simp add: frame)
  have size: "unat (of_nat (length (resp_payload r)) :: u32) = length (resp_payload r)" "length (resp_payload r) \<le> kMaxPayloadBytes"
    using assms(1) by (simp_all add: wf_Response_def unat_of_nat_payload)
  have "Get32 (take 18 frame) 14 = Some (of_nat (length (resp_payload r)))" by (simp add: frame Get32_def drop_Cons')
  then show ?thesis
    using DecodeResponse_frame [OF assms(1,2)] assms(3,4) size by (simp add: read_answer_def len)
qed

lemma add_token_sent:
  "length (cl_auth_token c) \<le> 65535 \<Longrightarrow> \<exists>r. add_token c request = Some r \<and> sent_request c request = r\<lparr>req_id := cl_request_id c\<rparr>"
  by (simp add: sent_request_def add_token_def)

lemma Call_via:
  assumes "cl_connected c" and "length (cl_auth_token c) \<le> 65535" and "wf_Request (sent_request c request)"
    and "Handle io b (sent_request c request) = Some (b', r)" and "wf_Response r" and "resp_id r = cl_request_id c"
    and "resp_status r \<noteq> kNotLeader"
  shows "Call [via io b] c request = Some (c\<lparr>cl_request_id := cl_request_id c + 1, cl_backoff := 100\<rparr>, Some r)"
proof -
  let ?sent = "sent_request c request" and ?c = "c\<lparr>cl_request_id := cl_request_id c + 1\<rparr>"
  obtain r' where token: "add_token c request = Some r'" "?sent = r'\<lparr>req_id := cl_request_id c\<rparr>"
    using add_token_sent [OF assms(2)] by blast
  obtain frame where enc: "EncodeResponse r = Inr frame" using EncodeResponse_wf [OF assms(5)] by blast
  have rec: "at_receive (via io b) (request_frame ?sent) = frame"
    using Push_frame [OF assms(3)] assms(4) enc by (simp add: via_def handle_frame_def)
  have ans: "read_answer ?c ?sent frame = Some (Accept r)"
    using read_answer_frame [OF assms(5) enc, of ?sent ?c] assms(6,7) token(2) by simp
  have send: "at_send (via io b)" by (simp add: via_def)
  show ?thesis
    using assms(1) EncodeRequest_wf [OF assms(3)] rec ans send
    by (simp add: Call_def Connect_def Let_def token)
qed

section \<open>Polling\<close>

lemma parse_fetch_payload:
  assumes "grp \<noteq> []" and "length grp \<le> 65535" and "max_bytes \<noteq> 0"
  shows "parse_fetch (Put32 part @ Put16 (of_nat (length grp)) @ grp @ Put64 offset @ Put32 max_bytes) =
    Some (Inr (part, grp, offset, max_bytes))"
proof -
  have "unat (of_nat (length grp) :: u16) = length grp" using assms(2) by (rule unat_of_nat_len16)
  then show ?thesis
    using assms(1,3) by (simp add: parse_fetch_def Get16_def Get32_def Get64_def substr_def drop_Cons' Suc_le_eq)
qed

text \<open>A consumer at a broker: connected, with the right token, subscribed to a partition that exists.\<close>

definition reading :: "broker \<Rightarrow> client \<Rightarrow> bool" where
  "reading b c \<longleftrightarrow> cl_connected c \<and> accepts b c kFetch (cl_topic c) \<and> cl_group c \<noteq> [] \<and> length (cl_group c) \<le> 65535 \<and>
     IsValidTopicName (cl_topic c) \<and> engine_ok (br_storage b) \<and>
     ResolvePartition (br_queues b) (cl_topic c) (cl_partition c) [] = Inr (cl_partition c) \<and>
     length (stored (br_storage b) (cl_topic c, cl_partition c)) < 2 ^ 64"

definition log_of :: "broker \<Rightarrow> client \<Rightarrow> Message list" where
  "log_of b c = stored (br_storage b) (cl_topic c, cl_partition c)"

definition committed_to :: "broker \<Rightarrow> client \<Rightarrow> u64 \<Rightarrow> bool" where
  "committed_to b c start \<longleftrightarrow>
     (case committed (br_offsets b) (cl_group c) (cl_topic c) (cl_partition c) of None \<Rightarrow> True | Some off \<Rightarrow> off \<le> start)"

text \<open>A message that fits into a fetch response of its own.\<close>

definition fetchable :: "Message \<Rightarrow> bool" where
  "fetchable m \<longleftrightarrow> message_bytes m \<le> kMaxPayloadBytes - 30"

lemma HandleFetch_run:
  assumes r: "reading b c" and io: "opens (bi_storage io 0)" and start: "fetch_start b (cl_group c) (cl_topic c) (cl_partition c) (cl_next_offset c) = start"
    and n: "unat start < length (log_of b c)" and fit: "fetchable (log_of b c ! unat start)"
  shows "\<exists>b' ms k. HandleFetch io (counted kFetch b) ((fetch_request c)\<lparr>req_id := i\<rparr>) =
      Some (b', MakeResponse ((fetch_request c)\<lparr>req_id := i\<rparr>) kOk (messages_payload ms)) \<and>
    0 < k \<and> ms = take k (drop (unat start) (log_of b c))"
proof -
  let ?log = "log_of b c" and ?n = "unat start"
  have ok: "engine_ok (br_storage b)" "IsValidTopicName (cl_topic c)" using r by (simp_all add: reading_def)
  have first: "message_bytes (?log ! ?n) \<le> unat (1048576 :: u32)"
    using fit by (auto simp: fetchable_def kMaxPayloadBytes_def)
  from read_loop_log [OF ok(1), of "cl_topic c" "cl_partition c" start "unat (1048576 :: u32)"] r n first
  obtain k where k: "0 < k"
    "read_loop start (unat (1048576 :: u32)) ?log 0 [] = take k (drop ?n ?log)"
    by (auto simp: reading_def log_of_def)
  have "\<not> start > of_nat (length ?log)"
    using n r by (simp add: word_less_nat_alt unat_of_nat take_bit_nat_eq_self reading_def log_of_def)
  with Read_ok [OF ok(1) io ok(2), of 1048576 "cl_partition c" start] k
  obtain e' where e': "Read (bi_storage io 0) (br_storage b) (cl_topic c) (cl_partition c) start 1048576 =
      (e', Inr (take k (drop ?n ?log)))" by (auto simp: log_of_def)
  have pos: "fetch_start (counted kFetch b) (cl_group c) (cl_topic c) (cl_partition c) (cl_next_offset c) = start"
    using start by (auto simp: fetch_start_def split: if_splits)
  have parse: "parse_fetch (req_payload ((fetch_request c)\<lparr>req_id := i\<rparr>)) =
      Some (Inr (cl_partition c, cl_group c, cl_next_offset c, 1048576))"
    using r parse_fetch_payload [of "cl_group c" 1048576 "cl_partition c" "cl_next_offset c"] by (simp add: fetch_request_def reading_def)
  have topic: "req_topic ((fetch_request c)\<lparr>req_id := i\<rparr>) = cl_topic c" by (simp add: fetch_request_def)
  have "\<exists>b'. HandleFetch io (counted kFetch b) ((fetch_request c)\<lparr>req_id := i\<rparr>) =
      Some (b', MakeResponse ((fetch_request c)\<lparr>req_id := i\<rparr>) kOk (messages_payload (take k (drop ?n ?log))))"
    using r unfolding HandleFetch_def parse topic by (simp add: reading_def pos e')
  with k(1) show ?thesis by blast
qed

lemma fetch_request_plain: "plain (fetch_request c)" "req_command (fetch_request c) = kFetch" "req_topic (fetch_request c) = cl_topic c"
  by (simp_all add: plain_def fetch_request_def default_Request_def)

lemma fetch_request_wf:
  assumes "reading b c"
  shows "wf_Request (sent_request c (fetch_request c))"
proof -
  have "length (cl_topic c) \<le> 65535" using assms by (auto simp: reading_def IsValidTopicName_def)
  with assms show ?thesis
    by (auto simp: wf_Request_def fetch_request_def default_Request_def reading_def accepts_def sent_request_def add_token_def
        kMaxPayloadBytes_def)
qed

text \<open>What the client has fetched and not yet handed out comes next in the log.\<close>

definition synced :: "Message list \<Rightarrow> client \<Rightarrow> bool" where
  "synced msgs c \<longleftrightarrow> (\<exists>k. cl_pending c = take k (drop (unat (cl_next_offset c)) msgs))"

definition same_reader :: "client \<Rightarrow> client \<Rightarrow> bool" where
  "same_reader c c' \<longleftrightarrow> c' = c\<lparr>cl_request_id := cl_request_id c', cl_backoff := cl_backoff c', cl_pending := cl_pending c',
     cl_next_offset := cl_next_offset c'\<rparr>"

lemma take_pending_log:
  assumes "cl_pending c = take (Suc k) (drop (unat start) msgs)" and "unat start < length msgs"
    and "msg_offset (msgs ! unat start) = start" and "Suc (unat start) < 2 ^ 64"
  shows "\<exists>c'. take_pending c = (c', Some (msgs ! unat start)) \<and> same_reader c c' \<and>
    unat (cl_next_offset c') = Suc (unat start) \<and> synced msgs c'"
proof -
  have pending: "cl_pending c = msgs ! unat start # take k (drop (Suc (unat start)) msgs)"
    using assms(1,2) by (simp flip: Cons_nth_drop_Suc)
  have "unat (start + 1) = Suc (unat start)" using assms(4) by (simp add: unat_word_ariths)
  then show ?thesis
    using pending assms(3) by (auto simp: take_pending_def same_reader_def synced_def)
qed

text \<open>The messages of the log, as a growing log has them, are where their offsets say.\<close>

lemma log_position:
  assumes "reading b c" and "unat start < length (log_of b c)" and "prefix (log_of b c) msgs"
  shows "unat start < length msgs" and "msgs ! unat start = log_of b c ! unat start"
    and "msg_offset (msgs ! unat start) = start" and "Suc (unat start) < 2 ^ 64"
proof -
  have facts: "contiguous 0 (log_of b c)" "length (log_of b c) < 2 ^ 64"
    using stored_log assms(1) by (auto simp: reading_def log_of_def)
  show at: "unat start < length msgs" "msgs ! unat start = log_of b c ! unat start"
    using assms(2,3) by (auto simp: prefix_def nth_append)
  show "msg_offset (msgs ! unat start) = start" "Suc (unat start) < 2 ^ 64"
    using contiguous_nth_offset [OF facts(1) assms(2)] facts(2) assms(2) at by simp_all
qed

text \<open>A poll without local messages fetches from the larger of the client's position and the committed offset.\<close>

lemma poll_fetch:
  assumes r: "reading b c" and io: "opens (bi_storage io 0)"
    and start: "fetch_start b (cl_group c) (cl_topic c) (cl_partition c) (cl_next_offset c) = start"
    and n: "unat start < length (log_of b c)" and fit: "fetchable (log_of b c ! unat start)"
    and pre: "prefix (log_of b c) msgs" and none: "cl_pending c = []"
  shows "\<exists>c'. poll [via io b] c = Some (c', Some (msgs ! unat start)) \<and> same_reader c c' \<and>
    unat (cl_next_offset c') = Suc (unat start) \<and> synced msgs c'"
proof -
  let ?log = "log_of b c" and ?n = "unat start"
  have facts: "\<forall>m \<in> set ?log. fits m" using stored_log r by (auto simp: reading_def log_of_def)
  note at = log_position [OF r n pre]
  define c1 where "c1 = c\<lparr>cl_request_id := cl_request_id c + 1, cl_backoff := 100\<rparr>"
  define q where "q = (fetch_request c)\<lparr>req_id := cl_request_id c\<rparr>"
  from HandleFetch_run [OF r io start n fit, of "cl_request_id c"] obtain b' ms k where
    run: "HandleFetch io (counted kFetch b) q = Some (b', MakeResponse q kOk (messages_payload ms))"
    and k: "0 < k" "ms = take k (drop ?n ?log)" by (auto simp: q_def)
  let ?resp = "MakeResponse q kOk (messages_payload ms)"
  have "list_all encodable ms"
    using facts unfolding k(2) by (auto simp: list_all_iff encodable_def fits_def message_fits_def kMaxMessageBytes_def
        dest!: in_set_takeD in_set_dropD)
  from messages_payload_read [OF this] obtain j where j: "j \<le> length ms"
    "messages_payload ms = Put32 (of_nat j) @ concat (map message_record (take j ms))"
    "length (messages_payload ms) \<le> kMaxPayloadBytes" "j < 50000"
    "ms \<noteq> [] \<longrightarrow> record_size (hd ms) \<le> kMaxPayloadBytes - 8 \<longrightarrow> 0 < j"
    "read_messages (messages_payload ms) j 4 [] = Some (Inr (take j ms, length (messages_payload ms)))" by blast
  have "ms \<noteq> []" "hd ms = ?log ! ?n" using k n by (auto simp: hd_drop_conv_nth)
  moreover have "record_size (?log ! ?n) \<le> kMaxPayloadBytes - 8"
    using fit by (auto simp: fetchable_def record_size_def message_bytes_def kMaxPayloadBytes_def)
  ultimately have "0 < j" using j(5) by simp
  moreover have "j \<le> k" using j(1) by (simp add: k(2))
  moreover have "j \<le> length (drop ?n ?log)" using j(1) by (simp add: k(2))
  then have "take j (drop ?n ?log) = take j (drop ?n msgs)" using pre by (auto simp: prefix_def)
  ultimately have "take j ms = take (Suc (j - 1)) (drop ?n msgs)" by (simp add: k(2) min_absorb1)
  then obtain j' where j': "take j ms = take (Suc j') (drop ?n msgs)" by blast
  have count: "Get32 (messages_payload ms) 0 = Some (of_nat j)" unfolding j(2) by (simp add: Get32_def)
  have uj: "unat (of_nat j :: u32) = j" using j(4) by (simp add: unat_of_nat take_bit_nat_eq_self)
  have "Handle io b (sent_request c (fetch_request c)) = Some (b', ?resp)"
    using Handle_client [of b c "fetch_request c" io b' ?resp] r run
    by (simp add: fetch_request_plain reading_def q_def) (simp add: MakeResponse_def)
  moreover have "wf_Response ?resp" using j(3) by (simp add: wf_Response_def MakeResponse_def default_Response_def)
  ultimately have "Call [via io b] c (fetch_request c) = Some (c1, Some ?resp)"
    using Call_via [OF _ _ fetch_request_wf [OF r], of io b b' ?resp] r
    by (auto simp: reading_def accepts_def c1_def MakeResponse_def q_def)
  then have "poll [via io b] c = Some (take_pending (c1\<lparr>cl_pending := take j ms\<rparr>))"
    using none count uj j \<open>0 < j\<close> \<open>ms \<noteq> []\<close> by (simp add: poll_def MakeResponse_def)
  moreover obtain c' where "take_pending (c1\<lparr>cl_pending := take j ms\<rparr>) = (c', Some (msgs ! ?n))"
    "same_reader (c1\<lparr>cl_pending := take j ms\<rparr>) c'" "unat (cl_next_offset c') = Suc ?n" "synced msgs c'"
    using take_pending_log [of "c1\<lparr>cl_pending := take j ms\<rparr>" j' start msgs] j' at(1,3,4) by (auto simp: c1_def)
  ultimately show ?thesis by (auto simp: same_reader_def c1_def)
qed

lemma poll_step:
  assumes r: "reading b c" and io: "opens (bi_storage io 0)" and start: "committed_to b c (cl_next_offset c)"
    and n: "unat (cl_next_offset c) < length (log_of b c)" and fit: "fetchable (log_of b c ! unat (cl_next_offset c))"
    and pre: "prefix (log_of b c) msgs" and sync: "synced msgs c"
  shows "\<exists>c'. poll [via io b] c = Some (c', Some (msgs ! unat (cl_next_offset c))) \<and> same_reader c c' \<and>
    unat (cl_next_offset c') = Suc (unat (cl_next_offset c)) \<and> synced msgs c'"
proof (cases "cl_pending c = []")
  case True
  have "fetch_start b (cl_group c) (cl_topic c) (cl_partition c) (cl_next_offset c) = cl_next_offset c"
    using start by (auto simp: fetch_start_def committed_to_def max_def split: option.splits)
  from poll_fetch [OF r io this n fit pre True] show ?thesis .
next
  case False
  from sync obtain k where "cl_pending c = take k (drop (unat (cl_next_offset c)) msgs)" by (auto simp: synced_def)
  with False obtain k' where "cl_pending c = take (Suc k') (drop (unat (cl_next_offset c)) msgs)" by (cases k) auto
  from take_pending_log [OF this log_position(1,3,4) [OF r n pre]] False show ?thesis by (auto simp: poll_def)
qed

lemma same_readerD:
  assumes "same_reader c c'"
  shows "reading b c' = reading b c" "log_of b c' = log_of b c"
    "committed_to b c start \<Longrightarrow> unat start \<le> unat start' \<Longrightarrow> committed_to b c' start'"
proof -
  have c': "c' = c\<lparr>cl_request_id := cl_request_id c', cl_backoff := cl_backoff c', cl_pending := cl_pending c',
      cl_next_offset := cl_next_offset c'\<rparr>"
    using assms by (simp add: same_reader_def)
  show "reading b c' = reading b c" by (subst c') (simp add: reading_def accepts_def)
  show "log_of b c' = log_of b c" by (subst c') (simp add: log_of_def)
  show "committed_to b c' start'" if "committed_to b c start" "unat start \<le> unat start'"
    using that by (subst c') (auto simp: committed_to_def word_le_nat_alt split: option.splits)
qed

text \<open>A consumer that polls a broker again and again, in whatever state each poll finds it.\<close>

fun poll_run :: "(broker_io \<times> broker) list \<Rightarrow> client \<Rightarrow> (client \<times> Message list) option" where
  "poll_run [] c = Some (c, [])"
| "poll_run ((io, b) # polls) c = do {
     (c1, m) \<leftarrow> poll [via io b] c;
     (c2, ms) \<leftarrow> poll_run polls c1;
     Some (c2, (case m of None \<Rightarrow> ms | Some x \<Rightarrow> x # ms)) }"

definition good_poll :: "Message list \<Rightarrow> client \<Rightarrow> nat \<Rightarrow> broker_io \<times> broker \<Rightarrow> bool" where
  "good_poll msgs c n = (\<lambda>(io, b). reading b c \<and> opens (bi_storage io 0) \<and> committed_to b c (of_nat n) \<and>
     prefix (log_of b c) msgs \<and> n < length (log_of b c) \<and> fetchable (log_of b c ! n))"

lemma poll_run_log:
  assumes "synced msgs c" and "\<forall>i < length polls. good_poll msgs c (unat (cl_next_offset c) + i) (polls ! i)"
  shows "\<exists>c'. poll_run polls c = Some (c', take (length polls) (drop (unat (cl_next_offset c)) msgs))"
  using assms
proof (induction polls arbitrary: c)
  case Nil
  then show ?case by simp
next
  case (Cons p polls)
  obtain io b where p: "p = (io, b)" by (cases p)
  let ?n = "unat (cl_next_offset c)"
  have first: "good_poll msgs c ?n (io, b)" using Cons.prems(2) p by fastforce
  then have "?n < length msgs" by (auto simp: good_poll_def prefix_def)
  from first Cons.prems(1) obtain c1 where c1: "poll [via io b] c = Some (c1, Some (msgs ! ?n))" "same_reader c c1"
    "unat (cl_next_offset c1) = Suc ?n" "synced msgs c1"
    using poll_step [of b c io msgs] by (auto simp: good_poll_def)
  have "good_poll msgs c1 (unat (cl_next_offset c1) + i) (polls ! i)" if "i < length polls" for i
  proof -
    have "good_poll msgs c (?n + Suc i) (polls ! i)" using Cons.prems(2) that by fastforce
    then show ?thesis using same_readerD [OF c1(2)] c1(3) by (auto simp: good_poll_def split: prod.splits)
  qed
  with Cons.IH [OF c1(4)] obtain c2 where "poll_run polls c1 = Some (c2, take (length polls) (drop (Suc ?n) msgs))"
    using c1(3) by auto
  with c1(1) p \<open>?n < length msgs\<close> show ?case by (simp flip: Cons_nth_drop_Suc)
qed

section \<open>Producing\<close>

lemma parse_produce_payload:
  assumes "length key \<le> 65535" and "length val < 2 ^ 32" and "length pre = position"
  shows "parse_message (pre @ Put32 part @ message_bytes_of key val) position = Some (Inr (part, key, val))"
proof -
  have "unat (of_nat (length key) :: u16) = length key" "unat (of_nat (length val) :: u32) = length val"
    using assms(1,2) by (simp_all add: unat_of_nat_len16 unat_of_nat take_bit_nat_eq_self)
  then show ?thesis
    using assms(3) by (simp add: parse_message_def message_bytes_of_def Take_def Get16_def Get32_def substr_def drop_Cons')
qed

lemma produce_request_facts:
  assumes "ack \<noteq> kZero" and "length key \<le> 65535" and "length val < 2 ^ 32"
  shows "plain (produce_request c topic key val ack)" "req_command (produce_request c topic key val ack) = kProduce"
    "req_topic (produce_request c topic key val ack) = topic"
    "parse_message (req_payload (produce_request c topic key val ack)) (message_start (produce_request c topic key val ack)) =
      Some (Inr (0xFFFFFFFF, key, val))"
    "produce_key (produce_request c topic key val ack) = Some (IdempotencyKey topic (cl_producer_id c) (cl_sequence c))"
proof -
  have flags: "req_flags (produce_request c topic key val ack) \<in> {5, 6}" "req_flags (produce_request c topic key val ack) AND kFlagProducerMetadata \<noteq> 0"
    using assms(1) by (cases ack; simp add: produce_request_def flag_simps)+
  then show "plain (produce_request c topic key val ack)" by (simp add: plain_def) (simp add: produce_request_def default_Request_def)
  show "req_command (produce_request c topic key val ack) = kProduce" "req_topic (produce_request c topic key val ack) = topic"
    by (simp_all add: produce_request_def)
  show "parse_message (req_payload (produce_request c topic key val ack)) (message_start (produce_request c topic key val ack)) =
      Some (Inr (0xFFFFFFFF, key, val))"
    using parse_produce_payload [OF assms(2,3), where pre = "Put64 (cl_producer_id c) @ Put64 (cl_sequence c)" and position = 16 and part = "0xFFFFFFFF"] flags(2)
    by (simp add: message_start_def) (simp add: produce_request_def)
  show "produce_key (produce_request c topic key val ack) = Some (IdempotencyKey topic (cl_producer_id c) (cl_sequence c))"
    using flags(2) by (simp add: produce_key_def) (simp add: produce_request_def)
qed

text \<open>The request a producer sends, at a broker that has not answered it before.\<close>

definition sends :: "client \<Rightarrow> bytes \<Rightarrow> bytes \<Rightarrow> bytes \<Rightarrow> AckMode \<Rightarrow> bool" where
  "sends p topic key val ack \<longleftrightarrow> cl_connected p \<and> ack \<noteq> kZero \<and> length topic \<le> 65535 \<and> length key \<le> 65535 \<and> val \<noteq> [] \<and>
     cl_sequence p \<noteq> - 1 \<and> length (cl_auth_token p) + length key + length val + 30 \<le> kMaxPayloadBytes"

definition first_time :: "broker_io \<Rightarrow> broker \<Rightarrow> client \<Rightarrow> bytes \<Rightarrow> bytes \<Rightarrow> bytes \<Rightarrow> AckMode \<Rightarrow> bool" where
  "first_time io b p topic key val ack \<longleftrightarrow>
     map_of (live_cache (bi_produce io 0) b (produce_request p topic key val ack))
       (IdempotencyKey topic (cl_producer_id p) (cl_sequence p)) = None"

lemma produce_request_wf:
  assumes "sends p topic key val ack" and "length (cl_auth_token p) \<le> 65535"
  shows "wf_Request (sent_request (p\<lparr>cl_sequence := n\<rparr>) (produce_request p topic key val ack))"
  using assms
  by (auto simp: sends_def wf_Request_def produce_request_def default_Request_def sent_request_def add_token_def message_bytes_of_def)

lemma live_cache_cong:
  "br_cache b = br_cache b' \<Longrightarrow> req_flags r = req_flags r' \<Longrightarrow> live_cache io b r = live_cache io b' r'"
  by (simp add: live_cache_def)

lemma produce_stored:
  assumes s: "sends p topic key val ack" and acc: "accepts b p kProduce topic"
    and ok: "engine_ok (br_storage b)" and io: "writes_well (pi_storage (bi_produce io 0))"
    and run: "Handle io b (sent_request (p\<lparr>cl_sequence := cl_sequence p + 1\<rparr>) (produce_request p topic key val ack)) = Some (b', r)"
    and kok: "resp_status r = kOk" and first: "first_time io b p topic key val ack"
  shows "\<exists>p' part m. produce [via io b] p topic key val ack = Some (p', True, Some \<lparr>pr_partition = part, pr_offset = msg_offset m\<rparr>) \<and>
    m = next_message b (pi_storage (bi_produce io 0)) topic part key val \<and> appends b b' topic part m \<and>
    ResolvePartition (br_queues b) topic kAutoPartition key = Inr part \<and> IsValidTopicName topic \<and> engine_ok (br_storage b') \<and>
    br_queues b' = br_queues b \<and> br_offsets b' = br_offsets b"
proof -
  define q where "q = produce_request p topic key val ack"
  define c where "c = p\<lparr>cl_sequence := cl_sequence p + 1\<rparr>"
  define qi where "qi = q\<lparr>req_id := cl_request_id p\<rparr>"
  have size: "ack \<noteq> kZero" "length key \<le> 65535" "length val < 2 ^ 32" "length (cl_auth_token p) \<le> 65535" "length val \<le> 1024 * 1024"
    using s acc by (auto simp: sends_def kMaxPayloadBytes_def accepts_def)
  note q = produce_request_facts [OF size(1-3), of p topic, folded q_def]
  have same: "message_start qi = message_start q" "produce_key qi = produce_key q" "req_payload qi = req_payload q" "req_topic qi = req_topic q"
    by (simp_all add: qi_def message_start_def produce_key_def)
  have qi: "req_topic qi = topic" "parse_message (req_payload qi) (message_start qi) = Some (Inr (0xFFFFFFFF, key, val))"
      "produce_key qi = Some (IdempotencyKey topic (cl_producer_id p) (cl_sequence p))"
    using q(3-5) unfolding same .
  have live: "live_cache (bi_produce io 0) (counted kProduce b) qi = live_cache (bi_produce io 0) b q"
    by (rule live_cache_cong) (simp_all add: qi_def)
  obtain b1 r1 where h: "HandleProduce (bi_produce io 0) (counted kProduce b) qi True True = Some (b1, r1)"
    using HandleProduce_defined by fastforce
  have "accepts b c (req_command q) (req_topic q)" using acc q(2,3) by (simp add: c_def accepts_def)
  from Handle_client [OF this q(1), of io b1 r1] h run kok q(2) have br: "b1 = b'" "r1 = r"
    by (auto simp: c_def [symmetric] q_def [symmetric] qi_def) (simp_all add: c_def)
  have "engine_ok (br_storage (counted kProduce b))" using ok by simp
  from this io h [unfolded br] obtain part m where app: "r = MakeResponse qi kOk (Put32 part @ Put64 (msg_offset m))"
    "ResolvePartition (br_queues b) topic 0xFFFFFFFF key = Inr part"
    "m = next_message b (pi_storage (bi_produce io 0)) topic part key val" "appends b b' topic part m"
    "IsValidTopicName topic" "engine_ok (br_storage b')" "br_queues b' = br_queues b" "br_offsets b' = br_offsets b"
  proof (cases rule: HandleProduce_cases)
    case (appended requested key' val' part m)
    then show thesis using that [of part m] qi by (auto simp: next_message_def appends_def)
  next
    case (cached k entry)
    then show thesis using first qi(3) live by (simp add: first_time_def q_def)
  qed (use kok in \<open>auto simp: MakeResponse_def\<close>)
  have "wf_Response r" by (simp add: app(1) wf_Response_def MakeResponse_def default_Response_def kMaxPayloadBytes_def)
  moreover have "wf_Request (sent_request c q)" unfolding c_def q_def by (rule produce_request_wf [OF s size(4)])
  ultimately have "Call [via io b] c q = Some (c\<lparr>cl_request_id := cl_request_id c + 1, cl_backoff := 100\<rparr>, Some r)"
    using s size(4) run kok app(1) by (intro Call_via [where b' = b']) (auto simp: c_def q_def sends_def qi_def MakeResponse_def)
  moreover have "read_result (Put32 part @ Put64 (msg_offset m)) = Some (Some \<lparr>pr_partition = part, pr_offset = msg_offset m\<rparr>)"
    by (simp add: read_result_def Get32_def Get64_def)
  ultimately have "\<exists>p'. produce [via io b] p topic key val ack = Some (p', True, Some \<lparr>pr_partition = part, pr_offset = msg_offset m\<rparr>)"
    using s size app(1) by (simp add: produce_def sends_def Let_def c_def q_def MakeResponse_def)
  with app(2-) show ?thesis by (auto simp: kAutoPartition_def)
qed

text \<open>A leader without limits stores what reaches it.\<close>

lemma HandleProduce_accepts:
  assumes adm: "admitted io b request rate = (b1, None)" and parse: "parse_message (req_payload request) (message_start request) = Some (Inr (requested, key, val))"
    and miss: "Option.bind (produce_key request) (map_of (live_cache io b request)) = None"
    and long: "req_flags request AND kFlagProducerMetadata \<noteq> 0 \<longrightarrow> 16 \<le> length (req_payload request)"
    and route: "ResolvePartition (br_queues b) (req_topic request) requested key = Inr part" and quota: "br_topic_quota b1 = 0"
    and app: "Append (pi_storage io) (br_storage b) (req_topic request) part key val = (e, Inr m)"
    and ack: "req_flags request AND kAckMask \<noteq> kAckAll"
  shows "\<exists>b'. HandleProduce io b request rate quota = Some (b', MakeResponse request kOk (Put32 part @ Put64 (msg_offset m))) \<and>
    br_opened b' = br_opened b1 \<and> br_client_token b' = br_client_token b1 \<and> br_authorization b' = br_authorization b1"
proof -
  define b2 where "b2 = b1\<lparr>br_cache := live_cache io b1 request\<rparr>"
  have d: "same_data b b1" by (rule admitted_same_data [OF adm])
  then have live: "live_cache io b1 request = live_cache io b request" by (simp add: live_cache_def same_data_def)
  have data: "br_queues b2 = br_queues b" "br_storage b2 = br_storage b" "br_cache b2 = live_cache io b request"
    "br_opened b2 = br_opened b1" "br_client_token b2 = br_client_token b1" "br_authorization b2 = br_authorization b1"
    using d live by (simp_all add: b2_def same_data_def)
  have allowed: "AllowTopicBytes now b2 topic n = (b2, True)" for now topic n using quota by (simp add: AllowTopicBytes_def b2_def)
  have short: "\<not> (req_flags request AND kFlagProducerMetadata \<noteq> 0 \<and> length (req_payload request) < 16)" using long by auto
  have "\<exists>b'. produce_from io b2 request quota (produce_key request) (message_start request) =
      Some (b', MakeResponse request kOk (Put32 part @ Put64 (msg_offset m))) \<and>
      br_opened b' = br_opened b1 \<and> br_client_token b' = br_client_token b1 \<and> br_authorization b' = br_authorization b1"
    using ack by (simp add: produce_from_def parse store_message_def data allowed route app finish_message_def Let_def split: option.splits)
  moreover have "Option.bind (produce_key request) (map_of (br_cache b2)) = None" using miss data(3) by simp
  ultimately show ?thesis
    unfolding HandleProduce_eq adm prod.case option.case if_not_P [OF short] Let_def b2_def [symmetric] by simp
qed

section \<open>Claims\<close>

text \<open>C25: from producer to consumer. A message that a broker acknowledges for the first time is what the producer
  is told, stored once at the end of the partition its key hashes to, and returned with its key and value to
  every consumer that polls the broker's new state at the reported partition and offset, over the encoded frames
  and with the same token. Key and value may have \<^verbatim>\<open>kMaxPayloadBytes - 30\<close> bytes together with the token.\<close>

theorem produce_then_poll:
  assumes "sends p topic key val ack" and "accepts b p kProduce topic"
    and "engine_ok (br_storage b)" and "writes_well (pi_storage (bi_produce io 0))"
    and "Handle io b (sent_request (p\<lparr>cl_sequence := cl_sequence p + 1\<rparr>) (produce_request p topic key val ack)) = Some (b', r)"
    and "resp_status r = kOk" and "first_time io b p topic key val ack"
  shows "\<exists>p' part off. produce [via io b] p topic key val ack = Some (p', True, Some \<lparr>pr_partition = part, pr_offset = off\<rparr>) \<and>
    ResolvePartition (br_queues b) topic kAutoPartition key = Inr part \<and> engine_ok (br_storage b') \<and>
    (\<exists>m. appends b b' topic part m \<and> msg_offset m = off \<and> msg_key m = key \<and> msg_value m = val \<and>
      (\<forall>c io'. reading b' c \<and> cl_topic c = topic \<and> cl_partition c = part \<and> cl_next_offset c = off \<and> cl_pending c = [] \<and>
         committed_to b' c off \<and> opens (bi_storage io' 0) \<longrightarrow> (\<exists>c'. poll [via io' b'] c = Some (c', Some m))))"
proof -
  from produce_stored [OF assms] obtain p' part m where
    pr: "produce [via io b] p topic key val ack = Some (p', True, Some \<lparr>pr_partition = part, pr_offset = msg_offset m\<rparr>)"
    and m: "m = next_message b (pi_storage (bi_produce io 0)) topic part key val" and app: "appends b b' topic part m"
    and route: "ResolvePartition (br_queues b) topic kAutoPartition key = Inr part" and ok: "engine_ok (br_storage b')" by blast
  have "\<exists>c'. poll [via io' b'] c = Some (c', Some m)"
    if c: "reading b' c" "cl_topic c = topic" "cl_partition c = part" "cl_next_offset c = msg_offset m" "cl_pending c = []"
      "committed_to b' c (msg_offset m)" and io': "opens (bi_storage io' 0)" for c io'
  proof -
    let ?log = "log_of b' c" and ?old = "stored (br_storage b) (topic, part)"
    have log: "?log = ?old @ [m]" using app c by (simp add: log_of_def appends_def)
    have "length ?log < 2 ^ 64" using c(1) by (simp add: reading_def log_of_def)
    then have n: "unat (msg_offset m) = length ?old" using log by (simp add: m next_message_def unat_of_nat take_bit_nat_eq_self)
    have "fetchable m" using assms(1) by (simp add: fetchable_def message_bytes_def m next_message_def sends_def kMaxPayloadBytes_def)
    with poll_step [OF c(1) io', of ?log] c n log show ?thesis by (auto simp: synced_def)
  qed
  then show ?thesis using pr m app route ok by (auto simp: next_message_def)
qed

text \<open>A broker with one topic of one partition, a producer and a consumer.\<close>

definition shop_broker :: broker where
  "shop_broker = ConfigureClientAuth log_broker [5] default_ClientAuthorization"

definition shop_client :: client where
  "shop_client = fst (subscribe ((setAuthToken (new_client 1) [5])\<lparr>cl_connected := True\<rparr>) [116] [103] 0)"

lemma shop_broker_facts:
  "br_storage shop_broker = br_storage log_broker" "br_queues shop_broker = br_queues log_broker" "br_cache shop_broker = []"
  "br_repl shop_broker = br_repl log_broker" "br_rate_limit shop_broker = 0" "br_topic_quota shop_broker = 0"
  "br_client_token shop_broker = [5]" "br_authorization shop_broker = default_ClientAuthorization"
  "br_offsets shop_broker = br_offsets log_broker"
  by (simp_all add: shop_broker_def ConfigureClientAuth_def log_broker_storage)

lemma log_broker_offsets: "br_offsets log_broker = []"
  by (simp add: log_broker_def demo_broker_def ConfigureClientAuth_def ConfigureReplication_def Broker_Open_def new_Broker_def
      Open_def good_io_def TopicMetadataStore_Load_def ConsumerOffsetStore_Load_def good_load_io_def demo_files_def ReplaceTopics_def ListTopics_def)

lemma shop_access:
  "br_opened shop_broker" "cl_auth_token shop_client = [5]" "cl_connected shop_client" "cl_topic shop_client = [116]"
  "cl_group shop_client = [103]" "cl_partition shop_client = 0" "cl_next_offset shop_client = 0" "cl_pending shop_client = []"
  "cl_sequence shop_client = 0" "cl_request_id shop_client = 1" "cl_producer_id shop_client = 1"
  using demo_broker_fields(1)
  by (simp_all add: shop_broker_def ConfigureClientAuth_def log_broker_def shop_client_def subscribe_def setAuthToken_def new_client_def)

lemma shop_topic: "IsValidTopicName [116]" by code_simp

lemma shop_route: "ResolvePartition (br_queues shop_broker) [116] 0xFFFFFFFF key = Inr 0"
  "ResolvePartition (br_queues shop_broker) [116] 0 key = Inr 0"
  by (simp_all add: shop_broker_facts log_broker_def ResolvePartition_def kAutoPartition_def)

lemma shop_accepts:
  assumes "command = kProduce \<or> command = kFetch" and "br_opened b" and "br_client_token b = [5]"
    and "br_authorization b = default_ClientAuthorization"
  shows "accepts b shop_client command [116]"
  using assms by (auto simp: accepts_def shop_access default_ClientAuthorization_def TopicAllowed_def)

lemma shop_produces:
  "\<exists>b' r. Handle demo_io shop_broker (sent_request (shop_client\<lparr>cl_sequence := cl_sequence shop_client + 1\<rparr>)
      (produce_request shop_client [116] [107] [118] kOne)) = Some (b', r) \<and> resp_status r = kOk \<and>
    br_opened b' \<and> br_client_token b' = [5] \<and> br_authorization b' = default_ClientAuthorization"
proof -
  define c where "c = shop_client\<lparr>cl_sequence := cl_sequence shop_client + 1\<rparr>"
  define q where "q = produce_request shop_client [116] [107] [118] kOne"
  define qi where "qi = q\<lparr>req_id := cl_request_id c\<rparr>"
  let ?io = "bi_produce demo_io 0" and ?b = "counted kProduce shop_broker"
  note facts = produce_request_facts [of kOne "[107]" "[118]" shop_client "[116]", folded q_def, simplified]
  have io: "pi_storage ?io = good_io 0 0" by (simp add: demo_io_def)
  have flags: "req_flags qi AND kFlagReplication = 0" "req_flags qi AND kAckMask \<noteq> kAckAll" "16 \<le> length (req_payload qi)"
    by (simp_all add: qi_def q_def produce_request_def flag_simps)
  have frame: "br_repl ?b = br_repl shop_broker" "br_rate_limit ?b = 0" "br_topic_quota ?b = 0" "br_opened ?b" "br_client_token ?b = [5]"
    "br_authorization ?b = default_ClientAuthorization"
    by (simp_all add: counted_def count_command_def shop_broker_facts shop_access)
  have adm: "admitted ?io ?b qi True = (?b, None)"
    using flags(1) by (simp add: admitted_def frame shop_broker_facts log_broker_storage CanServeWrites_def AllowProduceRequest_def)
  have fits: "message_fits [107] [118]" by (simp add: message_fits_def kMaxMessageBytes_def)
  obtain e m where app: "Append (good_io 0 0) (br_storage ?b) [116] 0 [107] [118] = (e, Inr m)"
    using Append_good [OF log_broker_storage(1) shop_topic fits, of 0 0 0] by (auto simp: shop_broker_facts)
  have qi: "req_topic qi = [116]" "parse_message (req_payload qi) (message_start qi) = Some (Inr (0xFFFFFFFF, [107], [118]))"
    using facts by (simp_all add: qi_def message_start_def)
  have "Option.bind (produce_key qi) (map_of (live_cache ?io ?b qi)) = None"
    by (cases "produce_key qi") (simp_all add: live_cache_def purge_cache_def shop_broker_facts)
  with HandleProduce_accepts [OF adm qi(2)] flags shop_route app io frame qi obtain b' where
    "HandleProduce ?io ?b qi True True = Some (b', MakeResponse qi kOk (Put32 0 @ Put64 (msg_offset m)))"
    "br_opened b'" "br_client_token b' = [5]" "br_authorization b' = default_ClientAuthorization"
    by fastforce
  moreover have "accepts shop_broker c (req_command q) (req_topic q)"
    using shop_accepts [of kProduce shop_broker] facts by (simp add: c_def accepts_def shop_broker_facts shop_access)
  ultimately show ?thesis
    using Handle_client [of shop_broker c q demo_io b'] facts unfolding c_def [symmetric] q_def [symmetric]
    by (auto simp: qi_def MakeResponse_def)
qed

lemma shop_sends: "sends shop_client [116] [107] [118] kOne"
  by (simp add: sends_def shop_access kMaxPayloadBytes_def)

theorem produce_then_poll_witness:
  "\<exists>b' p' c' (m :: Message). produce [via demo_io shop_broker] shop_client [116] [107] [118] kOne =
      Some (p', True, Some \<lparr>pr_partition = 0, pr_offset = 0\<rparr>) \<and>
    poll [via demo_io b'] shop_client = Some (c', Some m) \<and> msg_key m = [107] \<and> msg_value m = [118]"
proof -
  from shop_produces obtain b' r where run: "Handle demo_io shop_broker
      (sent_request (shop_client\<lparr>cl_sequence := cl_sequence shop_client + 1\<rparr>)
        (produce_request shop_client [116] [107] [118] kOne)) = Some (b', r)" "resp_status r = kOk"
    and access: "br_opened b'" "br_client_token b' = [5]" "br_authorization b' = default_ClientAuthorization" by blast
  have ok: "engine_ok (br_storage shop_broker)" "stored (br_storage shop_broker) k = []" for k
    using log_broker_storage(1,2) by (simp_all add: shop_broker_facts)
  have io: "writes_well (pi_storage (bi_produce demo_io 0))" "opens (bi_storage demo_io 0)"
    by (simp_all add: demo_io_def writes_well_def)
  have new: "first_time demo_io shop_broker shop_client [116] [107] [118] kOne"
    by (simp add: first_time_def live_cache_def purge_cache_def shop_broker_facts)
  have acc: "accepts shop_broker shop_client kProduce [116]"
    by (rule shop_accepts) (simp_all add: shop_access shop_broker_facts)
  from produce_stored [OF shop_sends acc ok(1) io(1) run new] have queues: "br_queues b' = br_queues shop_broker"
    "br_offsets b' = br_offsets shop_broker" by blast+
  from produce_then_poll [OF shop_sends acc ok(1) io(1) run new] obtain p' part off m where
    pr: "produce [via demo_io shop_broker] shop_client [116] [107] [118] kOne =
      Some (p', True, Some \<lparr>pr_partition = part, pr_offset = off\<rparr>)"
    and route: "ResolvePartition (br_queues shop_broker) [116] kAutoPartition [107] = Inr part" and ok': "engine_ok (br_storage b')"
    and m: "appends shop_broker b' [116] part m" "msg_offset m = off" "msg_key m = [107]" "msg_value m = [118]"
    and polls: "\<And>c io'. reading b' c \<and> cl_topic c = [116] \<and> cl_partition c = part \<and> cl_next_offset c = off \<and> cl_pending c = [] \<and>
      committed_to b' c off \<and> opens (bi_storage io' 0) \<Longrightarrow> \<exists>c'. poll [via io' b'] c = Some (c', Some m)"
    by blast
  have part: "part = 0" using route shop_route(1) by (simp add: kAutoPartition_def)
  have log: "stored (br_storage b') ([116], 0) = [m]" using m(1) ok(2) by (simp add: appends_def part)
  then have off: "off = 0" using stored_log [OF ok', of "[116]" 0] m(2) by simp
  have "reading b' shop_client"
    using shop_accepts [of kFetch b'] access ok' shop_route(2) log queues
    by (simp add: reading_def shop_access shop_topic)
  moreover have "committed_to b' shop_client 0"
    by (simp add: committed_to_def queues shop_broker_facts shop_access committed_def log_broker_offsets)
  ultimately obtain c' where "poll [via demo_io b'] shop_client = Some (c', Some m)"
    using polls [of shop_client demo_io] io(2) part off by (auto simp: shop_access)
  with pr part off m show ?thesis by blast
qed

text \<open>The request of \<^verbatim>\<open>MqConsumer::commit\<close>.\<close>

definition commit_request :: "client \<Rightarrow> u64 \<Rightarrow> Request" where
  "commit_request c off = default_Request\<lparr>req_command := kCommitOffset, req_topic := cl_topic c,
     req_payload := Put16 (of_nat (length (cl_group c))) @ cl_group c @ Put32 (cl_partition c) @ Put64 off\<rparr>"

lemma commit_request_facts:
  assumes "reading b c"
  shows "plain (commit_request c off)" "req_command (commit_request c off) = kCommitOffset" "req_topic (commit_request c off) = cl_topic c"
    "wf_Request (sent_request c (commit_request c off))"
proof -
  have "length (cl_topic c) \<le> 65535" using assms by (auto simp: reading_def IsValidTopicName_def)
  with assms show "wf_Request (sent_request c (commit_request c off))"
    by (auto simp: wf_Request_def commit_request_def default_Request_def reading_def accepts_def sent_request_def add_token_def
        kMaxPayloadBytes_def)
qed (simp_all add: plain_def commit_request_def default_Request_def)

lemma commit_accepted: "reading b c \<Longrightarrow> accepts b c kCommitOffset (cl_topic c)"
  by (simp add: reading_def accepts_def)

text \<open>What the broker does with it: the new offset is there even when it cannot be saved.\<close>

lemma commit_handled:
  assumes r: "reading b c"
    and save: "ConsumerOffsetStore_Save (bi_save_offsets io) (br_offset_files b)
      (commit_offset (cl_group c) (cl_topic c) (cl_partition c) off (br_offsets b)) = (files, res)"
  defines "b1 \<equiv> (counted kCommitOffset b)\<lparr>br_offsets := commit_offset (cl_group c) (cl_topic c) (cl_partition c) off (br_offsets b),
      br_offset_files := files\<rparr>"
  defines "resp \<equiv> MakeResponse ((commit_request c off)\<lparr>req_id := cl_request_id c\<rparr>) (case res of Inl _ \<Rightarrow> kStorageError | Inr _ \<Rightarrow> kOk) []"
  shows "Handle io b (sent_request c (commit_request c off)) =
    Some (if resp_status resp \<noteq> kOk then b1\<lparr>br_error_count := br_error_count b1 + 1\<rparr> else b1, resp)"
proof -
  define q where "q = (commit_request c off)\<lparr>req_id := cl_request_id c\<rparr>"
  note facts = commit_request_facts [OF r, of off]
  let ?b = "counted kCommitOffset b"
  have payload: "req_payload q = Put16 (of_nat (length (cl_group c))) @ cl_group c @ Put32 (cl_partition c) @ Put64 off"
    and topic: "req_topic q = cl_topic c" by (simp_all add: q_def commit_request_def)
  have grp: "0 < length (cl_group c)" "length (cl_group c) < 65536" and name: "req_topic q \<noteq> []"
    using r by (auto simp: reading_def IsValidTopicName_def topic)
  have route: "ResolvePartition (br_queues ?b) (req_topic q) (cl_partition c) [] = Inr (cl_partition c)"
    using r topic by (simp add: reading_def)
  have files: "br_offset_files ?b = br_offset_files b" by (simp add: counted_def count_command_def)
  have "dispatch io ?b q kCommitOffset = Some (b1, resp)"
    using HandleCommitOffset_run [OF payload grp name route, of io] save
    by (cases res) (simp_all add: b1_def resp_def topic files q_def [symmetric])
  then show ?thesis
    using Handle_client [of b c "commit_request c off" io b1 resp] facts commit_accepted [OF r] by (simp add: q_def)
qed

text \<open>A commit that the broker answers with OK is reported as done and is the committed offset of the group.\<close>

lemma commit_committed:
  assumes r: "reading b c" and run: "Handle io b (sent_request c (commit_request c off)) = Some (b1, resp)" and ok: "resp_status resp = kOk"
  shows "\<exists>c'. commit [via io b] c off = Some (c', True)"
    and "committed (br_offsets b1) (cl_group c) (cl_topic c) (cl_partition c) = Some off"
proof -
  obtain files res where save: "ConsumerOffsetStore_Save (bi_save_offsets io) (br_offset_files b)
      (commit_offset (cl_group c) (cl_topic c) (cl_partition c) off (br_offsets b)) = (files, res)" by fastforce
  from commit_handled [OF r save] run ok
  have b1: "br_offsets b1 = commit_offset (cl_group c) (cl_topic c) (cl_partition c) off (br_offsets b)"
    and resp: "resp = MakeResponse ((commit_request c off)\<lparr>req_id := cl_request_id c\<rparr>) kOk []"
    by (auto simp: MakeResponse_def split: sum.splits if_splits)
  show "committed (br_offsets b1) (cl_group c) (cl_topic c) (cl_partition c) = Some off"
    by (simp add: b1 committed_commit)
  have "wf_Response resp" by (simp add: resp wf_Response_def MakeResponse_def default_Response_def)
  moreover have "resp_id resp = cl_request_id c" by (simp add: resp MakeResponse_def)
  ultimately have "Call [via io b] c (commit_request c off) = Some (c\<lparr>cl_request_id := cl_request_id c + 1, cl_backoff := 100\<rparr>, Some resp)"
    using r run ok commit_request_facts [OF r, of off] by (intro Call_via) (auto simp: reading_def accepts_def)
  then show "\<exists>c'. commit [via io b] c off = Some (c', True)"
    using ok by (simp add: commit_def commit_request_def is_ok_def)
qed



end
