(* ===== verification/Replication_Client.thy ===== *)
theory Replication_Client
  imports End_To_End
begin

text \<open>
  The client of the replication protocol, \<^verbatim>\<open>src/server/replication_client.cc\<close>: one short connection per call. What
  the operating system does is \<open>rpc_io\<close>; with \<open>to_peer\<close> it is a connection to a broker. The theorems show that
  on such a connection each call is the corresponding operation of the peer: the bytes one side writes are the ones the
  other side reads.
\<close>

section \<open>Calls\<close>

record ReplicationClient =
  rc_timeout_ms :: u32
  rc_auth_token :: bytes
  rc_request_id :: u64
  rc_error :: string

definition new_ReplicationClient :: "u32 \<Rightarrow> bytes \<Rightarrow> ReplicationClient" where
  "new_ReplicationClient timeout_ms auth_token =
     \<lparr>rc_timeout_ms = (if timeout_ms = 0 then 1000 else timeout_ms), rc_auth_token = auth_token, rc_request_id = 1, rc_error = []\<rparr>"

text \<open>
  One connection: whether the socket is made, the name resolved, the connection made and the frame sent, and
  the bytes that arrive after a frame before the time is up or the peer closes.
\<close>

record rpc_io =
  ri_socket :: bool
  ri_resolve :: bool
  ri_connect :: bool
  ri_send :: bool
  ri_receive :: "bytes \<Rightarrow> bytes"

text \<open>The response of a request with the given id, or the new error message, which may be empty.\<close>

definition receive_response :: "bytes \<Rightarrow> u64 \<Rightarrow> (string + Response) option" where
  "receive_response received request_id =
    (if length received < 18 then Some (Inl [])
     else do {
       payload_size \<leftarrow> map_option unat (Get32 (take 18 received) 14);
       if payload_size > kMaxPayloadBytes \<or> length received < 18 + payload_size then Some (Inl [])
       else do {
         decoded \<leftarrow> DecodeResponse (take (18 + payload_size) received);
         Some (case decoded of
           Inl err \<Rightarrow> Inl err
         | Inr response \<Rightarrow> if resp_id response = request_id then Inr response else Inl []) } })"

definition rpc_request :: "ReplicationClient \<Rightarrow> Command \<Rightarrow> bytes \<Rightarrow> bytes \<Rightarrow> bool \<Rightarrow> Request" where
  "rpc_request c command topic payload term_payload = default_Request\<lparr>
     req_command := command, req_id := rc_request_id c,
     req_flags := kFlagReplication OR (if term_payload then kFlagReplicationTerm else 0), req_topic := topic,
     req_payload := Put16 (of_nat (length (rc_auth_token c))) @ rc_auth_token c @ payload\<rparr>"

text \<open>\<^verbatim>\<open>Call\<close>: the payload of an accepted call.\<close>

definition rpc_Call ::
  "rpc_io \<Rightarrow> ReplicationClient \<Rightarrow> Command \<Rightarrow> bytes \<Rightarrow> bytes \<Rightarrow> bool \<Rightarrow> (ReplicationClient \<times> bytes option) option" where
  "rpc_Call io c command topic payload term_payload =
    (if rc_auth_token c = [] \<or> length (rc_auth_token c) > 65535
     then Some (c\<lparr>rc_error := ''replication authentication token is not configured''\<rparr>, None)
     else if \<not> ri_socket io then Some (c\<lparr>rc_error := ''socket failed''\<rparr>, None)
     else if \<not> ri_resolve io then Some (c\<lparr>rc_error := ''resolve failed''\<rparr>, None)
     else if \<not> ri_connect io then Some (c\<lparr>rc_error := ''connect failed''\<rparr>, None)
     else
       let request = rpc_request c command topic payload term_payload;
           c1 = c\<lparr>rc_request_id := rc_request_id c + 1\<rparr> in do {
       answer \<leftarrow> (case EncodeRequest request of
           Inl _ \<Rightarrow> Some (Inl [])
         | Inr frame \<Rightarrow> if \<not> ri_send io then Some (Inl []) else receive_response (ri_receive io frame) (req_id request));
       Some (case answer of
         Inl err \<Rightarrow>
           (c1\<lparr>rc_error := if err \<noteq> [] then err else if rc_error c1 = [] then ''replication response failed'' else rc_error c1\<rparr>, None)
       | Inr response \<Rightarrow>
           if resp_status response \<noteq> kOk then (c1\<lparr>rc_error := ''replication request rejected''\<rparr>, None)
           else (c1\<lparr>rc_error := []\<rparr>, Some (resp_payload response))) })"

section \<open>The operations\<close>

text \<open>The loop over the messages of a fetch response; an empty error leaves the old one in place.\<close>

fun read_replicas :: "bytes \<Rightarrow> nat \<Rightarrow> nat \<Rightarrow> Message list \<Rightarrow> (string + (Message list \<times> nat)) option" where
  "read_replicas response 0 position messages = Some (Inr (messages, position))"
| "read_replicas response (Suc count) position messages =
    (if position + 18 > length response then Some (Inl ''invalid replica fetch response'')
     else do {
       offset \<leftarrow> Get64 response position;
       timestamp \<leftarrow> Get64 response (position + 8);
       key_size \<leftarrow> map_option unat (Get16 response (position + 16));
       if position + 18 + key_size + 4 > length response then Some (Inl [])
       else do {
         key \<leftarrow> substr response (position + 18) key_size;
         value_size \<leftarrow> map_option unat (Get32 response (position + 18 + key_size));
         if position + 22 + key_size + value_size > length response then Some (Inl [])
         else do {
           val \<leftarrow> substr response (position + 22 + key_size) value_size;
           read_replicas response count (position + 22 + key_size + value_size)
             (messages @ [\<lparr>msg_offset = offset, msg_timestamp_ms = timestamp, msg_key = key, msg_value = val\<rparr>]) } } })"

definition rpc_Fetch ::
  "rpc_io \<Rightarrow> ReplicationClient \<Rightarrow> bytes \<Rightarrow> u32 \<Rightarrow> u64 \<Rightarrow> u32 \<Rightarrow> (ReplicationClient \<times> Message list option) option" where
  "rpc_Fetch io c topic part offset max_bytes =
    (if max_bytes = 0 then Some (c, None)
     else do {
       (c1, answer) \<leftarrow> rpc_Call io c kReplicaFetch topic (Put32 part @ Put64 offset @ Put32 max_bytes) False;
       case answer of
         None \<Rightarrow> Some (c1, None)
       | Some response \<Rightarrow>
           if length response < 4 then Some (c1, None)
           else do {
             count \<leftarrow> map_option unat (Get32 response 0);
             if count > kMaxPayloadBytes div 18 then Some (c1\<lparr>rc_error := ''invalid replica fetch response count''\<rparr>, None)
             else do {
               messages \<leftarrow> read_replicas response count 4 [];
               Some (case messages of
                 Inl err \<Rightarrow> (if err = [] then c1 else c1\<lparr>rc_error := err\<rparr>, None)
               | Inr (ms, position) \<Rightarrow> (c1, if position = length response then Some ms else None)) } } })"

text \<open>
  \<^verbatim>\<open>Append\<close>. The next log index the code looks for after a failed call is never there: \<^verbatim>\<open>Call\<close> hands out the payload of
  accepted responses only.
\<close>

definition append_payload :: "u32 \<Rightarrow> Message list \<Rightarrow> u64 \<Rightarrow> u64 \<Rightarrow> bytes \<Rightarrow> u64 \<Rightarrow> u64 \<Rightarrow> bytes" where
  "append_payload part messages term commit_index leader_id prev_log_index prev_log_term =
     Put64 term @ Put64 commit_index @ Put16 (of_nat (length leader_id)) @ leader_id @ Put64 prev_log_index @ Put64 prev_log_term @
     Put32 part @ Put32 (of_nat (length messages)) @ concat (map message_record messages)"

definition rpc_Append ::
  "rpc_io \<Rightarrow> ReplicationClient \<Rightarrow> bytes \<Rightarrow> u32 \<Rightarrow> Message list \<Rightarrow> u64 \<Rightarrow> u64 \<Rightarrow> bytes \<Rightarrow> u64 \<Rightarrow> u64 \<Rightarrow>
    (ReplicationClient \<times> bool) option" where
  "rpc_Append io c topic part messages term commit_index leader_id prev_log_index prev_log_term =
    (if messages = [] \<or> leader_id = [] \<or> length leader_id > 65535 then Some (c, False)
     else do {
       (c1, answer) \<leftarrow> rpc_Call io c kReplicaAppend topic
         (append_payload part messages term commit_index leader_id prev_log_index prev_log_term) True;
       Some (c1, answer \<noteq> None) })"

definition heartbeat_payload :: "u32 \<Rightarrow> bytes \<Rightarrow> u64 \<Rightarrow> u64 \<Rightarrow> u64 \<Rightarrow> bytes" where
  "heartbeat_payload part node_id replicated_offset term commit_index =
     Put16 (of_nat (length node_id)) @ node_id @ Put32 part @ Put64 replicated_offset @
     (if term \<noteq> 0 then Put64 term @ Put64 commit_index else [])"

definition rpc_Heartbeat ::
  "rpc_io \<Rightarrow> ReplicationClient \<Rightarrow> bytes \<Rightarrow> u32 \<Rightarrow> bytes \<Rightarrow> u64 \<Rightarrow> u64 \<Rightarrow> u64 \<Rightarrow> (ReplicationClient \<times> bool) option" where
  "rpc_Heartbeat io c topic part node_id replicated_offset term commit_index =
    (if node_id = [] \<or> length node_id > 65535 then Some (c\<lparr>rc_error := ''invalid replication node id''\<rparr>, False)
     else do {
       (c1, answer) \<leftarrow> rpc_Call io c kHeartbeat topic
         (heartbeat_payload part node_id replicated_offset term commit_index) (term \<noteq> 0);
       Some (c1, answer \<noteq> None) })"

definition vote_payload :: "u64 \<Rightarrow> bytes \<Rightarrow> u64 \<Rightarrow> u64 \<Rightarrow> bytes" where
  "vote_payload term candidate_id last_log_index last_log_term =
     Put64 term @ Put16 (of_nat (length candidate_id)) @ candidate_id @ Put64 last_log_index @ Put64 last_log_term"

text \<open>\<^verbatim>\<open>Vote\<close> and \<^verbatim>\<open>PreVote\<close>: the answer of the peer when the call succeeds.\<close>

definition rpc_Vote ::
  "rpc_io \<Rightarrow> ReplicationClient \<Rightarrow> u64 \<Rightarrow> bytes \<Rightarrow> u64 \<Rightarrow> u64 \<Rightarrow> (ReplicationClient \<times> bool option) option" where
  "rpc_Vote io c term candidate_id last_log_index last_log_term =
    (if candidate_id = [] \<or> length candidate_id > 65535 then Some (c, None)
     else do {
       (c1, answer) \<leftarrow> rpc_Call io c kReplicaVote candidate_id (vote_payload term candidate_id last_log_index last_log_term) False;
       Some (case answer of
         None \<Rightarrow> (c1, None)
       | Some [granted] \<Rightarrow> (c1, Some (granted \<noteq> 0))
       | Some _ \<Rightarrow> (c1\<lparr>rc_error := ''invalid vote response''\<rparr>, None)) })"

definition rpc_PreVote ::
  "rpc_io \<Rightarrow> ReplicationClient \<Rightarrow> u64 \<Rightarrow> bytes \<Rightarrow> u64 \<Rightarrow> u64 \<Rightarrow> (ReplicationClient \<times> bool option) option" where
  "rpc_PreVote io c term candidate_id last_log_index last_log_term =
    (if candidate_id = [] \<or> length candidate_id > 65535 then Some (c, None)
     else do {
       (c1, answer) \<leftarrow> rpc_Call io c kReplicaVote candidate_id (vote_payload term candidate_id last_log_index last_log_term) True;
       Some (case answer of Some [granted] \<Rightarrow> (c1, Some (granted \<noteq> 0)) | _ \<Rightarrow> (c1, None)) })"


section \<open>A connection to a peer\<close>

definition to_peer :: "broker_io \<Rightarrow> broker \<Rightarrow> rpc_io" where
  "to_peer io b = \<lparr>ri_socket = True, ri_resolve = True, ri_connect = True, ri_send = True,
     ri_receive = (\<lambda>frame. case handle_frame io b frame of None \<Rightarrow> [] | Some (_, answer) \<Rightarrow> answer)\<rparr>"

text \<open>The peer takes part in the replication and shares the token.\<close>

definition peers_with :: "broker \<Rightarrow> ReplicationClient \<Rightarrow> bool" where
  "peers_with b c \<longleftrightarrow> br_opened b \<and> br_replication_configured b \<and> rc_auth_token c = br_replication_token b \<and>
     br_replication_token b \<noteq> [] \<and> length (br_replication_token b) \<le> 65535"

text \<open>The requests the peer takes: appends carry a term, fetches do not.\<close>

definition rpc_allowed :: "Command \<Rightarrow> bool \<Rightarrow> bool" where
  "rpc_allowed command term_payload \<longleftrightarrow>
     command \<in> {kHeartbeat, kReplicaVote} \<or> (command = kReplicaAppend \<and> term_payload) \<or> (command = kReplicaFetch \<and> \<not> term_payload)"

text \<open>The request as the handlers see it, without the token.\<close>

definition peer_request :: "ReplicationClient \<Rightarrow> Command \<Rightarrow> bytes \<Rightarrow> bytes \<Rightarrow> bool \<Rightarrow> Request" where
  "peer_request c command topic payload term_payload =
     (rpc_request c command topic payload term_payload)\<lparr>req_payload := payload\<rparr>"

lemma rpc_flags:
  "req_flags (rpc_request c command topic payload t) AND NOT kKnownFlags = 0"
  "req_flags (rpc_request c command topic payload t) AND kAckMask \<noteq> kAckMask"
  "req_flags (rpc_request c command topic payload t) AND kFlagReplication \<noteq> 0"
  "req_flags (rpc_request c command topic payload t) AND kFlagAuthentication = 0"
  "req_flags (rpc_request c command topic payload t) AND kFlagReplicationTerm \<noteq> 0 \<longleftrightarrow> t"
  by (cases t; simp add: rpc_request_def flag_simps)+

lemma rpc_request_fields [simp]:
  "req_command (rpc_request c command topic payload t) = command" "req_topic (rpc_request c command topic payload t) = topic"
  "req_id (rpc_request c command topic payload t) = rc_request_id c" "req_version (rpc_request c command topic payload t) = kCurrentVersion"
  "req_payload (rpc_request c command topic payload t) = Put16 (of_nat (length (rc_auth_token c))) @ rc_auth_token c @ payload"
  by (simp_all add: rpc_request_def default_Request_def)

lemma peer_request_fields [simp]:
  "req_command (peer_request c command topic payload t) = command" "req_topic (peer_request c command topic payload t) = topic"
  "req_id (peer_request c command topic payload t) = rc_request_id c" "req_payload (peer_request c command topic payload t) = payload"
  "req_flags (peer_request c command topic payload t) = req_flags (rpc_request c command topic payload t)"
  by (simp_all add: peer_request_def)

lemma authenticate_peer:
  assumes "peers_with b c" and "rpc_allowed command t"
  shows "authenticate (b\<lparr>br_request_count := n\<rparr>) (rpc_request c command topic payload t) =
    Some (Inr (peer_request c command topic payload t))"
  using assms rpc_flags [of c command topic payload t]
  by (auto simp: authenticate_def replication_command_def ValidateReplicationRequest_def Let_def peers_with_def rpc_allowed_def
      strip_token_eq peer_request_def)

lemma Handle_peer:
  assumes "peers_with b c" and "rpc_allowed command t"
    and "dispatch io (counted command b) (peer_request c command topic payload t) command = Some (b', r)"
  shows "Handle io b (rpc_request c command topic payload t) =
    Some (if resp_status r \<noteq> kOk then b'\<lparr>br_error_count := br_error_count b' + 1\<rparr> else b', r)"
proof -
  have "replication_command (rpc_request c command topic payload t)"
    using assms(2) rpc_flags(3) [of c command topic payload t] by (auto simp: replication_command_def rpc_allowed_def)
  with assms authenticate_peer [OF assms(1,2)] rpc_flags [of c command topic payload t] show ?thesis
    by (auto simp: Handle_def Let_def peers_with_def counted_def)
qed

lemma receive_response_frame:
  assumes "wf_Response r" and "EncodeResponse r = Inr frame"
  shows "receive_response frame (resp_id r) = Some (Inr r)"
proof -
  have frame: "frame = Put16 kMagic @ [resp_version r] @ [status_byte (resp_status r)] @ Put64 (resp_id r) @
      Put16 (resp_flags r) @ Put32 (of_nat (length (resp_payload r))) @ resp_payload r"
    using assms(1,2) by (simp add: EncodeResponse_wf)
  have len: "length frame = 18 + length (resp_payload r)" by (simp add: frame)
  have size: "unat (of_nat (length (resp_payload r)) :: u32) = length (resp_payload r)" "length (resp_payload r) \<le> kMaxPayloadBytes"
    using assms(1) by (simp_all add: wf_Response_def unat_of_nat_payload)
  have "Get32 (take 18 frame) 14 = Some (of_nat (length (resp_payload r)))" by (simp add: frame Get32_def drop_Cons')
  then show ?thesis
    using DecodeResponse_frame [OF assms(1,2)] size by (simp add: receive_response_def len)
qed

text \<open>
  What a call is worth: the peer handles the request without its token, and the caller gets the payload of a
  positive answer.
\<close>

definition call_result :: "ReplicationClient \<Rightarrow> Response \<Rightarrow> ReplicationClient \<times> bytes option" where
  "call_result c r =
    (if resp_status r = kOk then (c\<lparr>rc_request_id := rc_request_id c + 1, rc_error := []\<rparr>, Some (resp_payload r))
     else (c\<lparr>rc_request_id := rc_request_id c + 1, rc_error := ''replication request rejected''\<rparr>, None))"

lemma rpc_Call_to_peer:
  assumes peer: "peers_with b c" "rpc_allowed command t" and fits: "length topic \<le> 65535" "length payload + length (rc_auth_token c) + 2 \<le> kMaxPayloadBytes"
    and run: "dispatch io (counted command b) (peer_request c command topic payload t) command = Some (b', r)"
    and r: "wf_Response r" "resp_id r = rc_request_id c"
  shows "rpc_Call (to_peer io b) c command topic payload t = Some (call_result c r)"
proof -
  let ?request = "rpc_request c command topic payload t"
  have "wf_Request ?request"
    using peer fits by (auto simp: wf_Request_def peers_with_def rpc_allowed_def)
  note frame = EncodeRequest_wf [OF this] and push = Push_frame [OF this]
  obtain out where out: "EncodeResponse r = Inr out" using EncodeResponse_wf [OF r(1)] by blast
  have "ri_receive (to_peer io b) (request_frame ?request) = out"
    using push Handle_peer [OF peer run] out by (simp add: to_peer_def handle_frame_def)
  moreover have "receive_response out (rc_request_id c) = Some (Inr r)" using receive_response_frame [OF r(1) out] r(2) by simp
  moreover have "ri_socket (to_peer io b)" "ri_resolve (to_peer io b)" "ri_connect (to_peer io b)" "ri_send (to_peer io b)"
    by (simp_all add: to_peer_def)
  ultimately show ?thesis
    using peer(1) frame by (auto simp: rpc_Call_def Let_def peers_with_def call_result_def)
qed


section \<open>Votes\<close>

lemma counted_repl [simp]: "br_repl (counted command b) = br_repl b" "br_groups (counted command b) = br_groups b"
  by (simp_all add: counted_def count_command_def)

lemma wf_MakeResponse: "wf_status st \<Longrightarrow> length payload \<le> kMaxPayloadBytes \<Longrightarrow> wf_Response (MakeResponse request st payload)"
  by (simp add: wf_Response_def MakeResponse_def default_Response_def)

lemma MakeResponse_fields [simp]:
  "resp_status (MakeResponse request st payload) = st" "resp_payload (MakeResponse request st payload) = payload"
  "resp_id (MakeResponse request st payload) = req_id request"
  by (simp_all add: MakeResponse_def)

lemma vote_fields:
  fixes n i t :: u64
  assumes "candidate \<noteq> []" and "length candidate \<le> 65535"
  defines "p \<equiv> vote_payload n candidate i t"
  shows "length p = 26 + length candidate" and "Get64 p 0 = Some n" and "map_option unat (Get16 p 8) = Some (length candidate)"
    and "Get64 p (10 + length candidate) = Some i" and "Get64 p (18 + length candidate) = Some t"
    and "substr p 10 (length candidate) = Some candidate"
  using assms(2) by (simp_all add: p_def vote_payload_def Get64_def Get16_def substr_def drop_Cons' unat_of_nat_len16)

text \<open>The answer of the coordinator, with its new state.\<close>

definition vote_of :: "broker_io \<Rightarrow> broker \<Rightarrow> bool \<Rightarrow> u64 \<Rightarrow> bytes \<Rightarrow> u64 \<Rightarrow> u64 \<Rightarrow> repl \<times> bool" where
  "vote_of io b pre n candidate i t =
    (if pre then (br_repl b, RequestPreVote (br_repl b) n candidate i t)
     else RequestVote (bi_persist io) (br_repl b) n candidate i t)"

lemma HandleReplicaVote_payload:
  assumes "candidate \<noteq> []" and "length candidate \<le> 65535"
  shows "HandleReplicaVote io b (peer_request c kReplicaVote candidate (vote_payload n candidate i t) pre) =
    Some (b\<lparr>br_repl := fst (vote_of io b pre n candidate i t)\<rparr>,
      MakeResponse (peer_request c kReplicaVote candidate (vote_payload n candidate i t) pre) kOk
        [if snd (vote_of io b pre n candidate i t) then 1 else 0])"
  using assms(1)
  by (cases pre) (simp_all add: HandleReplicaVote_def Let_def vote_of_def vote_fields [OF assms] rpc_flags split: prod.splits)

lemma vote_call:
  assumes "peers_with b c" and "candidate \<noteq> []" and "length candidate \<le> 65535"
  shows "rpc_Call (to_peer io b) c kReplicaVote candidate (vote_payload n candidate i t) pre =
      Some (c\<lparr>rc_request_id := rc_request_id c + 1, rc_error := []\<rparr>, Some [if snd (vote_of io b pre n candidate i t) then 1 else 0])"
    and "\<exists>r. Handle io b (rpc_request c kReplicaVote candidate (vote_payload n candidate i t) pre) =
      Some ((counted kReplicaVote b)\<lparr>br_repl := fst (vote_of io b pre n candidate i t)\<rparr>, r)"
proof -
  let ?q = "peer_request c kReplicaVote candidate (vote_payload n candidate i t) pre"
  let ?v = "vote_of io b pre n candidate i t"
  have same: "vote_of io (counted kReplicaVote b) pre n candidate i t = ?v" by (simp add: vote_of_def)
  have run: "dispatch io (counted kReplicaVote b) ?q kReplicaVote =
      Some ((counted kReplicaVote b)\<lparr>br_repl := fst ?v\<rparr>, MakeResponse ?q kOk [if snd ?v then 1 else 0])"
    using HandleReplicaVote_payload [OF assms(2,3), of io "counted kReplicaVote b"] by (simp add: same)
  have allowed: "rpc_allowed kReplicaVote pre" by (simp add: rpc_allowed_def)
  have size: "length (vote_payload n candidate i t) + length (rc_auth_token c) + 2 \<le> kMaxPayloadBytes"
    using assms vote_fields(1) [OF assms(2,3), of n i t] by (auto simp: peers_with_def kMaxPayloadBytes_def)
  show "rpc_Call (to_peer io b) c kReplicaVote candidate (vote_payload n candidate i t) pre =
      Some (c\<lparr>rc_request_id := rc_request_id c + 1, rc_error := []\<rparr>, Some [if snd ?v then 1 else 0])"
    using rpc_Call_to_peer [OF assms(1) allowed assms(3) size run] by (simp add: wf_MakeResponse kMaxPayloadBytes_def call_result_def)
  show "\<exists>r. Handle io b (rpc_request c kReplicaVote candidate (vote_payload n candidate i t) pre) =
      Some ((counted kReplicaVote b)\<lparr>br_repl := fst ?v\<rparr>, r)"
    using Handle_peer [OF assms(1) allowed run] by simp
qed

text \<open>a vote over the network is a vote at the peer. With a peer that shares the token, \<^verbatim>\<open>Vote\<close> and \<^verbatim>\<open>PreVote\<close>
  always succeed, return what \<^verbatim>\<open>RequestVote\<close> and \<^verbatim>\<open>RequestPreVote\<close> of the peer's coordinator return for the very
  arguments of the caller, and leave the peer in the state these operations leave it in.\<close>

theorem votes_reach_coordinator:
  assumes "peers_with b c" and "candidate \<noteq> []" and "length candidate \<le> 65535"
  shows "rpc_Vote (to_peer io b) c n candidate i t =
      Some (c\<lparr>rc_request_id := rc_request_id c + 1, rc_error := []\<rparr>,
        Some (snd (RequestVote (bi_persist io) (br_repl b) n candidate i t))) \<and>
    rpc_PreVote (to_peer io b) c n candidate i t =
      Some (c\<lparr>rc_request_id := rc_request_id c + 1, rc_error := []\<rparr>, Some (RequestPreVote (br_repl b) n candidate i t)) \<and>
    (\<exists>b' r. Handle io b (rpc_request c kReplicaVote candidate (vote_payload n candidate i t) False) = Some (b', r) \<and>
      br_repl b' = fst (RequestVote (bi_persist io) (br_repl b) n candidate i t) \<and> br_storage b' = br_storage b) \<and>
    (\<exists>b' r. Handle io b (rpc_request c kReplicaVote candidate (vote_payload n candidate i t) True) = Some (b', r) \<and>
      br_repl b' = br_repl b \<and> br_storage b' = br_storage b)"
proof (intro conjI)
  show "rpc_Vote (to_peer io b) c n candidate i t = Some (c\<lparr>rc_request_id := rc_request_id c + 1, rc_error := []\<rparr>,
      Some (snd (RequestVote (bi_persist io) (br_repl b) n candidate i t)))"
    using vote_call(1) [OF assms, of io n i t False] assms(2,3) by (simp add: rpc_Vote_def vote_of_def)
  show "rpc_PreVote (to_peer io b) c n candidate i t =
      Some (c\<lparr>rc_request_id := rc_request_id c + 1, rc_error := []\<rparr>, Some (RequestPreVote (br_repl b) n candidate i t))"
    using vote_call(1) [OF assms, of io n i t True] assms(2,3) by (simp add: rpc_PreVote_def vote_of_def)
qed (use vote_call(2) [OF assms, of io n i t False] vote_call(2) [OF assms, of io n i t True] in \<open>fastforce simp: vote_of_def\<close>)+


section \<open>Heartbeats\<close>

text \<open>A heartbeat with a term is \<^verbatim>\<open>ObserveAppend\<close> at the peer, one without a term is always answered.\<close>

lemma rpc_Heartbeat_to_peer:
  assumes peer: "peers_with b c" and node: "node \<noteq> []" "length node \<le> 65535" and topic: "topic \<noteq> []" "length topic \<le> 65535"
  shows "\<exists>c'. rpc_Heartbeat (to_peer io b) c topic part node off n ci =
    Some (c', n = 0 \<or> snd (ObserveAppend (bi_persist io) (br_repl b) (PartitionKey topic part) n node off ci (bi_now io)))"
proof -
  define p where "p = heartbeat_payload part node off n ci"
  let ?q = "peer_request c kHeartbeat topic p (n \<noteq> 0)" and ?b = "counted kHeartbeat b"
  have f: "length p = (if n = 0 then 14 else 30) + length node" "map_option unat (Get16 p 0) = Some (length node)"
    "substr p 2 (length node) = Some node" "Get32 p (Suc (Suc (length node))) = Some part" "Get64 p (6 + length node) = Some off"
    "n \<noteq> 0 \<Longrightarrow> Get64 p (14 + length node) = Some n" "n \<noteq> 0 \<Longrightarrow> Get64 p (22 + length node) = Some ci"
    using node(2) by (simp_all add: p_def heartbeat_payload_def Get64_def Get32_def Get16_def substr_def drop_Cons' unat_of_nat_len16)
  obtain s acc where obs: "ObserveAppend (bi_persist io) (br_repl b) (PartitionKey topic part) n node off ci (bi_now io) = (s, acc)" by fastforce
  have run: "\<exists>b'. dispatch io ?b ?q kHeartbeat = Some (b', if n = 0 \<or> acc then MakeResponse ?q kOk (Put64 off) else MakeResponse ?q kStorageError [])"
    using node(1) topic(1) obs
    by (cases "n = 0"; cases acc) (simp_all add: HandleHeartbeat_def Let_def f rpc_flags)
  then obtain b' where run: "dispatch io ?b ?q kHeartbeat =
      Some (b', if n = 0 \<or> acc then MakeResponse ?q kOk (Put64 off) else MakeResponse ?q kStorageError [])" by blast
  have size: "length p + length (rc_auth_token c) + 2 \<le> kMaxPayloadBytes" using peer node(2) by (simp add: f(1) peers_with_def kMaxPayloadBytes_def)
  have "rpc_Call (to_peer io b) c kHeartbeat topic p (n \<noteq> 0) =
      Some (call_result c (if n = 0 \<or> acc then MakeResponse ?q kOk (Put64 off) else MakeResponse ?q kStorageError []))"
    by (rule rpc_Call_to_peer [OF peer _ topic(2) size run]) (simp_all add: rpc_allowed_def wf_MakeResponse kMaxPayloadBytes_def)
  then show ?thesis using node by (auto simp: p_def rpc_Heartbeat_def call_result_def obs)
qed

section \<open>Messages\<close>

interpretation fetch_loop: record_loop read_replicas
proof
  fix payload pre rest :: bytes and m n acc
  assume m: "encodable m" "payload = pre @ message_record m @ rest"
  note f = record_fields [OF m]
  show "read_replicas payload (Suc n) (length pre) acc = read_replicas payload n (length (pre @ message_record m)) (acc @ [m])"
    using f(7) unfolding f(8) [symmetric] by (simp add: f(1-6,9))
qed simp

interpretation append_loop: record_loop parse_records
proof
  fix payload pre rest :: bytes and m n acc
  assume m: "encodable m" "payload = pre @ message_record m @ rest"
  note f = record_fields [OF m]
  show "parse_records payload (Suc n) (length pre) acc = parse_records payload n (length (pre @ message_record m)) (acc @ [m])"
    using f(7) unfolding f(8) [symmetric] by (simp add: f(1-6,9))
qed simp


lemma append_fields:
  fixes n ci i t :: u64 and part :: u32
  assumes "leader \<noteq> []" and "length leader \<le> 65535" and "ms \<noteq> []" and "length ms \<le> 10000"
  defines "p \<equiv> append_payload part ms n ci leader i t"
  shows "length p = 42 + length leader + length (concat (map message_record ms))"
    and "parse_append_header p = Some (Inr (n, ci, leader, i, t, 34 + length leader))"
    and "Get32 p (34 + length leader) = Some part" and "Get32 p (38 + length leader) = Some (of_nat (length ms))"
proof -
  have count: "(of_nat (length ms) :: u32) \<noteq> 0" "of_nat (length ms) \<le> (10000 :: u32)"
    using assms(3,4) by (simp_all add: word_le_nat_alt unat_of_nat take_bit_nat_eq_self flip: unat_eq_zero)
  show len: "length p = 42 + length leader + length (concat (map message_record ms))" by (simp add: p_def append_payload_def)
  have f: "Get64 p 0 = Some n" "Get64 p 8 = Some ci" "Get16 p 16 = Some (of_nat (length leader))"
    "substr p 18 (length leader) = Some leader" "Get64 p (18 + length leader) = Some i" "Get64 p (26 + length leader) = Some t"
    by (simp_all add: p_def append_payload_def Get64_def Get16_def substr_def drop_Cons')
  show g: "Get32 p (34 + length leader) = Some part" "Get32 p (38 + length leader) = Some (of_nat (length ms))"
    by (simp_all add: p_def append_payload_def Get32_def drop_Cons')
  show "parse_append_header p = Some (Inr (n, ci, leader, i, t, 34 + length leader))"
    using assms(1,2) count by (simp add: parse_append_header_def len f g Let_def unat_of_nat_len16 word_gt_0)
qed

lemma HandleReplicaAppend_payload:
  assumes "leader \<noteq> []" and "length leader \<le> 65535" and "ms \<noteq> []" and "length ms \<le> 10000" and "list_all encodable ms"
    and "ResolvePartition (br_queues b) topic part [] = Inr part"
    and "q = peer_request c kReplicaAppend topic (append_payload part ms n ci leader i t) True"
  shows "HandleReplicaAppend io b q = Some (apply_append io b q (n, ci, leader, i, t) part ms)"
proof -
  let ?p = "append_payload part ms n ci leader i t"
  note f = append_fields [OF assms(1-4), of part n ci i t]
  have q: "req_payload q = ?p" "req_topic q = topic" "req_flags q AND kFlagReplication \<noteq> 0" "req_flags q AND kFlagReplicationTerm \<noteq> 0"
    by (simp_all add: assms(7) rpc_flags)
  have count: "unat (of_nat (length ms) :: u32) = length ms" using assms(4) by (simp add: unat_of_nat take_bit_nat_eq_self)
  then have "(of_nat (length ms) :: u32) \<noteq> 0" "\<not> of_nat (length ms) > (10000 :: u32)"
    using assms(3,4) by (auto simp: word_less_nat_alt)
  moreover have "parse_records ?p (length ms) (42 + length leader) [] = Some (Inr (ms, length ?p))"
    using append_loop.all_records [OF assms(5), where rest = "[]" and acc = "[]", OF refl,
        of "Put64 n @ Put64 ci @ Put16 (of_nat (length leader)) @ leader @ Put64 i @ Put64 t @ Put32 part @ Put32 (of_nat (length ms))"]
    by (simp add: f(1) append_payload_def)
  ultimately show ?thesis
    using assms(6) by (simp add: HandleReplicaAppend_def Let_def q f count)
qed

section \<open>Replicated appends\<close>

lemma NextOffset_ok:
  assumes "engine_ok e" and "opens io" and "IsValidTopicName topic"
  shows "\<exists>e'. engine_ok e' \<and> stored e' = stored e \<and> NextOffset io e topic part = (e', Inr (of_nat (length (stored e (topic, part)))))"
proof -
  from GetPartition_ok [OF assms(1,2), of topic part] obtain e' p where get: "GetPartition io e topic part = (e', Inr p)"
    and e': "engine_ok e'" "stored e' = stored e" "map_of (se_partitions e') (topic, part) = Some p"
      "stored e (topic, part) = partition_messages p"
    by auto
  have "pt_next_offset p = of_nat (length (stored e (topic, part)))"
    using engine_ok_open [OF e'(1,3)] e'(4) by (simp add: part_ok_def)
  with get e' assms(3) show ?thesis by (simp add: NextOffset_def)
qed

text \<open>What a sequence of replica appends adds is a prefix of the messages, all of them when it succeeds.\<close>

lemma append_replicas_stored:
  assumes "engine_ok e" and "\<And>j. writes_well (io j)" and "append_replicas io i e topic part ms = (e', r)"
  shows "engine_ok e' \<and> (\<exists>done_ms. prefix done_ms ms \<and> (r = Inr () \<longrightarrow> done_ms = ms) \<and>
    stored e' = (stored e)((topic, part) := stored e (topic, part) @ done_ms))"
  using assms(1,3)
proof (induction ms arbitrary: i e)
  case Nil
  then show ?case by (auto intro: exI [of _ "[]"])
next
  case (Cons m ms)
  obtain e1 r1 where one: "AppendReplica (io i) e topic part m = (e1, r1)" by fastforce
  have e1: "engine_ok e1 \<and> (stored e1 = stored e \<and> r1 \<noteq> Inr () \<or> stored e1 = (stored e)((topic, part) := stored e (topic, part) @ [m]))"
    using AppendReplica_ok [OF Cons.prems(1) _ _ one] assms(2) [of i] by (auto simp: writes_well_def split: if_splits)
  show ?case
  proof (cases r1)
    case (Inl err)
    with Cons.prems(2) one have "e' = e1" "r = Inl err" by simp_all
    from e1 show ?thesis
    proof (elim conjE disjE)
      assume "engine_ok e1" "stored e1 = stored e"
      with \<open>e' = e1\<close> \<open>r = Inl err\<close> show ?thesis by (auto intro!: exI [of _ "[]"])
    next
      assume "engine_ok e1" "stored e1 = (stored e)((topic, part) := stored e (topic, part) @ [m])"
      with \<open>e' = e1\<close> \<open>r = Inl err\<close> show ?thesis by (auto intro!: exI [of _ "[m]"])
    qed
  next
    case (Inr u)
    with Cons.prems(2) one have rest: "append_replicas io (i + 1) e1 topic part ms = (e', r)" by simp
    from e1 Inr have s1: "engine_ok e1" "stored e1 = (stored e)((topic, part) := stored e (topic, part) @ [m])" by simp_all
    from Cons.IH [OF s1(1) rest] obtain done_ms where d: "engine_ok e'" "prefix done_ms ms" "r = Inr () \<longrightarrow> done_ms = ms"
      "stored e' = (stored e1)((topic, part) := stored e1 (topic, part) @ done_ms)"
      by blast
    from d(4) s1(2) have "stored e' = (stored e)((topic, part) := stored e (topic, part) @ m # done_ms)" by (simp add: fun_eq_iff)
    with d(1-3) show ?thesis by (intro conjI exI [of _ "m # done_ms"]) auto
  qed
qed

text \<open>A disk that opens every file and syncs takes every message that continues the log.\<close>

definition disk_works :: "storage_io \<Rightarrow> bool" where
  "disk_works io \<longleftrightarrow> writes_well io \<and> (\<forall>number. st_open io number) \<and> st_index_write io \<and> st_sync_log io \<and> st_sync_index io"

lemma append_message_works: "disk_works io \<Longrightarrow> snd (snd (append_message io config dir p m)) = Inr ()"
  by (simp add: disk_works_def writes_well_def whole_writes_def append_message_def roll_segment_def write_message_def Let_def)

lemma AppendReplica_works:
  assumes "engine_ok e" and "disk_works io" and "IsValidTopicName topic" and "fits m" and "msg_offset m = of_nat (length (stored e (topic, part)))"
  shows "\<exists>e'. AppendReplica io e topic part m = (e', Inr ())"
proof -
  obtain e2 p where get: "GetPartition io (e\<lparr>se_opened := True\<rparr>) topic part = (e2, Inr p)"
    and e2: "engine_ok e2" "map_of (se_partitions e2) (topic, part) = Some p" "stored e (topic, part) = partition_messages p"
    using GetPartition_ok [of "e\<lparr>se_opened := True\<rparr>" io topic part] assms(1,2) by (auto simp: disk_works_def writes_well_def)
  have off: "msg_offset m = pt_next_offset p" using engine_ok_open [OF e2(1,2)] e2(3) assms(5) by (simp add: part_ok_def)
  obtain dir p' where "append_message io (se_config e2) (disk_dir e2 topic part) p m = (dir, p', Inr ())"
    using append_message_works [OF assms(2)] by (metis prod.collapse)
  then show ?thesis
    using assms get off Open_ok [of io e] by (simp add: AppendReplica_def fits_def message_fits_def disk_works_def writes_well_def)
qed

lemma append_replicas_works:
  assumes "engine_ok e" and "\<And>j. disk_works (io j)" and "IsValidTopicName topic" and "\<forall>m \<in> set ms. fits m"
    and "contiguous (of_nat (length (stored e (topic, part)))) ms"
  shows "snd (append_replicas io i e topic part ms) = Inr ()"
  using assms(1,4,5)
proof (induction ms arbitrary: i e)
  case (Cons m ms)
  from AppendReplica_works [OF Cons.prems(1) assms(2,3), of m part i] Cons.prems(2,3)
  obtain e1 where one: "AppendReplica (io i) e topic part m = (e1, Inr ())" by auto
  have e1: "engine_ok e1" "stored e1 = (stored e)((topic, part) := stored e (topic, part) @ [m])"
    using AppendReplica_ok [OF Cons.prems(1) _ _ one] assms(2) [of i] by (auto simp: disk_works_def writes_well_def split: if_splits)
  have "snd (append_replicas io (i + 1) e1 topic part ms) = Inr ()"
    by (rule Cons.IH) (use e1 Cons.prems in \<open>simp_all add: add.commute\<close>)
  then show ?case by (simp add: one)
qed simp

lemma apply_append_stored:
  assumes ok: "engine_ok (br_storage b)" and io: "\<And>j. writes_well (bi_storage io j)" and valid: "IsValidTopicName (req_topic q)"
    and run: "apply_append io b q (n, ci, leader, i, t) part ms = (b', r)" and flag: "req_flags q AND kFlagReplicationTerm \<noteq> 0"
  shows "engine_ok (br_storage b') \<and> wf_Response r \<and> resp_id r = req_id q \<and>
    (\<exists>done_ms. prefix done_ms ms \<and>
      stored (br_storage b') = (stored (br_storage b))((req_topic q, part) := stored (br_storage b) (req_topic q, part) @ done_ms) \<and>
      (resp_status r = kOk \<longrightarrow> done_ms = ms \<and> LogMatches (br_repl b) (PartitionKey (req_topic q) part) i t))"
proof (cases "LogMatches (br_repl b) (PartitionKey (req_topic q) part) i t")
  case False
  then show ?thesis using run ok flag by (auto simp: apply_append_def Let_def wf_MakeResponse kMaxPayloadBytes_def intro: exI [of _ "[]"])
next
  case True
  obtain e1 where e1: "engine_ok e1" "stored e1 = stored (br_storage b)"
    "NextOffset (bi_storage io 0) (br_storage b) (req_topic q) part = (e1, Inr (of_nat (length (stored (br_storage b) (req_topic q, part)))))"
    using NextOffset_ok [OF ok _ valid, of "bi_storage io 0" part] io [of 0] by (auto simp: writes_well_def)
  obtain s acc where obs: "ObserveAppend (bi_persist io) (br_repl b) (PartitionKey (req_topic q) part) n leader (msg_offset (last ms)) ci (bi_now io) = (s, acc)"
    by fastforce
  obtain e2 r2 where app: "append_replicas (bi_storage io) 1 e1 (req_topic q) part ms = (e2, r2)" by fastforce
  from append_replicas_stored [OF e1(1) io app] e1(2) obtain done_ms where d: "engine_ok e2" "prefix done_ms ms" "r2 = Inr () \<longrightarrow> done_ms = ms"
    "stored e2 = (stored (br_storage b))((req_topic q, part) := stored (br_storage b) (req_topic q, part) @ done_ms)"
    by auto
  consider "msg_offset (hd ms) \<noteq> of_nat (length (stored (br_storage b) (req_topic q, part))) \<or> \<not> consecutive_offsets ms \<or> \<not> acc"
    | "msg_offset (hd ms) = of_nat (length (stored (br_storage b) (req_topic q, part)))" "consecutive_offsets ms" acc by blast
  then show ?thesis
  proof cases
    case 1
    then show ?thesis
      using run True flag e1 obs
      by (auto simp: apply_append_def Let_def wf_MakeResponse kMaxPayloadBytes_def intro: exI [of _ "[]"] split: if_splits)
  next
    case 2
    then show ?thesis
      using run True flag e1 obs app d
      by (auto simp: apply_append_def Let_def wf_MakeResponse kMaxPayloadBytes_def split: sum.splits if_splits intro!: exI [of _ done_ms])
  qed
qed

text \<open>C31: an append over the network extends the follower's log by exactly the messages sent. On a connection to a
  follower that shares the token, \<^verbatim>\<open>ReplicationClient::Append\<close> reports success only when every message was
  appended, in order and unchanged, after a log that matched the previous index and term; whatever it reports, the follower
  stored a prefix of the messages sent and no other partition changed.\<close>

theorem append_call_extends_log:
  assumes peer: "peers_with b c" and store: "engine_ok (br_storage b)" "\<And>j. writes_well (bi_storage io j)"
    and topic: "IsValidTopicName topic" "ResolvePartition (br_queues b) topic part [] = Inr part"
    and leader: "leader \<noteq> []" "length leader \<le> 65535" and ms: "ms \<noteq> []" "length ms \<le> 10000" "list_all encodable ms"
    and size: "length (append_payload part ms n ci leader i t) + length (rc_auth_token c) + 2 \<le> kMaxPayloadBytes"
  shows "\<exists>b' r c' success done_ms.
    Handle io b (rpc_request c kReplicaAppend topic (append_payload part ms n ci leader i t) True) = Some (b', r) \<and>
    rpc_Append (to_peer io b) c topic part ms n ci leader i t = Some (c', success) \<and> engine_ok (br_storage b') \<and>
    prefix done_ms ms \<and> stored (br_storage b') = (stored (br_storage b))((topic, part) := stored (br_storage b) (topic, part) @ done_ms) \<and>
    (success \<longrightarrow> done_ms = ms \<and> LogMatches (br_repl b) (PartitionKey topic part) i t)"
proof -
  let ?p = "append_payload part ms n ci leader i t" and ?b = "counted kReplicaAppend b"
  let ?q = "peer_request c kReplicaAppend topic ?p True"
  have allowed: "rpc_allowed kReplicaAppend True" by (simp add: rpc_allowed_def)
  have len: "length topic \<le> 65535" using topic(1) by (auto simp: IsValidTopicName_def)
  obtain b' r where app: "apply_append io ?b ?q (n, ci, leader, i, t) part ms = (b', r)" by fastforce
  have run: "dispatch io ?b ?q kReplicaAppend = Some (b', r)"
    using HandleReplicaAppend_payload [OF leader ms, of ?b topic part ?q] topic(2) app by simp
  from apply_append_stored [OF _ store(2) _ app] store(1) topic(1) rpc_flags(5) [of c kReplicaAppend topic ?p True]
  obtain done_ms where d: "engine_ok (br_storage b')" "wf_Response r" "resp_id r = rc_request_id c" "prefix done_ms ms"
    "stored (br_storage b') = (stored (br_storage b))((topic, part) := stored (br_storage b) (topic, part) @ done_ms)"
    "resp_status r = kOk \<longrightarrow> done_ms = ms \<and> LogMatches (br_repl b) (PartitionKey topic part) i t"
    by auto
  have call: "rpc_Append (to_peer io b) c topic part ms n ci leader i t = Some (fst (call_result c r), snd (call_result c r) \<noteq> None)"
    using rpc_Call_to_peer [OF peer allowed len size run d(2,3)] leader ms(1) by (simp add: rpc_Append_def split: prod.splits)
  have success: "snd (call_result c r) \<noteq> None \<longleftrightarrow> resp_status r = kOk" by (simp add: call_result_def)
  show ?thesis
    using Handle_peer [OF peer allowed run] call success d(1,4-6)
    by (intro exI [of _ "if resp_status r \<noteq> kOk then b'\<lparr>br_error_count := br_error_count b' + 1\<rparr> else b'"] exI [of _ r]
        exI [of _ "fst (call_result c r)"] exI [of _ "snd (call_result c r) \<noteq> None"] exI [of _ done_ms]) auto
qed

definition demo_rpc :: ReplicationClient where
  "demo_rpc = new_ReplicationClient 0 [7]"

lemma demo_peer: "peers_with log_broker demo_rpc" "rc_auth_token demo_rpc = [7]"
  using demo_broker_fields by (simp_all add: peers_with_def log_broker_def demo_rpc_def new_ReplicationClient_def)

lemma demo_route: "ResolvePartition (br_queues log_broker) [116] 0 [] = Inr 0"
  using shop_route(2) [of "[]"] by (simp add: shop_broker_facts)

theorem votes_reach_coordinator_witness:
  "rpc_Vote (to_peer demo_io log_broker) demo_rpc 9 [99] 0 0 =
    Some (demo_rpc\<lparr>rc_request_id := rc_request_id demo_rpc + 1, rc_error := []\<rparr>,
      Some (snd (RequestVote (bi_persist demo_io) (br_repl log_broker) 9 [99] 0 0)))"
  using votes_reach_coordinator [OF demo_peer(1), of "[99]" demo_io 9 0 0] by simp

theorem append_call_extends_log_witness:
  "\<exists>(b' :: broker) c' success done_ms. rpc_Append (to_peer demo_io log_broker) demo_rpc [116] 0 [sample_message] 3 0 [108] 0 0 = Some (c', success) \<and>
    prefix done_ms [sample_message] \<and> stored (br_storage b') = (stored (br_storage log_broker))(([116], 0) := stored (br_storage log_broker) ([116], 0) @ done_ms) \<and>
    (success \<longrightarrow> done_ms = [sample_message])"
proof -
  have io: "writes_well (bi_storage demo_io j)" for j by (simp add: demo_io_def writes_well_def)
  have ms: "list_all encodable [sample_message]" "length (append_payload 0 [sample_message] 3 0 [108] 0 0) + length (rc_auth_token demo_rpc) + 2 \<le> kMaxPayloadBytes"
    by (simp_all add: encodable_def sample_message_def append_payload_def message_record_def demo_peer kMaxPayloadBytes_def)
  have small: "[108 :: byte] \<noteq> []" "length [108 :: byte] \<le> 65535" "[sample_message] \<noteq> []" "length [sample_message] \<le> 10000" by simp_all
  from append_call_extends_log [OF demo_peer(1) log_broker_storage(1) io shop_topic demo_route small ms] show ?thesis by blast
qed

section \<open>Fetches\<close>

lemma fetch_fields:
  fixes part max_bytes :: u32 and offset :: u64
  defines "p \<equiv> Put32 part @ Put64 offset @ Put32 max_bytes"
  shows "length p = 16" and "Get32 p 0 = Some part" and "Get64 p 4 = Some offset" and "Get32 p 12 = Some max_bytes"
  by (simp_all add: p_def Get32_def Get64_def drop_Cons')

text \<open>The partition of a peer that a fetch reads, and the part of its log a fetch of the whole space returns.\<close>

lemma rpc_Fetch_to_peer:
  assumes peer: "peers_with b c" and store: "engine_ok (br_storage b)" "opens (bi_storage io 0)"
    and topic: "IsValidTopicName topic" "ResolvePartition (br_queues b) topic part [] = Inr part"
    and log: "length (stored (br_storage b) (topic, part)) < 2 ^ 64" "unat offset < length (stored (br_storage b) (topic, part))"
    and fit: "fetchable (stored (br_storage b) (topic, part) ! unat offset)"
  shows "\<exists>k > 0. unat offset + k \<le> length (stored (br_storage b) (topic, part)) \<and>
    rpc_Fetch (to_peer io b) c topic part offset 1048576 =
      Some (c\<lparr>rc_request_id := rc_request_id c + 1, rc_error := []\<rparr>, Some (take k (drop (unat offset) (stored (br_storage b) (topic, part)))))"
proof -
  let ?log = "stored (br_storage b) (topic, part)" and ?n = "unat offset" and ?b = "counted kReplicaFetch b"
  let ?p = "Put32 part @ Put64 offset @ Put32 (1048576 :: u32)"
  let ?q = "peer_request c kReplicaFetch topic ?p False"
  have first: "message_bytes (?log ! ?n) \<le> unat (1048576 :: u32)" using fit by (auto simp: fetchable_def kMaxPayloadBytes_def)
  obtain k where k: "0 < k" "k \<le> length ?log - ?n" "read_loop offset (unat (1048576 :: u32)) ?log 0 [] = take k (drop ?n ?log)"
    using read_loop_log [OF store(1) log first] by blast
  let ?ms = "take k (drop ?n ?log)"
  have "\<not> offset > of_nat (length ?log)" using log by (simp add: word_less_nat_alt unat_of_nat take_bit_nat_eq_self)
  with Read_ok [OF store topic(1), of 1048576 part offset] k
  obtain e' where e': "Read (bi_storage io 0) (br_storage b) topic part offset 1048576 = (e', Inr ?ms)" by auto
  have "\<forall>m \<in> set ?log. fits m" using stored_log [OF store(1)] by blast
  then have enc: "list_all encodable ?ms"
    by (auto simp: list_all_iff fits_def message_fits_def encodable_def kMaxMessageBytes_def dest!: in_set_takeD in_set_dropD)
  from messages_payload_read [OF this] obtain j where j: "j \<le> length ?ms" "messages_payload ?ms = Put32 (of_nat j) @ concat (map message_record (take j ?ms))"
    "length (messages_payload ?ms) \<le> kMaxPayloadBytes" "j < 50000" "?ms \<noteq> [] \<longrightarrow> record_size (hd ?ms) \<le> kMaxPayloadBytes - 8 \<longrightarrow> 0 < j"
    by blast
  have "?ms \<noteq> []" using k log(2) by simp
  moreover have "hd ?ms = ?log ! ?n" using k log(2) by (simp add: hd_drop_conv_nth)
  ultimately have "0 < j" using j(5) fit by (simp add: fetchable_def message_bytes_def record_size_def kMaxPayloadBytes_def)
  have run: "dispatch io ?b ?q kReplicaFetch = Some (?b\<lparr>br_storage := e'\<rparr>, MakeResponse ?q kOk (messages_payload ?ms))"
    using topic(2) e' by (simp add: HandleReplicaFetch_def fetch_fields rpc_flags)
  have len: "length topic \<le> 65535" using topic(1) by (auto simp: IsValidTopicName_def)
  have call: "rpc_Call (to_peer io b) c kReplicaFetch topic ?p False =
      Some (c\<lparr>rc_request_id := rc_request_id c + 1, rc_error := []\<rparr>, Some (messages_payload ?ms))"
    using rpc_Call_to_peer [OF peer _ len _ run] peer j(3)
    by (simp add: rpc_allowed_def fetch_fields wf_MakeResponse call_result_def peers_with_def kMaxPayloadBytes_def)
  have enc_j: "list_all encodable (take j ?ms)" using enc unfolding list_all_iff by (meson in_set_takeD)
  have count: "unat (of_nat j :: u32) = j" using j(4) by (simp add: unat_of_nat take_bit_nat_eq_self)
  have reads: "read_replicas (messages_payload ?ms) j 4 [] = Some (Inr (take j ?ms, length (messages_payload ?ms)))"
    using fetch_loop.all_records [OF enc_j, of _ "Put32 (of_nat j)" "[]" "[]"] j(1,2) by (simp add: min_absorb2)
  have get: "Get32 (messages_payload ?ms) 0 = Some (of_nat j)" unfolding j(2) by (simp add: Get32_def)
  have long: "\<not> length (messages_payload ?ms) < 4" unfolding j(2) by simp
  have "rpc_Fetch (to_peer io b) c topic part offset 1048576 =
      Some (c\<lparr>rc_request_id := rc_request_id c + 1, rc_error := []\<rparr>, Some (take j ?ms))"
    using call reads get long count j(4) by (simp add: rpc_Fetch_def kMaxPayloadBytes_def)
  moreover have "take j ?ms = take (min j k) (drop ?n ?log)" by (simp add: min.commute)
  ultimately show ?thesis using \<open>0 < j\<close> k(1,2) log(2) by (intro exI [of _ "min j k"]) auto
qed

section \<open>Following a leader\<close>

text \<open>A follower whose fetches go to the leader \<open>l\<close>, for one partition both have.\<close>

definition follows :: "loop_io \<Rightarrow> ReplicationPeer \<Rightarrow> broker \<Rightarrow> broker_io \<Rightarrow> broker \<Rightarrow> ReplicationClient \<Rightarrow> bytes \<Rightarrow> u32 \<Rightarrow> bool" where
  "follows io peer f lio l c topic part \<longleftrightarrow> peers_with l c \<and> engine_ok (br_storage f) \<and> engine_ok (br_storage l) \<and>
     opens (bi_storage lio 0) \<and> (\<forall>j. writes_well (li_storage io topic part j)) \<and> IsValidTopicName topic \<and>
     ResolvePartition (br_queues l) topic part [] = Inr part \<and> length (stored (br_storage l) (topic, part)) < 2 ^ 64 \<and>
     (\<forall>m \<in> set (stored (br_storage l) (topic, part)). fetchable m) \<and>
     (\<forall>offset max_bytes. li_fetch io peer topic part offset max_bytes =
        Option.bind (rpc_Fetch (to_peer lio l) c topic part offset max_bytes) snd)"

definition next_pull :: "broker \<Rightarrow> bytes \<Rightarrow> u32 \<Rightarrow> u64" where
  "next_pull f topic part = (case map_of (br_replication_offsets f) (follower_key topic part) of None \<Rightarrow> 0 | Some off \<Rightarrow> off)"

lemma pull_start:
  assumes "follows io peer f lio l c topic part" and "length (stored (br_storage f) (topic, part)) = n"
    and "next_pull f topic part = 0 \<or> next_pull f topic part = of_nat n"
  shows "\<exists>e. engine_ok e \<and> stored e = stored (br_storage f) \<and>
    (if next_pull f topic part = 0 then NextOffset (li_storage io topic part 0) (br_storage f) topic part
     else (br_storage f, Inr (next_pull f topic part))) = (e, Inr (of_nat n))"
  using assms NextOffset_ok [of "br_storage f" "li_storage io topic part 0" topic part] by (auto simp: follows_def writes_well_def)

lemma log_slice:
  assumes "engine_ok e" and "n \<le> length (stored e (topic, part))"
  shows "contiguous (of_nat n) (take k (drop n (stored e (topic, part))))"
    and "\<forall>m \<in> set (take k (drop n (stored e (topic, part)))). fits m"
proof -
  let ?log = "stored e (topic, part)"
  have "contiguous 0 (take n ?log @ take k (drop n ?log) @ drop k (drop n ?log))"
    using stored_log [OF assms(1)] by (simp only: append_take_drop_id)
  then show "contiguous (of_nat n) (take k (drop n ?log))" using assms(2) unfolding contiguous_append by simp
  show "\<forall>m \<in> set (take k (drop n ?log)). fits m"
    using stored_log [OF assms(1)] by (auto dest!: in_set_takeD in_set_dropD)
qed

lemma fetch_partition_run:
  assumes start: "(if next_pull f topic part = 0 then NextOffset (li_storage io topic part 0) (br_storage f) topic part
      else (br_storage f, Inr (next_pull f topic part))) = (e, Inr off)"
    and fetch: "li_fetch io peer topic part off (1024 * 1024) = Some ms"
    and app: "append_replicas (li_storage io topic part) 1 e topic part ms = (e', r)"
  shows "fetch_partition io peer (f, seen) (topic, part) =
    (if r \<noteq> Inr () \<or> ms = [] then f\<lparr>br_storage := e'\<rparr>
     else f\<lparr>br_storage := e',
            br_replication_offsets := AList.update (follower_key topic part) (msg_offset (last ms) + 1) (br_replication_offsets f)\<rparr>, True)"
  unfolding fetch_partition_def prod.case Let_def next_pull_def [symmetric] start sum.case fetch option.case app
  by (cases r) simp_all

lemma pulled_messages:
  assumes "follows io peer f lio l c topic part" and "n < length (stored (br_storage l) (topic, part))"
  shows "\<exists>k > 0. n + k \<le> length (stored (br_storage l) (topic, part)) \<and>
    li_fetch io peer topic part (of_nat n) (1024 * 1024) = Some (take k (drop n (stored (br_storage l) (topic, part))))"
proof -
  have n: "unat (of_nat n :: u64) = n" using assms by (simp add: follows_def unat_of_nat take_bit_nat_eq_self)
  with assms rpc_Fetch_to_peer [of l c lio topic part "of_nat n"] obtain k where "0 < k" "n + k \<le> length (stored (br_storage l) (topic, part))"
    "rpc_Fetch (to_peer lio l) c topic part (of_nat n) 1048576 = Some (c\<lparr>rc_request_id := rc_request_id c + 1, rc_error := []\<rparr>,
      Some (take k (drop n (stored (br_storage l) (topic, part)))))"
    by (auto simp: follows_def)
  with assms(1) show ?thesis by (intro exI [of _ k]) (simp add: follows_def)
qed

text \<open>C32: a follower copies its leader. A follower whose log is a prefix of the leader's and who pulls from its end gets
  at least one of the missing messages, over the network, and its log becomes a longer prefix of the leader's, up to
  what its disk takes; the position of its next pull is the new end of its log when the disk took everything.\<close>

theorem follower_catches_up:
  assumes follow: "follows io peer f lio l c topic part"
    and behind: "stored (br_storage f) (topic, part) = take n (stored (br_storage l) (topic, part))"
      "n < length (stored (br_storage l) (topic, part))"
    and pull: "next_pull f topic part = 0 \<or> next_pull f topic part = of_nat n"
  shows "\<exists>f' k. fetch_partition io peer (f, seen) (topic, part) = (f', True) \<and> engine_ok (br_storage f') \<and>
    n + k \<le> length (stored (br_storage l) (topic, part)) \<and>
    stored (br_storage f') = (stored (br_storage f))((topic, part) := take (n + k) (stored (br_storage l) (topic, part))) \<and>
    ((\<forall>j. disk_works (li_storage io topic part j)) \<longrightarrow> 0 < k \<and> next_pull f' topic part = of_nat (n + k))"
proof -
  let ?log = "stored (br_storage l) (topic, part)"
  obtain e where e: "engine_ok e" "stored e = stored (br_storage f)" "(if next_pull f topic part = 0
      then NextOffset (li_storage io topic part 0) (br_storage f) topic part else (br_storage f, Inr (next_pull f topic part))) = (e, Inr (of_nat n))"
    using pull_start [OF follow _ pull] behind by auto
  obtain k where k: "0 < k" "n + k \<le> length ?log" "li_fetch io peer topic part (of_nat n) (1024 * 1024) = Some (take k (drop n ?log))"
    using pulled_messages [OF follow behind(2)] by blast
  let ?ms = "take k (drop n ?log)"
  obtain e' r where app: "append_replicas (li_storage io topic part) 1 e topic part ?ms = (e', r)" by fastforce
  have "writes_well (li_storage io topic part j)" for j using follow by (simp add: follows_def)
  from append_replicas_stored [OF e(1) this app] e(2) obtain got where got: "engine_ok e'" "prefix got ?ms" "r = Inr () \<longrightarrow> got = ?ms"
    "stored e' = (stored (br_storage f))((topic, part) := stored (br_storage f) (topic, part) @ got)"
    by auto
  from got(2) have pre: "got = take (length got) (drop n ?log)" "length got \<le> k"
    using prefix_length_le [OF got(2)] by (auto simp: prefix_def) (metis append_eq_conv_conj min.absorb1 take_take)
  have copied: "take n ?log @ got = take (n + length got) ?log" using pre(1) by (simp add: take_add)
  show ?thesis
  proof (cases r)
    case (Inl err)
    have "fetch_partition io peer (f, seen) (topic, part) = (f\<lparr>br_storage := e'\<rparr>, True)"
      using fetch_partition_run [OF e(3) k(3) app] Inl by simp
    moreover have "\<not> (\<forall>j. disk_works (li_storage io topic part j))"
    proof
      assume works: "\<forall>j. disk_works (li_storage io topic part j)"
      have "snd (append_replicas (li_storage io topic part) 1 e topic part ?ms) = Inr ()"
        using append_replicas_works [OF e(1), of "li_storage io topic part" topic ?ms part 1] works follow e(2) behind
          log_slice [of "br_storage l" n topic part k]
        by (simp add: follows_def)
      with app Inl show False by simp
    qed
    ultimately show ?thesis using got pre(2) k(2) copied behind(1)
      by (intro exI [of _ "f\<lparr>br_storage := e'\<rparr>"] exI [of _ "length got"]) auto
  next
    case (Inr u)
    with got(3) have all: "got = ?ms" "length got = k" using k(2) by auto
    have ne: "?ms \<noteq> []" using k behind(2) by simp
    have "last ?ms = ?log ! (n + k - 1)" using ne k by (simp add: last_conv_nth nth_append)
    then have off: "msg_offset (last ?ms) + 1 = of_nat (n + k)"
      using contiguous_nth_offset [of 0 ?log "n + k - 1"] stored_log [of "br_storage l" topic part] follow k(1,2)
      by (simp add: follows_def of_nat_diff)
    let ?f = "f\<lparr>br_storage := e', br_replication_offsets := AList.update (follower_key topic part) (of_nat (n + k)) (br_replication_offsets f)\<rparr>"
    have "fetch_partition io peer (f, seen) (topic, part) = (?f, True)"
      using fetch_partition_run [OF e(3) k(3) app] Inr ne off by simp
    moreover have "next_pull ?f topic part = of_nat (n + k)" by (simp add: next_pull_def update_conv')
    ultimately show ?thesis
      using got all k copied behind(1) by (intro exI [of _ ?f] exI [of _ k]) auto
  qed
qed


text \<open>The witness: a leader with one message and an empty follower.\<close>

definition full_leader :: broker where
  "full_leader = log_broker\<lparr>br_storage := fst (Append (good_io 0 0) (br_storage log_broker) [116] 0 [107] [118])\<rparr>"

definition demo_leader_peer :: ReplicationPeer where
  "demo_leader_peer = \<lparr>peer_node_id = [108], peer_host = [104], peer_port = 9092, peer_leader = True\<rparr>"

definition pull_io :: loop_io where
  "pull_io = \<lparr>li_now = 0, li_timeout = 200, li_persist = bi_persist demo_io, li_storage = (\<lambda>_ _ _. good_io 0 0),
     li_fetch = (\<lambda>_ topic part offset max_bytes. Option.bind (rpc_Fetch (to_peer demo_io full_leader) demo_rpc topic part offset max_bytes) snd),
     li_pre_vote = (\<lambda>_ _ _ _ _. False), li_vote = (\<lambda>_ _ _ _ _. False), li_heartbeat = (\<lambda>_ _ _ _ _ _ _. False),
     li_append = (\<lambda>_ _ _ _ _ _ _ _ _. False)\<rparr>"

lemma full_leader_log:
  "engine_ok (br_storage full_leader) \<and> (\<exists>m. stored (br_storage full_leader) ([116], 0) = [m] \<and> msg_key m = [107] \<and> msg_value m = [118])"
proof -
  have fits: "message_fits [107] [118]" by (simp add: message_fits_def kMaxMessageBytes_def)
  obtain e m where app: "Append (good_io 0 0) (br_storage log_broker) [116] 0 [107] [118] = (e, Inr m)"
    using Append_good [OF log_broker_storage(1) shop_topic fits] by blast
  then show ?thesis
    using Append_ok [OF log_broker_storage(1) _ _ app] log_broker_storage(2) shop_topic fits by (auto simp: full_leader_def)
qed

lemma log_broker_pull: "next_pull log_broker [116] 0 = 0"
  by (simp add: next_pull_def log_broker_def demo_broker_def ConfigureClientAuth_def ConfigureReplication_def Broker_Open_def new_Broker_def
      Open_def good_io_def TopicMetadataStore_Load_def ConsumerOffsetStore_Load_def good_load_io_def demo_files_def ReplaceTopics_def ListTopics_def)

theorem follower_catches_up_witness:
  "\<exists>f' (m :: Message). fetch_partition pull_io demo_leader_peer (log_broker, False) ([116], 0) = (f', True) \<and>
    stored (br_storage f') ([116], 0) = [m] \<and> msg_value m = [118] \<and> next_pull f' [116] 0 = 1"
proof -
  obtain m where m: "stored (br_storage full_leader) ([116], 0) = [m]" "msg_key m = [107]" "msg_value m = [118]"
    using full_leader_log by blast
  have works: "disk_works (good_io 0 0)" by (simp add: disk_works_def writes_well_def good_io_def) (simp add: opens_good [unfolded good_io_def])
  have follow: "follows pull_io demo_leader_peer log_broker demo_io full_leader demo_rpc [116] 0"
    using demo_peer(1) log_broker_storage(1) full_leader_log works shop_topic demo_route m
    by (auto simp: follows_def pull_io_def demo_io_def disk_works_def full_leader_def peers_with_def fetchable_def message_bytes_def kMaxPayloadBytes_def)
  have "stored (br_storage log_broker) ([116], 0) = take 0 (stored (br_storage full_leader) ([116], 0))" using log_broker_storage(2) by simp
  from follower_catches_up [OF follow this, of False] m works obtain f' k where
    "fetch_partition pull_io demo_leader_peer (log_broker, False) ([116], 0) = (f', True)" "k \<le> 1" "0 < k" "next_pull f' [116] 0 = of_nat k"
    "stored (br_storage f') = (stored (br_storage log_broker))(([116], 0) := take k [m])"
    by (auto simp: log_broker_pull pull_io_def)
  moreover from this have "k = 1" by simp
  ultimately show ?thesis using m(3) by auto
qed


text \<open>a follower whose remembered position fell behind its own log never copies again. When the disk stored a message
  but its sync failed, the position of the next pull stays where it was although the log has grown. From then on
  every pull fetches messages the follower already has, the first of them is refused as a gap, and neither the log nor the
  position ever changes: however often the partition is pulled, whatever the disk does.\<close>

theorem stale_pull_stalls_follower:
  assumes "\<forall>io \<in> set ios. follows io peer f lio l c topic part"
    and "stored (br_storage f) (topic, part) = take m (stored (br_storage l) (topic, part))"
    and "next_pull f topic part = of_nat n" and "0 < n" and "n < m" and "m \<le> length (stored (br_storage l) (topic, part))"
  shows "\<exists>f' seen'. foldl (\<lambda>acc io. fetch_partition io peer acc (topic, part)) (f, seen) ios = (f', seen') \<and>
    stored (br_storage f') = stored (br_storage f) \<and> next_pull f' topic part = of_nat n"
  using assms(1-3)
proof (induction ios arbitrary: f seen)
  case (Cons io ios)
  let ?log = "stored (br_storage l) (topic, part)"
  have follow: "follows io peer f lio l c topic part" using Cons.prems(1) by simp
  have small: "m < 2 ^ 64" using follow assms(6) by (simp add: follows_def)
  have "n < 2 ^ 64" using small assms(5) by simp
  with small have un: "unat (of_nat n :: u64) = n" "unat (of_nat m :: u64) = m" by (simp_all add: unat_of_nat take_bit_nat_eq_self)
  have pull: "next_pull f topic part \<noteq> 0" using Cons.prems(3) assms(4) un(1) by auto
  obtain k where k: "0 < k" "n + k \<le> length ?log" "li_fetch io peer topic part (of_nat n) (1024 * 1024) = Some (take k (drop n ?log))"
    using pulled_messages [OF follow, of n] assms(5,6) by auto
  let ?ms = "take k (drop n ?log)"
  obtain e' r where app: "append_replicas (li_storage io topic part) 1 (br_storage f) topic part ?ms = (e', r)" by fastforce
  obtain x xs where ms: "?ms = x # xs" "x = ?log ! n"
    using k by (cases ?ms) (auto simp: hd_drop_conv_nth dest: arg_cong [of _ _ hd])
  have "msg_offset x = of_nat n"
    using contiguous_nth_offset [of 0 ?log n] stored_log [of "br_storage l" topic part] follow k ms(2) by (simp add: follows_def)
  moreover have "length (stored (br_storage f) (topic, part)) = m" using Cons.prems(2) assms(6) by simp
  moreover have "(of_nat n :: u64) \<noteq> of_nat m"
    using assms(5) un by (metis less_irrefl)
  moreover obtain e1 r1 where one: "AppendReplica (li_storage io topic part 1) (br_storage f) topic part x = (e1, r1)" by fastforce
  ultimately have e1: "engine_ok e1" "stored e1 = stored (br_storage f)" "\<exists>err. r1 = Inl err"
    using AppendReplica_ok [OF _ _ _ one] follow by (auto simp: follows_def writes_well_def split: if_splits)
  with app ms(1) one have r: "e' = e1" "r \<noteq> Inr ()" by auto
  have step: "fetch_partition io peer (f, seen) (topic, part) = (f\<lparr>br_storage := e1\<rparr>, True)"
    using fetch_partition_run [of f topic part io "br_storage f" "of_nat n" peer ?ms e' r seen] pull Cons.prems(3) k(3) app r by simp
  have keep: "next_pull (f\<lparr>br_storage := e1\<rparr>) topic part = next_pull f topic part" by (simp add: next_pull_def)
  have "\<exists>f' seen'. foldl (\<lambda>acc io. fetch_partition io peer acc (topic, part)) (f\<lparr>br_storage := e1\<rparr>, True) ios = (f', seen') \<and>
      stored (br_storage f') = stored (br_storage (f\<lparr>br_storage := e1\<rparr>)) \<and> next_pull f' topic part = of_nat n"
    using Cons.prems e1(1,2) keep by (intro Cons.IH) (auto simp: follows_def)
  then show ?case using step e1(2) by simp
qed simp


definition longer_leader :: broker where
  "longer_leader = full_leader\<lparr>br_storage := fst (Append (good_io 0 0) (br_storage full_leader) [116] 0 [] [119])\<rparr>"

definition stale_follower :: broker where
  "stale_follower = longer_leader\<lparr>br_replication_offsets := [(follower_key [116] 0, 1)]\<rparr>"

definition longer_io :: loop_io where
  "longer_io = pull_io\<lparr>li_fetch :=
     (\<lambda>_ topic part offset max_bytes. Option.bind (rpc_Fetch (to_peer demo_io longer_leader) demo_rpc topic part offset max_bytes) snd)\<rparr>"

lemma longer_leader_log:
  "engine_ok (br_storage longer_leader) \<and> (\<exists>m m'. stored (br_storage longer_leader) ([116], 0) = [m, m'] \<and> fetchable m \<and> fetchable m')"
proof -
  have fits: "message_fits [] [119]" by (simp add: message_fits_def kMaxMessageBytes_def)
  obtain m where m: "engine_ok (br_storage full_leader)" "stored (br_storage full_leader) ([116], 0) = [m]" "msg_key m = [107]" "msg_value m = [118]"
    using full_leader_log by blast
  obtain e m' where app: "Append (good_io 0 0) (br_storage full_leader) [116] 0 [] [119] = (e, Inr m')"
    using Append_good [OF m(1) shop_topic fits] by blast
  then show ?thesis
    using Append_ok [OF m(1) _ _ app] m(2-4) shop_topic fits
    by (auto simp: longer_leader_def fetchable_def message_bytes_def kMaxPayloadBytes_def)
qed

theorem stale_pull_stalls_follower_witness:
  "\<exists>f' seen'. foldl (\<lambda>acc io. fetch_partition io demo_leader_peer acc ([116], 0)) (stale_follower, False) [longer_io, longer_io] = (f', seen') \<and>
    stored (br_storage f') = stored (br_storage stale_follower) \<and> next_pull f' [116] 0 = 1"
proof -
  obtain m m' where log: "engine_ok (br_storage longer_leader)" "stored (br_storage longer_leader) ([116], 0) = [m, m']" "fetchable m" "fetchable m'"
    using longer_leader_log by blast
  have works: "writes_well (good_io 0 0)" by (simp add: writes_well_def)
  have same: "br_storage stale_follower = br_storage longer_leader" by (simp add: stale_follower_def)
  have follow: "follows longer_io demo_leader_peer stale_follower demo_io longer_leader demo_rpc [116] 0"
    using demo_peer(1) log works shop_topic demo_route
    by (simp add: follows_def same longer_io_def pull_io_def demo_io_def writes_well_def)
      (simp add: longer_leader_def full_leader_def peers_with_def)
  have "\<forall>io \<in> set [longer_io, longer_io]. follows io demo_leader_peer stale_follower demo_io longer_leader demo_rpc [116] 0"
    using follow by simp
  moreover have "stored (br_storage stale_follower) ([116], 0) = take 2 (stored (br_storage longer_leader) ([116], 0))"
    "next_pull stale_follower [116] 0 = of_nat 1" "2 \<le> length (stored (br_storage longer_leader) ([116], 0))"
    by (simp_all add: same log(2) next_pull_def stale_follower_def)
  ultimately show ?thesis
    using stale_pull_stalls_follower [of "[longer_io, longer_io]" demo_leader_peer stale_follower demo_io longer_leader demo_rpc "[116]" 0 2 1 False]
    by auto
qed

end
