(* ===== verification/Mpmc_Queue.thy ===== *)
theory Mpmc_Queue
  imports Prelude "HOL-Library.Multiset"
begin

unbundle bit_operations_syntax

text \<open>
  The lock-free ring between threads, \<^verbatim>\<open>MpmcQueue\<close> of \<^verbatim>\<open>include/mq/core/buffer.h\<close>: each access to an atomic variable or
  to the storage of a cell is one step of a thread, and the steps of all threads interleave in any order. Positions are
  natural numbers: the code's are \<^verbatim>\<open>std::size_t\<close> and its differences \<^verbatim>\<open>std::intptr_t\<close>, which agree with them for the
  first \<open>2 ^ 63\<close> operations. The steps are sequentially consistent; the acquire and release order of the code makes the
  storage of a cell visible with its sequence number. Two history fields record the values put in, by position, and the
  values taken out.
\<close>

section \<open>Capacity\<close>

text \<open>The loop that copies the highest bit to all lower ones; the shift doubles up to the width of the type.\<close>

definition smear :: "u64 \<Rightarrow> u64" where
  "smear capacity = foldl (\<lambda>c shift. c OR drop_bit shift c) capacity [1, 2, 4, 8, 16, 32]"

definition NormalizeCapacity :: "u64 \<Rightarrow> u64" where
  "NormalizeCapacity capacity = (if capacity < 2 then 2 else smear (capacity - 1) + 1)"

section \<open>State\<close>

datatype 'a thread =
    Idle
  | Enq_load 'a | Enq_check 'a nat | Enq_cas 'a nat | Enq_store 'a nat | Enq_publish 'a nat | Enq_result bool
  | Deq_load | Deq_check nat | Deq_cas nat | Deq_take nat | Deq_publish nat 'a | Deq_result "'a option"

record 'a mpmc =
  q_capacity :: nat
  q_sequence :: "nat \<Rightarrow> nat"
  q_storage :: "nat \<Rightarrow> 'a option"
  q_enqueue_position :: nat
  q_dequeue_position :: nat
  q_threads :: "nat \<Rightarrow> 'a thread"
  aux_in :: "'a list"
  aux_out :: "(nat \<times> 'a) list"

definition new_MpmcQueue :: "nat \<Rightarrow> 'a mpmc" where
  "new_MpmcQueue capacity = \<lparr>q_capacity = capacity, q_sequence = (\<lambda>index. index), q_storage = (\<lambda>_. None),
     q_enqueue_position = 0, q_dequeue_position = 0, q_threads = (\<lambda>_. Idle), aux_in = [], aux_out = []\<rparr>"

definition cell_of :: "'a mpmc \<Rightarrow> nat \<Rightarrow> nat" where
  "cell_of q position = position AND (q_capacity q - 1)"

definition goto :: "nat \<Rightarrow> 'a thread \<Rightarrow> 'a mpmc \<Rightarrow> 'a mpmc" where
  "goto t pc q = q\<lparr>q_threads := (q_threads q)(t := pc)\<rparr>"

section \<open>Steps\<close>

text \<open>One step of \<^verbatim>\<open>TryEmplace\<close>; a weak compare-and-swap may fail without a reason.\<close>

fun emplace_step :: "bool \<Rightarrow> nat \<Rightarrow> 'a mpmc \<Rightarrow> 'a thread \<Rightarrow> 'a mpmc" where
  "emplace_step spurious t q (Enq_load v) = goto t (Enq_check v (q_enqueue_position q)) q"
| "emplace_step spurious t q (Enq_check v position) =
    (let difference = int (q_sequence q (cell_of q position)) - int position in
     goto t (if difference = 0 then Enq_cas v position else if difference < 0 then Enq_result False else Enq_load v) q)"
| "emplace_step spurious t q (Enq_cas v position) =
    (if q_enqueue_position q = position \<and> \<not> spurious
     then (goto t (Enq_store v position) q)\<lparr>q_enqueue_position := position + 1, aux_in := aux_in q @ [v]\<rparr>
     else goto t (Enq_check v (q_enqueue_position q)) q)"
| "emplace_step spurious t q (Enq_store v position) =
    (goto t (Enq_publish v position) q)\<lparr>q_storage := (q_storage q)(cell_of q position \<mapsto> v)\<rparr>"
| "emplace_step spurious t q (Enq_publish v position) =
    (goto t (Enq_result True) q)\<lparr>q_sequence := (q_sequence q)(cell_of q position := position + 1)\<rparr>"
| "emplace_step spurious t q _ = q"

text \<open>One step of \<^verbatim>\<open>TryDequeue\<close>; taking the value destroys it in its cell.\<close>

fun dequeue_step :: "bool \<Rightarrow> nat \<Rightarrow> 'a mpmc \<Rightarrow> 'a thread \<Rightarrow> 'a mpmc" where
  "dequeue_step spurious t q Deq_load = goto t (Deq_check (q_dequeue_position q)) q"
| "dequeue_step spurious t q (Deq_check position) =
    (let difference = int (q_sequence q (cell_of q position)) - int (position + 1) in
     goto t (if difference = 0 then Deq_cas position else if difference < 0 then Deq_result None else Deq_load) q)"
| "dequeue_step spurious t q (Deq_cas position) =
    (if q_dequeue_position q = position \<and> \<not> spurious
     then (goto t (Deq_take position) q)\<lparr>q_dequeue_position := position + 1\<rparr>
     else goto t (Deq_check (q_dequeue_position q)) q)"
| "dequeue_step spurious t q (Deq_take position) =
    (case q_storage q (cell_of q position) of
       None \<Rightarrow> q
     | Some v \<Rightarrow> (goto t (Deq_publish position v) q)\<lparr>q_storage := (q_storage q)(cell_of q position := None)\<rparr>)"
| "dequeue_step spurious t q (Deq_publish position v) =
    (goto t (Deq_result (Some v)) q)\<lparr>q_sequence := (q_sequence q)(cell_of q position := position + q_capacity q),
       aux_out := aux_out q @ [(position, v)]\<rparr>"
| "dequeue_step spurious t q _ = q"

fun at_rest :: "'a thread \<Rightarrow> bool" where
  "at_rest Idle = True"
| "at_rest (Enq_result _) = True"
| "at_rest (Deq_result _) = True"
| "at_rest _ = False"

inductive mpmc_step :: "'a mpmc \<Rightarrow> 'a mpmc \<Rightarrow> bool" where
  call_enqueue: "at_rest (q_threads q t) \<Longrightarrow> mpmc_step q (goto t (Enq_load v) q)"
| call_dequeue: "at_rest (q_threads q t) \<Longrightarrow> mpmc_step q (goto t Deq_load q)"
| enqueue: "mpmc_step q (emplace_step spurious t q (q_threads q t))"
| dequeue: "mpmc_step q (dequeue_step spurious t q (q_threads q t))"

inductive mpmc_reachable :: "nat \<Rightarrow> 'a mpmc \<Rightarrow> bool" for capacity where
  start: "mpmc_reachable capacity (new_MpmcQueue capacity)"
| step: "mpmc_reachable capacity q \<Longrightarrow> mpmc_step q q' \<Longrightarrow> mpmc_reachable capacity q'"

text \<open>\<^verbatim>\<open>DiscardOne\<close>, which the destructor calls when no other thread uses the queue.\<close>

definition DiscardOne :: "'a mpmc \<Rightarrow> 'a mpmc \<times> bool" where
  "DiscardOne q =
    (let position = q_dequeue_position q; cell = cell_of q position in
     if q_sequence q cell \<noteq> position + 1 then (q, False)
     else (q\<lparr>q_storage := (q_storage q)(cell := None), q_dequeue_position := position + 1,
             q_sequence := (q_sequence q)(cell := position + q_capacity q)\<rparr>, True))"

text \<open>The loop of the destructor; \<open>None\<close> when it does not end. The second component counts the values destroyed.\<close>

partial_function (option) discard_all :: "'a mpmc \<Rightarrow> nat \<Rightarrow> ('a mpmc \<times> nat) option" where
  "discard_all q destroyed =
    (case DiscardOne q of (q', found) \<Rightarrow> if found then discard_all q' (destroyed + 1) else Some (q', destroyed))"

section \<open>The invariant\<close>

fun writes_at :: "'a thread \<Rightarrow> nat option" where
  "writes_at (Enq_store v p) = Some p"
| "writes_at (Enq_publish v p) = Some p"
| "writes_at _ = None"

fun reads_at :: "'a thread \<Rightarrow> nat option" where
  "reads_at (Deq_take p) = Some p"
| "reads_at (Deq_publish p v) = Some p"
| "reads_at _ = None"

text \<open>What is known of a thread from its program counter.\<close>

fun thread_ok :: "'a mpmc \<Rightarrow> 'a thread \<Rightarrow> bool" where
  "thread_ok q (Enq_check v p) = (p \<le> q_enqueue_position q)"
| "thread_ok q (Deq_check p) = (p \<le> q_dequeue_position q)"
| "thread_ok q (Enq_cas v p) = (p < q_enqueue_position q \<or> q_sequence q (p mod q_capacity q) = p)"
| "thread_ok q (Enq_store v p) = (p < q_enqueue_position q \<and> q_dequeue_position q \<le> p \<and> q_sequence q (p mod q_capacity q) = p \<and> aux_in q ! p = v)"
| "thread_ok q (Enq_publish v p) = (p < q_enqueue_position q \<and> q_dequeue_position q \<le> p \<and> q_sequence q (p mod q_capacity q) = p \<and> aux_in q ! p = v \<and>
     q_storage q (p mod q_capacity q) = Some v)"
| "thread_ok q (Deq_cas p) = (p < q_dequeue_position q \<or> q_sequence q (p mod q_capacity q) = p + 1)"
| "thread_ok q (Deq_take p) = (p < q_dequeue_position q \<and> q_sequence q (p mod q_capacity q) = p + 1 \<and> q_storage q (p mod q_capacity q) = Some (aux_in q ! p))"
| "thread_ok q (Deq_publish p v) = (p < q_dequeue_position q \<and> q_sequence q (p mod q_capacity q) = p + 1 \<and> aux_in q ! p = v \<and>
     q_storage q (p mod q_capacity q) = None)"
| "thread_ok q _ = True"

text \<open>
  A cell of sequence \<open>p\<close> waits for the producer of position \<open>p\<close>, who may be there already; one of
  sequence \<open>p + 1\<close> holds the value of position \<open>p\<close>, and its consumer may be there already.
\<close>

definition cell_ok :: "'a mpmc \<Rightarrow> nat \<Rightarrow> bool" where
  "cell_ok q i \<longleftrightarrow> (\<exists>p. p mod q_capacity q = i \<and> q_enqueue_position q \<le> p + q_capacity q \<and>
     p < q_dequeue_position q + q_capacity q \<and> (q_sequence q i = p \<and> (q_enqueue_position q \<le> p \<and> q_storage q i = None \<or> (\<exists>t. writes_at (q_threads q t) = Some p)) \<or>
      q_sequence q i = p + 1 \<and> p < q_enqueue_position q \<and>
        (q_dequeue_position q \<le> p \<and> q_storage q i = Some (aux_in q ! p) \<or> (\<exists>t. reads_at (q_threads q t) = Some p))))"

definition mpmc_inv :: "'a mpmc \<Rightarrow> bool" where
  "mpmc_inv q \<longleftrightarrow> (\<exists>k > 0. q_capacity q = 2 ^ k) \<and> (\<forall>t. thread_ok q (q_threads q t)) \<and> (\<forall>i < q_capacity q. cell_ok q i) \<and>
     (\<forall>t t' p. writes_at (q_threads q t) = Some p \<longrightarrow> writes_at (q_threads q t') = Some p \<longrightarrow> t = t') \<and>
     (\<forall>t t' p. reads_at (q_threads q t) = Some p \<longrightarrow> reads_at (q_threads q t') = Some p \<longrightarrow> t = t') \<and>
     q_dequeue_position q \<le> q_enqueue_position q \<and> length (aux_in q) = q_enqueue_position q \<and>
     distinct (map fst (aux_out q)) \<and> (\<forall>(p, v) \<in> set (aux_out q). p < q_dequeue_position q \<and> v = aux_in q ! p) \<and>
     (\<forall>p < q_dequeue_position q. p \<in> fst ` set (aux_out q) \<longleftrightarrow> \<not> (\<exists>t. reads_at (q_threads q t) = Some p))"


lemma mpmc_invI:
  assumes "\<exists>k > 0. q_capacity q = 2 ^ k" and "\<And>t. thread_ok q (q_threads q t)" and "\<And>i. i < q_capacity q \<Longrightarrow> cell_ok q i"
    and "\<And>t t' p. writes_at (q_threads q t) = Some p \<Longrightarrow> writes_at (q_threads q t') = Some p \<Longrightarrow> t = t'"
    and "\<And>t t' p. reads_at (q_threads q t) = Some p \<Longrightarrow> reads_at (q_threads q t') = Some p \<Longrightarrow> t = t'"
    and "q_dequeue_position q \<le> q_enqueue_position q" and "length (aux_in q) = q_enqueue_position q"
    and "distinct (map fst (aux_out q))" and "\<And>p v. (p, v) \<in> set (aux_out q) \<Longrightarrow> p < q_dequeue_position q \<and> v = aux_in q ! p"
    and "\<And>p. p < q_dequeue_position q \<Longrightarrow> p \<in> fst ` set (aux_out q) \<longleftrightarrow> \<not> (\<exists>t. reads_at (q_threads q t) = Some p)"
  shows "mpmc_inv q"
  unfolding mpmc_inv_def using assms by blast

lemma inv_history:
  assumes "mpmc_inv q"
  shows "\<exists>k > 0. q_capacity q = 2 ^ k" and "distinct (map fst (aux_out q))"
    and "(p, v) \<in> set (aux_out q) \<Longrightarrow> p < q_dequeue_position q \<and> v = aux_in q ! p"
    and "p < q_dequeue_position q \<Longrightarrow> p \<in> fst ` set (aux_out q) \<longleftrightarrow> \<not> (\<exists>t. reads_at (q_threads q t) = Some p)"
  using assms unfolding mpmc_inv_def by blast+

lemma goto_simps [simp]:
  "q_capacity (goto t pc q) = q_capacity q" "q_sequence (goto t pc q) = q_sequence q" "q_storage (goto t pc q) = q_storage q"
  "q_enqueue_position (goto t pc q) = q_enqueue_position q" "q_dequeue_position (goto t pc q) = q_dequeue_position q"
  "q_threads (goto t pc q) = (q_threads q)(t := pc)" "aux_in (goto t pc q) = aux_in q" "aux_out (goto t pc q) = aux_out q"
  by (simp_all add: goto_def)

lemma inv_facts:
  assumes "mpmc_inv q"
  shows "2 \<le> q_capacity q" and "thread_ok q (q_threads q t)" and "i < q_capacity q \<Longrightarrow> cell_ok q i" and "cell_ok q (p mod q_capacity q)"
    and "cell_of q p = p mod q_capacity q" and "q_dequeue_position q \<le> q_enqueue_position q" and "length (aux_in q) = q_enqueue_position q"
proof -
  obtain k where k: "0 < k" "q_capacity q = 2 ^ k" using assms by (auto simp: mpmc_inv_def)
  then show "2 \<le> q_capacity q" by (cases k) simp_all
  have "q_capacity q - 1 = mask k" by (simp add: k(2) mask_eq_exp_minus_1)
  then show "cell_of q p = p mod q_capacity q" by (simp add: cell_of_def k(2) flip: take_bit_eq_mask take_bit_eq_mod)
  have "p mod q_capacity q < q_capacity q" by (simp add: k(2))
  with assms show "cell_ok q (p mod q_capacity q)" by (simp add: mpmc_inv_def)
qed (use assms in \<open>simp_all add: mpmc_inv_def\<close>)

lemma next_cell: "2 \<le> (c :: nat) \<Longrightarrow> Suc p mod c \<noteq> p mod c"
  by (auto simp: mod_Suc)

text \<open>What the sequence number of a cell says.\<close>

lemma sequence_free:
  assumes "mpmc_inv q" and "q_sequence q (p mod q_capacity q) = p"
  shows "q_enqueue_position q \<le> p + q_capacity q" and "q_enqueue_position q \<le> p \<or> (\<exists>t. writes_at (q_threads q t) = Some p)"
    and "p < q_dequeue_position q + q_capacity q"
proof -
  from inv_facts(4) [OF assms(1), of p] obtain p' where p': "p' mod q_capacity q = p mod q_capacity q" "q_enqueue_position q \<le> p' + q_capacity q"
    "p' < q_dequeue_position q + q_capacity q" "p = p' \<and> (q_enqueue_position q \<le> p' \<or> (\<exists>t. writes_at (q_threads q t) = Some p')) \<or> p = p' + 1"
    unfolding cell_ok_def assms(2) by blast
  then have "p = p'" using next_cell [OF inv_facts(1) [OF assms(1)], of p'] by auto
  with p' show "q_enqueue_position q \<le> p + q_capacity q" "q_enqueue_position q \<le> p \<or> (\<exists>t. writes_at (q_threads q t) = Some p)"
    "p < q_dequeue_position q + q_capacity q" by auto
qed

lemma sequence_full:
  assumes "mpmc_inv q" and "q_sequence q (p mod q_capacity q) = p + 1"
  shows "q_enqueue_position q \<le> p + q_capacity q" and "p < q_enqueue_position q"
    and "q_dequeue_position q \<le> p \<and> q_storage q (p mod q_capacity q) = Some (aux_in q ! p) \<or> (\<exists>t. reads_at (q_threads q t) = Some p)"
    and "p < q_dequeue_position q + q_capacity q"
proof -
  from inv_facts(4) [OF assms(1), of p] obtain p' where p': "p' mod q_capacity q = p mod q_capacity q" "q_enqueue_position q \<le> p' + q_capacity q"
    "p' < q_dequeue_position q + q_capacity q" "p + 1 = p' \<or> p + 1 = p' + 1 \<and> p' < q_enqueue_position q \<and>
      (q_dequeue_position q \<le> p' \<and> q_storage q (p mod q_capacity q) = Some (aux_in q ! p') \<or> (\<exists>t. reads_at (q_threads q t) = Some p'))"
    unfolding cell_ok_def assms(2) by blast
  then have "p = p'" using next_cell [OF inv_facts(1) [OF assms(1)], of p] by auto
  with p' show "q_enqueue_position q \<le> p + q_capacity q" "p < q_enqueue_position q"
    "q_dequeue_position q \<le> p \<and> q_storage q (p mod q_capacity q) = Some (aux_in q ! p) \<or> (\<exists>t. reads_at (q_threads q t) = Some p)"
    "p < q_dequeue_position q + q_capacity q" by auto
qed

text \<open>A thread that neither holds a position nor takes one changes nothing for the others.\<close>

lemma inv_local:
  assumes inv: "mpmc_inv q" and "writes_at (q_threads q t) = None" "reads_at (q_threads q t) = None" "writes_at pc = None" "reads_at pc = None"
    and ok: "thread_ok q pc"
  shows "mpmc_inv (goto t pc q)"
proof -
  have w: "writes_at (q_threads (goto t pc q) t') = writes_at (q_threads q t')" and r: "reads_at (q_threads (goto t pc q) t') = reads_at (q_threads q t')" for t'
    using assms(2-5) by simp_all
  have "thread_ok (goto t pc q) pc' = thread_ok q pc'" for pc' by (cases pc') simp_all
  then have "thread_ok (goto t pc q) (q_threads (goto t pc q) t')" for t' using inv ok by (simp add: mpmc_inv_def)
  moreover have "cell_ok (goto t pc q) i = cell_ok q i" for i unfolding cell_ok_def w r by simp
  ultimately show ?thesis using inv unfolding mpmc_inv_def w r by simp
qed


lemma writer_facts:
  assumes "mpmc_inv q" and "writes_at (q_threads q t) = Some p"
  shows "p < q_enqueue_position q" and "q_dequeue_position q \<le> p" and "q_sequence q (p mod q_capacity q) = p"
  using inv_facts(2) [OF assms(1), of t] assms(2) by (cases "q_threads q t"; simp)+

lemma reader_facts:
  assumes "mpmc_inv q" and "reads_at (q_threads q t) = Some p"
  shows "p < q_dequeue_position q" and "q_sequence q (p mod q_capacity q) = p + 1"
  using inv_facts(2) [OF assms(1), of t] assms(2) by (cases "q_threads q t"; simp)+

lemma one_writer: "mpmc_inv q \<Longrightarrow> writes_at (q_threads q t) = Some p \<Longrightarrow> writes_at (q_threads q t') = Some p \<Longrightarrow> t = t'"
  unfolding mpmc_inv_def by blast

lemma one_reader: "mpmc_inv q \<Longrightarrow> reads_at (q_threads q t) = Some p \<Longrightarrow> reads_at (q_threads q t') = Some p \<Longrightarrow> t = t'"
  unfolding mpmc_inv_def by blast

lemma same_cell:
  assumes "q_sequence q (p mod q_capacity q) = p + d" and "q_sequence q (p' mod q_capacity q) = p' + d" and "p \<noteq> p'"
  shows "p mod q_capacity q \<noteq> p' mod q_capacity q"
proof
  assume "p mod q_capacity q = p' mod q_capacity q"
  with assms(1,2) have "p + d = p' + d" by metis
  with assms(3) show False by simp
qed

lemma other_cell:
  assumes "2 \<le> q_capacity q" and "q_sequence q (p mod q_capacity q) = p" and "q_sequence q (p' mod q_capacity q) = p' + 1"
  shows "p mod q_capacity q \<noteq> p' mod q_capacity q"
proof
  assume eq: "p mod q_capacity q = p' mod q_capacity q"
  with assms(2,3) have "p = p' + 1" by metis
  with eq next_cell [OF assms(1), of p'] show False by simp
qed

lemma inv_enqueue_cas:
  assumes inv: "mpmc_inv q" and pc: "q_threads q t = Enq_cas v p" and now: "q_enqueue_position q = p"
  shows "mpmc_inv ((goto t (Enq_store v p) q)\<lparr>q_enqueue_position := p + 1, aux_in := aux_in q @ [v]\<rparr>)" (is "mpmc_inv ?q")
proof (rule mpmc_invI)
  note f = inv_facts [OF inv]
  have seq: "q_sequence q (p mod q_capacity q) = p" using f(2) [of t] pc now by simp
  have len: "length (aux_in q) = p" "q_dequeue_position q \<le> p" using f(6,7) now by simp_all
  have w: "writes_at (q_threads ?q t') = (if t' = t then Some p else writes_at (q_threads q t'))"
    and r: "reads_at (q_threads ?q t') = reads_at (q_threads q t')" for t' using pc by simp_all
  have new: "writes_at (q_threads q t') \<noteq> Some p" for t' using writer_facts(1) [OF inv, of t' p] now by auto
  have written: "(\<exists>t'. writes_at (q_threads ?q t') = Some p') \<longleftrightarrow> p' = p \<or> (\<exists>t'. writes_at (q_threads q t') = Some p')" for p'
  proof -
    have "t' \<noteq> t" if "writes_at (q_threads q t') = Some p'" for t' using that pc by auto
    then show ?thesis unfolding w by (metis option.inject)
  qed
  have others: "thread_ok ?q (q_threads q t')" for t'
    using f(2) [of t'] now len by (cases "q_threads q t'") (auto simp: nth_append)
  show "thread_ok ?q (q_threads ?q t')" for t' using others seq len by (simp add: nth_append)
  show "cell_ok ?q i" if "i < q_capacity ?q" for i
  proof (cases "i = p mod q_capacity q")
    case True
    with seq f(1) sequence_free(3) [OF inv seq] show ?thesis unfolding cell_ok_def written by (intro exI [of _ p]) auto
  next
    case False
    have "i < q_capacity q" using that by simp
    from f(3) [OF this] obtain p' where p': "p' mod q_capacity q = i" "p \<le> p' + q_capacity q" "p' < q_dequeue_position q + q_capacity q"
      "q_sequence q i = p' \<and> (p \<le> p' \<and> q_storage q i = None \<or> (\<exists>t. writes_at (q_threads q t) = Some p')) \<or> q_sequence q i = p' + 1 \<and> p' < p \<and>
        (q_dequeue_position q \<le> p' \<and> q_storage q i = Some (aux_in q ! p') \<or> (\<exists>t. reads_at (q_threads q t) = Some p'))"
      unfolding cell_ok_def now by blast
    have "p \<noteq> p' + q_capacity q" "p \<noteq> p'" using False p'(1) by auto
    moreover have "(aux_in q @ [v]) ! p' = aux_in q ! p'" if "p' < p" using that len by (simp add: nth_append)
    ultimately show ?thesis using p' unfolding cell_ok_def written r by (intro exI [of _ p']) auto
  qed
  show "t1 = t2" if "writes_at (q_threads ?q t1) = Some p'" "writes_at (q_threads ?q t2) = Some p'" for t1 t2 p'
    using that new one_writer [OF inv, of t1 p' t2] unfolding w by (auto split: if_splits)
  show "t1 = t2" if "reads_at (q_threads ?q t1) = Some p'" "reads_at (q_threads ?q t2) = Some p'" for t1 t2 p'
    using that unfolding r by (rule one_reader [OF inv])
  show "p' < q_dequeue_position ?q \<and> v' = aux_in ?q ! p'" if "(p', v') \<in> set (aux_out ?q)" for p' v'
    using inv_history(3) [OF inv, of p' v'] that len by (simp add: nth_append)
  show "p' \<in> fst ` set (aux_out ?q) \<longleftrightarrow> \<not> (\<exists>t. reads_at (q_threads ?q t) = Some p')" if "p' < q_dequeue_position ?q" for p'
    using inv_history(4) [OF inv, of p'] that unfolding r by simp
qed (use inv_history(1,2) [OF inv] inv_facts(6,7) [OF inv] now in simp_all)

lemma inv_enqueue_store:
  assumes inv: "mpmc_inv q" and pc: "q_threads q t = Enq_store v p"
  shows "mpmc_inv ((goto t (Enq_publish v p) q)\<lparr>q_storage := (q_storage q)(p mod q_capacity q \<mapsto> v)\<rparr>)" (is "mpmc_inv ?q")
proof (rule mpmc_invI)
  note f = inv_facts [OF inv]
  have mine: "p < q_enqueue_position q" "q_dequeue_position q \<le> p" "q_sequence q (p mod q_capacity q) = p" "aux_in q ! p = v"
    using f(2) [of t] pc by simp_all
  have w: "writes_at (q_threads ?q t') = writes_at (q_threads q t')" and r: "reads_at (q_threads ?q t') = reads_at (q_threads q t')" for t'
    using pc by simp_all
  have others: "thread_ok ?q (q_threads q t')" if "t' \<noteq> t" for t'
  proof (cases "q_threads q t'")
    case (Enq_publish v' p')
    have ok: "thread_ok q (Enq_publish v' p')" using f(2) [of t'] Enq_publish by simp
    have "p' \<noteq> p" using one_writer [OF inv, of t' p t] pc that Enq_publish by auto
    then have "p' mod q_capacity q \<noteq> p mod q_capacity q" using same_cell [of q p' 0 p] ok mine(3) by simp
    with ok show ?thesis unfolding Enq_publish by simp
  next
    case (Deq_take p')
    have ok: "thread_ok q (Deq_take p')" using f(2) [of t'] Deq_take by simp
    then have "p mod q_capacity q \<noteq> p' mod q_capacity q" by (intro other_cell [OF f(1) mine(3)]) simp
    with ok show ?thesis unfolding Deq_take by simp
  next
    case (Deq_publish p' v')
    have ok: "thread_ok q (Deq_publish p' v')" using f(2) [of t'] Deq_publish by simp
    then have "p mod q_capacity q \<noteq> p' mod q_capacity q" by (intro other_cell [OF f(1) mine(3)]) simp
    with ok show ?thesis unfolding Deq_publish by simp
  qed (use f(2) [of t'] in simp_all)
  show "thread_ok ?q (q_threads ?q t')" for t' using others mine by (cases "t' = t") simp_all
  show "cell_ok ?q i" if "i < q_capacity ?q" for i
  proof (cases "i = p mod q_capacity q")
    case True
    have "q_enqueue_position q \<le> p + q_capacity q" "p < q_dequeue_position q + q_capacity q" using sequence_free [OF inv mine(3)] by simp_all
    moreover have "\<exists>t'. writes_at (q_threads q t') = Some p" using pc by (intro exI [of _ t]) simp
    ultimately show ?thesis using True mine(3) unfolding cell_ok_def w r by (intro exI [of _ p]) simp
  next
    case False
    with f(3) [of i] that show ?thesis unfolding cell_ok_def w r by simp
  qed
  show "t1 = t2" if "writes_at (q_threads ?q t1) = Some p'" "writes_at (q_threads ?q t2) = Some p'" for t1 t2 p'
    using that unfolding w by (rule one_writer [OF inv])
  show "t1 = t2" if "reads_at (q_threads ?q t1) = Some p'" "reads_at (q_threads ?q t2) = Some p'" for t1 t2 p'
    using that unfolding r by (rule one_reader [OF inv])
  show "p' \<in> fst ` set (aux_out ?q) \<longleftrightarrow> \<not> (\<exists>t. reads_at (q_threads ?q t) = Some p')" if "p' < q_dequeue_position ?q" for p'
    using inv_history(4) [OF inv, of p'] that unfolding r by simp
qed (use inv_history(1-3) [OF inv] inv_facts(6,7) [OF inv] in simp_all)


lemma inv_enqueue_publish:
  assumes inv: "mpmc_inv q" and pc: "q_threads q t = Enq_publish v p"
  shows "mpmc_inv ((goto t (Enq_result True) q)\<lparr>q_sequence := (q_sequence q)(p mod q_capacity q := p + 1)\<rparr>)" (is "mpmc_inv ?q")
proof (rule mpmc_invI)
  note f = inv_facts [OF inv]
  have mine: "p < q_enqueue_position q" "q_dequeue_position q \<le> p" "q_sequence q (p mod q_capacity q) = p" "aux_in q ! p = v"
    "q_storage q (p mod q_capacity q) = Some v"
    using f(2) [of t] pc by simp_all
  have w: "writes_at (q_threads ?q t') = (if t' = t then None else writes_at (q_threads q t'))"
    and r: "reads_at (q_threads ?q t') = reads_at (q_threads q t')" for t' using pc by simp_all
  have apart: "p' mod q_capacity q \<noteq> p mod q_capacity q" if "q_sequence q (p' mod q_capacity q) = p'" "p' \<noteq> p" for p'
    using same_cell [of q p' 0 p] that mine(3) by simp
  have apart': "p' mod q_capacity q \<noteq> p mod q_capacity q" if "q_sequence q (p' mod q_capacity q) = p' + 1" for p'
    using other_cell [OF f(1) mine(3) that] by simp
  have other: "p' \<noteq> p" if "writes_at (q_threads q t') = Some p'" "t' \<noteq> t" for t' p'
    using that one_writer [OF inv, of t' p t] pc by auto
  have "writes_at (q_threads q t) = Some p" using pc by simp
  then have written: "(\<exists>t'. writes_at (q_threads ?q t') = Some p') \<longleftrightarrow> p' \<noteq> p \<and> (\<exists>t'. writes_at (q_threads q t') = Some p')" for p'
    unfolding w using other by (metis option.distinct(1) option.inject)
  have others: "thread_ok ?q (q_threads q t')" if "t' \<noteq> t" for t'
    using f(2) [of t'] other [OF _ that] apart apart' mine(1) by (cases "q_threads q t'") auto
  show "thread_ok ?q (q_threads ?q t')" for t' using others by (cases "t' = t") simp_all
  show "cell_ok ?q i" if "i < q_capacity ?q" for i
  proof (cases "i = p mod q_capacity q")
    case True
    have "q_enqueue_position q \<le> p + q_capacity q" "p < q_dequeue_position q + q_capacity q" using sequence_free [OF inv mine(3)] by simp_all
    then show ?thesis using True mine unfolding cell_ok_def r by (intro exI [of _ p]) simp
  next
    case False
    have "i < q_capacity q" using that by simp
    from f(3) [OF this] obtain p' where p': "p' mod q_capacity q = i" "q_enqueue_position q \<le> p' + q_capacity q" "p' < q_dequeue_position q + q_capacity q"
      "q_sequence q i = p' \<and> (q_enqueue_position q \<le> p' \<and> q_storage q i = None \<or> (\<exists>t. writes_at (q_threads q t) = Some p')) \<or> q_sequence q i = p' + 1 \<and> p' < q_enqueue_position q \<and>
        (q_dequeue_position q \<le> p' \<and> q_storage q i = Some (aux_in q ! p') \<or> (\<exists>t. reads_at (q_threads q t) = Some p'))"
      unfolding cell_ok_def by blast
    have "p' \<noteq> p" using False p'(1) by auto
    then show ?thesis using p' False unfolding cell_ok_def written r by (intro exI [of _ p']) auto
  qed
  show "t1 = t2" if "writes_at (q_threads ?q t1) = Some p'" "writes_at (q_threads ?q t2) = Some p'" for t1 t2 p'
    using that one_writer [OF inv, of t1 p' t2] unfolding w by (auto split: if_splits)
  show "t1 = t2" if "reads_at (q_threads ?q t1) = Some p'" "reads_at (q_threads ?q t2) = Some p'" for t1 t2 p'
    using that unfolding r by (rule one_reader [OF inv])
  show "p' \<in> fst ` set (aux_out ?q) \<longleftrightarrow> \<not> (\<exists>t. reads_at (q_threads ?q t) = Some p')" if "p' < q_dequeue_position ?q" for p'
    using inv_history(4) [OF inv, of p'] that unfolding r by simp
qed (use inv_history(1-3) [OF inv] inv_facts(6,7) [OF inv] in simp_all)

lemma inv_dequeue_cas:
  assumes inv: "mpmc_inv q" and pc: "q_threads q t = Deq_cas p" and now: "q_dequeue_position q = p"
  shows "mpmc_inv ((goto t (Deq_take p) q)\<lparr>q_dequeue_position := p + 1\<rparr>)" (is "mpmc_inv ?q")
proof (rule mpmc_invI)
  note f = inv_facts [OF inv]
  have seq: "q_sequence q (p mod q_capacity q) = p + 1" using f(2) [of t] pc now by simp
  have new: "reads_at (q_threads q t') \<noteq> Some p" for t' using reader_facts(1) [OF inv, of t' p] now by auto
  note full = sequence_full [OF inv seq]
  have stored: "q_storage q (p mod q_capacity q) = Some (aux_in q ! p)" using full(3) new by auto
  show "q_dequeue_position ?q \<le> q_enqueue_position ?q" using full(2) by simp
  have w: "writes_at (q_threads ?q t') = writes_at (q_threads q t')"
    and r: "reads_at (q_threads ?q t') = (if t' = t then Some p else reads_at (q_threads q t'))" for t' using pc by simp_all
  have other: "p' \<noteq> p" if "writes_at (q_threads q t') = Some p'" for t' p' using writer_facts(3) [OF inv that] seq by auto
  have read: "(\<exists>t'. reads_at (q_threads ?q t') = Some p') \<longleftrightarrow> p' = p \<or> (\<exists>t'. reads_at (q_threads q t') = Some p')" for p'
  proof -
    have "t' \<noteq> t" if "reads_at (q_threads q t') = Some p'" for t' using that pc by auto
    then show ?thesis unfolding r by (metis option.inject)
  qed
  have others: "thread_ok ?q (q_threads q t')" for t'
    using f(2) [of t'] other [of t'] now by (cases "q_threads q t'") auto
  show "thread_ok ?q (q_threads ?q t')" for t' using others seq stored by simp
  show "cell_ok ?q i" if "i < q_capacity ?q" for i
  proof (cases "i = p mod q_capacity q")
    case True
    with seq full show ?thesis unfolding cell_ok_def read by (intro exI [of _ p]) auto
  next
    case False
    have "i < q_capacity q" using that by simp
    from f(3) [OF this] obtain p' where p': "p' mod q_capacity q = i" "q_enqueue_position q \<le> p' + q_capacity q" "p' < p + q_capacity q"
      "q_sequence q i = p' \<and> (q_enqueue_position q \<le> p' \<and> q_storage q i = None \<or> (\<exists>t. writes_at (q_threads q t) = Some p')) \<or> q_sequence q i = p' + 1 \<and> p' < q_enqueue_position q \<and>
        (p \<le> p' \<and> q_storage q i = Some (aux_in q ! p') \<or> (\<exists>t. reads_at (q_threads q t) = Some p'))"
      unfolding cell_ok_def now by blast
    have "p \<noteq> p'" using False p'(1) by auto
    then show ?thesis using p' unfolding cell_ok_def read w by (intro exI [of _ p']) auto
  qed
  show "t1 = t2" if "writes_at (q_threads ?q t1) = Some p'" "writes_at (q_threads ?q t2) = Some p'" for t1 t2 p'
    using that unfolding w by (rule one_writer [OF inv])
  show "t1 = t2" if "reads_at (q_threads ?q t1) = Some p'" "reads_at (q_threads ?q t2) = Some p'" for t1 t2 p'
    using that new one_reader [OF inv, of t1 p' t2] unfolding r by (auto split: if_splits)
  show "p' < q_dequeue_position ?q \<and> v' = aux_in ?q ! p'" if "(p', v') \<in> set (aux_out ?q)" for p' v'
    using inv_history(3) [OF inv, of p' v'] that now by simp
  show "p' \<in> fst ` set (aux_out ?q) \<longleftrightarrow> \<not> (\<exists>t. reads_at (q_threads ?q t) = Some p')" if "p' < q_dequeue_position ?q" for p'
  proof (cases "p' = p")
    case True
    have "p \<notin> fst ` set (aux_out q)" using inv_history(3) [OF inv] now by fastforce
    with True show ?thesis unfolding read by simp
  next
    case False
    with inv_history(4) [OF inv, of p'] that now show ?thesis unfolding read by simp
  qed
qed (use inv_history(1,2) [OF inv] inv_facts(7) [OF inv] in simp_all)


lemma inv_dequeue_take:
  assumes inv: "mpmc_inv q" and pc: "q_threads q t = Deq_take p" and v: "q_storage q (p mod q_capacity q) = Some v"
  shows "mpmc_inv ((goto t (Deq_publish p v) q)\<lparr>q_storage := (q_storage q)(p mod q_capacity q := None)\<rparr>)" (is "mpmc_inv ?q")
proof (rule mpmc_invI)
  note f = inv_facts [OF inv]
  have mine: "p < q_dequeue_position q" "q_sequence q (p mod q_capacity q) = p + 1" "aux_in q ! p = v"
    using f(2) [of t] pc v by simp_all
  note full = sequence_full [OF inv mine(2)]
  have w: "writes_at (q_threads ?q t') = writes_at (q_threads q t')" and r: "reads_at (q_threads ?q t') = reads_at (q_threads q t')" for t'
    using pc by simp_all
  have other: "p' \<noteq> p" if "reads_at (q_threads q t') = Some p'" "t' \<noteq> t" for t' p'
    using that one_reader [OF inv, of t' p t] pc by auto
  have apart: "p' mod q_capacity q \<noteq> p mod q_capacity q" if "q_sequence q (p' mod q_capacity q) = p'" for p'
    using other_cell [OF f(1) that mine(2)] .
  have apart': "p' mod q_capacity q \<noteq> p mod q_capacity q" if "q_sequence q (p' mod q_capacity q) = p' + 1" "p' \<noteq> p" for p'
    using same_cell [OF that(1) mine(2) that(2)] .
  have others: "thread_ok ?q (q_threads q t')" if "t' \<noteq> t" for t'
    using f(2) [of t'] other [OF _ that] apart apart' by (cases "q_threads q t'") auto
  show "thread_ok ?q (q_threads ?q t')" for t' using others mine by (cases "t' = t") simp_all
  show "cell_ok ?q i" if "i < q_capacity ?q" for i
  proof (cases "i = p mod q_capacity q")
    case True
    have "\<exists>t'. reads_at (q_threads q t') = Some p" using pc by (intro exI [of _ t]) simp
    then show ?thesis using True mine(2) full(1,2,4) unfolding cell_ok_def w r by (intro exI [of _ p]) simp
  next
    case False
    with f(3) [of i] that show ?thesis unfolding cell_ok_def w r by simp
  qed
  show "t1 = t2" if "writes_at (q_threads ?q t1) = Some p'" "writes_at (q_threads ?q t2) = Some p'" for t1 t2 p'
    using that unfolding w by (rule one_writer [OF inv])
  show "t1 = t2" if "reads_at (q_threads ?q t1) = Some p'" "reads_at (q_threads ?q t2) = Some p'" for t1 t2 p'
    using that unfolding r by (rule one_reader [OF inv])
  show "p' \<in> fst ` set (aux_out ?q) \<longleftrightarrow> \<not> (\<exists>t. reads_at (q_threads ?q t) = Some p')" if "p' < q_dequeue_position ?q" for p'
    using inv_history(4) [OF inv, of p'] that unfolding r by simp
qed (use inv_history(1-3) [OF inv] inv_facts(6,7) [OF inv] in simp_all)

lemma inv_dequeue_publish:
  assumes inv: "mpmc_inv q" and pc: "q_threads q t = Deq_publish p v"
  shows "mpmc_inv ((goto t (Deq_result (Some v)) q)\<lparr>q_sequence := (q_sequence q)(p mod q_capacity q := p + q_capacity q),
    aux_out := aux_out q @ [(p, v)]\<rparr>)" (is "mpmc_inv ?q")
proof (rule mpmc_invI)
  note f = inv_facts [OF inv]
  have mine: "p < q_dequeue_position q" "q_sequence q (p mod q_capacity q) = p + 1" "aux_in q ! p = v" "q_storage q (p mod q_capacity q) = None"
    using f(2) [of t] pc by simp_all
  note full = sequence_full [OF inv mine(2)]
  have w: "writes_at (q_threads ?q t') = writes_at (q_threads q t')"
    and r: "reads_at (q_threads ?q t') = (if t' = t then None else reads_at (q_threads q t'))" for t' using pc by simp_all
  have other: "p' \<noteq> p" if "reads_at (q_threads q t') = Some p'" "t' \<noteq> t" for t' p'
    using that one_reader [OF inv, of t' p t] pc by auto
  have reader: "reads_at (q_threads q t) = Some p" using pc by simp
  then have read: "(\<exists>t'. reads_at (q_threads ?q t') = Some p') \<longleftrightarrow> p' \<noteq> p \<and> (\<exists>t'. reads_at (q_threads q t') = Some p')" for p'
    unfolding r using other by (metis option.distinct(1) option.inject)
  have apart: "p' mod q_capacity q \<noteq> p mod q_capacity q" if "q_sequence q (p' mod q_capacity q) = p'" for p'
    using other_cell [OF f(1) that mine(2)] .
  have apart': "p' mod q_capacity q \<noteq> p mod q_capacity q" if "q_sequence q (p' mod q_capacity q) = p' + 1" "p' \<noteq> p" for p'
    using same_cell [OF that(1) mine(2) that(2)] .
  have others: "thread_ok ?q (q_threads q t')" if "t' \<noteq> t" for t'
    using f(2) [of t'] other [OF _ that] apart apart' mine(1) by (cases "q_threads q t'") auto
  show "thread_ok ?q (q_threads ?q t')" for t' using others by (cases "t' = t") simp_all
  show "cell_ok ?q i" if "i < q_capacity ?q" for i
  proof (cases "i = p mod q_capacity q")
    case True
    then show ?thesis using full(1) mine(1,4) unfolding cell_ok_def by (intro exI [of _ "p + q_capacity q"]) auto
  next
    case False
    have "i < q_capacity q" using that by simp
    from f(3) [OF this] obtain p' where p': "p' mod q_capacity q = i" "q_enqueue_position q \<le> p' + q_capacity q" "p' < q_dequeue_position q + q_capacity q"
      "q_sequence q i = p' \<and> (q_enqueue_position q \<le> p' \<and> q_storage q i = None \<or> (\<exists>t. writes_at (q_threads q t) = Some p')) \<or> q_sequence q i = p' + 1 \<and> p' < q_enqueue_position q \<and>
        (q_dequeue_position q \<le> p' \<and> q_storage q i = Some (aux_in q ! p') \<or> (\<exists>t. reads_at (q_threads q t) = Some p'))"
      unfolding cell_ok_def by blast
    have "p' \<noteq> p" using False p'(1) by auto
    then show ?thesis using p' False unfolding cell_ok_def read w by (intro exI [of _ p']) auto
  qed
  show "t1 = t2" if "writes_at (q_threads ?q t1) = Some p'" "writes_at (q_threads ?q t2) = Some p'" for t1 t2 p'
    using that unfolding w by (rule one_writer [OF inv])
  show "t1 = t2" if "reads_at (q_threads ?q t1) = Some p'" "reads_at (q_threads ?q t2) = Some p'" for t1 t2 p'
    using that one_reader [OF inv, of t1 p' t2] unfolding r by (auto split: if_splits)
  have fresh: "p \<notin> fst ` set (aux_out q)" using inv_history(4) [OF inv mine(1)] reader by blast
  then show "distinct (map fst (aux_out ?q))" using inv_history(2) [OF inv] by auto
  show "p' < q_dequeue_position ?q \<and> v' = aux_in ?q ! p'" if "(p', v') \<in> set (aux_out ?q)" for p' v'
    using inv_history(3) [OF inv, of p' v'] that mine(1,3) by auto
  show "p' \<in> fst ` set (aux_out ?q) \<longleftrightarrow> \<not> (\<exists>t. reads_at (q_threads ?q t) = Some p')" if "p' < q_dequeue_position ?q" for p'
    using inv_history(4) [OF inv, of p'] that fresh unfolding read by (cases "p' = p") simp_all
qed (use inv_history(1) [OF inv] inv_facts(6,7) [OF inv] in simp_all)

lemma inv_new: "0 < k \<Longrightarrow> mpmc_inv (new_MpmcQueue (2 ^ k))"
  by (rule mpmc_invI) (auto simp: new_MpmcQueue_def cell_ok_def intro: exI [of _ "_ :: nat"])


lemma emplace_step_inv:
  assumes "mpmc_inv q"
  shows "mpmc_inv (emplace_step spurious t q (q_threads q t))"
proof (cases "q_threads q t")
  case (Enq_load v)
  then show ?thesis using inv_local [OF assms, of t "Enq_check v (q_enqueue_position q)"] by simp
next
  case (Enq_check v p)
  have "thread_ok q (Enq_cas v p)" if "q_sequence q (p mod q_capacity q) = p" using that by simp
  then show ?thesis
    using inv_local [OF assms, of t "Enq_cas v p"] inv_local [OF assms, of t "Enq_result False"] inv_local [OF assms, of t "Enq_load v"]
    by (simp add: Enq_check Let_def inv_facts(5) [OF assms])
next
  case (Enq_cas v p)
  then show ?thesis
    using inv_enqueue_cas [OF assms Enq_cas] inv_local [OF assms, of t "Enq_check v (q_enqueue_position q)"] by simp
next
  case (Enq_store v p)
  then show ?thesis using inv_enqueue_store [OF assms Enq_store] by (simp add: inv_facts(5) [OF assms])
next
  case (Enq_publish v p)
  then show ?thesis using inv_enqueue_publish [OF assms Enq_publish] by (simp add: inv_facts(5) [OF assms])
qed (use assms in simp_all)

lemma dequeue_step_inv:
  assumes "mpmc_inv q"
  shows "mpmc_inv (dequeue_step spurious t q (q_threads q t))"
proof (cases "q_threads q t")
  case Deq_load
  then show ?thesis using inv_local [OF assms, of t "Deq_check (q_dequeue_position q)"] by simp
next
  case (Deq_check p)
  have "thread_ok q (Deq_cas p)" if "q_sequence q (p mod q_capacity q) = p + 1" using that by simp
  then show ?thesis
    using inv_local [OF assms, of t "Deq_cas p"] inv_local [OF assms, of t "Deq_result None"] inv_local [OF assms, of t Deq_load]
    by (simp add: Deq_check Let_def inv_facts(5) [OF assms])
next
  case (Deq_cas p)
  then show ?thesis
    using inv_dequeue_cas [OF assms Deq_cas] inv_local [OF assms, of t "Deq_check (q_dequeue_position q)"] by simp
next
  case (Deq_take p)
  then show ?thesis
    using inv_dequeue_take [OF assms Deq_take] assms by (simp add: inv_facts(5) [OF assms] split: option.split)
next
  case (Deq_publish p v)
  then show ?thesis using inv_dequeue_publish [OF assms Deq_publish] by (simp add: inv_facts(5) [OF assms])
qed (use assms in simp_all)

lemma at_rest_free: "at_rest pc \<Longrightarrow> writes_at pc = None \<and> reads_at pc = None"
  by (cases pc) simp_all

lemma mpmc_reachable_inv:
  assumes "mpmc_reachable (2 ^ k) q" and "0 < k"
  shows "mpmc_inv q \<and> q_capacity q = 2 ^ k"
  using assms(1)
proof (induction rule: mpmc_reachable.induct)
  case start
  then show ?case using inv_new [OF assms(2)] by (simp add: new_MpmcQueue_def)
next
  case (step q q')
  have "q_capacity (emplace_step sp t q pc) = q_capacity q" "q_capacity (dequeue_step sp t q pc) = q_capacity q" for sp t pc
    by (cases pc; simp add: Let_def split: option.split)+
  with step.hyps(2) step.IH show ?case
    by (cases rule: mpmc_step.cases) (auto simp: emplace_step_inv dequeue_step_inv intro!: inv_local dest: at_rest_free)
qed

section \<open>What the queue promises\<close>

lemma ring_bound:
  assumes "mpmc_inv q"
  shows "q_enqueue_position q \<le> q_dequeue_position q + q_capacity q"
proof -
  let ?d = "q_dequeue_position q" and ?c = "q_capacity q"
  from inv_facts(4) [OF assms, of ?d] obtain p where p: "p mod ?c = ?d mod ?c" "q_enqueue_position q \<le> p + ?c" "p < ?d + ?c"
    unfolding cell_ok_def by blast
  have "p \<le> ?d"
  proof (rule ccontr)
    assume "\<not> p \<le> ?d"
    then have "?c dvd p - ?d" "0 < p - ?d" using p(1) by (auto simp: mod_eq_dvd_iff_nat)
    then have "?c \<le> p - ?d" by (simp add: dvd_imp_le)
    with p(3) \<open>\<not> p \<le> ?d\<close> show False by linarith
  qed
  with p(2) show ?thesis by simp
qed

lemma same_position:
  fixes p p' c :: nat
  assumes "p mod c = p' mod c" and "p < p' + c" and "p' < p + c"
  shows "p = p'"
proof (rule ccontr)
  assume "p \<noteq> p'"
  then consider "p < p'" | "p' < p" by linarith
  then show False
  proof cases
    case 1
    with assms(1) have "c dvd p' - p" by (metis less_imp_le mod_eq_dvd_iff_nat)
    with 1 have "c \<le> p' - p" by (simp add: dvd_imp_le)
    with assms(3) 1 show False by simp
  next
    case 2
    with assms(1) have "c dvd p - p'" by (metis less_imp_le mod_eq_dvd_iff_nat)
    with 2 have "c \<le> p - p'" by (simp add: dvd_imp_le)
    with assms(2) 2 show False by simp
  qed
qed

lemma ring_contents:
  assumes inv: "mpmc_inv q" and rest: "\<And>t. at_rest (q_threads q t)" and p: "q_dequeue_position q \<le> p" "p < q_enqueue_position q"
  shows "q_storage q (p mod q_capacity q) = Some (aux_in q ! p)"
proof -
  have idle: "writes_at (q_threads q t) = None" "reads_at (q_threads q t) = None" for t using at_rest_free [OF rest] by simp_all
  from inv_facts(4) [OF inv, of p] idle obtain p' where p': "p' mod q_capacity q = p mod q_capacity q" "p' < q_dequeue_position q + q_capacity q"
    "q_enqueue_position q \<le> p' \<or> p' < q_enqueue_position q \<and> q_dequeue_position q \<le> p' \<and> q_storage q (p mod q_capacity q) = Some (aux_in q ! p')"
    unfolding cell_ok_def by auto
  have "p < p' + q_capacity q" using p' p ring_bound [OF inv] inv_facts(1) [OF inv] by linarith
  moreover have "p' < p + q_capacity q" using p'(2) p(1) by linarith
  ultimately have "p' = p" using same_position p'(1) by metis
  with p' p show ?thesis by auto
qed

lemma values_taken:
  assumes inv: "mpmc_inv q" and rest: "\<And>t. at_rest (q_threads q t)"
  shows "mset (map snd (aux_out q)) = mset (take (q_dequeue_position q) (aux_in q))"
proof -
  let ?d = "q_dequeue_position q"
  have none: "reads_at (q_threads q t) = None" for t using at_rest_free [OF rest] by simp
  have "set (map fst (aux_out q)) = {..<?d}"
  proof
    show "set (map fst (aux_out q)) \<subseteq> {..<?d}" using inv_history(3) [OF inv] by fastforce
    show "{..<?d} \<subseteq> set (map fst (aux_out q))" using inv_history(4) [OF inv] none by auto
  qed
  then have "mset (map fst (aux_out q)) = mset [0..<?d]"
    using inv_history(2) [OF inv] set_eq_iff_mset_eq_distinct [of "map fst (aux_out q)" "[0..<?d]"] by (simp only: atLeast_upt distinct_upt)
  then have "mset (map (\<lambda>p. aux_in q ! p) (map fst (aux_out q))) = mset (map (\<lambda>p. aux_in q ! p) [0..<?d])"
    by (metis mset_map)
  moreover have "map (\<lambda>p. aux_in q ! p) (map fst (aux_out q)) = map snd (aux_out q)"
    using inv_history(3) [OF inv] by fastforce
  moreover have "map (\<lambda>p. aux_in q ! p) [0..<?d] = take ?d (aux_in q)"
    using inv_facts(6,7) [OF inv] by (intro nth_equalityI) simp_all
  ultimately show ?thesis by metis
qed


text \<open>C35: the lock-free ring is a queue. However the atomic steps of any number of threads interleave, with a capacity of
  \<open>2 ^ k\<close> (\<open>k > 0\<close>) at most that many values are between the two positions; a value taken out for position \<open>p\<close> is the
  value put in at position \<open>p\<close>, and no position is taken out twice; and whenever no operation is under way, the values
  taken out are exactly the values of the first positions, each once, and the ring holds the others in order:
  nothing is lost, duplicated or invented.\<close>

theorem mpmc_queue_keeps_values:
  assumes "mpmc_reachable (2 ^ k) q" and "0 < k"
  shows "q_dequeue_position q \<le> q_enqueue_position q \<and> q_enqueue_position q \<le> q_dequeue_position q + 2 ^ k \<and>
    length (aux_in q) = q_enqueue_position q \<and> distinct (map fst (aux_out q)) \<and>
    (\<forall>(p, v) \<in> set (aux_out q). p < q_dequeue_position q \<and> v = aux_in q ! p) \<and>
    ((\<forall>t. at_rest (q_threads q t)) \<longrightarrow>
      mset (map snd (aux_out q)) = mset (take (q_dequeue_position q) (aux_in q)) \<and>
      (\<forall>p. q_dequeue_position q \<le> p \<and> p < q_enqueue_position q \<longrightarrow> q_storage q (cell_of q p) = Some (aux_in q ! p)))"
proof -
  from mpmc_reachable_inv [OF assms] have inv: "mpmc_inv q" and cap: "q_capacity q = 2 ^ k" by simp_all
  have "(\<forall>(p, v) \<in> set (aux_out q). p < q_dequeue_position q \<and> v = aux_in q ! p)" using inv_history(3) [OF inv] by blast
  moreover have "q_storage q (cell_of q p) = Some (aux_in q ! p)"
    if "\<forall>t. at_rest (q_threads q t)" "q_dequeue_position q \<le> p" "p < q_enqueue_position q" for p
    using ring_contents [OF inv _ that(2,3)] that(1) by (simp add: inv_facts(5) [OF inv])
  ultimately show ?thesis
    using inv_facts(6,7) [OF inv] ring_bound [OF inv] cap inv_history(2) [OF inv] values_taken [OF inv] by simp
qed

text \<open>
  Refusals are justified: an enqueue fails only when the value one round earlier has not left its cell, a dequeue
  only when the queue is empty or the value of the position is still being written.
\<close>

lemma enqueue_refused_when_full:
  assumes inv: "mpmc_inv q" and pc: "q_threads q t = Enq_check v p" and "q_sequence q (cell_of q p) < p"
  shows "q_capacity q \<le> p \<and> p - q_capacity q < q_enqueue_position q \<and> p - q_capacity q \<notin> fst ` set (aux_out q)"
proof -
  note f = inv_facts [OF inv]
  have p: "p \<le> q_enqueue_position q" using f(2) [of t] pc by simp
  have seq: "q_sequence q (p mod q_capacity q) < p" using assms(3) by (simp add: f(5))
  from f(4) [of p] obtain p' where p': "p' mod q_capacity q = p mod q_capacity q" "q_enqueue_position q \<le> p' + q_capacity q"
    "p' \<le> q_sequence q (p mod q_capacity q)" "p' < q_dequeue_position q \<longrightarrow> q_enqueue_position q \<le> p' \<or> (\<exists>t. writes_at (q_threads q t) = Some p') \<or> (\<exists>t. reads_at (q_threads q t) = Some p')"
    unfolding cell_ok_def by force
  have less: "p' < p" using p'(3) seq by linarith
  then have "q_capacity q dvd p - p'" using p'(1) by (metis less_imp_le mod_eq_dvd_iff_nat)
  with less have "q_capacity q \<le> p - p'" by (simp add: dvd_imp_le)
  with p p'(2) less have eq: "p = p' + q_capacity q" by linarith
  have "p' \<notin> fst ` set (aux_out q)"
  proof
    assume out: "p' \<in> fst ` set (aux_out q)"
    then have old: "p' < q_dequeue_position q" using inv_history(3) [OF inv] by fastforce
    with out inv_history(4) [OF inv] have "\<not> (\<exists>t. reads_at (q_threads q t) = Some p')" by blast
    with p'(4) old p less writer_facts(2) [OF inv, of _ p'] show False by auto
  qed
  with eq less p show ?thesis by simp
qed

lemma dequeue_refused_when_empty:
  assumes inv: "mpmc_inv q" and pc: "q_threads q t = Deq_check p" and "q_sequence q (cell_of q p) < p + 1"
  shows "(p = q_dequeue_position q \<and> p = q_enqueue_position q) \<or> (\<exists>t. writes_at (q_threads q t) = Some p)"
proof -
  note f = inv_facts [OF inv]
  have p: "p \<le> q_dequeue_position q" using f(2) [of t] pc by simp
  have seq: "q_sequence q (p mod q_capacity q) \<le> p" using assms(3) by (simp add: f(5))
  from f(4) [of p] obtain p' where p': "p' mod q_capacity q = p mod q_capacity q" "q_enqueue_position q \<le> p' + q_capacity q"
    "q_sequence q (p mod q_capacity q) = p' \<and> (q_enqueue_position q \<le> p' \<or> (\<exists>t. writes_at (q_threads q t) = Some p')) \<or> q_sequence q (p mod q_capacity q) = p' + 1"
    unfolding cell_ok_def by blast
  show ?thesis
  proof (cases "p' = p")
    case True
    with p'(3) seq p f(6) show ?thesis by auto
  next
    case False
    with p'(3) seq have less: "p' < p" by auto
    then have "q_capacity q dvd p - p'" using p'(1) by (metis less_imp_le mod_eq_dvd_iff_nat)
    with less have "q_capacity q \<le> p - p'" by (simp add: dvd_imp_le)
    with p p'(2) less f(6) show ?thesis by linarith
  qed
qed


text \<open>The witness: two threads on a ring of two cells put in two values, and one of them takes one out.\<close>

definition run_enqueue :: "nat \<Rightarrow> 'a \<Rightarrow> 'a mpmc \<Rightarrow> 'a mpmc" where
  "run_enqueue t v q = foldl (\<lambda>q _. emplace_step False t q (q_threads q t)) (goto t (Enq_load v) q) [0 ..< 5 :: nat]"

definition run_dequeue :: "nat \<Rightarrow> 'a mpmc \<Rightarrow> 'a mpmc" where
  "run_dequeue t q = foldl (\<lambda>q _. dequeue_step False t q (q_threads q t)) (goto t Deq_load q) [0 ..< 5 :: nat]"

lemma run_reachable:
  assumes "mpmc_reachable c q" and "at_rest (q_threads q t)"
  shows "mpmc_reachable c (run_enqueue t v q)" and "mpmc_reachable c (run_dequeue t q)"
proof -
  have e: "mpmc_reachable c (foldl (\<lambda>q _. emplace_step False t q (q_threads q t)) q' xs)" if "mpmc_reachable c q'" for q' and xs :: "nat list"
    using that by (induction xs arbitrary: q') (auto intro: mpmc_reachable.step mpmc_step.enqueue)
  have d: "mpmc_reachable c (foldl (\<lambda>q _. dequeue_step False t q (q_threads q t)) q' xs)" if "mpmc_reachable c q'" for q' and xs :: "nat list"
    using that by (induction xs arbitrary: q') (auto intro: mpmc_reachable.step mpmc_step.dequeue)
  show "mpmc_reachable c (run_enqueue t v q)" "mpmc_reachable c (run_dequeue t q)"
    unfolding run_enqueue_def run_dequeue_def
    by (rule e d, rule mpmc_reachable.step [OF assms(1)], rule mpmc_step.intros, rule assms(2))+
qed

definition demo_ring :: "nat mpmc" where
  "demo_ring = run_dequeue 0 (run_enqueue 1 20 (run_enqueue 0 10 (new_MpmcQueue (2 ^ 1))))"

lemma demo_ring_reachable: "mpmc_reachable (2 ^ 1) demo_ring"
  unfolding demo_ring_def
  by (intro run_reachable mpmc_reachable.start)
    (simp_all add: run_enqueue_def new_MpmcQueue_def upt_rec cell_of_def Let_def)

lemma demo_ring_final:
  "aux_out demo_ring = [(0, 10)]" "q_dequeue_position demo_ring = 1" "q_enqueue_position demo_ring = 2" "aux_in demo_ring = [10, 20]"
  "\<forall>t. at_rest (q_threads demo_ring t)"
  by (simp_all add: demo_ring_def run_dequeue_def run_enqueue_def new_MpmcQueue_def upt_rec cell_of_def Let_def)

theorem mpmc_queue_keeps_values_witness:
  "mset (map snd (aux_out demo_ring)) = mset (take (q_dequeue_position demo_ring) (aux_in demo_ring)) \<and>
   aux_out demo_ring = [(0, 10)] \<and> q_storage demo_ring (cell_of demo_ring 1) = Some 20"
  using mpmc_queue_keeps_values [OF demo_ring_reachable] demo_ring_final by auto

section \<open>The capacity is a power of two\<close>

lemma or_shift_bits:
  fixes c x :: u64
  assumes "\<And>n. bit c n \<longleftrightarrow> (\<exists>j < d. bit x (n + j))" and e: "e = d + d"
  shows "bit (c OR drop_bit d c) n \<longleftrightarrow> (\<exists>j < e. bit x (n + j))"
proof
  assume "bit (c OR drop_bit d c) n"
  then consider j where "j < d" "bit x (n + j)" | j where "j < d" "bit x (d + n + j)"
    by (auto simp: bit_or_iff bit_drop_bit_eq assms(1))
  then show "\<exists>j < e. bit x (n + j)"
  proof cases
    case (1 j)
    then show ?thesis using e by (intro exI [of _ j]) simp
  next
    case (2 j)
    then show ?thesis using e by (intro exI [of _ "d + j"]) (simp add: ac_simps)
  qed
next
  assume "\<exists>j < e. bit x (n + j)"
  then obtain j where j: "j < e" "bit x (n + j)" by blast
  show "bit (c OR drop_bit d c) n"
  proof (cases "j < d")
    case True
    with j show ?thesis by (auto simp: bit_or_iff assms(1))
  next
    case False
    then have "j - d < d" "bit x (d + n + (j - d))" using j e by (simp_all add: ac_simps)
    then have "\<exists>i < d. bit x (d + n + i)" by blast
    then show ?thesis by (simp add: bit_or_iff bit_drop_bit_eq assms(1))
  qed
qed

lemma smear_bits:
  "bit (smear x) n \<longleftrightarrow> (\<exists>j < 64. bit x (n + j))"
proof -
  define c1 where "c1 = x OR drop_bit 1 x"
  define c2 where "c2 = c1 OR drop_bit 2 c1"
  define c3 where "c3 = c2 OR drop_bit 4 c2"
  define c4 where "c4 = c3 OR drop_bit 8 c3"
  define c5 where "c5 = c4 OR drop_bit 16 c4"
  define c6 where "c6 = c5 OR drop_bit 32 c5"
  have 1: "bit c1 n \<longleftrightarrow> (\<exists>j < 2. bit x (n + j))" for n unfolding c1_def by (rule or_shift_bits) simp_all
  have 2: "bit c2 n \<longleftrightarrow> (\<exists>j < 4. bit x (n + j))" for n unfolding c2_def by (rule or_shift_bits [OF 1]) simp
  have 3: "bit c3 n \<longleftrightarrow> (\<exists>j < 8. bit x (n + j))" for n unfolding c3_def by (rule or_shift_bits [OF 2]) simp
  have 4: "bit c4 n \<longleftrightarrow> (\<exists>j < 16. bit x (n + j))" for n unfolding c4_def by (rule or_shift_bits [OF 3]) simp
  have 5: "bit c5 n \<longleftrightarrow> (\<exists>j < 32. bit x (n + j))" for n unfolding c5_def by (rule or_shift_bits [OF 4]) simp
  have 6: "bit c6 n \<longleftrightarrow> (\<exists>j < 64. bit x (n + j))" for n unfolding c6_def by (rule or_shift_bits [OF 5]) simp
  have "smear x = c6"
    unfolding smear_def foldl.simps c6_def c5_def c4_def c3_def c2_def c1_def by (rule refl)
  then show ?thesis using 6 by simp
qed

lemma bit_nat_word: "bit x n \<longleftrightarrow> odd (unat x div 2 ^ n)" for x :: u64
  by (metis bit_iff_odd bit_unsigned_iff possible_bit_nat)


lemma highest_bit:
  fixes x :: u64
  assumes "x \<noteq> 0"
  obtains h where "h < 64" and "2 ^ h \<le> unat x" and "unat x < 2 ^ Suc h" and "\<And>n. (\<exists>j < 64. bit x (n + j)) \<longleftrightarrow> n \<le> h"
proof -
  have "1 \<le> unat x" using assms by (simp add: Suc_le_eq unat_gt_0)
  then obtain h where h: "2 ^ h \<le> unat x" "unat x < 2 ^ Suc h" using ex_power_ivl1 [of 2 "unat x"] by auto
  have "unat x < 2 ^ 64" using unsigned_less [of x, where ?'a = nat] by simp
  with h(1) have "(2 :: nat) ^ h < 2 ^ 64" by (rule le_less_trans)
  then have small: "h < 64" by (rule power_less_imp_less_exp [rotated]) simp
  have top: "bit x h"
  proof -
    have "unat x div 2 ^ h = 1" using h by (simp add: div_nat_eqI)
    then show ?thesis by (simp add: bit_nat_word)
  qed
  have above: "\<not> bit x n" if "h < n" for n
  proof -
    have "(2 :: nat) ^ Suc h \<le> 2 ^ n" using that by (intro power_increasing) simp_all
    with h(2) have "unat x < 2 ^ n" by linarith
    then show ?thesis by (simp add: bit_nat_word)
  qed
  have "(\<exists>j < 64. bit x (n + j)) \<longleftrightarrow> n \<le> h" for n
  proof
    assume "\<exists>j < 64. bit x (n + j)"
    then show "n \<le> h" using above by (metis le_add1 le_trans not_le)
  next
    assume "n \<le> h"
    then show "\<exists>j < 64. bit x (n + j)" using top small by (intro exI [of _ "h - n"]) simp
  qed
  with that small h show thesis by blast
qed

text \<open>the capacity of a ring is the smallest power of two that is at least two and at least what was asked for, for every
  request up to \<open>2 ^ 63\<close>; beyond that the addition wraps around and the capacity is zero. The doubling loop of the code
  takes six turns.\<close>

theorem NormalizeCapacity_smallest_power:
  "if unat capacity \<le> 2 ^ 63
   then \<exists>k > 0. unat (NormalizeCapacity capacity) = 2 ^ k \<and> max 2 (unat capacity) \<le> 2 ^ k \<and>
     (\<forall>j > 0. max 2 (unat capacity) \<le> 2 ^ j \<longrightarrow> k \<le> j)
   else NormalizeCapacity capacity = 0"
proof (cases "capacity < 2")
  case True
  then have "unat capacity < 2" by (simp add: word_less_nat_alt)
  then show ?thesis using True by (simp add: NormalizeCapacity_def) (auto intro!: exI [of _ 1])
next
  case False
  define x where "x = capacity - 1"
  have cap: "2 \<le> unat capacity" using False by (simp add: word_less_nat_alt)
  then have x: "unat x = unat capacity - 1" unfolding x_def by (intro unat_minus_one) auto
  then have "x \<noteq> 0" using cap by auto
  then obtain h where h: "h < 64" "2 ^ h \<le> unat x" "unat x < 2 ^ Suc h" "\<And>n. (\<exists>j < 64. bit x (n + j)) \<longleftrightarrow> n \<le> h"
    using highest_bit by metis
  have "smear x = mask (Suc h)"
    by (rule bit_word_eqI) (simp add: smear_bits h(4) bit_mask_iff less_Suc_eq_le)
  then have norm: "NormalizeCapacity capacity = 2 ^ Suc h" using False by (simp add: NormalizeCapacity_def x_def mask_eq_exp_minus_1)
  show ?thesis
  proof (cases "h = 63")
    case True
    have "NormalizeCapacity capacity = 0" unfolding norm True by (simp)
    moreover have "\<not> unat capacity \<le> 2 ^ 63" using h(2) x cap True by simp
    ultimately show ?thesis by simp
  next
    case False
    with h(1) have less: "Suc h < 64" by simp
    have "(2 :: nat) ^ Suc h < 2 ^ 64" using less by (intro power_strict_increasing) simp_all
    then have "unat (of_nat (2 ^ Suc h) :: u64) = 2 ^ Suc h" by (simp only: unat_of_nat) (simp add: take_bit_nat_eq_self)
    then have "unat (NormalizeCapacity capacity) = 2 ^ Suc h" unfolding norm by simp
    moreover have "max 2 (unat capacity) \<le> 2 ^ Suc h" using h(3) x cap by simp
    moreover have "Suc h \<le> j" if "max 2 (unat capacity) \<le> 2 ^ j" for j
    proof -
      have "2 ^ h < (2 :: nat) ^ j" using that h(2) x cap by linarith
      then show ?thesis by (simp add: Suc_le_eq)
    qed
    moreover have "unat capacity \<le> 2 ^ 63"
    proof -
      have "(2 :: nat) ^ Suc h \<le> 2 ^ 63" using less by (intro power_increasing) simp_all
      with h(3) x cap show ?thesis by linarith
    qed
    ultimately show ?thesis by (simp only: if_True) blast
  qed
qed


theorem NormalizeCapacity_smallest_power_witness:
  "\<exists>k. unat (NormalizeCapacity 1000) = 2 ^ k \<and> 1000 \<le> (2 :: nat) ^ k \<and> k \<le> 10"
proof -
  from NormalizeCapacity_smallest_power [of 1000] obtain k where "unat (NormalizeCapacity 1000) = 2 ^ k" "max 2 1000 \<le> (2 :: nat) ^ k"
    "\<forall>j > 0. max 2 1000 \<le> (2 :: nat) ^ j \<longrightarrow> k \<le> j"
    by auto
  moreover from this(3) have "k \<le> 10" by (elim allE [of _ 10]) simp
  ultimately show ?thesis by auto
qed

section \<open>Destruction\<close>

text \<open>What the destructor finds: no thread is at work, the values between the positions are in their cells.\<close>

definition settled :: "'a mpmc \<Rightarrow> bool" where
  "settled q \<longleftrightarrow> 2 \<le> q_capacity q \<and> (\<forall>p. cell_of q p = p mod q_capacity q) \<and>
     q_dequeue_position q \<le> q_enqueue_position q \<and> q_enqueue_position q \<le> q_dequeue_position q + q_capacity q \<and>
     (\<forall>p. q_dequeue_position q \<le> p \<and> p < q_enqueue_position q \<longrightarrow> q_sequence q (p mod q_capacity q) = p + 1) \<and>
     q_sequence q (q_enqueue_position q mod q_capacity q) \<noteq> q_enqueue_position q + 1 \<and>
     (\<forall>i < q_capacity q. q_storage q i \<noteq> None \<longrightarrow> (\<exists>p. q_dequeue_position q \<le> p \<and> p < q_enqueue_position q \<and> i = p mod q_capacity q))"

lemma at_rest_settled:
  assumes inv: "mpmc_inv q" and rest: "\<And>t. at_rest (q_threads q t)"
  shows "settled q"
proof -
  let ?c = "q_capacity q"
  note f = inv_facts [OF inv]
  have idle: "writes_at (q_threads q t) = None" "reads_at (q_threads q t) = None" for t using at_rest_free [OF rest] by simp_all
  have cell: "\<exists>p'. p' mod ?c = i \<and> p' < q_dequeue_position q + ?c \<and>
      (q_sequence q i = p' \<and> q_enqueue_position q \<le> p' \<and> q_storage q i = None \<or>
       q_sequence q i = p' + 1 \<and> p' < q_enqueue_position q \<and> q_dequeue_position q \<le> p')" if "i < ?c" for i
    using f(3) [OF that] idle unfolding cell_ok_def by auto
  have lt: "p mod ?c < ?c" for p using f(1) by simp
  have "q_sequence q (p mod ?c) = p + 1" if p: "q_dequeue_position q \<le> p" "p < q_enqueue_position q" for p
  proof -
    from cell [OF lt [of p]] obtain p' where p': "p' mod ?c = p mod ?c" "p' < q_dequeue_position q + ?c"
      "q_enqueue_position q \<le> p' \<or> q_sequence q (p mod ?c) = p' + 1 \<and> q_dequeue_position q \<le> p'" by auto
    have "p < p' + ?c" using p p'(3) ring_bound [OF inv] by linarith
    with p' p have "p' = p" using same_position [of p' ?c p] by linarith
    with p' p show ?thesis by auto
  qed
  moreover have "q_sequence q (q_enqueue_position q mod ?c) \<noteq> q_enqueue_position q + 1"
    using cell [OF lt [of "q_enqueue_position q"]] next_cell [OF f(1), of "q_enqueue_position q"] by auto
  moreover have "\<exists>p. q_dequeue_position q \<le> p \<and> p < q_enqueue_position q \<and> i = p mod ?c" if "i < ?c" "q_storage q i \<noteq> None" for i
    using cell [OF that(1)] that(2) by auto
  ultimately show ?thesis using f(1,5,6) ring_bound [OF inv] unfolding settled_def by blast
qed

lemma DiscardOne_settled:
  assumes "settled q"
  shows "if q_dequeue_position q = q_enqueue_position q then DiscardOne q = (q, False)
    else \<exists>q'. DiscardOne q = (q', True) \<and> settled q' \<and> q_enqueue_position q' = q_enqueue_position q \<and>
      q_dequeue_position q' = q_dequeue_position q + 1 \<and> q_capacity q' = q_capacity q"
proof (cases "q_dequeue_position q = q_enqueue_position q")
  case True
  then show ?thesis using assms by (simp add: DiscardOne_def settled_def Let_def)
next
  case False
  let ?c = "q_capacity q" and ?d = "q_dequeue_position q" and ?e = "q_enqueue_position q"
  have d: "?d < ?e" "?e \<le> ?d + ?c" using False assms by (auto simp: settled_def)
  define q' where "q' = q\<lparr>q_storage := (q_storage q)(?d mod ?c := None), q_dequeue_position := ?d + 1,
    q_sequence := (q_sequence q)(?d mod ?c := ?d + ?c)\<rparr>"
  have run: "DiscardOne q = (q', True)" using assms d by (simp add: DiscardOne_def settled_def Let_def q'_def)
  have apart: "p mod ?c \<noteq> ?d mod ?c" if "?d < p" "p < ?e" for p using same_position [of p ?c ?d] that d by auto
  have "q_sequence q' (p mod ?c) = p + 1" if "?d + 1 \<le> p" "p < ?e" for p
    using apart [of p] that assms by (simp add: q'_def settled_def)
  moreover have "q_sequence q' (?e mod ?c) \<noteq> ?e + 1"
  proof (cases "?e mod ?c = ?d mod ?c")
    case True
    then have "?d + ?c \<noteq> ?e + 1" using next_cell [of ?c ?e] assms by (metis Suc_eq_plus1 mod_add_self2 settled_def)
    with True show ?thesis by (simp add: q'_def)
  next
    case False
    then show ?thesis using assms by (simp add: q'_def settled_def)
  qed
  moreover have "\<exists>p. ?d + 1 \<le> p \<and> p < ?e \<and> i = p mod ?c" if "i < ?c" "q_storage q' i \<noteq> None" for i
  proof -
    have "i \<noteq> ?d mod ?c" "q_storage q i \<noteq> None" using that by (auto simp: q'_def split: if_splits)
    with assms that(1) obtain p where "?d \<le> p" "p < ?e" "i = p mod ?c" unfolding settled_def by blast
    with \<open>i \<noteq> ?d mod ?c\<close> show ?thesis by (intro exI [of _ p]) (auto simp: le_less Suc_le_eq)
  qed
  moreover have "cell_of q' p = p mod ?c" for p using assms by (simp add: q'_def cell_of_def settled_def)
  ultimately have "settled q'" using assms d by (simp add: settled_def q'_def)
  with run False show ?thesis by (simp add: q'_def)
qed

text \<open>the destructor ends and leaks nothing. In every reachable state in which no operation is under way, the loop of
  \<^verbatim>\<open>~MpmcQueue\<close> ends after as many turns as there are values in the ring, and no cell holds a value afterwards.\<close>

theorem destructor_ends:
  assumes "mpmc_reachable (2 ^ k) q" and "0 < k" and "\<forall>t. at_rest (q_threads q t)"
  shows "\<exists>q'. discard_all q 0 = Some (q', q_enqueue_position q - q_dequeue_position q) \<and> (\<forall>i < 2 ^ k. q_storage q' i = None)"
proof -
  have loop: "\<exists>q'. discard_all q n = Some (q', n + (q_enqueue_position q - q_dequeue_position q)) \<and> (\<forall>i < q_capacity q. q_storage q' i = None)"
    if "settled q" for q :: "'a mpmc" and n
    using that
  proof (induction "q_enqueue_position q - q_dequeue_position q" arbitrary: q n)
    case 0
    then have "DiscardOne q = (q, False)" using DiscardOne_settled [OF 0(2)] by (simp add: settled_def)
    moreover have "q_storage q i = None" if "i < q_capacity q" for i using 0 that by (auto simp: settled_def)
    ultimately show ?case using 0 by (subst discard_all.simps) simp
  next
    case (Suc m)
    then obtain q' where q': "DiscardOne q = (q', True)" "settled q'" "q_enqueue_position q' = q_enqueue_position q"
      "q_dequeue_position q' = q_dequeue_position q + 1" "q_capacity q' = q_capacity q"
      using DiscardOne_settled [OF Suc.prems] by (auto split: if_splits)
    have left: "m = q_enqueue_position q' - q_dequeue_position q'" using Suc.hyps(2) q'(3,4) by simp
    from Suc.hyps(1) [OF left q'(2), of "n + 1"] have "\<exists>r. discard_all q' (n + 1) = Some (r, n + 1 + m) \<and> (\<forall>i < q_capacity q. q_storage r i = None)"
      using left q'(5) by simp
    then show ?case unfolding Suc.hyps(2) [symmetric] using q'(1) by (subst discard_all.simps) simp
  qed
  from mpmc_reachable_inv [OF assms(1,2)] have "mpmc_inv q" "q_capacity q = 2 ^ k" by simp_all
  with loop [OF at_rest_settled, of q 0] assms(3) show ?thesis by simp
qed

theorem destructor_ends_witness:
  "\<exists>q'. discard_all demo_ring 0 = Some (q', 1) \<and> (\<forall>i < 2. q_storage q' i = None)"
  using destructor_ends [OF demo_ring_reachable _ demo_ring_final(5)] demo_ring_final(2,3) by simp

end
