(* ===== verification/Thread_Pool.thy ===== *)
theory Thread_Pool
  imports Prelude "HOL-Library.Multiset"
begin

text \<open>
  The worker pool, \<^verbatim>\<open>src/core/thread_pool.cc\<close>: \<^verbatim>\<open>Submit\<close>, \<^verbatim>\<open>Shutdown\<close> and the loop of the workers as steps of
  threads that interleave in any order. The task queue is a list (the theory of the lock-free ring shows that it
  behaves as one) that may refuse a task when it is full and may look empty while a task is being stored; the counter of
  queued tasks is a 64 bit word, which the workers can push below zero for a moment. Threads below the number of workers
  are the workers. Two history fields record the tasks accepted and the tasks run.
\<close>

section \<open>State\<close>

datatype 'a pool_thread =
    Outside | Submit_lock 'a | Submit_check 'a | Submit_count | Submit_unlock | Submit_result bool
  | Shutdown_lock | Shutdown_set | Shutdown_join | Shutdown_done
  | Work_try | Work_count 'a | Work_run 'a | Work_lock | Work_wait | Work_sleep | Work_check | Work_returned

record 'a ThreadPool =
  tp_workers :: nat
  tp_capacity :: nat
  tp_queue :: "'a list"
  tp_queued_tasks :: u64
  tp_stopping :: bool
  tp_mutex :: "nat option"
  tp_threads :: "nat \<Rightarrow> 'a pool_thread"
  aux_accepted :: "'a list"
  aux_run :: "'a list"

definition new_ThreadPool :: "nat \<Rightarrow> nat \<Rightarrow> 'a ThreadPool result" where
  "new_ThreadPool worker_count queue_capacity =
    (if worker_count = 0 then Inl ''worker_count must be positive''
     else Inr \<lparr>tp_workers = worker_count, tp_capacity = queue_capacity, tp_queue = [], tp_queued_tasks = 0, tp_stopping = False,
       tp_mutex = None, tp_threads = (\<lambda>t. if t < worker_count then Work_try else Outside), aux_accepted = [], aux_run = []\<rparr>)"

definition becomes :: "nat \<Rightarrow> 'a pool_thread \<Rightarrow> 'a ThreadPool \<Rightarrow> 'a ThreadPool" where
  "becomes t pc s = s\<lparr>tp_threads := (tp_threads s)(t := pc)\<rparr>"

definition acquire :: "nat \<Rightarrow> 'a pool_thread \<Rightarrow> 'a ThreadPool \<Rightarrow> 'a ThreadPool" where
  "acquire t pc s = (case tp_mutex s of None \<Rightarrow> (becomes t pc s)\<lparr>tp_mutex := Some t\<rparr> | Some _ \<Rightarrow> s)"

definition release :: "nat \<Rightarrow> 'a pool_thread \<Rightarrow> 'a ThreadPool \<Rightarrow> 'a ThreadPool" where
  "release t pc s = (becomes t pc s)\<lparr>tp_mutex := None\<rparr>"

section \<open>Steps\<close>

text \<open>\<^verbatim>\<open>Submit\<close>: \<open>takes\<close> says whether the ring takes the task although it is not full.\<close>

fun Submit_step :: "bool \<Rightarrow> nat \<Rightarrow> 'a ThreadPool \<Rightarrow> 'a pool_thread \<Rightarrow> 'a ThreadPool" where
  "Submit_step takes t s (Submit_lock task) = acquire t (Submit_check task) s"
| "Submit_step takes t s (Submit_check task) =
    (if tp_stopping s \<or> \<not> takes \<or> length (tp_queue s) \<ge> tp_capacity s then release t (Submit_result False) s
     else (becomes t Submit_count s)\<lparr>tp_queue := tp_queue s @ [task], aux_accepted := aux_accepted s @ [task]\<rparr>)"
| "Submit_step takes t s Submit_count = (becomes t Submit_unlock s)\<lparr>tp_queued_tasks := tp_queued_tasks s + 1\<rparr>"
| "Submit_step takes t s Submit_unlock = release t (Submit_result True) s"
| "Submit_step takes t s _ = s"

text \<open>\<^verbatim>\<open>Shutdown\<close>: only the first call waits for the workers.\<close>

fun Shutdown_step :: "nat \<Rightarrow> 'a ThreadPool \<Rightarrow> 'a pool_thread \<Rightarrow> 'a ThreadPool" where
  "Shutdown_step t s Shutdown_lock = acquire t Shutdown_set s"
| "Shutdown_step t s Shutdown_set =
    (if tp_stopping s then release t Outside s else (release t Shutdown_join s)\<lparr>tp_stopping := True\<rparr>)"
| "Shutdown_step t s Shutdown_join =
    (if \<forall>w < tp_workers s. tp_threads s w = Work_returned then becomes t Shutdown_done s else s)"
| "Shutdown_step t s _ = s"

text \<open>\<^verbatim>\<open>RunWorker\<close>: \<open>finds\<close> says whether the ring shows its oldest task. An exception of the task is caught where the task is
  run, and the worker goes on. The handler around the whole loop ends a worker when anything else throws; what is left there is
  locking the mutex and waiting on the condition variable, whose failure on valid objects is not a step of the model
  (moving a task out of the ring and the counters do not throw).\<close>

fun RunWorker_step :: "bool \<Rightarrow> nat \<Rightarrow> 'a ThreadPool \<Rightarrow> 'a pool_thread \<Rightarrow> 'a ThreadPool" where
  "RunWorker_step finds t s Work_try =
    (case tp_queue s of
       task # tasks \<Rightarrow> if finds then (becomes t (Work_count task) s)\<lparr>tp_queue := tasks\<rparr> else becomes t Work_lock s
     | [] \<Rightarrow> becomes t Work_lock s)"
| "RunWorker_step finds t s (Work_count task) = (becomes t (Work_run task) s)\<lparr>tp_queued_tasks := tp_queued_tasks s - 1\<rparr>"
| "RunWorker_step finds t s (Work_run task) = (becomes t Work_try s)\<lparr>aux_run := aux_run s @ [task]\<rparr>"
| "RunWorker_step finds t s Work_lock = acquire t Work_wait s"
| "RunWorker_step finds t s Work_wait =
    (if tp_stopping s \<or> tp_queued_tasks s \<noteq> 0 then becomes t Work_check s else release t Work_sleep s)"
| "RunWorker_step finds t s Work_sleep = acquire t Work_wait s"
| "RunWorker_step finds t s Work_check =
    (if tp_stopping s \<and> tp_queued_tasks s = 0 then release t Work_returned s else release t Work_try s)"
| "RunWorker_step finds t s _ = s"

fun outside :: "'a pool_thread \<Rightarrow> bool" where
  "outside Outside = True"
| "outside (Submit_result _) = True"
| "outside _ = False"

inductive pool_step :: "'a ThreadPool \<Rightarrow> 'a ThreadPool \<Rightarrow> bool" where
  call_submit: "tp_workers s \<le> t \<Longrightarrow> outside (tp_threads s t) \<Longrightarrow> pool_step s (becomes t (Submit_lock task) s)"
| call_shutdown: "tp_workers s \<le> t \<Longrightarrow> outside (tp_threads s t) \<Longrightarrow> pool_step s (becomes t Shutdown_lock s)"
| submit: "pool_step s (Submit_step takes t s (tp_threads s t))"
| shutdown: "pool_step s (Shutdown_step t s (tp_threads s t))"
| work: "pool_step s (RunWorker_step finds t s (tp_threads s t))"

inductive pool_reachable :: "nat \<Rightarrow> nat \<Rightarrow> 'a ThreadPool \<Rightarrow> bool" for workers capacity where
  start: "new_ThreadPool workers capacity = Inr s \<Longrightarrow> pool_reachable workers capacity s"
| step: "pool_reachable workers capacity s \<Longrightarrow> pool_step s s' \<Longrightarrow> pool_reachable workers capacity s'"

section \<open>The invariant\<close>

fun locks :: "'a pool_thread \<Rightarrow> bool" where
  "locks (Submit_check _) = True"
| "locks Submit_count = True"
| "locks Submit_unlock = True"
| "locks Shutdown_set = True"
| "locks Work_wait = True"
| "locks Work_check = True"
| "locks _ = False"

text \<open>The task a worker has taken and not yet run.\<close>

fun held :: "'a pool_thread \<Rightarrow> 'a multiset" where
  "held (Work_count task) = {#task#}"
| "held (Work_run task) = {#task#}"
| "held _ = {#}"

fun uncounted :: "'a pool_thread \<Rightarrow> nat" where
  "uncounted (Work_count _) = 1"
| "uncounted _ = 0"

fun works :: "'a pool_thread \<Rightarrow> bool" where
  "works Work_try = True" | "works (Work_count _) = True" | "works (Work_run _) = True" | "works Work_lock = True"
| "works Work_wait = True" | "works Work_sleep = True" | "works Work_check = True" | "works Work_returned = True"
| "works _ = False"

definition held_all :: "'a ThreadPool \<Rightarrow> 'a multiset" where
  "held_all s = (\<Sum>w < tp_workers s. held (tp_threads s w))"

definition uncounted_all :: "'a ThreadPool \<Rightarrow> nat" where
  "uncounted_all s = (\<Sum>w < tp_workers s. uncounted (tp_threads s w))"

definition counting :: "'a ThreadPool \<Rightarrow> bool" where
  "counting s \<longleftrightarrow> (\<exists>t. tp_threads s t = Submit_count)"

definition pool_inv :: "'a ThreadPool \<Rightarrow> bool" where
  "pool_inv s \<longleftrightarrow> tp_capacity s + tp_workers s < 2 ^ 64 \<and>
     (\<forall>t. works (tp_threads s t) \<longleftrightarrow> t < tp_workers s) \<and> (\<forall>t. locks (tp_threads s t) \<longleftrightarrow> tp_mutex s = Some t) \<and>
     length (tp_queue s) \<le> tp_capacity s \<and> mset (aux_accepted s) = mset (tp_queue s) + held_all s + mset (aux_run s) \<and>
     tp_queued_tasks s + of_bool (counting s) = of_nat (length (tp_queue s) + uncounted_all s) \<and>
     ((\<exists>t. tp_threads s t = Work_returned) \<longrightarrow> tp_stopping s \<and> tp_queue s = [] \<and> uncounted_all s = 0 \<and> \<not> counting s)"

lemma pool_invI:
  assumes "tp_capacity s + tp_workers s < 2 ^ 64" and "\<And>t. works (tp_threads s t) \<longleftrightarrow> t < tp_workers s"
    and "\<And>t. locks (tp_threads s t) \<longleftrightarrow> tp_mutex s = Some t" and "length (tp_queue s) \<le> tp_capacity s"
    and "mset (aux_accepted s) = mset (tp_queue s) + held_all s + mset (aux_run s)"
    and "tp_queued_tasks s + of_bool (counting s) = of_nat (length (tp_queue s) + uncounted_all s)"
    and "\<And>t. tp_threads s t = Work_returned \<Longrightarrow> tp_stopping s \<and> tp_queue s = [] \<and> uncounted_all s = 0 \<and> \<not> counting s"
  shows "pool_inv s"
  unfolding pool_inv_def using assms by blast

lemma inv_parts:
  assumes "pool_inv s"
  shows "tp_capacity s + tp_workers s < 2 ^ 64" and "works (tp_threads s t) \<longleftrightarrow> t < tp_workers s"
    and "locks (tp_threads s t) \<longleftrightarrow> tp_mutex s = Some t" and "length (tp_queue s) \<le> tp_capacity s"
    and "mset (aux_accepted s) = mset (tp_queue s) + held_all s + mset (aux_run s)"
    and "tp_queued_tasks s + of_bool (counting s) = of_nat (length (tp_queue s) + uncounted_all s)"
    and "tp_threads s t = Work_returned \<Longrightarrow> tp_stopping s \<and> tp_queue s = [] \<and> uncounted_all s = 0 \<and> \<not> counting s"
  using assms unfolding pool_inv_def by blast+

lemma becomes_simps [simp]:
  "tp_workers (becomes t pc s) = tp_workers s" "tp_capacity (becomes t pc s) = tp_capacity s" "tp_queue (becomes t pc s) = tp_queue s"
  "tp_queued_tasks (becomes t pc s) = tp_queued_tasks s" "tp_stopping (becomes t pc s) = tp_stopping s" "tp_mutex (becomes t pc s) = tp_mutex s"
  "tp_threads (becomes t pc s) = (tp_threads s)(t := pc)" "aux_accepted (becomes t pc s) = aux_accepted s" "aux_run (becomes t pc s) = aux_run s"
  by (simp_all add: becomes_def)

text \<open>The sums over the workers when one thread moves.\<close>

lemma sum_move:
  fixes f :: "'b \<Rightarrow> 'c :: comm_monoid_add" and n t :: nat
  shows "(\<Sum>w < n. f ((g(t := x)) w)) + (if t < n then f (g t) else 0) = (\<Sum>w < n. f (g w)) + (if t < n then f x else 0)"
proof (cases "t < n")
  case True
  have "(\<Sum>w \<in> {..<n} - {t}. f ((g(t := x)) w)) = (\<Sum>w \<in> {..<n} - {t}. f (g w))" by (rule sum.cong) auto
  with True show ?thesis by (simp add: sum.remove [of "{..<n}" t] ac_simps)
next
  case False
  then have "(\<Sum>w < n. f ((g(t := x)) w)) = (\<Sum>w < n. f (g w))" by (intro sum.cong) auto
  with False show ?thesis by simp
qed

lemma held_move:
  assumes "tp_threads s' = (tp_threads s)(t := pc)" and "tp_workers s' = tp_workers s"
  shows "held_all s' + (if t < tp_workers s then held (tp_threads s t) else {#}) = held_all s + (if t < tp_workers s then held pc else {#})"
  using sum_move [of held "tp_threads s" t pc "tp_workers s"] by (simp add: held_all_def assms)

lemma uncounted_move:
  assumes "tp_threads s' = (tp_threads s)(t := pc)" and "tp_workers s' = tp_workers s"
  shows "uncounted_all s' + (if t < tp_workers s then uncounted (tp_threads s t) else 0) = uncounted_all s + (if t < tp_workers s then uncounted pc else 0)"
  using sum_move [of uncounted "tp_threads s" t pc "tp_workers s"] by (simp add: uncounted_all_def assms)

lemma counting_move:
  assumes "tp_threads s' = (tp_threads s)(t := pc)" and "tp_threads s t \<noteq> Submit_count" and "pc \<noteq> Submit_count"
  shows "counting s' = counting s"
  unfolding counting_def assms(1) using assms(2,3) by (metis fun_upd_apply)

lemma counting_locks: "pool_inv s \<Longrightarrow> tp_threads s t = Submit_count \<Longrightarrow> tp_mutex s = Some t"
  using inv_parts(3) [of s t] by simp

lemma no_other_counting:
  assumes "pool_inv s" and "tp_mutex s = Some t" and "tp_threads s t \<noteq> Submit_count"
  shows "\<not> counting s"
  using assms counting_locks [OF assms(1)] by (auto simp: counting_def)

text \<open>A move that touches neither the queue nor the counter nor a task, only the mutex.\<close>

lemma inv_move:
  assumes inv: "pool_inv s" and works: "works pc \<longleftrightarrow> works (tp_threads s t)" and held: "held pc = held (tp_threads s t)"
    and un: "uncounted pc = uncounted (tp_threads s t)" and count: "tp_threads s t \<noteq> Submit_count" "pc \<noteq> Submit_count" "pc \<noteq> Work_returned"
    and mutex: "m = (if locks pc then Some t else if locks (tp_threads s t) then None else tp_mutex s)"
    and free: "locks pc \<Longrightarrow> \<not> locks (tp_threads s t) \<Longrightarrow> tp_mutex s = None"
    and stop: "st = tp_stopping s \<or> st"
  shows "pool_inv ((becomes t pc s)\<lparr>tp_mutex := m, tp_stopping := st\<rparr>)" (is "pool_inv ?s")
proof (rule pool_invI)
  note p = inv_parts [OF inv]
  show "works (tp_threads ?s t') \<longleftrightarrow> t' < tp_workers ?s" for t' using p(2) [of t'] works by (cases "t' = t") simp_all
  show "locks (tp_threads ?s t') \<longleftrightarrow> tp_mutex ?s = Some t'" for t' using p(3) [of t'] p(3) [of t] mutex free by auto
  have held': "held_all ?s = held_all s" using held_move [of ?s s t pc] held by (auto split: if_splits)
  have un': "uncounted_all ?s = uncounted_all s" using uncounted_move [of ?s s t pc] un by (auto split: if_splits)
  have count': "counting ?s = counting s" using count by (auto simp: counting_def)
  show "mset (aux_accepted ?s) = mset (tp_queue ?s) + held_all ?s + mset (aux_run ?s)" using p(5) held' by simp
  show "tp_queued_tasks ?s + of_bool (counting ?s) = of_nat (length (tp_queue ?s) + uncounted_all ?s)" using p(6) un' count' by simp
  show "tp_stopping ?s \<and> tp_queue ?s = [] \<and> uncounted_all ?s = 0 \<and> \<not> counting ?s" if "tp_threads ?s t' = Work_returned" for t'
  proof -
    have "tp_threads s t' = Work_returned" using that count(3) by (auto split: if_splits)
    from p(7) [OF this] stop un' count' show ?thesis by auto
  qed
qed (use inv_parts [OF inv] in simp_all)


lemma move_works: "pool_inv s \<Longrightarrow> (works pc \<longleftrightarrow> works (tp_threads s t)) \<Longrightarrow> works (((tp_threads s)(t := pc)) t') \<longleftrightarrow> t' < tp_workers s"
  using inv_parts(2) [of s t'] by (cases "t' = t") simp_all

lemma move_locks: "pool_inv s \<Longrightarrow> (locks pc \<longleftrightarrow> locks (tp_threads s t)) \<Longrightarrow> locks (((tp_threads s)(t := pc)) t') \<longleftrightarrow> tp_mutex s = Some t'"
  using inv_parts(3) [of s t'] by (cases "t' = t") simp_all

lemma inv_submit:
  assumes inv: "pool_inv s" and pc: "tp_threads s t = Submit_check x" and go: "\<not> tp_stopping s" and room: "length (tp_queue s) < tp_capacity s"
  shows "pool_inv ((becomes t Submit_count s)\<lparr>tp_queue := tp_queue s @ [x], aux_accepted := aux_accepted s @ [x]\<rparr>)" (is "pool_inv ?s")
proof (rule pool_invI)
  note p = inv_parts [OF inv]
  have lock: "tp_mutex s = Some t" using p(3) [of t] pc by simp
  have client: "\<not> t < tp_workers s" using p(2) [of t] pc by simp
  have held': "held_all ?s = held_all s" using held_move [of ?s s t Submit_count] client by simp
  have un': "uncounted_all ?s = uncounted_all s" using uncounted_move [of ?s s t Submit_count] client by simp
  have "\<not> counting s" using no_other_counting [OF inv lock] pc by simp
  moreover have "counting ?s" by (auto simp: counting_def)
  ultimately show "tp_queued_tasks ?s + of_bool (counting ?s) = of_nat (length (tp_queue ?s) + uncounted_all ?s)" using p(6) un' by (simp add: algebra_simps)
  show "mset (aux_accepted ?s) = mset (tp_queue ?s) + held_all ?s + mset (aux_run ?s)" using p(5) held' by simp
  show "tp_stopping ?s \<and> tp_queue ?s = [] \<and> uncounted_all ?s = 0 \<and> \<not> counting ?s" if "tp_threads ?s t' = Work_returned" for t'
    using p(7) [of t'] that go by (auto split: if_splits)
qed (use inv_parts(1) [OF inv] room move_works [OF inv, of Submit_count t] move_locks [OF inv, of Submit_count t] pc in simp_all)

lemma inv_count:
  assumes inv: "pool_inv s" and pc: "tp_threads s t = Submit_count"
  shows "pool_inv ((becomes t Submit_unlock s)\<lparr>tp_queued_tasks := tp_queued_tasks s + 1\<rparr>)" (is "pool_inv ?s")
proof (rule pool_invI)
  note p = inv_parts [OF inv]
  have client: "\<not> t < tp_workers s" using p(2) [of t] pc by simp
  have held': "held_all ?s = held_all s" using held_move [of ?s s t Submit_unlock] client by simp
  have un': "uncounted_all ?s = uncounted_all s" using uncounted_move [of ?s s t Submit_unlock] client by simp
  have before: "counting s" using pc by (auto simp: counting_def)
  have "t' = t" if "tp_threads s t' = Submit_count" for t' using counting_locks [OF inv that] counting_locks [OF inv pc] by simp
  then have after: "\<not> counting ?s" by (auto simp: counting_def)
  show "tp_queued_tasks ?s + of_bool (counting ?s) = of_nat (length (tp_queue ?s) + uncounted_all ?s)" using p(6) un' before after by simp
  show "mset (aux_accepted ?s) = mset (tp_queue ?s) + held_all ?s + mset (aux_run ?s)" using p(5) held' by simp
  show "tp_stopping ?s \<and> tp_queue ?s = [] \<and> uncounted_all ?s = 0 \<and> \<not> counting ?s" if "tp_threads ?s t' = Work_returned" for t'
    using p(7) [of t'] that before by (auto split: if_splits)
qed (use inv_parts(1,4) [OF inv] move_works [OF inv, of Submit_unlock t] move_locks [OF inv, of Submit_unlock t] pc in simp_all)

lemma inv_take:
  assumes inv: "pool_inv s" and pc: "tp_threads s t = Work_try" and queue: "tp_queue s = x # xs"
  shows "pool_inv ((becomes t (Work_count x) s)\<lparr>tp_queue := xs\<rparr>)" (is "pool_inv ?s")
proof (rule pool_invI)
  note p = inv_parts [OF inv]
  have worker: "t < tp_workers s" using p(2) [of t] pc by simp
  have held': "held_all ?s = held_all s + {#x#}" using held_move [of ?s s t "Work_count x"] worker pc by simp
  have un': "uncounted_all ?s = uncounted_all s + 1" using uncounted_move [of ?s s t "Work_count x"] worker pc by simp
  have count': "counting ?s = counting s" using counting_move [of ?s s t] pc by simp
  show "tp_queued_tasks ?s + of_bool (counting ?s) = of_nat (length (tp_queue ?s) + uncounted_all ?s)"
    using p(6) un' count' queue by (simp add: algebra_simps)
  show "mset (aux_accepted ?s) = mset (tp_queue ?s) + held_all ?s + mset (aux_run ?s)" using p(5) held' queue by simp
  show "tp_stopping ?s \<and> tp_queue ?s = [] \<and> uncounted_all ?s = 0 \<and> \<not> counting ?s" if "tp_threads ?s t' = Work_returned" for t'
    using p(7) [of t'] that queue by (auto split: if_splits)
qed (use inv_parts(1,4) [OF inv] queue move_works [OF inv, of "Work_count x" t] move_locks [OF inv, of "Work_count x" t] pc in simp_all)

lemma inv_uncount:
  assumes inv: "pool_inv s" and pc: "tp_threads s t = Work_count x"
  shows "pool_inv ((becomes t (Work_run x) s)\<lparr>tp_queued_tasks := tp_queued_tasks s - 1\<rparr>)" (is "pool_inv ?s")
proof (rule pool_invI)
  note p = inv_parts [OF inv]
  have worker: "t < tp_workers s" using p(2) [of t] pc by simp
  have held': "held_all ?s = held_all s" using held_move [of ?s s t "Work_run x"] worker pc by simp
  have un': "uncounted_all s = uncounted_all ?s + 1" using uncounted_move [of ?s s t "Work_run x"] worker pc by simp
  have count': "counting ?s = counting s" using counting_move [of ?s s t] pc by simp
  show "tp_queued_tasks ?s + of_bool (counting ?s) = of_nat (length (tp_queue ?s) + uncounted_all ?s)"
    using p(6) count' unfolding un' by (simp add: algebra_simps)
  show "mset (aux_accepted ?s) = mset (tp_queue ?s) + held_all ?s + mset (aux_run ?s)" using p(5) held' by simp
  show "tp_stopping ?s \<and> tp_queue ?s = [] \<and> uncounted_all ?s = 0 \<and> \<not> counting ?s" if "tp_threads ?s t' = Work_returned" for t'
    using p(7) [of t'] that un' by (auto split: if_splits)
qed (use inv_parts(1,4) [OF inv] move_works [OF inv, of "Work_run x" t] move_locks [OF inv, of "Work_run x" t] pc in simp_all)

lemma inv_run:
  assumes inv: "pool_inv s" and pc: "tp_threads s t = Work_run x"
  shows "pool_inv ((becomes t Work_try s)\<lparr>aux_run := aux_run s @ [x]\<rparr>)" (is "pool_inv ?s")
proof (rule pool_invI)
  note p = inv_parts [OF inv]
  have worker: "t < tp_workers s" using p(2) [of t] pc by simp
  have held': "held_all s = held_all ?s + {#x#}" using held_move [of ?s s t Work_try] worker pc by simp
  have un': "uncounted_all ?s = uncounted_all s" using uncounted_move [of ?s s t Work_try] worker pc by simp
  have count': "counting ?s = counting s" using counting_move [of ?s s t] pc by simp
  show "tp_queued_tasks ?s + of_bool (counting ?s) = of_nat (length (tp_queue ?s) + uncounted_all ?s)" using p(6) un' count' by simp
  show "mset (aux_accepted ?s) = mset (tp_queue ?s) + held_all ?s + mset (aux_run ?s)" using p(5) held' by simp
  show "tp_stopping ?s \<and> tp_queue ?s = [] \<and> uncounted_all ?s = 0 \<and> \<not> counting ?s" if "tp_threads ?s t' = Work_returned" for t'
    using p(7) [of t'] that un' count' by (auto split: if_splits)
qed (use inv_parts(1,4) [OF inv] move_works [OF inv, of Work_try t] move_locks [OF inv, of Work_try t] pc in simp_all)

text \<open>A worker that returns has seen the counter at zero with the mutex in its hands: nothing is queued.\<close>

lemma inv_return:
  assumes inv: "pool_inv s" and pc: "tp_threads s t = Work_check" and stop: "tp_stopping s" and zero: "tp_queued_tasks s = 0"
  shows "pool_inv (release t Work_returned s)" (is "pool_inv ?s")
proof (rule pool_invI)
  note p = inv_parts [OF inv]
  have lock: "tp_mutex s = Some t" using p(3) [of t] pc by simp
  have worker: "t < tp_workers s" using p(2) [of t] pc by simp
  have held': "held_all ?s = held_all s" using held_move [of ?s s t Work_returned] worker pc by (simp add: release_def)
  have un': "uncounted_all ?s = uncounted_all s" using uncounted_move [of ?s s t Work_returned] worker pc by (simp add: release_def)
  have none: "\<not> counting s" using no_other_counting [OF inv lock] pc by simp
  then have count': "\<not> counting ?s" by (auto simp: counting_def release_def)
  have "uncounted (tp_threads s w) \<le> 1" for w by (cases "tp_threads s w") simp_all
  then have "uncounted_all s \<le> tp_workers s" unfolding uncounted_all_def using sum_bounded_above [of "{..<tp_workers s}" "\<lambda>w. uncounted (tp_threads s w)" 1] by simp
  then have "length (tp_queue s) + uncounted_all s < 2 ^ 64" using p(1,4) by linarith
  moreover have "of_nat (length (tp_queue s) + uncounted_all s) = (0 :: u64)" using p(6) none zero by simp
  ultimately have empty: "length (tp_queue s) + uncounted_all s = 0" by (rule of_nat_u64_zero)
  show "tp_stopping ?s \<and> tp_queue ?s = [] \<and> uncounted_all ?s = 0 \<and> \<not> counting ?s" using stop empty un' count' by (simp add: release_def)
  show "tp_queued_tasks ?s + of_bool (counting ?s) = of_nat (length (tp_queue ?s) + uncounted_all ?s)"
    using p(6) un' none count' by (simp add: release_def)
  show "mset (aux_accepted ?s) = mset (tp_queue ?s) + held_all ?s + mset (aux_run ?s)" using p(5) held' by (simp add: release_def)
  show "works (tp_threads ?s t') \<longleftrightarrow> t' < tp_workers ?s" for t' using move_works [OF inv, of Work_returned t t'] pc by (simp add: release_def)
  show "locks (tp_threads ?s t') \<longleftrightarrow> tp_mutex ?s = Some t'" for t' using p(3) [of t'] lock by (simp add: release_def)
qed (use inv_parts(1,4) [OF inv] in \<open>simp_all add: release_def\<close>)


lemma keep_mutex: "(becomes t pc s)\<lparr>tp_mutex := tp_mutex s, tp_stopping := tp_stopping s\<rparr> = becomes t pc s"
  by (simp add: becomes_def)

lemma inv_quiet:
  assumes "pool_inv s" and "works pc \<longleftrightarrow> works (tp_threads s t)" and "held pc = held (tp_threads s t)"
    and "uncounted pc = uncounted (tp_threads s t)" and "tp_threads s t \<noteq> Submit_count" "pc \<noteq> Submit_count" "pc \<noteq> Work_returned"
    and "locks pc \<longleftrightarrow> locks (tp_threads s t)"
  shows "pool_inv (becomes t pc s)"
  using inv_move [OF assms(1-7), of "tp_mutex s" "tp_stopping s"] assms(8) inv_parts(3) [OF assms(1), of t] by (auto simp: keep_mutex)

lemma inv_acquire:
  assumes "pool_inv s" and "works pc \<longleftrightarrow> works (tp_threads s t)" and "held pc = held (tp_threads s t)"
    and "uncounted pc = uncounted (tp_threads s t)" and "tp_threads s t \<noteq> Submit_count" "pc \<noteq> Submit_count" "pc \<noteq> Work_returned"
    and "locks pc" and "\<not> locks (tp_threads s t)"
  shows "pool_inv (acquire t pc s)"
  using inv_move [OF assms(1-7), of "Some t" "tp_stopping s"] assms(1,8,9) by (auto simp: acquire_def becomes_def split: option.split)

lemma inv_release:
  assumes "pool_inv s" and "works pc \<longleftrightarrow> works (tp_threads s t)" and "held pc = held (tp_threads s t)"
    and "uncounted pc = uncounted (tp_threads s t)" and "tp_threads s t \<noteq> Submit_count" "pc \<noteq> Submit_count" "pc \<noteq> Work_returned"
    and "\<not> locks pc" and "locks (tp_threads s t)" and "st = tp_stopping s \<or> st"
  shows "pool_inv ((release t pc s)\<lparr>tp_stopping := st\<rparr>)"
  using inv_move [OF assms(1-7), of None st] assms(8-10) by (simp add: release_def)

lemma release_same: "(release t pc s)\<lparr>tp_stopping := tp_stopping s\<rparr> = release t pc s"
  by (simp add: release_def becomes_def)

lemma Submit_step_inv:
  assumes inv: "pool_inv s"
  shows "pool_inv (Submit_step takes t s (tp_threads s t))"
proof (cases "tp_threads s t")
  case (Submit_lock x)
  then show ?thesis using inv_acquire [OF inv, of "Submit_check x" t] by simp
next
  case (Submit_check x)
  then show ?thesis
    using inv_release [OF inv, of "Submit_result False" t "tp_stopping s"] inv_submit [OF inv Submit_check] by (simp add: release_same)
next
  case Submit_count
  then show ?thesis using inv_count [OF inv Submit_count] by simp
next
  case Submit_unlock
  then show ?thesis using inv_release [OF inv, of "Submit_result True" t "tp_stopping s"] by (simp add: release_same)
qed (use inv in simp_all)

lemma Shutdown_step_inv:
  assumes inv: "pool_inv s"
  shows "pool_inv (Shutdown_step t s (tp_threads s t))"
proof (cases "tp_threads s t")
  case Shutdown_lock
  then show ?thesis using inv_acquire [OF inv, of Shutdown_set t] by simp
next
  case Shutdown_set
  then show ?thesis
    using inv_release [OF inv, of Outside t "tp_stopping s"] inv_release [OF inv, of Shutdown_join t True] by (simp add: release_same)
next
  case Shutdown_join
  then show ?thesis using inv inv_quiet [OF inv, of Shutdown_done t] by simp
qed (use inv in simp_all)

lemma RunWorker_step_inv:
  assumes inv: "pool_inv s"
  shows "pool_inv (RunWorker_step finds t s (tp_threads s t))"
proof (cases "tp_threads s t")
  case Work_try
  then show ?thesis
    using inv_take [OF inv Work_try] inv_quiet [OF inv, of Work_lock t] by (simp split: list.split)
next
  case (Work_count x)
  then show ?thesis using inv_uncount [OF inv Work_count] by simp
next
  case (Work_run x)
  then show ?thesis using inv_run [OF inv Work_run] by simp
next
  case Work_lock
  then show ?thesis using inv_acquire [OF inv, of Work_wait t] by simp
next
  case Work_wait
  then show ?thesis
    using inv_quiet [OF inv, of Work_check t] inv_release [OF inv, of Work_sleep t "tp_stopping s"] by (simp add: release_same)
next
  case Work_sleep
  then show ?thesis using inv_acquire [OF inv, of Work_wait t] by simp
next
  case Work_check
  then show ?thesis
    using inv_return [OF inv Work_check] inv_release [OF inv, of Work_try t "tp_stopping s"] by (simp add: release_same)
qed (use inv in simp_all)

lemma call_inv:
  assumes "pool_inv s" and "outside (tp_threads s t)"
  shows "pool_inv (becomes t (Submit_lock x) s)" and "pool_inv (becomes t Shutdown_lock s)"
  using assms(2) inv_quiet [OF assms(1), of "Submit_lock x" t] inv_quiet [OF assms(1), of Shutdown_lock t]
  by (cases "tp_threads s t"; simp)+

lemma step_keeps_sizes:
  assumes "pool_step s s'"
  shows "tp_workers s' = tp_workers s" and "tp_capacity s' = tp_capacity s"
proof -
  have "tp_workers (Submit_step b t s pc) = tp_workers s \<and> tp_capacity (Submit_step b t s pc) = tp_capacity s"
    "tp_workers (Shutdown_step t s pc) = tp_workers s \<and> tp_capacity (Shutdown_step t s pc) = tp_capacity s"
    "tp_workers (RunWorker_step b t s pc) = tp_workers s \<and> tp_capacity (RunWorker_step b t s pc) = tp_capacity s" for b t pc
    by (cases pc; simp add: acquire_def release_def split: option.split list.split)+
  with assms show "tp_workers s' = tp_workers s" "tp_capacity s' = tp_capacity s" by (auto elim!: pool_step.cases)
qed

lemma pool_reachable_inv:
  assumes "pool_reachable workers capacity s" and "capacity + workers < 2 ^ 64"
  shows "pool_inv s \<and> tp_workers s = workers"
  using assms(1)
proof (induction rule: pool_reachable.induct)
  case (start s)
  then have s: "s = \<lparr>tp_workers = workers, tp_capacity = capacity, tp_queue = [], tp_queued_tasks = 0, tp_stopping = False,
       tp_mutex = None, tp_threads = (\<lambda>t. if t < workers then Work_try else Outside), aux_accepted = [], aux_run = []\<rparr>"
    by (simp add: new_ThreadPool_def split: if_splits)
  have "pool_inv s" unfolding s
    by (rule pool_invI) (use assms(2) in \<open>auto simp: held_all_def uncounted_all_def counting_def split: if_splits\<close>)
  then show ?case by (simp add: s)
next
  case (step s s')
  then have "pool_inv s'" by (cases rule: pool_step.cases [OF step.hyps(2)])
    (auto simp: Submit_step_inv Shutdown_step_inv RunWorker_step_inv call_inv)
  with step step_keeps_sizes(1) [OF step.hyps(2)] show ?case by simp
qed

section \<open>What the pool promises\<close>

text \<open>C36: every accepted task is run exactly once. However the threads interleave, the tasks run are always among the
  tasks accepted, none of them more than once; and when all workers have returned, as \<^verbatim>\<open>Shutdown\<close> waits for, every
  accepted task has been run, no task is left in the queue and none will be accepted any more.\<close>

theorem pool_runs_every_task:
  assumes "pool_reachable workers capacity s" and "capacity + workers < 2 ^ 64"
  shows "mset (aux_run s) \<subseteq># mset (aux_accepted s) \<and>
    (0 < workers \<and> (\<forall>w < workers. tp_threads s w = Work_returned) \<longrightarrow>
      mset (aux_run s) = mset (aux_accepted s) \<and> tp_queue s = [] \<and> tp_stopping s)"
proof -
  from pool_reachable_inv [OF assms] have inv: "pool_inv s" and n: "tp_workers s = workers" by simp_all
  note p = inv_parts [OF inv]
  have "held_all s = {#}" if "\<forall>w < workers. tp_threads s w = Work_returned" using that n by (simp add: held_all_def)
  then have "mset (aux_run s) = mset (aux_accepted s) \<and> tp_queue s = [] \<and> tp_stopping s"
    if "0 < workers" "\<forall>w < workers. tp_threads s w = Work_returned" using that p(5) p(7) [of 0] by auto
  with p(5) show ?thesis by auto
qed

text \<open>The witness: one worker runs the one task submitted and returns after the shutdown.\<close>

definition demo_pool :: "nat \<Rightarrow> string ThreadPool" where
  "demo_pool n = foldl (\<lambda>s t. if t = 0 then RunWorker_step True 0 s (tp_threads s 0)
       else if t = 1 then Submit_step True 1 s (tp_threads s 1) else Shutdown_step 2 s (tp_threads s 2))
     (case new_ThreadPool 1 4 of Inr s \<Rightarrow> becomes 2 Shutdown_lock (becomes 1 (Submit_lock ''task'') s))
     (take n [1, 1, 1, 1, 2, 2, 0, 0, 0, 0, 0, 0, 0 :: nat])"

lemma demo_pool_reachable: "pool_reachable 1 4 (demo_pool n)"
proof -
  obtain s :: "string ThreadPool" where s: "new_ThreadPool 1 4 = Inr s" "tp_workers s = 1" "tp_threads s 1 = Outside" "tp_threads s 2 = Outside"
    by (simp add: new_ThreadPool_def)
  have "pool_reachable 1 4 (becomes 1 (Submit_lock ''task'') s)"
    by (rule pool_reachable.step [OF pool_reachable.start [OF s(1)]]) (rule call_submit, simp_all add: s [simplified])
  then have "pool_reachable 1 4 (becomes 2 Shutdown_lock (becomes 1 (Submit_lock ''task'') s))"
    by (rule pool_reachable.step) (rule call_shutdown, simp_all add: s [simplified])
  moreover have "pool_reachable 1 4 (foldl (\<lambda>s t. if t = 0 then RunWorker_step True 0 s (tp_threads s 0)
       else if t = 1 then Submit_step True 1 s (tp_threads s 1) else Shutdown_step 2 s (tp_threads s 2)) s' xs)"
    if "pool_reachable 1 4 s'" for s' and xs :: "nat list"
    using that by (induction xs arbitrary: s') (auto intro: pool_reachable.step submit shutdown work)
  ultimately show ?thesis unfolding demo_pool_def s(1) sum.case by blast
qed

theorem pool_runs_every_task_witness:
  "tp_threads (demo_pool 13) 0 = Work_returned \<and> mset (aux_run (demo_pool 13)) = mset (aux_accepted (demo_pool 13)) \<and>
   aux_accepted (demo_pool 13) = [''task'']"
proof -
  have fin: "\<forall>w < 1. tp_threads (demo_pool 13) w = Work_returned" "aux_accepted (demo_pool 13) = [''task'']"
    by (simp_all add: demo_pool_def new_ThreadPool_def acquire_def release_def becomes_def)
  from pool_runs_every_task [OF demo_pool_reachable, of 13] fin show ?thesis by simp
qed

end
