(* ===== verification/Server_Config.thy ===== *)
theory Server_Config
  imports Broker_Access Broker_Turns
begin

text \<open>
  The server program (\<^verbatim>\<open>src/server/main.cc\<close>): reading the configuration file and assembling the broker
  from it, up to the point where the listening socket is opened, and the exit after a stop signal.

  A configuration file is its bytes; \<^verbatim>\<open>std::getline\<close>, \<^verbatim>\<open>std::string::find\<close> and \<^verbatim>\<open>std::stoull\<close> with base 0 are
  written out. Paths are byte strings. The error texts that end in a line number or a key are byte strings too.
  What the operating system contributes to the start, namely the files found on disk, the outcomes of their
  reading and of opening the log file, and the clock, is the record \<open>start_io\<close>.
\<close>

section \<open>Texts\<close>

text \<open>\<^verbatim>\<open>text.find(c)\<close> followed by the two \<^verbatim>\<open>substr\<close> calls around the position found; \<open>None\<close> is \<^verbatim>\<open>npos\<close>.\<close>

definition split_at :: "byte \<Rightarrow> bytes \<Rightarrow> (bytes \<times> bytes) option" where
  "split_at c text =
    (if c \<in> set text then Some (takeWhile (\<lambda>x. x \<noteq> c) text, tl (dropWhile (\<lambda>x. x \<noteq> c) text)) else None)"

lemma split_at_shorter: "split_at c s = Some (a, rest) \<Longrightarrow> length rest < length s"
proof -
  assume "split_at c s = Some (a, rest)"
  then have s: "c \<in> set s" "rest = tl (dropWhile (\<lambda>x. x \<noteq> c) s)" by (auto simp: split_at_def split: if_splits)
  then have "0 < length s" by (cases s) simp_all
  moreover have "length (dropWhile (\<lambda>x. x \<noteq> c) s) \<le> length s" by (rule length_dropWhile_le)
  ultimately show ?thesis using s(2) by (cases "dropWhile (\<lambda>x. x \<noteq> c) s") simp_all
qed

text \<open>The characters space, tab, carriage return and newline.\<close>

definition is_blank :: "byte \<Rightarrow> bool" where
  "is_blank c \<longleftrightarrow> c \<in> {32, 9, 13, 10}"

definition Trim :: "bytes \<Rightarrow> bytes" where
  "Trim v = (let first = dropWhile is_blank v in rev (dropWhile is_blank (rev first)))"

function ParseList :: "bytes \<Rightarrow> bytes list option" where
  "ParseList text =
    (case split_at 44 text of
       None \<Rightarrow> (let item = Trim text in if item = [] then None else Some [item])
     | Some (item, rest) \<Rightarrow>
         if Trim item = [] then None
         else case ParseList rest of None \<Rightarrow> None | Some items \<Rightarrow> Some (Trim item # items))"
  by pat_completeness auto
termination
  by (relation "measure length") (auto dest: split_at_shorter)

declare ParseList.simps [simp del]

section \<open>Numbers\<close>

text \<open>\<^verbatim>\<open>isspace\<close> of the C locale, which \<^verbatim>\<open>strtoull\<close> skips.\<close>

definition is_space :: "byte \<Rightarrow> bool" where
  "is_space c \<longleftrightarrow> c = 32 \<or> 9 \<le> c \<and> c \<le> 13"

definition digit_of :: "byte \<Rightarrow> nat option" where
  "digit_of c =
    (if 48 \<le> c \<and> c \<le> 57 then Some (unat c - 48)
     else if 97 \<le> c \<and> c \<le> 122 then Some (unat c - 87)
     else if 65 \<le> c \<and> c \<le> 90 then Some (unat c - 55)
     else None)"

definition is_digit :: "nat \<Rightarrow> byte \<Rightarrow> bool" where
  "is_digit base c \<longleftrightarrow> (case digit_of c of None \<Rightarrow> False | Some d \<Rightarrow> d < base)"

text \<open>Base 0: a prefix \<^verbatim>\<open>0x\<close> with a hexadecimal digit after it gives base 16, another leading zero base 8.\<close>

definition number_base :: "bytes \<Rightarrow> nat \<times> bytes" where
  "number_base text =
    (if 2 < length text \<and> text ! 0 = 48 \<and> (text ! 1 = 120 \<or> text ! 1 = 88) \<and> is_digit 16 (text ! 2)
     then (16, drop 2 text)
     else if text \<noteq> [] \<and> hd text = 48 then (8, text)
     else (10, text))"

definition digits_value :: "nat \<Rightarrow> bytes \<Rightarrow> nat" where
  "digits_value base ds = foldl (\<lambda>n d. base * n + the (digit_of d)) 0 ds"

text \<open>The value and the number of characters used; \<open>None\<close> when \<^verbatim>\<open>std::stoull\<close> throws.\<close>

definition stoull :: "bytes \<Rightarrow> (u64 \<times> nat) option" where
  "stoull text =
    (let t1 = dropWhile is_space text;
         negative = t1 \<noteq> [] \<and> hd t1 = 45;
         t2 = (if t1 \<noteq> [] \<and> (hd t1 = 45 \<or> hd t1 = 43) then tl t1 else t1)
     in case number_base t2 of
          (base, t3) \<Rightarrow>
            let ds = takeWhile (is_digit base) t3; n = digits_value base ds in
            if ds = [] \<or> 2 ^ 64 \<le> n then None
            else Some (if negative then - of_nat n else of_nat n, length text - length t3 + length ds))"

definition Number :: "bytes \<Rightarrow> u64 option" where
  "Number text =
    (case stoull text of
       None \<Rightarrow> None
     | Some (v, used) \<Rightarrow> if used = length text then Some v else None)"

definition ParseSize :: "bytes \<Rightarrow> u64 option" where
  "ParseSize s =
    (let text = Trim s;
         ending = drop (length text - 2) text;
         (multiplier, digits) =
           (if 2 < length text \<and> (ending = str ''Mi'' \<or> ending = str ''mi'') then (1024 * 1024, take (length text - 2) text)
            else if 1 < length text \<and> (last text = 77 \<or> last text = 109) then (1024 * 1024, butlast text)
            else if 1 < length text \<and> (last text = 71 \<or> last text = 103) then (1024 * 1024 * 1024, butlast text)
            else (1, text))
     in case Number (Trim digits) of
          None \<Rightarrow> None
        | Some number \<Rightarrow> if number \<le> (- 1) div multiplier then Some (number * multiplier) else None)"

section \<open>The configuration\<close>

record Config =
  bind_address :: bytes
  bind_port :: u16
  data_dir :: bytes
  sub_reactor_threads :: u64
  segment_size :: u64
  retention_hours :: u64
  produce_rate_limit :: u64
  topic_produce_quota_bytes :: u64
  log_file :: bytes
  node_id :: bytes
  replica_follower :: bool
  replication_auth_token :: bytes
  client_auth_token :: bytes
  client_auth_permissions :: bytes
  client_auth_produce_topics :: bytes
  client_auth_consume_topics :: bytes
  tls_enabled :: bool
  tls_certificate_file :: bytes
  tls_private_key_file :: bytes
  tls_ca_file :: bytes
  tls_require_client_certificate :: bool
  replica_peers :: "ReplicationPeer list"

definition default_Config :: Config where
  "default_Config =
    \<lparr>bind_address = str ''127.0.0.1'', bind_port = 9092, data_dir = str ''data'', sub_reactor_threads = 0,
     segment_size = 64 * 1024 * 1024, retention_hours = 168, produce_rate_limit = 0, topic_produce_quota_bytes = 0,
     log_file = [], node_id = str ''node-local'', replica_follower = False, replication_auth_token = [],
     client_auth_token = [], client_auth_permissions = [], client_auth_produce_topics = [],
     client_auth_consume_topics = [], tls_enabled = False, tls_certificate_file = [], tls_private_key_file = [],
     tls_ca_file = [], tls_require_client_certificate = False, replica_peers = []\<rparr>"

fun permit :: "ClientAuthorization \<Rightarrow> bytes list \<Rightarrow> ClientAuthorization option" where
  "permit a [] = Some a"
| "permit a (permission # permissions) =
    (if permission = str ''admin'' then permit (a\<lparr>allow_admin := True\<rparr>) permissions
     else if permission = str ''produce'' then permit (a\<lparr>allow_produce := True\<rparr>) permissions
     else if permission = str ''consume'' then permit (a\<lparr>allow_consume := True\<rparr>) permissions
     else None)"

definition topic_list :: "bytes \<Rightarrow> bytes list option" where
  "topic_list text = (if text = [] then Some [] else ParseList text)"

definition BuildClientAuthorization :: "Config \<Rightarrow> bytes + ClientAuthorization" where
  "BuildClientAuthorization c =
    (case (if client_auth_permissions c = [] then Inr default_ClientAuthorization
           else case ParseList (client_auth_permissions c) of
             None \<Rightarrow> Inl (str ''invalid client_auth_permissions'')
           | Some permissions \<Rightarrow>
               (case permit (default_ClientAuthorization\<lparr>allow_admin := False, allow_produce := False, allow_consume := False\<rparr>)
                       permissions of
                  None \<Rightarrow> Inl (str ''invalid client authorization permission'')
                | Some a \<Rightarrow> Inr a)) of
       Inl err \<Rightarrow> Inl err
     | Inr a \<Rightarrow>
         (case topic_list (client_auth_produce_topics c) of
            None \<Rightarrow> Inl (str ''invalid client_auth_produce_topics'')
          | Some produce \<Rightarrow>
              (case topic_list (client_auth_consume_topics c) of
                 None \<Rightarrow> Inl (str ''invalid client_auth_consume_topics'')
               | Some consume \<Rightarrow> Inr (a\<lparr>produce_topics := produce, consume_topics := consume\<rparr>))))"

text \<open>The loop over \<^verbatim>\<open>node-id:host:port;...\<close>, with the peers read so far.\<close>

function parse_peers :: "bool \<Rightarrow> bytes \<Rightarrow> bytes + ReplicationPeer list" where
  "parse_peers follower v =
    (if v = [] then Inr []
     else
       let (item, rest) = (case split_at 59 v of None \<Rightarrow> (v, []) | Some (item, rest) \<Rightarrow> (item, rest)) in
       case split_at 58 item of
         None \<Rightarrow> Inl (str ''invalid replica_peers'')
       | Some (node, address) \<Rightarrow>
           (case split_at 58 address of
              None \<Rightarrow> Inl (str ''invalid replica_peers'')
            | Some (host, port_text) \<Rightarrow>
                (case Number port_text of
                   None \<Rightarrow> Inl (str ''invalid replica port'')
                 | Some port \<Rightarrow>
                     if port > 65535 then Inl (str ''invalid replica port'')
                     else case parse_peers follower rest of
                       Inl err \<Rightarrow> Inl err
                     | Inr peers \<Rightarrow>
                         Inr (\<lparr>peer_node_id = node, peer_host = host, peer_port = ucast port, peer_leader = follower\<rparr> # peers))))"
  by pat_completeness auto
termination
  by (relation "measure (\<lambda>(_, v). length v)") (auto dest: split_at_shorter split: option.splits)

declare parse_peers.simps [simp del]

definition truth :: "bytes \<Rightarrow> bool" where
  "truth v \<longleftrightarrow> v = str ''true'' \<or> v = str ''1''"

text \<open>One \<^verbatim>\<open>key = value\<close> line: the chain of \<^verbatim>\<open>else if\<close> of \<^verbatim>\<open>LoadConfig\<close>. A number that cannot be read makes the
  condition of its branch false, and no later branch has the same key.\<close>

definition config_entry :: "Config \<Rightarrow> bytes \<Rightarrow> bytes \<Rightarrow> bytes + Config" where
  "config_entry c key v =
    (let invalid = Inl (str ''invalid config value for '' @ key);
         number = (\<lambda>parse store. case parse v of None \<Rightarrow> invalid | Some n \<Rightarrow> Inr (store n))
     in if key = str ''bind_address'' then Inr (c\<lparr>bind_address := v\<rparr>)
     else if key = str ''bind_port'' then
       (case Number v of None \<Rightarrow> invalid | Some n \<Rightarrow> if n \<le> 65535 then Inr (c\<lparr>bind_port := ucast n\<rparr>) else invalid)
     else if key = str ''data_dir'' then Inr (c\<lparr>data_dir := v\<rparr>)
     else if key = str ''sub_reactor_threads'' then number Number (\<lambda>n. c\<lparr>sub_reactor_threads := n\<rparr>)
     else if key = str ''segment_size'' then number ParseSize (\<lambda>n. c\<lparr>segment_size := n\<rparr>)
     else if key = str ''retention_hours'' then number Number (\<lambda>n. c\<lparr>retention_hours := n\<rparr>)
     else if key = str ''produce_rate_limit'' then number Number (\<lambda>n. c\<lparr>produce_rate_limit := n\<rparr>)
     else if key = str ''topic_produce_quota_bytes'' then number ParseSize (\<lambda>n. c\<lparr>topic_produce_quota_bytes := n\<rparr>)
     else if key = str ''log_file'' then Inr (c\<lparr>log_file := v\<rparr>)
     else if key = str ''node_id'' then Inr (c\<lparr>node_id := v\<rparr>)
     else if key = str ''replica_role'' then Inr (c\<lparr>replica_follower := (v = str ''follower'')\<rparr>)
     else if key = str ''replication_auth_token'' then Inr (c\<lparr>replication_auth_token := v\<rparr>)
     else if key = str ''client_auth_token'' then Inr (c\<lparr>client_auth_token := v\<rparr>)
     else if key = str ''client_auth_permissions'' then Inr (c\<lparr>client_auth_permissions := v\<rparr>)
     else if key = str ''client_auth_produce_topics'' then Inr (c\<lparr>client_auth_produce_topics := v\<rparr>)
     else if key = str ''client_auth_consume_topics'' then Inr (c\<lparr>client_auth_consume_topics := v\<rparr>)
     else if key = str ''tls_enabled'' then Inr (c\<lparr>tls_enabled := truth v\<rparr>)
     else if key = str ''tls_certificate_file'' then Inr (c\<lparr>tls_certificate_file := v\<rparr>)
     else if key = str ''tls_private_key_file'' then Inr (c\<lparr>tls_private_key_file := v\<rparr>)
     else if key = str ''tls_ca_file'' then Inr (c\<lparr>tls_ca_file := v\<rparr>)
     else if key = str ''tls_require_client_certificate'' then Inr (c\<lparr>tls_require_client_certificate := truth v\<rparr>)
     else if key = str ''replica_peers'' then
       (case parse_peers (replica_follower c) v of
          Inl err \<Rightarrow> Inl err
        | Inr peers \<Rightarrow> Inr (c\<lparr>replica_peers := replica_peers c @ peers\<rparr>))
     else invalid)"

text \<open>\<^verbatim>\<open>std::getline\<close> until the end of the file.\<close>

function getlines :: "bytes \<Rightarrow> bytes list" where
  "getlines text =
    (if text = [] then []
     else case split_at 10 text of None \<Rightarrow> [text] | Some (line, rest) \<Rightarrow> line # getlines rest)"
  by pat_completeness auto
termination
  by (relation "measure length") (auto dest: split_at_shorter)

declare getlines.simps [simp del]

definition config_line :: "Config \<Rightarrow> nat \<Rightarrow> bytes \<Rightarrow> bytes + Config" where
  "config_line c line_number raw =
    (let line = Trim raw in
     if line = [] \<or> hd line = 35 \<or> hd line = 59 then Inr c
     else case split_at 61 line of
       None \<Rightarrow> Inl (str ''invalid config line '' @ to_string line_number)
     | Some (key, v) \<Rightarrow> config_entry c (Trim key) (Trim v))"

fun config_lines :: "Config \<Rightarrow> nat \<Rightarrow> bytes list \<Rightarrow> bytes + Config" where
  "config_lines c line_number [] = Inr c"
| "config_lines c line_number (line # lines) =
    (case config_line c (line_number + 1) line of
       Inl err \<Rightarrow> Inl err
     | Inr c' \<Rightarrow> config_lines c' (line_number + 1) lines)"

text \<open>\<open>content\<close> is the file's content, \<open>None\<close> when it cannot be opened.\<close>

definition LoadConfig :: "bytes \<Rightarrow> bytes option \<Rightarrow> Config \<Rightarrow> bytes + Config" where
  "LoadConfig path content c =
    (case content of
       None \<Rightarrow> Inl (str ''cannot open config: '' @ path)
     | Some text \<Rightarrow>
         (case config_lines c 0 (getlines text) of
            Inl err \<Rightarrow> Inl err
          | Inr c' \<Rightarrow> Inr (c'\<lparr>replica_peers := map (\<lambda>peer. peer\<lparr>peer_leader := replica_follower c'\<rparr>) (replica_peers c')\<rparr>)))"

section \<open>Start of the server\<close>

record TlsOptions =
  tls_opt_enabled :: bool
  tls_opt_certificate_file :: bytes
  tls_opt_private_key_file :: bytes
  tls_opt_ca_file :: bytes
  tls_opt_server_name :: bytes
  tls_opt_verify_peer :: bool
  tls_opt_require_client_certificate :: bool

definition default_TlsOptions :: TlsOptions where
  "default_TlsOptions =
    \<lparr>tls_opt_enabled = False, tls_opt_certificate_file = [], tls_opt_private_key_file = [], tls_opt_ca_file = [],
     tls_opt_server_name = [], tls_opt_verify_peer = True, tls_opt_require_client_certificate = False\<rparr>"

record start_io =
  so_file :: "bytes \<Rightarrow> bytes option"
  so_set_log_file :: "bytes option"
  so_disk :: "(bytes \<times> bytes, part_dir) umap"
  so_topic_files :: store_files
  so_offset_files :: store_files
  so_raft_disk :: "bytes option"
  so_storage :: storage_io
  so_load_topics :: load_io
  so_load_offsets :: load_io
  so_created :: int
  so_configured :: int

datatype startup =
    Usage
  | Failed bytes
  | Listen broker bytes u16 u64 TlsOptions

definition config_path :: "bytes list \<Rightarrow> bytes option" where
  "config_path argv =
    (if length argv = 3 \<and> argv ! 1 = str ''--config'' then Some (argv ! 2)
     else if length argv \<noteq> 1 then None
     else Some (str ''conf/broker.conf''))"

definition storage_config :: "Config \<Rightarrow> StorageConfig" where
  "storage_config c =
     default_StorageConfig\<lparr>cfg_segment_size_bytes := segment_size c, cfg_retention_ms := retention_hours c * 60 * 60 * 1000\<rparr>"

definition tls_options :: "Config \<Rightarrow> TlsOptions" where
  "tls_options c =
     default_TlsOptions\<lparr>tls_opt_enabled := tls_enabled c, tls_opt_certificate_file := tls_certificate_file c,
       tls_opt_private_key_file := tls_private_key_file c, tls_opt_ca_file := tls_ca_file c,
       tls_opt_require_client_certificate := tls_require_client_certificate c\<rparr>"

text \<open>From the checks of the configuration to the arguments of the TCP server. The quorum argument is 0.\<close>

definition start_config :: "start_io \<Rightarrow> Config \<Rightarrow> startup" where
  "start_config io c =
    (if replica_peers c \<noteq> [] \<and> replication_auth_token c = []
     then Failed (str ''replication_auth_token is required when replica_peers is configured'')
     else if client_auth_token c = [] \<and>
        (client_auth_permissions c \<noteq> [] \<or> client_auth_produce_topics c \<noteq> [] \<or> client_auth_consume_topics c \<noteq> [])
     then Failed (str ''client_auth_token is required when client ACL is configured'')
     else if log_file c \<noteq> [] \<and> so_set_log_file io \<noteq> None then Failed (the (so_set_log_file io))
     else case Broker_Open (so_storage io) (so_load_topics io) (so_load_offsets io)
                 (new_Broker (storage_config c) (so_disk io) (so_topic_files io) (so_offset_files io) (so_created io)) of
       (b, Inl err) \<Rightarrow> Failed (str err)
     | (b, Inr _) \<Rightarrow>
         let b1 = ConfigureReplication b (node_id c) (replica_peers c) 0 (replica_follower c) (replication_auth_token c)
                    (so_raft_disk io) in
         (case BuildClientAuthorization c of
            Inl err \<Rightarrow> Failed err
          | Inr authorization \<Rightarrow>
              let b2 = ConfigureClientAuth b1 (client_auth_token c) authorization;
                  b3 = ConfigureTopicQuota (ConfigureRateLimit b2 (produce_rate_limit c) (so_configured io))
                         (topic_produce_quota_bytes c)
              in Listen b3 (bind_address c) (bind_port c) (sub_reactor_threads c) (tls_options c)))"

definition main :: "start_io \<Rightarrow> bytes list \<Rightarrow> startup" where
  "main io argv =
    (case config_path argv of
       None \<Rightarrow> Usage
     | Some path \<Rightarrow>
         (case LoadConfig path (so_file io path) default_Config of
            Inl err \<Rightarrow> Failed err
          | Inr c \<Rightarrow> start_config io c))"

text \<open>After a stop signal: the server and the replication thread have been stopped, and the exit code tells whether the
  log could be flushed.\<close>

definition exit_code :: "broker_io \<Rightarrow> broker \<Rightarrow> nat" where
  "exit_code io b = (case Broker_Flush io b of Inl err \<Rightarrow> 1 | Inr _ \<Rightarrow> 0)"

section \<open>Reading texts\<close>

lemma unat_byte_of_char: "unat (of_char c :: byte) = of_char c"
proof -
  have "(of_char c :: nat) < 256" by (metis of_char_mod_256 mod_less_divisor zero_less_numeral)
  then have "unat (of_nat (of_char c) :: byte) = of_char c" by (simp add: unat_of_nat_fits)
  then show ?thesis by (simp only: of_nat_of_char)
qed

lemma str_inject: "str a = str b \<longleftrightarrow> a = b"
proof -
  have "inj (of_char :: char \<Rightarrow> byte)" by (rule injI) (metis unat_byte_of_char of_char_eq_iff)
  then show ?thesis by (simp add: str_def inj_map_eq_map)
qed

lemma split_at_append: "c \<notin> set a \<Longrightarrow> split_at c (a @ c # rest) = Some (a, rest)"
  by (induction a) (auto simp: split_at_def)

lemma split_at_absent: "c \<notin> set s \<Longrightarrow> split_at c s = None"
  by (simp add: split_at_def)

lemma dropWhile_hd: "dropWhile P s = s \<longleftrightarrow> s = [] \<or> \<not> P (hd s)"
  by (cases s) (simp_all, metis dropWhile_eq_self_iff dropWhile.simps(2) list.sel(1) list.simps(3))

lemma Trim_trimmed: "s \<noteq> [] \<Longrightarrow> \<not> is_blank (hd s) \<Longrightarrow> \<not> is_blank (last s) \<Longrightarrow> Trim s = s"
  by (simp add: Trim_def Let_def dropWhile_hd [THEN iffD2] hd_rev)

lemma Trim_ends: "Trim s = s \<Longrightarrow> s = [] \<or> \<not> is_blank (hd s) \<and> \<not> is_blank (last s)"
proof (cases "s = []")
  case False
  assume t: "Trim s = s"
  let ?first = "dropWhile is_blank s"
  have "length ?first \<le> length s" "length (rev (dropWhile is_blank (rev ?first))) \<le> length ?first"
    using length_dropWhile_le [of is_blank "rev ?first"] by (simp_all add: length_dropWhile_le)
  with t have len: "length (dropWhile is_blank s) = length s" by (simp add: Trim_def Let_def)
  then have f: "?first = s" by (metis append_eq_append_conv append_Nil takeWhile_dropWhile_id length_append add_cancel_left_left list.size(3) length_0_conv)
  with t have "dropWhile is_blank (rev s) = rev s" by (simp add: Trim_def Let_def) (metis rev_rev_ident)
  with f False show ?thesis by (simp add: dropWhile_hd hd_rev)
qed simp

lemma Trim_Nil [simp]: "Trim [] = []"
  by (simp add: Trim_def)

section \<open>Reading numbers\<close>

lemma to_string_nonempty [simp]: "to_string n \<noteq> []"
  by (simp add: to_string.simps [of n])

lemma to_string_hd: "0 < n \<Longrightarrow> hd (to_string n) \<noteq> 48"
proof (induction n rule: to_string.induct)
  case (1 n)
  show ?case
  proof (cases "n < 10")
    case True
    have "(48 + of_nat n :: byte) \<noteq> 48"
    proof
      assume "(48 + of_nat n :: byte) = 48"
      then have "unat (48 + of_nat n :: byte) = unat (48 :: byte)" by (rule arg_cong)
      then show False using True 1(2) by (simp add: unat_digit)
    qed
    with True show ?thesis by (simp add: to_string.simps [of n])
  next
    case False
    with 1 show ?thesis by (simp add: to_string.simps [of n])
  qed
qed

lemma to_string_decimal: "d \<in> set (to_string n) \<Longrightarrow> digit_of d = Some (unat d - 48) \<and> unat d - 48 < 10"
  using to_string_digits [of d n] by (auto simp: digit_of_def word_le_nat_alt)

lemma to_string_all_digits: "takeWhile (is_digit 10) (to_string n) = to_string n"
  by (simp add: takeWhile_eq_all_conv is_digit_def to_string_decimal)

lemma digits_value_of_digits:
  "\<forall>d \<in> set ds. digit_of d = Some (unat d - 48) \<Longrightarrow> digits_value 10 ds = of_digits ds"
  unfolding digits_value_def of_digits_def by (rule foldl_cong) simp_all

lemma to_string_ends: "\<not> is_blank (hd (to_string n))" "\<not> is_blank (last (to_string n))" "\<not> is_space (hd (to_string n))"
    "hd (to_string n) \<noteq> 45" "hd (to_string n) \<noteq> 43" "x > 57 \<Longrightarrow> last (to_string n) \<noteq> x"
proof -
  have h: "48 \<le> hd (to_string n)" "hd (to_string n) \<le> 57" "48 \<le> last (to_string n)" "last (to_string n) \<le> 57"
    using to_string_digits [of "hd (to_string n)" n] to_string_digits [of "last (to_string n)" n] by simp_all
  then show "\<not> is_blank (hd (to_string n))" "\<not> is_blank (last (to_string n))" "\<not> is_space (hd (to_string n))"
    "hd (to_string n) \<noteq> 45" "hd (to_string n) \<noteq> 43" "x > 57 \<Longrightarrow> last (to_string n) \<noteq> x"
    by (auto simp: is_blank_def is_space_def word_le_nat_alt word_less_nat_alt)
qed

lemma Trim_to_string [simp]: "Trim (to_string n) = to_string n"
  by (rule Trim_trimmed) (simp_all add: to_string_ends)

lemma stoull_to_string:
  assumes "n < 2 ^ 64"
  shows "stoull (to_string n) = Some (of_nat n, length (to_string n))"
proof -
  have drop: "dropWhile is_space (to_string n) = to_string n" by (simp add: dropWhile_hd to_string_ends)
  show ?thesis
  proof (cases "n = 0")
    case True
    then show ?thesis
      by (simp add: stoull_def drop [simplified True] to_string.simps [of 0] number_base_def Let_def is_digit_def digit_of_def digits_value_def is_space_def)
  next
    case False
    then have base: "number_base (to_string n) = (10, to_string n)"
      using to_string_hd [of n] by (auto simp: number_base_def hd_conv_nth)
    show ?thesis using assms
      by (simp add: stoull_def drop base Let_def to_string_ends to_string_all_digits digits_value_of_digits
          to_string_decimal of_digits_to_string)
  qed
qed

lemma Number_to_string [simp]: "Number (to_string (unat (v :: u64))) = Some v"
proof -
  have "unat v < 2 ^ 64" using unat_bound [of v] by simp
  from stoull_to_string [OF this] show ?thesis by (simp add: Number_def)
qed

lemma ParseSize_to_string [simp]: "ParseSize (to_string (unat v)) = Some v"
proof -
  let ?t = "to_string (unat v)"
  have "drop (length ?t - 2) ?t \<noteq> str ''Mi''" "drop (length ?t - 2) ?t \<noteq> str ''mi''" if "2 < length ?t"
  proof -
    have "last (drop (length ?t - 2) ?t) = last ?t" by (rule last_drop) (use that in simp)
    then show "drop (length ?t - 2) ?t \<noteq> str ''Mi''" "drop (length ?t - 2) ?t \<noteq> str ''mi''"
      using to_string_ends(6) [of 105 "unat v"] by (auto simp del: last_drop simp: str_def of_char_def)
  qed
  then show ?thesis
    by (auto simp: ParseSize_def Let_def to_string_ends(6))
qed

section \<open>Writing a configuration\<close>

text \<open>The text of a configuration: one line for each key.\<close>

definition peer_text :: "ReplicationPeer \<Rightarrow> bytes" where
  "peer_text p = peer_node_id p @ 58 # peer_host p @ 58 # to_string (unat (peer_port p)) @ [59]"

definition truth_text :: "bool \<Rightarrow> bytes" where
  "truth_text b = (if b then str ''true'' else str ''false'')"

definition config_pairs :: "Config \<Rightarrow> (string \<times> bytes) list" where
  "config_pairs c =
    [(''bind_address'', bind_address c), (''bind_port'', to_string (unat (bind_port c))), (''data_dir'', data_dir c),
     (''sub_reactor_threads'', to_string (unat (sub_reactor_threads c))), (''segment_size'', to_string (unat (segment_size c))),
     (''retention_hours'', to_string (unat (retention_hours c))),
     (''produce_rate_limit'', to_string (unat (produce_rate_limit c))),
     (''topic_produce_quota_bytes'', to_string (unat (topic_produce_quota_bytes c))),
     (''log_file'', log_file c), (''node_id'', node_id c),
     (''replica_role'', if replica_follower c then str ''follower'' else str ''leader''),
     (''replication_auth_token'', replication_auth_token c), (''client_auth_token'', client_auth_token c),
     (''client_auth_permissions'', client_auth_permissions c), (''client_auth_produce_topics'', client_auth_produce_topics c),
     (''client_auth_consume_topics'', client_auth_consume_topics c), (''tls_enabled'', truth_text (tls_enabled c)),
     (''tls_certificate_file'', tls_certificate_file c), (''tls_private_key_file'', tls_private_key_file c),
     (''tls_ca_file'', tls_ca_file c), (''tls_require_client_certificate'', truth_text (tls_require_client_certificate c)),
     (''replica_peers'', concat (map peer_text (replica_peers c)))]"

definition config_text :: "Config \<Rightarrow> bytes" where
  "config_text c = concat (map (\<lambda>(key, v). str key @ 61 # v @ [10]) (config_pairs c))"

text \<open>A value that a line can hold: no newline, and no blanks at its ends. The host and the node of a peer must not
  contain the separators of the list.\<close>

definition plain_value :: "bytes \<Rightarrow> bool" where
  "plain_value v \<longleftrightarrow> 10 \<notin> set v \<and> Trim v = v"

definition plain_peer :: "bool \<Rightarrow> ReplicationPeer \<Rightarrow> bool" where
  "plain_peer follower p \<longleftrightarrow> {10, 58, 59} \<inter> (set (peer_node_id p) \<union> set (peer_host p)) = {} \<and>
     (peer_node_id p = [] \<or> \<not> is_blank (hd (peer_node_id p))) \<and> peer_leader p = follower"

definition plain_config :: "Config \<Rightarrow> bool" where
  "plain_config c \<longleftrightarrow>
     list_all plain_value [bind_address c, data_dir c, log_file c, node_id c, replication_auth_token c, client_auth_token c,
       client_auth_permissions c, client_auth_produce_topics c, client_auth_consume_topics c, tls_certificate_file c,
       tls_private_key_file c, tls_ca_file c] \<and>
     list_all (plain_peer (replica_follower c)) (replica_peers c)"

fun config_entries :: "Config \<Rightarrow> (string \<times> bytes) list \<Rightarrow> bytes + Config" where
  "config_entries c [] = Inr c"
| "config_entries c ((key, v) # pairs) =
    (case config_entry c (str key) v of Inl err \<Rightarrow> Inl err | Inr c' \<Rightarrow> config_entries c' pairs)"

lemma getlines_concat:
  "\<forall>line \<in> set lines. 10 \<notin> set line \<Longrightarrow> getlines (concat (map (\<lambda>line. line @ [10]) lines)) = lines"
  by (induction lines) (simp_all add: getlines.simps [of "[]"] getlines.simps [of "_ @ _"] split_at_append)

definition plain_key :: "bytes \<Rightarrow> bool" where
  "plain_key k \<longleftrightarrow> k \<noteq> [] \<and> Trim k = k \<and> 61 \<notin> set k \<and> 10 \<notin> set k \<and> hd k \<noteq> 35 \<and> hd k \<noteq> 59"

lemma config_line_pair:
  assumes "plain_key k" and "plain_value v"
  shows "config_line c n (k @ 61 # v) = config_entry c k v"
proof -
  from Trim_ends [of k] Trim_ends [of v] assms
  have k: "k \<noteq> []" "\<not> is_blank (hd k)" and v: "v = [] \<or> \<not> is_blank (last v)"
    by (auto simp: plain_key_def plain_value_def)
  have "Trim (k @ 61 # v) = k @ 61 # v" by (rule Trim_trimmed) (use k v in \<open>auto simp: is_blank_def\<close>)
  with assms show ?thesis by (simp add: config_line_def Let_def split_at_append plain_key_def plain_value_def)
qed

lemma config_lines_pairs:
  "\<forall>(key, v) \<in> set pairs. plain_key (str key) \<and> plain_value v \<Longrightarrow>
   config_lines c n (map (\<lambda>(key, v). str key @ 61 # v) pairs) = config_entries c pairs"
  by (induction pairs arbitrary: c n) (auto simp: config_line_pair split: sum.splits)

lemma LoadConfig_pairs:
  assumes "\<forall>(key, v) \<in> set pairs. plain_key (str key) \<and> plain_value v"
    and "config_entries c pairs = Inr c'" and "\<forall>p \<in> set (replica_peers c'). peer_leader p = replica_follower c'"
  shows "LoadConfig path (Some (concat (map (\<lambda>(key, v). str key @ 61 # v @ [10]) pairs))) c = Inr c'"
proof -
  have "concat (map (\<lambda>(key, v). str key @ 61 # v @ [10]) pairs) =
      concat (map (\<lambda>line. line @ [10]) (map (\<lambda>(key, v). str key @ 61 # v) pairs))"
    by (induction pairs) auto
  moreover have "\<forall>line \<in> set (map (\<lambda>(key, v). str key @ 61 # v) pairs). 10 \<notin> set line"
    using assms(1) by (auto simp: plain_key_def plain_value_def)
  ultimately have "getlines (concat (map (\<lambda>(key, v). str key @ 61 # v @ [10]) pairs)) = map (\<lambda>(key, v). str key @ 61 # v) pairs"
    by (simp only: getlines_concat)
  moreover have "map (\<lambda>peer. peer\<lparr>peer_leader := replica_follower c'\<rparr>) (replica_peers c') = replica_peers c'"
    using assms(3) by (intro map_idI) auto
  ultimately show ?thesis using assms(1,2) by (simp add: LoadConfig_def config_lines_pairs)
qed

lemma parse_peers_text:
  "list_all (plain_peer follower) ps \<Longrightarrow> parse_peers follower (concat (map peer_text ps)) = Inr ps"
proof (induction ps)
  case Nil
  then show ?case by (simp add: parse_peers.simps)
next
  case (Cons p ps)
  let ?port = "to_string (unat (peer_port p))"
  let ?item = "peer_node_id p @ 58 # peer_host p @ 58 # ?port"
  have no: "59 \<notin> set ?item" using Cons.prems to_string_no_byte [of 59] by (auto simp: plain_peer_def)
  have split: "split_at 59 (?item @ 59 # concat (map peer_text ps)) = Some (?item, concat (map peer_text ps))"
    by (rule split_at_append [OF no])
  have u: "unat (ucast (peer_port p) :: u64) = unat (peer_port p)" using unat_bound [of "peer_port p"] by (intro unat_ucast_fits) simp
  then have same: "ucast (ucast (peer_port p) :: u64) = peer_port p"
    using unat_bound [of "peer_port p"] by (simp only: word_unat_eq_iff unat_ucast_fits)
  from u have port: "Number ?port = Some (ucast (peer_port p))" "\<not> (ucast (peer_port p) :: u64) > 65535"
    using Number_to_string [of "ucast (peer_port p)"] unat_bound [of "peer_port p"]
    by (simp_all add: word_less_nat_alt)
  have "split_at 58 ?item = Some (peer_node_id p, peer_host p @ 58 # ?port)"
       "split_at 58 (peer_host p @ 58 # ?port) = Some (peer_host p, ?port)"
    by (rule split_at_append; use Cons.prems in \<open>auto simp: plain_peer_def\<close>)+
  moreover have "\<lparr>peer_node_id = peer_node_id p, peer_host = peer_host p,
      peer_port = ucast (ucast (peer_port p) :: u64), peer_leader = follower\<rparr> = p"
    using Cons.prems same by (cases p) (simp add: plain_peer_def)
  moreover have "concat (map peer_text (p # ps)) = ?item @ 59 # concat (map peer_text ps)" by (simp add: peer_text_def)
  moreover have "parse_peers follower (concat (map peer_text ps)) = Inr ps" using Cons by simp
  ultimately show ?case using split port by (subst parse_peers.simps) simp
qed


lemma config_entry_text:
  "config_entry c (str ''bind_address'') v = Inr (c\<lparr>bind_address := v\<rparr>)"
  "config_entry c (str ''data_dir'') v = Inr (c\<lparr>data_dir := v\<rparr>)"
  "config_entry c (str ''log_file'') v = Inr (c\<lparr>log_file := v\<rparr>)"
  "config_entry c (str ''node_id'') v = Inr (c\<lparr>node_id := v\<rparr>)"
  "config_entry c (str ''replication_auth_token'') v = Inr (c\<lparr>replication_auth_token := v\<rparr>)"
  "config_entry c (str ''client_auth_token'') v = Inr (c\<lparr>client_auth_token := v\<rparr>)"
  "config_entry c (str ''client_auth_permissions'') v = Inr (c\<lparr>client_auth_permissions := v\<rparr>)"
  "config_entry c (str ''client_auth_produce_topics'') v = Inr (c\<lparr>client_auth_produce_topics := v\<rparr>)"
  "config_entry c (str ''client_auth_consume_topics'') v = Inr (c\<lparr>client_auth_consume_topics := v\<rparr>)"
  "config_entry c (str ''tls_certificate_file'') v = Inr (c\<lparr>tls_certificate_file := v\<rparr>)"
  "config_entry c (str ''tls_private_key_file'') v = Inr (c\<lparr>tls_private_key_file := v\<rparr>)"
  "config_entry c (str ''tls_ca_file'') v = Inr (c\<lparr>tls_ca_file := v\<rparr>)"
  by (simp_all add: config_entry_def Let_def str_inject)

lemma config_entry_other:
  "config_entry c (str ''bind_port'') (to_string (unat port)) = Inr (c\<lparr>bind_port := port\<rparr>)"
  "config_entry c (str ''sub_reactor_threads'') (to_string (unat n)) = Inr (c\<lparr>sub_reactor_threads := n\<rparr>)"
  "config_entry c (str ''segment_size'') (to_string (unat n)) = Inr (c\<lparr>segment_size := n\<rparr>)"
  "config_entry c (str ''retention_hours'') (to_string (unat n)) = Inr (c\<lparr>retention_hours := n\<rparr>)"
  "config_entry c (str ''produce_rate_limit'') (to_string (unat n)) = Inr (c\<lparr>produce_rate_limit := n\<rparr>)"
  "config_entry c (str ''topic_produce_quota_bytes'') (to_string (unat n)) = Inr (c\<lparr>topic_produce_quota_bytes := n\<rparr>)"
  "config_entry c (str ''replica_role'') v = Inr (c\<lparr>replica_follower := (v = str ''follower'')\<rparr>)"
  "config_entry c (str ''tls_enabled'') v = Inr (c\<lparr>tls_enabled := truth v\<rparr>)"
  "config_entry c (str ''tls_require_client_certificate'') v = Inr (c\<lparr>tls_require_client_certificate := truth v\<rparr>)"
  "config_entry c (str ''replica_peers'') v =
     (case parse_peers (replica_follower c) v of
        Inl err \<Rightarrow> Inl err | Inr peers \<Rightarrow> Inr (c\<lparr>replica_peers := replica_peers c @ peers\<rparr>))"
proof -
  have u: "unat (ucast port :: u64) = unat port" "unat port < 65536"
    using unat_bound [of port] by (simp_all add: unat_ucast_fits)
  then have "ucast (ucast port :: u64) = port" using unat_bound [of port] by (simp only: word_unat_eq_iff unat_ucast_fits)
  then show "config_entry c (str ''bind_port'') (to_string (unat port)) = Inr (c\<lparr>bind_port := port\<rparr>)"
    using Number_to_string [of "ucast port"] u by (simp add: config_entry_def Let_def str_inject word_le_nat_alt)
qed (simp_all add: config_entry_def Let_def str_inject)

lemma truth_text [simp]: "truth (truth_text b) = b"
  by (simp add: truth_def truth_text_def str_inject)

lemma plain_values:
  "plain_value (to_string n)" "plain_value (truth_text b)" "plain_value (str ''follower'')" "plain_value (str ''leader'')"
proof -
  show "plain_value (to_string n)" using to_string_no_byte [of 10 n] by (simp add: plain_value_def)
qed (simp_all add: plain_value_def truth_text_def Trim_def is_blank_def str_def of_char_def)

lemma plain_value_peers:
  assumes "list_all (plain_peer follower) ps"
  shows "plain_value (concat (map peer_text ps))"
proof (cases "ps = []")
  case False
  then obtain p ps' where ps: "ps = p # ps'" by (cases ps) simp_all
  have end_text: "last (peer_text q) = 59" "peer_text q \<noteq> []" for q by (simp_all add: peer_text_def)
  then have ne: "concat (map peer_text ps) \<noteq> []" by (simp add: ps)
  have l: "\<not> is_blank (last (concat (map peer_text ps)))" using False
    by (cases ps rule: rev_cases) (simp_all add: end_text is_blank_def)
  have "hd (concat (map peer_text ps)) = (if peer_node_id p = [] then 58 else hd (peer_node_id p))"
    by (simp add: ps peer_text_def)
  moreover have "\<not> is_blank (if peer_node_id p = [] then 58 else hd (peer_node_id p))"
    using assms ps by (auto simp: plain_peer_def is_blank_def)
  ultimately have h: "\<not> is_blank (hd (concat (map peer_text ps)))" by simp
  have "10 \<notin> set (peer_text q)" if "plain_peer follower q" for q
    using that to_string_no_byte [of 10] by (auto simp: peer_text_def plain_peer_def)
  then have "10 \<notin> set (concat (map peer_text ps))" using assms by (auto simp: list_all_iff)
  with Trim_trimmed [OF ne h l] show ?thesis unfolding plain_value_def by blast
qed (simp add: plain_value_def)

lemma plain_key_letters:
  assumes "k \<noteq> []" and "list_all (\<lambda>c. 61 < (of_char c :: nat)) k"
  shows "plain_key (str k)"
proof -
  have big: "61 < x" if "x \<in> set (str k)" for x
    using that assms(2) by (auto simp: str_def list_all_iff word_less_nat_alt unat_byte_of_char)
  have ne: "str k \<noteq> []" using assms(1) by (simp add: str_def)
  then have "61 < hd (str k)" "61 < last (str k)" by (simp_all add: big)
  with ne show ?thesis using big [of 61] big [of 10]
    by (auto simp: plain_key_def is_blank_def intro!: Trim_trimmed)
qed

lemma plain_keys: "\<forall>(key, v) \<in> set (config_pairs c). plain_key (str key)"
  by (simp add: config_pairs_def plain_key_letters)

lemma plain_config_pairs: "plain_config c \<Longrightarrow> \<forall>(key, v) \<in> set (config_pairs c). plain_value v"
  using plain_value_peers [of "replica_follower c" "replica_peers c"]
  by (simp add: plain_config_def config_pairs_def plain_values)

lemma config_entries_pairs:
  assumes "plain_config c"
  shows "config_entries default_Config (config_pairs c) = Inr c"
proof -
  have "parse_peers (replica_follower c) (concat (map peer_text (replica_peers c))) = Inr (replica_peers c)"
    using assms by (simp add: plain_config_def parse_peers_text)
  then show ?thesis
    by (cases "replica_follower c")
      (simp_all add: config_pairs_def config_entry_text config_entry_other str_inject default_Config_def)
qed

lemma LoadConfig_text:
  assumes "plain_config c"
  shows "LoadConfig path (Some (config_text c)) default_Config = Inr c"
  unfolding config_text_def
  using assms plain_keys plain_config_pairs [OF assms]
  by (intro LoadConfig_pairs config_entries_pairs) (auto simp: plain_config_def plain_peer_def list_all_iff)

text \<open>C28: Every configuration whose texts fit on a line can be written down, and reading the file gives exactly
  this configuration back: all numbers of 64 bits, the empty texts, both roles and any list of peers.\<close>

theorem configuration_round_trip:
  assumes "plain_config c"
  shows "LoadConfig path (Some (config_text c)) default_Config = Inr c"
  using assms by (rule LoadConfig_text)

definition demo_config :: Config where
  "demo_config = default_Config\<lparr>retention_hours := 24, replica_follower := True, replication_auth_token := [7],
     client_auth_token := [5], client_auth_permissions := str ''produce, admin'', client_auth_produce_topics := [116],
     replica_peers := [\<lparr>peer_node_id = [97], peer_host = [98], peer_port = 9093, peer_leader = True\<rparr>]\<rparr>"

lemma demo_config_plain: "plain_config demo_config"
  by (simp add: plain_config_def demo_config_def default_Config_def plain_value_def plain_peer_def Trim_def is_blank_def str_def of_char_def)

theorem configuration_round_trip_witness:
  "plain_config demo_config \<and> LoadConfig [99] (Some (config_text demo_config)) default_Config = Inr demo_config"
  using configuration_round_trip [OF demo_config_plain] demo_config_plain by simp

section \<open>What a configuration permits\<close>

text \<open>\<open>x\<close> stands in the list between commas.\<close>

definition listed :: "bytes \<Rightarrow> bytes \<Rightarrow> bool" where
  "listed x v \<longleftrightarrow> (\<exists>before middle after. v = before @ middle @ after \<and> (before = [] \<or> last before = 44) \<and>
     (after = [] \<or> hd after = 44) \<and> 44 \<notin> set middle \<and> Trim middle = x)"

definition granted :: "Config \<Rightarrow> string \<Rightarrow> bool" where
  "granted c permission \<longleftrightarrow> client_auth_permissions c = [] \<or> listed (str permission) (client_auth_permissions c)"

fun permitted :: "Config \<Rightarrow> Command \<Rightarrow> bytes \<Rightarrow> bool" where
  "permitted c kHeartbeat topic \<longleftrightarrow> True"
| "permitted c command topic \<longleftrightarrow>
     (if command \<in> {kCreateTopic, kDeleteTopic, kListTopic, kMetrics} then granted c ''admin''
      else if command \<in> {kProduce, kProduceBatch}
      then granted c ''produce'' \<and> (client_auth_produce_topics c = [] \<or> listed topic (client_auth_produce_topics c))
      else command \<in> {kFetch, kCommitOffset, kJoinGroup, kSyncGroup, kOffsetFetch} \<and> granted c ''consume'' \<and>
        (topic = [] \<or> client_auth_consume_topics c = [] \<or> listed topic (client_auth_consume_topics c)))"

lemma listed_single: "44 \<notin> set v \<Longrightarrow> listed x v \<longleftrightarrow> Trim v = x"
proof
  assume "44 \<notin> set v" "listed x v"
  then obtain before middle after where v: "v = before @ middle @ after" "before = [] \<or> last before = 44"
      "after = [] \<or> hd after = 44" "Trim middle = x" by (auto simp: listed_def)
  with \<open>44 \<notin> set v\<close> have "before = []" "after = []"
    by (metis UnI1 last_in_set set_append) (metis UnI2 \<open>44 \<notin> set v\<close> hd_in_set set_append v(1,3))
  with v show "Trim v = x" by simp
next
  assume "44 \<notin> set v" "Trim v = x"
  then show "listed x v" unfolding listed_def by (intro exI [of _ "[]"] exI [of _ v]) simp
qed

lemma listed_first: "44 \<notin> set item \<Longrightarrow> listed x (item @ 44 # rest) \<longleftrightarrow> Trim item = x \<or> listed x rest"
proof
  assume item: "44 \<notin> set item" and "listed x (item @ 44 # rest)"
  then obtain before middle after where v: "item @ 44 # rest = before @ middle @ after" "before = [] \<or> last before = 44"
      "after = [] \<or> hd after = 44" "44 \<notin> set middle" "Trim middle = x" by (auto simp: listed_def)
  show "Trim item = x \<or> listed x rest"
  proof (cases "before = []")
    case True
    then have "after \<noteq> []" using v by (metis append_Nil append_Nil2 in_set_conv_decomp)
    then obtain after' where "after = 44 # after'" using v(3) by (cases after) auto
    with v(1) True have "item @ 44 # rest = middle @ 44 # after'" by simp
    with split_at_append [OF item, of rest] split_at_append [OF v(4), of after'] have "middle = item"
      by (metis option.inject prod.inject)
    with v show ?thesis by simp
  next
    case False
    with v(2) obtain before' where b: "before = before' @ [44]" by (metis append_butlast_last_id)
    with v(1) have "item @ 44 # rest = before' @ 44 # middle @ after" by simp
    with item consider "before' = item" "rest = middle @ after" | us where "before' = item @ 44 # us"
      by (auto simp: append_eq_append_conv2 append_eq_Cons_conv Cons_eq_append_conv)
    then show ?thesis
    proof cases
      case 1
      then have "listed x rest" unfolding listed_def using v
        by (intro exI [of _ "[]"] exI [of _ middle] exI [of _ after]) simp
      then show ?thesis ..
    next
      case 2
      with v(1) b have "rest = (us @ [44]) @ middle @ after" by simp
      with v have "listed x rest" unfolding listed_def by (metis last_snoc)
      then show ?thesis ..
    qed
  qed
next
  assume item: "44 \<notin> set item" and found: "Trim item = x \<or> listed x rest"
  from found show "listed x (item @ 44 # rest)"
  proof
    assume "Trim item = x"
    then show ?thesis using item unfolding listed_def by (intro exI [of _ "[]"] exI [of _ item] exI [of _ "44 # rest"]) simp
  next
    assume "listed x rest"
    then obtain before middle after where v: "rest = before @ middle @ after" "before = [] \<or> last before = 44"
      "after = [] \<or> hd after = 44" "44 \<notin> set middle" "Trim middle = x" by (auto simp: listed_def)
    then show ?thesis unfolding listed_def
      by (intro exI [of _ "item @ 44 # before"] exI [of _ middle] exI [of _ after]) auto
  qed
qed

lemma split_at_Some: "split_at c s = Some (a, rest) \<longleftrightarrow> s = a @ c # rest \<and> c \<notin> set a"
proof
  assume sp: "split_at c s = Some (a, rest)"
  then have c: "c \<in> set s" by (simp add: split_at_def split: if_splits)
  then obtain u w where s: "s = u @ c # w" "c \<notin> set u" by (meson split_list_first)
  with sp show "s = a @ c # rest \<and> c \<notin> set a" by (simp add: split_at_append)
qed (simp add: split_at_append)

lemma ParseList_listed:
  "ParseList v = Some items \<Longrightarrow> items \<noteq> [] \<and> (\<forall>x. x \<in> set items \<longleftrightarrow> listed x v)"
proof (induction v arbitrary: items rule: ParseList.induct)
  case (1 v)
  show ?case
  proof (cases "split_at 44 v")
    case None
    then have "44 \<notin> set v" by (simp add: split_at_def split: if_splits)
    then show ?thesis using "1.prems" None
      by (subst (asm) ParseList.simps) (auto simp: listed_single Let_def split: if_splits)
  next
    case (Some pair)
    then obtain item rest where sp: "split_at 44 v = Some (item, rest)" by (cases pair) simp
    then obtain items' where "ParseList rest = Some items'" "items = Trim item # items'" "Trim item \<noteq> []"
      using "1.prems" by (subst (asm) ParseList.simps) (auto split: if_splits option.splits)
    with "1.IH" [OF sp refl] sp show ?thesis by (auto simp: split_at_Some listed_first)
  qed
qed

lemma permit_granted:
  assumes "permit a permissions = Some a'"
  shows "allow_admin a' \<longleftrightarrow> allow_admin a \<or> str ''admin'' \<in> set permissions"
    and "allow_produce a' \<longleftrightarrow> allow_produce a \<or> str ''produce'' \<in> set permissions"
    and "allow_consume a' \<longleftrightarrow> allow_consume a \<or> str ''consume'' \<in> set permissions"
    and "produce_topics a' = produce_topics a" and "consume_topics a' = consume_topics a"
proof -
  have "(allow_admin a' \<longleftrightarrow> allow_admin a \<or> str ''admin'' \<in> set permissions) \<and>
    (allow_produce a' \<longleftrightarrow> allow_produce a \<or> str ''produce'' \<in> set permissions) \<and>
    (allow_consume a' \<longleftrightarrow> allow_consume a \<or> str ''consume'' \<in> set permissions) \<and>
    produce_topics a' = produce_topics a \<and> consume_topics a' = consume_topics a"
    using assms
    by (induction a permissions rule: permit.induct) (auto simp: str_inject split: if_splits)
  then show "allow_admin a' \<longleftrightarrow> allow_admin a \<or> str ''admin'' \<in> set permissions"
    and "allow_produce a' \<longleftrightarrow> allow_produce a \<or> str ''produce'' \<in> set permissions"
    and "allow_consume a' \<longleftrightarrow> allow_consume a \<or> str ''consume'' \<in> set permissions"
    and "produce_topics a' = produce_topics a" and "consume_topics a' = consume_topics a" by blast+
qed

lemma topic_list_allowed:
  "topic_list v = Some topics \<Longrightarrow> TopicAllowed topics topic \<longleftrightarrow> v = [] \<or> listed topic v"
  using ParseList_listed [of v topics] by (auto simp: topic_list_def TopicAllowed_def split: if_splits)

lemma BuildClientAuthorization_granted:
  assumes "BuildClientAuthorization c = Inr a"
  shows "allow_admin a = granted c ''admin''" and "allow_produce a = granted c ''produce''"
    and "allow_consume a = granted c ''consume''"
proof -
  have "allow_admin a = granted c ''admin'' \<and> allow_produce a = granted c ''produce'' \<and> allow_consume a = granted c ''consume''"
  proof (cases "client_auth_permissions c = []")
    case True
    then show ?thesis using assms
      by (auto simp: BuildClientAuthorization_def granted_def default_ClientAuthorization_def split: option.splits)
  next
    case False
    let ?none = "default_ClientAuthorization\<lparr>allow_admin := False, allow_produce := False, allow_consume := False\<rparr>"
    from False assms obtain permissions a' where "ParseList (client_auth_permissions c) = Some permissions"
        "permit ?none permissions = Some a'" and "allow_admin a = allow_admin a'" "allow_produce a = allow_produce a'"
        "allow_consume a = allow_consume a'"
      by (auto simp: BuildClientAuthorization_def split: option.splits sum.splits)
    with False permit_granted(1-3) [of ?none permissions a'] ParseList_listed [of "client_auth_permissions c" permissions]
    show ?thesis by (simp add: granted_def)
  qed
  then show "allow_admin a = granted c ''admin''" and "allow_produce a = granted c ''produce''"
    and "allow_consume a = granted c ''consume''" by simp_all
qed

lemma BuildClientAuthorization_topics:
  assumes "BuildClientAuthorization c = Inr a"
  shows "TopicAllowed (produce_topics a) topic \<longleftrightarrow> client_auth_produce_topics c = [] \<or> listed topic (client_auth_produce_topics c)"
    and "TopicAllowed (consume_topics a) topic \<longleftrightarrow> client_auth_consume_topics c = [] \<or> listed topic (client_auth_consume_topics c)"
  using assms
  by (auto simp: BuildClientAuthorization_def topic_list_allowed split: sum.splits option.splits)

lemma authorization_permitted:
  assumes "BuildClientAuthorization c = Inr a"
  shows "AuthorizeClientRequest a command topic \<longleftrightarrow> permitted c command topic"
  by (cases command) (simp_all add: BuildClientAuthorization_granted [OF assms] BuildClientAuthorization_topics [OF assms])

lemma start_config_Listen:
  assumes "start_config io c = Listen b address port threads tls"
  shows "br_client_token b = client_auth_token c" and "br_replication_token b = replication_auth_token c"
    and "BuildClientAuthorization c = Inr (br_authorization b)"
    and "replica_peers c \<noteq> [] \<Longrightarrow> replication_auth_token c \<noteq> []"
    and "client_auth_permissions c \<noteq> [] \<or> client_auth_produce_topics c \<noteq> [] \<or> client_auth_consume_topics c \<noteq> [] \<Longrightarrow>
      client_auth_token c \<noteq> []"
  using assms
  by (auto simp: start_config_def Let_def ConfigureTopicQuota_def ConfigureRateLimit_def ConfigureClientAuth_def
      ConfigureReplication_def split: if_splits sum.splits prod.splits)

text \<open>C27: The configuration file is what the running broker enforces. Take a server that starts from a file, in any
  state after any requests and turns of the replication thread. A request that is answered with OK is one of
  the four replication requests, is flagged as such and carries the replication token of the file, which is not
  empty; or it is not flagged as one, and then, if the file sets a client token, it carries that token and is permitted
  by the lists of permissions and topics as they are written in the file. If the file sets no client token it sets no list
  either (the server would not have started), and the request must not be flagged as authenticated.\<close>

theorem configuration_is_enforced:
  assumes "main io argv = Listen b0 address port threads tls" and "config_path argv = Some path"
    and "LoadConfig path (so_file io path) default_Config = Inr c"
    and "broker_run b0 events = Some b" and "Handle bio b request = Some (b', response)" and "resp_status response = kOk"
  shows "req_flags request AND kFlagReplication \<noteq> 0 \<and>
      req_command request \<in> {kHeartbeat, kReplicaFetch, kReplicaAppend, kReplicaVote} \<and>
      replication_auth_token c \<noteq> [] \<and> (\<exists>rest. carries_token (replication_auth_token c) (req_payload request) rest) \<or>
    req_flags request AND kFlagReplication = 0 \<and>
     (if client_auth_token c = []
      then req_flags request AND kFlagAuthentication = 0 \<and> client_auth_permissions c = [] \<and>
        client_auth_produce_topics c = [] \<and> client_auth_consume_topics c = []
      else req_flags request AND kFlagAuthentication \<noteq> 0 \<and>
        (\<exists>rest. carries_token (client_auth_token c) (req_payload request) rest) \<and>
        permitted c (req_command request) (req_topic request))"
proof -
  have start: "start_config io c = Listen b0 address port threads tls"
    using assms(1) by (simp add: main_def assms(2,3))
  note b0 = start_config_Listen [OF start]
  have b: "br_client_token b = client_auth_token c" "br_replication_token b = replication_auth_token c"
    "br_authorization b = br_authorization b0"
    using broker_run_access [OF assms(4)] b0(1,2) by (simp_all add: same_access_def)
  have lists: "client_auth_permissions c = [] \<and> client_auth_produce_topics c = [] \<and> client_auth_consume_topics c = []"
    if "client_auth_token c = []" using b0(5) that by blast
  show ?thesis
    using Handle_ok_access [OF assms(5,6)] lists
    unfolding b authorization_permitted [OF b0(3)] by (auto split: if_splits)
qed

text \<open>The server started from the text of \<open>demo_config\<close>, and a client that lists the topics.\<close>

definition demo_start :: start_io where
  "demo_start = \<lparr>so_file = (\<lambda>_. Some (config_text demo_config)), so_set_log_file = None, so_disk = [],
     so_topic_files = demo_files, so_offset_files = demo_files, so_raft_disk = None, so_storage = good_io 0 0,
     so_load_topics = good_load_io, so_load_offsets = good_load_io, so_created = 0, so_configured = 0\<rparr>"

definition list_request :: Request where
  "list_request = default_Request\<lparr>req_command := kListTopic, req_flags := kFlagAuthentication, req_payload := Put16 1 @ [5]\<rparr>"

lemma ParseList_pair: "44 \<notin> set a \<Longrightarrow> 44 \<notin> set b \<Longrightarrow> Trim a \<noteq> [] \<Longrightarrow> Trim b \<noteq> [] \<Longrightarrow> ParseList (a @ 44 # b) = Some [Trim a, Trim b]"
  by (simp add: ParseList.simps [of "a @ 44 # b"] ParseList.simps [of b] split_at_append split_at_absent)

lemma demo_authorization:
  "BuildClientAuthorization demo_config =
     Inr \<lparr>allow_admin = True, allow_produce = True, allow_consume = False, produce_topics = [[116]], consume_topics = []\<rparr>"
proof -
  have "str ''produce, admin'' = str ''produce'' @ 44 # str '' admin''" by (simp add: str_def of_char_def)
  moreover have "Trim (str ''produce'') = str ''produce''" "Trim (str '' admin'') = str ''admin''"
      "44 \<notin> set (str ''produce'')" "44 \<notin> set (str '' admin'')" "str ''produce'' \<noteq> []" "str ''admin'' \<noteq> []"
    by (simp_all add: Trim_def is_blank_def str_def of_char_def)
  ultimately have "ParseList (str ''produce, admin'') = Some [str ''produce'', str ''admin'']" by (simp add: ParseList_pair)
  moreover have "ParseList [116] = Some [[116]]" by (simp add: ParseList.simps split_at_def Trim_def is_blank_def)
  moreover have "str ''produce, admin'' \<noteq> []" by (simp add: str_def)
  ultimately show ?thesis
    by (simp add: BuildClientAuthorization_def demo_config_def default_Config_def topic_list_def default_ClientAuthorization_def str_inject)
qed

lemma demo_started:
  "\<exists>b. main demo_start [[109]] = Listen b (str ''127.0.0.1'') 9092 0 (tls_options demo_config) \<and> br_opened b \<and>
     br_client_token b = [5] \<and> allow_admin (br_authorization b)"
proof -
  have load: "LoadConfig path (so_file demo_start path) default_Config = Inr demo_config" for path
    by (simp add: demo_start_def LoadConfig_text demo_config_plain)
  show ?thesis
    unfolding main_def config_path_def
    by (simp add: load start_config_def demo_authorization)
      (simp add: demo_config_def default_Config_def demo_start_def ConfigureTopicQuota_def ConfigureRateLimit_def
        ConfigureClientAuth_def ConfigureReplication_def Broker_Open_def new_Broker_def
        Open_def new_engine_def good_io_def TopicMetadataStore_Load_def ConsumerOffsetStore_Load_def good_load_io_def
        demo_files_def ReplaceTopics_def ListTopics_def)
qed

lemma list_request_answered:
  assumes "br_opened b" and "br_client_token b = [5]" and "allow_admin (br_authorization b)"
  shows "\<exists>b' response. Handle demo_io b list_request = Some (b', response) \<and> resp_status response = kOk"
proof -
  have "strip_token [5] (req_payload list_request) = Some (Some [])"
    unfolding strip_token_Some by (simp add: carries_token_def list_request_def)
  then have "authenticate b list_request = Some (Inr (list_request\<lparr>req_flags := 0, req_payload := []\<rparr>))"
    by (simp add: authenticate_def replication_command_def ValidateClientAuth_def Let_def assms(2))
      (simp add: list_request_def flag_simps)
  then show ?thesis
    by (simp add: Handle_def Let_def authenticate_counts assms)
      (simp add: list_request_def default_Request_def flag_simps assms replication_command_def HandleListTopic_def
        count_command_def MakeResponse_def default_Response_def Let_def)
qed

theorem configuration_is_enforced_witness:
  "client_auth_token demo_config = [5] \<and> permitted demo_config kListTopic [] \<and>
   (\<exists>b0 b b' response tls. main demo_start [[109]] = Listen b0 (str ''127.0.0.1'') 9092 0 tls \<and>
      broker_run b0 [Turn_event \<lparr>th_last_election = 0, th_election_timeout = 150\<rparr> (idle_turn 0)] = Some b \<and>
      Handle demo_io b list_request = Some (b', response) \<and> resp_status response = kOk)"
proof -
  from demo_started obtain b0 where b0: "main demo_start [[109]] = Listen b0 (str ''127.0.0.1'') 9092 0 (tls_options demo_config)"
    "br_opened b0" "br_client_token b0 = [5]" "allow_admin (br_authorization b0)" by blast
  define b where "b = snd (replication_turn (\<lparr>th_last_election = 0, th_election_timeout = 150\<rparr>, b0) (idle_turn 0))"
  have run: "broker_run b0 [Turn_event \<lparr>th_last_election = 0, th_election_timeout = 150\<rparr> (idle_turn 0)] = Some b" by (simp add: b_def)
  have "br_opened b" "br_client_token b = [5]" "allow_admin (br_authorization b)"
    using replication_turn_tables [of "(\<lparr>th_last_election = 0, th_election_timeout = 150\<rparr>, b0)" "idle_turn 0"] broker_run_access [OF run] b0
    by (simp_all add: same_tables_def same_access_def b_def)
  from list_request_answered [OF this] obtain b' response where
    h: "Handle demo_io b list_request = Some (b', response)" "resp_status response = kOk" by blast
  have path: "config_path [[109]] = Some (str ''conf/broker.conf'')" by (simp add: config_path_def)
  have load: "LoadConfig (str ''conf/broker.conf'') (so_file demo_start (str ''conf/broker.conf'')) default_Config = Inr demo_config"
    by (simp add: demo_start_def LoadConfig_text demo_config_plain)
  have token: "client_auth_token demo_config = [5]" by (simp add: demo_config_def)
  have request: "req_flags list_request AND kFlagReplication = 0" "req_command list_request = kListTopic" "req_topic list_request = []"
    by (simp_all add: list_request_def default_Request_def flag_simps)
  from configuration_is_enforced [OF b0(1) path load run h] have "permitted demo_config kListTopic []"
    by (simp only: token request if_False list.distinct simp_thms)
  with b0(1) h run token show ?thesis by blast
qed

section \<open>Numbers the configuration should not accept\<close>

text \<open>\<^verbatim>\<open>std::stoull\<close> accepts a sign, so a negative number is read as a huge one; and the retention time in
  milliseconds wraps: with 5124095576031 hours a message is kept for 34 minutes.\<close>

lemma negative_number_accepted: "Number (str ''-1'') = Some (- 1)"
  by (simp add: Number_def stoull_def str_def of_char_def is_space_def number_base_def is_digit_def digit_of_def
      digits_value_def Let_def)

lemma retention_wraps:
  "cfg_retention_ms (storage_config (default_Config\<lparr>retention_hours := 5124095576031\<rparr>)) = 2048384"
  by (simp add: storage_config_def)

end
