(* ===== verification/Allocators.thy ===== *)
theory Allocators
  imports Network
begin

unbundle bit_operations_syntax

text \<open>
  The two allocation helpers built on free lists: \<^verbatim>\<open>src/core/slab_allocator.cc\<close>, which cuts blocks of nine sizes out of
  memory pools, and the template \<^verbatim>\<open>include/mq/core/object_pool.h\<close>.

  A pointer into a pool is the block size of the bucket, the number of the pool there and the offset; any other one is what
  \<^verbatim>\<open>malloc\<close> returned. The free list, whose links the code keeps in the free blocks themselves, is the list of its
  blocks, the first one to be reused at its head. \<open>memory\<close> says for which sizes the system provides the storage of
  a new pool; \<^verbatim>\<open>make_unique\<close> throws otherwise, and an exception is an \<open>Inl\<close>. Sizes are natural numbers that
  wrap around at \<open>2 ^ 64\<close> where the code adds or multiplies them.

  \<open>block_source\<close> is what both promise: a block is never handed out again before it has been given back.
\<close>

section \<open>Size classes\<close>

definition kNumSizeClasses :: nat where "kNumSizeClasses = 9"
definition kMinSizeClass :: nat where "kMinSizeClass = 16"
definition kMaxSizeClass :: nat where "kMaxSizeClass = 4096"

text \<open>\<^verbatim>\<open>alignof(std::max_align_t)\<close> of the supported platforms.\<close>

definition kMaxAlign :: nat where "kMaxAlign = 16"

definition SizeClassBytes :: "nat \<Rightarrow> nat" where
  "SizeClassBytes index = push_bit index kMinSizeClass"

text \<open>The two loops of \<^verbatim>\<open>SizeClassIndex\<close>.\<close>

function align_up :: "nat \<Rightarrow> nat \<Rightarrow> nat" where
  "align_up aligned sz = (if 0 < aligned \<and> aligned < sz then align_up (push_bit 1 aligned) sz else aligned)"
  by pat_completeness auto
termination
  by (relation "measure (\<lambda>(aligned, sz). sz - aligned)") (auto simp: push_bit_eq_mult)

declare align_up.simps [simp del]

function count_halvings :: "nat \<Rightarrow> nat \<Rightarrow> nat" where
  "count_halvings temp index = (if temp > 1 then count_halvings (drop_bit 1 temp) (index + 1) else index)"
  by pat_completeness auto
termination
  by (relation "measure fst") (auto simp: drop_bit_eq_div)

declare count_halvings.simps [simp del]

definition SizeClassIndex :: "nat \<Rightarrow> nat" where
  "SizeClassIndex sz =
    (if sz = 0 then 0
     else if sz > kMaxSizeClass then kNumSizeClasses
     else count_halvings (align_up kMinSizeClass sz div kMinSizeClass) 0)"

section \<open>Buckets\<close>

definition size_wrap :: "nat \<Rightarrow> nat" where
  "size_wrap n = n mod 2 ^ 64"

datatype block = Large nat | Small nat nat nat

record Bucket =
  bk_free_list :: "block list"
  bk_pools :: "MemoryPool list"
  bk_block_size :: nat
  bk_next_pool_capacity :: nat
  bk_free_count :: u64

definition make_pool :: "(nat \<Rightarrow> bool) \<Rightarrow> nat \<Rightarrow> MemoryPool result" where
  "make_pool memory capacity =
    (case new_MemoryPool capacity of
       Inl err \<Rightarrow> Inl err
     | Inr pool \<Rightarrow> if memory capacity then Inr pool else Inl ''std::bad_alloc'')"

text \<open>The last pool of the bucket is tried first.\<close>

definition allocate_from_last :: "Bucket \<Rightarrow> Bucket \<times> block option" where
  "allocate_from_last bucket =
    (if bk_pools bucket = [] then (bucket, None)
     else case pool_Allocate True (last (bk_pools bucket)) (bk_block_size bucket) kMaxAlign of
       (pool, r) \<Rightarrow> (bucket\<lparr>bk_pools := butlast (bk_pools bucket) @ [pool]\<rparr>,
                     map_option (Small (bk_block_size bucket) (length (bk_pools bucket) - 1)) r))"

definition add_pool :: "Bucket \<Rightarrow> MemoryPool \<Rightarrow> nat \<Rightarrow> Bucket" where
  "add_pool bucket pool new_capacity =
     bucket\<lparr>bk_pools := bk_pools bucket @ [pool], bk_next_pool_capacity := size_wrap (new_capacity * 2)\<rparr>"

text \<open>The bucket, the bytes of a new pool and the block, or the exception.\<close>

definition AllocateFromBucket :: "(nat \<Rightarrow> bool) \<Rightarrow> Bucket \<Rightarrow> Bucket \<times> nat \<times> block option result" where
  "AllocateFromBucket memory bucket =
    (case bk_free_list bucket of
       node # rest \<Rightarrow> (bucket\<lparr>bk_free_list := rest, bk_free_count := bk_free_count bucket - 1\<rparr>, 0, Inr (Some node))
     | [] \<Rightarrow>
         (case allocate_from_last bucket of
            (b1, Some block) \<Rightarrow> (b1, 0, Inr (Some block))
          | (b1, None) \<Rightarrow>
              let block_size = bk_block_size b1; new_capacity = bk_next_pool_capacity b1 in
              (case make_pool memory new_capacity of
                 Inl err \<Rightarrow> (b1, 0, Inl err)
               | Inr new_pool \<Rightarrow>
                   (case pool_Allocate True new_pool block_size kMaxAlign of
                      (pool, Some off) \<Rightarrow>
                        (add_pool b1 pool new_capacity, mp_capacity pool, Inr (Some (Small block_size (length (bk_pools b1)) off)))
                    | (_, None) \<Rightarrow>
                        (case make_pool memory (block_size * 64) of
                           Inl err \<Rightarrow> (b1, 0, Inl err)
                         | Inr second_pool \<Rightarrow>
                             (case pool_Allocate True second_pool block_size kMaxAlign of
                                (pool, Some off) \<Rightarrow>
                                  (add_pool b1 pool new_capacity, mp_capacity pool, Inr (Some (Small block_size (length (bk_pools b1)) off)))
                              | (_, None) \<Rightarrow> (b1, 0, Inr None)))))))"

definition push_free :: "Bucket \<Rightarrow> block \<Rightarrow> Bucket" where
  "push_free bucket node =
     bucket\<lparr>bk_free_list := node # bk_free_list bucket, bk_free_count := bk_free_count bucket + 1\<rparr>"

section \<open>The slab allocator\<close>

record SlabAllocator =
  sl_buckets :: "Bucket list"
  sl_total_allocated :: nat

definition new_SlabAllocator :: "nat \<Rightarrow> SlabAllocator result" where
  "new_SlabAllocator initial_capacity_per_class =
    (if initial_capacity_per_class = 0 then Inl ''initial_capacity_per_class must be positive''
     else Inr \<lparr>sl_buckets = map (\<lambda>index.
           \<lparr>bk_free_list = [], bk_pools = [], bk_block_size = SizeClassBytes index,
            bk_next_pool_capacity = max initial_capacity_per_class (SizeClassBytes index * 64), bk_free_count = 0\<rparr>) [0..<kNumSizeClasses],
         sl_total_allocated = 0\<rparr>)"

text \<open>\<open>owner\<close>: the call comes from the thread that created the allocator; \<open>heap\<close>: what \<^verbatim>\<open>malloc\<close> returns.\<close>

definition slab_Allocate ::
  "bool \<Rightarrow> nat option \<Rightarrow> (nat \<Rightarrow> bool) \<Rightarrow> SlabAllocator \<Rightarrow> nat \<Rightarrow> SlabAllocator \<times> block option result" where
  "slab_Allocate owner heap memory s sz =
    (if sz = 0 \<or> \<not> owner then (s, Inr None)
     else if sz > kMaxSizeClass then (s, Inr (map_option Large heap))
     else
       let index = SizeClassIndex sz in
       case AllocateFromBucket memory (sl_buckets s ! index) of
         (bucket, grown, r) \<Rightarrow>
           (s\<lparr>sl_buckets := (sl_buckets s)[index := bucket], sl_total_allocated := size_wrap (sl_total_allocated s + grown)\<rparr>,
            r))"

text \<open>The pointer is not looked at: the size alone decides between \<^verbatim>\<open>free\<close>, which leaves the allocator alone, and the
  free list of a bucket.\<close>

definition slab_Deallocate :: "bool \<Rightarrow> SlabAllocator \<Rightarrow> block option \<Rightarrow> nat \<Rightarrow> SlabAllocator" where
  "slab_Deallocate owner s ptr sz =
    (case ptr of
       None \<Rightarrow> s
     | Some node \<Rightarrow>
         if sz = 0 \<or> \<not> owner then s
         else if sz > kMaxSizeClass then s
         else
           let index = SizeClassIndex sz in
           s\<lparr>sl_buckets := (sl_buckets s)[index := push_free (sl_buckets s ! index) node]\<rparr>)"

definition total_used_bytes :: "SlabAllocator \<Rightarrow> nat" where
  "total_used_bytes s = size_wrap (sum_list (map (\<lambda>bucket. sum_list (map mp_used (bk_pools bucket))) (sl_buckets s)))"

section \<open>Object pools\<close>

text \<open>The objects, the numbers of the free ones (\<^verbatim>\<open>back()\<close> is the last) and the capacity.\<close>

record 'a ObjectPool =
  ob_storage :: "'a list"
  ob_free_list :: "nat list"
  ob_capacity :: nat

definition new_ObjectPool :: "'a \<Rightarrow> nat \<Rightarrow> 'a ObjectPool" where
  "new_ObjectPool initial capacity =
     \<lparr>ob_storage = replicate capacity initial, ob_free_list = [0..<capacity], ob_capacity = capacity\<rparr>"

definition pool_Acquire :: "'a \<Rightarrow> bool \<Rightarrow> 'a ObjectPool \<Rightarrow> 'a ObjectPool \<times> nat option" where
  "pool_Acquire initial owner s =
    (if \<not> owner \<or> ob_free_list s = [] then (s, None)
     else let obj = last (ob_free_list s) in
       (s\<lparr>ob_free_list := butlast (ob_free_list s), ob_storage := (ob_storage s)[obj := initial]\<rparr>, Some obj))"

definition pool_Release :: "'a \<Rightarrow> bool \<Rightarrow> 'a ObjectPool \<Rightarrow> nat option \<Rightarrow> 'a ObjectPool" where
  "pool_Release initial owner s ptr =
    (case ptr of
       None \<Rightarrow> s
     | Some obj \<Rightarrow>
         if \<not> owner then s
         else s\<lparr>ob_storage := (ob_storage s)[obj := initial], ob_free_list := ob_free_list s @ [obj]\<rparr>)"

definition pool_available :: "'a ObjectPool \<Rightarrow> nat" where
  "pool_available s = length (ob_free_list s)"

section \<open>The contract\<close>

locale block_source =
  fixes inv :: "'s \<Rightarrow> bool" and live :: "'s \<Rightarrow> 'b set"
    and acquire :: "'e \<Rightarrow> 's \<Rightarrow> 's \<times> 'b option" and release :: "'s \<Rightarrow> 'b \<Rightarrow> 's"
  assumes acquire_fresh: "inv s \<Longrightarrow> acquire e s = (s', Some b) \<Longrightarrow> inv s' \<and> b \<notin> live s \<and> live s' = insert b (live s)"
    and acquire_fails: "inv s \<Longrightarrow> acquire e s = (s', None) \<Longrightarrow> inv s' \<and> live s' = live s"
    and release_live: "inv s \<Longrightarrow> b \<in> live s \<Longrightarrow> inv (release s b) \<and> live (release s b) = live s - {b}"
begin

text \<open>A program that gives back only what it holds.\<close>

inductive program :: "'s \<Rightarrow> 'b list \<Rightarrow> bool" where
  start: "inv s \<Longrightarrow> live s = {} \<Longrightarrow> program s []"
| gets: "program s held \<Longrightarrow> acquire e s = (s', Some b) \<Longrightarrow> program s' (b # held)"
| fails: "program s held \<Longrightarrow> acquire e s = (s', None) \<Longrightarrow> program s' held"
| returns: "program s held \<Longrightarrow> b \<in> set held \<Longrightarrow> program (release s b) (remove1 b held)"

lemma program_holds_live: "program s held \<Longrightarrow> inv s \<and> distinct held \<and> live s = set held"
proof (induction rule: program.induct)
  case (gets s held e s' b)
  with acquire_fresh [of s e s' b] show ?case by auto
next
  case (fails s held e s')
  with acquire_fails [of s e s'] show ?case by simp
next
  case (returns s held b)
  with release_live [of s b] show ?case by (simp add: set_remove1_eq)
qed simp

end

section \<open>Size classes are the smallest that fit\<close>

lemma SizeClassBytes_eq: "SizeClassBytes index = 16 * 2 ^ index"
  by (simp add: SizeClassBytes_def kMinSizeClass_def push_bit_eq_mult)

lemma count_halvings_power: "count_halvings (2 ^ k) index = index + k"
proof (induction k arbitrary: index)
  case 0
  show ?case by (simp add: count_halvings.simps)
next
  case (Suc k)
  have "1 < (2 :: nat) * 2 ^ k" by (metis one_less_numeral_iff one_less_power power_Suc semiring_norm(76) zero_less_Suc)
  then show ?case using Suc.IH [of "index + 1"] by (simp add: count_halvings.simps [of "2 * _"] drop_bit_eq_div)
qed

lemma align_up_least:
  "\<exists>k. align_up (16 * 2 ^ i) sz = 16 * 2 ^ k \<and> i \<le> k \<and> sz \<le> 16 * 2 ^ k \<and> (k = i \<or> 16 * 2 ^ (k - 1) < sz)"
proof (induction "sz - 16 * 2 ^ i" arbitrary: i rule: less_induct)
  case less
  show ?case
  proof (cases "16 * 2 ^ i < sz")
    case False
    then show ?thesis by (subst align_up.simps) auto
  next
    case True
    then have "sz - 16 * 2 ^ Suc i < sz - 16 * 2 ^ i" by (intro diff_less_mono2) simp_all
    from less [OF this] obtain k where
      k: "align_up (16 * 2 ^ Suc i) sz = 16 * 2 ^ k" "Suc i \<le> k" "sz \<le> 16 * 2 ^ k" "k = Suc i \<or> 16 * 2 ^ (k - 1) < sz" by blast
    then have "16 * 2 ^ (k - 1) < sz" using True by auto
    moreover have "align_up (16 * 2 ^ i) sz = 16 * 2 ^ k" using True k(1) by (subst align_up.simps) (simp add: push_bit_eq_mult ac_simps)
    ultimately show ?thesis using k by (intro exI [of _ k]) simp
  qed
qed

lemma SizeClassIndex_least:
  assumes "0 < sz" and "sz \<le> kMaxSizeClass"
  shows "SizeClassIndex sz < kNumSizeClasses" and "sz \<le> SizeClassBytes (SizeClassIndex sz)"
    and "SizeClassIndex sz = 0 \<or> SizeClassBytes (SizeClassIndex sz - 1) < sz"
proof -
  obtain k where k: "align_up 16 sz = 16 * 2 ^ k" "sz \<le> 16 * 2 ^ k" "k = 0 \<or> 16 * 2 ^ (k - 1) < sz"
    using align_up_least [of 0 sz] by auto
  then have i: "SizeClassIndex sz = k"
    using assms by (simp add: SizeClassIndex_def kMinSizeClass_def count_halvings_power)
  have "k < 9"
  proof (rule ccontr)
    assume "\<not> k < 9"
    then have "(2 :: nat) ^ 8 \<le> 2 ^ (k - 1)" by (intro power_increasing) simp_all
    then show False using k(3) assms(2) \<open>\<not> k < 9\<close> by (simp add: kMaxSizeClass_def)
  qed
  with i k show "SizeClassIndex sz < kNumSizeClasses" "sz \<le> SizeClassBytes (SizeClassIndex sz)"
    "SizeClassIndex sz = 0 \<or> SizeClassBytes (SizeClassIndex sz - 1) < sz"
    by (simp_all add: SizeClassBytes_eq kNumSizeClasses_def)
qed

lemma SizeClassIndex_Bytes: "index < kNumSizeClasses \<Longrightarrow> SizeClassIndex (SizeClassBytes index) = index"
proof -
  assume i: "index < kNumSizeClasses"
  then have "(2 :: nat) ^ index \<le> 2 ^ 8" by (intro power_increasing) (simp_all add: kNumSizeClasses_def)
  then have "0 < SizeClassBytes index" "SizeClassBytes index \<le> kMaxSizeClass" by (simp_all add: SizeClassBytes_eq kMaxSizeClass_def)
  from SizeClassIndex_least [OF this] have "index \<le> SizeClassIndex (SizeClassBytes index)"
      "SizeClassIndex (SizeClassBytes index) = 0 \<or> SizeClassIndex (SizeClassBytes index) - 1 < index"
    by (simp_all add: SizeClassBytes_eq)
  then show ?thesis by auto
qed

section \<open>Buckets hand out their own blocks\<close>

text \<open>The blocks cut out of the pools of a bucket so far, and those among them that are not in the free list.\<close>

definition carved :: "Bucket \<Rightarrow> block set" where
  "carved bucket = {Small (bk_block_size bucket) p off | p off. p < length (bk_pools bucket) \<and> bk_block_size bucket dvd off \<and>
     off + bk_block_size bucket \<le> mp_used (bk_pools bucket ! p)}"

definition bucket_live :: "Bucket \<Rightarrow> block set" where
  "bucket_live bucket = carved bucket - set (bk_free_list bucket)"

definition bucket_ok :: "Bucket \<Rightarrow> bool" where
  "bucket_ok bucket \<longleftrightarrow> 16 dvd bk_block_size bucket \<and> 0 < bk_block_size bucket \<and> bk_block_size bucket \<le> kMaxSizeClass \<and>
     bk_next_pool_capacity bucket < 2 ^ 64 \<and>
     (\<forall>pool \<in> set (bk_pools bucket). pool_ok pool \<and> bk_block_size bucket dvd mp_used pool) \<and>
     distinct (bk_free_list bucket) \<and> set (bk_free_list bucket) \<subseteq> carved bucket \<and>
     bk_free_count bucket = of_nat (length (bk_free_list bucket))"

lemma pool_Allocate_aligned:
  assumes "pool_ok pool" and "kMaxAlign dvd mp_used pool" and "0 < sz"
  shows "pool_Allocate True pool sz kMaxAlign =
    (if sz > mp_capacity pool - mp_used pool then (pool, None)
     else (pool\<lparr>mp_used := mp_used pool + sz\<rparr>, Some (mp_used pool)))"
proof -
  have "mp_used pool AND 15 = mp_used pool mod 16" using and_low_bits [of "mp_used pool" 4] by simp
  moreover have "mp_used pool mod 16 = 0" using assms(2) by (simp add: kMaxAlign_def dvd_eq_mod_eq_0)
  moreover have "(16 :: nat) AND 15 = 0" by simp
  moreover have "size_sub (mp_capacity pool - mp_used pool) 0 = mp_capacity pool - mp_used pool"
    using assms(1) by (auto simp: pool_ok_def intro!: size_sub_eq [of 0, simplified])
  ultimately show ?thesis using assms(1,3) by (simp add: pool_Allocate_def kMaxAlign_def Let_def pool_ok_def)
qed

text \<open>One more block at the mark of a pool.\<close>

lemma next_block:
  fixes bs :: nat
  assumes "0 < bs" and "bs dvd used" and "bs dvd off"
  shows "off + bs \<le> used + bs \<longleftrightarrow> off + bs \<le> used \<or> off = used"
proof -
  from assms obtain a c where "used = bs * a" "off = bs * c" by (auto elim!: dvdE)
  moreover have "c \<le> a \<longleftrightarrow> c + 1 \<le> a \<or> c = a" by auto
  moreover have "bs * c + bs = bs * (c + 1)" by simp
  ultimately show ?thesis using assms(1) by (simp only: mult_le_cancel1 add_le_cancel_right mult_cancel1) simp
qed

lemma mem_carved [simp]:
  "Small bs p off \<in> carved bucket \<longleftrightarrow> bs = bk_block_size bucket \<and> p < length (bk_pools bucket) \<and> bs dvd off \<and>
     off + bs \<le> mp_used (bk_pools bucket ! p)"
  "Large n \<notin> carved bucket"
  by (auto simp: carved_def)

lemma carved_grow:
  assumes "p < length (bk_pools bucket)" and "bk_block_size bucket dvd mp_used (bk_pools bucket ! p)" and "0 < bk_block_size bucket"
    and "mp_used pool = mp_used (bk_pools bucket ! p) + bk_block_size bucket"
  shows "carved (bucket\<lparr>bk_pools := (bk_pools bucket)[p := pool]\<rparr>) =
      insert (Small (bk_block_size bucket) p (mp_used (bk_pools bucket ! p))) (carved bucket)"
    and "Small (bk_block_size bucket) p (mp_used (bk_pools bucket ! p)) \<notin> carved bucket"
proof -
  show "carved (bucket\<lparr>bk_pools := (bk_pools bucket)[p := pool]\<rparr>) =
      insert (Small (bk_block_size bucket) p (mp_used (bk_pools bucket ! p))) (carved bucket)"
  proof (rule set_eqI)
    show "b \<in> carved (bucket\<lparr>bk_pools := (bk_pools bucket)[p := pool]\<rparr>) \<longleftrightarrow>
      b \<in> insert (Small (bk_block_size bucket) p (mp_used (bk_pools bucket ! p))) (carved bucket)" for b
    proof (cases b)
      case (Small bs p' off)
      have "off + bk_block_size bucket \<le> mp_used pool \<longleftrightarrow>
          off + bk_block_size bucket \<le> mp_used (bk_pools bucket ! p) \<or> off = mp_used (bk_pools bucket ! p)"
        if "bk_block_size bucket dvd off"
        unfolding assms(4) by (rule next_block [OF assms(3,2) that])
      then show ?thesis using assms(1,2) by (cases "p' = p") (auto simp: Small)
    qed simp
  qed
  show "Small (bk_block_size bucket) p (mp_used (bk_pools bucket ! p)) \<notin> carved bucket"
    using assms(3) by (auto simp: carved_def)
qed

lemma carved_new_pool:
  assumes "mp_used pool = bk_block_size bucket" and "0 < bk_block_size bucket"
  shows "carved (add_pool bucket pool n) = insert (Small (bk_block_size bucket) (length (bk_pools bucket)) 0) (carved bucket)"
    and "Small (bk_block_size bucket) (length (bk_pools bucket)) 0 \<notin> carved bucket"
proof -
  have "off + bk_block_size bucket \<le> bk_block_size bucket \<longleftrightarrow> off = 0" for off using assms(2) by auto
  then show "carved (add_pool bucket pool n) = insert (Small (bk_block_size bucket) (length (bk_pools bucket)) 0) (carved bucket)"
    using assms(1) by (auto simp: carved_def add_pool_def nth_append less_Suc_eq split: if_splits)
qed (simp add: carved_def)

text \<open>What a new block has to satisfy for the bucket to stay well formed.\<close>

lemma bucket_ok_fresh:
  assumes "bucket_ok bucket" and "bk_free_list bucket = []" and "carved bucket' = insert b (carved bucket)" and "b \<notin> carved bucket"
    and "bk_block_size bucket' = bk_block_size bucket" and "bk_free_list bucket' = []" and "bk_free_count bucket' = bk_free_count bucket"
    and "bk_next_pool_capacity bucket' < 2 ^ 64"
    and "\<forall>pool \<in> set (bk_pools bucket'). pool_ok pool \<and> bk_block_size bucket dvd mp_used pool"
  shows "bucket_ok bucket' \<and> b \<notin> bucket_live bucket \<and> bucket_live bucket' = insert b (bucket_live bucket)"
  using assms by (simp add: bucket_ok_def bucket_live_def)

lemma allocate_from_last_ok:
  assumes "bucket_ok bucket" and "bk_free_list bucket = []" and "allocate_from_last bucket = (bucket', r)"
  shows "case r of None \<Rightarrow> bucket' = bucket
    | Some b \<Rightarrow> bucket_ok bucket' \<and> b \<notin> bucket_live bucket \<and> bucket_live bucket' = insert b (bucket_live bucket)"
proof (cases "bk_pools bucket = []")
  case True
  then show ?thesis using assms(3) by (simp add: allocate_from_last_def)
next
  case False
  let ?p = "length (bk_pools bucket) - 1" and ?bs = "bk_block_size bucket"
  let ?pool = "last (bk_pools bucket)"
  have p: "?p < length (bk_pools bucket)" "bk_pools bucket ! ?p = ?pool" using False by (simp_all add: last_conv_nth)
  have pool: "pool_ok ?pool" "?bs dvd mp_used ?pool" and bs: "16 dvd ?bs" "0 < ?bs"
    using assms(1) False by (simp_all add: bucket_ok_def)
  then have "kMaxAlign dvd mp_used ?pool" by (auto simp: kMaxAlign_def)
  note alloc = pool_Allocate_aligned [OF pool(1) this bs(2)]
  have upd: "butlast (bk_pools bucket) @ [x] = (bk_pools bucket)[?p := x]" for x
    using False by (simp add: butlast_conv_take upd_conv_take_nth_drop)
  show ?thesis
  proof (cases "?bs > mp_capacity ?pool - mp_used ?pool")
    case True
    then have "bucket' = bucket\<lparr>bk_pools := butlast (bk_pools bucket) @ [?pool]\<rparr>" "r = None"
      using assms(3) False by (simp_all add: allocate_from_last_def alloc)
    with False show ?thesis by simp
  next
    case fits: False
    let ?grown = "?pool\<lparr>mp_used := mp_used ?pool + ?bs\<rparr>"
    have res: "bucket' = bucket\<lparr>bk_pools := (bk_pools bucket)[?p := ?grown]\<rparr>" "r = Some (Small ?bs ?p (mp_used ?pool))"
      using assms(3) False fits upd [of ?grown] by (simp_all add: allocate_from_last_def alloc)
    have grown: "pool_ok ?grown" "?bs dvd mp_used ?grown" using pool fits by (auto simp: pool_ok_def)
    have "\<forall>x \<in> set (bk_pools bucket'). pool_ok x \<and> ?bs dvd mp_used x"
      using assms(1) grown set_update_subset_insert [of "bk_pools bucket" ?p ?grown] by (auto simp: res bucket_ok_def)
    moreover note carved_grow [OF p(1), unfolded p(2), OF pool(2) bs(2), of ?grown, simplified]
    ultimately show ?thesis
      using bucket_ok_fresh [OF assms(1,2), of bucket' "Small ?bs ?p (mp_used ?pool)"] assms(1,2) by (simp add: res bucket_ok_def)
  qed
qed

text \<open>A new pool serves its first block at offset 0, when it is large enough.\<close>

lemma make_pool_serves:
  assumes "make_pool memory capacity = Inr pool0" and "capacity < 2 ^ 64" and "bucket_ok bucket" and "bk_free_list bucket = []"
    and "pool_Allocate True pool0 (bk_block_size bucket) kMaxAlign = (pool, Some off)"
  shows "bucket_ok (add_pool bucket pool n) \<and> Small (bk_block_size bucket) (length (bk_pools bucket)) off \<notin> bucket_live bucket \<and>
    bucket_live (add_pool bucket pool n) = insert (Small (bk_block_size bucket) (length (bk_pools bucket)) off) (bucket_live bucket)"
proof -
  have pool0: "pool0 = \<lparr>mp_capacity = capacity, mp_used = 0\<rparr>" using assms(1)
    by (auto simp: make_pool_def new_MemoryPool_def split: if_splits)
  have bs: "0 < bk_block_size bucket" using assms(3) by (simp add: bucket_ok_def)
  have "pool_ok pool0" using assms(2) by (simp add: pool0 pool_ok_def)
  from pool_Allocate_aligned [OF this _ bs] assms(5)
  have pool: "off = 0" "mp_used pool = bk_block_size bucket" "pool_ok pool"
    using \<open>pool_ok pool0\<close> by (auto simp: pool0 pool_ok_def split: if_splits)
  have "\<forall>x \<in> set (bk_pools (add_pool bucket pool n)). pool_ok x \<and> bk_block_size bucket dvd mp_used x"
    using assms(3) pool by (auto simp: add_pool_def bucket_ok_def)
  moreover have "bk_next_pool_capacity (add_pool bucket pool n) < 2 ^ 64" by (simp add: add_pool_def size_wrap_def)
  ultimately show ?thesis
    using bucket_ok_fresh [OF assms(3,4) carved_new_pool [OF pool(2) bs]] assms(4) pool(1) by (simp add: add_pool_def)
qed

lemma AllocateFromBucket_ok:
  assumes ok: "bucket_ok bucket" and run: "AllocateFromBucket memory bucket = (bucket', grown, r)"
  shows "case r of Inr (Some b) \<Rightarrow> bucket_ok bucket' \<and> b \<notin> bucket_live bucket \<and> bucket_live bucket' = insert b (bucket_live bucket)
    | _ \<Rightarrow> bucket' = bucket"
    and "bk_block_size bucket' = bk_block_size bucket"
proof -
  have "(case r of Inr (Some b) \<Rightarrow> bucket_ok bucket' \<and> b \<notin> bucket_live bucket \<and> bucket_live bucket' = insert b (bucket_live bucket)
    | _ \<Rightarrow> bucket' = bucket) \<and> bk_block_size bucket' = bk_block_size bucket"
  proof (cases "bk_free_list bucket")
    case (Cons node rest)
    have res: "bucket' = bucket\<lparr>bk_free_list := rest, bk_free_count := bk_free_count bucket - 1\<rparr>" "r = Inr (Some node)"
      using run by (simp_all add: AllocateFromBucket_def Cons)
    have "carved bucket' = carved bucket" by (simp add: res carved_def)
    then show ?thesis using ok by (auto simp: res bucket_ok_def bucket_live_def Cons)
  next
    case Nil
    obtain b1 tried where last: "allocate_from_last bucket = (b1, tried)" by fastforce
    have size1: "bk_block_size b1 = bk_block_size bucket"
      using last by (auto simp: allocate_from_last_def split: if_splits prod.splits)
    show ?thesis
    proof (cases tried)
      case (Some b)
      then show ?thesis using run allocate_from_last_ok [OF ok Nil last] size1
        by (auto simp: AllocateFromBucket_def Nil last)
    next
      case None
      with allocate_from_last_ok [OF ok Nil last] have b1: "b1 = bucket" by simp
      have caps: "bk_next_pool_capacity bucket < 2 ^ 64" "bk_block_size bucket * 64 < 2 ^ 64"
        using ok by (simp_all add: bucket_ok_def kMaxSizeClass_def)
      note served = make_pool_serves [OF _ caps(1) ok Nil] make_pool_serves [OF _ caps(2) ok Nil]
      show ?thesis using run
        by (auto simp: AllocateFromBucket_def Nil last None b1 Let_def served add_pool_def [of bucket, THEN arg_cong [of _ _ bk_block_size]]
            split: sum.splits prod.splits option.splits)
    qed
  qed
  then show "case r of Inr (Some b) \<Rightarrow> bucket_ok bucket' \<and> b \<notin> bucket_live bucket \<and> bucket_live bucket' = insert b (bucket_live bucket)
    | _ \<Rightarrow> bucket' = bucket"
    and "bk_block_size bucket' = bk_block_size bucket" by simp_all
qed

lemma push_free_ok:
  assumes "bucket_ok bucket" and "b \<in> bucket_live bucket"
  shows "bucket_ok (push_free bucket b) \<and> bucket_live (push_free bucket b) = bucket_live bucket - {b}"
proof -
  have "carved (push_free bucket b) = carved bucket" by (simp add: push_free_def carved_def)
  then show ?thesis using assms by (auto simp: bucket_ok_def bucket_live_def push_free_def)
qed

section \<open>The slab allocator keeps blocks apart\<close>

definition slab_ok :: "SlabAllocator \<Rightarrow> bool" where
  "slab_ok s \<longleftrightarrow> length (sl_buckets s) = kNumSizeClasses \<and>
     (\<forall>i < kNumSizeClasses. bucket_ok (sl_buckets s ! i) \<and> bk_block_size (sl_buckets s ! i) = SizeClassBytes i)"

definition slab_live :: "SlabAllocator \<Rightarrow> block set" where
  "slab_live s = (\<Union>i < kNumSizeClasses. bucket_live (sl_buckets s ! i))"

lemma bucket_live_size: "b \<in> bucket_live bucket \<Longrightarrow> \<exists>p off. b = Small (bk_block_size bucket) p off"
  by (auto simp: bucket_live_def carved_def)

lemma SizeClassBytes_inject [simp]: "SizeClassBytes i = SizeClassBytes j \<longleftrightarrow> i = j"
  by (simp add: SizeClassBytes_eq)

text \<open>Updating one bucket changes the live blocks of its class only.\<close>

lemma slab_update:
  assumes "slab_ok s" and "i < kNumSizeClasses" and "bucket_ok bucket" and "bk_block_size bucket = SizeClassBytes i"
  shows "slab_ok (s\<lparr>sl_buckets := (sl_buckets s)[i := bucket], sl_total_allocated := n\<rparr>)"
    and "slab_live (s\<lparr>sl_buckets := (sl_buckets s)[i := bucket], sl_total_allocated := n\<rparr>) =
      (slab_live s - bucket_live (sl_buckets s ! i)) \<union> bucket_live bucket"
proof -
  have len: "length (sl_buckets s) = kNumSizeClasses" using assms(1) by (simp add: slab_ok_def)
  show "slab_ok (s\<lparr>sl_buckets := (sl_buckets s)[i := bucket], sl_total_allocated := n\<rparr>)"
    using assms len by (simp add: slab_ok_def nth_list_update)
  have apart: "b \<notin> bucket_live (sl_buckets s ! i)" if "b \<in> bucket_live (sl_buckets s ! j)" "j < kNumSizeClasses" "j \<noteq> i" for b j
    using that assms(1,2) by (auto simp: slab_ok_def dest!: bucket_live_size)
  show "slab_live (s\<lparr>sl_buckets := (sl_buckets s)[i := bucket], sl_total_allocated := n\<rparr>) =
      (slab_live s - bucket_live (sl_buckets s ! i)) \<union> bucket_live bucket" (is "?l = ?r")
  proof
    show "?l \<subseteq> ?r" using len assms(2) apart by (auto simp: slab_live_def nth_list_update split: if_splits)
    show "?r \<subseteq> ?l"
    proof
      fix b assume "b \<in> ?r"
      then consider "b \<in> bucket_live bucket" | j where "j < kNumSizeClasses" "j \<noteq> i" "b \<in> bucket_live (sl_buckets s ! j)"
        by (auto simp: slab_live_def)
      then show "b \<in> ?l" using len assms(2) by cases (auto simp: slab_live_def nth_list_update)
    qed
  qed
qed

text \<open>The allocator as a source of blocks: requests of its own thread for small blocks, given back with their block size.\<close>

definition slab_take :: "(nat \<Rightarrow> bool) \<times> nat \<Rightarrow> SlabAllocator \<Rightarrow> SlabAllocator \<times> block option" where
  "slab_take request s =
    (case slab_Allocate True None (fst request) s (snd request) of
       (s', Inl err) \<Rightarrow> (s', None)
     | (s', Inr b) \<Rightarrow> (s', b))"

fun block_bytes :: "block \<Rightarrow> nat" where
  "block_bytes (Small bs p off) = bs"
| "block_bytes (Large n) = 0"

definition slab_give :: "SlabAllocator \<Rightarrow> block \<Rightarrow> SlabAllocator" where
  "slab_give s b = slab_Deallocate True s (Some b) (block_bytes b)"

lemma slab_Allocate_ok:
  assumes ok: "slab_ok s" and run: "slab_Allocate owner heap memory s sz = (s', r)"
  shows "slab_ok s' \<and> (case r of Inr (Some (Small bs p off)) \<Rightarrow> Small bs p off \<notin> slab_live s \<and>
      slab_live s' = insert (Small bs p off) (slab_live s) \<and> owner \<and> 0 < sz \<and> sz \<le> kMaxSizeClass \<and> bs = SizeClassBytes (SizeClassIndex sz)
    | _ \<Rightarrow> slab_live s' = slab_live s) \<and> (\<forall>n. r = Inr (Some (Large n)) \<longrightarrow> heap = Some n)"
proof (cases "sz = 0 \<or> \<not> owner \<or> sz > kMaxSizeClass")
  case True
  then show ?thesis using run ok by (auto simp: slab_Allocate_def split: if_splits option.splits)
next
  case False
  let ?i = "SizeClassIndex sz"
  let ?old = "sl_buckets s ! ?i"
  have i: "?i < kNumSizeClasses" using False SizeClassIndex_least(1) by simp
  then have old: "bucket_ok ?old" "bk_block_size ?old = SizeClassBytes ?i" and old_live: "bucket_live ?old \<subseteq> slab_live s"
    using ok by (auto simp: slab_ok_def slab_live_def)
  obtain bucket grown where a: "AllocateFromBucket memory ?old = (bucket, grown, r)"
    and s': "s' = s\<lparr>sl_buckets := (sl_buckets s)[?i := bucket], sl_total_allocated := size_wrap (sl_total_allocated s + grown)\<rparr>"
    using run False by (auto simp: slab_Allocate_def Let_def split: prod.splits)
  note step = AllocateFromBucket_ok [OF old(1) a]
  have bucket: "bucket_ok bucket" "bk_block_size bucket = SizeClassBytes ?i"
    using step old by (auto split: sum.splits option.splits)
  note upd = slab_update [OF ok i bucket, of "size_wrap (sl_total_allocated s + grown)", folded s']
  have fresh: "b \<notin> slab_live s" if "b \<notin> bucket_live ?old" "b \<in> bucket_live bucket" for b
  proof
    assume "b \<in> slab_live s"
    then obtain j where j: "j < kNumSizeClasses" "b \<in> bucket_live (sl_buckets s ! j)" by (auto simp: slab_live_def)
    with bucket_live_size [OF j(2)] bucket_live_size [OF that(2)] bucket(2) ok have "j = ?i" by (auto simp: slab_ok_def)
    with j that show False by simp
  qed
  have small: "\<exists>p off. b = Small (SizeClassBytes ?i) p off" if "b \<in> bucket_live bucket" for b
    using bucket_live_size [OF that] bucket(2) by simp
  show ?thesis
  proof (cases "\<exists>b. r = Inr (Some b)")
    case True
    then obtain b where r: "r = Inr (Some b)" by blast
    with step(1) have b: "b \<notin> bucket_live ?old" "bucket_live bucket = insert b (bucket_live ?old)" by simp_all
    then obtain p off where "b = Small (SizeClassBytes ?i) p off" using small by blast
    with b r upd fresh old_live False show ?thesis by auto
  next
    case other: False
    with step(1) have "bucket = ?old" by (auto split: sum.splits option.splits)
    with upd old_live have "slab_live s' = slab_live s" by auto
    with other upd(1) show ?thesis by (auto split: sum.splits option.splits)
  qed
qed

lemma slab_Deallocate_ok:
  assumes ok: "slab_ok s" and b: "b \<in> slab_live s" and sz: "0 < sz" "sz \<le> kMaxSizeClass"
    and fits: "block_bytes b = SizeClassBytes (SizeClassIndex sz)"
  shows "slab_ok (slab_Deallocate True s (Some b) sz) \<and> slab_live (slab_Deallocate True s (Some b) sz) = slab_live s - {b}"
proof -
  let ?i = "SizeClassIndex sz"
  let ?old = "sl_buckets s ! ?i"
  have i: "?i < kNumSizeClasses" using sz SizeClassIndex_least(1) by simp
  then have old: "bucket_ok ?old" "bk_block_size ?old = SizeClassBytes ?i" and old_live: "bucket_live ?old \<subseteq> slab_live s"
    using ok by (auto simp: slab_ok_def slab_live_def)
  from b obtain j where j: "j < kNumSizeClasses" "b \<in> bucket_live (sl_buckets s ! j)" by (auto simp: slab_live_def)
  with bucket_live_size [OF j(2)] fits ok have "j = ?i" by (auto simp: slab_ok_def)
  with j have b_old: "b \<in> bucket_live ?old" by simp
  have run: "slab_Deallocate True s (Some b) sz =
      s\<lparr>sl_buckets := (sl_buckets s)[?i := push_free ?old b], sl_total_allocated := sl_total_allocated s\<rparr>"
    using sz by (simp add: slab_Deallocate_def Let_def)
  have "bk_block_size (push_free ?old b) = SizeClassBytes ?i" using old(2) by (simp add: push_free_def)
  note upd = slab_update [OF ok i push_free_ok [OF old(1) b_old, THEN conjunct1] this, of "sl_total_allocated s", folded run]
  have "slab_live (slab_Deallocate True s (Some b) sz) = slab_live s - {b}"
    unfolding upd(2) using push_free_ok [OF old(1) b_old] old_live b_old by auto
  with upd(1) show ?thesis by simp
qed

interpretation slab: block_source slab_ok slab_live slab_take slab_give
proof
  fix s s' :: SlabAllocator and e b
  assume ok: "slab_ok s" and run: "slab_take e s = (s', Some b)"
  then have "slab_Allocate True None (fst e) s (snd e) = (s', Inr (Some b))"
    by (auto simp: slab_take_def split: prod.splits sum.splits)
  from slab_Allocate_ok [OF ok this] show "slab_ok s' \<and> b \<notin> slab_live s \<and> slab_live s' = insert b (slab_live s)"
    by (cases b) simp_all
next
  fix s s' :: SlabAllocator and e
  assume ok: "slab_ok s" and run: "slab_take e s = (s', None)"
  then obtain r where "slab_Allocate True None (fst e) s (snd e) = (s', r)" "\<nexists>b. r = Inr (Some b)"
    by (auto simp: slab_take_def split: prod.splits sum.splits)
  with slab_Allocate_ok [OF ok this(1)] show "slab_ok s' \<and> slab_live s' = slab_live s"
    by (auto split: sum.splits option.splits)
next
  fix s b
  assume ok: "slab_ok s" and b: "b \<in> slab_live s"
  then obtain i p off where i: "i < kNumSizeClasses" "b = Small (SizeClassBytes i) p off"
    by (fastforce simp: slab_live_def slab_ok_def dest: bucket_live_size)
  have "0 < SizeClassBytes i" "SizeClassBytes i \<le> kMaxSizeClass" using i(1) ok by (auto simp: slab_ok_def bucket_ok_def)
  then show "slab_ok (slab_give s b) \<and> slab_live (slab_give s b) = slab_live s - {b}"
    using slab_Deallocate_ok [OF ok b, of "SizeClassBytes i"] i SizeClassIndex_Bytes [OF i(1)] by (simp add: slab_give_def)
qed

text \<open>Programs that use the allocator: allocations of any size, from any thread, and small blocks given back with the size
  they were requested with. The list has the small blocks held, with these sizes.\<close>

inductive slab_client :: "SlabAllocator \<Rightarrow> (block \<times> nat) list \<Rightarrow> bool" where
  created: "new_SlabAllocator initial_capacity = Inr s \<Longrightarrow> initial_capacity < 2 ^ 64 \<Longrightarrow> slab_client s []"
| allocate: "slab_client s held \<Longrightarrow> slab_Allocate owner heap memory s sz = (s', r) \<Longrightarrow>
    slab_client s' (case r of Inr (Some (Small bs p off)) \<Rightarrow> (Small bs p off, sz) # held | _ \<Rightarrow> held)"
| deallocate: "slab_client s held \<Longrightarrow> (b, sz) \<in> set held \<Longrightarrow>
    slab_client (slab_Deallocate True s (Some b) sz) (remove1 (b, sz) held)"

definition fits_class :: "block \<times> nat \<Rightarrow> bool" where
  "fits_class h \<longleftrightarrow> 0 < snd h \<and> snd h \<le> kMaxSizeClass \<and> (\<exists>p off. fst h = Small (SizeClassBytes (SizeClassIndex (snd h))) p off)"

lemma slab_Deallocate_class:
  "fits_class (b, sz) \<Longrightarrow> slab_Deallocate True s (Some b) sz = slab_give s b"
proof -
  assume "fits_class (b, sz)"
  then obtain p off where sz: "0 < sz" "sz \<le> kMaxSizeClass" and b: "b = Small (SizeClassBytes (SizeClassIndex sz)) p off"
    by (auto simp: fits_class_def)
  have i: "SizeClassIndex sz < kNumSizeClasses" using sz by (rule SizeClassIndex_least)
  then have "(2 :: nat) ^ SizeClassIndex sz \<le> 2 ^ 8" by (intro power_increasing) (simp_all add: kNumSizeClasses_def)
  then have "SizeClassBytes (SizeClassIndex sz) \<le> kMaxSizeClass" "SizeClassBytes (SizeClassIndex sz) \<noteq> 0"
    by (simp_all add: SizeClassBytes_eq kMaxSizeClass_def)
  then show ?thesis using sz by (simp add: slab_give_def slab_Deallocate_def b SizeClassIndex_Bytes [OF i])
qed

lemma new_SlabAllocator_ok:
  assumes "new_SlabAllocator n = Inr s" and "n < 2 ^ 64"
  shows "slab_ok s" and "slab_live s = {}"
proof -
  have s: "s = \<lparr>sl_buckets = map (\<lambda>index. \<lparr>bk_free_list = [], bk_pools = [], bk_block_size = SizeClassBytes index,
      bk_next_pool_capacity = max n (SizeClassBytes index * 64), bk_free_count = 0\<rparr>) [0..<kNumSizeClasses], sl_total_allocated = 0\<rparr>"
    using assms(1) by (auto simp: new_SlabAllocator_def split: if_splits)
  have "(2 :: nat) ^ i \<le> 2 ^ 8" if "i < kNumSizeClasses" for i
    using that by (intro power_increasing) (simp_all add: kNumSizeClasses_def)
  then show "slab_ok s" using assms(2) by (auto simp: s slab_ok_def bucket_ok_def SizeClassBytes_eq kMaxSizeClass_def) force
  show "slab_live s = {}" by (auto simp: s slab_live_def bucket_live_def carved_def)
qed

lemma map_fst_remove1:
  "distinct (map fst held) \<Longrightarrow> (b, sz) \<in> set held \<Longrightarrow> map fst (remove1 (b, sz) held) = remove1 b (map fst held)"
  by (induction held) (auto simp: rev_image_eqI)

lemma slab_client_source: "slab_client s held \<Longrightarrow> slab.program s (map fst held) \<and> list_all fits_class held"
proof (induction rule: slab_client.induct)
  case (created initial_capacity s)
  then show ?case using new_SlabAllocator_ok by (auto intro: slab.program.start)
next
  case (allocate s held owner heap memory sz s' r)
  have ok: "slab_ok s" using slab.program_holds_live allocate.IH by blast
  note step = slab_Allocate_ok [OF ok allocate.hyps(2)]
  show ?case
  proof (cases "\<exists>bs p off. r = Inr (Some (Small bs p off))")
    case True
    then obtain bs p off where r: "r = Inr (Some (Small bs p off))" by blast
    with step have small: "owner" "0 < sz" "sz \<le> kMaxSizeClass" "bs = SizeClassBytes (SizeClassIndex sz)" by simp_all
    then have "slab_Allocate True None memory s sz = (s', Inr (Some (Small bs p off)))"
      using allocate.hyps(2) r by (simp add: slab_Allocate_def)
    then have "slab_take (memory, sz) s = (s', Some (Small bs p off))" by (simp add: slab_take_def)
    with allocate.IH small r show ?thesis by (auto simp: fits_class_def intro: slab.program.gets)
  next
    case False
    have "s' = s \<or> (\<exists>r'. owner \<and> sz \<le> kMaxSizeClass \<and> slab_Allocate True None memory s sz = (s', r') \<and> r' = r)"
      using allocate.hyps(2) by (auto simp: slab_Allocate_def split: if_splits)
    then have "slab.program s' (map fst held)"
    proof
      assume "\<exists>r'. owner \<and> sz \<le> kMaxSizeClass \<and> slab_Allocate True None memory s sz = (s', r') \<and> r' = r"
      then have "slab_take (memory, sz) s = (s', None)"
        using False slab_Allocate_ok [OF ok, of True None memory sz s' r]
        by (auto simp: slab_take_def split: sum.splits option.splits block.splits)
      with allocate.IH show ?thesis by (auto intro: slab.program.fails)
    qed (use allocate.IH in simp)
    moreover have "(case r of Inr (Some (Small bs p off)) \<Rightarrow> (Small bs p off, sz) # held | _ \<Rightarrow> held) = held"
      using False by (auto split: sum.splits option.splits block.splits)
    ultimately show ?thesis using allocate.IH by simp
  qed
next
  case (deallocate s held b sz)
  from deallocate.IH have d: "distinct (map fst held)" using slab.program_holds_live by blast
  have "fits_class (b, sz)" "b \<in> set (map fst held)" using deallocate by (auto simp: list_all_iff rev_image_eqI)
  with deallocate.IH show ?case
    using slab.program.returns [of s "map fst held" b] notin_set_remove1
    by (auto simp: slab_Deallocate_class map_fst_remove1 [OF d deallocate.hyps(2)] list_all_iff dest: notin_set_remove1 [rotated])
qed

lemma multiples_apart:
  fixes bs off off' :: nat
  assumes "bs dvd off" and "bs dvd off'" and "off \<noteq> off'"
  shows "off + bs \<le> off' \<or> off' + bs \<le> off"
proof -
  from assms obtain a c where "off = bs * a" "off' = bs * c" by (auto elim!: dvdE)
  moreover from this assms(3) have "a + 1 \<le> c \<or> c + 1 \<le> a" by auto
  then have "bs * (a + 1) \<le> bs * c \<or> bs * (c + 1) \<le> bs * a" using mult_le_mono2 by blast
  ultimately show ?thesis by (simp add: add.commute)
qed

lemma slab_live_Small:
  assumes "slab_ok s" and "Small bs p off \<in> slab_live s"
  shows "\<exists>i < kNumSizeClasses. bs = SizeClassBytes i \<and> p < length (bk_pools (sl_buckets s ! i)) \<and> bs dvd off \<and>
    off + bs \<le> mp_capacity (bk_pools (sl_buckets s ! i) ! p)"
proof -
  from assms(2) obtain i where i: "i < kNumSizeClasses" "Small bs p off \<in> carved (sl_buckets s ! i)"
    by (auto simp: slab_live_def bucket_live_def)
  then have "pool_ok (bk_pools (sl_buckets s ! i) ! p)" using assms(1) by (auto simp: slab_ok_def bucket_ok_def)
  with i assms(1) show ?thesis by (auto simp: slab_ok_def pool_ok_def intro!: exI [of _ i])
qed

text \<open>C39: However a program uses the slab allocator, the blocks it holds are different, lie inside the pools, have at least the
  size requested and do not overlap; and a block that was cut out of a pool and is not held is in exactly one free list, so
  nothing is lost.\<close>

theorem slab_blocks_disjoint:
  assumes "slab_client s held"
  shows "distinct (map fst held) \<and>
    (\<forall>(b, sz) \<in> set held. \<exists>p off. b = Small (SizeClassBytes (SizeClassIndex sz)) p off \<and> sz \<le> SizeClassBytes (SizeClassIndex sz) \<and>
      off + SizeClassBytes (SizeClassIndex sz) \<le> mp_capacity (bk_pools (sl_buckets s ! SizeClassIndex sz) ! p)) \<and>
    (\<forall>bs p off off'. {Small bs p off, Small bs p off'} \<subseteq> fst ` set held \<and> off \<noteq> off' \<longrightarrow> off + bs \<le> off' \<or> off' + bs \<le> off) \<and>
    (\<Union>i < kNumSizeClasses. carved (sl_buckets s ! i) - set (bk_free_list (sl_buckets s ! i))) = fst ` set held"
proof -
  from slab_client_source [OF assms] slab.program_holds_live
  have ok: "slab_ok s" and d: "distinct (map fst held)" and live: "slab_live s = fst ` set held" and fit: "list_all fits_class held"
    by (metis list.set_map)+
  have inside: "\<exists>p off. b = Small (SizeClassBytes (SizeClassIndex sz)) p off \<and> sz \<le> SizeClassBytes (SizeClassIndex sz) \<and>
      off + SizeClassBytes (SizeClassIndex sz) \<le> mp_capacity (bk_pools (sl_buckets s ! SizeClassIndex sz) ! p)"
    if "(b, sz) \<in> set held" for b sz
  proof -
    from that fit obtain p off where b: "b = Small (SizeClassBytes (SizeClassIndex sz)) p off" "0 < sz" "sz \<le> kMaxSizeClass"
      by (auto simp: fits_class_def list_all_iff)
    moreover have "b \<in> slab_live s" using that live by (auto simp: rev_image_eqI)
    ultimately show ?thesis using slab_live_Small [OF ok] SizeClassIndex_least(2) by fastforce
  qed
  have apart: "off + bs \<le> off' \<or> off' + bs \<le> off" if "Small bs p off \<in> slab_live s" "Small bs p off' \<in> slab_live s" "off \<noteq> off'" for bs p off off'
    using slab_live_Small [OF ok that(1)] slab_live_Small [OF ok that(2)] that(3) multiples_apart by blast
  have rest: "(\<Union>i < kNumSizeClasses. carved (sl_buckets s ! i) - set (bk_free_list (sl_buckets s ! i))) = slab_live s"
    by (simp add: slab_live_def bucket_live_def)
  have "\<forall>bs p off off'. {Small bs p off, Small bs p off'} \<subseteq> slab_live s \<and> off \<noteq> off' \<longrightarrow> off + bs \<le> off' \<or> off' + bs \<le> off"
    by (intro allI impI) (metis apart insert_subset)
  with d inside rest show ?thesis unfolding live by auto
qed

lemma demo_slab_client: "\<exists>s. slab_client s [(Small 128 0 0, 100)]"
proof -
  obtain s where s: "new_SlabAllocator 1 = Inr s" "length (sl_buckets s) = 9"
      "sl_buckets s ! 3 = \<lparr>bk_free_list = [], bk_pools = [], bk_block_size = 128, bk_next_pool_capacity = 8192, bk_free_count = 0\<rparr>"
    by (simp add: new_SlabAllocator_def kNumSizeClasses_def SizeClassBytes_eq)
  have "SizeClassIndex 100 = 3"
    by (simp add: SizeClassIndex_def kMinSizeClass_def kMaxSizeClass_def align_up.simps count_halvings.simps push_bit_eq_mult drop_bit_eq_div)
  moreover have "pool_Allocate True \<lparr>mp_capacity = 8192, mp_used = 0\<rparr> 128 kMaxAlign = (\<lparr>mp_capacity = 8192, mp_used = 128\<rparr>, Some 0)"
    by (simp add: pool_Allocate_aligned pool_ok_def)
  ultimately have "\<exists>s'. slab_Allocate True None (\<lambda>_. True) s 100 = (s', Inr (Some (Small 128 0 0)))"
    by (simp add: slab_Allocate_def kMaxSizeClass_def s AllocateFromBucket_def allocate_from_last_def make_pool_def
        new_MemoryPool_def Let_def)
  then obtain s' where "slab_Allocate True None (\<lambda>_. True) s 100 = (s', Inr (Some (Small 128 0 0)))" by blast
  from slab_client.allocate [OF slab_client.created [OF s(1)] this] show ?thesis by auto
qed

theorem slab_blocks_disjoint_witness:
  "\<exists>s. slab_client s [(Small 128 0 0, 100)] \<and>
     (\<Union>i < kNumSizeClasses. carved (sl_buckets s ! i) - set (bk_free_list (sl_buckets s ! i))) = {Small 128 0 0}"
  using demo_slab_client slab_blocks_disjoint by fastforce

section \<open>Object pools hand out reset objects\<close>

definition objects_ok :: "'a ObjectPool \<Rightarrow> bool" where
  "objects_ok s \<longleftrightarrow> length (ob_storage s) = ob_capacity s \<and> distinct (ob_free_list s) \<and> set (ob_free_list s) \<subseteq> {..<ob_capacity s}"

definition objects_live :: "'a ObjectPool \<Rightarrow> nat set" where
  "objects_live s = {..<ob_capacity s} - set (ob_free_list s)"

interpretation objects: block_source objects_ok objects_live "pool_Acquire initial" "\<lambda>s obj. pool_Release initial True s (Some obj)"
  for initial :: 'a
proof
  fix s s' :: "'a ObjectPool" and owner obj
  assume ok: "objects_ok s" and run: "pool_Acquire initial owner s = (s', Some obj)"
  then have ne: "ob_free_list s \<noteq> []" and res: "obj = last (ob_free_list s)"
      "s' = s\<lparr>ob_free_list := butlast (ob_free_list s), ob_storage := (ob_storage s)[obj := initial]\<rparr>"
    by (auto simp: pool_Acquire_def Let_def split: if_splits)
  have fl: "ob_free_list s = butlast (ob_free_list s) @ [obj]" using ne res(1) by simp
  define rest where "rest = butlast (ob_free_list s)"
  from fl have fl': "ob_free_list s = rest @ [obj]" by (simp add: rest_def)
  show "objects_ok s' \<and> obj \<notin> objects_live s \<and> objects_live s' = insert obj (objects_live s)"
    using ok unfolding res(2) by (auto simp: objects_ok_def objects_live_def fl')
next
  fix s s' :: "'a ObjectPool" and owner
  assume "objects_ok s" and "pool_Acquire initial owner s = (s', None)"
  then show "objects_ok s' \<and> objects_live s' = objects_live s" by (auto simp: pool_Acquire_def Let_def split: if_splits)
next
  fix s :: "'a ObjectPool" and obj
  assume "objects_ok s" and "obj \<in> objects_live s"
  then show "objects_ok (pool_Release initial True s (Some obj)) \<and>
      objects_live (pool_Release initial True s (Some obj)) = objects_live s - {obj}"
    by (auto simp: pool_Release_def objects_ok_def objects_live_def)
qed

text \<open>An acquired object is in its initial state, and a pool that is not exhausted always has one.\<close>

lemma pool_Acquire_reset:
  assumes "objects_ok s" and "pool_Acquire initial owner s = (s', Some obj)"
  shows "ob_storage s' ! obj = initial" and "obj < ob_capacity s"
proof -
  have ne: "ob_free_list s \<noteq> []" and res: "obj = last (ob_free_list s)" "ob_storage s' = (ob_storage s)[obj := initial]"
    using assms(2) by (auto simp: pool_Acquire_def Let_def split: if_splits)
  from ne res(1) assms(1) show "obj < ob_capacity s" by (auto simp: objects_ok_def dest!: last_in_set)
  with assms(1) res(2) show "ob_storage s' ! obj = initial" by (simp add: objects_ok_def)
qed

lemma pool_Acquire_available: "fst (pool_Acquire initial True s) = s \<and> snd (pool_Acquire initial True s) = None \<longleftrightarrow> pool_available s = 0"
  by (auto simp: pool_Acquire_def pool_available_def Let_def)

lemma objects_conserved:
  assumes "objects.program initial s held"
  shows "pool_available s + length held = ob_capacity s"
proof -
  from objects.program_holds_live [OF assms] have ok: "objects_ok s" "distinct held" "objects_live s = set held" by simp_all
  then have "card (set held) = ob_capacity s - length (ob_free_list s)"
    unfolding ok(3) [symmetric] objects_live_def by (simp add: objects_ok_def card_Diff_subset distinct_card)
  moreover have "length (ob_free_list s) \<le> ob_capacity s"
    using ok(1) by (metis card_lessThan card_mono distinct_card finite_lessThan objects_ok_def)
  ultimately show ?thesis using ok(2) by (simp add: pool_available_def distinct_card)
qed

lemma new_ObjectPool_client: "objects.program initial (new_ObjectPool initial capacity) []"
  by (rule objects.program.start) (auto simp: new_ObjectPool_def objects_ok_def objects_live_def)

end
