(* ===== verification/Logging.thy ===== *)
theory Logging
  imports Prelude
begin

text \<open>
  The logger, \<^verbatim>\<open>src/core/logger.cc\<close>: level filter, line format, output to standard error and to a file that is
  rotated when it would become too large. Every operation holds the logger's mutex and is one step.

  \<open>stream\<close> is the state of the \<^verbatim>\<open>std::ofstream\<close>: whether its file is open and whether it has failed; \<^verbatim>\<open>close\<close> of a
  stream that is not open makes it fail, a successful \<^verbatim>\<open>open\<close> clears the failure. \<open>lg_disk\<close> is the content of
  files by path. What the system decides, and the time as \<^verbatim>\<open>put_time\<close> prints it, is in \<open>logger_io\<close>.
\<close>

section \<open>Levels\<close>

datatype LogLevel = kTrace | kDebug | kInfo | kWarn | kError | kCritical

fun level_number :: "LogLevel \<Rightarrow> nat" where
  "level_number kTrace = 0" | "level_number kDebug = 1" | "level_number kInfo = 2"
| "level_number kWarn = 3" | "level_number kError = 4" | "level_number kCritical = 5"

instantiation LogLevel :: linorder
begin

definition less_eq_LogLevel :: "LogLevel \<Rightarrow> LogLevel \<Rightarrow> bool" where
  "less_eq_LogLevel a b \<longleftrightarrow> level_number a \<le> level_number b"

definition less_LogLevel :: "LogLevel \<Rightarrow> LogLevel \<Rightarrow> bool" where
  "less_LogLevel a b \<longleftrightarrow> level_number a < level_number b"

instance
proof
  fix a b :: LogLevel
  show "a \<le> b \<Longrightarrow> b \<le> a \<Longrightarrow> a = b" by (cases a; cases b) (simp_all add: less_eq_LogLevel_def)
qed (auto simp: less_eq_LogLevel_def less_LogLevel_def)

end

fun LevelName :: "LogLevel \<Rightarrow> bytes" where
  "LevelName kTrace = str ''trace''" | "LevelName kDebug = str ''debug''" | "LevelName kInfo = str ''info''"
| "LevelName kWarn = str ''warn''" | "LevelName kError = str ''error''" | "LevelName kCritical = str ''critical''"

section \<open>The logger\<close>

record stream =
  st_is_open :: bool
  st_failed :: bool

record Logger =
  lg_level :: LogLevel
  lg_file :: stream
  lg_file_path :: bytes
  lg_file_bytes :: u64
  lg_max_file_bytes :: u64
  lg_disk :: "bytes \<Rightarrow> bytes option"
  lg_stderr :: bytes

record logger_io =
  lo_time :: bytes
  lo_create_directories :: "string option"
  lo_open :: bool
  lo_size_known :: bool
  lo_rename :: bool
  lo_write :: "nat option"

definition kMaxLineBytes :: nat where "kMaxLineBytes = 4096"

definition stream_close :: "stream \<Rightarrow> stream" where
  "stream_close f = (if st_is_open f then f\<lparr>st_is_open := False\<rparr> else f\<lparr>st_failed := True\<rparr>)"

definition stream_open :: "bool \<Rightarrow> stream \<Rightarrow> stream" where
  "stream_open success f =
    (if st_is_open f \<or> \<not> success then f\<lparr>st_failed := True\<rparr> else \<lparr>st_is_open = True, st_failed = False\<rparr>)"

definition SetLevel :: "Logger \<Rightarrow> LogLevel \<Rightarrow> Logger" where
  "SetLevel s level = s\<lparr>lg_level := level\<rparr>"

text \<open>A path has a parent when it contains a slash.\<close>

definition SetFile :: "logger_io \<Rightarrow> Logger \<Rightarrow> bytes \<Rightarrow> u64 \<Rightarrow> Logger \<times> unit result" where
  "SetFile io s path max_file_bytes =
    (if path = [] \<or> max_file_bytes = 0 then (s, Inl ''invalid log file configuration'')
     else case (if 47 \<in> set path then lo_create_directories io else None) of
       Some message \<Rightarrow> (s, Inl message)
     | None \<Rightarrow>
         let file = stream_open (lo_open io) (stream_close (lg_file s)) in
         if st_failed file then (s\<lparr>lg_file := file\<rparr>, Inl ''cannot open log file'')
         else
           let content = (case lg_disk s path of None \<Rightarrow> [] | Some c \<Rightarrow> c) in
           (s\<lparr>lg_file := file, lg_file_path := path, lg_max_file_bytes := max_file_bytes,
              lg_file_bytes := (if lo_size_known io then of_nat (length content) else 0),
              lg_disk := (lg_disk s)(path \<mapsto> content)\<rparr>, Inr ()))"

definition CloseFile :: "Logger \<Rightarrow> Logger" where
  "CloseFile s = s\<lparr>lg_file := stream_close (lg_file s), lg_file_path := [], lg_file_bytes := 0, lg_max_file_bytes := 0\<rparr>"

definition backup_path :: "bytes \<Rightarrow> bytes" where
  "backup_path path = path @ str ''.1''"

text \<open>The old backup is removed whether or not the file can be renamed.\<close>

definition RotateIfNeeded :: "logger_io \<Rightarrow> Logger \<Rightarrow> nat \<Rightarrow> Logger \<times> bool" where
  "RotateIfNeeded io s next_line_bytes =
    (if lg_file_bytes s = 0 \<or> of_nat next_line_bytes \<le> lg_max_file_bytes s - lg_file_bytes s then (s, True)
     else
       let backup = backup_path (lg_file_path s);
           s1 = s\<lparr>lg_file := stream_close (lg_file s), lg_disk := (lg_disk s)(backup := None)\<rparr>
       in case lg_disk s1 (lg_file_path s) of
            None \<Rightarrow> (s1, False)
          | Some content \<Rightarrow>
              if \<not> lo_rename io then (s1, False)
              else
                let file = stream_open (lo_open io) (lg_file s1);
                    moved = (lg_disk s1)(lg_file_path s := None, backup \<mapsto> content)
                in (s1\<lparr>lg_file := file, lg_file_bytes := 0,
                       lg_disk := (if st_failed file then moved else moved(lg_file_path s \<mapsto> []))\<rparr>,
                    \<not> st_failed file))"

definition format_line :: "bytes \<Rightarrow> LogLevel \<Rightarrow> bytes \<Rightarrow> bytes" where
  "format_line time level message =
    (let line = time @ str '' ['' @ LevelName level @ str ''] '';
         available = (if kMaxLineBytes > length line then kMaxLineBytes - length line else 0)
     in line @ take available message @ [10])"

text \<open>Writing to the file: nothing reaches a stream that is not open; \<open>lo_write\<close> gives the bytes written when it fails.\<close>

definition write_line :: "logger_io \<Rightarrow> Logger \<Rightarrow> bytes \<Rightarrow> Logger" where
  "write_line io s formatted =
    (if \<not> st_is_open (lg_file s) then s\<lparr>lg_file := (lg_file s)\<lparr>st_failed := True\<rparr>\<rparr>
     else
       let content = (case lg_disk s (lg_file_path s) of None \<Rightarrow> [] | Some c \<Rightarrow> c) in
       case lo_write io of
         None \<Rightarrow> s\<lparr>lg_disk := (lg_disk s)(lg_file_path s \<mapsto> content @ formatted)\<rparr>
       | Some n \<Rightarrow> s\<lparr>lg_disk := (lg_disk s)(lg_file_path s \<mapsto> content @ take n formatted),
                      lg_file := (lg_file s)\<lparr>st_failed := True\<rparr>\<rparr>)"

definition Log :: "logger_io \<Rightarrow> Logger \<Rightarrow> LogLevel \<Rightarrow> bytes \<Rightarrow> Logger" where
  "Log io s level message =
    (if level < lg_level s then s
     else
       let formatted = format_line (lo_time io) level message;
           s1 = s\<lparr>lg_stderr := lg_stderr s @ formatted\<rparr>
       in if st_failed (lg_file s1) then s1
          else case RotateIfNeeded io s1 (length formatted) of
            (s2, False) \<Rightarrow> s2
          | (s2, True) \<Rightarrow>
              let s3 = write_line io s2 formatted in
              s3\<lparr>lg_file_bytes := lg_file_bytes s3 + of_nat (length formatted)\<rparr>)"

definition new_Logger :: "(bytes \<Rightarrow> bytes option) \<Rightarrow> Logger" where
  "new_Logger disk = \<lparr>lg_level = kInfo, lg_file = \<lparr>st_is_open = False, st_failed = False\<rparr>, lg_file_path = [],
     lg_file_bytes = 0, lg_max_file_bytes = 0, lg_disk = disk, lg_stderr = []\<rparr>"

section \<open>Lines\<close>

lemma LevelName_length: "length (LevelName level) \<le> 8"
  by (cases level) (simp_all add: str_def)

lemma format_line_length:
  assumes "length time \<le> 4084"
  shows "0 < length (format_line time level message)" and "length (format_line time level message) \<le> 4097"
  using assms LevelName_length [of level]
  by (auto simp: format_line_def Let_def kMaxLineBytes_def str_def)

section \<open>The log file stays within its limit\<close>

text \<open>The file is open, its size is known and within the limit; the limit has room for a line.\<close>

definition log_ok :: "Logger \<Rightarrow> bool" where
  "log_ok s \<longleftrightarrow> st_is_open (lg_file s) \<and> \<not> st_failed (lg_file s) \<and> 4097 \<le> unat (lg_max_file_bytes s) \<and>
     (\<exists>content. lg_disk s (lg_file_path s) = Some content \<and> lg_file_bytes s = of_nat (length content) \<and>
       length content \<le> unat (lg_max_file_bytes s))"

definition log_works :: "logger_io \<Rightarrow> bool" where
  "log_works io \<longleftrightarrow> lo_open io \<and> lo_rename io \<and> lo_write io = None \<and> length (lo_time io) \<le> 4084"

definition file_content :: "Logger \<Rightarrow> bytes" where
  "file_content s = (case lg_disk s (lg_file_path s) of None \<Rightarrow> [] | Some c \<Rightarrow> c)"

text \<open>What the backup and the file hold together.\<close>

definition recorded :: "Logger \<Rightarrow> bytes" where
  "recorded s = (case lg_disk s (backup_path (lg_file_path s)) of None \<Rightarrow> [] | Some c \<Rightarrow> c) @ file_content s"

lemma backup_path_neq [simp]: "backup_path path \<noteq> path" "path \<noteq> backup_path path"
  by (simp_all add: backup_path_def str_def)

lemma room_left:
  assumes "length content \<le> unat (m :: u64)" and "n \<le> 4097"
  shows "of_nat n \<le> m - of_nat (length content) \<longleftrightarrow> length content + n \<le> unat m"
proof -
  have m: "unat m < 2 ^ 64" using unat_bound [of m] by simp
  then have c: "unat (of_nat (length content) :: u64) = length content" "unat (of_nat n :: u64) = n"
    using assms by (simp_all add: unat_of_nat_fits)
  then have "unat (m - of_nat (length content)) = unat m - length content"
    using assms(1) by (simp add: unat_sub word_le_nat_alt)
  then show ?thesis using c assms(1) by (auto simp: word_le_nat_alt)
qed

lemma size_zero: "length content \<le> unat (m :: u64) \<Longrightarrow> (of_nat (length content) :: u64) = 0 \<longleftrightarrow> content = []"
  using unat_bound [of m] by (simp add: word_unat_eq_iff unat_of_nat_fits)

text \<open>A line is appended to the file, or starts a new file after the old one became the backup.\<close>

lemma Log_step:
  fixes message :: bytes
  assumes ok: "log_ok s" and io: "log_works io" and level: "\<not> level < lg_level s"
  defines "line \<equiv> format_line (lo_time io) level message"
  shows "log_ok (Log io s level message)"
    and "lg_level (Log io s level message) = lg_level s" "lg_max_file_bytes (Log io s level message) = lg_max_file_bytes s"
    and "recorded (Log io s level message) = recorded s @ line \<or>
      suffix (recorded (Log io s level message)) (recorded s @ line) \<and>
      unat (lg_max_file_bytes s) < length (recorded (Log io s level message))"
proof -
  obtain content where c: "lg_disk s (lg_file_path s) = Some content" "lg_file_bytes s = of_nat (length content)"
    "length content \<le> unat (lg_max_file_bytes s)" using ok by (auto simp: log_ok_def)
  have opened: "st_is_open (lg_file s)" "\<not> st_failed (lg_file s)" "4097 \<le> unat (lg_max_file_bytes s)" using ok by (simp_all add: log_ok_def)
  have io': "lo_open io" "lo_rename io" "lo_write io = None" using io by (simp_all add: log_works_def)
  have len: "0 < length line" "length line \<le> 4097" using format_line_length [of "lo_time io"] io by (simp_all add: line_def log_works_def)
  let ?s' = "Log io s level message"
  have "log_ok ?s' \<and> lg_level ?s' = lg_level s \<and> lg_max_file_bytes ?s' = lg_max_file_bytes s \<and>
    (recorded ?s' = recorded s @ line \<or> suffix (recorded ?s') (recorded s @ line) \<and> unat (lg_max_file_bytes s) < length (recorded ?s'))"
  proof (cases "content = [] \<or> length content + length line \<le> unat (lg_max_file_bytes s)")
    case True
    then have "RotateIfNeeded io (s\<lparr>lg_stderr := lg_stderr s @ line\<rparr>) (length line) = (s\<lparr>lg_stderr := lg_stderr s @ line\<rparr>, True)"
      using room_left [OF c(3) len(2)] size_zero [OF c(3)] by (auto simp: RotateIfNeeded_def c)
    then have s': "?s' = s\<lparr>lg_stderr := lg_stderr s @ line, lg_disk := (lg_disk s)(lg_file_path s \<mapsto> content @ line),
        lg_file_bytes := of_nat (length (content @ line))\<rparr>"
      using level opened io' c by (simp add: Log_def Let_def write_line_def flip: line_def)
    from True len opened have "length (content @ line) \<le> unat (lg_max_file_bytes s)" by auto
    then show ?thesis
      using opened c by (simp add: s' log_ok_def recorded_def file_content_def split: option.split)
  next
    case False
    let ?disk = "(lg_disk s)(backup_path (lg_file_path s) \<mapsto> content, lg_file_path s \<mapsto> [])"
    have "RotateIfNeeded io (s\<lparr>lg_stderr := lg_stderr s @ line\<rparr>) (length line) =
        (s\<lparr>lg_stderr := lg_stderr s @ line, lg_file := \<lparr>st_is_open = True, st_failed = False\<rparr>, lg_file_bytes := 0, lg_disk := ?disk\<rparr>, True)"
      using False room_left [OF c(3) len(2)] size_zero [OF c(3)] opened io'
      by (auto simp: RotateIfNeeded_def c Let_def stream_open_def stream_close_def fun_upd_twist)
    then have s': "?s' = s\<lparr>lg_stderr := lg_stderr s @ line, lg_file := \<lparr>st_is_open = True, st_failed = False\<rparr>,
        lg_disk := ?disk(lg_file_path s \<mapsto> line), lg_file_bytes := of_nat (length line)\<rparr>"
      using level opened io' c by (simp add: Log_def Let_def write_line_def flip: line_def)
    show ?thesis
      using False opened c len by (auto simp: s' log_ok_def recorded_def file_content_def suffix_def split: option.split)
  qed
  then show "log_ok ?s'" "lg_level ?s' = lg_level s" "lg_max_file_bytes ?s' = lg_max_file_bytes s"
    "recorded ?s' = recorded s @ line \<or> suffix (recorded ?s') (recorded s @ line) \<and> unat (lg_max_file_bytes s) < length (recorded ?s')"
    by blast+
qed

text \<open>A sequence of messages, and the lines of those that pass the level.\<close>

definition log_all :: "Logger \<Rightarrow> (logger_io \<times> LogLevel \<times> bytes) list \<Rightarrow> Logger" where
  "log_all = foldl (\<lambda>s (io, level, message). Log io s level message)"

definition lines_of :: "LogLevel \<Rightarrow> (logger_io \<times> LogLevel \<times> bytes) list \<Rightarrow> bytes" where
  "lines_of threshold entries = concat (map (\<lambda>(io, level, message).
     if level < threshold then [] else format_line (lo_time io) level message) entries)"

lemma log_all_records:
  assumes "log_ok s" and "\<forall>(io, level, message) \<in> set entries. log_works io"
  shows "log_ok (log_all s entries) \<and> lg_max_file_bytes (log_all s entries) = lg_max_file_bytes s \<and>
    (recorded (log_all s entries) = recorded s @ lines_of (lg_level s) entries \<or>
     suffix (recorded (log_all s entries)) (recorded s @ lines_of (lg_level s) entries) \<and>
     unat (lg_max_file_bytes s) < length (recorded (log_all s entries)))"
  using assms
proof (induction entries arbitrary: s)
  case Nil
  then show ?case by (simp add: log_all_def lines_of_def)
next
  case (Cons entry entries)
  obtain io level message where e: "entry = (io, level, message)" by (cases entry)
  show ?case
  proof (cases "level < lg_level s")
    case True
    then have "log_all s (entry # entries) = log_all s entries" "lines_of (lg_level s) (entry # entries) = lines_of (lg_level s) entries"
      by (simp_all add: log_all_def lines_of_def e Log_def)
    with Cons.IH [OF Cons.prems(1)] Cons.prems(2) show ?thesis by simp
  next
    case False
    let ?s = "Log io s level message" and ?line = "format_line (lo_time io) level message"
    let ?rest = "lines_of (lg_level s) entries"
    have io: "log_works io" using Cons.prems(2) by (simp add: e)
    note step = Log_step [OF Cons.prems(1) io False, of message]
    have all: "log_all s (entry # entries) = log_all ?s entries" "lines_of (lg_level s) (entry # entries) = ?line @ ?rest"
      using False by (simp_all add: log_all_def lines_of_def e)
    from Cons.IH [OF step(1)] Cons.prems(2)
    have IH: "log_ok (log_all ?s entries)" "lg_max_file_bytes (log_all ?s entries) = lg_max_file_bytes s"
      "recorded (log_all ?s entries) = recorded ?s @ ?rest \<or>
       suffix (recorded (log_all ?s entries)) (recorded ?s @ ?rest) \<and> unat (lg_max_file_bytes s) < length (recorded (log_all ?s entries))"
      by (simp_all add: step(2,3))
    have "suffix (recorded ?s @ ?rest) ((recorded s @ ?line) @ ?rest)" using step(4) by (auto simp: suffix_def)
    with IH step(4) show ?thesis unfolding all by (auto intro: suffix_order.trans)
  qed
qed

section \<open>A file above the limit\<close>

text \<open>The room left is a difference of unsigned numbers. When the file is already larger than the limit it wraps around, and
  the file is never rotated again.\<close>

lemma oversized_log_never_rotates:
  assumes "unat (lg_max_file_bytes s) < unat (lg_file_bytes s)" and "unat (lg_file_bytes s) + n \<le> 2 ^ 64"
  shows "RotateIfNeeded io s n = (s, True)"
proof -
  let ?m = "lg_max_file_bytes s" and ?b = "lg_file_bytes s"
  have n: "n < 2 ^ 64" using assms by auto
  have "unat (?m - ?b) = unat ?m + 2 ^ 64 - unat ?b"
    using assms(1) unat_bound [of ?b] unat_bound [of ?m] by (simp add: unat_sub_if' unat_plus_if')
  with assms n have "of_nat n \<le> ?m - ?b" by (simp add: word_le_nat_alt unat_of_nat_fits)
  then show ?thesis by (simp add: RotateIfNeeded_def)
qed

text \<open>Each further line is then appended to the file, as long as the counter of its bytes does not wrap around.\<close>

definition log_oversized :: "Logger \<Rightarrow> bool" where
  "log_oversized s \<longleftrightarrow> st_is_open (lg_file s) \<and> \<not> st_failed (lg_file s) \<and>
     (\<exists>content. lg_disk s (lg_file_path s) = Some content \<and> lg_file_bytes s = of_nat (length content) \<and>
       unat (lg_max_file_bytes s) < length content)"

lemma Log_oversized:
  fixes message :: bytes
  assumes over: "log_oversized s" and io: "log_works io" and level: "\<not> level < lg_level s"
    and fits: "length (file_content s) + length (format_line (lo_time io) level message) < 2 ^ 64"
  defines "s' \<equiv> Log io s level message"
  shows "log_oversized s' \<and> lg_level s' = lg_level s \<and> lg_file_path s' = lg_file_path s \<and>
    lg_disk s' = (lg_disk s)(lg_file_path s \<mapsto> file_content s @ format_line (lo_time io) level message)"
proof -
  let ?line = "format_line (lo_time io) level message"
  obtain content where c: "lg_disk s (lg_file_path s) = Some content" "lg_file_bytes s = of_nat (length content)"
    "unat (lg_max_file_bytes s) < length content" using over by (auto simp: log_oversized_def)
  have opened: "st_is_open (lg_file s)" "\<not> st_failed (lg_file s)" "lo_write io = None"
    using over io by (simp_all add: log_oversized_def log_works_def)
  have len: "length content + length ?line < 2 ^ 64" using fits c by (simp add: file_content_def)
  then have "unat (lg_file_bytes s) = length content" using c(2) by (simp add: unat_of_nat_fits)
  then have "RotateIfNeeded io (s\<lparr>lg_stderr := lg_stderr s @ ?line\<rparr>) (length ?line) = (s\<lparr>lg_stderr := lg_stderr s @ ?line\<rparr>, True)"
    using len c(3) by (intro oversized_log_never_rotates) simp_all
  then have "s' = s\<lparr>lg_stderr := lg_stderr s @ ?line, lg_disk := (lg_disk s)(lg_file_path s \<mapsto> content @ ?line),
      lg_file_bytes := of_nat (length (content @ ?line))\<rparr>"
    using level opened c by (simp add: s'_def Log_def Let_def write_line_def)
  then show ?thesis using opened c by (simp add: log_oversized_def file_content_def)
qed

lemma lines_of_Cons:
  "lines_of threshold ((io, level, message) # entries) =
     (if level < threshold then [] else format_line (lo_time io) level message) @ lines_of threshold entries"
  by (simp add: lines_of_def)

lemma log_all_Cons: "log_all s ((io, level, message) # entries) = log_all (Log io s level message) entries"
  by (simp add: log_all_def)

lemma log_all_oversized:
  assumes "log_oversized s" and "\<forall>(io, level, message) \<in> set entries. log_works io"
    and "length (file_content s) + length (lines_of (lg_level s) entries) < 2 ^ 64"
  shows "lg_file_path (log_all s entries) = lg_file_path s \<and>
    lg_disk (log_all s entries) = (lg_disk s)(lg_file_path s \<mapsto> file_content s @ lines_of (lg_level s) entries)"
  using assms
proof (induction entries arbitrary: s)
  case Nil
  then show ?case by (auto simp: log_all_def lines_of_def log_oversized_def file_content_def)
next
  case (Cons entry entries)
  obtain io level message where e: "entry = (io, level, message)" by (cases entry)
  show ?case
  proof (cases "level < lg_level s")
    case True
    then have "Log io s level message = s" by (simp add: Log_def)
    then show ?thesis using Cons True by (simp add: e lines_of_Cons log_all_Cons)
  next
    case False
    let ?s = "Log io s level message"
    have "log_works io" "length (file_content s) + length (format_line (lo_time io) level message) < 2 ^ 64"
      using Cons.prems(2,3) False by (simp_all add: e lines_of_Cons)
    note step = Log_oversized [OF Cons.prems(1) this(1) False this(2)]
    then have content: "file_content ?s = file_content s @ format_line (lo_time io) level message"
      by (simp add: file_content_def)
    have "lg_file_path (log_all ?s entries) = lg_file_path ?s \<and>
      lg_disk (log_all ?s entries) = (lg_disk ?s)(lg_file_path ?s \<mapsto> file_content ?s @ lines_of (lg_level ?s) entries)"
      using step content Cons.prems(2,3) False by (intro Cons.IH) (simp_all add: e lines_of_Cons)
    then show ?thesis using step content False by (simp add: e lines_of_Cons log_all_Cons)
  qed
qed

section \<open>A file system that may refuse anything\<close>

text \<open>The size of the file is known, or the stream has failed and writes nothing any more.\<close>

definition log_bounded :: "Logger \<Rightarrow> bool" where
  "log_bounded s \<longleftrightarrow> 4097 \<le> unat (lg_max_file_bytes s) \<and> length (file_content s) \<le> unat (lg_max_file_bytes s) \<and>
     (st_failed (lg_file s) \<or>
      (lg_disk s (lg_file_path s) \<noteq> None \<and> lg_file_bytes s = of_nat (length (file_content s))))"

lemma write_line_bounded:
  assumes "log_bounded s" and "length (file_content s) + length line \<le> unat (lg_max_file_bytes s)"
  shows "log_bounded ((write_line io s line)\<lparr>lg_file_bytes := lg_file_bytes s + of_nat (length line)\<rparr>)"
  using assms by (auto simp: log_bounded_def write_line_def file_content_def Let_def split: option.splits)

lemma RotateIfNeeded_bounded:
  assumes "log_bounded s" and "\<not> st_failed (lg_file s)" and "n \<le> 4097" and "RotateIfNeeded io s n = (s', r)"
  shows "log_bounded s' \<and> (r \<longrightarrow> length (file_content s') + n \<le> unat (lg_max_file_bytes s'))
    \<and> lg_max_file_bytes s' = lg_max_file_bytes s"
proof -
  obtain content where c: "lg_disk s (lg_file_path s) = Some content" "file_content s = content"
      "lg_file_bytes s = of_nat (length content)" "length content \<le> unat (lg_max_file_bytes s)"
    using assms(1,2) by (auto simp: log_bounded_def file_content_def)
  show ?thesis
  proof (cases "content = [] \<or> length content + n \<le> unat (lg_max_file_bytes s)")
    case True
    then have "s' = s \<and> r" using assms(4) room_left [OF c(4) assms(3)] size_zero [OF c(4)]
      by (auto simp: RotateIfNeeded_def c)
    then show ?thesis using assms(1,3) True c by (auto simp: log_bounded_def)
  next
    case False
    then show ?thesis using assms room_left [OF c(4) assms(3)] size_zero [OF c(4)] c
      by (auto simp: RotateIfNeeded_def log_bounded_def file_content_def Let_def split: if_splits)
  qed
qed

lemma write_line_keeps [simp]:
  "lg_file_bytes (write_line io s line) = lg_file_bytes s" "lg_max_file_bytes (write_line io s line) = lg_max_file_bytes s"
  by (simp_all add: write_line_def Let_def split: option.split)

lemma Log_bounded:
  assumes "log_bounded s" and "length (lo_time io) \<le> 4084"
  shows "log_bounded (Log io s level message) \<and> lg_max_file_bytes (Log io s level message) = lg_max_file_bytes s"
proof (cases "level < lg_level s \<or> st_failed (lg_file s)")
  case True
  then show ?thesis using assms(1) by (auto simp: Log_def log_bounded_def file_content_def Let_def)
next
  case False
  let ?line = "format_line (lo_time io) level message"
  let ?s = "s\<lparr>lg_stderr := lg_stderr s @ ?line\<rparr>"
  obtain s2 r where r: "RotateIfNeeded io ?s (length ?line) = (s2, r)" by fastforce
  have "log_bounded ?s" "\<not> st_failed (lg_file ?s)" using assms(1) False by (simp_all add: log_bounded_def file_content_def)
  note rotated = RotateIfNeeded_bounded [OF this format_line_length(2) [OF assms(2)] r]
  have "Log io s level message = (if r then (write_line io s2 ?line)\<lparr>lg_file_bytes := lg_file_bytes s2 + of_nat (length ?line)\<rparr> else s2)"
    using False r by (simp add: Log_def Let_def split: bool.split)
  then show ?thesis using rotated write_line_bounded [of s2 ?line io] by (cases r) auto
qed

lemma log_all_bounded:
  assumes "log_bounded s" and "\<forall>(io, level, message) \<in> set entries. length (lo_time io) \<le> 4084"
  shows "log_bounded (log_all s entries) \<and> lg_max_file_bytes (log_all s entries) = lg_max_file_bytes s"
  using assms
proof (induction entries arbitrary: s)
  case Nil
  then show ?case by (simp add: log_all_def)
next
  case (Cons entry entries)
  obtain io level message where e: "entry = (io, level, message)" by (cases entry)
  have "length (lo_time io) \<le> 4084" using Cons.prems(2) by (simp add: e)
  from Log_bounded [OF Cons.prems(1) this, of level message] Cons.IH [of "Log io s level message"] Cons.prems(2)
  show ?case by (simp add: e log_all_Cons)
qed

section \<open>Properties\<close>

lemma SetFile_opens:
  assumes "SetFile io s0 path max_file_bytes = (s, Inr ())" and "lo_size_known io"
  shows "st_is_open (lg_file s) \<and> \<not> st_failed (lg_file s) \<and> lg_file_path s = path \<and> lg_max_file_bytes s = max_file_bytes \<and>
    lg_disk s path = Some (file_content s) \<and> lg_file_bytes s = of_nat (length (file_content s))"
  using assms
  by (auto simp: SetFile_def file_content_def stream_open_def stream_close_def Let_def split: if_splits option.splits)

text \<open>C40: The logger opens a file, of which it learns the size, with a limit of at least one line (4097 bytes). A file that is
  within the limit at that time stays within it, whatever the file system answers to the writes, renames and openings that
  follow; and while they all succeed, the backup and the file together are the end of what was logged: either everything,
  or more than one full file of it. A file that is larger than the limit when it is opened is never rotated: every
  line is appended to it and nothing else of the disk changes, as long as its size is below \<open>2\<^sup>6\<^sup>4\<close>.\<close>

theorem log_file_bounded:
  assumes "SetFile io s0 path max_file_bytes = (s, Inr ())" and "lo_size_known io" and "4097 \<le> unat max_file_bytes"
    and "\<forall>(io, level, message) \<in> set entries. length (lo_time io) \<le> 4084"
  shows "(length (file_content s) \<le> unat max_file_bytes \<longrightarrow>
      length (file_content (log_all s entries)) \<le> unat max_file_bytes \<and>
      ((\<forall>(io, level, message) \<in> set entries. log_works io) \<longrightarrow>
        suffix (recorded (log_all s entries)) (recorded s @ lines_of (lg_level s) entries) \<and>
        (recorded (log_all s entries) = recorded s @ lines_of (lg_level s) entries \<or>
         unat max_file_bytes < length (recorded (log_all s entries))))) \<and>
    (unat max_file_bytes < length (file_content s) \<longrightarrow>
      (\<forall>(io, level, message) \<in> set entries. log_works io) \<longrightarrow>
      length (file_content s @ lines_of (lg_level s) entries) < 2 ^ 64 \<longrightarrow>
      lg_disk (log_all s entries) = (lg_disk s)(path \<mapsto> file_content s @ lines_of (lg_level s) entries))"
proof -
  note opened = SetFile_opens [OF assms(1,2)]
  have "log_bounded (log_all s entries)" "lg_max_file_bytes (log_all s entries) = max_file_bytes"
    if "length (file_content s) \<le> unat max_file_bytes"
    using that opened assms(3) log_all_bounded [OF _ assms(4), of s] by (auto simp: log_bounded_def)
  then have bounded: "length (file_content (log_all s entries)) \<le> unat max_file_bytes"
    if "length (file_content s) \<le> unat max_file_bytes"
    using that by (simp add: log_bounded_def)
  have "log_ok s" if "length (file_content s) \<le> unat max_file_bytes" using that opened assms(3) by (simp add: log_ok_def)
  then have "suffix (recorded (log_all s entries)) (recorded s @ lines_of (lg_level s) entries) \<and>
        (recorded (log_all s entries) = recorded s @ lines_of (lg_level s) entries \<or>
         unat max_file_bytes < length (recorded (log_all s entries)))"
    if "length (file_content s) \<le> unat max_file_bytes" "\<forall>(io, level, message) \<in> set entries. log_works io"
    using that log_all_records [of s entries] opened by auto
  moreover have "log_oversized s" if "unat max_file_bytes < length (file_content s)"
    using that opened by (simp add: log_oversized_def)
  ultimately show ?thesis using bounded log_all_oversized [of s entries] opened by simp
qed

definition demo_logger_io :: logger_io where
  "demo_logger_io = \<lparr>lo_time = str ''2024-01-01T00:00:00'', lo_create_directories = None, lo_open = True, lo_size_known = True,
     lo_rename = True, lo_write = None\<rparr>"

definition demo_logger :: Logger where
  "demo_logger = fst (SetFile demo_logger_io (new_Logger (\<lambda>_. None)) [108] 8192)"

lemma demo_logger_ok: "log_ok demo_logger" "recorded demo_logger = []" "lg_level demo_logger = kInfo" "lg_max_file_bytes demo_logger = 8192"
  by (simp_all add: demo_logger_def SetFile_def new_Logger_def demo_logger_io_def stream_open_def stream_close_def Let_def log_ok_def
      recorded_def file_content_def)

definition demo_full_logger :: Logger where
  "demo_full_logger = fst (SetFile demo_logger_io (new_Logger [[108] \<mapsto> replicate 4098 0]) [108] 4097)"

lemmas SetFile_run = SetFile_def new_Logger_def demo_logger_io_def stream_open_def stream_close_def Let_def

lemma demo_logger_opened:
  "SetFile demo_logger_io (new_Logger (\<lambda>_. None)) [108] 8192 = (demo_logger, Inr ())"
  "SetFile demo_logger_io (new_Logger [[108] \<mapsto> replicate 4098 0]) [108] 4097 = (demo_full_logger, Inr ())"
  by (simp_all add: demo_logger_def demo_full_logger_def SetFile_run)

lemma demo_full_content: "file_content demo_full_logger = replicate 4098 0" "lg_level demo_full_logger = kInfo"
  by (simp_all add: demo_full_logger_def SetFile_run file_content_def)

theorem log_file_bounded_witness:
  "length (file_content (log_all demo_logger [(demo_logger_io\<lparr>lo_write := Some 3\<rparr>, kError, [120])])) \<le> 8192 \<and>
   suffix (recorded (log_all demo_logger [(demo_logger_io, kError, [120])])) (format_line (str ''2024-01-01T00:00:00'') kError [120]) \<and>
   lg_disk (log_all demo_full_logger [(demo_logger_io, kError, [120])]) [108] =
     Some (replicate 4098 0 @ format_line (str ''2024-01-01T00:00:00'') kError [120])"
proof -
  let ?e = "[(demo_logger_io, kError, [120 :: byte])]" and ?f = "[(demo_logger_io\<lparr>lo_write := Some 3\<rparr>, kError, [120 :: byte])]"
  have works: "\<forall>(io, level, message) \<in> set ?e. log_works io" "lo_size_known demo_logger_io"
    "\<forall>(io, level, message) \<in> set ?e. length (lo_time io) \<le> 4084" "\<forall>(io, level, message) \<in> set ?f. length (lo_time io) \<le> 4084"
    by (simp_all add: log_works_def demo_logger_io_def str_def)
  have line: "lines_of kInfo ?e = format_line (str ''2024-01-01T00:00:00'') kError [120]"
    by (simp add: lines_of_def less_LogLevel_def) (simp add: demo_logger_io_def)
  have short: "length (format_line (str ''2024-01-01T00:00:00'') kError [120]) \<le> 4097"
    by (rule format_line_length) (simp add: str_def)
  have small: "file_content demo_logger = []" using demo_logger_ok(2) by (simp add: recorded_def)
  have a: "length (file_content (log_all demo_logger ?f)) \<le> 8192"
    using log_file_bounded [OF demo_logger_opened(1) works(2) _ works(4)] small by simp
  have b: "suffix (recorded (log_all demo_logger ?e)) (format_line (str ''2024-01-01T00:00:00'') kError [120])"
    using log_file_bounded [OF demo_logger_opened(1) works(2) _ works(3)] small works(1) demo_logger_ok line by simp
  have c: "lg_disk (log_all demo_full_logger ?e) = (lg_disk demo_full_logger)([108] \<mapsto> replicate 4098 0 @
      format_line (str ''2024-01-01T00:00:00'') kError [120])"
    using log_file_bounded [OF demo_logger_opened(2) works(2) _ works(3)] demo_full_content works(1) line short by simp
  show ?thesis using a b c by simp
qed

end
