(* ===== verification/Event_Loop.thy ===== *)
theory Event_Loop
  imports Prelude "HOL-Library.Sublist"
begin

text \<open>
  The event loop, \<^verbatim>\<open>src/network/event_loop.cc\<close>: a thread that runs queued tasks and the callbacks of descriptors, with its
  start and its stop, as Linux compiles it. \<open>el_run\<close> is where the loop's own thread is in \<^verbatim>\<open>Run\<close>; \<open>el_calls\<close> are the
  calls of \<^verbatim>\<open>Start\<close>, \<^verbatim>\<open>QueueInLoop\<close> and \<^verbatim>\<open>Stop\<close> in progress, from any thread, each at one of the steps between its accesses
  to shared variables; a call of \<^verbatim>\<open>Stop\<close> is not made by a task of the loop itself, which could not join its own thread.
  Steps of the loop and of the calls interleave in any order. The task queue is a list; as the lock-free ring it may refuse a task
  and may look empty while a task is being stored, which are arguments of the steps. The counter of queued tasks is a word,
  because the loop can take a task before it has been counted.

  History fields have the tasks accepted and the tasks run (\<open>el_accepted\<close>, \<open>el_ran\<close>), the descriptors whose callbacks
  ran (\<open>el_called\<close>), the turns of the idle callback (\<open>el_idle_runs\<close>) and the descriptors the loop opened and has not
  closed (\<open>el_open\<close>).
\<close>

section \<open>State\<close>

datatype 'a call_step =
    Outside
  | Start_claim | Start_open | Start_result "bool result"
  | Queue_lock "'a option" | Queue_check "'a option" | Queue_enqueue 'a | Queue_count | Queue_unlock bool | Queue_result bool
  | Stop_begin | Stop_lock | Stop_set | Stop_join | Stop_close | Stop_done

datatype 'a run_step =
    Not_running
  | Run_try | Run_count 'a | Run_task 'a | Run_idle | Run_wait | Run_events "(int \<times> bool) list" | Run_stopping | Run_queued | Run_returned

record 'a EventLoop =
  el_queue :: "'a list"
  el_capacity :: nat
  el_queued_tasks :: u64
  el_started :: bool
  el_stopping :: bool
  el_wait_mutex :: "nat option"
  el_epoll_fd :: int
  el_wake_fd :: int
  el_fd_callbacks :: "int set"
  el_idle_callback :: bool
  el_run :: "'a run_step"
  el_calls :: "nat \<Rightarrow> 'a call_step"
  el_accepted :: "'a list"
  el_ran :: "'a list"
  el_called :: "int list"
  el_idle_runs :: nat
  el_open :: "int set"

definition new_EventLoop :: "nat \<Rightarrow> 'a EventLoop" where
  "new_EventLoop queue_capacity =
     \<lparr>el_queue = [], el_capacity = queue_capacity, el_queued_tasks = 0, el_started = False, el_stopping = False,
      el_wait_mutex = None, el_epoll_fd = - 1, el_wake_fd = - 1, el_fd_callbacks = {}, el_idle_callback = False, el_run = Not_running,
      el_calls = (\<lambda>_. Outside), el_accepted = [], el_ran = [], el_called = [], el_idle_runs = 0, el_open = {}\<rparr>"

section \<open>Start\<close>

text \<open>The results of \<^verbatim>\<open>epoll_create1\<close> and \<^verbatim>\<open>eventfd\<close>, whether \<^verbatim>\<open>epoll_ctl\<close> succeeds and whether a thread can be created.\<close>

record loop_os =
  os_epoll :: int
  os_wake :: int
  os_ctl :: bool
  os_thread :: bool

definition close_fds :: "int set \<Rightarrow> 'a EventLoop \<Rightarrow> 'a EventLoop" where
  "close_fds fds s = s\<lparr>el_open := el_open s - fds\<rparr>"

definition call_at :: "nat \<Rightarrow> 'a call_step \<Rightarrow> 'a EventLoop \<Rightarrow> 'a EventLoop" where
  "call_at t pc s = s\<lparr>el_calls := (el_calls s)(t := pc)\<rparr>"

text \<open>What follows the exchange of \<^verbatim>\<open>started_\<close>: the descriptors, then the thread. Each failure closes what was opened.\<close>

definition open_loop :: "loop_os \<Rightarrow> 'a EventLoop \<Rightarrow> 'a EventLoop \<times> bool result" where
  "open_loop os s =
    (let both = {fd \<in> {os_epoll os, os_wake os}. 0 \<le> fd};
         s1 = s\<lparr>el_epoll_fd := os_epoll os, el_wake_fd := os_wake os, el_open := el_open s \<union> both\<rparr>;
         abandoned = (close_fds both s1)\<lparr>el_wake_fd := - 1, el_epoll_fd := - 1, el_started := False\<rparr>
     in if os_epoll os < 0 \<or> os_wake os < 0 then ((close_fds both s1)\<lparr>el_started := False\<rparr>, Inr False)
        else if \<not> os_ctl os then (abandoned, Inr False)
        else if \<not> os_thread os then (abandoned, Inl ''std::system_error'')
        else (s1\<lparr>el_run := Run_try\<rparr>, Inr True))"

fun Start_step :: "loop_os \<Rightarrow> nat \<Rightarrow> 'a EventLoop \<Rightarrow> 'a call_step \<Rightarrow> 'a EventLoop" where
  "Start_step os t s Start_claim =
    (if el_started s then call_at t (Start_result (Inr False)) s else (call_at t Start_open s)\<lparr>el_started := True\<rparr>)"
| "Start_step os t s Start_open = (case open_loop os s of (s', r) \<Rightarrow> call_at t (Start_result r) s')"
| "Start_step os t s _ = s"

definition SetIdleCallback :: "'a EventLoop \<Rightarrow> bool \<Rightarrow> 'a EventLoop \<times> bool" where
  "SetIdleCallback s callback =
    (if el_started s \<or> \<not> callback then (s, False) else (s\<lparr>el_idle_callback := True\<rparr>, True))"

section \<open>Calls\<close>

definition lock_at :: "nat \<Rightarrow> 'a call_step \<Rightarrow> 'a EventLoop \<Rightarrow> 'a EventLoop" where
  "lock_at t pc s = (case el_wait_mutex s of None \<Rightarrow> (call_at t pc s)\<lparr>el_wait_mutex := Some t\<rparr> | Some _ \<Rightarrow> s)"

definition unlock_at :: "nat \<Rightarrow> 'a call_step \<Rightarrow> 'a EventLoop \<Rightarrow> 'a EventLoop" where
  "unlock_at t pc s = (call_at t pc s)\<lparr>el_wait_mutex := None\<rparr>"

text \<open>\<^verbatim>\<open>QueueInLoop\<close>, where \<open>None\<close> is an empty task; \<open>takes\<close> says whether the ring has a cell for it.\<close>

fun QueueInLoop_step :: "bool \<Rightarrow> nat \<Rightarrow> 'a EventLoop \<Rightarrow> 'a call_step \<Rightarrow> 'a EventLoop" where
  "QueueInLoop_step takes t s (Queue_lock task) = lock_at t (Queue_check task) s"
| "QueueInLoop_step takes t s (Queue_check task) =
    call_at t (case task of None \<Rightarrow> Queue_unlock False
               | Some a \<Rightarrow> if \<not> el_started s \<or> el_stopping s then Queue_unlock False else Queue_enqueue a) s"
| "QueueInLoop_step takes t s (Queue_enqueue task) =
    (if takes \<and> length (el_queue s) < el_capacity s
     then (call_at t Queue_count s)\<lparr>el_queue := el_queue s @ [task], el_accepted := el_accepted s @ [task]\<rparr>
     else call_at t (Queue_unlock False) s)"
| "QueueInLoop_step takes t s Queue_count = (call_at t (Queue_unlock True) s)\<lparr>el_queued_tasks := el_queued_tasks s + 1\<rparr>"
| "QueueInLoop_step takes t s (Queue_unlock r) = unlock_at t (Queue_result r) s"
| "QueueInLoop_step takes t s _ = s"

text \<open>\<^verbatim>\<open>Stop\<close>: the first call waits for the loop to return, when it has a thread, and closes the descriptors.\<close>

fun Stop_step :: "nat \<Rightarrow> 'a EventLoop \<Rightarrow> 'a call_step \<Rightarrow> 'a EventLoop" where
  "Stop_step t s Stop_begin = call_at t (if el_started s then Stop_lock else Stop_done) s"
| "Stop_step t s Stop_lock = lock_at t Stop_set s"
| "Stop_step t s Stop_set =
    (if el_stopping s then unlock_at t Stop_done s else (unlock_at t Stop_join s)\<lparr>el_stopping := True\<rparr>)"
| "Stop_step t s Stop_join = (if el_run s = Not_running \<or> el_run s = Run_returned then call_at t Stop_close s else s)"
| "Stop_step t s Stop_close =
    (call_at t Stop_done (close_fds {fd \<in> {el_wake_fd s, el_epoll_fd s}. 0 \<le> fd} s))\<lparr>el_wake_fd := - 1, el_epoll_fd := - 1\<rparr>"
| "Stop_step t s _ = s"

section \<open>Descriptors and the loop\<close>

text \<open>\<open>in_loop\<close>: the caller is the loop's thread; \<open>success\<close>: \<^verbatim>\<open>epoll_ctl\<close> accepts the descriptor.\<close>

definition RegisterFd :: "bool \<Rightarrow> bool \<Rightarrow> 'a EventLoop \<Rightarrow> int \<Rightarrow> 'a EventLoop \<times> bool" where
  "RegisterFd in_loop success s fd =
    (if fd < 0 \<or> el_epoll_fd s < 0 \<or> \<not> in_loop then (s, False)
     else if \<not> success then (s, False)
     else (s\<lparr>el_fd_callbacks := insert fd (el_fd_callbacks s)\<rparr>, True))"

definition RemoveFd :: "bool \<Rightarrow> 'a EventLoop \<Rightarrow> int \<Rightarrow> 'a EventLoop \<times> bool" where
  "RemoveFd in_loop s fd =
    (if el_epoll_fd s < 0 \<or> \<not> in_loop then (s, False)
     else (s\<lparr>el_fd_callbacks := el_fd_callbacks s - {fd}\<rparr>, True))"

text \<open>One event of \<^verbatim>\<open>epoll_wait\<close>: the wake-up descriptor is drained, another one has its callback run when it is still
  registered; a callback that throws is removed.\<close>

definition handle_event :: "'a EventLoop \<Rightarrow> int \<Rightarrow> bool \<Rightarrow> 'a EventLoop" where
  "handle_event s fd throws =
    (if fd = el_wake_fd s \<or> fd \<notin> el_fd_callbacks s then s
     else
       let s1 = s\<lparr>el_called := el_called s @ [fd]\<rparr> in
       if throws then fst (RemoveFd True s1 fd) else s1)"

text \<open>\<open>finds\<close> says whether the ring shows its oldest task, \<open>events\<close> what \<^verbatim>\<open>epoll_wait\<close> returns. An exception of a task
  or of the idle callback is caught, so one that throws has run as well.\<close>

fun Run_loop :: "bool \<Rightarrow> (int \<times> bool) list \<Rightarrow> 'a EventLoop \<Rightarrow> 'a run_step \<Rightarrow> 'a EventLoop" where
  "Run_loop finds events s Run_try =
    (case el_queue s of
       task # tasks \<Rightarrow> if finds then s\<lparr>el_queue := tasks, el_run := Run_count task\<rparr> else s\<lparr>el_run := Run_idle\<rparr>
     | [] \<Rightarrow> s\<lparr>el_run := Run_idle\<rparr>)"
| "Run_loop finds events s (Run_count task) = s\<lparr>el_queued_tasks := el_queued_tasks s - 1, el_run := Run_task task\<rparr>"
| "Run_loop finds events s (Run_task task) = s\<lparr>el_ran := el_ran s @ [task], el_run := Run_try\<rparr>"
| "Run_loop finds events s Run_idle = s\<lparr>el_idle_runs := el_idle_runs s + of_bool (el_idle_callback s), el_run := Run_wait\<rparr>"
| "Run_loop finds events s Run_wait = s\<lparr>el_run := Run_events (take 64 events)\<rparr>"
| "Run_loop finds events s (Run_events []) = s\<lparr>el_run := Run_stopping\<rparr>"
| "Run_loop finds events s (Run_events ((fd, throws) # rest)) = (handle_event s fd throws)\<lparr>el_run := Run_events rest\<rparr>"
| "Run_loop finds events s Run_stopping = s\<lparr>el_run := (if el_stopping s then Run_queued else Run_try)\<rparr>"
| "Run_loop finds events s Run_queued = s\<lparr>el_run := (if el_queued_tasks s = 0 then Run_returned else Run_try)\<rparr>"
| "Run_loop finds events s _ = s"

fun finished :: "'a call_step \<Rightarrow> bool" where
  "finished Outside = True" | "finished (Start_result _) = True" | "finished (Queue_result _) = True" | "finished Stop_done = True" | "finished _ = False"

text \<open>Registering and removing descriptors and setting the idle callback happen between the steps above.\<close>

inductive loop_step :: "'a EventLoop \<Rightarrow> 'a EventLoop \<Rightarrow> bool" where
  call_start: "finished (el_calls s t) \<Longrightarrow> loop_step s (call_at t Start_claim s)"
| call_queue: "finished (el_calls s t) \<Longrightarrow> loop_step s (call_at t (Queue_lock task) s)"
| call_stop: "finished (el_calls s t) \<Longrightarrow> loop_step s (call_at t Stop_begin s)"
| start: "loop_step s (Start_step os t s (el_calls s t))"
| queue: "loop_step s (QueueInLoop_step takes t s (el_calls s t))"
| stop: "loop_step s (Stop_step t s (el_calls s t))"
| set_idle: "el_wait_mutex s = None \<Longrightarrow> loop_step s (fst (SetIdleCallback s callback))"
| register_fd: "loop_step s (fst (RegisterFd in_loop success s fd))"
| remove_fd: "loop_step s (fst (RemoveFd in_loop s fd))"
| run: "loop_step s (Run_loop finds events s (el_run s))"

inductive loop_reachable :: "nat \<Rightarrow> 'a EventLoop \<Rightarrow> bool" for queue_capacity where
  created: "loop_reachable queue_capacity (new_EventLoop queue_capacity)"
| step: "loop_reachable queue_capacity s \<Longrightarrow> loop_step s s' \<Longrightarrow> loop_reachable queue_capacity s'"

section \<open>The invariant\<close>

fun holds_mutex :: "'a call_step \<Rightarrow> bool" where
  "holds_mutex (Queue_check _) = True" | "holds_mutex (Queue_enqueue _) = True" | "holds_mutex Queue_count = True"
| "holds_mutex (Queue_unlock _) = True" | "holds_mutex Stop_set = True" | "holds_mutex _ = False"

fun in_flight :: "'a run_step \<Rightarrow> 'a list" where
  "in_flight (Run_count task) = [task]" | "in_flight (Run_task task) = [task]" | "in_flight _ = []"

fun taken_uncounted :: "'a run_step \<Rightarrow> nat" where
  "taken_uncounted (Run_count task) = 1" | "taken_uncounted _ = 0"

text \<open>The step of the call that holds the mutex.\<close>

definition critical_of :: "nat option \<Rightarrow> (nat \<Rightarrow> 'a call_step) \<Rightarrow> 'a call_step" where
  "critical_of m calls = (case m of None \<Rightarrow> Outside | Some t \<Rightarrow> calls t)"

abbreviation critical :: "'a EventLoop \<Rightarrow> 'a call_step" where
  "critical s \<equiv> critical_of (el_wait_mutex s) (el_calls s)"

text \<open>The parts of the invariant: the tasks and their counter, the mutex, the stop, and the thread that starts the loop.\<close>

definition tasks_inv :: "'a EventLoop \<Rightarrow> bool" where
  "tasks_inv s \<longleftrightarrow> el_accepted s = el_ran s @ in_flight (el_run s) @ el_queue s \<and> length (el_queue s) \<le> el_capacity s \<and>
     el_queued_tasks s + (if critical s = Queue_count then 1 else 0) = of_nat (length (el_queue s) + taken_uncounted (el_run s))"

definition mutex_of :: "nat option \<Rightarrow> (nat \<Rightarrow> 'a call_step) \<Rightarrow> bool" where
  "mutex_of m calls \<longleftrightarrow> (\<forall>t. holds_mutex (calls t) \<longleftrightarrow> m = Some t)"

abbreviation mutex_inv :: "'a EventLoop \<Rightarrow> bool" where
  "mutex_inv s \<equiv> mutex_of (el_wait_mutex s) (el_calls s)"

definition stop_inv :: "'a EventLoop \<Rightarrow> bool" where
  "stop_inv s \<longleftrightarrow> (el_stopping s \<longrightarrow> critical s \<noteq> Queue_count \<and> (\<forall>task. critical s \<noteq> Queue_enqueue task)) \<and>
     (el_run s = Run_queued \<longrightarrow> el_stopping s) \<and> (el_run s = Run_returned \<longrightarrow> el_stopping s \<and> el_queue s = [])"

definition sole_starter :: "(nat \<Rightarrow> 'a call_step) \<Rightarrow> bool" where
  "sole_starter calls \<longleftrightarrow> (\<forall>t u. calls t = Start_open \<longrightarrow> calls u = Start_open \<longrightarrow> t = u)"

definition start_inv :: "'a EventLoop \<Rightarrow> bool" where
  "start_inv s \<longleftrightarrow> (el_run s \<noteq> Not_running \<longrightarrow> el_started s) \<and>
     (\<forall>t. el_calls s t = Start_open \<longrightarrow> el_started s \<and> el_run s = Not_running) \<and>
     sole_starter (el_calls s)"

definition loop_inv :: "'a EventLoop \<Rightarrow> bool" where
  "loop_inv s \<longleftrightarrow> mutex_inv s \<and> tasks_inv s \<and> stop_inv s \<and> start_inv s"

lemmas loop_parts = loop_inv_def tasks_inv_def stop_inv_def start_inv_def

lemma new_EventLoop_inv: "loop_inv (new_EventLoop n)"
  by (simp add: new_EventLoop_def loop_parts mutex_of_def critical_of_def sole_starter_def)

lemma sole_starter_other [simp]: "sole_starter calls \<Longrightarrow> pc \<noteq> Start_open \<Longrightarrow> sole_starter (calls(t := pc))"
  by (simp add: sole_starter_def)

lemma sole_starter_first [simp]: "(\<And>u. calls u \<noteq> Start_open) \<Longrightarrow> sole_starter (calls(t := Start_open))"
  by (simp add: sole_starter_def)

text \<open>The invariant does not depend on descriptors, callbacks and their history.\<close>

lemma loop_inv_fields [simp]:
  "loop_inv (s\<lparr>el_epoll_fd := epoll\<rparr>) = loop_inv s" "loop_inv (s\<lparr>el_wake_fd := wake\<rparr>) = loop_inv s"
  "loop_inv (s\<lparr>el_open := opened\<rparr>) = loop_inv s" "loop_inv (s\<lparr>el_fd_callbacks := callbacks\<rparr>) = loop_inv s"
  "loop_inv (s\<lparr>el_called := called\<rparr>) = loop_inv s" "loop_inv (s\<lparr>el_idle_callback := idle\<rparr>) = loop_inv s"
  "loop_inv (s\<lparr>el_idle_runs := runs\<rparr>) = loop_inv s"
  by (simp_all add: loop_parts)

lemma holder: "mutex_inv s \<Longrightarrow> el_wait_mutex s = Some t \<longleftrightarrow> holds_mutex (el_calls s t)"
  by (simp add: mutex_of_def)

lemma critical_held: "mutex_inv s \<Longrightarrow> holds_mutex (el_calls s t) \<Longrightarrow> critical s = el_calls s t"
  by (simp add: mutex_of_def critical_of_def)

lemma critical_other: "mutex_inv s \<Longrightarrow> \<not> holds_mutex (el_calls s t) \<Longrightarrow> critical (call_at t pc s) = critical s"
  by (auto simp: mutex_of_def critical_of_def call_at_def split: option.splits)

lemma critical_call: "mutex_inv s \<Longrightarrow> holds_mutex (el_calls s t) \<Longrightarrow> critical (call_at t pc s) = pc"
  by (simp add: mutex_of_def critical_of_def call_at_def)

lemma mutex_call: "mutex_inv s \<Longrightarrow> holds_mutex pc = holds_mutex (el_calls s t) \<Longrightarrow> mutex_inv (call_at t pc s)"
  by (simp add: mutex_of_def call_at_def)

text \<open>The call of a thread that does not hold the mutex moves to a step that does not need it.\<close>

lemma free_call_inv:
  assumes "loop_inv s" and "\<not> holds_mutex (el_calls s t)" and "\<not> holds_mutex pc" and "pc \<noteq> Start_open"
  shows "loop_inv (call_at t pc s)"
proof -
  have m: "mutex_inv s" using assms(1) by (simp add: loop_inv_def)
  show ?thesis using assms critical_other [OF m assms(2), of pc] mutex_call [OF m, of pc t]
    by (simp add: loop_parts) (auto simp: call_at_def)
qed

text \<open>The call that holds the mutex moves on and keeps it.\<close>

lemma held_call_inv:
  assumes "loop_inv s" and "holds_mutex (el_calls s t)" and "el_calls s t \<noteq> Queue_count" and "holds_mutex pc" and "pc \<noteq> Queue_count"
    and "\<And>task. pc = Queue_enqueue task \<Longrightarrow> \<not> el_stopping s"
  shows "loop_inv (call_at t pc s)"
proof -
  have m: "mutex_inv s" using assms(1) by (simp add: loop_inv_def)
  have open_step: "pc \<noteq> Start_open" using assms(4) by auto
  show ?thesis
    using assms open_step critical_call [OF m assms(2), of pc] critical_held [OF m assms(2)] mutex_call [OF m, of pc t]
    by (simp add: loop_parts) (auto simp: call_at_def)
qed

lemma lock_at_inv:
  assumes "loop_inv s" and "\<not> holds_mutex (el_calls s t)" and "holds_mutex pc" and "pc \<noteq> Queue_count" and "\<And>task. pc \<noteq> Queue_enqueue task"
  shows "loop_inv (lock_at t pc s)"
proof (cases "el_wait_mutex s")
  case None
  then have "critical s = Outside" and "\<And>u. \<not> holds_mutex (el_calls s u)"
    using assms(1) by (simp_all add: critical_of_def loop_inv_def mutex_of_def)
  moreover have "critical (lock_at t pc s) = pc" using None by (simp add: lock_at_def critical_of_def call_at_def)
  moreover have "pc \<noteq> Start_open" using assms(3) by auto
  ultimately show ?thesis using assms None
    by (simp add: loop_parts mutex_of_def) (auto simp: lock_at_def call_at_def)
qed (simp add: lock_at_def assms(1))

lemma unlock_at_inv:
  assumes "loop_inv s" and "holds_mutex (el_calls s t)" and "el_calls s t \<noteq> Queue_count" and "\<not> holds_mutex pc" and "pc \<noteq> Start_open"
  shows "loop_inv (unlock_at t pc s)"
proof -
  have m: "mutex_inv s" using assms(1) by (simp add: loop_inv_def)
  have "critical (unlock_at t pc s) = Outside" by (simp add: unlock_at_def critical_of_def)
  moreover have "mutex_inv (unlock_at t pc s)"
    using m holder [OF m, of t] assms(2,4) by (auto simp: mutex_of_def unlock_at_def call_at_def)
  ultimately show ?thesis using assms critical_held [OF m assms(2)]
    by (simp add: loop_parts) (auto simp: unlock_at_def call_at_def)
qed

lemma call_begin_inv:
  assumes "loop_inv s" and "finished (el_calls s t)" and "\<not> holds_mutex pc" and "pc \<noteq> Start_open"
  shows "loop_inv (call_at t pc s)"
proof (rule free_call_inv [OF assms(1)])
  show "\<not> holds_mutex (el_calls s t)" using assms(2) by (cases "el_calls s t") simp_all
qed (use assms in simp_all)

lemma Stop_step_inv:
  assumes "loop_inv s"
  shows "loop_inv (Stop_step t s (el_calls s t))"
proof (cases "el_calls s t")
  case Stop_set
  have m: "mutex_inv s" using assms by (simp add: loop_inv_def)
  have "critical s = Stop_set" using critical_held [OF m, of t] Stop_set by simp
  then have "loop_inv (s\<lparr>el_stopping := True\<rparr>)" using assms by (simp add: loop_parts)
  then have "loop_inv (unlock_at t Stop_join (s\<lparr>el_stopping := True\<rparr>))" using Stop_set by (intro unlock_at_inv) simp_all
  moreover have "unlock_at t Stop_join (s\<lparr>el_stopping := True\<rparr>) = (unlock_at t Stop_join s)\<lparr>el_stopping := True\<rparr>"
    by (cases s) (simp add: unlock_at_def call_at_def)
  moreover have "loop_inv (unlock_at t Stop_done s)" using assms Stop_set by (intro unlock_at_inv) simp_all
  ultimately show ?thesis using Stop_set by simp
next
  case Stop_close
  have "loop_inv (call_at t Stop_done (s\<lparr>el_open := el_open s - {fd \<in> {el_wake_fd s, el_epoll_fd s}. 0 \<le> fd}\<rparr>))"
    using assms Stop_close by (intro free_call_inv) simp_all
  then show ?thesis using Stop_close by (simp add: close_fds_def)
next
  case Stop_begin
  have "loop_inv (call_at t (if el_started s then Stop_lock else Stop_done) s)"
    using assms Stop_begin by (intro free_call_inv) simp_all
  then show ?thesis using Stop_begin by simp
next
  case Stop_lock
  then show ?thesis using assms by (simp add: lock_at_inv)
next
  case Stop_join
  then show ?thesis using assms by (simp add: free_call_inv)
qed (use assms in simp_all)

lemma open_loop_cases:
  assumes "open_loop os s = (s', r)"
  obtains (opened) fds where "r = Inr True"
      and "s' = s\<lparr>el_run := Run_try, el_epoll_fd := os_epoll os, el_wake_fd := os_wake os, el_open := fds\<rparr>"
    | (failed) epoll wake fds where "r \<noteq> Inr True"
      and "s' = s\<lparr>el_started := False, el_epoll_fd := epoll, el_wake_fd := wake, el_open := fds\<rparr>"
proof (cases "r = Inr True")
  case True
  then show thesis using assms by (intro opened [of "el_open s'"]) (cases s; auto simp: open_loop_def close_fds_def Let_def split: if_splits)+
next
  case False
  then show thesis using assms
    by (intro failed [where epoll = "el_epoll_fd s'" and wake = "el_wake_fd s'" and fds = "el_open s'"])
      (cases s; auto simp: open_loop_def close_fds_def Let_def split: if_splits)+
qed

lemma call_at_fields:
  "call_at t pc (s\<lparr>el_run := run\<rparr>) = (call_at t pc s)\<lparr>el_run := run\<rparr>"
  "call_at t pc (s\<lparr>el_started := started\<rparr>) = (call_at t pc s)\<lparr>el_started := started\<rparr>"
  "call_at t pc (s\<lparr>el_epoll_fd := epoll\<rparr>) = (call_at t pc s)\<lparr>el_epoll_fd := epoll\<rparr>"
  "call_at t pc (s\<lparr>el_wake_fd := wake\<rparr>) = (call_at t pc s)\<lparr>el_wake_fd := wake\<rparr>"
  "call_at t pc (s\<lparr>el_open := fds\<rparr>) = (call_at t pc s)\<lparr>el_open := fds\<rparr>"
  by (cases s, simp add: call_at_def)+

lemma Start_step_inv:
  assumes "loop_inv s"
  shows "loop_inv (Start_step os t s (el_calls s t))"
proof (cases "el_calls s t")
  case Start_claim
  have m: "mutex_inv s" using assms by (simp add: loop_inv_def)
  have "critical_of (el_wait_mutex s) ((el_calls s)(t := Start_open)) = critical s"
    using critical_other [OF m, of t Start_open] Start_claim by (simp add: call_at_def)
  moreover have "mutex_of (el_wait_mutex s) ((el_calls s)(t := Start_open))"
    using mutex_call [OF m, of Start_open t] Start_claim by (simp add: call_at_def)
  ultimately have "loop_inv ((call_at t Start_open s)\<lparr>el_started := True\<rparr>)" if "\<not> el_started s"
    using assms that by (simp add: loop_parts call_at_def) 
  then show ?thesis using Start_claim assms by (simp add: free_call_inv)
next
  case Start_open
  obtain s' r where o: "open_loop os s = (s', r)" by fastforce
  have start: "el_started s" "el_run s = Not_running" "sole_starter (el_calls s)"
    using assms Start_open by (auto simp: loop_inv_def start_inv_def)
  let ?s = "call_at t (Start_result r) s"
  have inv: "loop_inv ?s" using assms Start_open by (intro free_call_inv) simp_all
  have no_other: "el_calls ?s u \<noteq> Start_open" for u
    using start(3) Start_open by (auto simp: sole_starter_def call_at_def)
  have run: "el_run ?s = Not_running" "el_started ?s" using start by (simp_all add: call_at_def)
  have "loop_inv (?s\<lparr>el_run := Run_try\<rparr>)" "loop_inv (?s\<lparr>el_started := False\<rparr>)"
    using inv no_other run by (simp_all add: loop_parts)
  then have "loop_inv (call_at t (Start_result r) s')"
    by (cases rule: open_loop_cases [OF o]) (simp_all add: call_at_fields)
  then show ?thesis using Start_open o by simp
qed (use assms in simp_all)

lemma QueueInLoop_step_inv:
  assumes "loop_inv s"
  shows "loop_inv (QueueInLoop_step takes t s (el_calls s t))"
proof (cases "el_calls s t")
  case (Queue_enqueue task)
  have m: "mutex_inv s" using assms by (simp add: loop_inv_def)
  have "critical s = Queue_enqueue task" using critical_held [OF m, of t] Queue_enqueue by simp
  moreover have "critical_of (el_wait_mutex s) ((el_calls s)(t := Queue_count)) = Queue_count"
    using critical_call [OF m, of t Queue_count] Queue_enqueue by (simp add: call_at_def)
  moreover have "mutex_of (el_wait_mutex s) ((el_calls s)(t := Queue_count))"
    using mutex_call [OF m, of Queue_count t] Queue_enqueue by (simp add: call_at_def)
  moreover have "\<not> el_stopping s" using assms calculation(1) by (auto simp: loop_inv_def stop_inv_def)
  moreover have "el_run s \<noteq> Run_returned" using assms calculation(4) by (auto simp: loop_inv_def stop_inv_def)
  ultimately have "loop_inv ((call_at t Queue_count s)\<lparr>el_queue := el_queue s @ [task], el_accepted := el_accepted s @ [task]\<rparr>)"
    if "length (el_queue s) < el_capacity s" using assms that by (auto simp: loop_parts call_at_def)
  moreover have "loop_inv (call_at t (Queue_unlock False) s)" using assms Queue_enqueue by (intro held_call_inv) simp_all
  ultimately show ?thesis using Queue_enqueue by simp
next
  case Queue_count
  have m: "mutex_inv s" using assms by (simp add: loop_inv_def)
  have "critical s = Queue_count" using critical_held [OF m, of t] Queue_count by simp
  moreover have "critical_of (el_wait_mutex s) ((el_calls s)(t := Queue_unlock True)) = Queue_unlock True"
    using critical_call [OF m, of t "Queue_unlock True"] Queue_count by (simp add: call_at_def)
  moreover have "mutex_of (el_wait_mutex s) ((el_calls s)(t := Queue_unlock True))"
    using mutex_call [OF m, of "Queue_unlock True" t] Queue_count by (simp add: call_at_def)
  ultimately show ?thesis using assms Queue_count by (auto simp: loop_parts call_at_def)
next
  case (Queue_check task)
  have "loop_inv (call_at t (Queue_unlock False) s)" using assms Queue_check by (intro held_call_inv) simp_all
  moreover have "loop_inv (call_at t (Queue_enqueue a) s)" if "\<not> el_stopping s" for a
    using assms Queue_check that by (intro held_call_inv) simp_all
  ultimately show ?thesis using Queue_check by (simp split: option.splits)
next
  case (Queue_unlock r)
  then show ?thesis using assms by (simp add: unlock_at_inv)
next
  case (Queue_lock task)
  then show ?thesis using assms by (simp add: lock_at_inv)
qed (use assms in simp_all)

lemma handle_event_frame:
  obtains callbacks called where "handle_event s fd throws = s\<lparr>el_fd_callbacks := callbacks, el_called := called\<rparr>"
  by (rule that [where callbacks = "el_fd_callbacks (handle_event s fd throws)" and called = "el_called (handle_event s fd throws)"])
    (cases s; simp add: handle_event_def RemoveFd_def Let_def)

lemma Run_loop_inv:
  assumes "loop_inv s" and "el_capacity s + 1 < 2 ^ 64"
  shows "loop_inv (Run_loop finds events s (el_run s))"
proof (cases "el_run s")
  case Run_try
  then show ?thesis using assms(1) by (auto simp: loop_parts split: list.splits)
next
  case (Run_events es)
  show ?thesis
  proof (cases es)
    case (Cons e rest)
    obtain fd throws where e: "e = (fd, throws)" by fastforce
    obtain callbacks called where "handle_event s fd throws = s\<lparr>el_fd_callbacks := callbacks, el_called := called\<rparr>"
      by (rule handle_event_frame)
    then show ?thesis using Run_events Cons e assms(1) by (simp add: loop_parts)
  qed (use Run_events assms(1) in \<open>simp add: loop_parts\<close>)
next
  case Run_queued
  have "el_queue s = []" if "el_queued_tasks s = 0"
  proof -
    have "of_nat (length (el_queue s)) = (0 :: u64)" using assms(1) Run_queued that by (auto simp: loop_parts)
    moreover have "length (el_queue s) < 2 ^ 64" using assms by (simp add: loop_parts)
    ultimately show ?thesis using of_nat_u64_zero by blast
  qed
  then show ?thesis using assms(1) Run_queued by (auto simp: loop_parts)
qed (use assms(1) in \<open>auto simp: loop_parts\<close>)

lemma loop_step_inv:
  assumes "loop_step s s'" and "loop_inv s" and "el_capacity s + 1 < 2 ^ 64"
  shows "loop_inv s'"
  using assms
proof (induction rule: loop_step.induct)
  case (set_idle s callback)
  then show ?case by (simp add: SetIdleCallback_def)
qed (simp_all add: call_begin_inv Start_step_inv QueueInLoop_step_inv Stop_step_inv Run_loop_inv RegisterFd_def RemoveFd_def)

lemma capacity_moves [simp]:
  "el_capacity (call_at t pc s) = el_capacity s" "el_capacity (lock_at t pc s) = el_capacity s"
  "el_capacity (unlock_at t pc s) = el_capacity s" "el_capacity (close_fds fds s) = el_capacity s"
  "el_capacity (fst (open_loop os s)) = el_capacity s"  "el_capacity (handle_event s fd throws) = el_capacity s"
  by (simp_all add: call_at_def lock_at_def unlock_at_def close_fds_def open_loop_def handle_event_def RemoveFd_def Let_def
      split: option.splits)

lemma handle_event_keeps [simp]:
  "el_queue (handle_event s fd throws) = el_queue s" "el_stopping (handle_event s fd throws) = el_stopping s"
  "el_accepted (handle_event s fd throws) = el_accepted s" "el_started (handle_event s fd throws) = el_started s"
  "el_open (handle_event s fd throws) = el_open s" "el_epoll_fd (handle_event s fd throws) = el_epoll_fd s"
  "el_wake_fd (handle_event s fd throws) = el_wake_fd s" "el_wait_mutex (handle_event s fd throws) = el_wait_mutex s"
  by (simp_all add: handle_event_def RemoveFd_def Let_def)

lemma Run_loop_keeps [simp]:
  "el_stopping (Run_loop finds events s pc) = el_stopping s" "el_accepted (Run_loop finds events s pc) = el_accepted s"
  "el_started (Run_loop finds events s pc) = el_started s" "el_open (Run_loop finds events s pc) = el_open s"
  "el_epoll_fd (Run_loop finds events s pc) = el_epoll_fd s" "el_wake_fd (Run_loop finds events s pc) = el_wake_fd s"
  "el_wait_mutex (Run_loop finds events s pc) = el_wait_mutex s" "el_capacity (Run_loop finds events s pc) = el_capacity s"
  by (induction finds events s pc rule: Run_loop.induct) (simp_all split: list.splits)

lemma loop_step_capacity: "loop_step s s' \<Longrightarrow> el_capacity s' = el_capacity s"
proof (induction rule: loop_step.induct)
  case (start s os t)
  then show ?case by (cases "el_calls s t") (simp_all add: split_def)
next
  case (queue s takes t)
  then show ?case by (cases "el_calls s t") simp_all
next
  case (stop s t)
  then show ?case by (cases "el_calls s t") simp_all
next
  case (run s finds events)
  show ?case by simp
qed (simp_all add: SetIdleCallback_def RegisterFd_def RemoveFd_def)

lemma loop_reachable_inv:
  assumes "loop_reachable n s" and "n + 1 < 2 ^ 64"
  shows "loop_inv s \<and> el_capacity s = n"
  using assms
proof induction
  case created
  show ?case using new_EventLoop_inv [of n] by (simp add: new_EventLoop_def)
next
  case (step s s')
  then show ?case using loop_step_inv loop_step_capacity by metis
qed

section \<open>The loop ends\<close>

text \<open>The loop alone, when the ring shows its tasks and no descriptor is ready.\<close>

definition loop_turns :: "nat \<Rightarrow> 'a EventLoop \<Rightarrow> 'a EventLoop" where
  "loop_turns n s = ((\<lambda>s. Run_loop True [] s (el_run s)) ^^ n) s"

fun run_weight :: "nat \<Rightarrow> 'a run_step \<Rightarrow> nat" where
  "run_weight n Run_try = (if n = 0 then 6 else 0)" | "run_weight n (Run_count _) = 8" | "run_weight n (Run_task _) = 7"
| "run_weight n Run_idle = 5" | "run_weight n Run_wait = 4" | "run_weight n (Run_events es) = 3 + length es"
| "run_weight n Run_stopping = 2" | "run_weight n Run_queued = 1" | "run_weight n _ = 0"

definition loop_weight :: "'a EventLoop \<Rightarrow> nat" where
  "loop_weight s = 20 * length (el_queue s) + run_weight (length (el_queue s)) (el_run s)"

lemma loop_turns_Suc: "loop_turns (Suc n) s = loop_turns n (Run_loop True [] s (el_run s))"
  by (simp add: loop_turns_def funpow_Suc_right del: funpow.simps)

lemma loop_turns_keeps [simp]:
  "el_stopping (loop_turns n s) = el_stopping s" "el_accepted (loop_turns n s) = el_accepted s"
  "el_started (loop_turns n s) = el_started s" "el_open (loop_turns n s) = el_open s"
  "el_epoll_fd (loop_turns n s) = el_epoll_fd s" "el_wake_fd (loop_turns n s) = el_wake_fd s"
  "el_wait_mutex (loop_turns n s) = el_wait_mutex s" "el_capacity (loop_turns n s) = el_capacity s"
  by (induction n) (simp_all add: loop_turns_def)

lemma loop_turns_inv: "loop_inv s \<Longrightarrow> el_capacity s + 1 < 2 ^ 64 \<Longrightarrow> loop_inv (loop_turns n s)"
  by (induction n arbitrary: s) (simp_all add: loop_turns_Suc Run_loop_inv, simp add: loop_turns_def)

lemma Run_loop_decreases:
  assumes "loop_inv s" and "el_stopping s" and "el_run s \<noteq> Not_running" and "el_run s \<noteq> Run_returned"
  shows "loop_weight (Run_loop True [] s (el_run s)) < loop_weight s \<and> el_run (Run_loop True [] s (el_run s)) \<noteq> Not_running"
proof (cases "el_run s")
  case (Run_events es)
  then show ?thesis by (cases es) (auto simp: loop_weight_def)
next
  case Run_queued
  have "el_queued_tasks s = of_nat (length (el_queue s))" using assms(1,2) Run_queued by (auto simp: loop_parts)
  then show ?thesis using Run_queued by (auto simp: loop_weight_def)
qed (use assms in \<open>auto simp: loop_weight_def split: list.splits\<close>)

lemma loop_weight_zero: "loop_weight s = 0 \<Longrightarrow> el_run s = Run_returned \<or> el_run s = Not_running"
  by (cases "el_run s") (auto simp: loop_weight_def split: if_splits)

lemma stopped_loop_returns:
  assumes "loop_inv s" and "el_capacity s + 1 < 2 ^ 64" and "el_stopping s" and "el_run s \<noteq> Not_running"
    and "loop_weight s \<le> n"
  shows "el_run (loop_turns n s) = Run_returned"
  using assms
proof (induction n arbitrary: s)
  case 0
  then show ?case using loop_weight_zero [of s] by (simp add: loop_turns_def)
next
  case (Suc n)
  show ?case
  proof (cases "el_run s = Run_returned")
    case True
    then have "Run_loop True [] s (el_run s) = s" by simp
    then have "loop_turns m s = s" for m by (induction m) (simp_all add: loop_turns_def)
    then show ?thesis using True by simp
  next
    case False
    then show ?thesis using Suc.prems Run_loop_decreases [of s]
      by (simp add: loop_turns_Suc) (intro Suc.IH, simp_all add: Run_loop_inv)
  qed
qed

lemma returned_loop_ran:
  "loop_inv s \<Longrightarrow> el_run s = Run_returned \<Longrightarrow> el_ran s = el_accepted s \<and> el_queue s = [] \<and> el_stopping s"
  by (simp add: loop_parts)

section \<open>Descriptors\<close>

text \<open>A start that fails has closed what it opened, and a loop that has been stopped cannot be started again.\<close>

lemma failed_start_closes:
  assumes "open_loop os s = (s', r)" and "r \<noteq> Inr True" and "os_epoll os \<notin> el_open s" and "os_wake os \<notin> el_open s"
  shows "el_open s' = el_open s \<and> \<not> el_started s' \<and> el_run s' = el_run s"
  using assms by (auto simp: open_loop_def close_fds_def Let_def split: if_splits)

lemma stopped_loop_not_restarted:
  assumes "loop_inv s" and "el_run s = Run_returned"
  shows "Start_step os t s Start_claim = call_at t (Start_result (Inr False)) s"
  using assms by (simp add: loop_parts)

lemma handle_event_calls_registered:
  "el_called (handle_event s fd throws) = el_called s @ (if fd \<noteq> el_wake_fd s \<and> fd \<in> el_fd_callbacks s then [fd] else [])"
  by (simp add: handle_event_def RemoveFd_def Let_def)

lemma throwing_callback_removed:
  "0 \<le> el_epoll_fd s \<Longrightarrow> fd \<noteq> el_wake_fd s \<Longrightarrow> fd \<notin> el_fd_callbacks (handle_event s fd True)"
  by (simp add: handle_event_def RemoveFd_def Let_def)

section \<open>Properties\<close>

text \<open>C37: However starts, stops, queued tasks and the loop interleave, the tasks the loop has run are the first of the
  tasks it accepted, in the order of acceptance, and it is behind by at most the capacity and the task it runs. When
  the loop has returned, it has run every task it accepted and accepts no other, and a loop that is told to stop does
  return, having run them.\<close>

theorem event_loop_runs_tasks_in_order:
  assumes "loop_reachable queue_capacity s" and "queue_capacity + 1 < 2 ^ 64"
  shows "prefix (el_ran s) (el_accepted s) \<and> length (el_accepted s) \<le> length (el_ran s) + queue_capacity + 1 \<and>
    (el_run s = Run_returned \<longrightarrow> el_ran s = el_accepted s \<and> el_queue s = [] \<and> el_stopping s) \<and>
    (el_stopping s \<and> el_run s \<noteq> Not_running \<longrightarrow>
       (\<exists>n. el_run (loop_turns n s) = Run_returned \<and> el_ran (loop_turns n s) = el_accepted s))"
proof -
  have inv: "loop_inv s" and cap: "el_capacity s = queue_capacity" using loop_reachable_inv [OF assms] by simp_all
  have acc: "el_accepted s = el_ran s @ in_flight (el_run s) @ el_queue s" "length (el_queue s) \<le> queue_capacity"
    using inv cap by (simp_all add: loop_parts)
  have "length (in_flight (el_run s)) \<le> 1" by (cases "el_run s") simp_all
  then have "length (el_accepted s) \<le> length (el_ran s) + queue_capacity + 1" using acc by simp
  moreover have "el_run (loop_turns n s) = Run_returned \<and> el_ran (loop_turns n s) = el_accepted s"
    if "el_stopping s" "el_run s \<noteq> Not_running" "n = loop_weight s" for n
    using stopped_loop_returns [OF inv, of n] returned_loop_ran [OF loop_turns_inv [OF inv], of n] that assms(2) cap by simp
  ultimately show ?thesis using acc(1) returned_loop_ran [OF inv] by auto
qed

text \<open>The witness: the loop is started, takes a task, is told to stop and returns.\<close>

definition demo_loop :: "string EventLoop" where
  "demo_loop = foldl (\<lambda>s t. if t = 0 then Run_loop True [] s (el_run s)
       else if t = 1 then QueueInLoop_step True 1 s (el_calls s 1)
       else if t = 2 then Stop_step 2 s (el_calls s 2)
       else Start_step \<lparr>os_epoll = 3, os_wake = 4, os_ctl = True, os_thread = True\<rparr> 3 s (el_calls s 3))
     (call_at 3 Start_claim (call_at 2 Stop_begin (call_at 1 (Queue_lock (Some ''task'')) (new_EventLoop 4))))
     [3, 3, 1, 1, 1, 1, 1, 2, 2, 2 :: nat]"

lemma demo_loop_reachable: "loop_reachable 4 demo_loop"
proof -
  let ?a = "call_at 1 (Queue_lock (Some ''task'')) (new_EventLoop 4) :: string EventLoop"
  have "loop_reachable 4 ?a"
    by (rule loop_reachable.step [OF loop_reachable.created]) (rule call_queue, simp add: new_EventLoop_def)
  then have "loop_reachable 4 (call_at 2 Stop_begin ?a)"
    by (rule loop_reachable.step) (rule call_stop, simp add: new_EventLoop_def call_at_def)
  then have "loop_reachable 4 (call_at 3 Start_claim (call_at 2 Stop_begin ?a))"
    by (rule loop_reachable.step) (rule call_start, simp add: new_EventLoop_def call_at_def)
  moreover have "loop_reachable 4 (foldl (\<lambda>s t. if t = 0 then Run_loop True [] s (el_run s)
       else if t = 1 then QueueInLoop_step True 1 s (el_calls s 1)
       else if t = 2 then Stop_step 2 s (el_calls s 2)
       else Start_step \<lparr>os_epoll = 3, os_wake = 4, os_ctl = True, os_thread = True\<rparr> 3 s (el_calls s 3)) s ts)"
    if "loop_reachable 4 s" for s :: "string EventLoop" and ts :: "nat list"
    using that by (induction ts arbitrary: s) (auto intro: loop_reachable.step start queue stop run)
  ultimately show ?thesis unfolding demo_loop_def by blast
qed

theorem event_loop_runs_tasks_in_order_witness:
  "el_stopping demo_loop \<and> el_ran demo_loop = [] \<and> el_accepted demo_loop = [''task''] \<and>
   (\<exists>n. el_run (loop_turns n demo_loop) = Run_returned \<and> el_ran (loop_turns n demo_loop) = [''task''])"
proof -
  have "el_stopping demo_loop" "el_ran demo_loop = []" "el_accepted demo_loop = [''task'']" "el_run demo_loop \<noteq> Not_running"
    by (simp_all add: demo_loop_def new_EventLoop_def call_at_def lock_at_def unlock_at_def open_loop_def Let_def)
  then show ?thesis using event_loop_runs_tasks_in_order [OF demo_loop_reachable] by simp
qed

end
