(* ===== verification/Server_Lifecycle.thy ===== *)
theory Server_Lifecycle
  imports Event_Loop
begin

text \<open>
  Starting and stopping the TCP server, \<^verbatim>\<open>src/network/tcp_server.cc\<close> as Linux compiles it: the listening socket, the
  reactors' event loops, the accepting loop and the worker pool. The answers of the operating system are the arguments of
  \<open>TcpServer_Start\<close>. The calls of \<^verbatim>\<open>Start\<close> and \<^verbatim>\<open>Stop\<close> on the server are made by one thread, as \<^verbatim>\<open>main\<close> makes them; the loops
  work between the calls, and while \<^verbatim>\<open>Stop\<close> joins their threads. \<open>ts_open\<close> has the sockets the server holds, and each
  loop has the descriptors it holds itself.
\<close>

section \<open>Whole calls on a loop\<close>

text \<open>The calls of the event loop, each run from its first to its last step.\<close>

definition Start_loop :: "loop_os \<Rightarrow> 'a EventLoop \<Rightarrow> 'a EventLoop \<times> bool result" where
  "Start_loop os s = (if el_started s then (s, Inr False) else open_loop os (s\<lparr>el_started := True\<rparr>))"

definition Queue_loop :: "'a \<Rightarrow> 'a EventLoop \<Rightarrow> 'a EventLoop \<times> bool" where
  "Queue_loop task s =
    (if \<not> el_started s \<or> el_stopping s \<or> el_capacity s \<le> length (el_queue s) then (s, False)
     else (s\<lparr>el_queue := el_queue s @ [task], el_accepted := el_accepted s @ [task], el_queued_tasks := el_queued_tasks s + 1\<rparr>, True))"

text \<open>Joining the thread lets the loop make as many steps as it needs to return.\<close>

definition join_loop :: "'a EventLoop \<Rightarrow> 'a EventLoop" where
  "join_loop s = (if el_run s = Not_running then s else loop_turns (loop_weight s) s)"

definition Stop_loop :: "'a EventLoop \<Rightarrow> 'a EventLoop" where
  "Stop_loop s =
    (if \<not> el_started s \<or> el_stopping s then s
     else
       let s1 = join_loop (s\<lparr>el_stopping := True\<rparr>) in
       (close_fds {fd \<in> {el_wake_fd s1, el_epoll_fd s1}. 0 \<le> fd} s1)\<lparr>el_wake_fd := - 1, el_epoll_fd := - 1\<rparr>)"

section \<open>The server\<close>

record 'a SubReactor =
  sub_loop :: "'a EventLoop"
  sub_clients :: "int set"

record 'a TcpServer =
  ts_address :: string
  ts_port :: u16
  ts_worker_count :: nat
  ts_bound_port :: u16
  ts_handler :: bool
  ts_tls_enabled :: bool
  ts_workers_shut :: bool
  ts_loop :: "unit EventLoop"
  ts_started :: bool
  ts_subs :: "'a SubReactor list"
  ts_listener :: int
  ts_open :: "int set"

definition DefaultWorkers :: "nat \<Rightarrow> nat \<Rightarrow> nat" where
  "DefaultWorkers cores count = (if count \<noteq> 0 then count else if cores = 0 then 1 else min cores 32)"

definition new_TcpServer :: "nat \<Rightarrow> string \<Rightarrow> u16 \<Rightarrow> nat \<Rightarrow> bool \<Rightarrow> bool \<Rightarrow> 'a TcpServer" where
  "new_TcpServer cores address port count handler tls_enabled =
     \<lparr>ts_address = address, ts_port = port, ts_worker_count = DefaultWorkers cores count, ts_bound_port = 0, ts_handler = handler,
      ts_tls_enabled = tls_enabled, ts_workers_shut = False, ts_loop = new_EventLoop 1024, ts_started = False, ts_subs = [],
      ts_listener = - 1, ts_open = {}\<rparr>"

definition new_TcpServer_local :: "nat \<Rightarrow> u16 \<Rightarrow> nat \<Rightarrow> bool \<Rightarrow> bool \<Rightarrow> 'a TcpServer" where
  "new_TcpServer_local cores = new_TcpServer cores ''127.0.0.1''"

definition close_socket :: "int \<Rightarrow> 'a TcpServer \<Rightarrow> 'a TcpServer" where
  "close_socket fd s = s\<lparr>ts_open := ts_open s - {fd}\<rparr>"

text \<open>Between the calls of \<^verbatim>\<open>Start\<close> and \<^verbatim>\<open>Stop\<close>, and while \<^verbatim>\<open>Stop\<close> joins the threads, the reactors take connections
  (\<^verbatim>\<open>AddClient\<close>) and close them (\<^verbatim>\<open>CloseClient\<close>, which closes the descriptor and erases the client in one go). \<open>(i, e)\<close> is
  what happens at reactor \<open>i\<close>.\<close>

datatype client_event = Client_added int | Client_closed int

fun client_happens :: "nat \<times> client_event \<Rightarrow> 'a TcpServer \<Rightarrow> 'a TcpServer" where
  "client_happens (i, Client_added fd) s =
    (if i < length (ts_subs s)
     then s\<lparr>ts_open := insert fd (ts_open s),
            ts_subs := (ts_subs s)[i := (ts_subs s ! i)\<lparr>sub_clients := insert fd (sub_clients (ts_subs s ! i))\<rparr>]\<rparr>
     else s)"
| "client_happens (i, Client_closed fd) s =
    (if i < length (ts_subs s) \<and> fd \<in> sub_clients (ts_subs s ! i)
     then s\<lparr>ts_open := ts_open s - {fd},
            ts_subs := (ts_subs s)[i := (ts_subs s ! i)\<lparr>sub_clients := sub_clients (ts_subs s ! i) - {fd}\<rparr>]\<rparr>
     else s)"

definition stop_sub :: "'a SubReactor \<Rightarrow> 'a SubReactor" where
  "stop_sub sub = sub\<lparr>sub_loop := Stop_loop (sub_loop sub), sub_clients := {}\<rparr>"

text \<open>\<open>during\<close> is what happens at the reactors, in this order, until the last of their threads has been joined.\<close>

definition TcpServer_Stop :: "(nat \<times> client_event) list \<Rightarrow> 'a TcpServer \<Rightarrow> 'a TcpServer" where
  "TcpServer_Stop during s =
    (if \<not> ts_started s then s
     else
       let joined = fold client_happens during (s\<lparr>ts_started := False\<rparr>);
           s1 = joined\<lparr>ts_loop := Stop_loop (ts_loop joined), ts_workers_shut := True,
                  ts_open := ts_open joined - \<Union> (set (map sub_clients (ts_subs joined))),
                  ts_subs := map stop_sub (ts_subs joined)\<rparr>
       in (if 0 \<le> ts_listener s1 then close_socket (ts_listener s1) s1 else s1)\<lparr>ts_listener := - 1\<rparr>)"

record server_os =
  os_tls_context :: bool
  os_socket :: int
  os_inet_pton :: "string \<Rightarrow> bool"
  os_bind :: bool
  os_listen :: bool
  os_sockname :: u16
  os_subs :: "nat \<Rightarrow> loop_os"
  os_loop :: loop_os

fun start_subs :: "(nat \<Rightarrow> loop_os) \<Rightarrow> nat \<Rightarrow> 'a SubReactor list \<Rightarrow> 'a SubReactor list \<times> bool result" where
  "start_subs os i [] = ([], Inr True)"
| "start_subs os i (sub # subs) =
    (case Start_loop (os i) (sub_loop sub) of
       (loop, Inr True) \<Rightarrow> (case start_subs os (Suc i) subs of (subs', r) \<Rightarrow> (sub\<lparr>sub_loop := loop\<rparr> # subs', r))
     | (loop, r) \<Rightarrow> (sub\<lparr>sub_loop := loop\<rparr> # subs, r))"

text \<open>The part of \<^verbatim>\<open>Start\<close> that opens the listening socket, and whether it did.\<close>

definition open_listener :: "server_os \<Rightarrow> 'a TcpServer \<Rightarrow> 'a TcpServer \<times> bool" where
  "open_listener os s =
    (if ts_tls_enabled s \<and> \<not> os_tls_context os then (s\<lparr>ts_started := False\<rparr>, False)
     else if os_socket os < 0 then (s\<lparr>ts_listener := os_socket os, ts_started := False\<rparr>, False)
     else
       let s1 = s\<lparr>ts_listener := os_socket os, ts_open := insert (os_socket os) (ts_open s)\<rparr>;
           abandoned = (close_socket (os_socket os) s1)\<lparr>ts_listener := - 1, ts_started := False\<rparr>
       in if \<not> os_inet_pton os (ts_address s) then (abandoned, False)
          else if \<not> os_bind os \<or> \<not> os_listen os then (abandoned, False)
          else (s1\<lparr>ts_bound_port := os_sockname os\<rparr>, True))"

text \<open>When a loop does not start, \<^verbatim>\<open>Start\<close> calls \<^verbatim>\<open>Stop\<close>; nothing is accepted by then, so nothing
  happens at the reactors. An exception of a loop's \<^verbatim>\<open>Start\<close> leaves the function.\<close>

definition start_loops :: "server_os \<Rightarrow> 'a TcpServer \<Rightarrow> 'a TcpServer \<times> bool result" where
  "start_loops os s =
    (let s1 = s\<lparr>ts_subs := ts_subs s @ replicate (ts_worker_count s) \<lparr>sub_loop = new_EventLoop 1024, sub_clients = {}\<rparr>\<rparr>;
         give_up = TcpServer_Stop []
     in case start_subs (os_subs os) 0 (ts_subs s1) of
          (subs, Inl e) \<Rightarrow> (s1\<lparr>ts_subs := subs\<rparr>, Inl e)
        | (subs, Inr False) \<Rightarrow> (give_up (s1\<lparr>ts_subs := subs\<rparr>), Inr False)
        | (subs, Inr True) \<Rightarrow>
            (case Start_loop (os_loop os) (ts_loop s1) of
               (loop, Inl e) \<Rightarrow> (s1\<lparr>ts_subs := subs, ts_loop := loop\<rparr>, Inl e)
             | (loop, Inr False) \<Rightarrow> (give_up (s1\<lparr>ts_subs := subs, ts_loop := loop\<rparr>), Inr False)
             | (loop, Inr True) \<Rightarrow>
                 (case Queue_loop () loop of (loop, r) \<Rightarrow> (s1\<lparr>ts_subs := subs, ts_loop := loop\<rparr>, Inr r))))"

definition TcpServer_Start :: "server_os \<Rightarrow> 'a TcpServer \<Rightarrow> 'a TcpServer \<times> bool result" where
  "TcpServer_Start os s =
    (if \<not> ts_handler s \<or> ts_started s then (s, Inr False)
     else case open_listener os (s\<lparr>ts_started := True\<rparr>) of
            (s1, False) \<Rightarrow> (s1, Inr False)
          | (s1, True) \<Rightarrow> start_loops os s1)"

section \<open>The life of a loop\<close>

definition fresh_loop :: "'a EventLoop \<Rightarrow> bool" where
  "fresh_loop l \<longleftrightarrow> \<not> el_started l \<and> \<not> el_stopping l \<and> el_run l = Not_running \<and> el_open l = {} \<and> el_accepted l = []"

definition running_loop :: "'a EventLoop \<Rightarrow> bool" where
  "running_loop l \<longleftrightarrow> el_started l \<and> \<not> el_stopping l \<and> el_run l \<noteq> Not_running \<and>
     0 \<le> el_epoll_fd l \<and> 0 \<le> el_wake_fd l \<and> el_open l = {el_epoll_fd l, el_wake_fd l}"

definition ended_loop :: "'a EventLoop \<Rightarrow> bool" where
  "ended_loop l \<longleftrightarrow> el_started l \<and> el_stopping l \<and> el_run l = Run_returned \<and> el_open l = {}"

definition loop_ok :: "'a EventLoop \<Rightarrow> bool" where
  "loop_ok l \<longleftrightarrow> loop_inv l \<and> el_capacity l = 1024 \<and> el_wait_mutex l = None \<and> (fresh_loop l \<or> running_loop l \<or> ended_loop l)"

lemmas loop_phases = fresh_loop_def running_loop_def ended_loop_def

lemma new_loop_ok: "loop_ok (new_EventLoop 1024 :: 'a EventLoop) \<and> fresh_loop (new_EventLoop 1024 :: 'a EventLoop)"
  using new_EventLoop_inv [of 1024] by (simp add: loop_ok_def fresh_loop_def) (simp add: new_EventLoop_def)

lemma Start_loop_ok:
  assumes "loop_ok l" and "Start_loop os l = (l', r)"
  shows "loop_ok l' \<and> (if r = Inr True then fresh_loop l \<and> running_loop l' \<and> el_queue l' = [] \<and> el_accepted l' = []
                      else running_loop l' = running_loop l \<and> fresh_loop l' = fresh_loop l)"
proof (cases "el_started l")
  case True
  then show ?thesis using assms by (auto simp: Start_loop_def)
next
  case False
  then have fresh: "fresh_loop l" using assms(1) by (auto simp: loop_ok_def loop_phases)
  let ?l = "l\<lparr>el_started := True\<rparr>"
  have inv: "loop_inv l" "el_queue l = []" "\<And>t. el_calls l t \<noteq> Start_open"
    using assms(1) fresh False by (auto simp: loop_ok_def loop_parts fresh_loop_def)
  then have run: "loop_inv (?l\<lparr>el_run := Run_try\<rparr>)" "loop_inv (?l\<lparr>el_started := False\<rparr>)"
    using fresh by (simp_all add: loop_parts fresh_loop_def)
  have o: "open_loop os ?l = (l', r)" using assms(2) False by (simp add: Start_loop_def)
  have inv': "loop_inv l'" by (cases rule: open_loop_cases [OF o]) (use run in simp_all)
  have keeps: "el_capacity l' = el_capacity l" "el_wait_mutex l' = el_wait_mutex l" "el_queue l' = el_queue l"
      "el_accepted l' = el_accepted l" "el_stopping l' = el_stopping l"
    by (cases rule: open_loop_cases [OF o]; simp)+
  have phase: "if r = Inr True then running_loop l' else fresh_loop l'"
    using o fresh by (simp add: open_loop_def close_fds_def loop_phases Let_def split: if_splits) auto
  moreover have "\<not> running_loop l" "\<not> fresh_loop l' \<or> \<not> running_loop l'" using fresh by (auto simp: loop_phases)
  ultimately show ?thesis using inv' keeps inv(2) fresh assms(1) by (auto simp: loop_ok_def fresh_loop_def)
qed

lemma Stop_loop_ok:
  assumes "loop_ok l"
  shows "loop_ok (Stop_loop l) \<and> (if running_loop l then ended_loop (Stop_loop l) else Stop_loop l = l)"
proof (cases "running_loop l")
  case True
  let ?l = "l\<lparr>el_stopping := True\<rparr>" and ?n = "loop_weight (l\<lparr>el_stopping := True\<rparr>)"
  have inv: "loop_inv ?l" and cap: "el_capacity ?l + 1 < 2 ^ 64" and run: "el_run ?l \<noteq> Not_running"
    using assms True by (auto simp: loop_ok_def running_loop_def loop_parts critical_of_def)
  have fin: "el_run (loop_turns ?n ?l) = Run_returned" using inv cap run by (intro stopped_loop_returns) simp_all
  have "loop_inv (loop_turns ?n ?l)" using inv cap by (rule loop_turns_inv)
  then show ?thesis using True fin assms run
    by (simp add: Stop_loop_def loop_ok_def running_loop_def ended_loop_def fresh_loop_def join_loop_def close_fds_def Let_def)
next
  case False
  then show ?thesis using assms by (auto simp: loop_ok_def loop_phases Stop_loop_def)
qed

text \<open>The work of a running loop and of the threads that queue tasks.\<close>

inductive loop_works :: "'a EventLoop \<Rightarrow> 'a EventLoop \<Rightarrow> bool" where
  turn: "loop_works l (Run_loop finds events l (el_run l))"
| post: "loop_works l (fst (Queue_loop task l))"
| watch: "loop_works l (fst (RegisterFd in_loop success l fd))"
| unwatch: "loop_works l (fst (RemoveFd in_loop l fd))"

lemma Run_loop_running: "el_run s \<noteq> Not_running \<Longrightarrow> el_run (Run_loop finds events s (el_run s)) \<noteq> Not_running"
  by (cases "(finds, events, s, el_run s)" rule: Run_loop.cases) (auto split: list.splits)

lemma Queue_loop_ok:
  assumes "loop_ok l"
  shows "loop_ok (fst (Queue_loop task l))"
  using assms
  by (auto simp: loop_ok_def loop_phases Queue_loop_def loop_parts critical_of_def)

lemma loop_works_ok:
  assumes "loop_works l l'" and "loop_ok l"
  shows "loop_ok l' \<and> running_loop l' = running_loop l \<and> fresh_loop l' = fresh_loop l"
  using assms
proof (induction rule: loop_works.induct)
  case (turn l finds events)
  let ?l = "Run_loop finds events l (el_run l)"
  have inv: "loop_inv ?l" using turn by (intro Run_loop_inv) (simp_all add: loop_ok_def)
  show ?case
  proof (cases "running_loop l")
    case True
    then have "el_run ?l \<noteq> Not_running"
      using Run_loop_running [of l finds events] by (simp add: running_loop_def)
    then show ?thesis using inv True turn by (auto simp: loop_ok_def running_loop_def fresh_loop_def)
  next
    case False
    then have "el_run l = Not_running \<or> el_run l = Run_returned" using turn by (auto simp: loop_ok_def loop_phases)
    then show ?thesis using turn by auto
  qed
next
  case (post l task)
  then show ?case using Queue_loop_ok [of l task] by (auto simp: Queue_loop_def loop_phases)
qed (auto simp: RegisterFd_def RemoveFd_def loop_ok_def loop_phases)

section \<open>The life of the server\<close>

definition all_clients :: "'a SubReactor list \<Rightarrow> int set" where
  "all_clients subs = (\<Union>sub \<in> set subs. sub_clients sub)"

definition server_descriptors :: "'a TcpServer \<Rightarrow> int set" where
  "server_descriptors s = ts_open s \<union> el_open (ts_loop s) \<union> (\<Union>sub \<in> set (ts_subs s). el_open (sub_loop sub))"

definition loops_ok :: "'a TcpServer \<Rightarrow> bool" where
  "loops_ok s \<longleftrightarrow> loop_ok (ts_loop s) \<and> (\<forall>sub \<in> set (ts_subs s). loop_ok (sub_loop sub)) \<and> 0 < ts_worker_count s"

definition idle_server :: "'a TcpServer \<Rightarrow> bool" where
  "idle_server s \<longleftrightarrow> ts_open s = {} \<and> \<not> running_loop (ts_loop s) \<and>
     (\<forall>sub \<in> set (ts_subs s). \<not> running_loop (sub_loop sub) \<and> sub_clients sub = {})"

text \<open>Nothing is open but the listener and the clients of the reactors.\<close>

definition holds_only_clients :: "'a TcpServer \<Rightarrow> bool" where
  "holds_only_clients s \<longleftrightarrow> ts_open s \<subseteq> insert (ts_listener s) (all_clients (ts_subs s))"

definition server_ok :: "'a TcpServer \<Rightarrow> bool" where
  "server_ok s \<longleftrightarrow> loops_ok s \<and> (if ts_started s then 0 \<le> ts_listener s \<and> holds_only_clients s else idle_server s)"

inductive server_lives :: "'a TcpServer \<Rightarrow> bool" where
  created: "server_lives (new_TcpServer cores address port count handler tls_enabled)"
| started: "server_lives s \<Longrightarrow> server_lives (fst (TcpServer_Start os s))"
| stopped: "server_lives s \<Longrightarrow> server_lives (TcpServer_Stop during s)"
| main_works: "server_lives s \<Longrightarrow> loop_works (ts_loop s) l \<Longrightarrow> server_lives (s\<lparr>ts_loop := l\<rparr>)"
| sub_works: "server_lives s \<Longrightarrow> i < length (ts_subs s) \<Longrightarrow> loop_works (sub_loop (ts_subs s ! i)) l \<Longrightarrow>
    server_lives (s\<lparr>ts_subs := (ts_subs s)[i := (ts_subs s ! i)\<lparr>sub_loop := l\<rparr>]\<rparr>)"
| clients: "server_lives s \<Longrightarrow> ts_started s \<Longrightarrow> server_lives (client_happens event s)"

lemma loop_closed: "loop_ok l \<Longrightarrow> \<not> running_loop l \<Longrightarrow> el_open l = {} \<and> el_ran l = el_accepted l"
  by (auto simp: loop_ok_def fresh_loop_def ended_loop_def loop_parts)

lemma Stop_loop_ends: "loop_ok l \<Longrightarrow> loop_ok (Stop_loop l) \<and> \<not> running_loop (Stop_loop l)"
  using Stop_loop_ok [of l] by (auto simp: loop_phases split: if_splits)

lemma idle_server_descriptors:
  assumes "loops_ok s" and "idle_server s"
  shows "server_descriptors s = {}"
  using assms by (auto simp: server_descriptors_def loops_ok_def idle_server_def loop_closed)

lemma start_subs_ok:
  assumes "start_subs os i subs = (subs', r)" and "\<forall>sub \<in> set subs. loop_ok (sub_loop sub)"
  shows "(\<forall>sub \<in> set subs'. loop_ok (sub_loop sub)) \<and> map sub_clients subs' = map sub_clients subs \<and>
    (r = Inr True \<longrightarrow> (\<forall>sub \<in> set subs'. running_loop (sub_loop sub)))"
  using assms
proof (induction subs arbitrary: subs' i)
  case (Cons sub subs)
  obtain l q where l: "Start_loop (os i) (sub_loop sub) = (l, q)" by fastforce
  have ok: "loop_ok l" "q = Inr True \<Longrightarrow> running_loop l"
    using Start_loop_ok [OF _ l] Cons.prems(2) by (auto split: if_splits)
  show ?case
  proof (cases "q = Inr True")
    case True
    obtain ss p where "start_subs os (Suc i) subs = (ss, p)" by fastforce
    then show ?thesis using Cons True l ok by auto
  next
    case False
    then have "subs' = sub\<lparr>sub_loop := l\<rparr> # subs" "r = q" using Cons.prems(1) l by (auto split: sum.splits bool.splits)
    then show ?thesis using Cons.prems(2) ok False by auto
  qed
qed simp

lemma all_clients_put:
  assumes "fd \<in> all_clients subs" and "i < length subs" and "fd \<in> sub_clients (subs ! i) \<Longrightarrow> fd \<in> sub_clients sub"
  shows "fd \<in> all_clients (subs[i := sub])"
proof -
  obtain j where j: "j < length subs" "fd \<in> sub_clients (subs ! j)"
    using assms(1) by (auto simp: all_clients_def in_set_conv_nth)
  then have "fd \<in> sub_clients (subs[i := sub] ! j)" using assms(2,3) by (cases "i = j") auto
  moreover have "subs[i := sub] ! j \<in> set (subs[i := sub])" using j(1) by (simp add: nth_mem)
  ultimately show ?thesis by (auto simp: all_clients_def)
qed

lemma put_same_loop: "sub_loop sub = sub_loop (subs ! i) \<Longrightarrow> map sub_loop (subs[i := sub]) = map sub_loop subs"
  by (metis list_update_id map_update)

lemma client_happens_keeps:
  "ts_loop (client_happens event s) = ts_loop s \<and> ts_listener (client_happens event s) = ts_listener s \<and>
   ts_worker_count (client_happens event s) = ts_worker_count s \<and> ts_started (client_happens event s) = ts_started s \<and>
   map sub_loop (ts_subs (client_happens event s)) = map sub_loop (ts_subs s)"
  by (cases "(event, s)" rule: client_happens.cases) (auto simp: put_same_loop)

lemma client_happens_holds:
  assumes "holds_only_clients s"
  shows "holds_only_clients (client_happens event s)"
proof (cases "snd event")
  case (Client_added fd)
  let ?sub = "\<lambda>i. (ts_subs s ! i)\<lparr>sub_clients := insert fd (sub_clients (ts_subs s ! i))\<rparr>"
  have "?sub i \<in> set ((ts_subs s)[i := ?sub i])" if "i < length (ts_subs s)" for i using that by (intro set_update_memI)
  then have "fd \<in> all_clients ((ts_subs s)[i := ?sub i])" if "i < length (ts_subs s)" for i
    using that by (force simp: all_clients_def)
  then show ?thesis using assms Client_added
    by (cases event) (auto simp: holds_only_clients_def intro!: all_clients_put)
next
  case (Client_closed fd)
  then show ?thesis using assms by (cases event) (auto simp: holds_only_clients_def intro!: all_clients_put)
qed

lemma loops_ok_map:
  "loops_ok s \<longleftrightarrow> loop_ok (ts_loop s) \<and> (\<forall>l \<in> set (map sub_loop (ts_subs s)). loop_ok l) \<and> 0 < ts_worker_count s"
  by (simp add: loops_ok_def)

lemma client_happens_loops_ok: "loops_ok (client_happens event s) = loops_ok s"
  by (simp only: loops_ok_map client_happens_keeps)

lemma joined_ok:
  assumes "loops_ok s" and "holds_only_clients s"
  shows "loops_ok (fold client_happens during s) \<and> holds_only_clients (fold client_happens during s) \<and>
    ts_started (fold client_happens during s) = ts_started s \<and> ts_listener (fold client_happens during s) = ts_listener s"
  using assms
proof (induction during arbitrary: s)
  case (Cons event during)
  then show ?case
    using client_happens_keeps [of event s] client_happens_loops_ok [of event s] client_happens_holds [of s event] by simp
qed simp

lemma TcpServer_Stop_ok:
  assumes "loops_ok s" and "ts_started s" and "holds_only_clients s" and "0 \<le> ts_listener s"
  shows "loops_ok (TcpServer_Stop during s) \<and> idle_server (TcpServer_Stop during s) \<and> \<not> ts_started (TcpServer_Stop during s) \<and>
    ts_workers_shut (TcpServer_Stop during s)"
proof -
  let ?s = "fold client_happens during (s\<lparr>ts_started := False\<rparr>)"
  have "loops_ok (s\<lparr>ts_started := False\<rparr>)" "holds_only_clients (s\<lparr>ts_started := False\<rparr>)"
    using assms by (simp_all add: loops_ok_def holds_only_clients_def)
  from joined_ok [OF this, of during] have ok: "loops_ok ?s" "holds_only_clients ?s" "\<not> ts_started ?s" "0 \<le> ts_listener ?s"
    using assms(4) by simp_all
  then have "ts_open ?s - \<Union> (set (map sub_clients (ts_subs ?s))) - {ts_listener ?s} = {}"
    by (auto simp: holds_only_clients_def all_clients_def)
  then show ?thesis using ok assms(2)
    by (auto simp: TcpServer_Stop_def Let_def close_socket_def loops_ok_def idle_server_def stop_sub_def Stop_loop_ends)
qed

lemma open_listener_ok:
  assumes "open_listener os s = (s', r)" and "loops_ok s" and "idle_server s"
  shows "loops_ok s' \<and> ts_subs s' = ts_subs s \<and> ts_loop s' = ts_loop s \<and> ts_workers_shut s' = ts_workers_shut s \<and>
    (if r then 0 \<le> ts_listener s' \<and> ts_open s' = {ts_listener s'} \<and> ts_listener s' = os_socket os \<and>
               ts_bound_port s' = os_sockname os \<and> ts_started s' = ts_started s
     else idle_server s' \<and> \<not> ts_started s')"
  using assms by (auto simp: open_listener_def close_socket_def loops_ok_def idle_server_def Let_def split: if_splits)

text \<open>A server accepts connections when its listener is open, all loops run and the accepting task is queued; it serves
  them when the worker pool takes the requests as well.\<close>

definition accepting :: "'a TcpServer \<Rightarrow> bool" where
  "accepting s \<longleftrightarrow> ts_started s \<and> 0 \<le> ts_listener s \<and> ts_listener s \<in> ts_open s \<and> ts_subs s \<noteq> [] \<and> running_loop (ts_loop s) \<and>
     (\<forall>sub \<in> set (ts_subs s). running_loop (sub_loop sub)) \<and> el_accepted (ts_loop s) = [()]"

definition serving :: "'a TcpServer \<Rightarrow> bool" where
  "serving s \<longleftrightarrow> accepting s \<and> \<not> ts_workers_shut s"

text \<open>What a server is while it starts: its listener is open and nothing has been accepted.\<close>

definition starting :: "'a TcpServer \<Rightarrow> bool" where
  "starting s \<longleftrightarrow> loops_ok s \<and> ts_started s \<and> 0 \<le> ts_listener s \<and> ts_open s = {ts_listener s} \<and>
     (\<forall>sub \<in> set (ts_subs s). sub_clients sub = {})"

lemma starting_put:
  assumes "starting s" and "loop_ok l" and "\<forall>sub \<in> set subs. loop_ok (sub_loop sub) \<and> sub_clients sub = {}"
  shows "starting (s\<lparr>ts_subs := subs, ts_loop := l\<rparr>)"
  using assms by (simp add: starting_def loops_ok_def)

lemma starting_give_up:
  "starting s \<Longrightarrow> loops_ok (TcpServer_Stop during s) \<and> idle_server (TcpServer_Stop during s) \<and>
     \<not> ts_started (TcpServer_Stop during s) \<and> ts_workers_shut (TcpServer_Stop during s)"
  using TcpServer_Stop_ok [of s during] by (auto simp: starting_def holds_only_clients_def)

lemma start_loops_ok:
  assumes "start_loops os s = (s', r)" and "starting s"
  shows "(r = Inr True \<longrightarrow> accepting s' \<and> fresh_loop (ts_loop s)) \<and>
    (r = Inr False \<longrightarrow> loops_ok s' \<and> idle_server s' \<and> \<not> ts_started s' \<and> ts_workers_shut s') \<and>
    (r \<noteq> Inr False \<longrightarrow> starting s' \<and> ts_listener s' = ts_listener s \<and> ts_bound_port s' = ts_bound_port s \<and>
       ts_workers_shut s' = ts_workers_shut s)"
proof -
  define s1 where "s1 = s\<lparr>ts_subs := ts_subs s @ replicate (ts_worker_count s) \<lparr>sub_loop = new_EventLoop 1024, sub_clients = {}\<rparr>\<rparr>"
  have s1: "starting s1" "ts_subs s1 \<noteq> []" "ts_loop s1 = ts_loop s" "loop_ok (ts_loop s)"
    using assms(2) new_loop_ok by (auto simp: s1_def loops_ok_def starting_def)
  obtain subs q where q: "start_subs (os_subs os) 0 (ts_subs s1) = (subs, q)" by fastforce
  have sub: "\<forall>sub \<in> set subs. loop_ok (sub_loop sub)" "map sub_clients subs = map sub_clients (ts_subs s1)"
      "q = Inr True \<longrightarrow> (\<forall>sub \<in> set subs. running_loop (sub_loop sub))"
    using start_subs_ok [OF q] s1(1) by (auto simp: starting_def loops_ok_def)
  have "sub_clients ` set subs = sub_clients ` set (ts_subs s1)" using sub(2) by (metis list.set_map)
  then have clients: "\<forall>sub \<in> set subs. loop_ok (sub_loop sub) \<and> sub_clients sub = {}"
    using sub(1) s1(1) by (auto simp: starting_def)
  obtain l p where l: "Start_loop (os_loop os) (ts_loop s1) = (l, p)" by fastforce
  have l_ok: "loop_ok l" "p = Inr True \<Longrightarrow> fresh_loop (ts_loop s) \<and> running_loop l \<and> el_queue l = [] \<and> el_accepted l = []"
    using Start_loop_ok [OF _ l] s1(3,4) by (auto split: if_splits)
  have put: "starting (s1\<lparr>ts_subs := subs, ts_loop := l'\<rparr>)" if "loop_ok l'" for l'
    using starting_put [OF s1(1) that clients] .
  have put_s: "starting (s1\<lparr>ts_subs := subs\<rparr>)" using put [OF s1(4)] s1(3) by (cases s1) simp
  have started: "start_loops os s = (case q of Inl e \<Rightarrow> (s1\<lparr>ts_subs := subs\<rparr>, Inl e)
        | Inr False \<Rightarrow> (TcpServer_Stop [] (s1\<lparr>ts_subs := subs\<rparr>), Inr False)
        | Inr True \<Rightarrow> (case p of Inl e \<Rightarrow> (s1\<lparr>ts_subs := subs, ts_loop := l\<rparr>, Inl e)
             | Inr False \<Rightarrow> (TcpServer_Stop [] (s1\<lparr>ts_subs := subs, ts_loop := l\<rparr>), Inr False)
             | Inr True \<Rightarrow> (s1\<lparr>ts_subs := subs, ts_loop := fst (Queue_loop () l)\<rparr>, Inr (snd (Queue_loop () l)))))"
    using q l by (auto simp: start_loops_def s1_def [symmetric] Let_def split: sum.splits bool.splits prod.splits)
  have serves: "accepting (s1\<lparr>ts_subs := subs, ts_loop := fst (Queue_loop () l)\<rparr>) \<and> snd (Queue_loop () l)"
    if "q = Inr True" "p = Inr True"
  proof -
    have "subs \<noteq> []" using sub(2) s1(2) by auto
    then show ?thesis using that l_ok sub(3) s1(1)
      by (simp add: accepting_def Queue_loop_def loop_ok_def starting_def running_loop_def)
  qed
  show ?thesis
    using assms(1) started put_s put [OF l_ok(1)] put [OF Queue_loop_ok [OF l_ok(1)]] starting_give_up serves l_ok(2)
    by (auto simp: s1_def split: sum.splits bool.splits)
qed

text \<open>Whether a start gets as far as the event loops.\<close>

definition listener_opened :: "server_os \<Rightarrow> 'a TcpServer \<Rightarrow> bool" where
  "listener_opened os s \<longleftrightarrow> ts_handler s \<and> snd (open_listener os (s\<lparr>ts_started := True\<rparr>))"

lemma TcpServer_Start_ok:
  assumes "TcpServer_Start os s = (s', r)" and "server_ok s" and "\<not> ts_started s"
  shows "server_ok s' \<and> (r = Inr True \<longrightarrow> accepting s' \<and> fresh_loop (ts_loop s)) \<and>
    (r = Inr False \<longrightarrow> idle_server s' \<and> \<not> ts_started s' \<and> (ts_workers_shut s' \<longleftrightarrow> ts_workers_shut s \<or> listener_opened os s)) \<and>
    (r \<noteq> Inr False \<longrightarrow> starting s' \<and> ts_listener s' = os_socket os \<and> ts_bound_port s' = os_sockname os \<and>
       ts_workers_shut s' = ts_workers_shut s)"
proof (cases "ts_handler s")
  case True
  let ?s = "s\<lparr>ts_started := True\<rparr>"
  have idle: "loops_ok ?s" "idle_server ?s" using assms(2,3) by (auto simp: server_ok_def loops_ok_def idle_server_def)
  obtain s1 q where q: "open_listener os ?s = (s1, q)" by fastforce
  note s1 = open_listener_ok [OF q idle]
  show ?thesis
  proof (cases q)
    case q: True
    have "starting s1" using s1 q idle by (auto simp: starting_def idle_server_def)
    moreover have "start_loops os s1 = (s', r)" using assms(1,3) True \<open>open_listener os ?s = (s1, q)\<close> q by (simp add: TcpServer_Start_def)
    ultimately show ?thesis using start_loops_ok [of os s1 s' r] s1 q
        True \<open>open_listener os ?s = (s1, q)\<close>
      by (cases "r = Inr False") (auto simp: server_ok_def starting_def holds_only_clients_def listener_opened_def)
  next
    case False
    then have "s' = s1" "r = Inr False" using assms(1,3) True q by (auto simp: TcpServer_Start_def)
    then show ?thesis using s1 False q by (simp add: server_ok_def listener_opened_def)
  qed
next
  case False
  then show ?thesis using assms by (auto simp: TcpServer_Start_def server_ok_def listener_opened_def)
qed

lemma Stop_keeps_ok: "server_ok s \<Longrightarrow> server_ok (TcpServer_Stop during s)"
  using TcpServer_Stop_ok [of s during] by (cases "ts_started s") (auto simp: server_ok_def TcpServer_Stop_def)

lemma DefaultWorkers_positive: "0 < DefaultWorkers cores count"
  by (simp add: DefaultWorkers_def)

lemma server_lives_ok: "server_lives s \<Longrightarrow> server_ok s"
proof (induction rule: server_lives.induct)
  case (created cores address port count handler tls_enabled)
  show ?case using new_loop_ok [where 'a = unit] DefaultWorkers_positive
    by (simp add: server_ok_def loops_ok_def idle_server_def new_TcpServer_def) (simp add: loop_phases)
next
  case (started s os)
  obtain s' r where r: "TcpServer_Start os s = (s', r)" by fastforce
  have "s' = s" if "ts_started s" using r that by (simp add: TcpServer_Start_def)
  then show ?case using TcpServer_Start_ok [OF r] started r by (cases "ts_started s") simp_all
next
  case (stopped s during)
  then show ?case by (simp add: Stop_keeps_ok)
next
  case (main_works s l)
  then show ?case using loop_works_ok [of "ts_loop s" l]
    by (simp add: server_ok_def loops_ok_def idle_server_def holds_only_clients_def split: if_splits)
next
  case (sub_works s i l)
  let ?sub = "(ts_subs s ! i)\<lparr>sub_loop := l\<rparr>"
  have in_subs: "ts_subs s ! i \<in> set (ts_subs s)" using sub_works by simp
  have works: "loop_ok l \<and> running_loop l = running_loop (sub_loop (ts_subs s ! i))"
    using loop_works_ok [OF sub_works(3)] sub_works.IH in_subs by (simp add: server_ok_def loops_ok_def)
  have member: "x = ?sub \<or> x \<in> set (ts_subs s)" if "x \<in> set ((ts_subs s)[i := ?sub])" for x
    using that set_update_subset_insert [of "ts_subs s" i ?sub] by blast
  have "holds_only_clients (s\<lparr>ts_subs := (ts_subs s)[i := ?sub]\<rparr>)" if "holds_only_clients s"
    using that sub_works(2) by (auto simp: holds_only_clients_def intro!: all_clients_put)
  then show ?case using sub_works.IH works in_subs
    by (auto simp: server_ok_def loops_ok_def idle_server_def dest!: member)
next
  case (clients s event)
  then show ?case
    using client_happens_keeps [of event s] client_happens_loops_ok [of event s] client_happens_holds [of s event]
    by (simp add: server_ok_def)
qed

section \<open>Properties\<close>

text \<open>C38: Whatever the operating system answers and whatever happened before, a start of a TCP server that is already started
  returns false and changes nothing. A start that returns false on a server that is not started leaves no descriptor open;
  it has shut the worker pool down exactly when the listener had been opened. One that returns true leaves the listener
  open on the reported port, all event loops running and the accepting task queued, and it serves requests exactly when
  the worker pool had not been shut down by an earlier stop or failed start. One that ends by an exception (a thread that
  cannot be created) leaves the server started and its listener open, until a stop closes everything. A stop closes
  every descriptor of the server and of its loops, whatever connections come and go meanwhile; it shuts the pool of a started server down,
  and every task the loops accepted has been run. A server whose accepting loop has ended is never started again.\<close>

theorem server_start_and_stop:
  fixes s :: "'a TcpServer"
  assumes "server_lives s" and "TcpServer_Start os s = (s', r)"
  shows "(ts_started s \<longrightarrow> s' = s \<and> r = Inr False) \<and>
    (\<not> ts_started s \<and> r = Inr False \<longrightarrow> server_descriptors s' = {} \<and> \<not> ts_started s' \<and>
      (ts_workers_shut s' \<longleftrightarrow> ts_workers_shut s \<or> listener_opened os s)) \<and>
    (r = Inr True \<longrightarrow> accepting s' \<and> ts_listener s' = os_socket os \<and> ts_bound_port s' = os_sockname os \<and>
      (serving s' \<longleftrightarrow> \<not> ts_workers_shut s) \<and> el_run (ts_loop s) \<noteq> Run_returned) \<and>
    (r \<noteq> Inr True \<and> r \<noteq> Inr False \<longrightarrow> ts_started s' \<and> os_socket os \<in> server_descriptors s' \<and>
      server_descriptors (TcpServer_Stop during s') = {}) \<and>
    server_descriptors (TcpServer_Stop during s) = {} \<and>
    (ts_workers_shut (TcpServer_Stop during s) \<longleftrightarrow> ts_workers_shut s \<or> ts_started s) \<and>
    (\<forall>sub. sub \<in> set (ts_subs (TcpServer_Stop during s)) \<longrightarrow> el_ran (sub_loop sub) = el_accepted (sub_loop sub)) \<and>
    el_ran (ts_loop (TcpServer_Stop during s)) = el_accepted (ts_loop (TcpServer_Stop during s))"
proof -
  have ok: "server_ok s" using assms(1) by (rule server_lives_ok)
  have again: "ts_started s \<Longrightarrow> s' = s \<and> r = Inr False" using assms(2) by (simp add: TcpServer_Start_def)
  note start = TcpServer_Start_ok [OF assms(2) ok]
  have idle: "loops_ok (TcpServer_Stop during x) \<and> idle_server (TcpServer_Stop during x)" if "server_ok x" for x :: "'a TcpServer"
    using Stop_keeps_ok [OF that, of during] TcpServer_Stop_ok [of x during] that by (auto simp: server_ok_def TcpServer_Stop_def)
  have closed: "server_descriptors (TcpServer_Stop during x) = {}" if "server_ok x" for x :: "'a TcpServer"
    using idle_server_descriptors idle [OF that] by blast
  have stop: "\<And>sub. sub \<in> set (ts_subs (TcpServer_Stop during s)) \<Longrightarrow> el_ran (sub_loop sub) = el_accepted (sub_loop sub)"
    "el_ran (ts_loop (TcpServer_Stop during s)) = el_accepted (ts_loop (TcpServer_Stop during s))"
    using idle [OF ok] by (auto simp: loops_ok_def idle_server_def loop_closed)
  have shut: "ts_workers_shut (TcpServer_Stop during s) \<longleftrightarrow> ts_workers_shut s \<or> ts_started s"
    using TcpServer_Stop_ok [of s during] ok by (cases "ts_started s") (auto simp: server_ok_def TcpServer_Stop_def)
  have started: "server_ok s'" using start again ok by (cases "ts_started s") auto
  have held: "os_socket os \<in> server_descriptors s'" if "starting s'" "ts_listener s' = os_socket os"
    using that by (simp add: starting_def server_descriptors_def)
  show ?thesis
    using start again stop shut closed [OF ok] closed [OF started] held
    by (cases "ts_started s")
      (auto simp: server_ok_def idle_server_descriptors fresh_loop_def serving_def starting_def)
qed

definition demo_loop_os :: loop_os where
  "demo_loop_os = \<lparr>os_epoll = 3, os_wake = 4, os_ctl = True, os_thread = True\<rparr>"

definition demo_os :: server_os where
  "demo_os = \<lparr>os_tls_context = False, os_socket = 5, os_inet_pton = (\<lambda>address. address = ''127.0.0.1''), os_bind = True,
     os_listen = True, os_sockname = 9092, os_subs = (\<lambda>_. demo_loop_os), os_loop = demo_loop_os\<rparr>"

definition demo_server :: "nat TcpServer" where
  "demo_server = new_TcpServer_local 8 9092 1 True False"

lemma demo_server_lives: "server_lives demo_server"
  unfolding demo_server_def new_TcpServer_local_def by (rule server_lives.created)

lemmas server_run = demo_server_def new_TcpServer_local_def new_TcpServer_def TcpServer_Start_def open_listener_def
  start_loops_def demo_os_def demo_loop_os_def Start_loop_def open_loop_def Queue_loop_def new_EventLoop_def close_fds_def
  close_socket_def DefaultWorkers_def Let_def

definition demo_running :: "nat TcpServer" where
  "demo_running = fst (TcpServer_Start demo_os demo_server)"

theorem server_start_and_stop_witness:
  "TcpServer_Start demo_os demo_server = (demo_running, Inr True) \<and> server_descriptors demo_running = {3, 4, 5} \<and>
   serving demo_running \<and> ts_bound_port demo_running = 9092 \<and>
   server_descriptors (TcpServer_Stop [(0, Client_added 7), (0, Client_added 8), (0, Client_closed 7)] demo_running) = {} \<and>
   ts_workers_shut (TcpServer_Stop [(0, Client_added 7), (0, Client_added 8), (0, Client_closed 7)] demo_running)"
proof -
  have run: "TcpServer_Start demo_os demo_server = (demo_running, Inr True)"
    by (simp add: demo_running_def server_run)
  have "server_descriptors demo_running = {3, 4, 5}" "\<not> ts_workers_shut demo_server"
    by (auto simp: demo_running_def server_run server_descriptors_def)
  moreover have "server_lives demo_running" unfolding demo_running_def by (rule server_lives.started [OF demo_server_lives])
  moreover have again: "TcpServer_Start demo_os demo_running = (demo_running, Inr False)"
    by (simp add: demo_running_def server_run)
  ultimately show ?thesis
    using run server_start_and_stop [OF demo_server_lives run] server_start_and_stop [OF _ again]
    by (simp add: demo_os_def accepting_def)
qed

text \<open>A start that fails at the first event loop shuts the worker pool down. The next start then returns true, with two
  event loops for one worker and a pool that refuses every request.\<close>

lemma second_start_without_workers:
  "\<exists>os s. snd (TcpServer_Start os demo_server) = Inr False \<and> s = fst (TcpServer_Start os demo_server) \<and>
     snd (TcpServer_Start demo_os s) = Inr True \<and> ts_workers_shut (fst (TcpServer_Start demo_os s)) \<and>
     length (ts_subs (fst (TcpServer_Start demo_os s))) = 2 \<and> ts_worker_count s = 1"
  by (rule exI [of _ "demo_os\<lparr>os_subs := \<lambda>_. demo_loop_os\<lparr>os_epoll := - 1\<rparr>\<rparr>"])
    (simp add: server_run TcpServer_Stop_def stop_sub_def Stop_loop_def)

end
