(* ===== verification/Tls.thy ===== *)
theory Tls
  imports Tcp_Server
begin

text \<open>
  TLS sessions, \<^verbatim>\<open>src/network/tls.cc\<close>, and the connection of the client library that uses them (\<^verbatim>\<open>Connect\<close>, \<^verbatim>\<open>Close\<close> and
  \<^verbatim>\<open>setTlsOptions\<close> of \<^verbatim>\<open>src/client/mq_client.cc\<close>). OpenSSL is not part of the program: what its calls return are the fields
  of \<open>openssl\<close>, and \<open>ssl_ctx\<close> records what the code has asked it to do. The counters of live objects say which contexts,
  sessions and sockets have been made and not freed. \<open>compiled\<close> is the build option \<^verbatim>\<open>MQ_ENABLE_TLS\<close>.
\<close>

section \<open>Contexts\<close>

record client_tls_options =
  opt_enabled :: bool
  opt_certificate_file :: bytes
  opt_private_key_file :: bytes
  opt_ca_file :: bytes
  opt_server_name :: bytes
  opt_verify_peer :: bool
  opt_require_client_certificate :: bool

datatype verify_mode = Verify_unset | Verify_none | Verify_peer | Verify_peer_required
datatype ca_source = No_ca | System_ca | Ca_file bytes

record ssl_ctx =
  ctx_min_tls12 :: bool
  ctx_verify :: verify_mode
  ctx_ca :: ca_source
  ctx_key_pair :: "(bytes \<times> bytes) option"
  ctx_server_name :: bytes

record openssl =
  ssl_ctx_new :: bool
  ssl_default_paths :: bool
  ssl_load_ca :: "bytes \<Rightarrow> bool"
  ssl_use_certificate :: "bytes \<Rightarrow> bool"
  ssl_use_key :: "bytes \<Rightarrow> bool"
  ssl_check_key :: bool
  ssl_new :: bool
  ssl_set_fd :: bool
  ssl_set_host :: "bytes \<Rightarrow> bool"
  ssl_message :: "string option"

record tls_heap =
  live_contexts :: int
  live_sessions :: int

definition OpenSslError :: "openssl \<Rightarrow> string \<Rightarrow> string" where
  "OpenSslError os fallback = (case ssl_message os of None \<Rightarrow> fallback | Some message \<Rightarrow> message)"

definition SSL_CTX_free :: "tls_heap \<Rightarrow> tls_heap" where
  "SSL_CTX_free h = h\<lparr>live_contexts := live_contexts h - 1\<rparr>"

definition SSL_free :: "tls_heap \<Rightarrow> tls_heap" where
  "SSL_free h = h\<lparr>live_sessions := live_sessions h - 1\<rparr>"

definition not_compiled :: string where
  "not_compiled = ''TLS support was not compiled in''"

definition new_ctx :: ssl_ctx where
  "new_ctx = \<lparr>ctx_min_tls12 = False, ctx_verify = Verify_unset, ctx_ca = No_ca, ctx_key_pair = None, ctx_server_name = []\<rparr>"

definition LoadKeyPair :: "openssl \<Rightarrow> ssl_ctx \<Rightarrow> client_tls_options \<Rightarrow> ssl_ctx result" where
  "LoadKeyPair os ctx options =
    (if opt_certificate_file options = [] \<or> opt_private_key_file options = []
     then Inl ''TLS certificate and private key are required''
     else if \<not> ssl_use_certificate os (opt_certificate_file options) \<or> \<not> ssl_use_key os (opt_private_key_file options)
        \<or> \<not> ssl_check_key os
     then Inl (OpenSslError os ''invalid TLS certificate or private key'')
     else Inr (ctx\<lparr>ctx_key_pair := Some (opt_certificate_file options, opt_private_key_file options)\<rparr>))"

text \<open>Where the certificates that verify the peer come from.\<close>

definition load_peer_ca :: "openssl \<Rightarrow> client_tls_options \<Rightarrow> ca_source option" where
  "load_peer_ca os options =
    (if opt_ca_file options = [] then if ssl_default_paths os then Some System_ca else None
     else if ssl_load_ca os (opt_ca_file options) then Some (Ca_file (opt_ca_file options)) else None)"

definition CreateClient :: "bool \<Rightarrow> openssl \<Rightarrow> tls_heap \<Rightarrow> client_tls_options \<Rightarrow> tls_heap \<times> ssl_ctx result" where
  "CreateClient compiled os h options =
    (if \<not> compiled then (h, Inl not_compiled)
     else if \<not> ssl_ctx_new os then (h, Inl (OpenSslError os ''cannot create TLS client context''))
     else
       let h1 = h\<lparr>live_contexts := live_contexts h + 1\<rparr>;
           ctx = new_ctx\<lparr>ctx_min_tls12 := True\<rparr>;
           verified = (if opt_verify_peer options
             then case load_peer_ca os options of
                    None \<Rightarrow> Inl (OpenSslError os ''cannot load TLS CA file'')
                  | Some ca \<Rightarrow> Inr (ctx\<lparr>ctx_verify := Verify_peer, ctx_ca := ca\<rparr>)
             else Inr (ctx\<lparr>ctx_verify := Verify_none\<rparr>)) in
       case verified of
         Inl e \<Rightarrow> (SSL_CTX_free h1, Inl e)
       | Inr ctx1 \<Rightarrow>
           (case (if opt_certificate_file options \<noteq> [] \<or> opt_private_key_file options \<noteq> [] then LoadKeyPair os ctx1 options
                  else Inr ctx1) of
              Inl e \<Rightarrow> (SSL_CTX_free h1, Inl e)
            | Inr ctx2 \<Rightarrow> (h1, Inr (ctx2\<lparr>ctx_server_name := opt_server_name options\<rparr>))))"

definition CreateServer :: "bool \<Rightarrow> openssl \<Rightarrow> tls_heap \<Rightarrow> client_tls_options \<Rightarrow> tls_heap \<times> ssl_ctx result" where
  "CreateServer compiled os h options =
    (if \<not> compiled then (h, Inl not_compiled)
     else if \<not> ssl_ctx_new os then (h, Inl (OpenSslError os ''cannot create TLS server context''))
     else
       let h1 = h\<lparr>live_contexts := live_contexts h + 1\<rparr>; ctx = new_ctx\<lparr>ctx_min_tls12 := True\<rparr> in
       case LoadKeyPair os ctx options of
         Inl e \<Rightarrow> (SSL_CTX_free h1, Inl e)
       | Inr ctx1 \<Rightarrow>
           if opt_require_client_certificate options then
             if opt_ca_file options = [] \<or> \<not> ssl_load_ca os (opt_ca_file options)
             then (SSL_CTX_free h1, Inl (OpenSslError os ''client CA file is required for mTLS''))
             else (h1, Inr (ctx1\<lparr>ctx_verify := Verify_peer_required, ctx_ca := Ca_file (opt_ca_file options)\<rparr>))
           else (h1, Inr ctx1))"

section \<open>Sessions\<close>

text \<open>A session remembers whether it accepts and which host name it checks.\<close>

record ssl_session =
  ses_server :: bool
  ses_host :: "bytes option"

definition NewSession :: "bool \<Rightarrow> openssl \<Rightarrow> tls_heap \<Rightarrow> ssl_ctx \<Rightarrow> bool \<Rightarrow> tls_heap \<times> ssl_session result" where
  "NewSession compiled os h ctx server =
    (if \<not> compiled then (h, Inl not_compiled)
     else
       let h1 = (if ssl_new os then h\<lparr>live_sessions := live_sessions h + 1\<rparr> else h) in
       if \<not> ssl_new os \<or> \<not> ssl_set_fd os
       then (if ssl_new os then SSL_free h1 else h1, Inl (OpenSslError os ''cannot create TLS session''))
       else if server then (h1, Inr \<lparr>ses_server = True, ses_host = None\<rparr>)
       else if ctx_server_name ctx \<noteq> [] then
         if \<not> ssl_set_host os (ctx_server_name ctx) then (SSL_free h1, Inl ''invalid TLS server name'')
         else (h1, Inr \<lparr>ses_server = False, ses_host = Some (ctx_server_name ctx)\<rparr>)
       else (h1, Inr \<lparr>ses_server = False, ses_host = None\<rparr>))"

datatype ssl_error = Ssl_want_read | Ssl_want_write | Ssl_zero_return | Ssl_other

text \<open>\<open>result\<close> is what the call of OpenSSL returns and \<open>code\<close> what \<^verbatim>\<open>SSL_get_error\<close> says of it.\<close>

definition Handshake :: "bool \<Rightarrow> int \<Rightarrow> ssl_error \<Rightarrow> TlsIoResult" where
  "Handshake compiled result code =
    (if \<not> compiled then kError
     else if result = 1 then kOk_io
     else if code = Ssl_want_read then kWantRead
     else if code = Ssl_want_write then kWantWrite
     else kError)"

definition tls_Read :: "bool \<Rightarrow> nat \<Rightarrow> int \<Rightarrow> ssl_error \<Rightarrow> TlsIoResult \<times> nat option" where
  "tls_Read compiled capacity result code =
    (if \<not> compiled \<or> capacity = 0 \<or> capacity > 2147483647 then (kError, None)
     else if result > 0 then (kOk_io, Some (nat result))
     else if code = Ssl_want_read then (kWantRead, None)
     else if code = Ssl_want_write then (kWantWrite, None)
     else if code = Ssl_zero_return then (kClosed, None)
     else (kError, None))"

definition tls_Write :: "bool \<Rightarrow> nat \<Rightarrow> int \<Rightarrow> ssl_error \<Rightarrow> TlsIoResult \<times> nat option" where
  "tls_Write compiled count result code =
    (if \<not> compiled \<or> count = 0 \<or> count > 2147483647 then (kError, None)
     else if result > 0 then (kOk_io, Some (nat result))
     else if code = Ssl_want_read then (kWantRead, None)
     else if code = Ssl_want_write then (kWantWrite, None)
     else if code = Ssl_zero_return then (kClosed, None)
     else (kError, None))"

definition CloseSession :: "bool \<Rightarrow> tls_heap \<Rightarrow> ssl_session option \<Rightarrow> tls_heap" where
  "CloseSession compiled h session = (if compiled \<and> session \<noteq> None then SSL_free h else h)"

section \<open>The connection of a client\<close>

text \<open>\<open>ln_secured\<close> is a history field: the handshake of the session has succeeded. \<open>ln_sockets\<close> counts the open sockets.\<close>

record link =
  ln_socket :: bool
  ln_options :: client_tls_options
  ln_context :: "ssl_ctx option"
  ln_session :: "ssl_session option"
  ln_secured :: bool
  ln_sockets :: int
  ln_heap :: tls_heap

definition new_link :: link where
  "new_link = \<lparr>ln_socket = False,
     ln_options = \<lparr>opt_enabled = False, opt_certificate_file = [], opt_private_key_file = [], opt_ca_file = [], opt_server_name = [],
        opt_verify_peer = True, opt_require_client_certificate = False\<rparr>,
     ln_context = None, ln_session = None, ln_secured = False, ln_sockets = 0, ln_heap = \<lparr>live_contexts = 0, live_sessions = 0\<rparr>\<rparr>"

definition Close_link :: "bool \<Rightarrow> link \<Rightarrow> link" where
  "Close_link compiled l =
    (let l1 = (if ln_session l \<noteq> None \<and> ln_context l \<noteq> None
               then l\<lparr>ln_heap := CloseSession compiled (ln_heap l) (ln_session l), ln_session := None, ln_secured := False\<rparr> else l) in
     if ln_socket l1 then l1\<lparr>ln_socket := False, ln_sockets := ln_sockets l1 - 1\<rparr> else l1)"

definition setTlsOptions :: "bool \<Rightarrow> link \<Rightarrow> client_tls_options \<Rightarrow> link" where
  "setTlsOptions compiled l options =
    (let l1 = Close_link compiled (l\<lparr>ln_options := options\<rparr>) in
     l1\<lparr>ln_context := None, ln_heap := (if ln_context l1 \<noteq> None then SSL_CTX_free (ln_heap l1) else ln_heap l1)\<rparr>)"

text \<open>The loop around the handshake has no bound: it ends when the handshake does.\<close>

partial_function (option) handshake_loop :: "(nat \<Rightarrow> TlsIoResult) \<Rightarrow> nat \<Rightarrow> bool option" where
  "handshake_loop steps k =
    (if steps k = kOk_io then Some True
     else if steps k \<noteq> kWantRead \<and> steps k \<noteq> kWantWrite then Some False
     else handshake_loop steps (Suc k))"

record endpoint_io =
  ep_socket :: bool
  ep_resolve :: bool
  ep_connect :: bool
  ep_openssl :: openssl
  ep_handshake :: "nat \<Rightarrow> TlsIoResult"

text \<open>One turn of the loop over the endpoints; the result says whether the connection is made, \<open>None\<close> that the
  handshake never ends.\<close>

definition start_tls :: "bool \<Rightarrow> endpoint_io \<Rightarrow> link \<Rightarrow> (link \<times> bool) option" where
  "start_tls compiled io l =
    (let (h, ctx) = (case ln_context l of
           Some ctx \<Rightarrow> (ln_heap l, Some ctx)
         | None \<Rightarrow> (case CreateClient compiled (ep_openssl io) (ln_heap l) (ln_options l) of
                      (h, Inl _) \<Rightarrow> (h, None)
                    | (h, Inr ctx) \<Rightarrow> (h, Some ctx)));
         l1 = l\<lparr>ln_heap := h, ln_context := ctx\<rparr> in
     case ctx of
       None \<Rightarrow> Some (Close_link compiled l1, False)
     | Some ctx \<Rightarrow>
         (case NewSession compiled (ep_openssl io) (ln_heap l1) ctx False of
            (h2, Inl _) \<Rightarrow> Some (Close_link compiled (l1\<lparr>ln_heap := h2\<rparr>), False)
          | (h2, Inr session) \<Rightarrow>
              let l2 = l1\<lparr>ln_heap := h2, ln_session := Some session\<rparr> in
              map_option (\<lambda>ok. if ok then (l2\<lparr>ln_secured := True\<rparr>, True) else (Close_link compiled l2, False)) (handshake_loop (ep_handshake io) 0)))"

definition try_endpoint :: "bool \<Rightarrow> endpoint_io \<Rightarrow> link \<Rightarrow> (link \<times> bool) option" where
  "try_endpoint compiled io l =
    (if \<not> ep_socket io then Some (l\<lparr>ln_socket := False\<rparr>, False)
     else
       let l1 = l\<lparr>ln_socket := True, ln_sockets := ln_sockets l + 1\<rparr> in
       if \<not> ep_resolve io \<or> \<not> ep_connect io then Some (Close_link compiled l1, False)
       else if opt_enabled (ln_options l) then start_tls compiled io l1
       else Some (l1, True))"

fun try_endpoints :: "bool \<Rightarrow> endpoint_io list \<Rightarrow> link \<Rightarrow> (link \<times> bool) option" where
  "try_endpoints compiled [] l = Some (l, False)"
| "try_endpoints compiled (io # ios) l =
    (case try_endpoint compiled io l of
       None \<Rightarrow> None
     | Some (l1, True) \<Rightarrow> Some (l1, True)
     | Some (l1, False) \<Rightarrow> try_endpoints compiled ios l1)"

definition Connect_link :: "bool \<Rightarrow> endpoint_io list \<Rightarrow> link \<Rightarrow> (link \<times> bool) option" where
  "Connect_link compiled ios l = (if ln_socket l then Some (l, True) else try_endpoints compiled ios l)"

section \<open>Contexts are what the options ask for\<close>

definition client_ctx :: "client_tls_options \<Rightarrow> ssl_ctx \<Rightarrow> bool" where
  "client_ctx options ctx \<longleftrightarrow> ctx_min_tls12 ctx \<and> ctx_server_name ctx = opt_server_name options \<and>
     ctx_verify ctx = (if opt_verify_peer options then Verify_peer else Verify_none) \<and>
     (opt_verify_peer options \<longrightarrow> ctx_ca ctx = (if opt_ca_file options = [] then System_ca else Ca_file (opt_ca_file options))) \<and>
     ctx_key_pair ctx = (if opt_certificate_file options = [] \<and> opt_private_key_file options = [] then None
        else Some (opt_certificate_file options, opt_private_key_file options))"

definition server_ctx :: "client_tls_options \<Rightarrow> ssl_ctx \<Rightarrow> bool" where
  "server_ctx options ctx \<longleftrightarrow> ctx_min_tls12 ctx \<and> opt_certificate_file options \<noteq> [] \<and> opt_private_key_file options \<noteq> [] \<and>
     ctx_key_pair ctx = Some (opt_certificate_file options, opt_private_key_file options) \<and>
     (opt_require_client_certificate options \<longrightarrow>
        opt_ca_file options \<noteq> [] \<and> ctx_verify ctx = Verify_peer_required \<and> ctx_ca ctx = Ca_file (opt_ca_file options))"

lemma CreateClient_result:
  assumes "CreateClient compiled os h options = (h', r)"
  shows "case r of Inl e \<Rightarrow> h' = h
    | Inr ctx \<Rightarrow> compiled \<and> client_ctx options ctx \<and> h' = h\<lparr>live_contexts := live_contexts h + 1\<rparr>"
  using assms
  by (auto simp: CreateClient_def SSL_CTX_free_def Let_def client_ctx_def load_peer_ca_def new_ctx_def
      LoadKeyPair_def split: if_splits option.splits sum.splits)

lemma CreateServer_result:
  assumes "CreateServer compiled os h options = (h', r)"
  shows "case r of Inl e \<Rightarrow> h' = h
    | Inr ctx \<Rightarrow> compiled \<and> server_ctx options ctx \<and> h' = h\<lparr>live_contexts := live_contexts h + 1\<rparr>"
  using assms
  by (auto simp: CreateServer_def SSL_CTX_free_def Let_def server_ctx_def new_ctx_def
      LoadKeyPair_def split: if_splits sum.splits)

lemma NewSession_result:
  assumes "NewSession compiled os h ctx server = (h', r)"
  shows "case r of Inl e \<Rightarrow> h' = h
    | Inr session \<Rightarrow> compiled \<and> ses_server session = server \<and> h' = h\<lparr>live_sessions := live_sessions h + 1\<rparr> \<and>
        (\<not> server \<longrightarrow> ses_host session = (if ctx_server_name ctx = [] then None else Some (ctx_server_name ctx)))"
  using assms by (auto simp: NewSession_def SSL_free_def Let_def split: if_splits)

section \<open>The handshake loop\<close>

lemma handshake_loop_result:
  assumes "handshake_loop steps k = Some b"
  shows "\<exists>i \<ge> k. steps i \<noteq> kWantRead \<and> steps i \<noteq> kWantWrite \<and> (b \<longleftrightarrow> steps i = kOk_io)"
proof (rule handshake_loop.raw_induct [OF _ assms])
  fix loop :: "(nat \<Rightarrow> TlsIoResult) \<Rightarrow> nat \<Rightarrow> bool option" and steps k b
  assume IH: "\<And>steps k b. loop steps k = Some b \<Longrightarrow>
      \<exists>i \<ge> k. steps i \<noteq> kWantRead \<and> steps i \<noteq> kWantWrite \<and> (b \<longleftrightarrow> steps i = kOk_io)"
    and run: "(if steps k = kOk_io then Some True else if steps k \<noteq> kWantRead \<and> steps k \<noteq> kWantWrite then Some False
      else loop steps (Suc k)) = Some b"
  show "\<exists>i \<ge> k. steps i \<noteq> kWantRead \<and> steps i \<noteq> kWantWrite \<and> (b \<longleftrightarrow> steps i = kOk_io)"
  proof (cases "steps k = kWantRead \<or> steps k = kWantWrite")
    case True
    then have "loop steps (Suc k) = Some b" using run by (auto split: if_splits)
    from IH [OF this] show ?thesis using Suc_leD by blast
  next
    case False
    then show ?thesis using run by (intro exI [of _ k]) (auto split: if_splits)
  qed
qed

lemma handshake_loop_returns:
  assumes "steps (k + n) \<noteq> kWantRead \<and> steps (k + n) \<noteq> kWantWrite"
  shows "handshake_loop steps k \<noteq> None"
  using assms
proof (induction n arbitrary: k)
  case 0
  then show ?case by (subst handshake_loop.simps) auto
next
  case (Suc n)
  then have "handshake_loop steps (Suc k) \<noteq> None" by simp
  then show ?case by (subst handshake_loop.simps) auto
qed

text \<open>A peer that accepts the connection and never answers keeps the client in \<^verbatim>\<open>Connect\<close> for ever: each receive timeout of
  the socket makes the handshake report that it wants to read, and the loop does not look at the deadline of the call.\<close>

lemma silent_peer_blocks_connect:
  assumes "\<And>i. steps i = kWantRead"
  shows "handshake_loop steps k = None"
  using handshake_loop_result [of steps k] assms by (cases "handshake_loop steps k") auto

section \<open>The invariant of a connection\<close>

definition session_for :: "client_tls_options \<Rightarrow> ssl_session \<Rightarrow> bool" where
  "session_for options session \<longleftrightarrow> \<not> ses_server session \<and>
     ses_host session = (if opt_server_name options = [] then None else Some (opt_server_name options))"

definition link_ok :: "bool \<Rightarrow> link \<Rightarrow> bool" where
  "link_ok compiled l \<longleftrightarrow> ln_sockets l = of_bool (ln_socket l) \<and> live_contexts (ln_heap l) = of_bool (ln_context l \<noteq> None) \<and>
     live_sessions (ln_heap l) = of_bool (ln_session l \<noteq> None) \<and>
     (\<forall>ctx. ln_context l = Some ctx \<longrightarrow> client_ctx (ln_options l) ctx) \<and>
     (\<forall>session. ln_session l = Some session \<longrightarrow>
        compiled \<and> ln_socket l \<and> ln_context l \<noteq> None \<and> session_for (ln_options l) session)"

definition link_secured :: "link \<Rightarrow> bool" where
  "link_secured l \<longleftrightarrow> (ln_secured l \<longrightarrow> ln_session l \<noteq> None) \<and>
     (ln_socket l \<longrightarrow> (opt_enabled (ln_options l) \<longleftrightarrow> ln_session l \<noteq> None \<and> ln_secured l))"

lemma new_link_ok: "link_ok compiled new_link \<and> link_secured new_link"
  by (simp add: new_link_def link_ok_def link_secured_def)

lemma Close_link_ok:
  assumes "link_ok compiled l" and "ln_secured l \<Longrightarrow> ln_session l \<noteq> None"
  shows "link_ok compiled (Close_link compiled l) \<and> link_secured (Close_link compiled l) \<and> \<not> ln_socket (Close_link compiled l) \<and>
    ln_session (Close_link compiled l) = None \<and> ln_options (Close_link compiled l) = ln_options l \<and>
    ln_context (Close_link compiled l) = ln_context l"
  using assms by (auto simp: Close_link_def link_ok_def link_secured_def CloseSession_def SSL_free_def Let_def split: if_splits)

lemma setTlsOptions_ok:
  assumes "link_ok compiled l" and "link_secured l"
  shows "link_ok compiled (setTlsOptions compiled l options) \<and> link_secured (setTlsOptions compiled l options)"
  using assms
  by (auto simp: setTlsOptions_def Close_link_def link_ok_def link_secured_def CloseSession_def SSL_free_def SSL_CTX_free_def
      Let_def split: if_splits)

text \<open>A socket that is connected and has no session yet.\<close>

definition half_open :: "bool \<Rightarrow> link \<Rightarrow> bool" where
  "half_open compiled l \<longleftrightarrow> link_ok compiled l \<and> ln_socket l \<and> ln_session l = None \<and> \<not> ln_secured l"

lemma make_context:
  assumes "half_open compiled l"
    and "(case ln_context l of Some ctx \<Rightarrow> (ln_heap l, Some ctx)
         | None \<Rightarrow> (case CreateClient compiled os (ln_heap l) (ln_options l) of
                      (h, Inl _) \<Rightarrow> (h, None) | (h, Inr ctx) \<Rightarrow> (h, Some ctx))) = (h, ctx)"
  shows "half_open compiled (l\<lparr>ln_heap := h, ln_context := ctx\<rparr>)"
proof (cases "ln_context l")
  case None
  obtain h' r where r: "CreateClient compiled os (ln_heap l) (ln_options l) = (h', r)" by fastforce
  then show ?thesis using assms None CreateClient_result [OF r]
    by (cases r) (auto simp: half_open_def link_ok_def)
next
  case (Some c)
  then have "h = ln_heap l" "ctx = Some c" using assms(2) by auto
  then show ?thesis using assms(1) Some by (simp add: half_open_def link_ok_def)
qed

lemma make_session:
  assumes "half_open compiled l" and "ln_context l = Some ctx" and "NewSession compiled os (ln_heap l) ctx False = (h, r)"
  shows "case r of Inl _ \<Rightarrow> half_open compiled (l\<lparr>ln_heap := h\<rparr>)
    | Inr session \<Rightarrow> link_ok compiled (l\<lparr>ln_heap := h, ln_session := Some session\<rparr>)"
  using assms NewSession_result [OF assms(3)]
  by (auto simp: half_open_def link_ok_def session_for_def client_ctx_def split: sum.splits)

lemma start_tls_ok:
  assumes "half_open compiled l" and "opt_enabled (ln_options l)" and "start_tls compiled io l = Some (l', b)"
  shows "link_ok compiled l' \<and> link_secured l' \<and> ln_socket l' = b"
proof -
  obtain h ctx where ctx: "(case ln_context l of Some ctx \<Rightarrow> (ln_heap l, Some ctx)
         | None \<Rightarrow> (case CreateClient compiled (ep_openssl io) (ln_heap l) (ln_options l) of
                      (h, Inl _) \<Rightarrow> (h, None) | (h, Inr ctx) \<Rightarrow> (h, Some ctx))) = (h, ctx)"
    by fastforce
  define l1 where "l1 = l\<lparr>ln_heap := h, ln_context := ctx\<rparr>"
  have half: "half_open compiled l1" unfolding l1_def by (rule make_context [OF assms(1) ctx])
  show ?thesis
  proof (cases ctx)
    case None
    then have "l' = Close_link compiled l1" "\<not> b" using assms(3) ctx by (auto simp: start_tls_def l1_def)
    then show ?thesis using Close_link_ok [of compiled l1] half by (simp add: half_open_def)
  next
    case (Some c)
    obtain h2 r where r: "NewSession compiled (ep_openssl io) h c False = (h2, r)" by fastforce
    have heap: "ln_heap l1 = h" "ln_context l1 = Some c" using Some by (simp_all add: l1_def)
    note made = make_session [OF half heap(2) r [folded heap(1)]]
    show ?thesis
    proof (cases r)
      case (Inl e)
      then have "l' = Close_link compiled (l1\<lparr>ln_heap := h2\<rparr>)" "\<not> b"
        using assms(3) ctx Some r by (auto simp: start_tls_def l1_def)
      then show ?thesis using Close_link_ok [of compiled "l1\<lparr>ln_heap := h2\<rparr>"] made Inl by (simp add: half_open_def)
    next
      case (Inr session)
      let ?l2 = "l1\<lparr>ln_heap := h2, ln_session := Some session\<rparr>"
      have l': "l' = (if b then ?l2\<lparr>ln_secured := True\<rparr> else Close_link compiled ?l2)"
        using assms(3) ctx Some r Inr by (auto simp: start_tls_def l1_def Let_def split: if_splits)
      have l2: "link_ok compiled ?l2" using made Inr by simp
      show ?thesis
      proof (cases b)
        case True
        then show ?thesis using l' l2 assms(2) by (auto simp: link_ok_def link_secured_def l1_def)
      next
        case False
        then show ?thesis using l' Close_link_ok [OF l2] by simp
      qed
    qed
  qed
qed

lemma try_endpoint_ok:
  assumes "link_ok compiled l" and "link_secured l" and "\<not> ln_socket l" and "try_endpoint compiled io l = Some (l', b)"
  shows "link_ok compiled l' \<and> link_secured l' \<and> ln_socket l' = b"
proof -
  let ?l1 = "l\<lparr>ln_socket := True, ln_sockets := ln_sockets l + 1\<rparr>"
  have none: "ln_session l = None" "\<not> ln_secured l" using assms(1-3) by (auto simp: link_ok_def link_secured_def)
  then have half: "half_open compiled ?l1" using assms(1,3) by (auto simp: half_open_def link_ok_def)
  have "l = l\<lparr>ln_socket := False\<rparr>" using assms(3) by simp
  then show ?thesis
    using assms none half start_tls_ok [OF half, of io l' b] Close_link_ok [of compiled ?l1]
    by (auto simp: try_endpoint_def Let_def half_open_def link_ok_def link_secured_def split: if_splits)
qed

lemma try_endpoints_ok:
  assumes "link_ok compiled l" and "link_secured l" and "\<not> ln_socket l" and "try_endpoints compiled ios l = Some (l', b)"
  shows "link_ok compiled l' \<and> link_secured l' \<and> ln_socket l' = b"
  using assms
proof (induction ios arbitrary: l)
  case (Cons io ios)
  then obtain l1 ok where one: "try_endpoint compiled io l = Some (l1, ok)" by (auto split: option.splits)
  then show ?case using Cons try_endpoint_ok [OF Cons.prems(1-3) one] by (cases ok) auto
qed auto

lemma Connect_link_ok:
  assumes "link_ok compiled l" and "link_secured l" and "Connect_link compiled ios l = Some (l', b)"
  shows "link_ok compiled l' \<and> link_secured l' \<and> ln_socket l' = b"
  using assms try_endpoints_ok [of compiled l ios l' b] by (auto simp: Connect_link_def split: if_splits)

inductive link_reachable :: "bool \<Rightarrow> link \<Rightarrow> bool" for compiled where
  created: "link_reachable compiled new_link"
| connected: "link_reachable compiled l \<Longrightarrow> Connect_link compiled ios l = Some (l', b) \<Longrightarrow> link_reachable compiled l'"
| closed: "link_reachable compiled l \<Longrightarrow> link_reachable compiled (Close_link compiled l)"
| configured: "link_reachable compiled l \<Longrightarrow> link_reachable compiled (setTlsOptions compiled l options)"

lemma link_reachable_ok: "link_reachable compiled l \<Longrightarrow> link_ok compiled l \<and> link_secured l"
proof (induction rule: link_reachable.induct)
  case (connected l ios l' b)
  then show ?case using Connect_link_ok by blast
next
  case (closed l)
  then show ?case using Close_link_ok [of compiled l] by (auto simp: link_secured_def)
qed (simp_all add: new_link_ok setTlsOptions_ok)

section \<open>Properties\<close>

text \<open>C34: Whatever OpenSSL, the sockets and the peers answer, a client whose connection is open and whose options enable TLS
  has a session whose handshake succeeded, made from a context that is what its current options ask for: TLS 1.2 or
  later, the peer verified against the configured authorities when it is to be verified, the configured key pair, and
  the configured host name checked. No context, session or socket is leaked or freed twice, neither by a client nor by the
  creation of a server's context, which requires client certificates when its options do.\<close>

theorem tls_enforced_and_not_leaked:
  assumes "link_reachable compiled l"
  shows "(ln_socket l \<and> opt_enabled (ln_options l) \<longrightarrow>
      (\<exists>ctx session. ln_context l = Some ctx \<and> client_ctx (ln_options l) ctx \<and> ln_session l = Some session \<and>
         session_for (ln_options l) session \<and> ln_secured l \<and> compiled)) \<and>
    ln_sockets l = of_bool (ln_socket l) \<and> live_contexts (ln_heap l) = of_bool (ln_context l \<noteq> None) \<and>
    live_sessions (ln_heap l) = of_bool (ln_session l \<noteq> None) \<and>
    (case CreateServer compiled os h options of
       (h', Inl _) \<Rightarrow> h' = h
     | (h', Inr ctx) \<Rightarrow> server_ctx options ctx \<and> h' = h\<lparr>live_contexts := live_contexts h + 1\<rparr>)"
proof -
  have ok: "link_ok compiled l" "link_secured l" using link_reachable_ok [OF assms] by simp_all
  obtain h' r where "CreateServer compiled os h options = (h', r)" by fastforce
  then show ?thesis using CreateServer_result [of compiled os h options h' r] ok
    by (cases r) (auto simp: link_ok_def link_secured_def)
qed

text \<open>The witness: a client configured for TLS with a certificate authority and a host name connects.\<close>

definition demo_options :: client_tls_options where
  "demo_options = \<lparr>opt_enabled = True, opt_certificate_file = [], opt_private_key_file = [], opt_ca_file = [99],
     opt_server_name = [109], opt_verify_peer = True, opt_require_client_certificate = False\<rparr>"

definition demo_openssl :: openssl where
  "demo_openssl = \<lparr>ssl_ctx_new = True, ssl_default_paths = True, ssl_load_ca = (\<lambda>_. True), ssl_use_certificate = (\<lambda>_. True),
     ssl_use_key = (\<lambda>_. True), ssl_check_key = True, ssl_new = True, ssl_set_fd = True, ssl_set_host = (\<lambda>_. True), ssl_message = None\<rparr>"

definition demo_endpoint :: endpoint_io where
  "demo_endpoint = \<lparr>ep_socket = True, ep_resolve = True, ep_connect = True, ep_openssl = demo_openssl,
     ep_handshake = (\<lambda>k. if k = 0 then kWantRead else kOk_io)\<rparr>"

definition demo_link :: link where
  "demo_link = fst (the (Connect_link True [demo_endpoint] (setTlsOptions True new_link demo_options)))"

lemma demo_handshake: "handshake_loop (\<lambda>k. if k = 0 then kWantRead else kOk_io) 0 = Some True"
  by (subst handshake_loop.simps, subst handshake_loop.simps) simp

lemma demo_link_connects:
  "Connect_link True [demo_endpoint] (setTlsOptions True new_link demo_options) = Some (demo_link, True)"
  by (simp add: demo_link_def Connect_link_def setTlsOptions_def Close_link_def new_link_def demo_options_def demo_endpoint_def
      try_endpoint_def start_tls_def CreateClient_def load_peer_ca_def NewSession_def demo_openssl_def new_ctx_def demo_handshake Let_def)

lemma demo_link_reachable: "link_reachable True demo_link"
  using link_reachable.connected [OF link_reachable.configured [OF link_reachable.created] demo_link_connects] .

theorem tls_enforced_and_not_leaked_witness:
  "ln_socket demo_link \<and> ln_secured demo_link \<and> ln_sockets demo_link = 1 \<and>
   (\<exists>ctx. ln_context demo_link = Some ctx \<and> ctx_verify ctx = Verify_peer \<and> ctx_ca ctx = Ca_file [99])"
proof -
  have "ln_socket demo_link" "ln_options demo_link = demo_options"
    using Connect_link_ok [OF _ _ demo_link_connects] setTlsOptions_ok new_link_ok
    by (auto simp: demo_link_def Connect_link_def setTlsOptions_def Close_link_def new_link_def demo_options_def demo_endpoint_def
      try_endpoint_def start_tls_def CreateClient_def load_peer_ca_def NewSession_def demo_openssl_def new_ctx_def demo_handshake Let_def)
  then show ?thesis using tls_enforced_and_not_leaked [OF demo_link_reachable, where os = demo_openssl and h = "ln_heap new_link" and options = demo_options]
    by (auto simp: client_ctx_def demo_options_def split: prod.splits sum.splits)
qed

end
