(* ===== verification/Transport.thy ===== *)
theory Transport
  imports Replication_Client Tls
begin

text \<open>
  Sending and receiving on a connection, \<^verbatim>\<open>SendAll\<close>, \<^verbatim>\<open>ReceiveAll\<close>, \<^verbatim>\<open>SendAllData\<close> and \<^verbatim>\<open>ReceiveAllData\<close> of
  \<^verbatim>\<open>src/client/mq_client.cc\<close> and of \<^verbatim>\<open>src/server/replication_client.cc\<close>, and the reading of a response with them. The models of
  the clients are given the bytes that arrive after a request; here they arrive in pieces. \<open>cuts\<close> says how many bytes the
  operating system hands over at each call at most, at least one while there are any, and none when the connection is at its
  end. \<open>takes\<close> says how many bytes a send takes, or that it fails. \<open>errors\<close> is what OpenSSL reports when it has no data.
\<close>

section \<open>System calls\<close>

text \<open>The lengths of the calls are converted to \<^verbatim>\<open>int\<close>.\<close>

definition to_int :: "nat \<Rightarrow> int" where
  "to_int n = sint (of_nat n :: u32)"

definition recv_count :: "(nat \<Rightarrow> nat) \<Rightarrow> nat \<Rightarrow> bytes \<Rightarrow> int \<Rightarrow> int" where
  "recv_count cuts k input requested =
    (if requested < 0 then - 1 else min (max 1 (int (cuts k))) (min requested (int (length input))))"

definition send_count :: "(nat \<Rightarrow> nat option) \<Rightarrow> nat \<Rightarrow> int \<Rightarrow> int" where
  "send_count takes k requested =
    (case takes k of None \<Rightarrow> - 1 | Some n \<Rightarrow> if requested < 0 then - 1 else min (max 1 (int n)) requested)"

lemma recv_count_bounds:
  assumes "0 < recv_count cuts k input requested"
  shows "recv_count cuts k input requested \<le> int (length input) \<and> recv_count cuts k input requested \<le> requested"
  using assms by (simp add: recv_count_def min_le_iff_disj split: if_splits)

lemma recv_progress:
  assumes "0 < recv_count cuts k input requested" and "length data < n"
  shows "n - length (data @ take (nat (recv_count cuts k input requested)) input) < n - length data"
proof -
  let ?count = "nat (recv_count cuts k input requested)"
  have "0 < ?count" "?count \<le> length input" using recv_count_bounds [OF assms(1)] assms(1) by auto
  then have "length (take ?count input) = ?count" by simp
  then show ?thesis using assms(2) \<open>0 < ?count\<close> by (simp only: length_append)
qed

lemma tls_Read_count: "tls_Read compiled capacity result code = (kOk_io, Some count) \<Longrightarrow> 0 < result \<and> count = nat result"
  by (auto simp: tls_Read_def split: if_splits)

lemma tls_Read_failed: "result \<le> 0 \<Longrightarrow> fst (tls_Read compiled capacity result code) \<noteq> kOk_io"
  by (simp add: tls_Read_def)

lemma tls_Read_some:
  "0 < result \<Longrightarrow> 0 < capacity \<Longrightarrow> capacity < 2 ^ 31 \<Longrightarrow> tls_Read True capacity result code = (kOk_io, Some (nat result))"
  by (simp add: tls_Read_def)

section \<open>The loops\<close>

text \<open>The result is the number of the next call, the bytes not yet read, the bytes read and whether all were there.\<close>

type_synonym received = "nat \<times> bytes \<times> bytes \<times> bool"

function ReceiveAll :: "(nat \<Rightarrow> nat) \<Rightarrow> nat \<Rightarrow> bytes \<Rightarrow> nat \<Rightarrow> bytes \<Rightarrow> received" where
  "ReceiveAll cuts k input n data =
    (if length data < n then
       let count = recv_count cuts k input (to_int (n - length data)) in
       if count \<le> 0 then (Suc k, input, data, False)
       else ReceiveAll cuts (Suc k) (drop (nat count) input) n (data @ take (nat count) input)
     else (k, input, data, True))"
  by pat_completeness auto
termination
proof (relation "measure (\<lambda>(cuts, k, input, n, data). n - length data)")
  fix cuts k and input data :: bytes and n count
  assume "length data < n" "count = recv_count cuts k input (to_int (n - length data))" "\<not> count \<le> 0"
  then show "((cuts, Suc k, drop (nat count) input, n, data @ take (nat count) input), cuts, k, input, n, data)
      \<in> measure (\<lambda>(cuts, k, input, n, data). n - length data)"
    using recv_progress [of cuts k input "to_int (n - length data)" data n] by (simp del: length_append)
qed simp

function ReceiveTls :: "(nat \<Rightarrow> nat) \<Rightarrow> (nat \<Rightarrow> ssl_error) \<Rightarrow> nat \<Rightarrow> bytes \<Rightarrow> nat \<Rightarrow> bytes \<Rightarrow> received" where
  "ReceiveTls cuts errors k input n data =
    (if length data < n then
       let (res, got) = tls_Read True (n - length data) (recv_count cuts k input (int (n - length data))) (errors k);
           count = (case got of None \<Rightarrow> 0 | Some m \<Rightarrow> m) in
       if res \<noteq> kOk_io \<or> count = 0 then (Suc k, input, data, False)
       else ReceiveTls cuts errors (Suc k) (drop count input) n (data @ take count input)
     else (k, input, data, True))"
  by pat_completeness auto
termination
proof (relation "measure (\<lambda>(cuts, errors, k, input, n, data). n - length data)")
  fix cuts errors k and input data :: bytes and n res got count and x :: "TlsIoResult \<times> nat option"
  assume "length data < n" "x = tls_Read True (n - length data) (recv_count cuts k input (int (n - length data))) (errors k)"
    "(res, got) = x" "count = (case got of None \<Rightarrow> 0 | Some m \<Rightarrow> m)" "\<not> (res \<noteq> kOk_io \<or> count = 0)"
  then show "((cuts, errors, Suc k, drop count input, n, data @ take count input), cuts, errors, k, input, n, data)
      \<in> measure (\<lambda>(cuts, errors, k, input, n, data). n - length data)"
    using tls_Read_count [of True "n - length data" "recv_count cuts k input (int (n - length data))" "errors k" count]
      recv_progress [of cuts k input "int (n - length data)" data n]
    by (auto simp del: length_append split: option.splits)
qed simp

definition ReceiveAllData ::
  "bool \<Rightarrow> (nat \<Rightarrow> nat) \<Rightarrow> (nat \<Rightarrow> ssl_error) \<Rightarrow> nat \<Rightarrow> bytes \<Rightarrow> nat \<Rightarrow> received" where
  "ReceiveAllData tls cuts errors k input n =
    (if tls then ReceiveTls cuts errors k input n [] else ReceiveAll cuts k input n [])"

function SendAll :: "(nat \<Rightarrow> nat option) \<Rightarrow> nat \<Rightarrow> bytes \<Rightarrow> nat \<Rightarrow> bytes \<Rightarrow> bytes \<times> bool" where
  "SendAll takes k data sent wire =
    (if sent < length data then
       let count = send_count takes k (to_int (length data - sent)) in
       if count \<le> 0 then (wire, False)
       else SendAll takes (Suc k) data (sent + nat count) (wire @ take (nat count) (drop sent data))
     else (wire, True))"
  by pat_completeness auto
termination
  by (relation "measure (\<lambda>(takes, k, data, sent, wire). length data - sent)") auto

function SendTls :: "(nat \<Rightarrow> nat option) \<Rightarrow> (nat \<Rightarrow> ssl_error) \<Rightarrow> nat \<Rightarrow> bytes \<Rightarrow> nat \<Rightarrow> bytes \<Rightarrow> bytes \<times> bool" where
  "SendTls takes errors k data sent wire =
    (if sent < length data then
       let (res, written) = tls_Write True (length data - sent) (send_count takes k (int (length data - sent))) (errors k);
           count = (case written of None \<Rightarrow> 0 | Some m \<Rightarrow> m) in
       if res \<noteq> kOk_io \<or> count = 0 then (wire, False)
       else SendTls takes errors (Suc k) data (sent + count) (wire @ take count (drop sent data))
     else (wire, True))"
  by pat_completeness auto
termination
  by (relation "measure (\<lambda>(takes, errors, k, data, sent, wire). length data - sent)") auto

definition SendAllData :: "bool \<Rightarrow> (nat \<Rightarrow> nat option) \<Rightarrow> (nat \<Rightarrow> ssl_error) \<Rightarrow> bytes \<Rightarrow> bytes \<times> bool" where
  "SendAllData tls takes errors data =
    (if tls then SendTls takes errors 0 data 0 [] else SendAll takes 0 data 0 [])"

declare ReceiveAll.simps [simp del] ReceiveTls.simps [simp del] SendAll.simps [simp del] SendTls.simps [simp del]

section \<open>Reading a response\<close>

text \<open>The part of \<^verbatim>\<open>Call\<close> after the request has been sent. A failed read on a TLS session also sets the error text, to
  \<open>failure\<close>.\<close>

definition receive_failed :: "bool \<Rightarrow> string \<Rightarrow> client \<Rightarrow> answer" where
  "receive_failed tls failure c = Retry (Close (if tls then c\<lparr>cl_error := failure\<rparr> else c))"

definition read_pieces ::
  "bool \<Rightarrow> string \<Rightarrow> (nat \<Rightarrow> nat) \<Rightarrow> (nat \<Rightarrow> ssl_error) \<Rightarrow> client \<Rightarrow> Request \<Rightarrow> bytes \<Rightarrow> answer option" where
  "read_pieces tls failure cuts errors c request input =
    (case ReceiveAllData tls cuts errors 0 input 18 of
       (k, rest, header, False) \<Rightarrow> Some (receive_failed tls failure c)
     | (k, rest, header, True) \<Rightarrow> do {
         payload_size \<leftarrow> map_option unat (Get32 header 14);
         if payload_size > kMaxPayloadBytes then Some (Retry (Close (c\<lparr>cl_error := ''response payload too large''\<rparr>)))
         else (case ReceiveAllData tls cuts errors k rest payload_size of
            (_, _, _, False) \<Rightarrow> Some (receive_failed tls failure c)
          | (_, _, payload, True) \<Rightarrow> do {
              decoded \<leftarrow> DecodeResponse (header @ payload);
              Some (case decoded of
                Inl err \<Rightarrow> Retry (Close (c\<lparr>cl_error := err\<rparr>))
              | Inr response \<Rightarrow>
                  if resp_id response \<noteq> req_id request then Retry (Close (c\<lparr>cl_error := ''response request_id mismatch''\<rparr>))
                  else if resp_status response = kNotLeader \<and> length (cl_endpoints c) > 1
                  then Retry ((Close c)\<lparr>cl_endpoint_index := (cl_endpoint_index c + 1) mod length (cl_endpoints c)\<rparr>)
                  else Accept response) }) })"

text \<open>The same part of the replication client, which has no TLS.\<close>

definition rpc_read_pieces :: "(nat \<Rightarrow> nat) \<Rightarrow> bytes \<Rightarrow> u64 \<Rightarrow> (string + Response) option" where
  "rpc_read_pieces cuts input request_id =
    (case ReceiveAll cuts 0 input 18 [] of
       (k, rest, header, False) \<Rightarrow> Some (Inl [])
     | (k, rest, header, True) \<Rightarrow> do {
         payload_size \<leftarrow> map_option unat (Get32 header 14);
         if payload_size > kMaxPayloadBytes then Some (Inl [])
         else (case ReceiveAll cuts k rest payload_size [] of
            (_, _, _, False) \<Rightarrow> Some (Inl [])
          | (_, _, payload, True) \<Rightarrow> do {
              decoded \<leftarrow> DecodeResponse (header @ payload);
              Some (case decoded of
                Inl err \<Rightarrow> Inl err
              | Inr response \<Rightarrow> if resp_id response = request_id then Inr response else Inl []) }) })"

section \<open>Every way of cutting reads the same bytes\<close>

lemma to_int_small: "n < 2 ^ 31 \<Longrightarrow> to_int n = int n"
  by (simp add: to_int_def sint_uint unsigned_of_nat take_bit_nat_eq_self signed_take_bit_int_eq_self)

definition all_received :: "bytes \<Rightarrow> nat \<Rightarrow> bytes \<Rightarrow> received \<Rightarrow> bool" where
  "all_received input n data r \<longleftrightarrow> (case r of (k, rest, got, ok) \<Rightarrow>
     (if length data + length input < n then \<not> ok
      else ok \<and> rest = drop (n - length data) input \<and> got = data @ take (n - length data) input))"

lemma all_received_more:
  assumes "0 < count" and "count \<le> length input" and "count \<le> n - length data" and "length data < n"
    and "all_received (drop count input) n (data @ take count input) r"
  shows "all_received input n data r"
proof -
  have "n - length (data @ take count input) = n - length data - count" using assms(2) by simp
  moreover have "take count input @ take (n - length data - count) (drop count input) = take (n - length data) input"
    using assms(3) by (metis le_add_diff_inverse take_add)
  ultimately show ?thesis using assms by (auto simp: all_received_def split: prod.splits if_splits)
qed

lemma ReceiveAll_received:
  assumes "length data \<le> n" and "n < 2 ^ 31"
  shows "all_received input n data (ReceiveAll cuts k input n data)"
  using assms
proof (induction cuts k input n data rule: ReceiveAll.induct)
  case (1 cuts k input n data)
  let ?count = "recv_count cuts k input (to_int (n - length data))"
  have to: "to_int (n - length data) = int (n - length data)" using 1(3) by (intro to_int_small) simp
  show ?case
  proof (cases "length data < n \<and> 0 < ?count")
    case True
    have bounds: "nat ?count \<le> length input" "nat ?count \<le> n - length data"
      using to True by (auto simp: recv_count_def)
    have "all_received (drop (nat ?count) input) n (data @ take (nat ?count) input)
        (ReceiveAll cuts (Suc k) (drop (nat ?count) input) n (data @ take (nat ?count) input))"
      by (rule 1(1)) (use True bounds 1(3) in auto)
    then have "all_received input n data (ReceiveAll cuts (Suc k) (drop (nat ?count) input) n (data @ take (nat ?count) input))"
      using True bounds all_received_more [of "nat ?count" input n data] by simp
    then show ?thesis using True by (subst ReceiveAll.simps) (simp add: Let_def)
  next
    case False
    then show ?thesis using to 1(2)
      by (subst ReceiveAll.simps) (auto simp: all_received_def recv_count_def Let_def split: if_splits)
  qed
qed

lemma ReceiveTls_received:
  assumes "length data \<le> n" and "n < 2 ^ 31"
  shows "all_received input n data (ReceiveTls cuts errors k input n data)"
  using assms
proof (induction cuts errors k input n data rule: ReceiveTls.induct)
  case (1 cuts errors k input n data)
  let ?count = "recv_count cuts k input (int (n - length data))"
  have read: "tls_Read True (n - length data) ?count (errors k) = (kOk_io, Some (nat ?count))"
    if "length data < n" "0 < ?count" using that 1(3) by (intro tls_Read_some) simp_all
  have none: "fst (tls_Read True (n - length data) ?count (errors k)) \<noteq> kOk_io" if "?count \<le> 0"
    using that by (rule tls_Read_failed)
  show ?case
  proof (cases "length data < n \<and> 0 < ?count")
    case True
    have bounds: "nat ?count \<le> length input" "nat ?count \<le> n - length data"
      using recv_count_bounds [of cuts k input "int (n - length data)"] True by auto
    have "all_received (drop (nat ?count) input) n (data @ take (nat ?count) input)
        (ReceiveTls cuts errors (Suc k) (drop (nat ?count) input) n (data @ take (nat ?count) input))"
      by (rule 1(1) [OF _ refl read [symmetric]]) (use True bounds 1(3) in auto)
    from all_received_more [OF _ bounds _ this] True
    have "all_received input n data (ReceiveTls cuts errors (Suc k) (drop (nat ?count) input) n (data @ take (nat ?count) input))"
      by auto
    then show ?thesis using True read by (subst ReceiveTls.simps) (simp add: Let_def del: of_nat_diff)
  next
    case False
    then have "length data < n \<Longrightarrow> input = []" by (auto simp: recv_count_def)
    then show ?thesis using False none 1(2)
      by (subst ReceiveTls.simps) (auto simp: all_received_def Let_def split: prod.splits)
  qed
qed

lemma ReceiveAllData_received: "n < 2 ^ 31 \<Longrightarrow> all_received input n [] (ReceiveAllData tls cuts errors k input n)"
  using ReceiveAll_received [of "[]" n] ReceiveTls_received [of "[]" n] by (simp add: ReceiveAllData_def)

text \<open>What a read of \<open>n\<close> bytes returns, whatever the pieces.\<close>

lemma ReceiveAllData_cases:
  assumes "n < 2 ^ 31"
  obtains (short) k rest got where "length input < n" and "ReceiveAllData tls cuts errors k0 input n = (k, rest, got, False)"
    | (whole) k where "n \<le> length input" and "ReceiveAllData tls cuts errors k0 input n = (k, drop n input, take n input, True)"
  using ReceiveAllData_received [OF assms, of input tls cuts errors k0]
  by (cases "ReceiveAllData tls cuts errors k0 input n") (auto simp: all_received_def split: if_splits)

definition forget_error :: "answer \<Rightarrow> answer" where
  "forget_error a = (case a of Accept response \<Rightarrow> Accept response | Retry c \<Rightarrow> Retry (c\<lparr>cl_error := []\<rparr>))"

lemma header_bytes: "(18 :: nat) < 2 ^ 31"
  by simp

lemma header_size_fits: "unat (v :: u32) \<le> kMaxPayloadBytes \<Longrightarrow> unat v < 2 ^ 31"
  by (simp add: kMaxPayloadBytes_def)

lemma read_pieces_equal:
  "map_option forget_error (read_pieces tls failure cuts errors c request input) = map_option forget_error (read_answer c request input)
   \<and> (\<not> tls \<longrightarrow> read_pieces tls failure cuts errors c request input = read_answer c request input)"
proof (cases rule: ReceiveAllData_cases [OF header_bytes, of input tls cuts errors 0, case_names short whole])
  case (short k rest got)
  then show ?thesis by (cases tls) (simp_all add: read_pieces_def read_answer_def receive_failed_def forget_error_def Close_def)
next
  case (whole k)
  obtain v where v: "Get32 (take 18 input) 14 = Some v" using whole(1) by (simp add: Get32_def)
  show ?thesis
  proof (cases "unat v > kMaxPayloadBytes")
    case True
    then show ?thesis using whole v by (cases tls) (simp_all add: read_pieces_def read_answer_def)
  next
    case False
    then have small: "unat v < 2 ^ 31" by (intro header_size_fits) simp
    show ?thesis
    proof (cases rule: ReceiveAllData_cases [OF small, of "drop 18 input" tls cuts errors k, case_names short whole])
      case s: (short k1 rest got)
      then have "length input < 18 + unat v" by auto
      then show ?thesis using s whole v False
        by (cases tls) (simp_all add: read_pieces_def read_answer_def receive_failed_def forget_error_def Close_def)
    next
      case w: (whole k1)
      then have "18 + unat v \<le> length input" "take 18 input @ take (unat v) (drop 18 input) = take (18 + unat v) input"
        using whole(1) by (auto simp: take_add)
      then show ?thesis using w whole v False by (cases tls) (simp_all add: read_pieces_def read_answer_def)
    qed
  qed
qed

lemma rpc_read_pieces_equal: "rpc_read_pieces cuts input request_id = receive_response input request_id"
proof (cases rule: ReceiveAllData_cases [OF header_bytes, of input False cuts "\<lambda>_. Ssl_other" 0, case_names short whole])
  case (short k rest got)
  then show ?thesis by (simp add: rpc_read_pieces_def receive_response_def ReceiveAllData_def)
next
  case (whole k)
  obtain v where v: "Get32 (take 18 input) 14 = Some v" using whole(1) by (simp add: Get32_def)
  show ?thesis
  proof (cases "unat v > kMaxPayloadBytes")
    case True
    then show ?thesis using whole v by (simp add: rpc_read_pieces_def receive_response_def ReceiveAllData_def)
  next
    case False
    then have small: "unat v < 2 ^ 31" by (intro header_size_fits) simp
    show ?thesis
    proof (cases rule: ReceiveAllData_cases [OF small, of "drop 18 input" False cuts "\<lambda>_. Ssl_other" k, case_names short whole])
      case s: (short k1 rest got)
      then have "length input < 18 + unat v" by auto
      then show ?thesis using s whole v False by (simp add: rpc_read_pieces_def receive_response_def ReceiveAllData_def)
    next
      case w: (whole k1)
      then have "18 + unat v \<le> length input" "take 18 input @ take (unat v) (drop 18 input) = take (18 + unat v) input"
        using whole(1) by (auto simp: take_add)
      then show ?thesis using w whole v False by (simp add: rpc_read_pieces_def receive_response_def ReceiveAllData_def)
    qed
  qed
qed

section \<open>Sending\<close>

definition all_sent :: "bytes \<Rightarrow> nat \<Rightarrow> bytes \<Rightarrow> bytes \<times> bool \<Rightarrow> bool" where
  "all_sent data sent wire r \<longleftrightarrow> (\<exists>n \<le> length data - sent. fst r = wire @ take n (drop sent data) \<and> (snd r \<longrightarrow> n = length data - sent))"

lemma all_sent_more:
  assumes "count \<le> length data - sent" and "all_sent data (sent + count) (wire @ take count (drop sent data)) r"
  shows "all_sent data sent wire r"
proof -
  obtain n where n: "n \<le> length data - (sent + count)" "fst r = (wire @ take count (drop sent data)) @ take n (drop (sent + count) data)"
      "snd r \<longrightarrow> n = length data - (sent + count)"
    using assms(2) by (auto simp: all_sent_def)
  moreover have "take count (drop sent data) @ take n (drop (sent + count) data) = take (count + n) (drop sent data)"
    by (simp add: take_add add.commute)
  ultimately show ?thesis using assms(1) by (auto simp: all_sent_def intro!: exI [of _ "count + n"])
qed

lemma send_count_bounds: "0 < send_count takes k requested \<Longrightarrow> send_count takes k requested \<le> requested"
  by (simp add: send_count_def min_le_iff_disj split: option.splits if_splits)

lemma all_sent_stop: "all_sent data sent wire (wire, False)"
  by (auto simp: all_sent_def)

lemma SendAll_sent:
  assumes "length data < 2 ^ 31"
  shows "all_sent data sent wire (SendAll takes k data sent wire)"
  using assms
proof (induction takes k data sent wire rule: SendAll.induct)
  case (1 takes k data sent wire)
  let ?count = "send_count takes k (to_int (length data - sent))"
  have to: "to_int (length data - sent) = int (length data - sent)" using 1(2) by (intro to_int_small) simp
  show ?case
  proof (cases "sent < length data \<and> 0 < ?count")
    case True
    have "all_sent data (sent + nat ?count) (wire @ take (nat ?count) (drop sent data))
        (SendAll takes (Suc k) data (sent + nat ?count) (wire @ take (nat ?count) (drop sent data)))"
      by (rule 1(1)) (use True 1(2) in auto)
    moreover have "?count \<le> int (length data - sent)"
      using send_count_bounds [of takes k "to_int (length data - sent)"] True unfolding to by blast
    then have "nat ?count \<le> length data - sent" by (simp only: nat_le_iff)
    ultimately show ?thesis using True all_sent_more [of "nat ?count" data sent wire] by (subst SendAll.simps) (simp add: Let_def)
  next
    case False
    then show ?thesis using all_sent_stop [of data sent wire]
      by (subst SendAll.simps) (auto simp: Let_def all_sent_def)
  qed
qed

lemma tls_Write_count: "tls_Write compiled n result code = (kOk_io, Some count) \<Longrightarrow> 0 < result \<and> count = nat result"
  by (auto simp: tls_Write_def split: if_splits)

lemma SendTls_sent: "all_sent data sent wire (SendTls takes errors k data sent wire)"
proof (induction takes errors k data sent wire rule: SendTls.induct)
  case (1 takes errors k data sent wire)
  obtain res written where w: "tls_Write True (length data - sent) (send_count takes k (int (length data - sent))) (errors k) = (res, written)"
    by fastforce
  define count where "count = (case written of None \<Rightarrow> 0 | Some m \<Rightarrow> m)"
  show ?case
  proof (cases "sent < length data \<and> res = kOk_io \<and> count \<noteq> 0")
    case True
    then have "written = Some count" by (auto simp: count_def split: option.splits)
    then have "count \<le> length data - sent"
      using tls_Write_count [of True _ _ _ count] w True send_count_bounds [of takes k "int (length data - sent)"] by fastforce
    moreover have "all_sent data (sent + count) (wire @ take count (drop sent data))
        (SendTls takes errors (Suc k) data (sent + count) (wire @ take count (drop sent data)))"
      by (rule 1 [OF _ refl w [symmetric] count_def]) (use True in auto)
    ultimately have "all_sent data sent wire (SendTls takes errors (Suc k) data (sent + count) (wire @ take count (drop sent data)))"
      by (rule all_sent_more)
    then show ?thesis using True w by (subst SendTls.simps) (simp add: Let_def count_def)
  next
    case False
    then show ?thesis using w all_sent_stop [of data sent wire]
      by (subst SendTls.simps) (auto simp: Let_def all_sent_def count_def)
  qed
qed

lemma SendAllData_sent:
  assumes "length data < 2 ^ 31" and "SendAllData tls takes errors data = (wire, ok)"
  shows "prefix wire data \<and> (ok \<longrightarrow> wire = data)"
proof -
  have "all_sent data 0 [] (SendAllData tls takes errors data)"
    using SendAll_sent [OF assms(1)] SendTls_sent by (simp add: SendAllData_def)
  then show ?thesis using assms(2) by (auto simp: all_sent_def take_is_prefix)
qed

section \<open>Properties\<close>

text \<open>C33: However the network cuts the bytes into pieces, with TLS or without, the response a client reads in two steps, header
  and payload, is the one its model takes from the whole of the bytes that arrive, up to the text of the error; for the
  replication client it is exactly that one. And what a client has sent when a send loop ends is the beginning of the
  request frame, the whole of it when the loop reports success.\<close>

theorem pieces_make_no_difference:
  "map_option forget_error (read_pieces tls failure cuts errors c request input) = map_option forget_error (read_answer c request input) \<and>
   read_pieces False failure cuts errors c request input = read_answer c request input \<and>
   rpc_read_pieces cuts input request_id = receive_response input request_id \<and>
   (case EncodeRequest request of
      Inl _ \<Rightarrow> True
    | Inr frame \<Rightarrow> (case SendAllData tls takes errors frame of
        (wire, ok) \<Rightarrow> prefix wire frame \<and> (if ok then wire = frame else True)))"
proof -
  have "case EncodeRequest request of
      Inl _ \<Rightarrow> True
    | Inr frame \<Rightarrow> (case SendAllData tls takes errors frame of
        (wire, ok) \<Rightarrow> prefix wire frame \<and> (if ok then wire = frame else True))"
  proof (cases "EncodeRequest request")
    case (Inr frame)
    then have "length frame < 2 ^ 31" by (auto simp: EncodeRequest_def CheckString_def kMaxPayloadBytes_def split: if_splits)
    then show ?thesis using SendAllData_sent [of frame tls takes errors] Inr by (auto split: prod.splits)
  qed simp
  then show ?thesis using read_pieces_equal [of False] read_pieces_equal rpc_read_pieces_equal by blast
qed

end
