(* ===== verification/Tools.thy ===== *)
theory Tools
  imports Server_Config Replication_Client
begin

text \<open>
  The command line tools over the client library: the administration tool \<^verbatim>\<open>tools/mq_admin.cc\<close> whole, and of the benchmark
  \<^verbatim>\<open>bench/mq_bench.cc\<close> the command line, the size of a batch and the distribution of the messages over the
  connections. A program is given its arguments without its own name and the attempts of its client; its result is the exit
  code and what it prints on the standard output.
\<close>

section \<open>Numbers\<close>

text \<open>\<^verbatim>\<open>std::stoull\<close> with base 10, and the check that all characters were used.\<close>

definition stoull_decimal :: "bytes \<Rightarrow> (u64 \<times> nat) option" where
  "stoull_decimal s =
    (let t1 = dropWhile is_space s;
         negative = t1 \<noteq> [] \<and> hd t1 = 45;
         t2 = (if t1 \<noteq> [] \<and> (hd t1 = 45 \<or> hd t1 = 43) then tl t1 else t1);
         ds = takeWhile (is_digit 10) t2;
         n = digits_value 10 ds
     in if ds = [] \<or> 2 ^ 64 \<le> n then None
        else Some (if negative then - of_nat n else of_nat n, length s - length t2 + length ds))"

definition ParseNumber :: "bytes \<Rightarrow> u64 option" where
  "ParseNumber s =
    (case stoull_decimal s of
       None \<Rightarrow> None
     | Some (v, used) \<Rightarrow> if used = length s then Some v else None)"

section \<open>The administration tool\<close>

record admin_options =
  ad_command :: bytes
  ad_host :: bytes
  ad_port :: u16
  ad_timeout_ms :: u32
  ad_auth_token :: bytes
  ad_topic_name :: bytes
  ad_partitions :: u32

definition default_admin_options :: admin_options where
  "default_admin_options = \<lparr>ad_command = [], ad_host = str ''127.0.0.1'', ad_port = 9092, ad_timeout_ms = 5000, ad_auth_token = [],
     ad_topic_name = [], ad_partitions = 1\<rparr>"

fun parse_admin_options :: "bytes list \<Rightarrow> admin_options \<Rightarrow> admin_options option" where
  "parse_admin_options [] o' = Some o'"
| "parse_admin_options [name] o' = None"
| "parse_admin_options (name # v # rest) o' =
    (if name = str ''--topic'' then parse_admin_options rest (o'\<lparr>ad_topic_name := v\<rparr>)
     else if name = str ''--partitions'' then
       (case ParseNumber v of
          None \<Rightarrow> None
        | Some number \<Rightarrow>
            if number = 0 \<or> number > 0xFFFFFFFF then None
            else parse_admin_options rest (o'\<lparr>ad_partitions := ucast number\<rparr>))
     else if name = str ''--host'' then parse_admin_options rest (o'\<lparr>ad_host := v\<rparr>)
     else if name = str ''--auth-token'' then parse_admin_options rest (o'\<lparr>ad_auth_token := v\<rparr>)
     else if name = str ''--port'' then
       (case ParseNumber v of
          None \<Rightarrow> None
        | Some number \<Rightarrow>
            if number = 0 \<or> number > 65535 then None else parse_admin_options rest (o'\<lparr>ad_port := ucast number\<rparr>))
     else if name = str ''--timeout-ms'' then
       (case ParseNumber v of
          None \<Rightarrow> None
        | Some number \<Rightarrow>
            if number = 0 \<or> number > 0xFFFFFFFF then None else parse_admin_options rest (o'\<lparr>ad_timeout_ms := ucast number\<rparr>))
     else None)"

definition Parse_admin :: "bytes list \<Rightarrow> admin_options option" where
  "Parse_admin arguments =
    (case arguments of
       [] \<Rightarrow> None
     | command # rest \<Rightarrow>
         if arguments = [str ''--help''] then None
         else (case parse_admin_options rest (default_admin_options\<lparr>ad_command := command\<rparr>) of
            None \<Rightarrow> None
          | Some o' \<Rightarrow>
              if command = str ''create-topic'' \<and> ad_topic_name o' = [] then None
              else if command = str ''metrics'' \<or> command = str ''topics'' \<or> command = str ''create-topic'' then Some o'
              else None))"

definition topic_line :: "TopicInfo \<Rightarrow> bytes" where
  "topic_line t = ti_name t @ [9] @ to_string (unat (ti_partitions t)) @ [10]"

text \<open>\<^verbatim>\<open>main\<close>; the usage text is \<open>usage\<close>. The error texts on the standard error stream are left out.\<close>

definition admin_main ::
  "bytes \<Rightarrow> u64 \<Rightarrow> attempt \<Rightarrow> attempt list \<Rightarrow> bytes list \<Rightarrow> (nat \<times> bytes) option" where
  "admin_main usage producer_id io ios arguments =
    (case Parse_admin arguments of
       None \<Rightarrow> Some (if arguments = [str ''--help''] then 0 else 2, usage)
     | Some o' \<Rightarrow>
         let c = setAuthToken (setTimeoutMs (new_client producer_id) (ad_timeout_ms o')) (ad_auth_token o') in
         (case connect io c (ad_host o') (ad_port o') of
            (c1, False) \<Rightarrow> Some (1, [])
          | (c1, True) \<Rightarrow>
              if ad_command o' = str ''metrics'' then do {
                (c2, output) \<leftarrow> metrics ios c1;
                Some (case output of None \<Rightarrow> (1, []) | Some text \<Rightarrow> (0, text)) }
              else if ad_command o' = str ''create-topic'' then do {
                (c2, ok) \<leftarrow> createTopic ios c1 (ad_topic_name o') (ad_partitions o');
                Some (if \<not> ok then (1, [])
                  else (0, str ''topic created: '' @ ad_topic_name o' @ str '' with '' @
                    to_string (unat (ad_partitions o')) @ str '' partitions'' @ [10])) }
              else do {
                (c2, topics) \<leftarrow> listTopics ios c1;
                Some (case topics of
                  None \<Rightarrow> (1, [])
                | Some infos \<Rightarrow> (0, str ''topic'' @ [9] @ str ''partitions'' @ [10] @ concat (map topic_line infos))) }))"

section \<open>The benchmark\<close>

record bench_options =
  bo_mode :: bytes
  bo_topic :: bytes
  bo_host :: bytes
  bo_group :: bytes
  bo_port :: u16
  bo_messages :: u64
  bo_size :: u64
  bo_connections :: u32
  bo_batch :: u32
  bo_partitions :: u32

definition default_bench_options :: bench_options where
  "default_bench_options = \<lparr>bo_mode = [], bo_topic = str ''test'', bo_host = str ''127.0.0.1'', bo_group = str ''bench_group'',
     bo_port = 9092, bo_messages = 1000000, bo_size = 256, bo_connections = 1, bo_batch = 100, bo_partitions = 1\<rparr>"

fun parse_bench_options :: "bytes list \<Rightarrow> bench_options \<Rightarrow> bench_options option" where
  "parse_bench_options [] o' = Some o'"
| "parse_bench_options [key] o' = None"
| "parse_bench_options (key # v # rest) o' =
    (if key = str ''--topic'' then parse_bench_options rest (o'\<lparr>bo_topic := v\<rparr>)
     else if key = str ''--host'' then parse_bench_options rest (o'\<lparr>bo_host := v\<rparr>)
     else if key = str ''--group'' then parse_bench_options rest (o'\<lparr>bo_group := v\<rparr>)
     else (case ParseNumber v of
       None \<Rightarrow> None
     | Some number \<Rightarrow>
         if key = str ''--port'' \<and> number \<le> 65535 then parse_bench_options rest (o'\<lparr>bo_port := ucast number\<rparr>)
         else if key = str ''--messages'' then parse_bench_options rest (o'\<lparr>bo_messages := number\<rparr>)
         else if key = str ''--size'' then parse_bench_options rest (o'\<lparr>bo_size := number\<rparr>)
         else if key = str ''--connections'' \<and> 0 < number \<and> number \<le> 10000
         then parse_bench_options rest (o'\<lparr>bo_connections := ucast number\<rparr>)
         else if key = str ''--batch'' \<and> 0 < number \<and> number \<le> 10000 then parse_bench_options rest (o'\<lparr>bo_batch := ucast number\<rparr>)
         else if key = str ''--partitions'' \<and> 0 < number \<and> number \<le> 1024
         then parse_bench_options rest (o'\<lparr>bo_partitions := ucast number\<rparr>)
         else None))"

definition Parse_bench :: "bytes list \<Rightarrow> bench_options option" where
  "Parse_bench arguments =
    (case arguments of
       [] \<Rightarrow> None
     | mode # rest \<Rightarrow>
         (case parse_bench_options rest (default_bench_options\<lparr>bo_mode := mode\<rparr>) of
            None \<Rightarrow> None
          | Some o' \<Rightarrow> if 0 < bo_messages o' \<and> 0 < bo_size o' then Some o' else None))"

text \<open>The arithmetic is on 64 bit words; \<open>None\<close> is a division by zero.\<close>

definition EffectiveBatch :: "bench_options \<Rightarrow> u32 option" where
  "EffectiveBatch o' =
    (let per_message = 2 + 64 + 4 + bo_size o' in
     if per_message + 20 > of_nat kMaxPayloadBytes then Some 0
     else if per_message = 0 then None
     else
       let maximum = (of_nat kMaxPayloadBytes - 20) div per_message in
       Some (ucast (max 1 (min (ucast (bo_batch o')) maximum) :: u64)))"

text \<open>\<^verbatim>\<open>ResolveTopicPartitions\<close>: \<open>io\<close> is the connection, \<open>ios\<close> the attempts of the query.\<close>

definition ResolveTopicPartitions :: "u64 \<Rightarrow> attempt \<Rightarrow> attempt list \<Rightarrow> bench_options \<Rightarrow> u32 option option" where
  "ResolveTopicPartitions producer_id io ios o' =
    (case connect io (new_client producer_id) (bo_host o') (bo_port o') of
       (c, False) \<Rightarrow> Some None
     | (c, True) \<Rightarrow> do {
         (c1, topics) \<leftarrow> listTopics ios c;
         Some (case topics of
           None \<Rightarrow> None
         | Some infos \<Rightarrow> map_option ti_partitions (find (\<lambda>t. ti_name t = bo_topic o' \<and> 0 < ti_partitions t) infos)) })"

section \<open>Creating a topic from the command line\<close>

definition admin_client :: "u64 \<Rightarrow> admin_options \<Rightarrow> client" where
  "admin_client producer_id o' =
    (setAuthToken (setTimeoutMs (new_client producer_id) (ad_timeout_ms o')) (ad_auth_token o'))
      \<lparr>cl_host := ad_host o', cl_port := ad_port o', cl_endpoints := [(ad_host o', ad_port o')], cl_connected := True\<rparr>"

lemma connect_via:
  assumes "ad_host o' \<noteq> []"
  shows "connect (via io b) (setAuthToken (setTimeoutMs (new_client producer_id) (ad_timeout_ms o')) (ad_auth_token o')) (ad_host o') (ad_port o')
    = (admin_client producer_id o', True)"
  using assms
  by (simp add: connect_def Connect_def Close_def admin_client_def setAuthToken_def setTimeoutMs_def new_client_def first_reachable_def
      via_def Let_def)

definition create_request :: "bytes \<Rightarrow> u32 \<Rightarrow> Request" where
  "create_request name partitions = default_Request\<lparr>req_command := kCreateTopic, req_topic := name, req_payload := Put32 partitions\<rparr>"

definition topic_created :: "broker \<Rightarrow> broker \<Rightarrow> bytes \<Rightarrow> u32 \<Rightarrow> bool" where
  "topic_created b b' name partitions \<longleftrightarrow> map_of (br_queues b) name = None \<and>
     metadata_ok \<lparr>tm_name = name, tm_partition_count = partitions\<rparr> \<and>
     map_of (br_queues b') = (map_of (br_queues b))(name \<mapsto> \<lparr>tm_name = name, tm_partition_count = partitions\<rparr>)"

lemma HandleCreateTopic_run:
  assumes "req_payload request = Put32 partitions"
  obtains b' st where "HandleCreateTopic io b request = Some (b', MakeResponse request st [])"
    and "st \<in> {kOk, kTopicExists, kBadRequest, kStorageError}"
    and "if st = kOk then topic_created b b' (req_topic request) partitions else map_of (br_queues b') = map_of (br_queues b)"
proof -
  let ?name = "req_topic request"
  obtain queues r where c: "CreateTopic (br_queues b) ?name partitions = (queues, r)" by fastforce
  have get: "Get32 (Put32 partitions) 0 = Some partitions" using Get32_at [of 0 "[]" partitions "[]"] by simp
  show thesis
  proof (cases r)
    case (Inl e)
    then have "queues = br_queues b" using CreateTopic_Inl [of "br_queues b" ?name partitions e] c by simp
    then show thesis using assms c get Inl by (intro that) (auto simp: HandleCreateTopic_def split: if_splits)
  next
    case (Inr u)
    then have new: "map_of (br_queues b) ?name = None" "metadata_ok \<lparr>tm_name = ?name, tm_partition_count = partitions\<rparr>"
        "map_of queues = (map_of (br_queues b))(?name \<mapsto> \<lparr>tm_name = ?name, tm_partition_count = partitions\<rparr>)"
      using CreateTopic_Inr [of "br_queues b" ?name partitions] CreateTopic_map_of [of "br_queues b" ?name partitions u] c by simp_all
    obtain files w where w: "TopicMetadataStore_Save (bi_save_topics io 0) (br_metadata_files b) (ListTopics queues) = (files, w)" by fastforce
    show thesis
    proof (cases w)
      case e: (Inl e)
      have "map_of (fst (DeleteTopic queues ?name)) = map_of (br_queues b)"
        using new by (auto simp: DeleteTopic_map_of)
      then show thesis using assms c get Inr w e by (intro that) (auto simp: HandleCreateTopic_def)
    next
      case v: (Inr v)
      then show thesis using assms c get Inr w new by (intro that) (auto simp: HandleCreateTopic_def topic_created_def)
    qed
  qed
qed

lemma create_request_sent:
  assumes "length name \<le> 65535" and "length (cl_auth_token c) \<le> 65535"
  shows "plain (create_request name partitions)" and "wf_Request (sent_request c (create_request name partitions))"
  using assms
  by (auto simp: plain_def create_request_def default_Request_def wf_Request_def sent_request_def add_token_def kMaxPayloadBytes_def)

lemma admin_creates:
  assumes args: "Parse_admin arguments = Some o'" "ad_command o' = str ''create-topic''" and host: "ad_host o' \<noteq> []"
    and topic: "length (ad_topic_name o') \<le> 65535" and acc: "accepts b (admin_client producer_id o') kCreateTopic (ad_topic_name o')"
  shows "\<exists>b' r code printed.
    Handle io b (sent_request (admin_client producer_id o') (create_request (ad_topic_name o') (ad_partitions o'))) = Some (b', r) \<and>
    admin_main usage producer_id (via io b) [via io b] arguments = Some (code, printed) \<and> code = (if resp_status r = kOk then 0 else 1) \<and>
    (if code = 0 then topic_created b b' (ad_topic_name o') (ad_partitions o') else map_of (br_queues b') = map_of (br_queues b))"
proof -
  let ?c = "admin_client producer_id o'" and ?q = "create_request (ad_topic_name o') (ad_partitions o')"
  let ?r = "?q\<lparr>req_id := cl_request_id ?c\<rparr>"
  have token: "length (cl_auth_token ?c) \<le> 65535" using acc by (simp add: accepts_def)
  have parts: "req_topic ?q = ad_topic_name o'" "req_command ?q = kCreateTopic" "req_payload ?r = Put32 (ad_partitions o')"
    "req_topic ?r = ad_topic_name o'"
    by (simp_all add: create_request_def)
  obtain b1 st where run: "HandleCreateTopic io (counted kCreateTopic b) ?r = Some (b1, MakeResponse ?r st [])"
    and st: "st \<in> {kOk, kTopicExists, kBadRequest, kStorageError}"
    and eff: "if st = kOk then topic_created (counted kCreateTopic b) b1 (ad_topic_name o') (ad_partitions o')
      else map_of (br_queues b1) = map_of (br_queues (counted kCreateTopic b))"
    using HandleCreateTopic_run [OF parts(3)] parts(4) by metis
  define b' where "b' = (if st \<noteq> kOk then b1\<lparr>br_error_count := br_error_count b1 + 1\<rparr> else b1)"
  have handled: "Handle io b (sent_request ?c ?q) = Some (b', MakeResponse ?r st [])"
    using Handle_client [of b ?c ?q io b1 "MakeResponse ?r st []"] acc parts run create_request_sent(1) [OF topic token]
    by (simp add: b'_def MakeResponse_def)
  have wf: "wf_Response (MakeResponse ?r st [])" using st by (auto simp: wf_Response_def MakeResponse_def default_Response_def)
  have "Call [via io b] ?c ?q = Some (?c\<lparr>cl_request_id := cl_request_id ?c + 1, cl_backoff := 100\<rparr>, Some (MakeResponse ?r st []))"
    using st by (intro Call_via [OF _ token create_request_sent(2) [OF topic token] handled wf])
      (auto simp: admin_client_def MakeResponse_def default_Response_def)
  then have "createTopic [via io b] ?c (ad_topic_name o') (ad_partitions o') =
      Some (?c\<lparr>cl_request_id := cl_request_id ?c + 1, cl_backoff := 100\<rparr>, st = kOk)"
    by (simp add: createTopic_def create_request_def is_ok_def MakeResponse_def default_Response_def)
  then have "\<exists>printed. admin_main usage producer_id (via io b) [via io b] arguments = Some (if st = kOk then 0 else 1, printed)"
    using args connect_via [OF host, of io b producer_id] by (simp add: admin_main_def Let_def str_def)
  then obtain printed where out: "admin_main usage producer_id (via io b) [via io b] arguments = Some (if st = kOk then 0 else 1, printed)"
    by blast
  have "if st = kOk then topic_created b b' (ad_topic_name o') (ad_partitions o') else map_of (br_queues b') = map_of (br_queues b)"
    using eff by (simp add: b'_def topic_created_def split: if_splits)
  then show ?thesis using handled out by (auto simp: MakeResponse_def default_Response_def)
qed

section \<open>Batches of the benchmark\<close>

text \<open>A size that wraps the number of bytes of a message to zero crashes the benchmark; a negative number does.\<close>

lemma bench_division_by_zero: "bo_size o' = - 70 \<Longrightarrow> EffectiveBatch o' = None"
  by (simp add: EffectiveBatch_def kMaxPayloadBytes_def)

lemma bench_accepts_negative_size:
  "\<exists>o'. Parse_bench [str ''produce'', str ''--size'', str ''-70''] = Some o' \<and> EffectiveBatch o' = None"
proof -
  have "ParseNumber (str ''-70'') = Some (- 70)"
    by (simp add: ParseNumber_def stoull_decimal_def str_def of_char_def is_space_def is_digit_def digit_of_def digits_value_def Let_def)
  then have "Parse_bench [str ''produce'', str ''--size'', str ''-70''] = Some (default_bench_options\<lparr>bo_mode := str ''produce'', bo_size := - 70\<rparr>)"
    by (simp add: Parse_bench_def default_bench_options_def word_gt_0 str_def of_char_def)
  then show ?thesis using bench_division_by_zero by simp
qed

text \<open>Otherwise a batch of messages with the benchmark's keys fits into a request.\<close>

lemma EffectiveBatch_bound:
  assumes "EffectiveBatch o' = Some batch" and "batch \<noteq> 0" and "unat (bo_size o') + 90 < 2 ^ 64"
  shows "20 + unat batch * (70 + unat (bo_size o')) \<le> kMaxPayloadBytes"
proof -
  let ?per = "2 + 64 + 4 + bo_size o'" and ?max = "of_nat kMaxPayloadBytes :: u64"
  have per: "unat ?per = 70 + unat (bo_size o')" using assms(3) by (subst unat_add_lem [THEN iffD1]) simp_all
  have more: "unat (?per + 20) = 90 + unat (bo_size o')" using assms(3) per by (subst unat_add_lem [THEN iffD1]) simp_all
  have max: "unat ?max = 1048576" "unat (?max - 20) = 1048556" by (simp_all add: kMaxPayloadBytes_def)
  have small: "\<not> ?per + 20 > ?max" using assms(1,2) by (auto simp: EffectiveBatch_def Let_def split: if_splits)
  then have size: "90 + unat (bo_size o') \<le> 1048576" using more max(1) by (simp add: not_less word_le_nat_alt)
  define maximum where "maximum = (?max - 20) div ?per"
  have m: "unat maximum = 1048556 div (70 + unat (bo_size o'))" unfolding maximum_def using per max(2) by (simp only: unat_div)
  then have m1: "1 \<le> unat maximum" "unat maximum \<le> 1048556" using size by (simp_all add: less_eq_div_iff_mult_less_eq)
  let ?b = "max 1 (min (ucast (bo_batch o')) maximum) :: u64"
  have "1 \<le> maximum" using m1(1) by (simp add: word_le_nat_alt)
  then have "?b \<le> maximum" by (intro max.boundedI min.cobounded2)
  then have b: "unat ?b \<le> unat maximum" by (simp add: word_le_nat_alt)
  have "batch = ucast ?b" using assms(1) small assms(2) by (auto simp: EffectiveBatch_def maximum_def Let_def split: if_splits)
  then have "unat batch = unat ?b" using b m1(2) by (simp add: unat_ucast_fits)
  then have "unat batch * (70 + unat (bo_size o')) \<le> (1048556 div (70 + unat (bo_size o'))) * (70 + unat (bo_size o'))"
    using b m by simp
  also have "\<dots> \<le> 1048556" by simp
  finally show ?thesis by (simp add: kMaxPayloadBytes_def)
qed

lemma EffectiveBatch_fits:
  assumes "EffectiveBatch o' = Some batch" and "batch \<noteq> 0" and "unat (bo_size o') + 90 < 2 ^ 64"
    and "length messages \<le> unat batch"
    and "\<And>m. m \<in> set messages \<Longrightarrow> length (pm_key m) \<le> 64 \<and> length (pm_value m) = unat (bo_size o')"
  shows "length (req_payload (batch_request c topic messages ack)) \<le> kMaxPayloadBytes"
proof -
  have "length (concat (map (\<lambda>m. message_bytes_of (pm_key m) (pm_value m)) messages)) \<le> length messages * (70 + unat (bo_size o'))"
    using assms(5)
  proof (induction messages)
    case (Cons m ms)
    then have "length (message_bytes_of (pm_key m) (pm_value m)) \<le> 70 + unat (bo_size o')" by (simp add: message_bytes_of_def)
    then show ?case using Cons by simp
  qed simp
  also have "\<dots> \<le> unat batch * (70 + unat (bo_size o'))" using assms(4) by simp
  finally show ?thesis using EffectiveBatch_bound [OF assms(1-3)] by (simp add: batch_request_def)
qed

end
