(* ===== verification/Spec2Isabelle.thy ===== *)
theory Spec2Isabelle
  imports Prelude Protocol Topic Queue_Manager Stores Group_Coordinator Wal Storage Storage_Log
    Replication Election Broker Broker_Data Broker_Cluster Broker_Safety Broker_Limits
    Broker_Log Broker_Retry Broker_Access Broker_Groups Broker_Turns Client Network Tcp_Server End_To_End Replication_Client
    Mpmc_Queue Thread_Pool Server_Config Broker_Types Allocators Logging Event_Loop
    Server_Lifecycle Tls Transport Tools
begin

text \<open>
  A verification library for the message queue under \<^verbatim>\<open>src/\<close>: a broker that keeps topics of numbered partitions on
  disk, a client library for producers and consumers, and replication between brokers.

  \<^bold>\<open>The program and its parts.\<close> A producer or consumer (\<^verbatim>\<open>src/client/mq_client.cc\<close>) sends request frames
  (\<^verbatim>\<open>src/protocol/protocol_codec.cc\<close>) over TCP. A reactor of the server (\<^verbatim>\<open>src/network/tcp_server.cc\<close>, with the
  buffers and connections of \<^verbatim>\<open>src/network\<close>) cuts the byte stream into requests, gives them to a thread pool
  (\<^verbatim>\<open>src/core/thread_pool.cc\<close> over the lock-free ring of \<^verbatim>\<open>include/mq/core/buffer.h\<close>) and sends the responses back in
  the order of completion. A request is answered by \<^verbatim>\<open>Broker::Handle\<close> (\<^verbatim>\<open>src/server/broker.cc\<close>), which
  checks tokens and permissions and calls one handler. The handlers use the topic table
  (\<^verbatim>\<open>src/core/queue_manager.cc\<close>), the storage engine with its write-ahead log
  (\<^verbatim>\<open>src/core/storage/storage_engine.cc\<close>), the consumer groups (\<^verbatim>\<open>src/core/consumer_group_coordinator.cc\<close>), the two
  snapshot files (\<^verbatim>\<open>src/core/topic_metadata_store.cc\<close> and \<^verbatim>\<open>consumer_offset_store.cc\<close>) and the replication coordinator
  (\<^verbatim>\<open>src/server/replication.cc\<close>). A replication thread of the broker runs elections and copies messages with
  \<^verbatim>\<open>src/server/replication_client.cc\<close>. \<^verbatim>\<open>src/server/main.cc\<close> reads the configuration and assembles all this.

  \<^bold>\<open>Theories and the code they model.\<close>
  \<^item> \<open>Prelude\<close>: bytes, big-endian integers with explicit range checks, decimal numbers, lemmas shared by all.
  \<^item> \<open>Protocol\<close>: \<^verbatim>\<open>commands.h\<close> and \<^verbatim>\<open>protocol_codec.cc\<close>. \<open>EncodeRequest\<close>, \<open>DecodeRequest\<close>, \<open>EncodeResponse\<close>,
    \<open>DecodeResponse\<close> and \<open>Push\<close>, the stream decoder. Shown: round trips, no read outside the input whatever the
    bytes, and for every way of cutting a stream that it is reassembled into its requests, or that the decoder fails at
    the first piece that does not fit its buffer, with all requests before it delivered.
  \<^item> \<open>Topic\<close>: \<^verbatim>\<open>topic.cc\<close>. The UTF-8 loop accepts exactly the concatenations of encoded scalar values.
  \<^item> \<open>Queue_Manager\<close>: \<^verbatim>\<open>queue_manager.cc\<close>. The table refines a finite map (\<open>topic_registry\<close>); routing stays inside
    the topic.
  \<^item> \<open>Stores\<close>: both snapshot files, with one proof of the loading loop for the locale \<open>record_format\<close>: what is saved is
    loaded, a torn file is refused.
  \<^item> \<open>Group_Coordinator\<close>: the groups. At any moment the members' shares split the subscribed partitions.
  \<^item> \<open>Wal\<close>, \<open>Storage\<close>, \<open>Storage_Log\<close>: the log. Records round trip, recovery keeps exactly the complete records and stops at
    a corrupted one; memory and disk of a partition agree (\<open>part_ok\<close>, \<open>engine_ok\<close>); \<^verbatim>\<open>Append\<close> is described on every branch with an
    operating system that may refuse anything, and acknowledged messages survive restarts as long as no failing write leaves part of a
    record behind (\<open>clean_writes\<close>, locale \<open>durable_log\<close>); reads return the longest run that fits, retention removes whole old segments; and a
    restart after retention loses the log, because \<^verbatim>\<open>Recover\<close> expects offset 0.
  \<^item> \<open>Replication\<close>, \<open>Election\<close>: \<^verbatim>\<open>replication.cc\<close>. All operations of the coordinator with its state file; a cluster of
    nodes with crashes, failing saves (\<open>persist_io\<close>, chosen anew for every save) and a lossy network as a step relation, in
    which \<open>survives\<close> says with which state files a crashed node may come back. At most one node wins each term when restarted nodes find
    their term and vote saved (\<open>state_saved\<close>, locale \<open>quorum_system\<close>), and not without that condition; the commit index needs
    a majority of the cluster with fresh reports; a restarted node keeps its configured role, which gives a second
    leader.
  \<^item> \<open>Broker\<close>, \<open>Broker_Data\<close>, \<open>Broker_Cluster\<close>: \<^verbatim>\<open>broker.cc\<close>, one record field per data member and one definition per
    handler; \<open>Handle\<close> composes them, \<open>replication_turn\<close> is the body of the replication thread's loop.
  \<^item> \<open>Broker_Safety\<close>: every handler is defined on every payload, except a replica append of certain lengths; without a token
    a request changes only counters.
  \<^item> \<open>Broker_Types\<close>: the tables of a broker stay well formed in every reachable state, and every answer is a response the
    encoder accepts, with the id of its request.
  \<^item> \<open>Broker_Limits\<close>: what the rate limit and the byte quota admit in any interval.
  \<^item> \<open>Broker_Log\<close>: produce requests and committed offsets against the log of \<open>Storage_Log\<close>.
  \<^item> \<open>Broker_Retry\<close>: runs of a broker (\<open>broker_run\<close>: any requests and turns of the replication thread) keep the answers in
    the idempotency cache, so a retry writes nothing, until the entry expires or the topic is deleted.
  \<^item> \<open>Broker_Access\<close>: such runs keep the tokens and the permissions, and what an answer OK says about its request.
  \<^item> \<open>Broker_Groups\<close>, \<open>Broker_Turns\<close>: where the broker misreads the group requests of its own client, and how a broker
    without peers loses and regains leadership.
  \<^item> \<open>Client\<close>, \<open>End_To_End\<close>: \<^verbatim>\<open>mq_client.cc\<close>, and client and broker joined by a connection (\<open>via\<close>): a produced
    message is polled, and after a commit over the network the group reads the log from the committed offset on, in order and
    without gaps.
  \<^item> \<open>Replication_Client\<close>: \<^verbatim>\<open>replication_client.cc\<close> joined with the handlers of the peer: votes, appends and pulls do on the
    peer what the caller asked for, and a follower that pulls from its end catches up.
  \<^item> \<open>Network\<close>, \<open>Tcp_Server\<close>: memory pool, read buffer, connection and one reactor. The buffers are byte queues (locale
    \<open>byte_queue\<close>); in every reachable state of the reactor the bytes sent on a connection are a prefix of whole responses to
    requests of that connection.
  \<^item> \<open>Event_Loop\<close>, \<open>Server_Lifecycle\<close>: \<^verbatim>\<open>event_loop.cc\<close> and \<^verbatim>\<open>Start\<close> and \<^verbatim>\<open>Stop\<close> of \<^verbatim>\<open>tcp_server.cc\<close>. Tasks run in the
    order of acceptance and none is left when the loop returns; a start that returns false and a stop leave no descriptor
    open, a start that throws leaves the listener open until the stop; a server serves only while its worker pool has not been
    shut down.
  \<^item> \<open>Tls\<close>, \<open>Transport\<close>: \<^verbatim>\<open>tls.cc\<close> with the results of OpenSSL as arguments, the connection of a client and its loops for
    sending and receiving. TLS is never skipped when it is enabled, nothing is leaked, and the way the network cuts the bytes
    makes no difference to what the models of the clients take from them.
  \<^item> \<open>Mpmc_Queue\<close>, \<open>Thread_Pool\<close>: the ring and the pool as interleavings of atomic steps: no value is lost or
    duplicated, every accepted task is run once.
  \<^item> \<open>Server_Config\<close>: \<^verbatim>\<open>main.cc\<close>. The configuration file is read back as written, and what it says about tokens,
    permissions and topics is what the running broker enforces in every state it reaches.
  \<^item> \<open>Allocators\<close>: \<^verbatim>\<open>slab_allocator.cc\<close> and \<^verbatim>\<open>object_pool.h\<close> (locale \<open>block_source\<close>): blocks in use are disjoint and
    inside the pools.
  \<^item> \<open>Logging\<close>: \<^verbatim>\<open>logger.cc\<close>. A log file within its limit stays there, whatever the file system refuses, and its lines are
    the last ones logged; a file above its limit is never rotated.
  \<^item> \<open>Tools\<close>: \<^verbatim>\<open>tools/mq_admin.cc\<close>, and the command line and batch size of \<^verbatim>\<open>bench/mq_bench.cc\<close>. Creating a topic from the
    command line creates it on the broker exactly when the tool exits with 0; a batch of the benchmark fits into a request,
    unless its size wraps around.

  \<^bold>\<open>How state and effects are modelled.\<close> A class is a record with one field per data member, an operation a function from
  the state and its arguments to the new state and its result. Operations that hold the mutex of their class throughout are
  one step. \<open>Handle\<close> is one step too, although \<^verbatim>\<open>broker.h\<close> lets several threads call it and its handlers take the mutexes of
  the tables they use one after the other: the theorems about runs of a broker hold for requests that are handled one at
  a time, in any order. An error return is \<open>Inl\<close> with the text of the code; a read outside a buffer or payload is \<open>None\<close>, so that
  memory safety is a theorem. Integers that travel or count without bound are words of their C++ width; sizes are natural
  numbers, and where the code subtracts them the subtraction wraps (\<open>size_sub\<close>). What the operating system, the
  clocks and the peers decide are arguments, collected in records such as \<open>storage_io\<close>, \<open>broker_io\<close>, \<open>loop_io\<close> and
  \<open>rpc_io\<close>; the theorems quantify over them, or name the outcomes they need. The laws one component promises another are
  locales, interpreted on the model's own definitions where they are provided.

  \<^bold>\<open>Bounds and termination.\<close> No definition uses fuel for a loop of the code: the loops consume bytes, list elements or
  segments, and are functions with a termination proof. The only iterations without such a measure are the reactor, the event
  loop, the thread pool, the ring and the replication thread, which are step relations or lists of turns; the clearing loop of the ring's
  destructor is \<open>partial_function (option)\<close> and is proved to end, and so is the handshake loop of a client, which is proved to
  end exactly when the handshake does.

  \<^bold>\<open>Not modelled.\<close> The inside of OpenSSL and of the socket system calls: their outcomes are arguments.
  The Windows branches of the network code and signals. The worker threads
  and the report of the benchmark, and the tests. The steps of \<open>Mpmc_Queue\<close> are sequentially consistent; weaker
  orders of the memory model are not considered, and its positions do not wrap. Interleavings of several \<^verbatim>\<open>Handle\<close> calls
  inside a broker. The handler around the loop of a pool worker, which ends the worker when a mutex or a condition variable
  fails. The descriptor that \<^verbatim>\<open>AddClient\<close> closes when it is already a client of the reactor. The \<^verbatim>\<open>long double\<close> token count is an exact rational.
\<close>

end
